(* ===== verification/Prelude.thy ===== *)
theory Prelude
  imports Main "HOL-Library.Word"
begin

text \<open>
  Shared vocabulary of the development: machine integer types, the named collections of
  facts, and the lemmas on words and lists that several components use.
\<close>

unbundle bit_operations_syntax

type_synonym u8 = "8 word"
type_synonym u16 = "16 word"
type_synonym u32 = "32 word"
type_synonym u64 = "64 word"

named_theorems mem_simps \<open>closed forms of the memory operations\<close>
named_theorems step_defs \<open>definitions of operations, unfolded together in frame proofs\<close>
named_theorems inv_intros \<open>preservation lemmas of component invariants\<close>

section \<open>Words as addresses\<close>

text \<open>
  A range of addresses \<open>[p, p + n)\<close> is described by the unsigned distance from its start,
  which stays correct when the range wraps around the end of the address space.
\<close>

lemma unat_lt2p: "unat (x :: 'a::len word) < 2 ^ LENGTH('a)"
  by (rule unsigned_less)

lemma unat_lt32 [simp]: "unat (x :: u32) < 4294967296"
  using unat_lt2p [of x] by simp

lemma unat_diff_succ:
  fixes a p :: "'a::len word"
  assumes "a \<noteq> p"
  shows "unat (a - (p + 1)) = unat (a - p) - 1"
proof -
  have eq: "a - (p + 1) = (a - p) - 1" by (simp add: algebra_simps)
  have "a - p \<noteq> 0" using assms by simp
  then show ?thesis unfolding eq by (rule unat_minus_one)
qed

lemma unat_diff_pos:
  fixes a p :: "'a::len word"
  shows "a \<noteq> p \<Longrightarrow> 0 < unat (a - p)"
  by (metis eq_iff_diff_eq_0 gr0I unat_eq_zero)

lemma unat_minus1_word:
  fixes p :: "'a::len word"
  shows "unat (p - (p + 1)) = 2 ^ LENGTH('a) - 1"
proof -
  have "p - (p + 1) = - 1" by (simp add: algebra_simps)
  then show ?thesis by (simp add: unsigned_minus_1_eq_mask mask_eq_exp_minus_1)
qed

lemma unat_diff_swap:
  fixes a b :: "'a::len word"
  assumes "a \<noteq> b"
  shows "unat (a - b) + unat (b - a) = 2 ^ LENGTH('a)"
proof -
  have "unat (a - b) + unat (b - a) = 0 \<or> unat (a - b) + unat (b - a) = 2 ^ LENGTH('a)"
  proof -
    have "unat ((a - b) + (b - a)) = 0" by simp
    then have dvd: "(unat (a - b) + unat (b - a)) mod 2 ^ LENGTH('a) = 0"
      by (simp only: unat_word_ariths)
    have "unat (a - b) + unat (b - a) < 2 * 2 ^ LENGTH('a)"
      using add_strict_mono [OF unat_lt2p [of "a - b"] unat_lt2p [of "b - a"]]
      by (simp only: mult_2)
    then show ?thesis using dvd by (auto simp: dvd_eq_mod_eq_0 [symmetric] less_2_cases_iff elim!: dvdE)
  qed
  then show ?thesis using unat_diff_pos [OF assms] by simp
qed

lemma unat_word_of_nat_less:
  "n < 2 ^ LENGTH('a) \<Longrightarrow> unat (word_of_nat n :: 'a::len word) = n"
  by (simp add: unat_of_nat take_bit_nat_eq_self)

lemma of_nat_eq_iff_small:
  "i < 2 ^ LENGTH('a) \<Longrightarrow> j < 2 ^ LENGTH('a) \<Longrightarrow>
     (word_of_nat i :: 'a::len word) = word_of_nat j \<longleftrightarrow> i = j"
  by (metis unat_word_of_nat_less)

section \<open>Lists\<close>

lemma replicate_update_same: "(replicate n x)[i := x] = replicate n x"
  by (induction n arbitrary: i) (auto split: nat.splits)

lemma sum_list_update_nat:
  fixes f :: "'a \<Rightarrow> nat"
  shows "i < length xs \<Longrightarrow>
    sum_list (map f (xs[i := v])) + f (xs ! i) = sum_list (map f xs) + f v"
  by (induction xs arbitrary: i) (auto split: nat.splits)

end
