(* ===== verification/LibRand.thy ===== *)
theory LibRand
  imports Prelude
begin

text \<open>
  The pseudo-random generator of \<open>pset3/lib.c\<close>: a linear congruential generator on an
  \<open>unsigned\<close> seed, seeded on first use unless \<open>srand\<close> was called. The record \<open>rng\<close>
  holds the two static variables.
\<close>

record rng =
  rand_seed_set :: bool
  rand_seed :: u32

definition srand :: "u32 \<Rightarrow> rng \<Rightarrow> rng" where
  "srand seed r = r\<lparr>rand_seed := seed, rand_seed_set := True\<rparr>"

definition lcg_step :: "u32 \<Rightarrow> u32" where
  "lcg_step s = s * 1664525 + 1013904223"

definition rand :: "rng \<Rightarrow> u32 \<times> rng" where
  "rand r =
     (let r1 = (if \<not> rand_seed_set r then srand 819234718 r else r);
          r2 = r1\<lparr>rand_seed := lcg_step (rand_seed r1)\<rparr>
      in (rand_seed r2 AND 0x7FFFFFFF, r2))"

fun rand_seq :: "nat \<Rightarrow> rng \<Rightarrow> u32 list" where
  "rand_seq 0 r = []"
| "rand_seq (Suc n) r = (let (x, r') = rand r in x # rand_seq n r')"

lemma rand_result_bound: "unat (fst (rand r)) < 2 ^ 31"
proof -
  have "fst (rand r) \<le> 0x7FFFFFFF" by (simp add: rand_def Let_def word_and_le1)
  then have "unat (fst (rand r)) \<le> unat (0x7FFFFFFF :: u32)" by (simp only: word_le_nat_alt)
  then show ?thesis by simp
qed

text \<open>The multiplier is odd, hence invertible: distinct seeds never merge.\<close>

lemma lcg_multiplier_inverse: "(1664525 :: u32) * 4276115653 = 1"
  by simp

lemma lcg_step_inverse: "(lcg_step s - 1013904223) * 4276115653 = s"
proof -
  have "(lcg_step s - 1013904223) * 4276115653 = s * (1664525 * 4276115653)"
    unfolding lcg_step_def by (simp only: add_diff_cancel mult.assoc)
  then show ?thesis by (simp only: lcg_multiplier_inverse mult_1_right)
qed

lemma lcg_step_surj: "lcg_step ((t - 1013904223) * 4276115653) = t"
proof -
  have "lcg_step ((t - 1013904223) * 4276115653) = (t - 1013904223) * (1664525 * 4276115653) + 1013904223"
    unfolding lcg_step_def by (simp only: mult.assoc mult.commute [of 4276115653])
  then show ?thesis by (simp only: lcg_multiplier_inverse mult_1_right diff_add_cancel)
qed

lemma lcg_step_bij: "bij lcg_step"
  by (rule bij_betw_byWitness [where f' = "\<lambda>t. (t - 1013904223) * 4276115653"])
     (simp_all only: lcg_step_inverse lcg_step_surj subset_UNIV ball_UNIV simp_thms)

lemma rand_seq_srand: "rand_seq n (srand s r) = rand_seq n (srand s r')"
proof (cases n)
  case (Suc k)
  have "snd (rand (srand s r)) = \<lparr>rand_seed_set = True, rand_seed = lcg_step s\<rparr>" for r
    by (cases r) (simp add: rand_def srand_def Let_def)
  moreover have "fst (rand (srand s r)) = fst (rand (srand s r'))"
    by (simp add: rand_def srand_def Let_def)
  ultimately show ?thesis using Suc by (simp add: split_beta Let_def)
qed simp

lemma rand_unseeded: "\<not> rand_seed_set r \<Longrightarrow> rand r = rand (srand 819234718 r)"
  by (cases r) (simp add: rand_def srand_def Let_def)

text \<open>
  \<open>rand\<close> returns a value below 2^31 and steps the seed by a bijection, so the generator
  never falls into a shorter orbit; a seed set by \<open>srand\<close> determines every later value, and a
  generator used without \<open>srand\<close> behaves as one seeded with 819234718.
\<close>

theorem rand_contract:
  "unat (fst (rand r)) < 2 ^ 31 \<and> bij lcg_step
   \<and> rand_seq n (srand s r) = rand_seq n (srand s r')
   \<and> (rand_seed_set r \<or> rand r = rand (srand 819234718 r))"
  using rand_result_bound lcg_step_bij rand_seq_srand rand_unseeded by blast

end
