(* ===== verification/CMemory.thy ===== *)
theory CMemory
  imports Prelude
begin

text \<open>
  Byte-addressed 32-bit memory and the memory routines of \<open>pset3/lib.c\<close>
  (\<open>memcpy\<close>, \<open>memmove\<close>, \<open>memset\<close>). Loops over a \<open>size_t\<close> counter are primitive
  recursions on its value; pointers are 32-bit words and wrap as they do on the machine.
  The functions return the new memory; their C result is the unchanged first argument.
\<close>

type_synonym mem = "u32 \<Rightarrow> u8"

section \<open>Operations\<close>

primrec memcpy_loop :: "mem \<Rightarrow> u32 \<Rightarrow> u32 \<Rightarrow> nat \<Rightarrow> mem" where
  "memcpy_loop m d s 0 = m"
| "memcpy_loop m d s (Suc n) = memcpy_loop (m(d := m s)) (d + 1) (s + 1) n"

definition memcpy :: "mem \<Rightarrow> u32 \<Rightarrow> u32 \<Rightarrow> u32 \<Rightarrow> mem" where
  "memcpy m dst src n = memcpy_loop m dst src (unat n)"

primrec memmove_back :: "mem \<Rightarrow> u32 \<Rightarrow> u32 \<Rightarrow> nat \<Rightarrow> mem" where
  "memmove_back m d s 0 = m"
| "memmove_back m d s (Suc n) = memmove_back (m(d - 1 := m (s - 1))) (d - 1) (s - 1) n"

definition memmove :: "mem \<Rightarrow> u32 \<Rightarrow> u32 \<Rightarrow> u32 \<Rightarrow> mem" where
  "memmove m dst src n =
     (if src < dst \<and> src + n > dst
      then memmove_back m (dst + n) (src + n) (unat n)
      else memcpy_loop m dst src (unat n))"

primrec memset_loop :: "mem \<Rightarrow> u32 \<Rightarrow> u8 \<Rightarrow> nat \<Rightarrow> mem" where
  "memset_loop m p c 0 = m"
| "memset_loop m p c (Suc n) = memset_loop (m(p := c)) (p + 1) c n"

definition memset :: "mem \<Rightarrow> u32 \<Rightarrow> u32 \<Rightarrow> u32 \<Rightarrow> mem" where
  "memset m v c n = memset_loop m v (ucast c) (unat n)"

text \<open>Little-endian 32-bit reads and writes, as the compiled code makes them.\<close>

definition load32 :: "mem \<Rightarrow> u32 \<Rightarrow> u32" where
  "load32 m a = ucast (m a) OR push_bit 8 (ucast (m (a + 1)))
     OR push_bit 16 (ucast (m (a + 2))) OR push_bit 24 (ucast (m (a + 3)))"

definition store32 :: "mem \<Rightarrow> u32 \<Rightarrow> u32 \<Rightarrow> mem" where
  "store32 m a v = m(a := ucast v, a + 1 := ucast (drop_bit 8 v),
     a + 2 := ucast (drop_bit 16 v), a + 3 := ucast (drop_bit 24 v))"

section \<open>Closed forms\<close>

lemma memset_loop_at:
  "n \<le> 2 ^ 32 \<Longrightarrow> memset_loop m p c n a = (if unat (a - p) < n then c else m a)"
proof (induction n arbitrary: m p)
  case 0
  then show ?case by simp
next
  case (Suc n)
  from Suc.prems have IH: "memset_loop (m(p := c)) (p + 1) c n a =
      (if unat (a - (p + 1)) < n then c else (m(p := c)) a)"
    by (intro Suc.IH) simp
  show ?case
  proof (cases "a = p")
    case True
    with IH Suc.prems show ?thesis by (simp add: unat_minus1_word)
  next
    case False
    with IH unat_diff_succ [OF False] unat_diff_pos [OF False] show ?thesis by auto
  qed
qed

lemma memset_at [mem_simps]:
  "memset m p c n a = (if unat (a - p) < unat n then ucast c else m a)"
  by (simp add: memset_def memset_loop_at less_imp_le)

text \<open>
  A forward copy reads every source byte before it is overwritten exactly when the
  destination does not start inside the source; a backward copy when the source does not
  start inside the destination.
\<close>

lemma memcpy_loop_at:
  "n \<le> 2 ^ 32 \<Longrightarrow> d = s \<or> n \<le> unat (d - s) \<Longrightarrow>
     memcpy_loop m d s n a = (if unat (a - d) < n then m (s + (a - d)) else m a)"
proof (induction n arbitrary: m d s)
  case 0
  then show ?case by simp
next
  case (Suc n)
  let ?m = "m(d := m s)"
  have "memcpy_loop ?m (d + 1) (s + 1) n a =
      (if unat (a - (d + 1)) < n then ?m (s + 1 + (a - (d + 1))) else ?m a)"
    using Suc.prems by (intro Suc.IH) auto
  moreover have "s + 1 + (a - (d + 1)) = s + (a - d)" by simp
  ultimately have IH: "memcpy_loop m d s (Suc n) a =
      (if unat (a - (d + 1)) < n then ?m (s + (a - d)) else ?m a)" by simp
  show ?case
  proof (cases "a = d")
    case True
    with IH Suc.prems(1) show ?thesis by (simp add: unat_minus1_word)
  next
    case False
    have "?m (s + (a - d)) = m (s + (a - d))" if "unat (a - d) < Suc n"
    proof (cases "s + (a - d) = d")
      case True
      then have "d - s = a - d" by (simp add: algebra_simps)
      with Suc.prems(2) that False True show ?thesis by auto
    qed simp
    with IH False unat_diff_succ [OF False] unat_diff_pos [OF False] show ?thesis by auto
  qed
qed

lemma memmove_back_at:
  "n \<le> 2 ^ 32 \<Longrightarrow> d = s \<or> n \<le> unat (s - d) \<Longrightarrow>
     memmove_back m (d + word_of_nat n) (s + word_of_nat n) n a =
       (if unat (a - d) < n then m (s + (a - d)) else m a)"
proof (induction n arbitrary: m)
  case 0
  then show ?case by simp
next
  case (Suc n)
  let ?k = "word_of_nat n :: u32"
  let ?m = "m(d + ?k := m (s + ?k))"
  have k: "unat ?k = n" using Suc.prems(1) by (simp add: unat_word_of_nat_less)
  have step: "memmove_back m (d + word_of_nat (Suc n)) (s + word_of_nat (Suc n)) (Suc n) a =
      memmove_back ?m (d + ?k) (s + ?k) n a"
    by (simp add: algebra_simps)
  have IH: "memmove_back ?m (d + ?k) (s + ?k) n a =
      (if unat (a - d) < n then ?m (s + (a - d)) else ?m a)"
    using Suc.prems by (intro Suc.IH) auto
  have neq: "a - d = ?k \<longleftrightarrow> a = d + ?k" by (auto simp: algebra_simps)
  have "?m (s + (a - d)) = m (s + (a - d))" if "unat (a - d) < n"
  proof (cases "s + (a - d) = d + ?k")
    case True
    then have eq: "s - d = ?k - (a - d)" by (simp add: algebra_simps)
    have "unat (s - d) \<le> n"
      unfolding eq using that k by (simp add: unat_sub_if_size)
    then have "d = s" using Suc.prems(2) by linarith
    with True have "a - d = ?k" by (simp add: algebra_simps)
    with that k show ?thesis by simp
  qed simp
  moreover have "unat (a - d) = n \<longleftrightarrow> a = d + ?k"
    using k neq by (metis unsigned_word_eqI)
  ultimately show ?case unfolding step IH by (auto simp: less_Suc_eq algebra_simps)
qed


section \<open>The library functions\<close>

text \<open>
  \<open>in_range a p n\<close>: address \<open>a\<close> is one of the \<open>n\<close> bytes that start at \<open>p\<close>.
\<close>

definition in_range :: "u32 \<Rightarrow> u32 \<Rightarrow> u32 \<Rightarrow> bool" where
  "in_range a p n \<longleftrightarrow> unat (a - p) < unat n"

lemma memcpy_at [mem_simps]:
  assumes "dst = src \<or> unat n \<le> unat (dst - src)"
  shows "memcpy m dst src n a = (if in_range a dst n then m (src + (a - dst)) else m a)"
  using assms by (simp add: memcpy_def in_range_def memcpy_loop_at less_imp_le)

lemma memcpy_frame: "\<not> in_range a dst n \<Longrightarrow> memcpy m dst src n a = m a"
proof -
  have "\<not> unat (a - d) < k \<Longrightarrow> memcpy_loop m' d s k a = m' a"
    if "k \<le> unat n" for m' d s k
    using that
  proof (induction k arbitrary: m' d s)
    case 0
    then show ?case by simp
  next
    case (Suc k)
    then have ne: "a \<noteq> d" by auto
    have "\<not> unat (a - (d + 1)) < k"
      using Suc.prems(1) unat_diff_succ [OF ne] by simp
    then show ?case using Suc ne by simp
  qed
  from this [of "unat n"] show "\<not> in_range a dst n \<Longrightarrow> memcpy m dst src n a = m a"
    by (simp add: in_range_def memcpy_def)
qed

text \<open>
  \<open>memmove\<close> is correct for every overlap of blocks that do not wrap: each destination byte
  gets the byte its source held before the call.
\<close>

lemma memmove_choice:
  fixes src dst n :: u32
  assumes "unat src + unat n < 2 ^ 32" "unat dst + unat n < 2 ^ 32"
  shows "if src < dst \<and> src + n > dst then dst = src \<or> unat n \<le> unat (src - dst)
         else dst = src \<or> unat n \<le> unat (dst - src)"
  using assms
  by (auto simp: word_less_nat_alt unat_sub_if_size unat_word_ariths word_size not_less
      dest: unsigned_word_eqI)

lemma memmove_at [mem_simps]:
  assumes "unat src + unat n < 2 ^ 32" "unat dst + unat n < 2 ^ 32"
  shows "memmove m dst src n a = (if in_range a dst n then m (src + (a - dst)) else m a)"
proof (cases "src < dst \<and> src + n > dst")
  case True
  then have "dst = src \<or> unat n \<le> unat (src - dst)"
    using memmove_choice [OF assms] by simp
  then have "memmove_back m (dst + word_of_nat (unat n)) (src + word_of_nat (unat n)) (unat n) a =
      (if unat (a - dst) < unat n then m (src + (a - dst)) else m a)"
    by (intro memmove_back_at) (simp add: less_imp_le)
  with True show ?thesis by (simp add: memmove_def in_range_def)
next
  case False
  then have "dst = src \<or> unat n \<le> unat (dst - src)"
    using memmove_choice [OF assms] by (simp only: if_False)
  then have "memcpy_loop m dst src (unat n) a =
      (if unat (a - dst) < unat n then m (src + (a - dst)) else m a)"
    by (intro memcpy_loop_at) (simp add: less_imp_le)
  with False show ?thesis by (simp only: memmove_def in_range_def if_False)
qed

text \<open>
  C12: \<open>memmove\<close> is correct for blocks that overlap in any way, as long as neither wraps around
  the end of memory: afterwards every destination byte holds the byte its source held
  before, and every other byte is unchanged.
\<close>

theorem memmove_correct:
  assumes "unat src + unat n < 2 ^ 32" "unat dst + unat n < 2 ^ 32"
  shows "memmove m dst src n =
    (\<lambda>a. if in_range a dst n then m (src + (a - dst)) else m a)"
  by (rule ext) (rule memmove_at [OF assms])

theorem memmove_correct_witness:
  "map (memmove (\<lambda>a. ucast a) 3 1 4) [1, 2, 3, 4, 5, 6, 7] = [1, 2, 1, 2, 3, 4, 7]"
  using memmove_correct [of 1 4 3] by (simp add: in_range_def unsigned_minus_1_eq_mask mask_eq_exp_minus_1)

section \<open>32-bit cells\<close>

lemma load32_cong:
  "m a = m' a' \<Longrightarrow> m (a + 1) = m' (a' + 1) \<Longrightarrow> m (a + 2) = m' (a' + 2) \<Longrightarrow>
     m (a + 3) = m' (a' + 3) \<Longrightarrow> load32 m a = load32 m' a'"
  by (simp add: load32_def)

lemma bytes_of_word32:
  fixes v :: u32
  shows "ucast (ucast v :: u8) OR push_bit 8 (ucast (ucast (drop_bit 8 v) :: u8))
     OR push_bit 16 (ucast (ucast (drop_bit 16 v) :: u8))
     OR push_bit 24 (ucast (ucast (drop_bit 24 v) :: u8)) = v"
proof (rule bit_word_eqI)
  fix k assume "k < LENGTH(32)"
  then consider "k < 8" | "8 \<le> k" "k < 16" | "16 \<le> k" "k < 24" | "24 \<le> k" "k < 32"
    by fastforce
  then show "bit (ucast (ucast v :: u8) OR push_bit 8 (ucast (ucast (drop_bit 8 v) :: u8))
     OR push_bit 16 (ucast (ucast (drop_bit 16 v) :: u8))
     OR push_bit 24 (ucast (ucast (drop_bit 24 v) :: u8)) :: u32) k = bit v k"
    by cases (auto simp: bit_simps)
qed

lemma offsets_distinct [simp]:
  fixes a :: u32
  shows "a + 1 \<noteq> a" "a + 2 \<noteq> a" "a + 3 \<noteq> a" "a + 1 \<noteq> a + 2" "a + 1 \<noteq> a + 3"
    "a + 2 \<noteq> a + 3" "a + 2 \<noteq> a + 1" "a + 3 \<noteq> a + 1" "a + 3 \<noteq> a + 2"
  by simp_all

lemma load32_store32_same [simp]: "load32 (store32 m a v) a = v"
  using bytes_of_word32 [of v] by (simp add: load32_def store32_def)

text \<open>Cells at distance at least four do not interfere.\<close>

lemma store32_other: "4 \<le> unat (b - a) \<Longrightarrow> store32 m a v b = m b"
  by (auto simp: store32_def)

end
