(* ===== verification/CStrings.thy ===== *)
theory CStrings
  imports CMemory
begin

text \<open>
  The string routines of \<open>pset3/lib.c\<close> over byte memory. A string is a pointer; the
  predicate \<open>cstring m p cs\<close> says that the non-zero bytes \<open>cs\<close> and a terminating NUL
  stand at \<open>p\<close>. The loops that stop only at a NUL are \<open>partial_function\<close>s: \<open>None\<close>
  is a loop that never stops, which the theorems exclude for terminated strings.
\<close>

section \<open>Operations\<close>

partial_function (option) strlen_loop :: "mem \<Rightarrow> u32 \<Rightarrow> u32 \<Rightarrow> u32 option" where
  "strlen_loop m s n = (if m s \<noteq> 0 then strlen_loop m (s + 1) (n + 1) else Some n)"

definition strlen :: "mem \<Rightarrow> u32 \<Rightarrow> u32 option" where
  "strlen m s = strlen_loop m s 0"

function strnlen_loop :: "mem \<Rightarrow> u32 \<Rightarrow> u32 \<Rightarrow> u32 \<Rightarrow> u32" where
  "strnlen_loop m s maxlen n =
     (if n \<noteq> maxlen \<and> m s \<noteq> 0 then strnlen_loop m (s + 1) maxlen (n + 1) else n)"
  by pat_completeness auto
termination
proof (relation "measure (\<lambda>(m, s, maxlen, n). unat (maxlen - n))")
  fix m :: mem and s maxlen n :: u32
  assume "n \<noteq> maxlen \<and> m s \<noteq> 0"
  then have "maxlen \<noteq> n" by blast
  from unat_diff_succ [OF this] unat_diff_pos [OF this]
  show "((m, s + 1, maxlen, n + 1), (m, s, maxlen, n))
      \<in> measure (\<lambda>(m, s, maxlen, n). unat (maxlen - n))"
    by (simp del: diff_add_eq_diff_diff_swap)
qed simp

declare strnlen_loop.simps [simp del]

definition strnlen :: "mem \<Rightarrow> u32 \<Rightarrow> u32 \<Rightarrow> u32" where
  "strnlen m s maxlen = strnlen_loop m s maxlen 0"

partial_function (option) strcpy_loop :: "mem \<Rightarrow> u32 \<Rightarrow> u32 \<Rightarrow> mem option" where
  "strcpy_loop m d s =
     (let m' = m(d := m s) in
      if m' d \<noteq> 0 then strcpy_loop m' (d + 1) (s + 1) else Some m')"

definition strcpy :: "mem \<Rightarrow> u32 \<Rightarrow> u32 \<Rightarrow> mem option" where
  "strcpy m dst src = strcpy_loop m dst src"

partial_function (option) strcmp :: "mem \<Rightarrow> u32 \<Rightarrow> u32 \<Rightarrow> int option" where
  "strcmp m a b =
     (if m a \<noteq> 0 \<and> m b \<noteq> 0 \<and> m a = m b then strcmp m (a + 1) (b + 1)
      else Some (of_bool (m a > m b) - of_bool (m a < m b)))"

partial_function (option) strchr :: "mem \<Rightarrow> u32 \<Rightarrow> u8 \<Rightarrow> u32 option" where
  "strchr m s c =
     (if m s \<noteq> 0 \<and> m s \<noteq> c then strchr m (s + 1) c
      else Some (if m s = c then s else 0))"

section \<open>Strings in memory\<close>

primrec cstring :: "mem \<Rightarrow> u32 \<Rightarrow> u8 list \<Rightarrow> bool" where
  "cstring m p [] \<longleftrightarrow> m p = 0"
| "cstring m p (c # cs) \<longleftrightarrow> m p = c \<and> c \<noteq> 0 \<and> cstring m (p + 1) cs"

lemma cstring_unique: "cstring m p cs \<Longrightarrow> cstring m p ds \<Longrightarrow> cs = ds"
proof (induction cs arbitrary: p ds)
  case Nil
  then show ?case by (cases ds) auto
next
  case (Cons c cs)
  then show ?case by (cases ds) auto
qed

lemma cstring_iff_nth:
  "cstring m p cs \<longleftrightarrow>
     (\<forall>i < length cs. m (p + word_of_nat i) = cs ! i \<and> cs ! i \<noteq> 0)
       \<and> m (p + word_of_nat (length cs)) = 0"
proof (induction cs arbitrary: p)
  case Nil
  then show ?case by simp
next
  case (Cons c cs)
  then show ?case by (auto simp: All_less_Suc2 add.assoc)
qed

text \<open>The reference order of byte strings that \<open>strcmp\<close> computes.\<close>

fun byte_cmp :: "u8 list \<Rightarrow> u8 list \<Rightarrow> int" where
  "byte_cmp [] [] = 0"
| "byte_cmp [] (y # ys) = -1"
| "byte_cmp (x # xs) [] = 1"
| "byte_cmp (x # xs) (y # ys) = (if x = y then byte_cmp xs ys else if x < y then -1 else 1)"

lemma byte_cmp_eq_0_iff [simp]: "byte_cmp xs ys = 0 \<longleftrightarrow> xs = ys"
  by (induction xs ys rule: byte_cmp.induct) auto

lemma byte_cmp_neg_iff: "byte_cmp xs ys < 0 \<longleftrightarrow> (xs, ys) \<in> lexord {(x, y). x < y}"
  by (induction xs ys rule: byte_cmp.induct) auto

lemma byte_cmp_antisym: "byte_cmp ys xs = - byte_cmp xs ys"
  by (induction xs ys rule: byte_cmp.induct) auto

section \<open>Correctness\<close>

lemma strlen_loop_cstring:
  "cstring m s cs \<Longrightarrow> strlen_loop m s n = Some (n + word_of_nat (length cs))"
  by (induction cs arbitrary: s n) (subst strlen_loop.simps; simp add: add.assoc)+


lemma strlen_cstring: "cstring m s cs \<Longrightarrow> strlen m s = Some (word_of_nat (length cs))"
  by (simp add: strlen_def strlen_loop_cstring)

lemma strnlen_loop_cstring:
  "cstring m s cs \<Longrightarrow> length cs < 2 ^ 32 \<Longrightarrow>
     strnlen_loop m s maxlen n = n + word_of_nat (min (length cs) (unat (maxlen - n)))"
proof (induction cs arbitrary: s n)
  case Nil
  then show ?case by (subst strnlen_loop.simps) simp
next
  case (Cons c cs)
  show ?case
  proof (cases "n = maxlen")
    case True
    then show ?thesis by (subst strnlen_loop.simps) simp
  next
    case False
    then have ne: "maxlen \<noteq> n" by simp
    have "strnlen_loop m s maxlen n = strnlen_loop m (s + 1) maxlen (n + 1)"
      using Cons.prems False by (subst strnlen_loop.simps) simp
    also have "\<dots> = n + 1 + word_of_nat (min (length cs) (unat (maxlen - (n + 1))))"
      using Cons.prems by (intro Cons.IH) simp_all
    also have "min (length cs) (unat (maxlen - (n + 1))) =
        min (length (c # cs)) (unat (maxlen - n)) - 1"
      using unat_diff_succ [OF ne] unat_diff_pos [OF ne] by simp
    also have "n + 1 + word_of_nat (min (length (c # cs)) (unat (maxlen - n)) - 1) =
        n + word_of_nat (min (length (c # cs)) (unat (maxlen - n)))"
      using unat_diff_pos [OF ne] by (cases "min (length (c # cs)) (unat (maxlen - n))") auto
    finally show ?thesis .
  qed
qed

lemma strnlen_cstring:
  "cstring m s cs \<Longrightarrow> length cs < 2 ^ 32 \<Longrightarrow>
     unat (strnlen m s maxlen) = min (length cs) (unat maxlen)"
  by (simp add: strnlen_def strnlen_loop_cstring unat_word_of_nat_less min_def)

lemma strcmp_cstring:
  "cstring m a xs \<Longrightarrow> cstring m b ys \<Longrightarrow> strcmp m a b = Some (byte_cmp xs ys)"
proof (induction xs ys arbitrary: a b rule: byte_cmp.induct)
  case (4 x xs y ys)
  then show ?case by (subst strcmp.simps) auto
qed (subst strcmp.simps; auto simp: word_gt_0)+

text \<open>\<open>strchr\<close> points at the first occurrence, at the NUL for \<open>c = 0\<close>, else it is NULL.\<close>

lemma strchr_cstring:
  "cstring m s cs \<Longrightarrow> strchr m s c =
     Some (if c \<in> set cs \<or> c = 0
           then s + word_of_nat (length (takeWhile (\<lambda>x. x \<noteq> c) cs)) else 0)"
proof (induction cs arbitrary: s)
  case Nil
  then show ?case by (subst strchr.simps) auto
next
  case (Cons x cs)
  then show ?case by (subst strchr.simps) (auto simp: add.assoc)
qed

text \<open>
  \<open>strcpy\<close> copies the string with its NUL: it is the \<open>memcpy\<close> of one byte more than the
  string's length, as long as the copy does not overwrite the part of the source still to
  be read.
\<close>

lemma strcpy_loop_memcpy:
  "cstring m s cs \<Longrightarrow> length cs < 2 ^ 32 \<Longrightarrow> d = s \<or> length cs < unat (d - s) \<Longrightarrow>
     strcpy_loop m d s = Some (memcpy_loop m d s (Suc (length cs)))"
proof (induction cs arbitrary: m d s)
  case Nil
  then show ?case by (subst strcpy_loop.simps) (simp add: Let_def)
next
  case (Cons c cs)
  let ?m = "m(d := m s)"
  have far: "d + 1 = s + 1 \<or> length cs < unat (d + 1 - (s + 1))"
    using Cons.prems(3) by auto
  have keep: "?m (s + 1 + word_of_nat i) = m (s + 1 + word_of_nat i)" if "i \<le> length cs" for i
  proof (cases "s + 1 + word_of_nat i = d")
    case True
    then have "d - s = word_of_nat (Suc i)" by (auto simp: algebra_simps)
    then have "unat (d - s) = Suc i"
      using that Cons.prems(2) unat_word_of_nat_less [of "Suc i", where 'a = 32]
      by (simp del: of_nat_Suc)
    with Cons.prems(3) that have "d = s" by auto
    with \<open>unat (d - s) = Suc i\<close> show ?thesis by simp
  qed simp
  have "cstring ?m (s + 1) cs"
    using Cons.prems(1) keep unfolding cstring_iff_nth [of ?m] cstring_iff_nth [of m]
    by (auto simp: All_less_Suc2 add.assoc)
  from this _ far have IH: "strcpy_loop ?m (d + 1) (s + 1) =
      Some (memcpy_loop ?m (d + 1) (s + 1) (Suc (length cs)))"
    by (rule Cons.IH) (use Cons.prems(2) in simp)
  have "strcpy_loop m d s = strcpy_loop ?m (d + 1) (s + 1)"
    using Cons.prems(1) by (subst strcpy_loop.simps) (simp add: Let_def)
  with IH show ?case by simp
qed


lemma cstring_transfer:
  assumes "cstring m p cs"
    and "\<And>i. i \<le> length cs \<Longrightarrow> m' (p' + word_of_nat i) = m (p + word_of_nat i)"
  shows "cstring m' p' cs"
  using assms unfolding cstring_iff_nth by simp

lemma strcpy_result:
  assumes "cstring m src cs" "length cs < 2 ^ 32 - 1"
    and "dst = src \<or> length cs < unat (dst - src)"
  obtains m' where "strcpy m dst src = Some m'" "cstring m' dst cs"
    "\<And>a. \<not> unat (a - dst) < Suc (length cs) \<Longrightarrow> m' a = m a"
proof
  let ?m = "memcpy_loop m dst src (Suc (length cs))"
  have at: "?m a = (if unat (a - dst) < Suc (length cs) then m (src + (a - dst)) else m a)" for a
    using assms(2,3) by (intro memcpy_loop_at) auto
  show "strcpy m dst src = Some ?m"
    unfolding strcpy_def by (rule strcpy_loop_memcpy) (use assms in auto)
  show "cstring ?m dst cs"
  proof (rule cstring_transfer [OF assms(1)])
    fix i assume "i \<le> length cs"
    then show "?m (dst + word_of_nat i) = m (src + word_of_nat i)"
      using assms(2) unat_word_of_nat_less [of i, where 'a = 32] by (subst at) simp
  qed
  show "?m a = m a" if "\<not> unat (a - dst) < Suc (length cs)" for a
    using that by (subst at) simp
qed

text \<open>A copy made by \<open>strcpy\<close> to a place that does not overlap the source is the same
  string as the source, which itself is untouched: \<open>strcmp\<close> of the two returns 0.\<close>

theorem strcpy_strcmp_roundtrip:
  assumes "cstring m src cs" "length cs < 2 ^ 32 - 1"
    and "length cs < unat (dst - src)" "length cs < unat (src - dst)"
  shows "\<exists>m'. strcpy m dst src = Some m' \<and> cstring m' dst cs \<and> cstring m' src cs
           \<and> strcmp m' dst src = Some 0"
proof -
  from assms obtain m' where m': "strcpy m dst src = Some m'" "cstring m' dst cs"
    and frame: "\<And>a. \<not> unat (a - dst) < Suc (length cs) \<Longrightarrow> m' a = m a"
    using strcpy_result [of m src cs dst] by blast
  have "cstring m' src cs"
  proof (rule cstring_transfer [OF assms(1)])
    fix i assume i: "i \<le> length cs"
    have k: "unat (word_of_nat i :: u32) = i"
      using i assms(2) by (intro unat_word_of_nat_less) simp
    have "src \<noteq> dst" using assms(3) by auto
    then have "unat (src - dst) + i < 2 ^ 32"
      using unat_diff_swap [of src dst] assms(3) i by simp
    then have "unat (src - dst + word_of_nat i) = unat (src - dst) + i"
      using k by (simp add: unat_word_ariths)
    then have "\<not> unat (src + word_of_nat i - dst) < Suc (length cs)"
      using assms(4) by (simp add: algebra_simps)
    then show "m' (src + word_of_nat i) = m (src + word_of_nat i)" by (rule frame)
  qed
  with m' show ?thesis by (auto dest: strcmp_cstring)
qed

text \<open>A three-character string at address 16, copied to address 8 of zeroed memory.\<close>

theorem strcpy_strcmp_roundtrip_witness:
  "\<exists>m'. strcpy ((\<lambda>_. 0)(16 := 97, 17 := 98, 18 := 99)) 8 16 = Some m' \<and>
     cstring m' 8 [97, 98, 99] \<and> cstring m' 16 [97, 98, 99] \<and> strcmp m' 8 16 = Some 0"
  by (rule strcpy_strcmp_roundtrip) simp_all

end
