(* ===== verification/Printf.thy ===== *)
theory Printf
  imports CStrings
begin

text \<open>
  The formatted output of \<open>pset3/lib.c\<close>: \<open>fill_numbuf\<close> and \<open>printer_vprintf\<close>. A format is
  a \<open>string\<close> without its NUL; a \<open>va_list\<close> is the list of 32-bit argument slots still to be
  read; \<open>%s\<close> reads memory. \<open>None\<close> stands for the executions the C code does not define
  (an argument slot past the last one, a write before the number buffer) or that do not
  return (\<open>%s\<close> of an unterminated string). A printer is its \<open>putc\<close> callback and its state.
\<close>

section \<open>Numbers\<close>

definition NUMBUFSIZ :: nat where
  "NUMBUFSIZ = 24"

definition upper_digits :: string where
  "upper_digits = ''0123456789ABCDEF''"

definition lower_digits :: string where
  "lower_digits = ''0123456789abcdef''"

text \<open>The \<open>do\<close>/\<open>while\<close> loop of \<open>fill_numbuf\<close>; the index is the pointer \<open>numbuf_end\<close>.\<close>

fun fill_loop :: "string \<Rightarrow> nat \<Rightarrow> string \<Rightarrow> nat \<Rightarrow> nat \<Rightarrow> (string \<times> nat) option" where
  "fill_loop digits base buf 0 val = None"
| "fill_loop digits base buf (Suc i) val =
     (let buf' = buf[i := digits ! (val mod base)]; val' = val div base
      in if val' \<noteq> 0 then fill_loop digits base buf' i val' else Some (buf', i))"

fun fill_numbuf :: "string \<Rightarrow> nat \<Rightarrow> u32 \<Rightarrow> int \<Rightarrow> (string \<times> nat) option" where
  "fill_numbuf buf 0 val base = None"
| "fill_numbuf buf (Suc e) val base =
     (let (digits, base) = (if base < 0 then (lower_digits, - base) else (upper_digits, base))
      in fill_loop digits (nat base) (buf[e := CHR 0x00]) e (unat val))"

definition buf_string :: "string \<Rightarrow> nat \<Rightarrow> string" where
  "buf_string buf i = takeWhile (\<lambda>c. c \<noteq> CHR 0x00) (drop i buf)"

definition num_string :: "u32 \<Rightarrow> int \<Rightarrow> string option" where
  "num_string val base =
     map_option (\<lambda>(buf, i). buf_string buf i)
       (fill_numbuf (replicate NUMBUFSIZ CHR 0x00) NUMBUFSIZ val base)"

section \<open>Parsing a conversion specification\<close>

definition flag_chars :: string where
  "flag_chars = ''#0- +''"

definition FLAG_ALT :: u32 where "FLAG_ALT = push_bit 0 1"
definition FLAG_ZERO :: u32 where "FLAG_ZERO = push_bit 1 1"
definition FLAG_LEFTJUSTIFY :: u32 where "FLAG_LEFTJUSTIFY = push_bit 2 1"
definition FLAG_SPACEPOSITIVE :: u32 where "FLAG_SPACEPOSITIVE = push_bit 3 1"
definition FLAG_PLUSPOSITIVE :: u32 where "FLAG_PLUSPOSITIVE = push_bit 4 1"

fun char_index :: "char \<Rightarrow> string \<Rightarrow> nat option" where
  "char_index c [] = None"
| "char_index c (x # xs) = (if x = c then Some 0 else map_option Suc (char_index c xs))"

fun parse_flags :: "string \<Rightarrow> u32 \<Rightarrow> u32 \<times> string" where
  "parse_flags [] flags = (flags, [])"
| "parse_flags (c # cs) flags =
     (case char_index c flag_chars of
        Some i \<Rightarrow> parse_flags cs (flags OR push_bit i 1)
      | None \<Rightarrow> (flags, c # cs))"

definition char_val :: "char \<Rightarrow> int" where
  "char_val c = of_char c"

definition is_digit :: "char \<Rightarrow> bool" where
  "is_digit c \<longleftrightarrow> char_val c \<ge> 48 \<and> char_val c \<le> 57"

fun parse_digits :: "string \<Rightarrow> int \<Rightarrow> int \<times> string" where
  "parse_digits [] n = (n, [])"
| "parse_digits (c # cs) n =
     (if is_digit c then parse_digits cs (10 * n + char_val c - 48) else (n, c # cs))"

fun parse_width :: "string \<Rightarrow> u32 list \<Rightarrow> (int \<times> string \<times> u32 list) option" where
  "parse_width [] args = Some (-1, [], args)"
| "parse_width (c # cs) args =
     (if char_val c \<ge> 49 \<and> char_val c \<le> 57
      then (let (w, rest) = parse_digits (c # cs) 0 in Some (w, rest, args))
      else if c = CHR ''*''
      then (case args of [] \<Rightarrow> None | a # args' \<Rightarrow> Some (sint a, cs, args'))
      else Some (-1, c # cs, args))"

fun parse_precision :: "string \<Rightarrow> u32 list \<Rightarrow> (int \<times> string \<times> u32 list) option" where
  "parse_precision (CHR ''.'' # cs) args =
     (case cs of
        [] \<Rightarrow> Some (0, [], args)
      | c # cs' \<Rightarrow>
          if is_digit c
          then (let (p, rest) = parse_digits cs 0 in Some (max p 0, rest, args))
          else if c = CHR ''*''
          then (case args of [] \<Rightarrow> None | a # args' \<Rightarrow> Some (max (sint a) 0, cs', args'))
          else Some (0, cs, args))"
| "parse_precision cs args = Some (-1, cs, args)"

section \<open>The conversion\<close>

text \<open>What \<open>data\<close> points at: the local number buffer, or memory.\<close>

datatype source = Buf string | Ptr u32

datatype conversion =
    Data source bool bool "u32 list"  \<comment> \<open>data, numeric, negative, remaining arguments\<close>
  | Colour u32 "u32 list"             \<comment> \<open>\<open>%C\<close>\<close>

fun va_arg :: "u32 list \<Rightarrow> (u32 \<times> u32 list) option" where
  "va_arg [] = None"
| "va_arg (a # args) = Some (a, args)"

definition conv_number :: "u32 \<Rightarrow> int \<Rightarrow> bool \<Rightarrow> u32 list \<Rightarrow> conversion option" where
  "conv_number val base neg args =
     map_option (\<lambda>s. Data (Buf s) True neg args) (num_string val base)"

definition convert :: "string \<Rightarrow> u32 list \<Rightarrow> conversion option" where
  "convert fmt args =
     (case fmt of
        [] \<Rightarrow> Some (Data (Buf ''%'') False False args)
      | c # _ \<Rightarrow>
         if c = CHR ''d'' then
           Option.bind (va_arg args) (\<lambda>(x, args').
             conv_number (if sint x > 0 then x else - x) 10 (sint x < 0) args')
         else if c = CHR ''u'' then
           Option.bind (va_arg args) (\<lambda>(x, args'). conv_number x 10 False args')
         else if c = CHR ''x'' then
           Option.bind (va_arg args) (\<lambda>(x, args'). conv_number x (-16) False args')
         else if c = CHR ''X'' then
           Option.bind (va_arg args) (\<lambda>(x, args'). conv_number x 16 False args')
         else if c = CHR ''p'' then
           Option.bind (va_arg args) (\<lambda>(x, args').
             map_option (\<lambda>s. Data (Buf (CHR ''0'' # CHR ''x'' # s)) False False args')
               (num_string x (-16)))
         else if c = CHR ''s'' then
           Option.bind (va_arg args) (\<lambda>(x, args'). Some (Data (Ptr x) False False args'))
         else if c = CHR ''C'' then
           Option.bind (va_arg args) (\<lambda>(x, args'). Some (Colour x args'))
         else if c = CHR ''c'' then
           Option.bind (va_arg args) (\<lambda>(x, args').
             Some (Data (Buf (takeWhile (\<lambda>c. c \<noteq> CHR 0x00) [char_of (unat (ucast x :: u8))]))
                     False False args'))
         else Some (Data (Buf [c]) False False args))"

fun data_len :: "mem \<Rightarrow> int \<Rightarrow> bool \<Rightarrow> source \<Rightarrow> int option" where
  "data_len m precision numeric (Buf s) =
     Some (if precision \<ge> 0 \<and> \<not> numeric then min (int (length s)) precision else int (length s))"
| "data_len m precision numeric (Ptr p) =
     (if precision \<ge> 0 \<and> \<not> numeric then Some (sint (strnlen m p (word_of_int precision)))
      else map_option sint (strlen m p))"

fun data_char :: "mem \<Rightarrow> source \<Rightarrow> nat \<Rightarrow> char" where
  "data_char m (Buf s) i = s ! i"
| "data_char m (Ptr p) i = char_of (unat (m (p + word_of_nat i)))"

text \<open>Sign, zeros and padding of one conversion.\<close>

definition sign_of :: "u32 \<Rightarrow> bool \<Rightarrow> bool \<Rightarrow> string" where
  "sign_of flags numeric negative =
     (if numeric \<and> negative then ''-''
      else if flags AND FLAG_PLUSPOSITIVE \<noteq> 0 then ''+''
      else if flags AND FLAG_SPACEPOSITIVE \<noteq> 0 then '' ''
      else [])"

definition zeros_of :: "u32 \<Rightarrow> bool \<Rightarrow> int \<Rightarrow> int \<Rightarrow> int \<Rightarrow> int \<Rightarrow> int" where
  "zeros_of flags numeric precision len nsign width =
     (if numeric \<and> precision \<ge> 0 then (if precision > len then precision - len else 0)
      else if flags AND (FLAG_ZERO OR FLAG_LEFTJUSTIFY) = FLAG_ZERO \<and> numeric
              \<and> len + nsign < width
      then width - len - nsign
      else 0)"

definition emit :: "mem \<Rightarrow> u32 \<Rightarrow> int \<Rightarrow> int \<Rightarrow> source \<Rightarrow> bool \<Rightarrow> bool \<Rightarrow> string option" where
  "emit m flags width precision data numeric negative =
     map_option (\<lambda>len.
       let sgn = sign_of flags numeric negative;
           zeros = zeros_of flags numeric precision len (int (length sgn)) width;
           width1 = width - (len + zeros + int (length sgn));
           left = (if flags AND FLAG_LEFTJUSTIFY = 0 then nat width1 else 0);
           width2 = width1 - int left
       in replicate left CHR '' '' @ sgn @ replicate (nat zeros) CHR ''0''
            @ map (data_char m data) [0..<nat len] @ replicate (nat width2) CHR '' '')
       (data_len m precision numeric data)"

text \<open>One \<open>%\<close> specification, from the character after the \<open>%\<close> to the one after it.\<close>

datatype spec_result = Text string string "u32 list" | SetColour u32 string "u32 list"

definition conversion_spec :: "mem \<Rightarrow> string \<Rightarrow> u32 list \<Rightarrow> spec_result option" where
  "conversion_spec m fmt args =
     (let (flags, fmt1) = parse_flags fmt 0 in
      Option.bind (parse_width fmt1 args) (\<lambda>(width, fmt2, args2).
      Option.bind (parse_precision fmt2 args2) (\<lambda>(precision, fmt3, args3).
      Option.bind (convert fmt3 args3) (\<lambda>conv.
        case conv of
          Colour col args4 \<Rightarrow> Some (SetColour col (tl fmt3) args4)
        | Data data numeric negative args4 \<Rightarrow>
            map_option (\<lambda>out. Text out (tl fmt3) args4)
              (emit m flags width precision data numeric negative)))))"

section \<open>The printer loop\<close>

lemma parse_flags_length: "parse_flags fmt fl = (fl', rest) \<Longrightarrow> length rest \<le> length fmt"
  by (induction fmt fl arbitrary: fl' rest rule: parse_flags.induct)
     (fastforce split: option.splits)+

lemma parse_digits_length: "parse_digits cs n = (w, rest) \<Longrightarrow> length rest \<le> length cs"
  by (induction cs n arbitrary: w rest rule: parse_digits.induct)
     (fastforce split: if_splits)+

lemma parse_width_length:
  "parse_width cs args = Some (w, rest, args') \<Longrightarrow> length rest \<le> length cs"
  by (cases cs) (auto split: if_splits list.splits prod.splits
      simp del: parse_digits.simps dest: parse_digits_length)

lemma parse_precision_length:
  "parse_precision cs args = Some (w, rest, args') \<Longrightarrow> length rest \<le> length cs"
  by (cases "(cs, args)" rule: parse_precision.cases)
     (auto split: if_splits list.splits prod.splits simp del: parse_digits.simps
      dest!: parse_digits_length)

lemma conversion_spec_length:
  "conversion_spec m fmt args = Some (Text out rest args') \<Longrightarrow> length rest \<le> length fmt"
  "conversion_spec m fmt args = Some (SetColour col rest args') \<Longrightarrow> length rest \<le> length fmt"
  by (fastforce simp: conversion_spec_def split: prod.splits conversion.splits
      Option.bind_splits dest: parse_flags_length parse_width_length parse_precision_length)+

function printer_vprintf ::
    "('p \<Rightarrow> char \<Rightarrow> u32 \<Rightarrow> 'p) \<Rightarrow> mem \<Rightarrow> u32 \<Rightarrow> string \<Rightarrow> u32 list \<Rightarrow> 'p \<Rightarrow> 'p option" where
  "printer_vprintf putc m color [] args p = Some p"
| "printer_vprintf putc m color (c # fmt) args p =
     (if c \<noteq> CHR ''%'' then printer_vprintf putc m color fmt args (putc p c color)
      else (case conversion_spec m fmt args of
              None \<Rightarrow> None
            | Some (SetColour col rest args') \<Rightarrow> printer_vprintf putc m col rest args' p
            | Some (Text out rest args') \<Rightarrow>
                printer_vprintf putc m color rest args'
                  (foldl (\<lambda>p ch. putc p ch color) p out)))"
  by pat_completeness auto
termination
  by (relation "measure (\<lambda>(putc, m, color, fmt, args, p). length fmt)")
     (auto dest: conversion_spec_length)

section \<open>Digits\<close>

text \<open>The digits of a number, most significant first: what \<open>fill_numbuf\<close> computes.\<close>

function nat_digits :: "nat \<Rightarrow> nat \<Rightarrow> nat list" where
  "nat_digits b v = (if b < 2 \<or> v < b then [v] else nat_digits b (v div b) @ [v mod b])"
  by pat_completeness auto
termination
  by (relation "measure snd") (auto intro: div_less_dividend)

declare nat_digits.simps [simp del]

lemma nat_digits_nonempty [simp]: "nat_digits b v \<noteq> []"
  by (subst nat_digits.simps) simp

lemma nat_digits_less: "2 \<le> b \<Longrightarrow> d \<in> set (nat_digits b v) \<Longrightarrow> d < b"
proof (induction b v rule: nat_digits.induct)
  case (1 b v)
  then show ?case by (auto simp: nat_digits.simps [of b v] split: if_splits)
qed

lemma nat_digits_value: "2 \<le> b \<Longrightarrow> foldl (\<lambda>a d. b * a + d) 0 (nat_digits b v) = v"
proof (induction b v rule: nat_digits.induct)
  case (1 b v)
  then show ?case by (simp add: nat_digits.simps [of b v] mult.commute)
qed

lemma nat_digits_length: "2 \<le> b \<Longrightarrow> v < b ^ k \<Longrightarrow> 0 < k \<Longrightarrow> length (nat_digits b v) \<le> k"
proof (induction b v arbitrary: k rule: nat_digits.induct)
  case (1 b v)
  show ?case
  proof (cases "v < b")
    case True
    then show ?thesis using 1(4) by (simp add: nat_digits.simps [of b v])
  next
    case False
    then obtain j where k: "k = Suc j" "0 < j"
      using 1(3,4) by (metis One_nat_def gr0_conv_Suc gr0I power_one_right)
    have "v div b < b ^ j"
      using 1(2,3) k by (simp add: less_mult_imp_div_less mult.commute)
    then have "length (nat_digits b (v div b)) \<le> j"
      using 1(1) [of j] 1(2) False k by simp
    then show ?thesis using False k by (simp add: nat_digits.simps [of b v])
  qed
qed

lemma nat_digits_no_leading_zero: "2 \<le> b \<Longrightarrow> 0 < v \<Longrightarrow> hd (nat_digits b v) \<noteq> 0"
proof (induction b v rule: nat_digits.induct)
  case (1 b v)
  show ?case
  proof (cases "v < b")
    case True
    then show ?thesis using 1(3) by (simp add: nat_digits.simps [of b v])
  next
    case False
    then have "0 < v div b" using 1(2) by (simp add: div_greater_zero_iff)
    then have "hd (nat_digits b (v div b)) \<noteq> 0" using 1 False by simp
    then show ?thesis using False 1(2) by (simp add: nat_digits.simps [of b v])
  qed
qed

lemma fill_loop_digits:
  "2 \<le> b \<Longrightarrow> length (nat_digits b v) \<le> i \<Longrightarrow> i \<le> length buf \<Longrightarrow>
     fill_loop digits b buf i v =
       Some (take (i - length (nat_digits b v)) buf @ map ((!) digits) (nat_digits b v) @ drop i buf,
             i - length (nat_digits b v))"
proof (induction i arbitrary: buf v)
  case 0
  then show ?case by simp
next
  case (Suc i)
  let ?buf = "buf[i := digits ! (v mod b)]"
  have drop: "drop i ?buf = digits ! (v mod b) # drop (Suc i) buf"
    using Suc.prems(3) by (simp add: drop_update_swap Cons_nth_drop_Suc [symmetric])
  show ?case
  proof (cases "v < b")
    case True
    then have "nat_digits b v = [v]" by (simp add: nat_digits.simps [of b v])
    moreover have "?buf = take i buf @ digits ! v # drop (Suc i) buf"
      using Suc.prems(3) True by (simp add: upd_conv_take_nth_drop)
    ultimately show ?thesis using True Suc.prems by (simp add: Let_def)
  next
    case False
    then have d: "nat_digits b v = nat_digits b (v div b) @ [v mod b]" "v div b \<noteq> 0"
      using Suc.prems(1) by (simp_all add: nat_digits.simps [of b v] div_eq_0_iff)
    have "fill_loop digits b ?buf i (v div b) =
        Some (take (i - length (nat_digits b (v div b))) ?buf
                @ map ((!) digits) (nat_digits b (v div b)) @ drop i ?buf,
              i - length (nat_digits b (v div b)))"
      using Suc.prems d by (intro Suc.IH) auto
    then show ?thesis using d by (simp add: Let_def drop)
  qed
qed

definition digit_string :: "string \<Rightarrow> nat \<Rightarrow> nat \<Rightarrow> string" where
  "digit_string digits b v = map ((!) digits) (nat_digits b v)"

lemma u32_digits_length:
  "10 \<le> b \<Longrightarrow> length (nat_digits b (unat (v :: u32))) \<le> 10"
proof -
  assume b: "10 \<le> b"
  have "unat v < 10 ^ 10" by (rule order_less_trans [OF unat_lt32]) simp
  also have "(10 :: nat) ^ 10 \<le> b ^ 10" using b by (intro power_mono) simp_all
  finally show ?thesis using b by (intro nat_digits_length) simp_all
qed

lemma fill_numbuf_digits:
  assumes "base = 10 \<or> base = 16 \<or> base = -16"
  defines "digits \<equiv> (if base < 0 then lower_digits else upper_digits)"
  shows "num_string v base = Some (digit_string digits (nat \<bar>base\<bar>) (unat v))"
proof -
  let ?b = "nat \<bar>base\<bar>"
  let ?ds = "nat_digits ?b (unat v)"
  let ?buf = "replicate 23 CHR 0x00 @ [CHR 0x00]"
  have b: "2 \<le> ?b" "10 \<le> ?b" "?b \<le> 16" using assms(1) by auto
  have len: "length ?ds \<le> 10" using b(2) by (rule u32_digits_length)
  have nz: "c \<noteq> CHR 0x00" if "c \<in> set (map ((!) digits) ?ds)" for c
  proof -
    from that obtain d where d: "d \<in> set ?ds" "c = digits ! d" by auto
    then have "d < 16" using nat_digits_less [OF b(1), of d] b(3) by fastforce
    then have "digits ! d \<in> set digits" by (simp add: digits_def upper_digits_def lower_digits_def)
    then show ?thesis using d by (auto simp: digits_def upper_digits_def lower_digits_def split: if_splits)
  qed
  have buf: "(replicate (Suc 23) CHR 0x00)[23 := CHR 0x00] = ?buf"
    unfolding replicate_update_same by (simp only: replicate_Suc replicate_append_same)
  have "fill_loop digits ?b ?buf 23 (unat v) =
      Some (take (23 - length ?ds) ?buf @ map ((!) digits) ?ds @ drop 23 ?buf, 23 - length ?ds)"
    using b len by (intro fill_loop_digits) simp_all
  then have "fill_numbuf (replicate (Suc 23) CHR 0x00) (Suc 23) v base =
      Some (take (23 - length ?ds) ?buf @ map ((!) digits) ?ds @ [CHR 0x00], 23 - length ?ds)"
    using assms(1) unfolding fill_numbuf.simps buf by (auto simp: digits_def)
  moreover have "NUMBUFSIZ = Suc 23" by (simp add: NUMBUFSIZ_def)
  moreover have "takeWhile (\<lambda>c. c \<noteq> CHR 0x00) (map ((!) digits) ?ds @ [CHR 0x00]) =
      map ((!) digits) ?ds"
    using nz by (subst takeWhile_append2) auto
  ultimately show ?thesis
    using len by (simp add: num_string_def buf_string_def digit_string_def del: replicate_Suc)
qed

section \<open>Printers\<close>

text \<open>
  Two printers fed by the same call stay related by any relation their \<open>putc\<close> callbacks
  keep: \<open>printer_vprintf\<close> never looks at the printer's state.
\<close>

lemma rel_foldl:
  assumes "\<And>p q c. R p q \<Longrightarrow> R (f p c) (g q c)" and "R p q"
  shows "R (foldl f p cs) (foldl g q cs)"
  using assms(2) by (induction cs arbitrary: p q) (simp_all add: assms(1))

lemma printer_vprintf_rel:
  assumes "\<And>p q c k. R p q \<Longrightarrow> R (putc p c k) (putc' q c k)" and "R p q"
  shows "rel_option R (printer_vprintf putc m color fmt args p)
                      (printer_vprintf putc' m color fmt args q)"
  using assms
proof (induction putc m color fmt args p arbitrary: q rule: printer_vprintf.induct)
  case (1 putc m color args p)
  then show ?case by simp
next
  case (2 putc m color c fmt args p)
  note step = 2(4) and rel = 2(5)
  show ?case
  proof (cases "c = CHR ''%''")
    case False
    with 2(1) [OF False step step [OF rel]] show ?thesis by simp
  next
    case True
    show ?thesis
    proof (cases "conversion_spec m fmt args")
      case None
      with True show ?thesis by simp
    next
      case (Some r)
      then show ?thesis
      proof (cases r)
        case (Text out rest args')
        have "R (foldl (\<lambda>p ch. putc p ch color) p out) (foldl (\<lambda>q ch. putc' q ch color) q out)"
          by (rule rel_foldl) (use step rel in auto)
        with 2(2,3) True Some Text step show ?thesis by fastforce
      next
        case (SetColour col rest args')
        with 2(2,3) True Some step rel show ?thesis by fastforce
      qed
    qed
  qed
qed

text \<open>The characters a call prints, with their colours, whatever the printer.\<close>

definition vformat :: "mem \<Rightarrow> u32 \<Rightarrow> string \<Rightarrow> u32 list \<Rightarrow> (char \<times> u32) list option" where
  "vformat m color fmt args = printer_vprintf (\<lambda>out c k. out @ [(c, k)]) m color fmt args []"

text \<open>What \<open>printer_vprintf\<close> prints does not depend on where it is printed: any printer ends
  in the state reached by feeding its \<open>putc\<close> the same list of characters and colours.\<close>

lemma printer_vprintf_feed:
  "printer_vprintf putc m color fmt args p =
     map_option (foldl (\<lambda>p (c, k). putc p c k) p) (vformat m color fmt args)"
proof -
  let ?R = "\<lambda>p' out. p' = foldl (\<lambda>p (c, k). putc p c k) p out"
  have "rel_option ?R (printer_vprintf putc m color fmt args p) (vformat m color fmt args)"
    unfolding vformat_def by (rule printer_vprintf_rel) simp_all
  then show ?thesis by (cases "vformat m color fmt args") (auto elim: option.rel_cases)
qed

text \<open>
  The printer interface: a callback with an invariant. Every client that prints through
  \<open>printer_vprintf\<close> keeps it, and one that counts characters counts the output.
\<close>

locale printer_sink =
  fixes put :: "'p \<Rightarrow> char \<Rightarrow> u32 \<Rightarrow> 'p"
    and ok :: "'p \<Rightarrow> bool"
  assumes ok_put: "ok p \<Longrightarrow> ok (put p c k)"
begin

lemma ok_feed: "ok p \<Longrightarrow> ok (foldl (\<lambda>p (c, k). put p c k) p out)"
  by (induction out arbitrary: p) (auto simp: ok_put)

lemma ok_vprintf: "ok p \<Longrightarrow> printer_vprintf put m color fmt args p = Some p' \<Longrightarrow> ok p'"
  by (auto simp: printer_vprintf_feed ok_feed)

end

section \<open>What is printed\<close>

lemma vformat_Nil [simp]: "vformat m color [] args = Some []"
  by (simp add: vformat_def)

lemma foldl_snoc: "foldl (\<lambda>out (c, k). out @ [(c, k)]) acc = (@) acc"
proof
  show "foldl (\<lambda>out (c, k). out @ [(c, k)]) acc out = acc @ out" for out
    by (induction out rule: rev_induct) auto
qed

lemma foldl_snoc_colour: "foldl (\<lambda>acc ch. acc @ [(ch, k)]) acc out = acc @ map (\<lambda>c. (c, k)) out"
  by (induction out rule: rev_induct) auto

lemma vformat_from:
  "printer_vprintf (\<lambda>out c k. out @ [(c, k)]) m color fmt args acc =
     map_option ((@) acc) (vformat m color fmt args)"
  by (simp add: printer_vprintf_feed [of _ m color fmt args acc] foldl_snoc)

lemma vformat_plain:
  assumes "c \<noteq> CHR ''%''"
  shows "vformat m color (c # fmt) args = map_option ((#) (c, color)) (vformat m color fmt args)"
proof -
  have "vformat m color (c # fmt) args =
      printer_vprintf (\<lambda>out c k. out @ [(c, k)]) m color fmt args [(c, color)]"
    by (simp add: vformat_def assms)
  moreover have "(@) [(c, color)] = (#) (c, color)" by (simp add: fun_eq_iff)
  ultimately show ?thesis by (simp only: vformat_from)
qed

lemma vformat_spec:
  assumes "conversion_spec m fmt args = Some (Text out rest args')"
  shows "vformat m color (CHR ''%'' # fmt) args =
    map_option ((@) (map (\<lambda>c. (c, color)) out)) (vformat m color rest args')"
proof -
  have "vformat m color (CHR ''%'' # fmt) args =
      printer_vprintf (\<lambda>out c k. out @ [(c, k)]) m color rest args' (map (\<lambda>c. (c, color)) out)"
    by (simp add: vformat_def assms foldl_snoc_colour)
  then show ?thesis by (simp only: vformat_from)
qed

text \<open>A format without a percent sign is printed verbatim in the given colour.\<close>

lemma vformat_text:
  "CHR ''%'' \<notin> set fmt \<Longrightarrow> vformat m color fmt args = Some (map (\<lambda>c. (c, color)) fmt)"
  by (induction fmt) (auto simp: vformat_plain)

section \<open>Numbers are printed and read back\<close>

lemma upper_digit_val:
  assumes "d < 10"
  shows "is_digit (upper_digits ! d)" "char_val (upper_digits ! d) = 48 + int d"
proof -
  have "d = 0 \<or> d = 1 \<or> d = 2 \<or> d = 3 \<or> d = 4 \<or> d = 5 \<or> d = 6 \<or> d = 7 \<or> d = 8 \<or> d = 9"
    using assms by arith
  then show "is_digit (upper_digits ! d)" "char_val (upper_digits ! d) = 48 + int d"
    by (auto simp: upper_digits_def is_digit_def char_val_def)
qed

lemma parse_digits_map:
  assumes "\<forall>d \<in> set ds. d < 10" and "rest = [] \<or> \<not> is_digit (hd rest)"
  shows "parse_digits (map ((!) upper_digits) ds @ rest) n =
           (foldl (\<lambda>a d. 10 * a + int d) n ds, rest)"
  using assms
proof (induction ds arbitrary: n)
  case Nil
  then show ?case by (cases rest) auto
next
  case (Cons d ds)
  then show ?case by (simp add: upper_digit_val add.commute)
qed

lemma foldl_int: "foldl (\<lambda>a d. 10 * a + int d) (int n) ds = int (foldl (\<lambda>a d. 10 * a + d) n ds)"
proof (induction ds arbitrary: n)
  case (Cons d ds)
  from Cons [of "10 * n + d"] show ?case by simp
qed simp

text \<open>Printing a number in decimal and reading it back with the parser of field widths gives
  the number and leaves the rest of the text.\<close>

theorem decimal_roundtrip:
  assumes "rest = [] \<or> \<not> is_digit (hd rest)"
  shows "\<exists>s. num_string v 10 = Some s \<and> parse_digits (s @ rest) 0 = (uint v, rest)"
proof -
  let ?ds = "nat_digits 10 (unat v)"
  have "parse_digits (digit_string upper_digits 10 (unat v) @ rest) 0 =
      (foldl (\<lambda>a d. 10 * a + int d) (int 0) ?ds, rest)"
    using assms nat_digits_less [of 10] by (simp add: digit_string_def parse_digits_map)
  also have "\<dots> = (uint v, rest)"
    by (simp only: foldl_int nat_digits_value) simp
  finally show ?thesis using fill_numbuf_digits [of 10 v] by simp
qed

theorem decimal_roundtrip_witness:
  "\<exists>s. num_string 4294967295 10 = Some s \<and> parse_digits (s @ ''px'') 0 = (4294967295, ''px'')"
  using decimal_roundtrip [of "''px''" 4294967295] by (simp add: is_digit_def char_val_def)

lemma unat_uminus_sint:
  fixes x :: u32
  shows "unat (if sint x > 0 then x else - x) = nat \<bar>sint x\<bar>"
proof -
  have bounds: "- (2 ^ 31) \<le> sint x" "sint x < 2 ^ 31"
    using sint_ge [of x] sint_lt [of x] by simp_all
  have "uint (word_of_int k :: u32) = k" if "0 \<le> k" "k < 2 ^ 32" for k
    using that by (simp add: uint_word_of_int_eq take_bit_int_eq_self)
  from this [of "\<bar>sint x\<bar>"] have "uint (word_of_int \<bar>sint x\<bar> :: u32) = \<bar>sint x\<bar>"
    using bounds by simp
  moreover have "(if sint x > 0 then x else - x) = word_of_int \<bar>sint x\<bar>"
    by (auto simp: abs_if signed_eq_0_iff)
  ultimately show ?thesis by (simp only: unat_eq_nat_uint)
qed

lemma data_chars_Buf [simp]: "map (data_char m (Buf s)) [0..<length s] = s"
  by (rule nth_equalityI) simp_all

lemma emit_plain:
  "emit m 0 (-1) (-1) (Buf s) numeric negative =
     Some ((if numeric \<and> negative then ''-'' else []) @ s)"
  by (simp add: emit_def sign_of_def zeros_of_def Let_def FLAG_ZERO_def map_nth
      FLAG_PLUSPOSITIVE_def FLAG_SPACEPOSITIVE_def FLAG_LEFTJUSTIFY_def comp_def)

text \<open>C13: \<open>%d\<close> prints the signed value of its argument in canonical decimal notation, for
  every 32-bit argument, the least one included.\<close>

theorem vformat_decimal:
  "vformat m color ''%d'' (x # args) =
     Some (map (\<lambda>c. (c, color))
       ((if sint x < 0 then ''-'' else []) @ digit_string upper_digits 10 (nat \<bar>sint x\<bar>)))"
proof -
  have "conversion_spec m ''d'' (x # args) =
      Some (Text ((if sint x < 0 then ''-'' else []) @ digit_string upper_digits 10 (nat \<bar>sint x\<bar>))
        [] args)"
    using fill_numbuf_digits [of 10] unat_uminus_sint [of x]
    by (simp add: conversion_spec_def flag_chars_def char_val_def convert_def conv_number_def
        emit_plain)
  from vformat_spec [OF this] show ?thesis by simp
qed

section \<open>Field widths\<close>

text \<open>A conversion prints exactly as many characters as its field width asks for, or as many
  as data, sign and zeros need when that is more.\<close>

theorem emit_width:
  assumes "emit m flags width precision data numeric negative = Some out"
    and "data_len m precision numeric data = Some len" "0 \<le> len"
    and "signs = sign_of flags numeric negative"
    and "zeros = zeros_of flags numeric precision len (int (length signs)) width"
  shows "int (length out) = max width (len + zeros + int (length signs))"
  using assms by (auto simp: emit_def Let_def zeros_of_def)

theorem emit_width_witness:
  "\<exists>out. emit (\<lambda>_. 0) FLAG_ZERO 8 (-1) (Buf ''1F'') True False = Some out \<and> int (length out) = 8"
proof -
  obtain out where out: "emit (\<lambda>_. 0) FLAG_ZERO 8 (-1) (Buf ''1F'') True False = Some out"
    by (auto simp: emit_def)
  have "int (length out) = max 8 (2 + 6 + int (length ([] :: string)))"
    by (rule emit_width [OF out])
      (simp_all add: sign_of_def zeros_of_def FLAG_ZERO_def FLAG_LEFTJUSTIFY_def
        FLAG_PLUSPOSITIVE_def FLAG_SPACEPOSITIVE_def)
  with out show ?thesis by simp
qed

end
