(* ===== verification/Console.thy ===== *)
theory Console
  imports Printf "HOL-Library.Monad_Syntax"
begin

text \<open>
  The printers of \<open>pset3/lib.c\<close> and \<open>pset3/process.c\<close>: the CGA console (an array of
  \<open>CONSOLE_ROWS * CONSOLE_COLUMNS\<close> 16-bit cells and a cursor) and the bounded string buffer
  of \<open>vsnprintf\<close>. Both are printers in the sense of the locale \<open>printer_sink\<close>; the buffer of
  a string printer is a list, so it does not alias the strings the format reads.
\<close>

definition CONSOLE_COLUMNS :: nat where "CONSOLE_COLUMNS = 80"
definition CONSOLE_ROWS :: nat where "CONSOLE_ROWS = 25"

definition CPOS :: "int \<Rightarrow> int \<Rightarrow> int" where
  "CPOS row col = row * 80 + col"

definition char_u16 :: "char \<Rightarrow> u16" where
  "char_u16 c = word_of_nat (of_char c)"

section \<open>The console\<close>

record console_printer =
  console :: "u16 list"
  cursor :: nat  \<comment> \<open>\<open>cp->cursor - console\<close>\<close>

text \<open>A store through a pointer into the console; \<open>None\<close> is a store behind its end.\<close>

definition set_cell :: "nat \<Rightarrow> u16 \<Rightarrow> u16 list \<Rightarrow> u16 list option" where
  "set_cell i v cells = (if i < length cells then Some (cells[i := v]) else None)"

definition put_cell :: "u16 \<Rightarrow> console_printer \<Rightarrow> console_printer option" where
  "put_cell v cp = map_option (\<lambda>cells. cp\<lparr>console := cells, cursor := cursor cp + 1\<rparr>)
     (set_cell (cursor cp) v (console cp))"

primrec put_cells :: "nat \<Rightarrow> u16 \<Rightarrow> console_printer \<Rightarrow> console_printer option" where
  "put_cells 0 v cp = Some cp"
| "put_cells (Suc n) v cp = put_cell v cp \<bind> put_cells n v"

definition console_putc :: "console_printer \<Rightarrow> char \<Rightarrow> u32 \<Rightarrow> console_printer option" where
  "console_putc cp c color =
     (let cp1 = (if cursor cp \<ge> CONSOLE_ROWS * CONSOLE_COLUMNS then cp\<lparr>cursor := 0\<rparr> else cp)
      in if c = CHR 0x0A
         then put_cells (80 - cursor cp1 mod 80) (char_u16 CHR '' '' OR ucast color) cp1
         else put_cell (char_u16 c OR ucast color) cp1)"

text \<open>A printer that has stored behind the end of the console does not go on.\<close>

definition console_put :: "console_printer option \<Rightarrow> char \<Rightarrow> u32 \<Rightarrow> console_printer option" where
  "console_put s c color = s \<bind> (\<lambda>cp. console_putc cp c color)"

definition console_vprintf ::
    "mem \<Rightarrow> u16 list \<Rightarrow> int \<Rightarrow> u32 \<Rightarrow> string \<Rightarrow> u32 list \<Rightarrow> (u16 list \<times> int) option" where
  "console_vprintf m cells cpos color fmt args =
     (let pos = (if cpos < 0 \<or> cpos \<ge> int (CONSOLE_ROWS * CONSOLE_COLUMNS) then 0 else nat cpos)
      in do {
       s \<leftarrow> printer_vprintf console_put m color fmt args (Some \<lparr>console = cells, cursor = pos\<rparr>);
       cp \<leftarrow> s;
       Some (console cp, int (cursor cp)) })"

definition console_clear :: "u16 list \<Rightarrow> u16 list \<times> int" where
  "console_clear cells =
     (foldl (\<lambda>cs i. cs[i := char_u16 CHR '' '' OR 0x0700]) cells
        [0..<CONSOLE_ROWS * CONSOLE_COLUMNS], 0)"

section \<open>Bounded strings\<close>

record string_printer =
  written :: string  \<comment> \<open>what stands between the start of the buffer and \<open>sp->s\<close>\<close>
  room :: nat        \<comment> \<open>\<open>sp->end\<close> minus the start of the buffer\<close>

definition string_putc :: "string_printer \<Rightarrow> char \<Rightarrow> u32 \<Rightarrow> string_printer" where
  "string_putc sp c color =
     (if length (written sp) < room sp then sp\<lparr>written := written sp @ [c]\<rparr> else sp)"

text \<open>The bytes \<open>vsnprintf\<close> stores into the buffer, NUL included, and its result.\<close>

definition vsnprintf :: "mem \<Rightarrow> nat \<Rightarrow> string \<Rightarrow> u32 list \<Rightarrow> (string \<times> int) option" where
  "vsnprintf m sz fmt args =
     (if sz \<noteq> 0
      then map_option (\<lambda>sp. (written sp @ [CHR 0x00], int (length (written sp))))
             (printer_vprintf string_putc m 0 fmt args \<lparr>written = [], room = sz - 1\<rparr>)
      else Some ([], 0))"

section \<open>Printing of a process\<close>

definition app_color :: "int \<Rightarrow> u32" where
  "app_color colorid =
     (if colorid < 0 then 0x0700
      else push_bit 8 ([0x0E, 0x0F, 0x0C, 0x0A, 0x09] ! (nat colorid mod 5)))"

definition app_printf ::
    "mem \<Rightarrow> u16 list \<Rightarrow> int \<Rightarrow> int \<Rightarrow> string \<Rightarrow> u32 list \<Rightarrow> (u16 list \<times> int) option" where
  "app_printf m cells cursorpos colorid fmt args =
     console_vprintf m cells cursorpos (app_color colorid) fmt args"

text \<open>The message a process hands to the kernel's panic system call: the buffer up to its NUL.\<close>

definition process_panic :: "mem \<Rightarrow> string \<Rightarrow> u32 list \<Rightarrow> string option" where
  "process_panic m fmt args =
     map_option (\<lambda>(buf, l).
       if l > 0 \<and> buf ! nat (l - 1) \<noteq> CHR 0x0A
       then take (nat (l - (if l = 159 then 1 else 0))) buf @ [CHR 0x0A]
       else take (nat l) buf)
       (vsnprintf m 160 fmt args)"

section \<open>The console printer keeps its array\<close>

definition console_ok :: "console_printer \<Rightarrow> bool" where
  "console_ok cp \<longleftrightarrow> length (console cp) = 2000 \<and> cursor cp \<le> 2000"

definition console_sound :: "console_printer option \<Rightarrow> bool" where
  "console_sound s \<longleftrightarrow> (case s of None \<Rightarrow> False | Some cp \<Rightarrow> console_ok cp)"

lemma put_cell_ok:
  assumes "length (console cp) = 2000" "cursor cp < 2000"
  shows "put_cell v cp = Some (cp\<lparr>console := (console cp)[cursor cp := v], cursor := cursor cp + 1\<rparr>)"
  using assms by (simp add: put_cell_def set_cell_def)

lemma put_cells_ok:
  assumes "length (console cp) = 2000" "cursor cp + n \<le> 2000"
  shows "\<exists>cp'. put_cells n v cp = Some cp' \<and> length (console cp') = 2000 \<and> cursor cp' = cursor cp + n"
  using assms
proof (induction n arbitrary: cp)
  case (Suc n)
  let ?cp = "cp\<lparr>console := (console cp)[cursor cp := v], cursor := cursor cp + 1\<rparr>"
  have "put_cell v cp = Some ?cp" using Suc.prems by (intro put_cell_ok) simp_all
  then show ?case using Suc.IH [of ?cp] Suc.prems by simp
qed simp

lemma next_row: "n + (80 - n mod 80) = 80 * (n div 80 + 1)" for n :: nat
proof -
  obtain q r where qr: "n div 80 = q" "n mod 80 = r" "r < 80" by simp
  then have "n = q * 80 + r" using div_mult_mod_eq [of n 80] by simp
  with qr show ?thesis by simp
qed

lemma row_end: "n < 2000 \<Longrightarrow> n + (80 - n mod 80) \<le> (2000 :: nat)"
  using less_mult_imp_div_less [of n 25 80] by (simp add: next_row)

text \<open>One character: no store behind the end, whether the cursor wraps or fills up a row.\<close>

lemma console_putc_ok:
  assumes "console_ok cp"
  shows "\<exists>cp'. console_putc cp c color = Some cp' \<and> console_ok cp'"
proof -
  define cp1 where "cp1 = (if cursor cp \<ge> CONSOLE_ROWS * CONSOLE_COLUMNS then cp\<lparr>cursor := 0\<rparr> else cp)"
  have l: "length (console cp1) = 2000" "cursor cp1 < 2000"
    using assms by (auto simp: cp1_def console_ok_def CONSOLE_ROWS_def CONSOLE_COLUMNS_def)
  obtain cp2 where cp2: "put_cells (80 - cursor cp1 mod 80) (char_u16 CHR '' '' OR ucast color) cp1 = Some cp2"
    "length (console cp2) = 2000" "cursor cp2 \<le> 2000"
    using put_cells_ok [OF l(1) row_end [OF l(2)]] row_end [OF l(2)] by metis
  then show ?thesis
    using put_cell_ok [OF l] l by (simp add: console_putc_def cp1_def [symmetric] console_ok_def)
qed

interpretation console_sink: printer_sink console_put console_sound
proof
  fix s c k assume "console_sound s"
  then obtain cp where "s = Some cp" "console_ok cp" by (auto simp: console_sound_def split: option.splits)
  then show "console_sound (console_put s c k)"
    using console_putc_ok [of cp c k] by (auto simp: console_sound_def console_put_def)
qed

text \<open>C14: Printing to the console never stores outside of its 2000 cells, whatever the format, the
  arguments and the position asked for, however often the cursor wraps around: it returns whenever
  the format can be expanded, with the 2000 cells and a position among them or their end.\<close>

theorem console_vprintf_bounds:
  assumes "length cells = 2000" and "vformat m color fmt args = Some out"
  shows "\<exists>cells' cpos'. console_vprintf m cells cpos color fmt args = Some (cells', cpos')
    \<and> length cells' = 2000 \<and> 0 \<le> cpos' \<and> cpos' \<le> 2000"
proof -
  let ?pos = "if cpos < 0 \<or> cpos \<ge> 2000 then 0 else nat cpos"
  let ?start = "Some \<lparr>console = cells, cursor = ?pos\<rparr>"
  have "console_sound ?start" using assms(1) by (auto simp: console_sound_def console_ok_def)
  then have "console_sound (foldl (\<lambda>p (c, k). console_put p c k) ?start out)" by (rule console_sink.ok_feed)
  then obtain cp where cp: "foldl (\<lambda>p (c, k). console_put p c k) ?start out = Some cp" "console_ok cp"
    by (auto simp: console_sound_def split: option.splits)
  have "console_vprintf m cells cpos color fmt args = Some (console cp, int (cursor cp))"
    using cp(1) by (simp add: console_vprintf_def Let_def CONSOLE_ROWS_def CONSOLE_COLUMNS_def printer_vprintf_feed assms(2))
  then show ?thesis using cp(2) by (simp add: console_ok_def)
qed

theorem console_vprintf_bounds_witness:
  "\<exists>cells' cpos'. console_vprintf (\<lambda>_. 0) (replicate 2000 0) 1999 7 ''ab'' [] = Some (cells', cpos')
     \<and> length cells' = 2000 \<and> 0 \<le> cpos' \<and> cpos' \<le> 2000"
  using console_vprintf_bounds [OF _ vformat_text, of "replicate 2000 0" "''ab''" "\<lambda>_. 0" 1999 7 "[]"] by simp

section \<open>What appears on the console\<close>

lemma put_text:
  assumes "CHR 0x0A \<notin> set cs" "pos + length cs \<le> 2000" "length cells = 2000"
  shows "foldl (\<lambda>s (c, k). console_put s c k) (Some \<lparr>console = cells, cursor = pos\<rparr>)
           (map (\<lambda>c. (c, color)) cs) =
         Some \<lparr>console = take pos cells @ map (\<lambda>c. char_u16 c OR ucast color) cs
                     @ drop (pos + length cs) cells, cursor = pos + length cs\<rparr>"
  using assms
proof (induction cs arbitrary: pos cells)
  case Nil
  then show ?case by simp
next
  case (Cons c cs)
  let ?v = "char_u16 c OR ucast color"
  have "c \<noteq> CHR 0x0A" using Cons.prems(1) by auto
  then have "console_put (Some \<lparr>console = cells, cursor = pos\<rparr>) c color =
      Some \<lparr>console = cells[pos := ?v], cursor = Suc pos\<rparr>"
    using Cons.prems
    by (simp add: console_put_def console_putc_def put_cell_ok Let_def CONSOLE_ROWS_def CONSOLE_COLUMNS_def)
  then show ?case
    using Cons.prems by (simp add: Cons.IH take_Suc_conv_app_nth)
qed

text \<open>Text without control characters that fits behind the cursor is written cell by cell in
  its colour; every other cell keeps its contents.\<close>

theorem console_vprintf_text:
  assumes "length cells = 2000" "CHR ''%'' \<notin> set cs" "CHR 0x0A \<notin> set cs"
    and "0 \<le> cpos" "cpos < 2000" "nat cpos + length cs \<le> 2000"
  shows "console_vprintf m cells cpos color cs args =
    Some (take (nat cpos) cells @ map (\<lambda>c. char_u16 c OR ucast color) cs
            @ drop (nat cpos + length cs) cells, cpos + int (length cs))"
  using assms
  by (simp add: console_vprintf_def Let_def CONSOLE_ROWS_def CONSOLE_COLUMNS_def
      printer_vprintf_feed vformat_text put_text)

theorem console_vprintf_text_witness:
  "console_vprintf (\<lambda>_. 0) (replicate 2000 0) 1998 0x0700 ''OK'' [] =
     Some (replicate 1998 0 @ [0x074F, 0x074B], 2000)"
  using console_vprintf_text [of "replicate 2000 0" "''OK''" 1998 "\<lambda>_. 0" "0x0700" "[]"]
  by (simp add: char_u16_def)

lemma console_newline:
  assumes "length (console cp) = 2000" "cursor cp < 2000"
  shows "\<exists>cp'. console_putc cp CHR 0x0A color = Some cp' \<and> cursor cp' mod 80 = 0 \<and> cursor cp < cursor cp'"
proof -
  obtain cp2 where "put_cells (80 - cursor cp mod 80) (char_u16 CHR '' '' OR ucast color) cp = Some cp2"
    "cursor cp2 = 80 * (cursor cp div 80 + 1)"
    using put_cells_ok [OF assms(1) row_end [OF assms(2)]] unfolding next_row by metis
  then show ?thesis
    using assms(2) by (simp add: console_putc_def CONSOLE_ROWS_def CONSOLE_COLUMNS_def)
qed

section \<open>Bounded strings hold what fits\<close>

definition string_ok :: "string_printer \<Rightarrow> bool" where
  "string_ok sp \<longleftrightarrow> length (written sp) \<le> room sp"

interpretation string_sink: printer_sink string_putc string_ok
  by unfold_locales (auto simp: string_ok_def string_putc_def)

lemma string_putc_feed:
  "string_ok sp \<Longrightarrow> foldl (\<lambda>sp (c, k). string_putc sp c k) sp out =
     sp\<lparr>written := take (room sp) (written sp @ map fst out)\<rparr>"
proof (induction out arbitrary: sp)
  case Nil
  then show ?case by (simp add: string_ok_def)
next
  case (Cons ck out)
  obtain c k where ck: "ck = (c, k)" by (cases ck)
  have "foldl (\<lambda>sp (c, k). string_putc sp c k) sp (ck # out) =
      foldl (\<lambda>sp (c, k). string_putc sp c k) (string_putc sp c k) out" by (simp add: ck)
  also have "\<dots> = (string_putc sp c k)\<lparr>written :=
      take (room (string_putc sp c k)) (written (string_putc sp c k) @ map fst out)\<rparr>"
    by (rule Cons.IH) (rule string_sink.ok_put [OF Cons.prems])
  also have "\<dots> = sp\<lparr>written := take (room sp) (written sp @ map fst (ck # out))\<rparr>"
    using Cons.prems by (auto simp: string_putc_def string_ok_def ck take_Cons' split: nat.splits)
  finally show ?case .
qed

lemma vsnprintf_result:
  assumes "vformat m 0 fmt args = Some out" "0 < sz"
  shows "vsnprintf m sz fmt args =
    Some (take (sz - 1) (map fst out) @ [CHR 0x00], int (min (sz - 1) (length out)))"
  using assms string_putc_feed [of "\<lparr>written = [], room = sz - 1\<rparr>" out]
  by (simp add: vsnprintf_def printer_vprintf_feed string_ok_def min.commute)

text \<open>\<open>vsnprintf\<close> stores the formatted text cut to \<open>sz - 1\<close> characters, then a NUL, never
  more than \<open>sz\<close> bytes, and returns the number of characters stored.\<close>

theorem vsnprintf_truncates:
  assumes "vformat m 0 fmt args = Some out" "0 < sz"
  shows "\<exists>buf. vsnprintf m sz fmt args = Some (buf, int (min (sz - 1) (length out))) \<and>
    buf = take (sz - 1) (map fst out) @ [CHR 0x00] \<and> length buf \<le> sz"
  using assms by (auto simp: vsnprintf_result)

theorem vsnprintf_truncates_witness:
  "vsnprintf (\<lambda>_. 0) 4 ''hello'' [] = Some (''hel'' @ [CHR 0x00], 3)"
  using vsnprintf_truncates [OF vformat_text, of "''hello''" 4 "\<lambda>_. 0" "[]"] by auto

lemma nth_pred_last: "t \<noteq> [] \<Longrightarrow> (t @ [x]) ! nat (int (length t) - 1) = last t"
  by (cases t rule: rev_cases) (auto simp: nth_append)

text \<open>A panic message of a process ends in a newline and fits the 160-byte buffer with its
  NUL, unless the formatted text is empty.\<close>

theorem process_panic_newline:
  assumes "vformat m 0 fmt args = Some out" "out \<noteq> []"
  shows "\<exists>msg. process_panic m fmt args = Some msg \<and> last msg = CHR 0x0A \<and> length msg \<le> 159"
proof -
  let ?t = "take 159 (map fst out)"
  have v: "vsnprintf m 160 fmt args = Some (?t @ [CHR 0x00], int (length ?t))"
    using vsnprintf_result [OF assms(1), of 160] by (simp add: min.commute)
  have t: "?t \<noteq> []" "length ?t \<le> 159" using assms(2) by auto
  have "(?t @ [CHR 0x00]) ! nat (int (length ?t) - 1) = last ?t"
    by (rule nth_pred_last) (rule t)
  then show ?thesis using t unfolding process_panic_def v
    by (auto simp: take_append nat_diff_distrib split: if_splits)
qed

theorem process_panic_newline_witness:
  "\<exists>msg. process_panic (\<lambda>_. 0) ''out of memory'' [] = Some msg \<and> last msg = CHR 0x0A
     \<and> length msg \<le> 159"
  using process_panic_newline [OF vformat_text, of "''out of memory''" "\<lambda>_. 0" "[]"] by simp

end
