(* ===== verification/HitTracker.thy ===== *)
theory HitTracker
  imports Prelude "HOL-Library.Multiset"
begin

text \<open>
  The heavy-hitter counters of \<open>pset1/m61.c\<close>: \<open>updateCounters\<close>, a weighted variant of the
  FREQUENT algorithm over a small array of counters, and \<open>sortHitTracker\<close>, a bubble sort.
  The platform is the 32-bit appliance: \<open>size_t\<close> and pointers are 32 bits wide, the
  counters \<open>unsigned long long\<close> 64 bits. A call site is a file-name pointer and a line.
\<close>

record hitTracker =
  counter :: u64
  hfile :: u32
  hline :: u32

type_synonym site = "u32 \<times> u32"

definition site_of :: "hitTracker \<Rightarrow> site" where
  "site_of t = (hfile t, hline t)"

section \<open>updateCounters\<close>

text \<open>
  The first loop: \<open>Inl\<close> is the array after an update that returned, \<open>Inr\<close> the minimum of
  the counters when the loop ran to its end.
\<close>

fun count_scan :: "u32 \<Rightarrow> u32 \<Rightarrow> u32 \<Rightarrow> u64 \<Rightarrow> hitTracker list \<Rightarrow> hitTracker list + u64" where
  "count_scan occurrence f l minimumValue [] = Inr minimumValue"
| "count_scan occurrence f l minimumValue (t # ts) =
     (let minimumValue = (if counter t < minimumValue then counter t else minimumValue) in
      if hfile t = f \<and> hline t = l
      then Inl (t\<lparr>counter := counter t + ucast occurrence\<rparr> # ts)
      else if counter t = 0
      then Inl (t\<lparr>hfile := f, hline := l, counter := counter t + ucast occurrence\<rparr> # ts)
      else map_sum ((#) t) id (count_scan occurrence f l minimumValue ts))"

lemma count_scan_min:
  "count_scan w f l v ts = Inr m \<Longrightarrow>
     m \<le> v \<and> (\<forall>t \<in> set ts. m \<le> counter t \<and> counter t \<noteq> 0 \<and> site_of t \<noteq> (f, l))
       \<and> (m = v \<or> (\<exists>t \<in> set ts. m = counter t))"
proof (induction ts arbitrary: v m)
  case Nil
  then show ?case by simp
next
  case (Cons t ts)
  let ?v = "if counter t < v then counter t else v"
  from Cons.prems have ne: "site_of t \<noteq> (f, l)" "counter t \<noteq> 0"
    and rec: "count_scan w f l ?v ts = Inr m"
    by (auto simp: Let_def site_of_def split: if_splits)
      (case_tac "count_scan w f l ?v ts"; simp)+
  from Cons.IH [OF rec] ne show ?case by (auto split: if_splits)
qed

lemma count_scan_min_pos:
  assumes "count_scan w f l (- 1) ts = Inr m"
  shows "m \<noteq> 0"
  using count_scan_min [OF assms] by auto

lemma unat_ucast_u64 [simp]: "unat (ucast (w :: u32) :: u64) = unat w"
  using order_less_trans [OF unat_lt32 [of w], of "2 ^ 64"]
  by (simp add: unsigned_ucast_eq take_bit_nat_eq_self)

lemma occurrence_rest:
  assumes "(m :: u64) < ucast (w :: u32)"
  shows "unat (ucast (ucast w - m :: u64) :: u32) = unat w - unat m"
proof -
  have "unat (ucast w - m :: u64) = unat w - unat m"
    using assms by (simp add: unat_sub word_less_nat_alt less_imp_le word_le_nat_alt)
  moreover have "unat w - unat m < 2 ^ 32"
    using unat_lt32 [of w] by (simp add: less_imp_diff_less)
  ultimately show ?thesis
    by (simp add: unsigned_ucast_eq take_bit_nat_eq_self)
qed

function updateCounters :: "hitTracker list \<Rightarrow> u32 \<Rightarrow> u32 \<Rightarrow> u32 \<Rightarrow> hitTracker list" where
  "updateCounters tracker occurrence f l =
     (case count_scan occurrence f l (- 1) tracker of
        Inl tracker' \<Rightarrow> tracker'
      | Inr minimumValue \<Rightarrow>
          (let subtractValue = (if ucast occurrence > minimumValue then minimumValue
                                else ucast occurrence);
               tracker' = map (\<lambda>t. t\<lparr>counter := counter t - subtractValue\<rparr>) tracker
           in if ucast occurrence > minimumValue
              then updateCounters tracker' (ucast (ucast occurrence - minimumValue)) f l
              else tracker'))"
  by pat_completeness auto

termination
proof (relation "measure (\<lambda>(tracker, occurrence, f, l). unat occurrence)")
  fix tracker occurrence f l m x xa
  assume "count_scan occurrence f l (- 1) tracker = Inr m"
    and lt: "m < ucast occurrence"
  then have "0 < unat m" by (simp add: count_scan_min_pos unat_gt_0)
  moreover have "unat m < unat occurrence" using lt by (simp add: word_less_nat_alt)
  ultimately show "((xa, ucast (ucast occurrence - m), f, l), (tracker, occurrence, f, l))
      \<in> measure (\<lambda>(tracker, occurrence, f, l). unat occurrence)"
    by (simp add: occurrence_rest [OF lt])
qed simp

declare updateCounters.simps [simp del]

section \<open>sortHitTracker\<close>

text \<open>One run of the inner loop, with the flag \<open>sorted\<close> negated.\<close>

fun sort_pass :: "hitTracker list \<Rightarrow> hitTracker list \<times> bool" where
  "sort_pass (a # b # ts) =
     (if counter a < counter b
      then (let (r, _) = sort_pass (a # ts) in (b # r, True))
      else (let (r, swapped) = sort_pass (b # ts) in (a # r, swapped)))"
| "sort_pass ts = (ts, False)"

fun inversions :: "hitTracker list \<Rightarrow> nat" where
  "inversions [] = 0"
| "inversions (t # ts) = length (filter (\<lambda>u. counter t < counter u) ts) + inversions ts"

lemma mset_sort_pass: "mset (fst (sort_pass ts)) = mset ts"
  by (induction ts rule: sort_pass.induct) (auto split: prod.splits)

lemma length_filter_sort_pass:
  "length (filter P (fst (sort_pass ts))) = length (filter P ts)"
  by (metis mset_filter mset_sort_pass size_mset)

lemma sort_pass_inversions:
  "inversions (fst (sort_pass ts)) + of_bool (snd (sort_pass ts)) \<le> inversions ts"
proof (induction ts rule: sort_pass.induct)
  case (1 a b ts)
  show ?case
  proof (cases "counter a < counter b")
    case True
    then show ?thesis
      using 1(1) length_filter_sort_pass [of "\<lambda>u. counter b < counter u" "a # ts"]
      by (auto split: prod.splits)
  next
    case False
    then show ?thesis
      using 1(2) length_filter_sort_pass [of "\<lambda>u. counter a < counter u" "b # ts"]
      by (auto split: prod.splits)
  qed
qed auto

function sortHitTracker :: "hitTracker list \<Rightarrow> hitTracker list" where
  "sortHitTracker ts =
     (let (ts', swapped) = sort_pass ts in if swapped then sortHitTracker ts' else ts')"
  by pat_completeness auto
termination
proof (relation "measure inversions")
  fix ts ts' :: "hitTracker list" and x y
  assume "x = sort_pass ts" "(ts', y) = x" "y"
  then show "(ts', ts) \<in> measure inversions"
    using sort_pass_inversions [of ts] by (auto simp: split_beta prod_eq_iff)
qed simp

declare sortHitTracker.simps [simp del]

section \<open>Accounting\<close>

text \<open>
  \<open>weight\<close> is the sum the counters hold, \<open>slot_sum y\<close> the part of it held for site \<open>y\<close> (a
  site may occupy several slots: a slot whose counter is 0 is taken over before the array
  has been searched for the site).
\<close>

definition weight :: "hitTracker list \<Rightarrow> nat" where
  "weight ts = sum_list (map (\<lambda>t. unat (counter t)) ts)"

definition slot_sum :: "site \<Rightarrow> hitTracker list \<Rightarrow> nat" where
  "slot_sum y ts = sum_list (map (\<lambda>t. if site_of t = y then unat (counter t) else 0) ts)"

lemma weight_simps [simp]:
  "weight [] = 0" "weight (t # ts) = unat (counter t) + weight ts"
  "slot_sum y [] = 0"
  "slot_sum y (t # ts) = (if site_of t = y then unat (counter t) else 0) + slot_sum y ts"
  by (simp_all add: weight_def slot_sum_def)

lemma unat_add_u64:
  "unat (a :: u64) + unat (b :: u64) < 2 ^ 64 \<Longrightarrow> unat (a + b) = unat a + unat b"
  by (simp add: unat_word_ariths)

lemma count_scan_hit:
  assumes "count_scan w f l v ts = Inl ts'" and "weight ts + unat w < 2 ^ 64"
  shows "length ts' = length ts \<and> weight ts' = weight ts + unat w \<and>
    slot_sum y ts' = slot_sum y ts + (if y = (f, l) then unat w else 0)"
  using assms
proof (induction ts arbitrary: v ts')
  case (Cons t ts)
  let ?v = "if counter t < v then counter t else v"
  have add: "unat (counter t + ucast w) = unat (counter t) + unat w"
    using Cons.prems(2) by (intro trans [OF unat_add_u64]) simp_all
  consider "hfile t = f \<and> hline t = l" | "\<not> (hfile t = f \<and> hline t = l)" "counter t = 0"
    | r where "\<not> (hfile t = f \<and> hline t = l)" "counter t \<noteq> 0" "ts' = t # r"
      "count_scan w f l ?v ts = Inl r"
    using Cons.prems(1)
    by (cases "count_scan w f l ?v ts") (auto simp: Let_def split: if_splits)
  then show ?case
  proof cases
    case 1
    with Cons.prems add show ?thesis by (auto simp: Let_def site_of_def split: if_splits)
  next
    case 2
    with Cons.prems add show ?thesis by (auto simp: Let_def site_of_def split: if_splits)
  next
    case 3
    with Cons.IH [OF 3(4)] Cons.prems(2) show ?thesis by simp
  qed
qed simp

lemma decay:
  assumes "\<forall>t \<in> set ts. m \<le> counter t"
  shows "weight (map (\<lambda>t. t\<lparr>counter := counter t - m\<rparr>) ts) + length ts * unat m = weight ts"
    and "slot_sum y (map (\<lambda>t. t\<lparr>counter := counter t - m\<rparr>) ts) \<le> slot_sum y ts"
    and "slot_sum y ts
      \<le> slot_sum y (map (\<lambda>t. t\<lparr>counter := counter t - m\<rparr>) ts) + length ts * unat m"
  using assms
  by (induction ts) (auto simp: site_of_def unat_sub word_le_nat_alt)

lemma slot_sum_absent: "\<forall>t \<in> set ts. site_of t \<noteq> y \<Longrightarrow> slot_sum y ts = 0"
  by (induction ts) auto

lemma count_scan_length: "count_scan w f l v ts = Inl ts' \<Longrightarrow> length ts' = length ts"
proof (induction ts arbitrary: v ts')
  case (Cons t ts)
  let ?v = "if counter t < v then counter t else v"
  show ?case
    using Cons by (cases "count_scan w f l ?v ts") (auto simp: Let_def split: if_splits)
qed simp

lemma updateCounters_length: "length (updateCounters ts w f l) = length ts"
proof (induction ts w f l rule: updateCounters.induct)
  case (1 ts w f l)
  then show ?case
    by (subst updateCounters.simps)
      (auto split: sum.splits simp: Let_def count_scan_length)
qed

text \<open>The two halves of an update that decays the counters first.\<close>

lemma updateCounters_hit:
  "count_scan w f l (- 1) ts = Inl ts' \<Longrightarrow> updateCounters ts w f l = ts'"
  by (simp add: updateCounters.simps)

lemma updateCounters_decay:
  "count_scan w f l (- 1) ts = Inr m \<Longrightarrow> \<not> m < ucast w \<Longrightarrow>
     updateCounters ts w f l = map (\<lambda>t. t\<lparr>counter := counter t - ucast w\<rparr>) ts"
  by (simp add: updateCounters.simps)

lemma updateCounters_again:
  "count_scan w f l (- 1) ts = Inr m \<Longrightarrow> m < ucast w \<Longrightarrow>
     updateCounters ts w f l =
       updateCounters (map (\<lambda>t. t\<lparr>counter := counter t - m\<rparr>) ts) (ucast (ucast w - m)) f l"
  by (subst updateCounters.simps) simp

text \<open>
  The amount \<open>d\<close> by which an update lowers every counter accounts for everything it forgets.
\<close>

definition accounts ::
    "hitTracker list \<Rightarrow> hitTracker list \<Rightarrow> nat \<Rightarrow> site \<Rightarrow> nat \<Rightarrow> bool" where
  "accounts ts ts' w x d \<longleftrightarrow>
     weight ts' + (length ts + 1) * d = weight ts + w \<and>
     (\<forall>y. slot_sum y ts' \<le> slot_sum y ts + (if y = x then w else 0) \<and>
          slot_sum y ts + (if y = x then w else 0) \<le> slot_sum y ts' + max 1 (length ts) * d)"

lemma accounts_after_decay:
  assumes rest: "accounts ts1 ts' w1 x d"
    and ts1: "length ts1 = length ts" "weight ts1 + length ts * m = weight ts" "w1 + m = w"
    and le: "\<And>y. slot_sum y ts1 \<le> slot_sum y ts"
    and ge: "\<And>y. slot_sum y ts + (if y = x then m else 0)
               \<le> slot_sum y ts1 + max 1 (length ts) * m"
  shows "accounts ts ts' w x (d + m)"
  unfolding accounts_def
proof (intro conjI allI)
  show "weight ts' + (length ts + 1) * (d + m) = weight ts + w"
    using conjunct1 [OF rest [unfolded accounts_def]] ts1 by (simp add: algebra_simps)
next
  fix y
  have y: "slot_sum y ts' \<le> slot_sum y ts1 + (if y = x then w1 else 0)"
    "slot_sum y ts1 + (if y = x then w1 else 0) \<le> slot_sum y ts' + max 1 (length ts) * d"
    using spec [OF conjunct2 [OF rest [unfolded accounts_def]], of y] ts1(1) by simp_all
  show "slot_sum y ts' \<le> slot_sum y ts + (if y = x then w else 0)"
    using y(1) le [of y] ts1(3) by (cases "y = x") auto
  show "slot_sum y ts + (if y = x then w else 0) \<le> slot_sum y ts' + max 1 (length ts) * (d + m)"
    using y(2) ge [of y] ts1(3) by (cases "y = x") (simp_all add: distrib_left)
qed

lemma updateCounters_accounts:
  "weight ts + unat w < 2 ^ 64 \<Longrightarrow> \<exists>d. accounts ts (updateCounters ts w f l) (unat w) (f, l) d"
proof (induction ts w f l rule: updateCounters.induct)
  case (1 ts w f l)
  show ?case
  proof (cases "count_scan w f l (- 1) ts")
    case (Inl ts')
    then have "accounts ts ts' (unat w) (f, l) 0"
      using count_scan_hit [OF Inl 1(2)] by (simp add: accounts_def)
    then show ?thesis using updateCounters_hit [OF Inl] by metis
  next
    case (Inr m)
    let ?dec = "\<lambda>k. map (\<lambda>t. t\<lparr>counter := counter t - k\<rparr>) ts"
    have le: "\<forall>t \<in> set ts. m \<le> counter t" and absent: "slot_sum (f, l) ts = 0"
      using count_scan_min [OF Inr] by (auto intro: slot_sum_absent)
    show ?thesis
    proof (cases "m < ucast w")
      case True
      let ?w = "ucast (ucast w - m :: u64) :: u32"
      have w: "unat ?w = unat w - unat m" by (rule occurrence_rest [OF True])
      have mw: "unat m \<le> unat w" using True by (simp add: word_less_nat_alt)
      have "weight (?dec m) + unat ?w < 2 ^ 64"
        using decay(1) [OF le] 1(2) w by linarith
      then obtain d where d: "accounts (?dec m) (updateCounters (?dec m) ?w f l) (unat ?w) (f, l) d"
        using 1(1) [OF Inr refl refl True] True by auto
      have "accounts ts (updateCounters (?dec m) ?w f l) (unat w) (f, l) (d + unat m)"
      proof (rule accounts_after_decay [OF d])
        fix y
        show "slot_sum y ts + (if y = (f, l) then unat m else 0)
            \<le> slot_sum y (?dec m) + max 1 (length ts) * unat m"
          using decay(3) [OF le, of y] absent by (cases "length ts") auto
      qed (use decay [OF le] w mw in auto)
      then show ?thesis using updateCounters_again [OF Inr True] by metis
    next
      case False
      have wm: "ucast w \<le> m" using False by simp
      have le': "\<forall>t \<in> set ts. ucast w \<le> counter t" using le wm by fastforce
      have "accounts ts (?dec (ucast w)) (unat w) (f, l) (unat w)"
        unfolding accounts_def
      proof (intro conjI allI)
        show "weight (?dec (ucast w)) + (length ts + 1) * unat w = weight ts + unat w"
          using decay(1) [OF le'] by simp
      next
        fix y
        show "slot_sum y (?dec (ucast w)) \<le> slot_sum y ts + (if y = (f, l) then unat w else 0)"
          using decay(2) [OF le', of y] by simp
      next
        fix y
        show "slot_sum y ts + (if y = (f, l) then unat w else 0)
            \<le> slot_sum y (?dec (ucast w)) + max 1 (length ts) * unat w"
          using decay(3) [OF le', of y] absent by (cases "length ts") auto
      qed
      then show ?thesis using updateCounters_decay [OF Inr False] by metis
    qed
  qed
qed

text \<open>
  A run from the zeroed array of \<open>NUMBERCOUNTERS\<close> counters, one update per allocation.
\<close>

definition NUMBERCOUNTERS :: nat where
  "NUMBERCOUNTERS = 100 div 25 - 1"

definition zeroed :: hitTracker where
  "zeroed = \<lparr>counter = 0, hfile = 0, hline = 0\<rparr>"

type_synonym history = "(u32 \<times> site) list"

definition track :: "history \<Rightarrow> hitTracker list" where
  "track h = fold (\<lambda>(w, f, l) ts. updateCounters ts w f l) h (replicate NUMBERCOUNTERS zeroed)"

definition total_weight :: "history \<Rightarrow> nat" where
  "total_weight h = sum_list (map (\<lambda>(w, _). unat w) h)"

definition true_weight :: "site \<Rightarrow> history \<Rightarrow> nat" where
  "true_weight y h = sum_list (map (\<lambda>(w, x). if x = y then unat w else 0) h)"

lemma track_init:
  "weight (replicate n zeroed) = 0" "slot_sum y (replicate n zeroed) = 0"
  by (induction n) (auto simp: zeroed_def)

lemma length_track: "length (track h) = 3"
proof -
  have "length (fold (\<lambda>(w, f, l) ts. updateCounters ts w f l) h ts) = length ts" for ts
    by (induction h arbitrary: ts) (auto simp: updateCounters_length)
  then show ?thesis by (simp add: track_def NUMBERCOUNTERS_def)
qed

lemma track_snoc: "track (h @ [(w, f, l)]) = updateCounters (track h) w f l"
  by (simp add: track_def)

lemma total_weight_snoc: "total_weight (h @ [(w, x)]) = total_weight h + unat w"
  by (simp add: total_weight_def)

lemma true_weight_snoc:
  "true_weight y (h @ [(w, x)]) = true_weight y h + (if y = x then unat w else 0)"
  by (auto simp: true_weight_def)

lemma track_accounts:
  "total_weight h < 2 ^ 64 \<Longrightarrow>
     \<exists>D. weight (track h) + 4 * D = total_weight h \<and>
       (\<forall>y. slot_sum y (track h) \<le> true_weight y h \<and>
            true_weight y h \<le> slot_sum y (track h) + 3 * D)"
proof (induction h rule: rev_induct)
  case Nil
  then show ?case
    by (intro exI [of _ 0]) (simp add: track_def total_weight_def true_weight_def track_init)
next
  case (snoc e h)
  obtain w f l where e: "e = (w, f, l)" by (cases e)
  have "total_weight h < 2 ^ 64" using snoc.prems by (simp add: e total_weight_snoc)
  then obtain D where D: "weight (track h) + 4 * D = total_weight h"
      "\<And>y. slot_sum y (track h) \<le> true_weight y h"
      "\<And>y. true_weight y h \<le> slot_sum y (track h) + 3 * D"
    using snoc.IH by blast
  have "weight (track h) + unat w < 2 ^ 64"
    using snoc.prems D(1) by (simp add: e total_weight_snoc)
  then obtain d where
      d: "accounts (track h) (updateCounters (track h) w f l) (unat w) (f, l) d"
    using updateCounters_accounts by blast
  have d': "weight (updateCounters (track h) w f l) + 4 * d = weight (track h) + unat w"
    and y': "slot_sum y (updateCounters (track h) w f l)
        \<le> slot_sum y (track h) + (if y = (f, l) then unat w else 0)"
      "slot_sum y (track h) + (if y = (f, l) then unat w else 0)
        \<le> slot_sum y (updateCounters (track h) w f l) + 3 * d" for y
    using conjunct1 [OF d [unfolded accounts_def]]
      spec [OF conjunct2 [OF d [unfolded accounts_def]], of y]
    by (simp_all only: length_track) (simp_all add: max_def)
  show ?case
  proof (intro exI [of _ "D + d"] conjI allI)
    show "weight (track (h @ [e])) + 4 * (D + d) = total_weight (h @ [e])"
      using D(1) d' by (simp add: e track_snoc total_weight_snoc)
    fix y
    show "slot_sum y (track (h @ [e])) \<le> true_weight y (h @ [e])"
      using D(2) [of y] y'(1) [of y] by (simp add: e track_snoc true_weight_snoc)
    show "true_weight y (h @ [e]) \<le> slot_sum y (track (h @ [e])) + 3 * (D + d)"
      using D(3) [of y] y'(2) [of y] by (simp add: e track_snoc true_weight_snoc)
  qed
qed

text \<open>
  C11: what the counters say about a run of allocations whose sizes sum below 2^64: there is a
  single number D (the sum of all decays) with counters + 4 D = total, so the report's
  correction term \<open>(total - sum) / (NUMBERCOUNTERS + 1)\<close> is exactly D, and for every call
  site the slots never overestimate its true weight and underestimate it by at most 3 D.
\<close>

theorem heavy_hitter_bounds:
  assumes "total_weight h < 2 ^ 64"
  shows "\<exists>D. (total_weight h - weight (track h)) div (NUMBERCOUNTERS + 1) = D \<and>
       weight (track h) + (NUMBERCOUNTERS + 1) * D = total_weight h \<and>
       (\<forall>y. slot_sum y (track h) \<le> true_weight y h \<and>
            true_weight y h \<le> slot_sum y (track h) + NUMBERCOUNTERS * D)"
proof -
  obtain D where D: "weight (track h) + 4 * D = total_weight h"
      "\<forall>y. slot_sum y (track h) \<le> true_weight y h \<and>
            true_weight y h \<le> slot_sum y (track h) + 3 * D"
    using track_accounts [OF assms] by blast
  then have "total_weight h - weight (track h) = 4 * D" by simp
  with D show ?thesis by (intro exI [of _ D]) (simp add: NUMBERCOUNTERS_def)
qed

theorem heavy_hitter_bounds_witness:
  "\<exists>D. weight (track [(1, 7, 1), (5, 7, 2), (1, 7, 3), (9, 7, 4)]) + 4 * D = 16"
proof -
  let ?h = "[(1, 7, 1), (5, 7, 2), (1, 7, 3), (9, 7, 4)] :: history"
  have t: "total_weight ?h = 16" by (simp add: total_weight_def)
  have lt: "total_weight ?h < 2 ^ 64" unfolding t by simp
  show ?thesis
    using heavy_hitter_bounds [OF lt] unfolding t by (auto simp: NUMBERCOUNTERS_def)
qed

text \<open>
  a call site that allocates more than three quarters of all bytes is in the array after
  the run, with a positive counter.
\<close>

theorem dominant_site_tracked:
  assumes "total_weight h < 2 ^ 64" and "3 * total_weight h < 4 * true_weight y h"
  shows "\<exists>t \<in> set (track h). site_of t = y \<and> 0 < counter t"
proof (rule ccontr)
  assume neg: "\<not> ?thesis"
  have "slot_sum y ts = 0" if "\<forall>t \<in> set ts. \<not> (site_of t = y \<and> 0 < counter t)" for ts
    using that by (induction ts) (auto simp: unat_eq_0 simp flip: word_neq_0_conv)
  then have "slot_sum y (track h) = 0" using neg by auto
  moreover obtain D where "weight (track h) + 4 * D = total_weight h"
      "true_weight y h \<le> slot_sum y (track h) + 3 * D"
    using track_accounts [OF assms(1)] by blast
  ultimately show False using assms(2) by linarith
qed

theorem dominant_site_tracked_witness:
  "\<exists>t \<in> set (track [(1, 7, 1), (9, 7, 4), (1, 7, 2)]). site_of t = (7, 4) \<and> 0 < counter t"
  by (rule dominant_site_tracked) (simp_all add: total_weight_def true_weight_def)

text \<open>
  the guarantee of the FREQUENT algorithm (every site above 1/4 of the total, the THETA
  of 25 percent, is among the three counters) does not hold for this variant: here site
  (7, 3) has 11 of 24 bytes and no counter, because its second allocation takes over slots
  whose counter is 0 and holds several of them.
\<close>

theorem frequent_guarantee_fails:
  "let h = [(1, 7, 1), (1, 7, 2), (6, 7, 3), (6, 7, 4), (5, 7, 3), (5, 7, 1)] in
     true_weight (7, 3) h = 11 \<and> total_weight h = 24 \<and>
     slot_sum (7, 3) (track h) = 0"
  by code_simp

text \<open>
  \<open>sortHitTracker\<close> returns a permutation of the array with the counters in descending
  order.
\<close>

theorem sortHitTracker_sorts:
  "mset (sortHitTracker ts) = mset ts \<and>
   sorted_wrt (\<lambda>t u. counter u \<le> counter t) (sortHitTracker ts)"
proof (induction ts rule: sortHitTracker.induct)
  case (1 ts)
  have noswap: "sorted_wrt (\<lambda>t u. counter u \<le> counter t) us \<and> fst (sort_pass us) = us"
    if "\<not> snd (sort_pass us)" for us
    using that
  proof (induction us rule: sort_pass.induct)
    case (1 a b us)
    then show ?case by (force split: if_splits prod.splits)
  qed simp_all
  show ?case
  proof (cases "snd (sort_pass ts)")
    case True
    then show ?thesis
      using 1 [of "sort_pass ts" "fst (sort_pass ts)"] mset_sort_pass [of ts]
      by (subst (1 2) sortHitTracker.simps) (auto split: prod.splits)
  next
    case False
    then show ?thesis
      using noswap [OF False] by (subst (1 2) sortHitTracker.simps) (auto split: prod.splits)
  qed
qed

end
