(* ===== verification/M61.thy ===== *)
theory M61
  imports HitTracker CMemory "HOL-Library.Monad_Syntax"
begin

text \<open>
  The debugging allocator \<open>pset1/m61.c\<close> on a 32-bit platform. Metadata and backpacks live in
  byte memory, in front of and behind the payload, as the C structs lay them out:
  \<open>prv\<close> 0, \<open>next\<close> 4, \<open>sz\<close> 8, \<open>previously_freed\<close> 12 (a double), \<open>file\<close> 20, \<open>line\<close> 24,
  \<open>self\<close> 28, payload 32. The C library's \<open>malloc\<close> and \<open>free\<close>, the address of a local variable
  and that of \<open>total_size\<close> are parameters (the record \<open>libc\<close>). An operation returns \<open>None\<close>
  where the C code divides by zero or follows a null pointer.
\<close>

section \<open>Parameters and state\<close>

record 'h libc =
  malloc :: "u32 \<Rightarrow> 'h \<Rightarrow> mem \<Rightarrow> u32 \<times> 'h \<times> mem"
  free :: "u32 \<Rightarrow> 'h \<Rightarrow> mem \<Rightarrow> 'h \<times> mem"
  stack_addr :: u32        \<comment> \<open>\<open>&a\<close> in \<open>addressIsInHeap\<close>\<close>
  total_size_addr :: u32   \<comment> \<open>\<open>&total_size\<close>\<close>

record m61_statistics =
  active_count :: u64
  active_size :: u64
  total_count :: u64
  total_size :: u64
  fail_count :: u64
  fail_size :: u64

datatype message =
    NotInHeap u32 u32 u32
  | DoubleFree u32 u32 u32
  | PreviouslyFreed u32 u32 u32
  | NotAllocated u32 u32 u32
  | InsideRegion u32 u32 u32 u32 u32
  | WildWrite u32 u32 u32
  | BoundaryWrite u32 u32
  | InvalidFree u32 u32 u32
  | Statistics m61_statistics
  | LeakCheck u32 u32 u32 u32
  | ReportHeader
  | HitterAllocations u32 u32 u64 int
  | HitterBytes u32 u32 u64 int
  | ReportFooter

record 'h m61 =
  heap :: 'h
  memory :: mem
  stats :: m61_statistics
  lastAlloc :: u32
  firstHeap :: u32
  szTracker :: u32
  freqTracker :: u32
  printed :: "message list"

definition print :: "message \<Rightarrow> 'h m61 \<Rightarrow> 'h m61" where
  "print msg s = s\<lparr>printed := printed s @ [msg]\<rparr>"

definition set_mem :: "mem \<Rightarrow> 'h m61 \<Rightarrow> 'h m61" where
  "set_mem m s = s\<lparr>memory := m\<rparr>"

section \<open>The structs in memory\<close>

definition sizeof_metadata :: u32 where "sizeof_metadata = 32"
definition sizeof_backpack :: u32 where "sizeof_backpack = 4"
definition sizeof_hitTracker :: u32 where "sizeof_hitTracker = 16"

definition md_prv :: "mem \<Rightarrow> u32 \<Rightarrow> u32" where "md_prv m p = load32 m p"
definition md_next :: "mem \<Rightarrow> u32 \<Rightarrow> u32" where "md_next m p = load32 m (p + 4)"
definition md_sz :: "mem \<Rightarrow> u32 \<Rightarrow> u32" where "md_sz m p = load32 m (p + 8)"
definition md_file :: "mem \<Rightarrow> u32 \<Rightarrow> u32" where "md_file m p = load32 m (p + 20)"
definition md_line :: "mem \<Rightarrow> u32 \<Rightarrow> u32" where "md_line m p = load32 m (p + 24)"
definition md_self :: "mem \<Rightarrow> u32 \<Rightarrow> u32" where "md_self m p = load32 m (p + 28)"

text \<open>The double \<open>previously_freed\<close> is false exactly for the two zeros.\<close>

definition md_freed :: "mem \<Rightarrow> u32 \<Rightarrow> bool" where
  "md_freed m p \<longleftrightarrow> \<not> (load32 m (p + 12) = 0 \<and> load32 m (p + 16) AND 0x7FFFFFFF = 0)"

definition set_freed :: "mem \<Rightarrow> u32 \<Rightarrow> bool \<Rightarrow> mem" where
  "set_freed m p b = store32 (store32 m (p + 12) 0) (p + 16) (if b then 0x3FF00000 else 0)"

definition load64 :: "mem \<Rightarrow> u32 \<Rightarrow> u64" where
  "load64 m a = ucast (load32 m a) OR push_bit 32 (ucast (load32 m (a + 4)))"

definition store64 :: "mem \<Rightarrow> u32 \<Rightarrow> u64 \<Rightarrow> mem" where
  "store64 m a v = store32 (store32 m a (ucast v)) (a + 4) (ucast (drop_bit 32 v))"

definition load_tracker :: "mem \<Rightarrow> u32 \<Rightarrow> hitTracker" where
  "load_tracker m p = \<lparr>counter = load64 m p, hfile = load32 m (p + 8), hline = load32 m (p + 12)\<rparr>"

definition store_tracker :: "mem \<Rightarrow> u32 \<Rightarrow> hitTracker \<Rightarrow> mem" where
  "store_tracker m p t =
     store32 (store32 (store64 m p (counter t)) (p + 8) (hfile t)) (p + 12) (hline t)"

primrec load_trackers :: "mem \<Rightarrow> u32 \<Rightarrow> nat \<Rightarrow> hitTracker list" where
  "load_trackers m p 0 = []"
| "load_trackers m p (Suc n) = load_tracker m p # load_trackers m (p + sizeof_hitTracker) n"

primrec store_trackers :: "mem \<Rightarrow> u32 \<Rightarrow> hitTracker list \<Rightarrow> mem" where
  "store_trackers m p [] = m"
| "store_trackers m p (t # ts) = store_trackers (store_tracker m p t) (p + sizeof_hitTracker) ts"

section \<open>Helpers\<close>

definition getMetadata :: "u32 \<Rightarrow> u32" where
  "getMetadata ptr = ptr - sizeof_metadata"

definition getPayload :: "u32 \<Rightarrow> u32" where
  "getPayload ptr = ptr + sizeof_metadata"

definition maximumSizeValid :: u32 where
  "maximumSizeValid = - 1 - sizeof_metadata - sizeof_backpack"

definition addressIsInHeap :: "'h libc \<Rightarrow> u32 \<Rightarrow> 'h m61 \<Rightarrow> bool \<times> 'h m61" where
  "addressIsInHeap L ptr s =
     (let s = (if firstHeap s = 0 then s\<lparr>firstHeap := total_size_addr L\<rparr> else s)
      in (if stack_addr L < ptr then False else if firstHeap s > ptr then False else True, s))"

definition allocationFailedWithSize :: "u32 \<Rightarrow> 'h m61 \<Rightarrow> 'h m61" where
  "allocationFailedWithSize sz s =
     s\<lparr>stats := (stats s)\<lparr>fail_count := fail_count (stats s) + 1,
                        fail_size := fail_size (stats s) + ucast sz\<rparr>\<rparr>"

text \<open>The scan for the region that contains a pointer walks down byte by byte.\<close>

partial_function (option) scanMemoryForAllocation ::
    "'h libc \<Rightarrow> u32 \<Rightarrow> 'h m61 \<Rightarrow> (u32 \<times> 'h m61) option" where
  "scanMemoryForAllocation L ptr s =
     (let (inside, s) = addressIsInHeap L ptr s in
      if \<not> inside then Some (0, s)
      else if md_self (memory s) ptr = ptr then Some (ptr, s)
      else scanMemoryForAllocation L (ptr - 1) s)"

section \<open>Heavy hitters\<close>

definition tracker_bytes :: u32 where
  "tracker_bytes = word_of_nat NUMBERCOUNTERS * sizeof_hitTracker"

definition update_tracker :: "u32 \<Rightarrow> u32 \<Rightarrow> u32 \<Rightarrow> u32 \<Rightarrow> mem \<Rightarrow> mem" where
  "update_tracker p occurrence file line m =
     store_trackers m p (updateCounters (load_trackers m p NUMBERCOUNTERS) occurrence file line)"

definition trackAllocByHH :: "'h libc \<Rightarrow> u32 \<Rightarrow> u32 \<Rightarrow> u32 \<Rightarrow> 'h m61 \<Rightarrow> 'h m61 option" where
  "trackAllocByHH L sz file line s = do {
     s \<leftarrow>
       (if szTracker s = 0 then
          (let (p, h1, m1) = malloc L tracker_bytes (heap s) (memory s);
               (q, h2, m2) = malloc L tracker_bytes h1 m1
           in if p = 0 then None
              else Some (s\<lparr>heap := h2,
                           memory := memset (memset m2 p 0 tracker_bytes) p 0 tracker_bytes,
                           szTracker := p, freqTracker := q\<rparr>))
        else Some s);
     (if freqTracker s = 0 then None
      else Some (set_mem (update_tracker (freqTracker s) 1 file line
                           (update_tracker (szTracker s) sz file line (memory s))) s))
   }"

text \<open>
  The report. The comparison \<open>counter < 0.05 * total\<close> is made in doubles; it is the
  parameter \<open>below\<close>.
\<close>

definition hitter_lines ::
    "(u64 \<Rightarrow> u64 \<Rightarrow> bool) \<Rightarrow> (u32 \<Rightarrow> u32 \<Rightarrow> u64 \<Rightarrow> int \<Rightarrow> message) \<Rightarrow> u64
     \<Rightarrow> hitTracker list \<Rightarrow> message list option" where
  "hitter_lines below mk tot ts =
     (let sum = sum_list (map counter ts) in
      foldr (\<lambda>t rest. do {
          r \<leftarrow> rest;
          (if below (counter t) tot then Some r
           else if tot = 0 then None
           else (let count = counter t + (tot - sum) div (word_of_nat NUMBERCOUNTERS + 1)
                 in Some (mk (hfile t) (hline t) count
                            (sint (ucast (count * 100 div tot) :: u32)) # r)))
        }) ts (Some []))"

definition printHeavyHitterReport :: "(u64 \<Rightarrow> u64 \<Rightarrow> bool) \<Rightarrow> 'h m61 \<Rightarrow> 'h m61 option" where
  "printHeavyHitterReport below s =
     (if szTracker s = 0 \<or> freqTracker s = 0 then None
      else (let sz = sortHitTracker (load_trackers (memory s) (szTracker s) NUMBERCOUNTERS);
                m1 = store_trackers (memory s) (szTracker s) sz;
                fr = sortHitTracker (load_trackers m1 (freqTracker s) NUMBERCOUNTERS);
                m2 = store_trackers m1 (freqTracker s) fr
            in do {
              fl \<leftarrow> hitter_lines below HitterAllocations (total_count (stats s)) fr;
              zl \<leftarrow> hitter_lines below HitterBytes (total_size (stats s)) sz;
              Some (s\<lparr>memory := m2,
                      printed := printed s @ ReportHeader # fl @ zl @ [ReportFooter]\<rparr>)
            }))"

section \<open>The allocator interface\<close>

definition link_new :: "u32 \<Rightarrow> 'h m61 \<Rightarrow> 'h m61" where
  "link_new p s =
     (let m = memory s;
          m = (if lastAlloc s \<noteq> 0
               then store32 (store32 m (lastAlloc s + 4) p) p (lastAlloc s)
               else m)
      in s\<lparr>memory := m, lastAlloc := p\<rparr>)"

definition count_alloc :: "u32 \<Rightarrow> m61_statistics \<Rightarrow> m61_statistics" where
  "count_alloc sz st =
     st\<lparr>total_count := total_count st + 1, active_count := active_count st + 1,
        total_size := total_size st + ucast sz, active_size := active_size st + ucast sz\<rparr>"

definition write_metadata :: "u32 \<Rightarrow> u32 \<Rightarrow> u32 \<Rightarrow> u32 \<Rightarrow> mem \<Rightarrow> mem" where
  "write_metadata p sz file line m =
     (let m = store32 m (p + 8) sz;
          m = store32 m (p + 28) p;
          m = set_freed m p False;
          m = store32 m (p + 20) file;
          m = store32 m (p + 24) line;
          b = p + sz + sizeof_metadata
      in store32 m b b)"

definition m61_malloc ::
    "'h libc \<Rightarrow> u32 \<Rightarrow> u32 \<Rightarrow> u32 \<Rightarrow> 'h m61 \<Rightarrow> (u32 \<times> 'h m61) option" where
  "m61_malloc L sz file line s =
     (if sz > maximumSizeValid then Some (0, allocationFailedWithSize sz s)
      else (let (p, h, m) = malloc L (sizeof_metadata + sz + sizeof_backpack) (heap s) (memory s);
                s = s\<lparr>heap := h, memory := m\<rparr>
            in if p = 0 then Some (0, allocationFailedWithSize sz s)
               else do {
                 s \<leftarrow> trackAllocByHH L sz file line s;
                 let s = set_mem (memset (memory s) p 0
                                   (sz + sizeof_metadata + sizeof_backpack)) s;
                 let s = (if firstHeap s > p \<or> firstHeap s = 0 then s\<lparr>firstHeap := p\<rparr> else s);
                 let s = link_new p s;
                 let s = s\<lparr>stats := count_alloc sz (stats s)\<rparr>;
                 let s = set_mem (write_metadata p sz file line (memory s)) s;
                 Some (getPayload p, s)
               }))"

text \<open>Unlinking a node; \<open>None\<close> is the early return on a corrupted list.\<close>

definition unlink :: "u32 \<Rightarrow> 'h m61 \<Rightarrow> 'h m61 \<times> bool" where
  "unlink p s =
     (let prv = md_prv (memory s) p; nxt = md_next (memory s) p;
          s = (if nxt = 0 then s\<lparr>lastAlloc := prv\<rparr> else s)
      in if prv \<noteq> 0
         then (if md_next (memory s) prv \<noteq> p then (s, False)
               else (let s = set_mem (store32 (memory s) (prv + 4) nxt) s
                     in (if nxt \<noteq> 0 then set_mem (store32 (memory s) nxt prv) s
                         else s\<lparr>lastAlloc := prv\<rparr>, True)))
         else (if nxt \<noteq> 0 then set_mem (store32 (memory s) nxt prv) s
               else s\<lparr>lastAlloc := 0\<rparr>, True))"

definition count_free :: "u32 \<Rightarrow> m61_statistics \<Rightarrow> m61_statistics" where
  "count_free sz st =
     st\<lparr>active_count := active_count st - 1, active_size := active_size st - ucast sz\<rparr>"

definition invalidate :: "u32 \<Rightarrow> u32 \<Rightarrow> u32 \<Rightarrow> u32 \<Rightarrow> mem \<Rightarrow> mem" where
  "invalidate p b file line m =
     (let m = store32 m (p + 28) 0;
          m = store32 m b 0;
          m = store32 m (p + 20) file;
          m = store32 m (p + 24) line
      in set_freed m p True)"

definition free_node :: "'h libc \<Rightarrow> u32 \<Rightarrow> u32 \<Rightarrow> u32 \<Rightarrow> u32 \<Rightarrow> 'h m61 \<Rightarrow> 'h m61" where
  "free_node L p b file line s =
     (let s = s\<lparr>stats := count_free (md_sz (memory s) p) (stats s)\<rparr>;
          s = set_mem (invalidate p b file line (memory s)) s;
          (s, ok) = unlink p s
      in if \<not> ok then print (InvalidFree file line (getPayload p)) s
         else (let (h, m) = free L p (heap s) (memory s) in s\<lparr>heap := h, memory := m\<rparr>))"

definition report_unallocated ::
    "'h libc \<Rightarrow> u32 \<Rightarrow> u32 \<Rightarrow> u32 \<Rightarrow> 'h m61 \<Rightarrow> 'h m61 option" where
  "report_unallocated L ptr file line s = do {
     let p = getMetadata ptr;
     (front, s) \<leftarrow> scanMemoryForAllocation L p (print (NotAllocated file line ptr) s);
     let offset = p - front;
     let m = memory s;
     Some (if front \<noteq> 0 \<and> offset < sizeof_metadata + md_sz m front + sizeof_backpack
           then print (InsideRegion (md_file m front) (md_line m front) ptr offset (md_sz m front)) s
           else s)
   }"

definition m61_free :: "'h libc \<Rightarrow> u32 \<Rightarrow> u32 \<Rightarrow> u32 \<Rightarrow> 'h m61 \<Rightarrow> 'h m61 option" where
  "m61_free L ptr file line s =
     (if ptr = 0 then Some s
      else (let (inside, s) = addressIsInHeap L ptr s in
        if \<not> inside then Some (print (NotInHeap file line ptr) s)
        else (let p = getMetadata ptr; m = memory s in
          if md_freed m p
          then Some (print (PreviouslyFreed (md_file m p) (md_line m p) ptr)
                      (print (DoubleFree file line ptr) s))
          else (let b = ptr + md_sz m p;
                    metadataIsValid = (p = md_self m p);
                    backpackIsValid = (b = load32 m b)
                in if \<not> metadataIsValid \<and> \<not> backpackIsValid
                   then report_unallocated L ptr file line s
                   else (let s = (if \<not> metadataIsValid \<or> \<not> backpackIsValid
                                  then print (BoundaryWrite file line)
                                         (print (WildWrite file line ptr) s)
                                  else s)
                         in Some (free_node L p b file line s))))))"

definition m61_realloc ::
    "'h libc \<Rightarrow> u32 \<Rightarrow> u32 \<Rightarrow> u32 \<Rightarrow> u32 \<Rightarrow> 'h m61 \<Rightarrow> (u32 \<times> 'h m61) option" where
  "m61_realloc L ptr sz file line s = do {
     (new_ptr, s) \<leftarrow> (if sz \<noteq> 0 then m61_malloc L sz file line s else Some (0, s));
     let s = (if ptr \<noteq> 0 \<and> new_ptr \<noteq> 0
              then (let old_sz = md_sz (memory s) (getMetadata ptr)
                    in set_mem (memcpy (memory s) new_ptr ptr
                                  (if old_sz < sz then old_sz else sz)) s)
              else s);
     s \<leftarrow> m61_free L ptr file line s;
     Some (new_ptr, s)
   }"

definition m61_calloc ::
    "'h libc \<Rightarrow> u32 \<Rightarrow> u32 \<Rightarrow> u32 \<Rightarrow> u32 \<Rightarrow> 'h m61 \<Rightarrow> (u32 \<times> 'h m61) option" where
  "m61_calloc L nmemb sz file line s =
     (if nmemb = 0 then None
      else if sz > maximumSizeValid div nmemb then Some (0, allocationFailedWithSize sz s)
      else do {
        (ptr, s) \<leftarrow> m61_malloc L (sz * nmemb) file line s;
        Some (ptr, if ptr \<noteq> 0 then set_mem (memset (memory s) ptr 0 (sz * nmemb)) s else s)
      })"

definition m61_getstatistics :: "'h m61 \<Rightarrow> m61_statistics" where
  "m61_getstatistics s =
     \<lparr>active_count = active_count (stats s), active_size = active_size (stats s),
      total_count = total_count (stats s), total_size = total_size (stats s),
      fail_count = fail_count (stats s), fail_size = fail_size (stats s)\<rparr>"

definition m61_printstatistics :: "'h m61 \<Rightarrow> 'h m61" where
  "m61_printstatistics s = print (Statistics (m61_getstatistics s)) s"

partial_function (option) leakTraverse :: "u32 \<Rightarrow> 'h m61 \<Rightarrow> 'h m61 option" where
  "leakTraverse ptr s =
     (if ptr = 0 then None
      else (let m = memory s;
                s = print (LeakCheck (md_file m ptr) (md_line m ptr) (getPayload ptr)
                             (md_sz m ptr)) s
            in if md_prv m ptr \<noteq> 0 then leakTraverse (md_prv m ptr) s else Some s))"

definition m61_printleakreport :: "'h m61 \<Rightarrow> 'h m61 option" where
  "m61_printleakreport s = (if lastAlloc s \<noteq> 0 then leakTraverse (lastAlloc s) s else Some s)"

definition m61_init :: "'h \<Rightarrow> mem \<Rightarrow> 'h m61" where
  "m61_init h m =
     \<lparr>heap = h, memory = m,
      stats = \<lparr>active_count = 0, active_size = 0, total_count = 0, total_size = 0,
               fail_count = 0, fail_size = 0\<rparr>,
      lastAlloc = 0, firstHeap = 0, szTracker = 0, freqTracker = 0, printed = []\<rparr>"

end
