(* ===== verification/MemRegions.thy ===== *)
theory MemRegions
  imports CMemory
begin

text \<open>
  Regions of byte memory and agreement of memories on a set of addresses: the frame lemmas of
  32-bit loads and stores and of \<open>memset\<close> that the allocator's and the kernel's proofs share.
\<close>

section \<open>Agreement of memories\<close>

definition agree :: "nat set \<Rightarrow> mem \<Rightarrow> mem \<Rightarrow> bool" where
  "agree S m m' \<longleftrightarrow> (\<forall>a. unat a \<in> S \<longrightarrow> m' a = m a)"

definition region :: "u32 \<Rightarrow> nat \<Rightarrow> nat set" where
  "region p n = {unat p ..< unat p + n}"

lemma agree_refl [simp]: "agree S m m"
  by (simp add: agree_def)

lemma agree_trans: "agree S m m' \<Longrightarrow> agree S m' m'' \<Longrightarrow> agree S m m''"
  by (simp add: agree_def)

lemma agree_subset: "agree S m m' \<Longrightarrow> T \<subseteq> S \<Longrightarrow> agree T m m'"
  by (auto simp: agree_def)

lemma agree_Un: "agree (S \<union> T) m m' \<longleftrightarrow> agree S m m' \<and> agree T m m'"
  by (auto simp: agree_def)

lemma unat_add_small:
  "unat (p :: u32) + unat k < 2 ^ 32 \<Longrightarrow> unat (p + k) = unat p + unat k"
  by (simp add: unat_word_ariths)

lemma unat_cell:
  assumes "unat (p :: u32) + 4 \<le> 2 ^ 32"
  shows "unat (p + 1) = unat p + 1" "unat (p + 2) = unat p + 2" "unat (p + 3) = unat p + 3"
  using assms by (simp_all add: unat_add_small)

lemma cell_in_region:
  assumes "unat p + 4 \<le> 2 ^ 32"
  shows "unat p \<in> region p 4" "unat (p + 1) \<in> region p 4"
    "unat (p + 2) \<in> region p 4" "unat (p + 3) \<in> region p 4"
  using unat_cell [OF assms] by (simp_all add: region_def)

lemma load32_agree:
  assumes "agree S m m'" "region p 4 \<subseteq> S" "unat p + 4 \<le> 2 ^ 32"
  shows "load32 m' p = load32 m p"
proof -
  have "unat a \<in> region p 4 \<Longrightarrow> m' a = m a" for a
    using assms(1,2) by (auto simp: agree_def)
  then show ?thesis using cell_in_region [OF assms(3)] by (intro load32_cong) blast+
qed

lemma store32_agree:
  assumes "region p 4 \<inter> S = {}" "unat p + 4 \<le> 2 ^ 32"
  shows "agree S m (store32 m p v)"
proof -
  have "a \<noteq> p \<and> a \<noteq> p + 1 \<and> a \<noteq> p + 2 \<and> a \<noteq> p + 3" if "unat a \<in> S" for a
    using that assms(1) cell_in_region [OF assms(2)] by blast
  then show ?thesis by (simp add: agree_def store32_def)
qed

lemma load32_store32:
  assumes "unat p + 4 \<le> unat q \<or> unat q + 4 \<le> unat p"
    and "unat p + 4 \<le> 2 ^ 32" "unat q + 4 \<le> 2 ^ 32"
  shows "load32 (store32 m p v) q = load32 m q"
proof (rule load32_agree [where S = "region q 4"])
  show "agree (region q 4) m (store32 m p v)"
    using assms by (intro store32_agree) (auto simp: region_def)
qed (use assms in auto)

lemma memset_agree:
  assumes "region p (unat n) \<inter> S = {}" "unat p + unat n \<le> 2 ^ 32"
  shows "agree S m (memset m p c n)"
  unfolding agree_def
proof (intro allI impI)
  fix a :: u32
  assume a: "unat a \<in> S"
  have "\<not> unat (a - p) < unat n"
  proof
    assume lt: "unat (a - p) < unat n"
    then have "unat (p + (a - p)) = unat p + unat (a - p)"
      using assms(2) by (intro unat_add_small) simp
    then have "unat a \<in> region p (unat n)" using lt by (simp add: region_def)
    then show False using a assms(1) by blast
  qed
  then show "memset m p c n a = m a" by (simp add: memset_at)
qed

end
