(* ===== verification/M61List.thy ===== *)
theory M61List
  imports M61 MemRegions
begin

text \<open>
  The doubly linked list of allocations of \<open>pset1/m61.c\<close> as a predicate on byte memory:
  which memory each node owns, when a node is intact, and how the list reacts to the writes
  of the allocator (frame lemmas, relinking at the head and at the end of a segment).
\<close>

section \<open>Nodes\<close>

record alloc =
  addr :: u32    \<comment> \<open>address of the metadata\<close>
  bytes :: u32   \<comment> \<open>size of the payload\<close>
  afile :: u32
  aline :: u32

definition span :: "alloc \<Rightarrow> nat set" where
  "span b = region (addr b) (unat (bytes b) + 36)"

definition fits :: "alloc \<Rightarrow> bool" where
  "fits b \<longleftrightarrow> addr b \<noteq> 0 \<and> unat (addr b) + unat (bytes b) + 36 \<le> 2 ^ 32"

text \<open>The address of the backpack, as an offset from the metadata.\<close>

definition tail_off :: "alloc \<Rightarrow> u32" where
  "tail_off b = 32 + bytes b"

definition node :: "mem \<Rightarrow> alloc \<Rightarrow> u32 \<Rightarrow> u32 \<Rightarrow> bool" where
  "node m b pv nx \<longleftrightarrow>
     md_prv m (addr b) = pv \<and> md_next m (addr b) = nx \<and> md_sz m (addr b) = bytes b
     \<and> \<not> md_freed m (addr b) \<and> md_file m (addr b) = afile b \<and> md_line m (addr b) = aline b
     \<and> md_self m (addr b) = addr b
     \<and> load32 m (addr b + tail_off b) = addr b + tail_off b"

lemma unat_tail_off: "fits b \<Longrightarrow> unat (tail_off b) = 32 + unat (bytes b)"
  unfolding tail_off_def fits_def by (subst unat_add_small) simp_all

text \<open>Every word offset up to the backpack is inside the node.\<close>

definition in_node :: "alloc \<Rightarrow> u32 \<Rightarrow> bool" where
  "in_node b k \<longleftrightarrow> unat k + 4 \<le> unat (bytes b) + 36"

lemma in_node_simps [simp]:
  "in_node b 0" "in_node b 4" "in_node b 8" "in_node b 12" "in_node b 16" "in_node b 20"
  "in_node b 24" "in_node b 28"
  by (simp_all add: in_node_def)

lemma in_node_tail [simp]: "fits b \<Longrightarrow> in_node b (tail_off b)"
  by (simp add: in_node_def unat_tail_off)

lemma field:
  assumes "fits b" "in_node b k"
  shows "unat (addr b + k) = unat (addr b) + unat k"
    "region (addr b + k) 4 \<subseteq> span b" "unat (addr b + k) + 4 \<le> 2 ^ 32"
proof -
  show "unat (addr b + k) = unat (addr b) + unat k"
    using assms by (intro unat_add_small) (simp add: fits_def in_node_def)
  then show "region (addr b + k) 4 \<subseteq> span b" "unat (addr b + k) + 4 \<le> 2 ^ 32"
    using assms by (auto simp: region_def span_def fits_def in_node_def)
qed

lemma load_field_agree:
  "fits b \<Longrightarrow> in_node b k \<Longrightarrow> agree (span b) m m' \<Longrightarrow>
     load32 m' (addr b + k) = load32 m (addr b + k)"
  by (rule load32_agree [OF _ field(2) field(3)])

lemma store_field_agree:
  assumes "fits b" "in_node b k" "span b \<inter> S = {}"
  shows "agree S m (store32 m (addr b + k) v)"
  using assms field(2) [OF assms(1,2)] by (intro store32_agree field) auto

lemma load_store_field:
  assumes "fits b" "in_node b j" "in_node b k" "unat j + 4 \<le> unat k \<or> unat k + 4 \<le> unat j"
  shows "load32 (store32 m (addr b + k) v) (addr b + j) = load32 m (addr b + j)"
  by (rule load32_store32 [OF _ field(3) field(3)]) (use assms in \<open>auto simp: field(1)\<close>)

lemma node_agree:
  assumes "fits b" "agree (span b) m m'"
  shows "node m' b pv nx \<longleftrightarrow> node m b pv nx"
  using load_field_agree [OF assms(1) _ assms(2), of 0] load_field_agree [OF assms(1) _ assms(2)]
    assms(1)
  by (simp add: node_def md_prv_def md_next_def md_sz_def md_freed_def md_file_def
      md_line_def md_self_def)

lemma node_set_prv:
  assumes "fits b" "node m b pv nx"
  shows "node (store32 m (addr b) pv') b pv' nx"
proof -
  have "load32 (store32 m (addr b) pv') (addr b + j) = load32 m (addr b + j)"
    if "in_node b j" "4 \<le> unat j" for j
    using load_store_field [OF assms(1) that(1), of 0] that(2) by simp
  with assms show ?thesis
    by (simp add: node_def md_prv_def md_next_def md_sz_def md_freed_def md_file_def
        md_line_def md_self_def unat_tail_off)
qed

lemma node_set_next:
  assumes "fits b" "node m b pv nx"
  shows "node (store32 m (addr b + 4) nx') b pv nx'"
proof -
  have "load32 (store32 m (addr b + 4) nx') (addr b + j) = load32 m (addr b + j)"
    if "in_node b j" "8 \<le> unat j" for j
    using load_store_field [OF assms(1) that(1), of 4] that(2) by simp
  moreover have "load32 (store32 m (addr b + 4) nx') (addr b) = load32 m (addr b)"
    using load_store_field [OF assms(1), of 0 4] by simp
  ultimately show ?thesis using assms
    by (simp add: node_def md_prv_def md_next_def md_sz_def md_freed_def md_file_def
        md_line_def md_self_def unat_tail_off)
qed

section \<open>Lists\<close>

fun hd_addr :: "alloc list \<Rightarrow> u32 \<Rightarrow> u32" where
  "hd_addr [] e = e"
| "hd_addr (b # bs) e = addr b"

fun last_addr :: "alloc list \<Rightarrow> u32 \<Rightarrow> u32" where
  "last_addr [] n = n"
| "last_addr (b # bs) n = last_addr bs (addr b)"

text \<open>
  \<open>chain m n bs e\<close>: the nodes \<open>bs\<close>, newest first, are linked; the newest one's \<open>next\<close> is \<open>n\<close>
  and the oldest one's \<open>prv\<close> is \<open>e\<close>.
\<close>

fun chain :: "mem \<Rightarrow> u32 \<Rightarrow> alloc list \<Rightarrow> u32 \<Rightarrow> bool" where
  "chain m n [] e = True"
| "chain m n (b # bs) e = (node m b (hd_addr bs e) n \<and> chain m (addr b) bs e)"

definition separate :: "alloc list \<Rightarrow> bool" where
  "separate bs \<longleftrightarrow> (\<forall>b \<in> set bs. fits b) \<and> sorted_wrt (\<lambda>b c. span b \<inter> span c = {}) bs"

lemma separate_simps [simp]:
  "separate []"
  "separate (b # bs) \<longleftrightarrow> fits b \<and> (\<forall>c \<in> set bs. span b \<inter> span c = {}) \<and> separate bs"
  by (auto simp: separate_def)

lemma separate_append:
  "separate (xs @ ys) \<longleftrightarrow>
     separate xs \<and> separate ys \<and> (\<forall>b \<in> set xs. \<forall>c \<in> set ys. span b \<inter> span c = {})"
  by (auto simp: separate_def sorted_wrt_append)

lemma hd_addr_append: "hd_addr (xs @ ys) e = hd_addr xs (hd_addr ys e)"
  by (cases xs) auto

lemma last_addr_snoc [simp]: "last_addr (xs @ [b]) n = addr b"
  by (induction xs arbitrary: n) auto

lemma chain_append:
  "chain m n (xs @ ys) e \<longleftrightarrow> chain m n xs (hd_addr ys e) \<and> chain m (last_addr xs n) ys e"
  by (induction xs arbitrary: n) (auto simp: hd_addr_append)

lemma chain_agree:
  "separate bs \<Longrightarrow> (\<And>b. b \<in> set bs \<Longrightarrow> agree (span b) m m') \<Longrightarrow>
     chain m' n bs e \<longleftrightarrow> chain m n bs e"
proof (induction bs arbitrary: n)
  case (Cons b bs)
  then have "node m' b (hd_addr bs e) n \<longleftrightarrow> node m b (hd_addr bs e) n"
    by (intro node_agree) simp_all
  with Cons show ?case by simp
qed simp

lemma chain_store_other:
  assumes "separate bs" "fits c" "in_node c k" "\<And>b. b \<in> set bs \<Longrightarrow> span c \<inter> span b = {}"
  shows "chain (store32 m (addr c + k) v) n bs e \<longleftrightarrow> chain m n bs e"
  using assms by (intro chain_agree store_field_agree) auto

lemma chain_set_next:
  assumes "separate (b # bs)" "chain m n (b # bs) e"
  shows "chain (store32 m (addr b + 4) n') n' (b # bs) e"
  using assms chain_store_other [of bs b 4] by (simp add: node_set_next [where nx = n])

lemma chain_set_prv:
  assumes "separate (bs @ [b])" "chain m n (bs @ [b]) e"
  shows "chain (store32 m (addr b) e') n (bs @ [b]) e'"
proof -
  have "chain (store32 m (addr b) e') n bs (addr b)"
    using assms chain_store_other [of bs b 0 m e' n "addr b"]
    by (auto simp: separate_append chain_append)
  with assms show ?thesis by (auto simp: separate_append chain_append node_set_prv)
qed

lemma chain_ends:
  "chain m n bs e \<Longrightarrow> b \<in> set bs \<Longrightarrow> \<exists>pv nx. node m b pv nx"
  by (induction bs arbitrary: n) auto

text \<open>Removing a node from the middle: relink the neighbours, whichever exist.\<close>

definition relink :: "alloc list \<Rightarrow> alloc list \<Rightarrow> mem \<Rightarrow> mem" where
  "relink xs ys m =
     (let pv = hd_addr ys 0; nx = last_addr xs 0;
          m = (if ys = [] then m else store32 m (pv + 4) nx)
      in if xs = [] then m else store32 m nx pv)"

lemma chain_relink:
  assumes sep: "separate (xs @ ys)"
    and xs: "chain m 0 xs e" and ys: "chain m n ys 0"
  shows "chain (relink xs ys m) 0 (xs @ ys) 0"
proof -
  let ?nx = "last_addr xs 0" and ?pv = "hd_addr ys 0"
  let ?m = "if ys = [] then m else store32 m (?pv + 4) ?nx"
  have sx: "separate xs" and sy: "separate ys"
    and cross: "\<And>b c. b \<in> set xs \<Longrightarrow> c \<in> set ys \<Longrightarrow> span b \<inter> span c = {}"
    using sep by (auto simp: separate_append)
  have ys': "chain ?m ?nx ys 0"
  proof (cases ys)
    case (Cons c cs)
    show ?thesis using chain_set_next [of c cs m n 0 ?nx] sy ys Cons by simp
  qed simp
  have xs': "chain ?m 0 xs e"
  proof (cases ys)
    case Nil
    with xs show ?thesis by simp
  next
    case (Cons c cs)
    have "chain (store32 m (addr c + 4) ?nx) 0 xs e \<longleftrightarrow> chain m 0 xs e"
      using sx sy Cons cross by (intro chain_store_other) auto
    with Cons xs show ?thesis by simp
  qed
  show ?thesis
  proof (cases xs rule: rev_cases)
    case Nil
    with ys' show ?thesis by (cases "ys = []") (simp_all add: relink_def Let_def)
  next
    case (snoc us b)
    have eq: "relink xs ys m = store32 ?m (addr b) ?pv"
      using snoc by (simp add: relink_def Let_def)
    have "chain (store32 ?m (addr b) ?pv) 0 xs ?pv"
      using chain_set_prv [of us b ?m 0 e ?pv] sx xs' snoc by simp
    moreover have "chain (store32 ?m (addr b + 0) ?pv) ?nx ys 0 \<longleftrightarrow> chain ?m ?nx ys 0"
      using sx sy cross snoc by (intro chain_store_other) (auto simp: separate_append)
    ultimately show ?thesis using ys' by (simp add: chain_append eq)
  qed
qed

end
