(* ===== verification/M61Correct.thy ===== *)
theory M61Correct
  imports M61List
begin

text \<open>
  Correctness of \<open>pset1/m61.c\<close>: what the C library's allocator promises (\<open>libc_ok\<close>), the
  invariant that ties the list in memory, the statistics and the C library's blocks
  together (\<open>m61_inv\<close>), and what every operation does to it.
\<close>

section \<open>What the C library promises\<close>

text \<open>
  \<open>live h\<close> gives the sizes of the blocks the library has handed out. Blocks are disjoint and
  lie below the stack; \<open>malloc\<close> returns null or a fresh block; neither function touches the
  contents of the other blocks. Nothing is said of the contents of new or freed blocks.
\<close>

definition heap_wf :: "u32 \<Rightarrow> (u32 \<rightharpoonup> nat) \<Rightarrow> bool" where
  "heap_wf stack lv \<longleftrightarrow>
     (\<forall>p n. lv p = Some n \<longrightarrow> p \<noteq> 0 \<and> unat p + n \<le> unat stack) \<and>
     (\<forall>p q n k. lv p = Some n \<and> lv q = Some k \<and> p \<noteq> q \<longrightarrow> region p n \<inter> region q k = {})"

definition keeps :: "(u32 \<rightharpoonup> nat) \<Rightarrow> mem \<Rightarrow> mem \<Rightarrow> bool" where
  "keeps lv m m' \<longleftrightarrow> (\<forall>p n. lv p = Some n \<longrightarrow> agree (region p n) m m')"

definition malloc_ok :: "'h libc \<Rightarrow> ('h \<Rightarrow> u32 \<rightharpoonup> nat) \<Rightarrow> ('h \<Rightarrow> bool) \<Rightarrow> bool" where
  "malloc_ok L live valid \<longleftrightarrow>
     (\<forall>n h m p h' m'. valid h \<and> malloc L n h m = (p, h', m') \<longrightarrow>
        valid h' \<and> keeps (live h) m m' \<and>
        (if p = 0 then live h' = live h
         else live h p = None \<and> live h' = (live h)(p \<mapsto> unat n)))"

definition free_ok :: "'h libc \<Rightarrow> ('h \<Rightarrow> u32 \<rightharpoonup> nat) \<Rightarrow> ('h \<Rightarrow> bool) \<Rightarrow> bool" where
  "free_ok L live valid \<longleftrightarrow>
     (\<forall>p n h m h' m'. valid h \<and> live h p = Some n \<and> free L p h m = (h', m') \<longrightarrow>
        valid h' \<and> live h' = (live h)(p := None) \<and> keeps (live h') m m')"

definition libc_ok :: "'h libc \<Rightarrow> ('h \<Rightarrow> u32 \<rightharpoonup> nat) \<Rightarrow> ('h \<Rightarrow> bool) \<Rightarrow> bool" where
  "libc_ok L live valid \<longleftrightarrow>
     (\<forall>h. valid h \<longrightarrow> heap_wf (stack_addr L) (live h)) \<and>
     malloc_ok L live valid \<and> free_ok L live valid"

lemma libc_malloc:
  assumes "libc_ok L live valid" "valid h" "malloc L n h m = (p, h', m')"
  shows "valid h' \<and> keeps (live h) m m' \<and> heap_wf (stack_addr L) (live h') \<and>
    (if p = 0 then live h' = live h else live h p = None \<and> live h' = (live h)(p \<mapsto> unat n))"
  using assms unfolding libc_ok_def malloc_ok_def by meson

lemma libc_free:
  assumes "libc_ok L live valid" "valid h" "live h p = Some n" "free L p h m = (h', m')"
  shows "valid h' \<and> live h' = (live h)(p := None) \<and> keeps (live h') m m'"
  using assms unfolding libc_ok_def free_ok_def by meson

lemma keepsD: "keeps lv m m' \<Longrightarrow> lv p = Some n \<Longrightarrow> agree (region p n) m m'"
  by (simp add: keeps_def)

lemma keeps_trans: "keeps lv m m' \<Longrightarrow> keeps lv m' m'' \<Longrightarrow> keeps lv m m''"
  unfolding keeps_def using agree_trans by blast

lemma keeps_mono: "keeps lv' m m' \<Longrightarrow> lv \<subseteq>\<^sub>m lv' \<Longrightarrow> keeps lv m m'"
  unfolding keeps_def map_le_def by (metis domI)

lemma heap_wf_region:
  assumes "heap_wf st lv" "lv p = Some n"
  shows "p \<noteq> 0 \<and> unat p + n \<le> unat st \<and> unat p + n \<le> 2 ^ 32"
proof -
  have "p \<noteq> 0 \<and> unat p + n \<le> unat st" using assms unfolding heap_wf_def by blast
  moreover from this have "unat p + n < 4294967296" using le_less_trans unat_lt32 by blast
  ultimately show ?thesis by simp
qed

lemma heap_wf_disjoint:
  "heap_wf st lv \<Longrightarrow> lv p = Some n \<Longrightarrow> lv q = Some k \<Longrightarrow> p \<noteq> q \<Longrightarrow>
     region p n \<inter> region q k = {}"
  unfolding heap_wf_def by metis

text \<open>A write inside one block keeps all the others.\<close>

lemma keeps_block:
  assumes "heap_wf st lv" "lv p = Some n"
    and "\<And>S. region p n \<inter> S = {} \<Longrightarrow> agree S m m'"
  shows "keeps (lv(p := None)) m m'"
  unfolding keeps_def
proof (intro allI impI)
  fix q k assume "(lv(p := None)) q = Some k"
  then have "q \<noteq> p" "lv q = Some k" by (auto split: if_splits)
  then show "agree (region q k) m m'"
    using assms(3) heap_wf_disjoint [OF assms(1,2)] by blast
qed

section \<open>Writes inside a node\<close>

definition payload :: "alloc \<Rightarrow> nat set" where
  "payload b = region (addr b + 32) (unat (bytes b))"

lemma payload_span: "fits b \<Longrightarrow> payload b \<subseteq> span b"
  using unat_add_small [of "addr b" 32] by (auto simp: payload_def span_def region_def fits_def)

lemma store_field_payload:
  assumes "fits b" "in_node b k" "unat k + 4 \<le> 32 \<or> k = tail_off b"
  shows "agree (payload b) m (store32 m (addr b + k) v)"
proof (rule store32_agree)
  have 32: "unat (addr b + 32) = unat (addr b) + 32"
    using assms(1) unat_add_small [of "addr b" 32] by (simp add: fits_def)
  show "region (addr b + k) 4 \<inter> payload b = {}"
    using assms field(1) [OF assms(1,2)] 32
    by (auto simp: region_def payload_def unat_tail_off)
qed (rule field(3) [OF assms(1,2)])

lemma write_metadata_agree:
  assumes "fits b" "span b \<inter> S = {}"
  shows "agree S m (write_metadata (addr b) (bytes b) f l m)"
proof -
  have tail: "addr b + bytes b + sizeof_metadata = addr b + tail_off b"
    by (simp add: tail_off_def sizeof_metadata_def)
  have st: "agree S m0 m1 \<Longrightarrow> in_node b k \<Longrightarrow> agree S m0 (store32 m1 (addr b + k) v)" for m0 m1 k v
    using agree_trans store_field_agree [OF assms(1) _ assms(2)] by blast
  show ?thesis
    unfolding write_metadata_def Let_def set_freed_def tail
    using assms(1) by (intro st agree_refl) simp_all
qed

lemma write_metadata_payload:
  assumes "fits b"
  shows "agree (payload b) m (write_metadata (addr b) (bytes b) f l m)"
proof -
  have tail: "addr b + bytes b + sizeof_metadata = addr b + tail_off b"
    by (simp add: tail_off_def sizeof_metadata_def)
  have st: "agree (payload b) m0 m1 \<Longrightarrow> in_node b k \<Longrightarrow> unat k + 4 \<le> 32 \<or> k = tail_off b \<Longrightarrow>
      agree (payload b) m0 (store32 m1 (addr b + k) v)" for m0 m1 k v
    using agree_trans store_field_payload [OF assms] by blast
  show ?thesis
    unfolding write_metadata_def Let_def set_freed_def tail
    using assms by (intro st agree_refl) simp_all
qed

lemma write_metadata_node:
  assumes "fits b" "md_prv m (addr b) = pv" "md_next m (addr b) = nx"
  shows "node (write_metadata (addr b) (bytes b) (afile b) (aline b) m) b pv nx"
proof -
  have tail: "addr b + bytes b + sizeof_metadata = addr b + tail_off b"
    by (simp add: tail_off_def sizeof_metadata_def)
  have far: "load32 (store32 m' (addr b + k) v) (addr b + j) = load32 m' (addr b + j)"
    if "in_node b j" "in_node b k" "unat j + 4 \<le> unat k \<or> unat k + 4 \<le> unat j" for m' j k v
    using load_store_field [OF assms(1) that] .
  have far0: "load32 (store32 m' (addr b + k) v) (addr b) = load32 m' (addr b)"
    if "in_node b k" "4 \<le> unat k" for m' k v
    using far [of 0 k m' v] that by simp
  show ?thesis
    using assms
    unfolding write_metadata_def Let_def set_freed_def tail
    by (simp add: node_def md_prv_def md_next_def md_sz_def md_freed_def md_file_def
        md_line_def md_self_def far far0 unat_tail_off)
qed

section \<open>Writes to the trackers\<close>

lemma store_tracker_agree:
  assumes "region p 16 \<inter> S = {}" "unat p + 16 \<le> 2 ^ 32"
  shows "agree S m (store_tracker m p t)"
proof -
  have st: "agree S m0 m1 \<Longrightarrow> unat k + 4 \<le> 16 \<Longrightarrow> agree S m0 (store32 m1 (p + k) v)" for m0 m1 k v
  proof -
    assume k: "unat k + 4 \<le> 16" and m: "agree S m0 m1"
    have pk: "unat (p + k) = unat p + unat k" using k assms(2) by (intro unat_add_small) simp
    have "agree S m1 (store32 m1 (p + k) v)"
    proof (rule store32_agree)
      have "region (p + k) 4 \<subseteq> region p 16" using k pk by (auto simp: region_def)
      then show "region (p + k) 4 \<inter> S = {}" using assms(1) by blast
      show "unat (p + k) + 4 \<le> 2 ^ 32" unfolding pk using k assms(2) by linarith
    qed
    then show "agree S m0 (store32 m1 (p + k) v)" by (rule agree_trans [OF m])
  qed
  have "store_tracker m p t =
      store32 (store32 (store32 (store32 m (p + 0) (ucast (counter t))) (p + 4)
        (ucast (drop_bit 32 (counter t)))) (p + 8) (hfile t)) (p + 12) (hline t)"
    by (simp add: store_tracker_def store64_def)
  then show ?thesis by (simp only:) (intro st agree_refl; simp)
qed

lemma store_trackers_agree:
  "region p (16 * length ts) \<inter> S = {} \<Longrightarrow> unat p + 16 * length ts < 2 ^ 32 \<Longrightarrow>
     agree S m (store_trackers m p ts)"
proof (induction ts arbitrary: p m)
  case (Cons t ts)
  have p16: "unat (p + 16) = unat p + 16" using Cons.prems(2) by (subst unat_add_small) simp_all
  have "agree S m (store_tracker m p t)"
  proof (rule store_tracker_agree)
    show "region p 16 \<inter> S = {}"
      using Cons.prems(1) by (auto simp: region_def disjoint_iff)
  qed (use Cons.prems(2) in simp)
  moreover have "agree S (store_tracker m p t) (store_trackers (store_tracker m p t) (p + 16) ts)"
  proof (rule Cons.IH)
    show "region (p + 16) (16 * length ts) \<inter> S = {}"
      using Cons.prems(1) p16 by (auto simp: region_def disjoint_iff)
  qed (use Cons.prems(2) p16 in simp)
  ultimately show ?case by (auto simp: sizeof_hitTracker_def intro: agree_trans)
qed simp

lemma length_load_trackers [simp]: "length (load_trackers m p n) = n"
  by (induction n arbitrary: p) auto

lemma update_tracker_agree:
  "region p 48 \<inter> S = {} \<Longrightarrow> unat p + 48 < 2 ^ 32 \<Longrightarrow> agree S m (update_tracker p w f l m)"
  unfolding update_tracker_def
  by (rule store_trackers_agree) (simp_all add: updateCounters_length NUMBERCOUNTERS_def)

text \<open>The trackers are two blocks of the C library, or both still missing.\<close>

definition trackers_ok :: "(u32 \<rightharpoonup> nat) \<Rightarrow> 'h m61 \<Rightarrow> bool" where
  "trackers_ok lv s \<longleftrightarrow>
     (if szTracker s = 0 then freqTracker s = 0
      else lv (szTracker s) = Some 48 \<and> lv (freqTracker s) = Some 48)"

definition tracker_addrs :: "'h m61 \<Rightarrow> u32 set" where
  "tracker_addrs s = {szTracker s, freqTracker s}"

text \<open>
  \<open>others_kept lv s lv' s'\<close>: the blocks that are not trackers are still there, still not
  trackers, and hold what they held.
\<close>

definition others_kept ::
    "(u32 \<rightharpoonup> nat) \<Rightarrow> 'h m61 \<Rightarrow> (u32 \<rightharpoonup> nat) \<Rightarrow> 'h m61 \<Rightarrow> bool" where
  "others_kept lv s lv' s' \<longleftrightarrow>
     (\<forall>p n. lv p = Some n \<longrightarrow> p \<notin> tracker_addrs s \<longrightarrow>
        lv' p = Some n \<and> p \<notin> tracker_addrs s' \<and> agree (region p n) (memory s) (memory s'))"

lemma others_kept_trans:
  "others_kept lv s lv' s' \<Longrightarrow> others_kept lv' s' lv'' s'' \<Longrightarrow> others_kept lv s lv'' s''"
  unfolding others_kept_def by (meson agree_trans)

lemma tracker_bytes [simp]: "tracker_bytes = 48"
  by (simp add: tracker_bytes_def NUMBERCOUNTERS_def sizeof_hitTracker_def)

lemma update_trackers_kept:
  assumes wf: "heap_wf st lv" and ok: "trackers_ok lv s" "szTracker s \<noteq> 0"
  shows "others_kept lv s lv (set_mem (update_tracker (freqTracker s) w' f l
           (update_tracker (szTracker s) w f l (memory s))) s)"
  unfolding others_kept_def
proof (intro allI impI conjI)
  fix p n assume p: "lv p = Some n" "p \<notin> tracker_addrs s"
  have q: "region q 48 \<inter> region p n = {} \<and> unat q + 48 < 2 ^ 32" if "q \<in> tracker_addrs s" for q
  proof -
    have lvq: "lv q = Some 48" using that ok by (auto simp: trackers_ok_def tracker_addrs_def)
    have "q \<noteq> p" using that p(2) by blast
    then have "region q 48 \<inter> region p n = {}" by (rule heap_wf_disjoint [OF wf lvq p(1)])
    moreover have "unat q + 48 \<le> unat st" using heap_wf_region [OF wf lvq] by blast
    then have "unat q + 48 < 2 ^ LENGTH(32)" using unat_lt2p by (rule le_less_trans)
    ultimately show ?thesis by simp
  qed
  show "agree (region p n) (memory s) (memory (set_mem (update_tracker (freqTracker s) w' f l
           (update_tracker (szTracker s) w f l (memory s))) s))"
    using q [of "szTracker s"] q [of "freqTracker s"]
    by (auto simp: set_mem_def tracker_addrs_def
        intro!: agree_trans [OF update_tracker_agree update_tracker_agree])
  show "p \<notin> tracker_addrs (set_mem (update_tracker (freqTracker s) w' f l
           (update_tracker (szTracker s) w f l (memory s))) s)"
    using p(2) by (simp add: tracker_addrs_def set_mem_def)
qed

text \<open>Creating the trackers.\<close>

definition create_trackers :: "'h libc \<Rightarrow> 'h m61 \<Rightarrow> 'h m61 option" where
  "create_trackers L s =
     (if szTracker s = 0 then
        (let (p, h1, m1) = malloc L tracker_bytes (heap s) (memory s);
             (q, h2, m2) = malloc L tracker_bytes h1 m1
         in if p = 0 then None
            else Some (s\<lparr>heap := h2,
                         memory := memset (memset m2 p 0 tracker_bytes) p 0 tracker_bytes,
                         szTracker := p, freqTracker := q\<rparr>))
      else Some s)"

lemma trackAllocByHH_split:
  "trackAllocByHH L sz f l s = do {
     s \<leftarrow> create_trackers L s;
     (if freqTracker s = 0 then None
      else Some (set_mem (update_tracker (freqTracker s) 1 f l
                           (update_tracker (szTracker s) sz f l (memory s))) s)) }"
  by (simp add: trackAllocByHH_def create_trackers_def)

definition same_list :: "'h m61 \<Rightarrow> 'h m61 \<Rightarrow> bool" where
  "same_list s s' \<longleftrightarrow> stats s' = stats s \<and> lastAlloc s' = lastAlloc s \<and>
     firstHeap s' = firstHeap s \<and> printed s' = printed s"

lemma create_trackers_ok:
  assumes L: "libc_ok L live valid" "valid (heap s)" and ok: "trackers_ok (live (heap s)) s"
    and run: "create_trackers L s = Some s'" and q: "freqTracker s' \<noteq> 0"
  shows "valid (heap s') \<and> trackers_ok (live (heap s')) s' \<and> szTracker s' \<noteq> 0 \<and>
    others_kept (live (heap s)) s (live (heap s')) s' \<and> same_list s s'"
proof (cases "szTracker s = 0")
  case False
  then show ?thesis
    using assms by (simp add: create_trackers_def others_kept_def same_list_def)
next
  case True
  obtain p h1 m1 where 1: "malloc L 48 (heap s) (memory s) = (p, h1, m1)"
    by (cases "malloc L 48 (heap s) (memory s)")
  obtain r h2 m2 where 2: "malloc L 48 h1 m1 = (r, h2, m2)"
    by (cases "malloc L 48 h1 m1")
  have s': "p \<noteq> 0" "s' = s\<lparr>heap := h2, memory := memset (memset m2 p 0 48) p 0 48,
      szTracker := p, freqTracker := r\<rparr>"
    using run True 1 2 by (auto simp: create_trackers_def Let_def split: if_splits)
  have r: "r \<noteq> 0" using q s' by simp
  have h1: "valid h1" "keeps (live (heap s)) (memory s) m1" "live (heap s) p = None"
      "live h1 = (live (heap s))(p \<mapsto> 48)"
    using libc_malloc [OF L 1] s'(1) by auto
  have h2: "valid h2" "keeps (live h1) m1 m2" "live h1 r = None" "live h2 = (live h1)(r \<mapsto> 48)"
      "heap_wf (stack_addr L) (live h2)"
    using libc_malloc [OF L(1) h1(1) 2] r by auto
  have rp: "r \<noteq> p" using h2(3) h1(4) by auto
  have lp: "live h2 p = Some 48" using h1(4) h2(4) rp by simp
  have wrap: "unat p + 48 \<le> 2 ^ 32" using heap_wf_region [OF h2(5) lp] by blast
  have "others_kept (live (heap s)) s (live h2) s'"
    unfolding others_kept_def
  proof (intro allI impI conjI)
    fix a n assume a: "live (heap s) a = Some n"
    have ne: "a \<noteq> p" "a \<noteq> r"
      using a h1(3,4) h2(3) by (auto simp: fun_upd_def split: if_splits)
    then show la: "live h2 a = Some n" using a h1(4) h2(4) by simp
    show "a \<notin> tracker_addrs s'" using ne s' by (simp add: tracker_addrs_def)
    have "live h1 a = Some n" using a h1(4) ne by simp
    then have "agree (region a n) (memory s) m2"
      using keepsD [OF h1(2) a] keepsD [OF h2(2)] agree_trans by blast
    moreover have "region p 48 \<inter> region a n = {}"
      using heap_wf_disjoint [OF h2(5) lp la] ne by blast
    ultimately show "agree (region a n) (memory s) (memory s')"
      using wrap unfolding s'(2)
      by (auto intro!: agree_trans [OF _ agree_trans [OF memset_agree memset_agree]])
  qed
  then show ?thesis
    using h2 lp s' by (simp add: trackers_ok_def same_list_def)
qed

lemma trackAllocByHH_ok:
  assumes L: "libc_ok L live valid" "valid (heap s)" and ok: "trackers_ok (live (heap s)) s"
    and run: "trackAllocByHH L sz f l s = Some s'"
  shows "valid (heap s') \<and> trackers_ok (live (heap s')) s' \<and>
    others_kept (live (heap s)) s (live (heap s')) s' \<and> same_list s s'"
proof -
  obtain t where t: "create_trackers L s = Some t" "freqTracker t \<noteq> 0"
      "s' = set_mem (update_tracker (freqTracker t) 1 f l
              (update_tracker (szTracker t) sz f l (memory t))) t"
    using run unfolding trackAllocByHH_split
    by (cases "create_trackers L s") (auto split: if_splits)
  have ct: "valid (heap t)" "trackers_ok (live (heap t)) t" "szTracker t \<noteq> 0"
      "others_kept (live (heap s)) s (live (heap t)) t" "same_list s t"
    using create_trackers_ok [OF L ok t(1,2)] by blast+
  have wf: "heap_wf (stack_addr L) (live (heap t))" using L(1) ct(1) by (simp add: libc_ok_def)
  have hs: "heap s' = heap t" using t(3) by (simp add: set_mem_def)
  have "others_kept (live (heap t)) t (live (heap t)) s'"
    unfolding t(3) by (rule update_trackers_kept [OF wf ct(2,3)])
  then have "others_kept (live (heap s)) s (live (heap s')) s'"
    unfolding hs by (rule others_kept_trans [OF ct(4)])
  moreover have "trackers_ok (live (heap s')) s'" "same_list s s'"
    using ct t(3) by (auto simp: trackers_ok_def same_list_def set_mem_def)
  ultimately show ?thesis using ct(1) hs by simp
qed

section \<open>The invariant\<close>

definition m61_inv ::
    "('h \<Rightarrow> u32 \<rightharpoonup> nat) \<Rightarrow> ('h \<Rightarrow> bool) \<Rightarrow> 'h m61 \<Rightarrow> alloc list \<Rightarrow> bool" where
  "m61_inv live valid s bs \<longleftrightarrow>
     valid (heap s) \<and> trackers_ok (live (heap s)) s \<and>
     distinct (map addr bs) \<and>
     (\<forall>b \<in> set bs. live (heap s) (addr b) = Some (unat (bytes b) + 36) \<and>
        addr b \<notin> tracker_addrs s \<and> firstHeap s \<noteq> 0 \<and> firstHeap s \<le> addr b) \<and>
     chain (memory s) 0 bs 0 \<and> lastAlloc s = hd_addr bs 0 \<and>
     active_count (stats s) = word_of_nat (length bs) \<and>
     active_size (stats s) = sum_list (map (\<lambda>b. ucast (bytes b)) bs)"

lemma m61_inv_init: "valid h \<Longrightarrow> m61_inv live valid (m61_init h m) []"
  by (simp add: m61_inv_def m61_init_def trackers_ok_def)

lemma blocks_separate:
  assumes "heap_wf st lv" "distinct (map addr bs)"
    and "\<forall>b \<in> set bs. lv (addr b) = Some (unat (bytes b) + 36)"
  shows "separate bs"
  using assms(2,3)
proof (induction bs)
  case (Cons b bs)
  have b: "lv (addr b) = Some (unat (bytes b) + 36)" using Cons.prems by simp
  have "fits b" using heap_wf_region [OF assms(1) b] by (simp add: fits_def)
  moreover have "span b \<inter> span c = {}" if "c \<in> set bs" for c
    using that Cons.prems heap_wf_disjoint [OF assms(1) b, of "addr c"]
    by (force simp: span_def)
  ultimately show ?case using Cons by simp
qed simp

lemma m61_inv_separate:
  "libc_ok L live valid \<Longrightarrow> m61_inv live valid s bs \<Longrightarrow> separate bs"
  unfolding libc_ok_def m61_inv_def using blocks_separate by metis

lemma inv_others_kept:
  assumes L: "libc_ok L live valid" and inv: "m61_inv live valid s bs"
    and new: "valid (heap s')" "trackers_ok (live (heap s')) s'"
      "others_kept (live (heap s)) s (live (heap s')) s'" "same_list s s'"
  shows "m61_inv live valid s' bs"
proof -
  have kept: "live (heap s') (addr b) = Some (unat (bytes b) + 36) \<and>
      addr b \<notin> tracker_addrs s' \<and> agree (span b) (memory s) (memory s')" if "b \<in> set bs" for b
    using that inv new(3) by (simp add: m61_inv_def others_kept_def span_def)
  have "chain (memory s') 0 bs 0"
    using inv kept by (subst chain_agree [OF m61_inv_separate [OF L inv]]) (auto simp: m61_inv_def)
  then show ?thesis
    using inv kept new(1,2,4) by (auto simp: m61_inv_def same_list_def)
qed

section \<open>malloc\<close>

text \<open>What \<open>m61_malloc\<close> does once the C library has given it a block and the trackers are up to date.\<close>

definition enter_block :: "alloc \<Rightarrow> 'h m61 \<Rightarrow> 'h m61" where
  "enter_block c s =
     (let s = set_mem (memset (memory s) (addr c) 0
                (bytes c + sizeof_metadata + sizeof_backpack)) s;
          s = (if firstHeap s > addr c \<or> firstHeap s = 0 then s\<lparr>firstHeap := addr c\<rparr> else s);
          s = link_new (addr c) s;
          s = s\<lparr>stats := count_alloc (bytes c) (stats s)\<rparr>
      in set_mem (write_metadata (addr c) (bytes c) (afile c) (aline c) (memory s)) s)"

definition linked_mem :: "alloc \<Rightarrow> alloc list \<Rightarrow> mem \<Rightarrow> mem" where
  "linked_mem c bs m =
     (if bs = [] then m else store32 (store32 m (hd_addr bs 0 + 4) (addr c)) (addr c) (hd_addr bs 0))"

lemma linked_mem_chain:
  assumes sep: "separate (c # bs)" and ch: "chain m 0 bs 0"
  shows "chain (linked_mem c bs m) (addr c) bs 0"
proof (cases bs)
  case (Cons b cs)
  have "chain (store32 m (addr b + 4) (addr c)) (addr c) bs 0"
    using chain_set_next [of b cs m 0 0 "addr c"] sep ch Cons by simp
  moreover have "chain (store32 m' (addr c + 0) v) (addr c) bs 0 \<longleftrightarrow> chain m' (addr c) bs 0" for m' v
    using sep by (intro chain_store_other) auto
  ultimately show ?thesis using Cons by (simp add: linked_mem_def)
qed (simp add: linked_mem_def)

lemma linked_mem_new:
  assumes sep: "separate (c # bs)" and z: "md_prv m (addr c) = 0" "md_next m (addr c) = 0"
  shows "md_prv (linked_mem c bs m) (addr c) = hd_addr bs 0"
    and "md_next (linked_mem c bs m) (addr c) = 0"
    and "agree (payload c) m (linked_mem c bs m)"
proof (atomize (full), cases bs)
  case (Cons b cs)
  let ?m = "store32 m (addr b + 4) (addr c)"
  have c: "fits c" and "agree (span c) m ?m"
    using sep Cons by (auto intro!: store_field_agree)
  then have m1: "load32 ?m (addr c + 4) = load32 m (addr c + 4)" "agree (payload c) m ?m"
    using load_field_agree [OF c, of 4] agree_subset [OF _ payload_span [OF c]] by simp_all
  have "agree (payload c) ?m (store32 ?m (addr c + 0) (addr b))"
    using store_field_payload [OF c, of 0] by simp
  then show "md_prv (linked_mem c bs m) (addr c) = hd_addr bs 0 \<and>
      md_next (linked_mem c bs m) (addr c) = 0 \<and> agree (payload c) m (linked_mem c bs m)"
    using z m1 load_store_field [OF c, of 4 0] Cons
    by (auto simp: linked_mem_def md_prv_def md_next_def intro: agree_trans)
qed (use z in \<open>simp add: linked_mem_def\<close>)

lemma linked_mem_payload:
  assumes sep: "separate (c # bs)" and b: "b \<in> set bs"
  shows "agree (payload b) m (linked_mem c bs m)"
proof (cases bs)
  case (Cons d ds)
  have fb: "fits b" "fits c" "fits d" "span c \<inter> span b = {}"
    using sep b Cons by (auto simp: separate_def)
  have "agree (payload b) m (store32 m (addr d + 4) (addr c))"
  proof (cases "b = d")
    case True
    then show ?thesis using fb by (auto intro!: store_field_payload)
  next
    case False
    then have "span d \<inter> span b = {}" using sep b Cons by auto
    then show ?thesis
      using fb payload_span [OF fb(1)] by (intro store_field_agree) auto
  qed
  moreover have "agree (payload b) m' (store32 m' (addr c + 0) v)" for m' v
    using fb payload_span [OF fb(1)] by (intro store_field_agree) auto
  ultimately show ?thesis using Cons by (auto simp: linked_mem_def intro: agree_trans)
qed (use b in simp)

lemma enter_block_mem:
  "lastAlloc s = hd_addr bs 0 \<Longrightarrow> hd_addr bs 0 = 0 \<longleftrightarrow> bs = [] \<Longrightarrow>
     memory (enter_block c s) = write_metadata (addr c) (bytes c) (afile c) (aline c)
       (linked_mem c bs (memset (memory s) (addr c) 0 (bytes c + sizeof_metadata + sizeof_backpack)))"
  by (simp add: enter_block_def Let_def link_new_def linked_mem_def set_mem_def)

lemma enter_block_rest:
  "heap (enter_block c s) = heap s" "szTracker (enter_block c s) = szTracker s"
  "freqTracker (enter_block c s) = freqTracker s" "lastAlloc (enter_block c s) = addr c"
  "stats (enter_block c s) = count_alloc (bytes c) (stats s)"
  "printed (enter_block c s) = printed s"
  "firstHeap (enter_block c s) =
     (if firstHeap s > addr c \<or> firstHeap s = 0 then addr c else firstHeap s)"
  by (simp_all add: enter_block_def Let_def link_new_def set_mem_def)

lemma hd_addr_zero: "separate bs \<Longrightarrow> hd_addr bs 0 = 0 \<longleftrightarrow> bs = []"
  by (cases bs) (auto simp: fits_def)

lemma enter_block_ok:
  assumes L: "libc_ok L live valid" and inv: "m61_inv live valid s bs"
    and c: "live (heap s) (addr c) = Some (unat (bytes c) + 36)" "addr c \<notin> addr ` set bs"
      "addr c \<notin> tracker_addrs s"
  defines "s' \<equiv> enter_block c s"
  shows "m61_inv live valid s' (c # bs)"
    and "\<And>a. unat a \<in> payload c \<Longrightarrow> memory s' a = 0"
    and "\<And>b. b \<in> set bs \<Longrightarrow> agree (payload b) (memory s) (memory s')"
proof -
  have wf: "heap_wf (stack_addr L) (live (heap s))"
    using L inv by (simp add: libc_ok_def m61_inv_def)
  have sep: "separate (c # bs)"
    using inv c by (intro blocks_separate [OF wf]) (auto simp: m61_inv_def)
  then have fc: "fits c" and fit: "unat (addr c) + unat (bytes c) + 36 \<le> 2 ^ 32"
    by (auto simp: fits_def)
  let ?n = "bytes c + sizeof_metadata + sizeof_backpack"
  have n: "unat ?n = unat (bytes c) + 36"
  proof -
    have "unat (bytes c) + 36 < 2 ^ 32" using fit fc unat_gt_0 [of "addr c"] by (simp add: fits_def)
    then have "unat (bytes c + 36) = unat (bytes c) + 36"
      by (subst unat_add_small) simp_all
    then show ?thesis by (simp add: sizeof_metadata_def sizeof_backpack_def add.assoc)
  qed
  let ?m1 = "memset (memory s) (addr c) 0 ?n"
  let ?m2 = "linked_mem c bs ?m1"
  have m': "memory s' = write_metadata (addr c) (bytes c) (afile c) (aline c) ?m2"
    unfolding s'_def using inv hd_addr_zero sep by (intro enter_block_mem) (auto simp: m61_inv_def)
  have set0: "agree (span b) (memory s) ?m1" if "b \<in> set bs" for b
    using sep that n fit by (intro memset_agree) (auto simp: span_def)
  have zero: "?m1 a = 0" if "unat a \<in> span c" for a
  proof -
    have "unat (a - addr c) = unat a - unat (addr c)"
      using that by (intro unat_sub) (simp add: span_def region_def word_le_nat_alt)
    then show ?thesis using that n by (auto simp: memset_at span_def region_def)
  qed
  have load0: "load32 ?m1 (addr c + k) = 0" if "in_node c k" for k
  proof -
    have "load32 ?m1 (addr c + k) = load32 (\<lambda>_. 0) (addr c + k)"
      using load_field_agree [OF fc that, of "\<lambda>_. 0" ?m1] zero by (simp add: agree_def)
    then show ?thesis by (simp add: load32_def)
  qed
  have z: "md_prv ?m1 (addr c) = 0" "md_next ?m1 (addr c) = 0"
    using load0 [of 0] load0 [of 4] by (simp_all add: md_prv_def md_next_def)
  have "chain ?m1 0 bs 0"
    using inv sep set0 by (subst chain_agree) (auto simp: m61_inv_def)
  then have "chain ?m2 (addr c) bs 0" by (rule linked_mem_chain [OF sep])
  then have "chain (memory s') (addr c) bs 0"
    unfolding m' using sep write_metadata_agree [OF fc] by (subst chain_agree) auto
  then have chain': "chain (memory s') 0 (c # bs) 0"
    unfolding m' using linked_mem_new [OF sep z] write_metadata_node [OF fc] by simp
  have first: "firstHeap s' \<noteq> 0 \<and> firstHeap s' \<le> addr b" if "b \<in> set (c # bs)" for b
    using that inv fc unfolding s'_def by (auto simp: enter_block_rest m61_inv_def fits_def)
  have stats': "stats s' = count_alloc (bytes c) (stats s)" "heap s' = heap s"
      "tracker_addrs s' = tracker_addrs s" "trackers_ok lv s' = trackers_ok lv s"
      "lastAlloc s' = addr c" for lv
    unfolding s'_def by (simp_all add: enter_block_rest tracker_addrs_def trackers_ok_def)
  show "m61_inv live valid s' (c # bs)"
    using inv c chain' first stats'
    unfolding m61_inv_def by (auto simp: count_alloc_def)
  show "memory s' a = 0" if "unat a \<in> payload c" for a
  proof -
    have "agree (payload c) ?m1 (memory s')"
      unfolding m' using linked_mem_new(3) [OF sep z] write_metadata_payload [OF fc]
      by (rule agree_trans)
    with that zero payload_span [OF fc] show ?thesis by (auto simp: agree_def)
  qed
  show "agree (payload b) (memory s) (memory s')" if "b \<in> set bs" for b
  proof -
    have fb: "fits b" "span c \<inter> span b = {}" using sep that by (auto simp: separate_def)
    have "agree (payload b) (memory s) ?m2"
      using agree_subset [OF set0 [OF that] payload_span [OF fb(1)]]
        linked_mem_payload [OF sep that] by (rule agree_trans)
    moreover have "agree (payload b) ?m2 (memory s')"
      unfolding m' using fb payload_span [OF fb(1)] by (intro write_metadata_agree fc) blast
    ultimately show ?thesis by (rule agree_trans)
  qed
qed

definition new_alloc :: "u32 \<Rightarrow> u32 \<Rightarrow> u32 \<Rightarrow> u32 \<Rightarrow> alloc" where
  "new_alloc ptr sz f l = \<lparr>addr = getMetadata ptr, bytes = sz, afile = f, aline = l\<rparr>"

lemma m61_malloc_enter:
  "m61_malloc L sz f l s =
     (if sz > maximumSizeValid then Some (0, allocationFailedWithSize sz s)
      else (let (p, h, m) = malloc L (sizeof_metadata + sz + sizeof_backpack) (heap s) (memory s);
                s = s\<lparr>heap := h, memory := m\<rparr>
            in if p = 0 then Some (0, allocationFailedWithSize sz s)
               else do {
                 t \<leftarrow> trackAllocByHH L sz f l s;
                 Some (getPayload p, enter_block \<lparr>addr = p, bytes = sz, afile = f, aline = l\<rparr> t)
               }))"
  by (simp only: m61_malloc_def enter_block_def Let_def alloc.select_convs)

text \<open>The result of a call: either a counted failure, or a block that is entered.\<close>

lemma m61_malloc_cases:
  assumes "m61_malloc L sz f l s = Some (ptr, s')"
  obtains (too_big) "ptr = 0" "s' = allocationFailedWithSize sz s"
  | (no_memory) h m where "malloc L (sz + 36) (heap s) (memory s) = (0, h, m)" "ptr = 0"
      "s' = allocationFailedWithSize sz (s\<lparr>heap := h, memory := m\<rparr>)"
  | (block) p h m t where "unat sz + 36 < 2 ^ 32" "malloc L (sz + 36) (heap s) (memory s) = (p, h, m)"
      "p \<noteq> 0" "trackAllocByHH L sz f l (s\<lparr>heap := h, memory := m\<rparr>) = Some t"
      "ptr = p + 32" "s' = enter_block (new_alloc ptr sz f l) t"
proof (cases "sz > maximumSizeValid")
  case True
  then show thesis using assms too_big by (auto simp: m61_malloc_enter)
next
  case False
  have "unat sz \<le> unat maximumSizeValid" using False by (simp add: word_le_nat_alt not_less)
  also have "unat maximumSizeValid = 4294967259"
    by (simp add: maximumSizeValid_def sizeof_metadata_def sizeof_backpack_def)
  finally have fit: "unat sz + 36 < 2 ^ 32" by simp
  have req: "sizeof_metadata + sz + sizeof_backpack = sz + 36"
    by (simp add: sizeof_metadata_def sizeof_backpack_def)
  obtain p h m where mal: "malloc L (sz + 36) (heap s) (memory s) = (p, h, m)"
    by (cases "malloc L (sz + 36) (heap s) (memory s)")
  show thesis
  proof (cases "p = 0")
    case True
    with assms False mal no_memory show thesis
      by (auto simp: m61_malloc_enter req Let_def)
  next
    case p: False
    obtain t where t: "trackAllocByHH L sz f l (s\<lparr>heap := h, memory := m\<rparr>) = Some t"
      using assms False mal p
      by (cases "trackAllocByHH L sz f l (s\<lparr>heap := h, memory := m\<rparr>)")
        (auto simp: m61_malloc_enter req Let_def)
    have "ptr = getPayload p \<and> s' = enter_block \<lparr>addr = p, bytes = sz, afile = f, aline = l\<rparr> t"
      using assms False mal p t by (simp add: m61_malloc_enter req)
    then have "ptr = p + 32 \<and> s' = enter_block \<lparr>addr = p, bytes = sz, afile = f, aline = l\<rparr> t"
      by (simp add: getPayload_def sizeof_metadata_def)
    then show thesis
      using block [OF fit mal p t]
      by (simp add: new_alloc_def getMetadata_def sizeof_metadata_def)
  qed
qed

definition failed :: "u32 \<Rightarrow> m61_statistics \<Rightarrow> m61_statistics" where
  "failed sz st = st\<lparr>fail_count := fail_count st + 1, fail_size := fail_size st + ucast sz\<rparr>"

lemma m61_inv_failed:
  "m61_inv live valid s bs \<Longrightarrow> m61_inv live valid (allocationFailedWithSize sz s) bs"
  by (simp add: m61_inv_def allocationFailedWithSize_def trackers_ok_def tracker_addrs_def)

text \<open>The state right after the C library returned.\<close>

lemma malloc_others_kept:
  assumes L: "libc_ok L live valid" and inv: "m61_inv live valid s bs"
    and mal: "malloc L n (heap s) (memory s) = (p, h, m)"
  shows "m61_inv live valid (s\<lparr>heap := h, memory := m\<rparr>) bs"
    and "\<forall>b \<in> set bs. agree (span b) (memory s) m"
    and "p \<noteq> 0 \<Longrightarrow> live h p = Some (unat n) \<and> p \<notin> addr ` set bs \<and> p \<notin> tracker_addrs s"
proof -
  have v: "valid (heap s)" "trackers_ok (live (heap s)) s" using inv by (auto simp: m61_inv_def)
  have h: "valid h" "keeps (live (heap s)) (memory s) m"
    and lh: "if p = 0 then live h = live (heap s)
             else live (heap s) p = None \<and> live h = (live (heap s))(p \<mapsto> unat n)"
    using libc_malloc [OF L v(1) mal] by blast+
  have ext: "live h q = Some k" if "live (heap s) q = Some k" for q k
    using that lh by (cases "p = 0") (auto simp: fun_upd_def)
  let ?s = "s\<lparr>heap := h, memory := m\<rparr>"
  have "others_kept (live (heap s)) s (live (heap ?s)) ?s"
    using h(2) ext by (auto simp: others_kept_def tracker_addrs_def keeps_def)
  then show "m61_inv live valid ?s bs"
    using h(1) v(2) ext
    by (intro inv_others_kept [OF L inv]) (auto simp: trackers_ok_def same_list_def)
  show "\<forall>b \<in> set bs. agree (span b) (memory s) m"
    using inv h(2) by (auto simp: m61_inv_def keeps_def span_def)
  show "live h p = Some (unat n) \<and> p \<notin> addr ` set bs \<and> p \<notin> tracker_addrs s" if "p \<noteq> 0"
  proof -
    have new: "live (heap s) p = None" "live h p = Some (unat n)" using lh that by simp_all
    have "p \<notin> tracker_addrs s"
      using new(1) v(2) that by (auto simp: trackers_ok_def tracker_addrs_def split: if_splits)
    then show ?thesis using new inv by (force simp: m61_inv_def)
  qed
qed

text \<open>
  \<open>payloads_kept bs s s'\<close>: no byte of the payloads of \<open>bs\<close> has changed.
\<close>

definition payloads_kept :: "alloc list \<Rightarrow> 'h m61 \<Rightarrow> 'h m61 \<Rightarrow> bool" where
  "payloads_kept bs s s' \<longleftrightarrow> (\<forall>b \<in> set bs. agree (payload b) (memory s) (memory s'))"

lemma agree_spans_payloads:
  assumes "separate bs" "\<forall>b \<in> set bs. agree (span b) (memory s) (memory s')"
  shows "payloads_kept bs s s'"
  unfolding payloads_kept_def
proof
  fix b assume "b \<in> set bs"
  then have "agree (span b) (memory s) (memory s')" "fits b"
    using assms by (simp_all add: separate_def)
  then show "agree (payload b) (memory s) (memory s')" using agree_subset payload_span by blast
qed

lemma payloads_kept_trans:
  "payloads_kept bs s s' \<Longrightarrow> payloads_kept bs s' s'' \<Longrightarrow> payloads_kept bs s s''"
  unfolding payloads_kept_def by (meson agree_trans)

definition malloc_post ::
    "('h \<Rightarrow> u32 \<rightharpoonup> nat) \<Rightarrow> ('h \<Rightarrow> bool) \<Rightarrow> 'h m61 \<Rightarrow> alloc list \<Rightarrow> u32 \<Rightarrow> u32 \<Rightarrow> u32
      \<Rightarrow> u32 \<Rightarrow> 'h m61 \<Rightarrow> bool" where
  "malloc_post live valid s bs sz f l ptr s' \<longleftrightarrow>
     payloads_kept bs s s' \<and> printed s' = printed s \<and>
     (if ptr = 0 then m61_inv live valid s' bs \<and> stats s' = failed sz (stats s)
      else m61_inv live valid s' (new_alloc ptr sz f l # bs) \<and>
           (\<forall>a. unat a \<in> payload (new_alloc ptr sz f l) \<longrightarrow> memory s' a = 0) \<and>
           stats s' = count_alloc sz (stats s))"

lemma m61_malloc_ok:
  assumes L: "libc_ok L live valid" and inv: "m61_inv live valid s bs"
    and run: "m61_malloc L sz f l s = Some (ptr, s')"
  shows "malloc_post live valid s bs sz f l ptr s'"
  using run
proof (cases rule: m61_malloc_cases)
  case too_big
  then show ?thesis
    using m61_inv_failed [OF inv]
    by (simp add: malloc_post_def payloads_kept_def failed_def allocationFailedWithSize_def)
next
  case (no_memory h m)
  note mal = malloc_others_kept [OF L inv no_memory(1)]
  show ?thesis
    using no_memory m61_inv_failed [OF mal(1)] mal(2)
      agree_spans_payloads [OF m61_inv_separate [OF L inv], of s s']
    by (simp add: malloc_post_def failed_def allocationFailedWithSize_def)
next
  case (block p h m t)
  let ?s = "s\<lparr>heap := h, memory := m\<rparr>" and ?c = "new_alloc ptr sz f l"
  note mal = malloc_others_kept [OF L inv block(2)]
  have sz: "unat (sz + 36) = unat sz + 36" using block(1) by (subst unat_add_small) simp_all
  have c: "addr ?c = p" "bytes ?c = sz"
    using block(5) by (simp_all add: new_alloc_def getMetadata_def sizeof_metadata_def)
  have new: "live h p = Some (unat sz + 36)" "p \<notin> addr ` set bs" "p \<notin> tracker_addrs ?s"
    using mal(3) block(3) sz by (simp_all add: tracker_addrs_def)
  have t: "valid (heap t)" "trackers_ok (live (heap t)) t"
      "others_kept (live h) ?s (live (heap t)) t" "same_list ?s t"
    using trackAllocByHH_ok [OF L _ _ block(4)] mal(1) by (auto simp: m61_inv_def)
  have inv_t: "m61_inv live valid t bs"
    using inv_others_kept [OF L mal(1), of t] t by simp
  have ct: "live (heap t) (addr ?c) = Some (unat (bytes ?c) + 36)" "addr ?c \<notin> addr ` set bs"
      "addr ?c \<notin> tracker_addrs t"
    using t(3) new unfolding c others_kept_def by auto
  have st: "agree (span b) (memory s) (memory t)" if "b \<in> set bs" for b
  proof -
    have "agree (span b) m (memory t)"
      using t(3) that mal(1) by (auto simp: others_kept_def m61_inv_def span_def)
    then show ?thesis using mal(2) that agree_trans by blast
  qed
  note enter = enter_block_ok [OF L inv_t ct]
  have "payloads_kept bs t s'" using enter(3) block(6) by (simp add: payloads_kept_def)
  moreover have "payloads_kept bs s t"
    using st agree_spans_payloads [OF m61_inv_separate [OF L inv]] by blast
  moreover have "ptr \<noteq> 0"
  proof -
    have "heap_wf (stack_addr L) (live (heap t))" using L t(1) by (simp add: libc_ok_def)
    then have "unat p + (unat sz + 36) \<le> 2 ^ 32"
      using heap_wf_region ct(1) unfolding c by blast
    then have "unat (p + 32) = unat p + 32" by (intro trans [OF unat_add_small]) simp_all
    then show ?thesis using block(5) by auto
  qed
  ultimately show ?thesis
    using enter(1,2) block(6) t(4) c payloads_kept_trans
    by (auto simp: malloc_post_def enter_block_rest same_list_def)
qed

section \<open>free\<close>

lemma separate_disjoint:
  "separate bs \<Longrightarrow> b \<in> set bs \<Longrightarrow> c \<in> set bs \<Longrightarrow> b \<noteq> c \<Longrightarrow> span b \<inter> span c = {}"
  by (induction bs) auto

lemma separate_fits: "separate bs \<Longrightarrow> b \<in> set bs \<Longrightarrow> fits b"
  by (simp add: separate_def)

text \<open>Writes to the links of listed nodes leave all payloads alone.\<close>

lemma store_link_payload:
  assumes "separate bs" "b \<in> set bs" "c \<in> set bs" "k = 0 \<or> k = 4"
  shows "agree (payload b) m (store32 m (addr c + k) v)"
proof (cases "b = c")
  case True
  then show ?thesis using assms separate_fits by (auto intro!: store_field_payload)
next
  case False
  have "span c \<inter> payload b = {}"
    using separate_disjoint [OF assms(1-3) False] payload_span [OF separate_fits [OF assms(1,2)]]
    by blast
  then show ?thesis
    using assms separate_fits by (intro store_field_agree) auto
qed

lemma last_addr_in: "xs \<noteq> [] \<Longrightarrow> \<exists>c \<in> set xs. last_addr xs n = addr c"
  by (cases xs rule: rev_cases) auto

lemma last_addr_zero: "separate xs \<Longrightarrow> last_addr xs 0 = 0 \<longleftrightarrow> xs = []"
  by (cases xs rule: rev_cases) (auto simp: fits_def separate_append)

lemma relink_payload:
  assumes "separate (xs @ ys)" "b \<in> set (xs @ ys)"
  shows "agree (payload b) m (relink xs ys m)"
proof -
  have 1: "agree (payload b) m (if ys = [] then m else store32 m (hd_addr ys 0 + 4) v)" for v
    using store_link_payload [OF assms, of _ 4] by (cases ys) auto
  have 2: "agree (payload b) m' (if xs = [] then m' else store32 m' (last_addr xs 0) v)" for m' v
  proof (cases "xs = []")
    case False
    then obtain c where c: "c \<in> set xs" "last_addr xs 0 = addr c" using last_addr_in by blast
    then show ?thesis using store_link_payload [OF assms, of c 0 m' v] False by simp
  qed simp
  show ?thesis
    unfolding relink_def Let_def by (rule agree_trans [OF 1 2])
qed

lemma invalidate_fields:
  assumes "fits b"
  shows "span b \<inter> S = {} \<Longrightarrow> agree S m (invalidate (addr b) (addr b + tail_off b) f l m)"
    and "md_prv (invalidate (addr b) (addr b + tail_off b) f l m) (addr b) = md_prv m (addr b)"
    and "md_next (invalidate (addr b) (addr b + tail_off b) f l m) (addr b) = md_next m (addr b)"
proof -
  show "agree S m (invalidate (addr b) (addr b + tail_off b) f l m)" if "span b \<inter> S = {}"
  proof -
    have st: "agree S m0 m1 \<Longrightarrow> in_node b k \<Longrightarrow> agree S m0 (store32 m1 (addr b + k) v)" for m0 m1 k v
      using agree_trans store_field_agree [OF assms _ that] by blast
    show ?thesis
      unfolding invalidate_def Let_def set_freed_def
      using assms by (intro st agree_refl) simp_all
  qed
  have far: "load32 (store32 m' (addr b + k) v) (addr b + j) = load32 m' (addr b + j)"
    if "in_node b k" "8 \<le> unat k" "j = 0 \<or> j = 4" for m' j k v
    using that by (intro load_store_field [OF assms]) auto
  have far0: "load32 (store32 m' (addr b + k) v) (addr b) = load32 m' (addr b)"
    if "in_node b k" "8 \<le> unat k" for m' k v
    using far [of k 0 m' v] that by simp
  show "md_prv (invalidate (addr b) (addr b + tail_off b) f l m) (addr b) = md_prv m (addr b)"
    "md_next (invalidate (addr b) (addr b + tail_off b) f l m) (addr b) = md_next m (addr b)"
    using assms unfolding invalidate_def Let_def set_freed_def
    by (simp_all add: md_prv_def md_next_def far far0 unat_tail_off)
qed

lemma unlink_relink:
  assumes sep: "separate (xs @ ys)" and ys: "chain (memory s) p ys 0"
    and p: "md_prv (memory s) p = hd_addr ys 0" "md_next (memory s) p = last_addr xs 0"
    and last: "lastAlloc s = hd_addr (xs @ [b]) 0"
  shows "unlink p s = (s\<lparr>memory := relink xs ys (memory s), lastAlloc := hd_addr (xs @ ys) 0\<rparr>, True)"
proof -
  have sx: "separate xs" "separate ys" using sep by (auto simp: separate_append)
  have nx: "last_addr xs 0 = 0 \<longleftrightarrow> xs = []" by (rule last_addr_zero [OF sx(1)])
  have pv: "hd_addr ys 0 = 0 \<longleftrightarrow> ys = []" by (rule hd_addr_zero [OF sx(2)])
  have nxt: "md_next (memory s) (hd_addr ys 0) = p" if "ys \<noteq> []"
    using ys that by (cases ys) (auto simp: node_def)
  show ?thesis
  proof (cases "ys = []")
    case True
    then show ?thesis
      using p nx pv last
      by (cases xs) (simp_all add: unlink_def Let_def relink_def set_mem_def)
  next
    case False
    then show ?thesis
      using p nx pv last nxt
      by (cases xs) (simp_all add: unlink_def Let_def relink_def set_mem_def)
  qed
qed

text \<open>
  The invariant without the node that is about to be freed, of which only the size and the
  links are known to be intact (a wild write may have hit its \<open>self\<close> or its backpack).
\<close>

definition m61_inv_at ::
    "('h \<Rightarrow> u32 \<rightharpoonup> nat) \<Rightarrow> ('h \<Rightarrow> bool) \<Rightarrow> 'h m61 \<Rightarrow> alloc list \<Rightarrow> alloc \<Rightarrow> alloc list \<Rightarrow> bool" where
  "m61_inv_at live valid s xs b ys \<longleftrightarrow>
     valid (heap s) \<and> trackers_ok (live (heap s)) s \<and>
     distinct (map addr (xs @ b # ys)) \<and>
     (\<forall>c \<in> set (xs @ b # ys). live (heap s) (addr c) = Some (unat (bytes c) + 36) \<and>
        addr c \<notin> tracker_addrs s \<and> firstHeap s \<noteq> 0 \<and> firstHeap s \<le> addr c) \<and>
     chain (memory s) 0 xs (addr b) \<and> chain (memory s) (addr b) ys 0 \<and>
     md_prv (memory s) (addr b) = hd_addr ys 0 \<and> md_next (memory s) (addr b) = last_addr xs 0 \<and>
     md_sz (memory s) (addr b) = bytes b \<and>
     lastAlloc s = hd_addr (xs @ [b]) 0 \<and>
     active_count (stats s) = word_of_nat (length (xs @ b # ys)) \<and>
     active_size (stats s) = sum_list (map (\<lambda>c. ucast (bytes c)) (xs @ b # ys))"

lemma m61_inv_focus:
  "m61_inv live valid s (xs @ b # ys) \<Longrightarrow> m61_inv_at live valid s xs b ys"
  by (auto simp: m61_inv_def m61_inv_at_def chain_append node_def hd_addr_append)

lemma free_node_ok:
  fixes f l :: u32
  assumes L: "libc_ok L live valid" and inv: "m61_inv_at live valid s xs b ys"
  defines "s' \<equiv> free_node L (addr b) (addr b + tail_off b) f l s"
  shows "m61_inv live valid s' (xs @ ys)" and "payloads_kept (xs @ ys) s s'"
    and "stats s' = count_free (bytes b) (stats s)" and "printed s' = printed s"
    and "live (heap s') = (live (heap s))(addr b := None)"
    and "firstHeap s' = firstHeap s"
    and "memory s' = snd (free L (addr b) (heap s)
           (relink xs ys (invalidate (addr b) (addr b + tail_off b) f l (memory s))))"
proof -
  have wf: "heap_wf (stack_addr L) (live (heap s))" and v: "valid (heap s)"
    using L inv by (simp_all add: libc_ok_def m61_inv_at_def)
  have sepb: "separate (xs @ b # ys)"
    using inv by (intro blocks_separate [OF wf]) (auto simp: m61_inv_at_def)
  then have sep: "separate (xs @ ys)" and fb: "fits b"
    by (auto simp: separate_append)
  have other: "span b \<inter> span c = {}" if "c \<in> set (xs @ ys)" for c
  proof (rule separate_disjoint [OF sepb])
    show "b \<noteq> c" using that inv by (auto simp: m61_inv_at_def)
  qed (use that in auto)
  let ?m1 = "invalidate (addr b) (addr b + tail_off b) f l (memory s)"
  let ?m2 = "relink xs ys ?m1"
  let ?s1 = "s\<lparr>stats := count_free (bytes b) (stats s), memory := ?m1\<rparr>"
  have keep1: "agree (span c) (memory s) ?m1" if "c \<in> set (xs @ ys)" for c
    using other [OF that] by (rule invalidate_fields(1) [OF fb])
  have ch1: "chain ?m1 0 xs (addr b)" "chain ?m1 (addr b) ys 0"
  proof -
    have "separate xs" "separate ys" using sep by (auto simp: separate_append)
    moreover have "chain (memory s) 0 xs (addr b)" "chain (memory s) (addr b) ys 0"
      using inv by (simp_all add: m61_inv_at_def)
    ultimately show "chain ?m1 0 xs (addr b)" "chain ?m1 (addr b) ys 0"
      using chain_agree [of xs "memory s" ?m1] chain_agree [of ys "memory s" ?m1] keep1 by auto
  qed
  have ch2: "chain ?m2 0 (xs @ ys) 0" by (rule chain_relink [OF sep ch1])
  have un: "unlink (addr b) ?s1 =
      (?s1\<lparr>memory := ?m2, lastAlloc := hd_addr (xs @ ys) 0\<rparr>, True)"
    using unlink_relink [OF sep, of ?s1 "addr b" b] ch1 invalidate_fields(2,3) [OF fb] inv
    by (simp add: m61_inv_at_def)
  obtain h m where fr: "free L (addr b) (heap s) ?m2 = (h, m)"
    by (cases "free L (addr b) (heap s) ?m2")
  have s': "s' = ?s1\<lparr>heap := h, memory := m, lastAlloc := hd_addr (xs @ ys) 0\<rparr>"
    unfolding s'_def free_node_def using inv un fr by (simp add: Let_def set_mem_def m61_inv_at_def)
  have lb: "live (heap s) (addr b) = Some (unat (bytes b) + 36)" using inv by (simp add: m61_inv_at_def)
  have h: "valid h" "live h = (live (heap s))(addr b := None)" "keeps (live h) ?m2 m"
    using libc_free [OF L v lb fr] by blast+
  have still: "live h (addr c) = Some (unat (bytes c) + 36)" if "c \<in> set (xs @ ys)" for c
  proof -
    have "addr c \<in> addr ` set (xs @ ys)" using that by (rule imageI)
    moreover have "addr b \<notin> addr ` set (xs @ ys)"
      using inv unfolding m61_inv_at_def by (simp add: image_Un)
    ultimately have "addr c \<noteq> addr b" by metis
    then show ?thesis using that inv h(2) unfolding m61_inv_at_def by simp
  qed
  have keep3: "agree (span c) ?m2 m" if "c \<in> set (xs @ ys)" for c
    using keepsD [OF h(3) still [OF that]] by (simp add: span_def)
  have "chain m 0 (xs @ ys) 0" using ch2 chain_agree [OF sep keep3] by blast
  moreover have "trackers_ok (live h) s'"
    using inv h(2) unfolding s' by (auto simp: trackers_ok_def m61_inv_at_def tracker_addrs_def)
  ultimately show "m61_inv live valid s' (xs @ ys)"
    using inv h(1) still unfolding s'
    by (auto simp: m61_inv_def m61_inv_at_def count_free_def tracker_addrs_def)
  show "payloads_kept (xs @ ys) s s'"
    unfolding payloads_kept_def
  proof
    fix c assume c: "c \<in> set (xs @ ys)"
    have pc: "payload c \<subseteq> span c" using payload_span separate_fits [OF sep c] by blast
    have "agree (payload c) (memory s) ?m2"
      using agree_subset [OF keep1 [OF c] pc] relink_payload [OF sep c] by (rule agree_trans)
    moreover have "agree (payload c) ?m2 m" by (rule agree_subset [OF keep3 [OF c] pc])
    ultimately show "agree (payload c) (memory s) (memory s')"
      unfolding s' by (auto intro: agree_trans)
  qed
  show "stats s' = count_free (bytes b) (stats s)" "printed s' = printed s"
    "live (heap s') = (live (heap s))(addr b := None)" "firstHeap s' = firstHeap s"
    "memory s' = snd (free L (addr b) (heap s) ?m2)"
    unfolding s' using h(2) fr by simp_all
qed

lemma m61_inv_at_facts:
  assumes L: "libc_ok L live valid" and inv: "m61_inv_at live valid s xs b ys"
  shows "separate (xs @ b # ys)" "fits b" "getPayload (addr b) \<noteq> 0"
    "addressIsInHeap L (getPayload (addr b)) s = (True, s)"
    "getMetadata (getPayload (addr b)) = addr b"
    "getPayload (addr b) + bytes b = addr b + tail_off b"
proof -
  have wf: "heap_wf (stack_addr L) (live (heap s))"
    using L inv by (simp add: libc_ok_def m61_inv_at_def)
  show sep: "separate (xs @ b # ys)"
    using inv by (intro blocks_separate [OF wf]) (auto simp: m61_inv_at_def)
  then show fb: "fits b" by (simp add: separate_append)
  have lb: "live (heap s) (addr b) = Some (unat (bytes b) + 36)"
    and first: "firstHeap s \<noteq> 0" "firstHeap s \<le> addr b"
    using inv by (simp_all add: m61_inv_at_def)
  have p32: "unat (addr b + 32) = unat (addr b) + 32"
    using fb by (intro trans [OF unat_add_small]) (simp_all add: fits_def)
  then show "getPayload (addr b) \<noteq> 0"
    by (auto simp: getPayload_def sizeof_metadata_def)
  have "addr b + 32 \<le> stack_addr L"
    using heap_wf_region [OF wf lb] p32 by (simp add: word_le_nat_alt)
  moreover have "firstHeap s \<le> addr b + 32" using first p32 by (simp add: word_le_nat_alt)
  ultimately show "addressIsInHeap L (getPayload (addr b)) s = (True, s)"
    using first(1)
    by (simp add: addressIsInHeap_def getPayload_def sizeof_metadata_def not_less [symmetric])
qed (simp_all add: getMetadata_def getPayload_def tail_off_def sizeof_metadata_def add.assoc)

lemma addressIsInHeap_same:
  assumes "addressIsInHeap L p s = (True, s)" "firstHeap s \<noteq> 0" "firstHeap s' = firstHeap s"
  shows "addressIsInHeap L p s' = (True, s')"
  using assms by (simp add: addressIsInHeap_def Let_def split: if_splits)

lemma free_node_mem:
  assumes L: "libc_ok L live valid" and inv: "m61_inv_at live valid s xs b ys"
    and fr: "free L (addr b) (heap s)
      (relink xs ys (invalidate (addr b) (addr b + tail_off b) f l (memory s))) = (h, m)"
  shows "memory (free_node L (addr b) (addr b + tail_off b) f l s) = m"
    and "addressIsInHeap L (getPayload (addr b)) (free_node L (addr b) (addr b + tail_off b) f l s) =
      (True, free_node L (addr b) (addr b + tail_off b) f l s)"
proof -
  show "memory (free_node L (addr b) (addr b + tail_off b) f l s) = m"
    using free_node_ok(7) [OF L inv, of f l] fr by simp
  have "firstHeap s \<noteq> 0" using inv by (simp add: m61_inv_at_def)
  then show "addressIsInHeap L (getPayload (addr b)) (free_node L (addr b) (addr b + tail_off b) f l s) =
      (True, free_node L (addr b) (addr b + tail_off b) f l s)"
    using addressIsInHeap_same [OF m61_inv_at_facts(4) [OF L inv]] free_node_ok(6) [OF L inv]
    by blast
qed

lemma m61_inv_at_print [simp]:
  "m61_inv_at live valid (print msg s) xs b ys \<longleftrightarrow> m61_inv_at live valid s xs b ys"
  by (simp add: m61_inv_at_def print_def trackers_ok_def tracker_addrs_def)

text \<open>
  \<open>m61_free\<close> of a listed pointer whose header or whose backpack is intact reaches
  \<open>free_node\<close>, after the two reports if only one of them is.
\<close>

lemma m61_free_listed:
  assumes L: "libc_ok L live valid" and inv: "m61_inv_at live valid s xs b ys"
    and live: "\<not> md_freed (memory s) (addr b)"
    and some: "md_self (memory s) (addr b) = addr b \<or>
      load32 (memory s) (addr b + tail_off b) = addr b + tail_off b"
  shows "m61_free L (getPayload (addr b)) f l s =
    Some (free_node L (addr b) (addr b + tail_off b) f l
      (if md_self (memory s) (addr b) = addr b \<and>
          load32 (memory s) (addr b + tail_off b) = addr b + tail_off b then s
       else print (BoundaryWrite f l) (print (WildWrite f l (getPayload (addr b))) s)))"
proof -
  note facts = m61_inv_at_facts [OF L inv]
  have sz: "md_sz (memory s) (addr b) = bytes b" using inv by (simp add: m61_inv_at_def)
  show ?thesis
    using some live unfolding m61_free_def Let_def facts(4)
    by (auto simp: facts(3) facts(5) facts(6) sz eq_commute [of _ "load32 _ _"]
        eq_commute [of _ "md_self _ _"])
qed

section \<open>Writes by the user\<close>

text \<open>Writes that stay inside the payloads do not disturb the allocator.\<close>

lemma node_payload_write:
  assumes fb: "fits b" and other: "agree (span b - payload b) m m'"
  shows "node m' b pv nx \<longleftrightarrow> node m b pv nx"
proof -
  have 32: "unat (addr b + 32) = unat (addr b) + 32"
    using fb by (intro trans [OF unat_add_small]) (simp_all add: fits_def)
  have eq: "load32 m' (addr b + k) = load32 m (addr b + k)"
    if "in_node b k" "unat k + 4 \<le> 32 \<or> k = tail_off b" for k
  proof (rule load32_agree [OF other])
    show "region (addr b + k) 4 \<subseteq> span b - payload b"
      using field(1,2) [OF fb that(1)] that(2) 32
      by (auto simp: region_def payload_def unat_tail_off [OF fb])
  qed (rule field(3) [OF fb that(1)])
  show ?thesis
    using eq [of 0] eq fb
    by (simp add: node_def md_prv_def md_next_def md_sz_def md_freed_def md_file_def
        md_line_def md_self_def)
qed

lemma m61_inv_user_write:
  assumes L: "libc_ok L live valid" and inv: "m61_inv live valid s bs"
    and other: "\<forall>b \<in> set bs. agree (span b - payload b) (memory s) m"
  shows "m61_inv live valid (set_mem m s) bs"
proof -
  have "chain m n cs e \<longleftrightarrow> chain (memory s) n cs e" if "set cs \<subseteq> set bs" for n cs e
    using that
  proof (induction cs arbitrary: n)
    case (Cons c cs)
    have "fits c" using separate_fits m61_inv_separate [OF L inv] Cons.prems by auto
    then have "node m c pv nx \<longleftrightarrow> node (memory s) c pv nx" for pv nx
      using other Cons.prems by (intro node_payload_write) auto
    with Cons show ?case by simp
  qed simp
  then show ?thesis
    using inv by (auto simp: m61_inv_def set_mem_def trackers_ok_def tracker_addrs_def)
qed

lemma payload_write:
  assumes L: "libc_ok L live valid" and inv: "m61_inv live valid s bs" and c: "c \<in> set bs"
    and only: "\<And>S. payload c \<inter> S = {} \<Longrightarrow> agree S (memory s) m"
  shows "m61_inv live valid (set_mem m s) bs"
    and "\<forall>b \<in> set bs. b \<noteq> c \<longrightarrow> agree (payload b) (memory s) m"
proof -
  note sep = m61_inv_separate [OF L inv]
  have dis: "payload c \<inter> span b = {}" if "b \<in> set bs" "b \<noteq> c" for b
    using separate_disjoint [OF sep that(1) c that(2)] payload_span [OF separate_fits [OF sep c]]
    by blast
  have "agree (span b - payload b) (memory s) m" if "b \<in> set bs" for b
    using dis [OF that] by (intro only) (cases "b = c"; blast)
  then show "m61_inv live valid (set_mem m s) bs"
    by (intro m61_inv_user_write [OF L inv]) blast
  show "\<forall>b \<in> set bs. b \<noteq> c \<longrightarrow> agree (payload b) (memory s) m"
    using dis payload_span separate_fits [OF sep] by (intro ballI impI only) blast
qed

end
