(* ===== verification/M61Props.thy ===== *)
theory M61Props
  imports M61Correct
begin

text \<open>
  The properties of \<open>pset1/m61.c\<close>: allocation, release, misuse detection, reports, and the
  invariant over every reachable state of a program that uses the allocator. A bump
  allocator serves as a concrete C library in the examples.
\<close>

section \<open>A concrete C library\<close>

type_synonym bump_heap = "u32 \<times> (u32 \<times> nat) list"

definition bump_malloc :: "u32 \<Rightarrow> bump_heap \<Rightarrow> mem \<Rightarrow> u32 \<times> bump_heap \<times> mem" where
  "bump_malloc n h m =
     (let (nx, l) = h in
      if 0 < unat n \<and> unat nx + unat n < 0x10000
      then (nx, (nx + n, (nx, unat n) # l), m) else (0, h, m))"

definition bump_free :: "u32 \<Rightarrow> bump_heap \<Rightarrow> mem \<Rightarrow> bump_heap \<times> mem" where
  "bump_free p h m = ((fst h, filter (\<lambda>e. fst e \<noteq> p) (snd h)), m)"

definition bump :: "bump_heap libc" where
  "bump = \<lparr>malloc = bump_malloc, free = bump_free, stack_addr = 0xC0000000,
           total_size_addr = 0x800\<rparr>"

definition bump_live :: "bump_heap \<Rightarrow> u32 \<rightharpoonup> nat" where
  "bump_live h = map_of (snd h)"

definition bump_valid :: "bump_heap \<Rightarrow> bool" where
  "bump_valid h \<longleftrightarrow>
     0x1000 \<le> unat (fst h) \<and> unat (fst h) < 0x10000 \<and> distinct (map fst (snd h)) \<and>
     (\<forall>p n. (p, n) \<in> set (snd h) \<longrightarrow> 0x1000 \<le> unat p \<and> 0 < n \<and> unat p + n \<le> unat (fst h)) \<and>
     (\<forall>p n q k. (p, n) \<in> set (snd h) \<and> (q, k) \<in> set (snd h) \<and> p \<noteq> q \<longrightarrow>
        region p n \<inter> region q k = {})"

lemma bump_heap_wf: "bump_valid h \<Longrightarrow> heap_wf 0xC0000000 (bump_live h)"
proof -
  assume v: "bump_valid h"
  have "p \<noteq> 0 \<and> unat p + n \<le> 0xC0000000" if "bump_live h p = Some n" for p n
  proof -
    have "(p, n) \<in> set (snd h)" using that by (auto simp: bump_live_def dest: map_of_SomeD)
    then show ?thesis using v by (fastforce simp: bump_valid_def)
  qed
  moreover have "region p n \<inter> region q k = {}"
    if "bump_live h p = Some n" "bump_live h q = Some k" "p \<noteq> q" for p q n k
  proof -
    have "(p, n) \<in> set (snd h)" "(q, k) \<in> set (snd h)"
      using that by (auto simp: bump_live_def dest: map_of_SomeD)
    then show ?thesis using v that(3) by (fastforce simp: bump_valid_def)
  qed
  ultimately show ?thesis by (simp add: heap_wf_def)
qed

lemma bump_malloc_ok: "malloc_ok bump bump_live bump_valid"
  unfolding malloc_ok_def
proof (intro allI impI, elim conjE)
  fix n h m p h' m'
  assume v: "bump_valid h" and run: "malloc bump n h m = (p, h', m')"
  obtain nx l where h: "h = (nx, l)" by (cases h)
  show "bump_valid h' \<and> keeps (bump_live h) m m' \<and>
    (if p = 0 then bump_live h' = bump_live h
     else bump_live h p = None \<and> bump_live h' = (bump_live h)(p \<mapsto> unat n))"
  proof (cases "0 < unat n \<and> unat nx + unat n < 0x10000")
    case False
    then show ?thesis using run v h by (auto simp: bump_def bump_malloc_def keeps_def)
  next
    case True
    then have r: "p = nx" "h' = (nx + n, (nx, unat n) # l)" "m' = m"
      using run h by (auto simp: bump_def bump_malloc_def)
    have nxn: "unat (nx + n) = unat nx + unat n" using True by (intro unat_add_small) simp
    have below: "unat q + k \<le> unat nx" "0 < k" "0x1000 \<le> unat q" if "(q, k) \<in> set l" for q k
      using v that by (simp_all add: bump_valid_def h)
    have absent: "(nx, k) \<notin> set l" for k using below [of nx k] by auto
    then have fresh: "nx \<notin> fst ` set l" by auto
    then have none: "map_of l nx = None" by (simp add: map_of_eq_None_iff)
    have nz: "nx \<noteq> 0" using v by (auto simp: bump_valid_def h)
    have dis: "region nx (unat n) \<inter> region q k = {}" if "(q, k) \<in> set l" for q k
      using below [OF that] by (auto simp: region_def)
    have "bump_valid h'"
      unfolding bump_valid_def r fst_conv snd_conv
    proof (intro conjI allI impI)
      show "0x1000 \<le> unat (nx + n)" "unat (nx + n) < 0x10000"
        using v nxn True by (simp_all add: bump_valid_def h)
      show "distinct (map fst ((nx, unat n) # l))"
        using v fresh by (simp add: bump_valid_def h)
      show "0x1000 \<le> unat q" "0 < k" "unat q + k \<le> unat (nx + n)"
        if "(q, k) \<in> set ((nx, unat n) # l)" for q k
        using that v nxn True below [of q k] by (auto simp: bump_valid_def h intro: trans_le_add1)
      show "region q k \<inter> region q' k' = {}"
        if "(q, k) \<in> set ((nx, unat n) # l) \<and> (q', k') \<in> set ((nx, unat n) # l) \<and> q \<noteq> q'"
        for q k q' k'
      proof (cases "q = nx \<or> q' = nx")
        case True
        then show ?thesis using that absent dis [of q k] dis [of q' k'] by auto
      next
        case False
        then have "(q, k) \<in> set l" "(q', k') \<in> set l" using that by auto
        then show ?thesis using v that by (simp add: bump_valid_def h)
      qed
    qed
    then show ?thesis using r none nz by (simp add: bump_live_def h keeps_def)
  qed
qed

lemma bump_free_ok: "free_ok bump bump_live bump_valid"
  unfolding free_ok_def
proof (intro allI impI, elim conjE)
  fix p n h m h' m'
  assume v: "bump_valid h" and run: "free bump p h m = (h', m')"
  have r: "h' = (fst h, filter (\<lambda>e. fst e \<noteq> p) (snd h))" "m' = m"
    using run by (auto simp: bump_def bump_free_def)
  have "map_of (filter (\<lambda>e. fst e \<noteq> p) l) = (map_of l)(p := None)" for l :: "(u32 \<times> nat) list"
    by (induction l) auto
  then have "bump_live h' = (bump_live h)(p := None)" by (simp add: bump_live_def r)
  moreover have "bump_valid h'"
    using v unfolding bump_valid_def r fst_conv snd_conv
    by (intro conjI; (elim conjE)?; simp add: distinct_map_filter; blast)
  ultimately show "bump_valid h' \<and> bump_live h' = (bump_live h)(p := None) \<and>
      keeps (bump_live h') m m'"
    by (simp add: r keeps_def)
qed

lemma bump_libc: "libc_ok bump bump_live bump_valid"
  using bump_heap_wf bump_malloc_ok bump_free_ok by (simp add: libc_ok_def bump_def)

definition bump_start :: "bump_heap m61" where
  "bump_start = m61_init (0x1000, []) (\<lambda>a. ucast a)"

lemma bump_start_inv: "m61_inv bump_live bump_valid bump_start []"
  unfolding bump_start_def by (rule m61_inv_init) (simp add: bump_valid_def)

lemma bump_first:
  "\<exists>s'. m61_malloc bump 5 7 1 bump_start = Some (0x1020, s')"
  by (simp add: m61_malloc_enter bump_def bump_malloc_def trackAllocByHH_def bump_start_def
      m61_init_def set_mem_def maximumSizeValid_def sizeof_metadata_def sizeof_backpack_def
      getPayload_def)

lemma bump_one:
  obtains s where "m61_malloc bump 5 7 1 bump_start = Some (0x1020, s)"
    "m61_inv bump_live bump_valid s [new_alloc 0x1020 5 7 1]"
    "md_self (memory s) (getMetadata 0x1020) = 0x1000"
proof -
  obtain s where s: "m61_malloc bump 5 7 1 bump_start = Some (0x1020, s)"
    using bump_first by blast
  have "m61_inv bump_live bump_valid s [new_alloc 0x1020 5 7 1]"
    using m61_malloc_ok [OF bump_libc bump_start_inv s] by (simp add: malloc_post_def)
  moreover from this have "md_self (memory s) (getMetadata 0x1020) = 0x1000"
    by (simp add: m61_inv_def node_def new_alloc_def getMetadata_def sizeof_metadata_def)
  ultimately show ?thesis using s that by blast
qed

section \<open>Allocation and release\<close>

text \<open>
  The one way in which \<open>m61_malloc\<close> does not return: on the first allocation, when the block
  itself is granted, \<open>trackAllocByHH\<close> allocates its two arrays and uses them without a check
  (m61.c:299-304). \<open>no_tracker\<close> says that the C library refuses one of the two.
\<close>

definition no_tracker :: "'h libc \<Rightarrow> u32 \<Rightarrow> 'h m61 \<Rightarrow> bool" where
  "no_tracker L sz s \<longleftrightarrow>
     sz \<le> maximumSizeValid \<and> szTracker s = 0 \<and>
     (let (p, h, m) = malloc L (sizeof_metadata + sz + sizeof_backpack) (heap s) (memory s);
          (q, h, m) = malloc L tracker_bytes h m;
          (r, h, m) = malloc L tracker_bytes h m
      in p \<noteq> 0 \<and> (q = 0 \<or> r = 0))"

lemma m61_malloc_crash:
  assumes L: "libc_ok L live valid" and inv: "m61_inv live valid s bs"
  shows "m61_malloc L sz f l s = None \<longleftrightarrow> no_tracker L sz s"
proof -
  have wf: "heap_wf (stack_addr L) (live (heap s))" and ok: "trackers_ok (live (heap s)) s"
    using L inv by (simp_all add: libc_ok_def m61_inv_def)
  have freq: "freqTracker s \<noteq> 0" if "szTracker s \<noteq> 0"
  proof -
    have "live (heap s) (freqTracker s) = Some 48" using ok that by (simp add: trackers_ok_def)
    then show ?thesis using heap_wf_region [OF wf] by blast
  qed
  show ?thesis
    using freq
    by (auto simp: m61_malloc_enter no_tracker_def trackAllocByHH_def set_mem_def Let_def not_le
        split: prod.splits if_splits)
qed

text \<open>
  C5: an allocation crashes, when it is the first one and the C library refuses the arrays of
  the heavy hitters (\<open>no_tracker\<close>); in every other case it returns. Then it either fails, is
  counted as a failure and changes nothing else that the program can see, or returns a payload
  of the requested size that is zeroed, disjoint from every other allocation and entered at the
  head of the list, with the statistics updated. In both cases the list in memory is intact and
  no payload has changed.
\<close>

theorem m61_malloc_contract:
  assumes L: "libc_ok L live valid" and inv: "m61_inv live valid s bs"
  shows "case m61_malloc L sz f l s of
      None \<Rightarrow> no_tracker L sz s
    | Some (ptr, s') \<Rightarrow> \<not> no_tracker L sz s \<and> payloads_kept bs s s' \<and> printed s' = printed s \<and>
        (if ptr = 0 then m61_inv live valid s' bs \<and> stats s' = failed sz (stats s)
         else m61_inv live valid s' (new_alloc ptr sz f l # bs) \<and>
              (\<forall>a. unat a \<in> payload (new_alloc ptr sz f l) \<longrightarrow> memory s' a = 0) \<and>
              (\<forall>b \<in> set bs. span (new_alloc ptr sz f l) \<inter> span b = {}) \<and>
              stats s' = count_alloc sz (stats s))"
proof (cases "m61_malloc L sz f l s")
  case None
  then show ?thesis using m61_malloc_crash [OF L inv, of sz f l] by simp
next
  case (Some r)
  obtain ptr s' where r: "r = (ptr, s')" by (cases r)
  have "malloc_post live valid s bs sz f l ptr s'"
    using m61_malloc_ok [OF L inv] Some r by simp
  then show ?thesis
    using m61_inv_separate [OF L, of s' "new_alloc ptr sz f l # bs"] Some r
      m61_malloc_crash [OF L inv, of sz f l]
    by (auto simp: malloc_post_def)
qed

theorem m61_malloc_contract_witness:
  "\<exists>s'. m61_malloc bump 5 7 1 bump_start = Some (0x1020, s') \<and>
     m61_inv bump_live bump_valid s' [new_alloc 0x1020 5 7 1] \<and>
     total_count (stats s') = 1 \<and> active_size (stats s') = 5"
proof -
  obtain s' where s': "m61_malloc bump 5 7 1 bump_start = Some (0x1020, s')"
    using bump_first by blast
  have "m61_inv bump_live bump_valid s' [new_alloc 0x1020 5 7 1] \<and>
      stats s' = count_alloc 5 (stats bump_start)"
    using m61_malloc_contract [OF bump_libc bump_start_inv, of 5 7 1] s' by simp
  with s' show ?thesis by (simp add: count_alloc_def bump_start_def m61_init_def)
qed

lemma m61_inv_node:
  assumes "m61_inv live valid s (xs @ b # ys)"
  obtains pv nx where "node (memory s) b pv nx"
  using assms chain_ends [of "memory s" 0 "xs @ b # ys" 0 b] by (auto simp: m61_inv_def)

lemma m61_free_ok:
  assumes L: "libc_ok L live valid" and inv: "m61_inv live valid s (xs @ b # ys)"
  shows "m61_free L (getPayload (addr b)) f l s =
    Some (free_node L (addr b) (addr b + tail_off b) f l s)"
proof -
  obtain pv nx where "node (memory s) b pv nx" using m61_inv_node [OF inv] .
  then show ?thesis
    using m61_free_listed [OF L m61_inv_focus [OF inv]] by (simp add: node_def)
qed

text \<open>
  C6: freeing a live allocation, wherever it stands in the list, removes exactly this one:
  the neighbours are relinked, its bytes leave the active statistics, the block goes back to
  the C library, nothing is reported and no other payload changes.
\<close>

theorem m61_free_contract:
  assumes "libc_ok L live valid" and "m61_inv live valid s (xs @ b # ys)"
  shows "\<exists>s'. m61_free L (getPayload (addr b)) f l s = Some s' \<and>
    m61_inv live valid s' (xs @ ys) \<and> payloads_kept (xs @ ys) s s' \<and>
    stats s' = count_free (bytes b) (stats s) \<and> printed s' = printed s \<and>
    live (heap s') = (live (heap s))(addr b := None)"
  using m61_free_ok [OF assms] free_node_ok [OF assms(1) m61_inv_focus [OF assms(2)]] by auto

theorem m61_free_contract_witness:
  "\<exists>s s'. m61_malloc bump 5 7 1 bump_start = Some (0x1020, s) \<and>
     m61_free bump 0x1020 7 2 s = Some s' \<and> m61_inv bump_live bump_valid s' [] \<and>
     active_count (stats s') = 0"
proof -
  obtain s where s: "m61_malloc bump 5 7 1 bump_start = Some (0x1020, s)"
    "m61_inv bump_live bump_valid s ([] @ [new_alloc 0x1020 5 7 1])"
    using bump_one by auto
  have ptr: "getPayload (addr (new_alloc 0x1020 5 7 1)) = 0x1020"
    by (simp add: new_alloc_def getPayload_def getMetadata_def sizeof_metadata_def)
  show ?thesis
    using m61_free_contract [OF bump_libc s(2), of 7 2] s(1)
    unfolding ptr by (auto simp: m61_inv_def)
qed

section \<open>Misuse\<close>

text \<open>
  C7: a write past the end of a payload that destroys the backpack is detected when the block
  is freed: the two boundary-write messages are printed, and the block is released and
  unlinked as if nothing had happened.
\<close>

theorem m61_free_wild_write:
  assumes L: "libc_ok L live valid" and inv: "m61_inv live valid s (xs @ b # ys)"
    and only: "agree (- region (addr b + tail_off b) 4) (memory s) m"
    and hit: "load32 m (addr b + tail_off b) \<noteq> addr b + tail_off b"
  shows "\<exists>s'. m61_free L (getPayload (addr b)) f l (set_mem m s) = Some s' \<and>
    m61_inv live valid s' (xs @ ys) \<and>
    printed s' = printed s @ [WildWrite f l (getPayload (addr b)), BoundaryWrite f l]"
proof -
  have sep: "separate (xs @ b # ys)" by (rule m61_inv_separate [OF L inv])
  then have fb: "fits b" by (simp add: separate_append)
  have tail: "region (addr b + tail_off b) 4 \<subseteq> span b" using field(2) fb by simp
  have at: "m61_inv_at live valid s xs b ys" by (rule m61_inv_focus [OF inv])
  have node: "node (memory s) b (hd_addr ys 0) (last_addr xs 0)"
    using inv by (simp add: m61_inv_def chain_append)
  have dis: "span b \<inter> span c = {}" if "c \<in> set xs \<union> set ys" for c
    using sep that by (auto simp: separate_append)
  have same: "agree (span c) (memory s) m" if "c \<in> set xs \<union> set ys" for c
    using dis [OF that] tail by (intro agree_subset [OF only]) blast
  have eq: "load32 m (addr b + k) = load32 (memory s) (addr b + k)"
    if "in_node b k" "unat k + 4 \<le> 32" for k
  proof (rule load32_agree [OF only])
    show "region (addr b + k) 4 \<subseteq> - region (addr b + tail_off b) 4"
      using field(1) [OF fb that(1)] field(1) [OF fb, of "tail_off b"] that(2)
      by (auto simp: region_def fb unat_tail_off [OF fb])
  qed (rule field(3) [OF fb that(1)])
  have fields: "md_prv m (addr b) = hd_addr ys 0" "md_next m (addr b) = last_addr xs 0"
      "md_sz m (addr b) = bytes b" "\<not> md_freed m (addr b)" "md_self m (addr b) = addr b"
    using node eq [of 0] eq
    by (simp_all add: node_def md_prv_def md_next_def md_sz_def md_freed_def md_self_def)
  have "chain m 0 xs (addr b)" "chain m (addr b) ys 0"
    using at same sep chain_agree [of xs "memory s" m] chain_agree [of ys "memory s" m]
    by (auto simp: m61_inv_at_def separate_append)
  then have at': "m61_inv_at live valid (set_mem m s) xs b ys"
    using at fields by (simp add: m61_inv_at_def set_mem_def trackers_ok_def tracker_addrs_def)
  let ?s = "print (BoundaryWrite f l) (print (WildWrite f l (getPayload (addr b))) (set_mem m s))"
  have "m61_free L (getPayload (addr b)) f l (set_mem m s) =
      Some (free_node L (addr b) (addr b + tail_off b) f l ?s)"
    using m61_free_listed [OF L at'] fields hit by (simp add: set_mem_def)
  moreover have "m61_inv_at live valid ?s xs b ys" using at' by simp
  from free_node_ok [OF L this]
  have "m61_inv live valid (free_node L (addr b) (addr b + tail_off b) f l ?s) (xs @ ys)"
    "printed (free_node L (addr b) (addr b + tail_off b) f l ?s) =
       printed s @ [WildWrite f l (getPayload (addr b)), BoundaryWrite f l]"
    by (simp_all add: print_def set_mem_def)
  ultimately show ?thesis by blast
qed

text \<open>One byte written behind a payload of five bytes.\<close>

theorem m61_free_wild_write_witness:
  "\<exists>s m s'. m61_malloc bump 5 7 1 bump_start = Some (0x1020, s) \<and>
     m = (memory s)(0x1025 := 0x78) \<and> m61_free bump 0x1020 7 9 (set_mem m s) = Some s' \<and>
     printed s' = [WildWrite 7 9 0x1020, BoundaryWrite 7 9]"
proof -
  let ?b = "new_alloc 0x1020 5 7 1"
  obtain s where s: "m61_malloc bump 5 7 1 bump_start = Some (0x1020, s)"
    "m61_inv bump_live bump_valid s ([] @ [?b])"
    using bump_one by auto
  let ?m = "(memory s)(0x1025 := 0x78)"
  have b: "addr ?b = 0x1000" "addr ?b + tail_off ?b = 0x1025" "getPayload (addr ?b) = 0x1020"
    by (simp_all add: new_alloc_def getPayload_def getMetadata_def sizeof_metadata_def tail_off_def)
  have only: "agree (- region (addr ?b + tail_off ?b) 4) (memory s) ?m"
    unfolding b(2) by (auto simp: agree_def region_def)
  have hit: "load32 ?m (addr ?b + tail_off ?b) \<noteq> addr ?b + tail_off ?b"
    unfolding b(2)
  proof
    assume "load32 ?m 0x1025 = 0x1025"
    then have "bit (load32 ?m 0x1025) 3 = bit (0x1025 :: u32) 3" by simp
    then show False by (simp add: load32_def bit_simps)
  qed
  have "printed s = []"
    using m61_malloc_ok [OF bump_libc bump_start_inv s(1)]
    by (simp add: malloc_post_def bump_start_def m61_init_def)
  then show ?thesis
    using m61_free_wild_write [OF bump_libc s(2) only hit, of 7 9] s(1) unfolding b(2,3) by auto
qed

end
