(* ===== verification/M61Run.thy ===== *)
theory M61Run
  imports M61Props
begin

text \<open>
  The composite operations of \<open>pset1/m61.c\<close> (\<open>m61_calloc\<close>, \<open>m61_realloc\<close>), the leak report,
  the search for the region around a stray pointer, and the programs that use the
  allocator: a step relation whose reachable states all satisfy the invariant.
\<close>

section \<open>The leak report\<close>

definition leak_line :: "alloc \<Rightarrow> message" where
  "leak_line b = LeakCheck (afile b) (aline b) (getPayload (addr b)) (bytes b)"

lemma leakTraverse_chain:
  "chain (memory s) n (b # bs) 0 \<Longrightarrow> separate (b # bs) \<Longrightarrow>
     leakTraverse (addr b) s = Some (s\<lparr>printed := printed s @ map leak_line (b # bs)\<rparr>)"
proof (induction bs arbitrary: b n s)
  case Nil
  then show ?case
    by (subst leakTraverse.simps) (auto simp: node_def fits_def leak_line_def print_def)
next
  case (Cons c bs)
  let ?s = "print (leak_line b) s"
  have nz: "addr b \<noteq> 0" "addr c \<noteq> 0" using Cons.prems(2) by (auto simp: fits_def)
  have "leakTraverse (addr b) s = leakTraverse (addr c) ?s"
    using Cons.prems(1) nz
    by (subst leakTraverse.simps) (auto simp: node_def leak_line_def)
  also have "\<dots> = Some (?s\<lparr>printed := printed ?s @ map leak_line (c # bs)\<rparr>)"
    using Cons.prems by (intro Cons.IH [of ?s "addr b"]) (auto simp: print_def)
  finally show ?case by (simp add: print_def)
qed

lemma leak_report:
  assumes "libc_ok L live valid" and inv: "m61_inv live valid s bs"
  shows "m61_printleakreport s = Some (s\<lparr>printed := printed s @ map leak_line bs\<rparr>)"
proof (cases bs)
  case (Cons b cs)
  have "separate (b # cs)" using m61_inv_separate [OF assms] Cons by simp
  then show ?thesis
    using leakTraverse_chain [of s 0 b cs] inv Cons
    by (auto simp: m61_printleakreport_def m61_inv_def fits_def)
qed (use inv in \<open>simp add: m61_printleakreport_def m61_inv_def\<close>)

text \<open>
  C10: the leak report terminates and prints exactly the live allocations, one line each with
  file, line, payload and size, the most recent first.
\<close>

theorem leak_report_complete:
  assumes "libc_ok L live valid" and "m61_inv live valid s bs"
  shows "\<exists>s'. m61_printleakreport s = Some s' \<and> memory s' = memory s \<and>
    printed s' = printed s @
      map (\<lambda>b. LeakCheck (afile b) (aline b) (getPayload (addr b)) (bytes b)) bs"
  using leak_report [OF assms] by (simp add: leak_line_def [abs_def])

theorem leak_report_complete_witness:
  "\<exists>s s'. m61_malloc bump 5 7 1 bump_start = Some (0x1020, s) \<and>
     m61_printleakreport s = Some s' \<and> printed s' = printed s @ [LeakCheck 7 1 0x1020 5]"
proof -
  obtain s where s: "m61_malloc bump 5 7 1 bump_start = Some (0x1020, s)"
    "m61_inv bump_live bump_valid s [new_alloc 0x1020 5 7 1]"
    using bump_one by blast
  then show ?thesis
    using leak_report_complete [OF bump_libc s(2)]
    by (auto simp: new_alloc_def getPayload_def getMetadata_def)
qed

section \<open>calloc\<close>

lemma mult_no_overflow:
  assumes "\<not> sz > maximumSizeValid div n" "n \<noteq> 0"
  shows "unat (sz * n) = unat sz * unat n"
proof -
  have "unat sz \<le> unat maximumSizeValid div unat n"
    using assms(1) by (simp add: word_le_nat_alt not_less unat_div)
  then have "unat sz * unat n \<le> unat maximumSizeValid div unat n * unat n" by (rule mult_le_mono1)
  also have "\<dots> \<le> unat maximumSizeValid" by (rule div_times_less_eq_dividend)
  also have "\<dots> < 2 ^ LENGTH(32)" by (rule unat_lt2p)
  finally show ?thesis by (subst unat_word_ariths) simp
qed

lemma m61_calloc_ok:
  assumes L: "libc_ok L live valid" and inv: "m61_inv live valid s bs"
    and run: "m61_calloc L n sz f l s = Some (ptr, s')" and ptr: "ptr \<noteq> 0"
  shows "unat (sz * n) = unat sz * unat n \<and>
    m61_inv live valid s' (new_alloc ptr (sz * n) f l # bs) \<and>
    (\<forall>a. unat a \<in> payload (new_alloc ptr (sz * n) f l) \<longrightarrow> memory s' a = 0) \<and>
    payloads_kept bs s s' \<and> printed s' = printed s"
proof -
  let ?c = "new_alloc ptr (sz * n) f l"
  have n: "n \<noteq> 0" "\<not> sz > maximumSizeValid div n"
    using run ptr by (auto simp: m61_calloc_def split: if_splits)
  obtain t where t: "m61_malloc L (sz * n) f l s = Some (ptr, t)"
      "s' = set_mem (memset (memory t) ptr 0 (sz * n)) t"
    using run n ptr
    by (cases "m61_malloc L (sz * n) f l s") (auto simp: m61_calloc_def split: if_splits)
  have post: "m61_inv live valid t (?c # bs)" "payloads_kept bs s t" "printed t = printed s"
      "\<forall>a. unat a \<in> payload ?c \<longrightarrow> memory t a = 0"
    using m61_malloc_ok [OF L inv t(1)] ptr by (simp_all add: malloc_post_def)
  have fc: "fits ?c" using m61_inv_separate [OF L post(1)] by simp
  have pc: "addr ?c + 32 = ptr" "bytes ?c = sz * n"
    by (simp_all add: new_alloc_def getMetadata_def sizeof_metadata_def)
  have "unat ptr + unat (sz * n) \<le> 2 ^ 32"
    using fc unat_add_small [of "addr ?c" 32] unfolding pc fits_def by simp
  then have only: "agree S (memory t) (memset (memory t) ptr 0 (sz * n))"
    if "payload ?c \<inter> S = {}" for S
    using that unfolding payload_def pc by (intro memset_agree)
  note pw = payload_write [OF L post(1), of ?c, OF _ only]
  have "?c \<notin> set bs" using post(1) by (auto simp: m61_inv_def)
  then have "payloads_kept bs t s'"
    using pw(2) t(2) by (auto simp: payloads_kept_def set_mem_def)
  moreover have "memory s' a = 0" if "unat a \<in> payload ?c" for a
    using post(4) that t(2) by (auto simp: set_mem_def memset_at)
  ultimately show ?thesis
    using mult_no_overflow [OF n(2,1)] pw(1) post(2,3) t(2) payloads_kept_trans
    by (auto simp: set_mem_def)
qed

text \<open>
  C9: when \<open>m61_calloc\<close> returns a block, the product of its arguments has not overflowed: the
  block really has \<open>nmemb * sz\<close> bytes, all zero, and the list is intact.
\<close>

theorem m61_calloc_contract:
  assumes "libc_ok L live valid" and "m61_inv live valid s bs"
    and "m61_calloc L n sz f l s = Some (ptr, s')" and "ptr \<noteq> 0"
  shows "unat (bytes (new_alloc ptr (sz * n) f l)) = unat sz * unat n \<and>
    m61_inv live valid s' (new_alloc ptr (sz * n) f l # bs) \<and>
    (\<forall>a. unat a \<in> payload (new_alloc ptr (sz * n) f l) \<longrightarrow> memory s' a = 0) \<and>
    payloads_kept bs s s' \<and> printed s' = printed s"
  using m61_calloc_ok [OF assms] by (simp add: new_alloc_def)

theorem m61_calloc_contract_witness:
  "\<exists>s'. m61_calloc bump 5 1 7 1 bump_start = Some (0x1020, s') \<and>
     m61_inv bump_live bump_valid s' [new_alloc 0x1020 5 7 1]"
proof -
  obtain s' where s': "m61_calloc bump 5 1 7 1 bump_start = Some (0x1020, s')"
    using bump_first by (auto simp: m61_calloc_def maximumSizeValid_def sizeof_metadata_def
        sizeof_backpack_def)
  then show ?thesis using m61_calloc_contract [OF bump_libc bump_start_inv s'] by simp
qed

section \<open>realloc\<close>

lemma disjoint_distance:
  assumes "region p n \<inter> region q n = {}" "unat q + n \<le> 2 ^ 32" "p \<noteq> q"
  shows "n \<le> unat (p - q)"
proof (cases "unat q \<le> unat p")
  case True
  then have "unat (p - q) = unat p - unat q" by (intro unat_sub) (simp add: word_le_nat_alt)
  moreover have "unat q + n \<le> unat p"
  proof (rule ccontr)
    assume "\<not> unat q + n \<le> unat p"
    then have "unat p \<in> region p n \<inter> region q n" using True by (auto simp: region_def)
    then show False using assms(1) by blast
  qed
  ultimately show ?thesis by simp
next
  case False
  then have "unat (p - q) = 2 ^ 32 + unat p - unat q"
    by (simp add: unat_sub_if_size word_size)
  then show ?thesis using assms(2) False by simp
qed

lemma memcpy_agree:
  assumes "region p (unat n) \<inter> S = {}" "unat p + unat n \<le> 2 ^ 32"
  shows "agree S m (memcpy m p q n)"
  unfolding agree_def
proof (intro allI impI)
  fix a :: u32
  assume a: "unat a \<in> S"
  have "\<not> in_range a p n"
  proof
    assume lt: "in_range a p n"
    then have "unat (p + (a - p)) = unat p + unat (a - p)"
      using assms(2) by (intro unat_add_small) (simp add: in_range_def)
    then have "unat a \<in> region p (unat n)" using lt by (simp add: region_def in_range_def)
    then show False using a assms(1) by blast
  qed
  then show "memcpy m p q n a = m a" by (rule memcpy_frame)
qed

lemma payload_word:
  "fits b \<Longrightarrow> unat k < unat (bytes b) \<Longrightarrow> unat (getPayload (addr b) + k) \<in> payload b"
proof -
  assume b: "fits b" and k: "unat k < unat (bytes b)"
  have 1: "unat (addr b + 32) = unat (addr b) + 32"
    using b by (intro trans [OF unat_add_small]) (simp_all add: fits_def)
  have 2: "unat (addr b + 32 + k) = unat (addr b + 32) + unat k"
    using b k 1 by (intro unat_add_small) (simp add: fits_def)
  show ?thesis
    using 1 2 k by (simp add: payload_def region_def getPayload_def sizeof_metadata_def)
qed

text \<open>The copy into a new block, from a block that is still live.\<close>

lemma copy_payload:
  assumes L: "libc_ok L live valid" and inv: "m61_inv live valid t (c # bs)" and b: "b \<in> set bs"
  defines "n \<equiv> if bytes b < bytes c then bytes b else bytes c"
  defines "t' \<equiv> set_mem (memcpy (memory t) (getPayload (addr c)) (getPayload (addr b)) n) t"
  shows "m61_inv live valid t' (c # bs)" and "payloads_kept bs t t'"
    and "\<And>k. unat k < unat (bytes c) \<Longrightarrow> memory t' (getPayload (addr c) + k) =
      (if unat k < unat (bytes b) then memory t (getPayload (addr b) + k)
       else memory t (getPayload (addr c) + k))"
proof -
  let ?p = "getPayload (addr c)" and ?q = "getPayload (addr b)"
  note sep = m61_inv_separate [OF L inv]
  have fc: "fits c" and fb: "fits b" and cb: "span c \<inter> span b = {}"
    using sep b by (auto simp: separate_def)
  have pc: "payload c = region ?p (unat (bytes c))" "payload b = region ?q (unat (bytes b))"
    by (simp_all add: payload_def getPayload_def sizeof_metadata_def)
  have wrap: "unat ?p + unat (bytes c) \<le> 2 ^ 32" "unat ?q + unat (bytes b) \<le> 2 ^ 32"
    using fc fb unat_add_small [of "addr c" 32] unat_add_small [of "addr b" 32]
    by (simp_all add: fits_def getPayload_def sizeof_metadata_def)
  have n: "unat n \<le> unat (bytes c)" "unat n \<le> unat (bytes b)"
      "\<And>k. unat k < unat (bytes c) \<Longrightarrow> unat k < unat n \<longleftrightarrow> unat k < unat (bytes b)"
    unfolding n_def by (auto simp: word_less_nat_alt)
  have only: "agree S (memory t) (memcpy (memory t) ?p ?q n)" if "payload c \<inter> S = {}" for S
  proof (rule memcpy_agree)
    show "region ?p (unat n) \<inter> S = {}" using that n(1) unfolding pc region_def by fastforce
  qed (use wrap(1) n(1) in linarith)
  note pw = payload_write [OF L inv, of c, OF _ only]
  show "m61_inv live valid t' (c # bs)" unfolding t'_def using pw(1) by simp
  have "c \<notin> set bs" using inv by (auto simp: m61_inv_def)
  then show "payloads_kept bs t t'"
    unfolding t'_def using pw(2) by (auto simp: payloads_kept_def set_mem_def)
  fix k :: u32
  assume k: "unat k < unat (bytes c)"
  have "?p = ?q \<or> unat n \<le> unat (?p - ?q)"
  proof (cases "?p = ?q")
    case False
    have "payload c \<inter> payload b = {}" using cb payload_span fc fb by blast
    then have "region ?p (unat n) \<inter> region ?q (unat n) = {}"
      using n(1,2) unfolding pc region_def by fastforce
    then show ?thesis
      using disjoint_distance [of ?p "unat n" ?q] wrap(2) n(2) False by simp
  qed simp
  then show "memory t' (?p + k) =
      (if unat k < unat (bytes b) then memory t (?q + k) else memory t (?p + k))"
    unfolding t'_def using n(3) [OF k] by (simp add: set_mem_def memcpy_at in_range_def)
qed

lemma m61_realloc_run:
  assumes "m61_realloc L ptr sz f l s = Some (new, s')"
  obtains t where "(if sz \<noteq> 0 then m61_malloc L sz f l s else Some (0, s)) = Some (new, t)"
    "m61_free L ptr f l
       (if ptr \<noteq> 0 \<and> new \<noteq> 0
        then set_mem (memcpy (memory t) new ptr
               (if md_sz (memory t) (getMetadata ptr) < sz
                then md_sz (memory t) (getMetadata ptr) else sz)) t
        else t) = Some s'"
proof -
  obtain q t where t: "(if sz \<noteq> 0 then m61_malloc L sz f l s else Some (0, s)) = Some (q, t)"
    using assms unfolding m61_realloc_def Option.bind_eq_Some_conv by force
  have "q = new"
    using assms t unfolding m61_realloc_def Let_def
    by (simp add: Option.bind_eq_Some_conv del: if_split_asm)
  then show thesis
    using that [of t] assms t unfolding m61_realloc_def Let_def
    by (simp add: Option.bind_eq_Some_conv split del: if_split)
qed

lemma m61_realloc_ok:
  assumes L: "libc_ok L live valid" and inv: "m61_inv live valid s (xs @ b # ys)"
    and run: "m61_realloc L (getPayload (addr b)) sz f l s = Some (new, s')"
  shows "payloads_kept (xs @ ys) s s' \<and>
    (if new = 0 then m61_inv live valid s' (xs @ ys)
     else m61_inv live valid s' (new_alloc new sz f l # xs @ ys) \<and>
       (\<forall>k. unat k < unat sz \<longrightarrow> memory s' (new + k) =
          (if unat k < unat (bytes b) then memory s (getPayload (addr b) + k) else 0)))"
proof -
  let ?ptr = "getPayload (addr b)" and ?c = "new_alloc new sz f l"
  have nz: "?ptr \<noteq> 0" using m61_inv_at_facts(3) [OF L m61_inv_focus [OF inv]] .
  obtain t where t: "(if sz \<noteq> 0 then m61_malloc L sz f l s else Some (0, s)) = Some (new, t)"
    and fr: "m61_free L ?ptr f l
       (if ?ptr \<noteq> 0 \<and> new \<noteq> 0
        then set_mem (memcpy (memory t) new ?ptr
               (if md_sz (memory t) (getMetadata ?ptr) < sz
                then md_sz (memory t) (getMetadata ?ptr) else sz)) t
        else t) = Some s'"
    by (rule m61_realloc_run [OF run])
  have post: "if new = 0 then m61_inv live valid t (xs @ b # ys) \<and> payloads_kept (xs @ b # ys) s t
      else malloc_post live valid s (xs @ b # ys) sz f l new t"
    using t inv m61_malloc_ok [OF L inv, of sz f l new t]
    by (auto simp: malloc_post_def payloads_kept_def split: if_splits)
  have kept: "payloads_kept (xs @ ys) u v" if "payloads_kept (xs @ b # ys) u v" for u v :: "'h m61"
    using that by (simp add: payloads_kept_def)
  show ?thesis
  proof (cases "new = 0")
    case True
    have inv_t: "m61_inv live valid t (xs @ b # ys)" "payloads_kept (xs @ b # ys) s t"
      using post True by simp_all
    have "s' = free_node L (addr b) (addr b + tail_off b) f l t"
      using fr True m61_free_ok [OF L inv_t(1)] by simp
    then show ?thesis
      using free_node_ok(1,2) [OF L m61_inv_focus [OF inv_t(1)], of f l] True
        payloads_kept_trans [OF kept [OF inv_t(2)]] by simp
  next
    case False
    have inv_t: "m61_inv live valid t (?c # xs @ b # ys)" "payloads_kept (xs @ b # ys) s t"
        "\<forall>a. unat a \<in> payload ?c \<longrightarrow> memory t a = 0"
      using post False by (simp_all add: malloc_post_def)
    have c: "getPayload (addr ?c) = new" "bytes ?c = sz"
      by (simp_all add: new_alloc_def getPayload_def getMetadata_def)
    obtain pv nx where "node (memory t) b pv nx"
      using m61_inv_node [of live valid t "?c # xs" b ys] inv_t(1) by auto
    then have sz: "md_sz (memory t) (getMetadata ?ptr) = bytes b"
      using m61_inv_at_facts(5) [OF L m61_inv_focus [OF inv]] by (simp add: node_def)
    define t' where "t' = set_mem (memcpy (memory t) new ?ptr (if bytes b < sz then bytes b else sz)) t"
    have bin: "b \<in> set (xs @ b # ys)" by simp
    note copy = copy_payload [OF L inv_t(1) bin, unfolded c, folded t'_def]
    have inv_t': "m61_inv live valid t' ((?c # xs) @ b # ys)" using copy(1) by simp
    have s': "s' = free_node L (addr b) (addr b + tail_off b) f l t'"
      using fr False nz m61_free_ok [OF L inv_t'] unfolding t'_def sz by simp
    note free = free_node_ok(1,2) [OF L m61_inv_focus [OF inv_t'], of f l, folded s']
    have "payloads_kept (xs @ ys) s s'"
    proof -
      have "payloads_kept (xs @ ys) t' s'" using free(2) by (simp add: payloads_kept_def)
      then show ?thesis
        by (rule payloads_kept_trans [OF payloads_kept_trans [OF kept [OF inv_t(2)] kept [OF copy(2)]]])
    qed
    moreover have "memory s' (new + k) =
        (if unat k < unat (bytes b) then memory s (?ptr + k) else 0)" if k: "unat k < unat sz" for k
    proof -
      have fits: "fits ?c" "fits b"
        using m61_inv_separate [OF L inv_t(1)] by (simp_all add: separate_append)
      have "memory s' (new + k) = memory t' (new + k)"
        using free(2) payload_word [OF fits(1), of k] k c by (simp add: payloads_kept_def agree_def)
      moreover have "memory t (new + k) = 0"
        using inv_t(3) payload_word [OF fits(1), of k] k c by simp
      moreover have "memory t (?ptr + k) = memory s (?ptr + k)" if "unat k < unat (bytes b)"
        using inv_t(2) payload_word [OF fits(2) that] by (simp add: payloads_kept_def agree_def)
      ultimately show ?thesis using copy(3) [OF k] by simp
    qed
    ultimately show ?thesis using free(1) False by simp
  qed
qed

text \<open>
  C8: \<open>m61_realloc\<close> of a live allocation. On success the new block holds the old contents up to
  the smaller of the two sizes and zeros behind, the old block is gone and all other
  allocations keep theirs. When no new block could be had the old block is released all the
  same (the C standard keeps it).
\<close>

theorem m61_realloc_contract:
  assumes "libc_ok L live valid" and "m61_inv live valid s (xs @ b # ys)"
    and "m61_realloc L (getPayload (addr b)) sz f l s = Some (new, s')"
  shows "payloads_kept (xs @ ys) s s' \<and>
    (if new = 0 then m61_inv live valid s' (xs @ ys)
     else m61_inv live valid s' (new_alloc new sz f l # xs @ ys) \<and>
       (\<forall>k. unat k < unat sz \<longrightarrow> memory s' (new + k) =
          (if unat k < unat (bytes b) then memory s (getPayload (addr b) + k) else 0)))"
  by (rule m61_realloc_ok [OF assms])

lemma trackAllocByHH_some: "trackAllocByHH L sz f l s = Some t \<Longrightarrow> szTracker t \<noteq> 0"
  by (auto simp: trackAllocByHH_def set_mem_def Let_def Option.bind_eq_Some_conv
      split: if_splits prod.splits)

lemma m61_malloc_tracker:
  "m61_malloc L sz f l s = Some (ptr, s') \<Longrightarrow> ptr \<noteq> 0 \<or> szTracker s \<noteq> 0 \<Longrightarrow> szTracker s' \<noteq> 0"
  by (elim m61_malloc_cases)
    (auto simp: allocationFailedWithSize_def enter_block_rest dest: trackAllocByHH_some)

lemma m61_malloc_total:
  assumes L: "libc_ok L live valid" and inv: "m61_inv live valid s bs" and tr: "szTracker s \<noteq> 0"
  shows "\<exists>ptr s'. m61_malloc L sz f l s = Some (ptr, s')"
  using m61_malloc_crash [OF L inv, of sz f l] tr
  by (cases "m61_malloc L sz f l s") (auto simp: no_tracker_def)

lemma m61_realloc_total:
  assumes L: "libc_ok L live valid" and inv: "m61_inv live valid s (xs @ b # ys)"
    and tr: "szTracker s \<noteq> 0"
  shows "\<exists>new s'. m61_realloc L (getPayload (addr b)) sz f l s = Some (new, s')"
proof -
  obtain new t where t: "(if sz \<noteq> 0 then m61_malloc L sz f l s else Some (0, s)) = Some (new, t)"
    using m61_malloc_total [OF L inv tr, of sz f l] by (cases "sz = 0") auto
  let ?s = "if getPayload (addr b) \<noteq> 0 \<and> new \<noteq> 0
        then set_mem (memcpy (memory t) new (getPayload (addr b))
               (if md_sz (memory t) (getMetadata (getPayload (addr b))) < sz
                then md_sz (memory t) (getMetadata (getPayload (addr b))) else sz)) t
        else t"
  have "\<exists>s'. m61_free L (getPayload (addr b)) f l ?s = Some s'"
  proof (cases "new = 0")
    case True
    have "m61_inv live valid t (xs @ b # ys)"
      using t True inv m61_malloc_ok [OF L inv] by (auto simp: malloc_post_def split: if_splits)
    from m61_free_ok [OF L this] show ?thesis using True by simp
  next
    case False
    let ?c = "new_alloc new sz f l"
    have inv_t: "m61_inv live valid t (?c # xs @ b # ys)"
      using t False m61_malloc_ok [OF L inv] by (auto simp: malloc_post_def split: if_splits)
    have c: "getPayload (addr ?c) = new" "bytes ?c = sz"
      by (simp_all add: new_alloc_def getPayload_def getMetadata_def)
    obtain pv nx where "node (memory t) b pv nx"
      using m61_inv_node [of live valid t "?c # xs" b ys] inv_t by auto
    then have sz: "md_sz (memory t) (getMetadata (getPayload (addr b))) = bytes b"
      using m61_inv_at_facts(5) [OF L m61_inv_focus [OF inv]] by (simp add: node_def)
    have "m61_inv live valid ?s ((?c # xs) @ b # ys)"
      using copy_payload(1) [OF L inv_t, of b] False m61_inv_at_facts(3) [OF L m61_inv_focus [OF inv]]
      unfolding c sz by simp
    from m61_free_ok [OF L this] show ?thesis by blast
  qed
  then show ?thesis using t unfolding m61_realloc_def Let_def by auto
qed

theorem m61_realloc_contract_witness:
  "\<exists>s new s'. m61_malloc bump 5 7 1 bump_start = Some (0x1020, s) \<and>
     m61_realloc bump 0x1020 9 7 2 s = Some (new, s') \<and>
     (if new = 0 then active_count (stats s') = 0
      else memory s' new = memory s 0x1020 \<and> memory s' (new + 8) = 0)"
proof -
  let ?b = "new_alloc 0x1020 5 7 1"
  obtain s where s: "m61_malloc bump 5 7 1 bump_start = Some (0x1020, s)"
    "m61_inv bump_live bump_valid s ([] @ [?b])"
    using bump_one by auto
  have ptr: "getPayload (addr ?b) = 0x1020" "bytes ?b = 5"
    by (simp_all add: new_alloc_def getPayload_def getMetadata_def)
  have "szTracker s \<noteq> 0" using m61_malloc_tracker [OF s(1)] by simp
  then obtain new s' where r: "m61_realloc bump (getPayload (addr ?b)) 9 7 2 s = Some (new, s')"
    using m61_realloc_total [OF bump_libc s(2)] by blast
  have m: "memory s' new = memory s 0x1020 \<and> memory s' (new + 8) = 0" if "new \<noteq> 0"
    using m61_realloc_contract [OF bump_libc s(2) r] that
    by (auto simp: ptr dest: spec [of _ 0] spec [of _ 8])
  have "active_count (stats s') = 0" if "new = 0"
    using m61_realloc_contract [OF bump_libc s(2) r] that by (simp add: m61_inv_def)
  then show ?thesis using s(1) r m unfolding ptr by auto
qed

section \<open>Programs\<close>

text \<open>
  Every state a program can reach with the allocator, with the list of its live allocations:
  the calls of the interface on pointers that are live, writes into payloads, and reports.
\<close>

inductive m61_reach :: "'h libc \<Rightarrow> 'h m61 \<Rightarrow> 'h m61 \<Rightarrow> alloc list \<Rightarrow> bool"
  for L :: "'h libc" and s0 :: "'h m61" where
  start: "m61_reach L s0 s0 []"
| malloc: "m61_reach L s0 s bs \<Longrightarrow> m61_malloc L sz f l s = Some (ptr, s') \<Longrightarrow>
    m61_reach L s0 s' (if ptr = 0 then bs else new_alloc ptr sz f l # bs)"
| calloc: "m61_reach L s0 s bs \<Longrightarrow> m61_calloc L n sz f l s = Some (ptr, s') \<Longrightarrow>
    m61_reach L s0 s' (if ptr = 0 then bs else new_alloc ptr (sz * n) f l # bs)"
| realloc: "m61_reach L s0 s (xs @ b # ys) \<Longrightarrow>
    m61_realloc L (getPayload (addr b)) sz f l s = Some (new, s') \<Longrightarrow>
    m61_reach L s0 s' (if new = 0 then xs @ ys else new_alloc new sz f l # xs @ ys)"
| free: "m61_reach L s0 s (xs @ b # ys) \<Longrightarrow> m61_free L (getPayload (addr b)) f l s = Some s' \<Longrightarrow>
    m61_reach L s0 s' (xs @ ys)"
| free_null: "m61_reach L s0 s bs \<Longrightarrow> m61_free L 0 f l s = Some s' \<Longrightarrow> m61_reach L s0 s' bs"
| user_write: "m61_reach L s0 s bs \<Longrightarrow> b \<in> set bs \<Longrightarrow> unat a \<in> payload b \<Longrightarrow>
    m61_reach L s0 (set_mem ((memory s)(a := v)) s) bs"
| leaks: "m61_reach L s0 s bs \<Longrightarrow> m61_printleakreport s = Some s' \<Longrightarrow> m61_reach L s0 s' bs"
| statistics: "m61_reach L s0 s bs \<Longrightarrow> m61_reach L s0 (m61_printstatistics s) bs"
| hitters: "m61_reach L s0 s bs \<Longrightarrow> printHeavyHitterReport below s = Some s' \<Longrightarrow>
    m61_reach L s0 s' bs"

lemma m61_inv_printed:
  "m61_inv live valid (s\<lparr>printed := out\<rparr>) bs \<longleftrightarrow> m61_inv live valid s bs"
  by (simp add: m61_inv_def trackers_ok_def tracker_addrs_def)

lemma length_sortHitTracker: "length (sortHitTracker ts) = length ts"
proof (induction ts rule: sortHitTracker.induct)
  case (1 ts)
  have "length (fst (sort_pass ts)) = length ts"
    using mset_eq_length [OF mset_sort_pass [of ts]] .
  then show ?case
    using 1 [of "sort_pass ts"] by (subst sortHitTracker.simps) (auto split: prod.splits)
qed

lemma m61_inv_hitters:
  assumes L: "libc_ok L live valid" and inv: "m61_inv live valid s bs"
    and run: "printHeavyHitterReport below s = Some s'"
  shows "m61_inv live valid s' bs"
proof -
  have wf: "heap_wf (stack_addr L) (live (heap s))" and ok: "trackers_ok (live (heap s)) s"
    and v: "valid (heap s)"
    using L inv by (simp_all add: libc_ok_def m61_inv_def)
  have tr: "szTracker s \<noteq> 0" using run by (auto simp: printHeavyHitterReport_def split: if_splits)
  obtain ts us out where s': "s' = s\<lparr>memory := store_trackers
        (store_trackers (memory s) (szTracker s) ts) (freqTracker s) us, printed := out\<rparr>"
      and len: "length ts = 3" "length us = 3"
  proof -
    let ?ts = "sortHitTracker (load_trackers (memory s) (szTracker s) NUMBERCOUNTERS)"
    let ?us = "sortHitTracker (load_trackers (store_trackers (memory s) (szTracker s) ?ts)
      (freqTracker s) NUMBERCOUNTERS)"
    show thesis
      by (rule that [where ts = ?ts and us = ?us and out = "printed s'"])
        (use run in \<open>auto simp: printHeavyHitterReport_def Let_def Option.bind_eq_Some_conv
          length_sortHitTracker NUMBERCOUNTERS_def split: if_splits\<close>)
  qed
  have q: "region q 48 \<inter> region p n = {} \<and> unat q + 48 < 2 ^ 32"
    if q: "q \<in> tracker_addrs s" and p: "live (heap s) p = Some n" "p \<notin> tracker_addrs s" for p q n
  proof -
    have lq: "live (heap s) q = Some 48" using q ok tr by (auto simp: trackers_ok_def tracker_addrs_def)
    have "q \<noteq> p" using q p(2) by blast
    then have "region q 48 \<inter> region p n = {}" by (rule heap_wf_disjoint [OF wf lq p(1)])
    moreover have "unat q + 48 \<le> unat (stack_addr L)" using heap_wf_region [OF wf lq] by blast
    then have "unat q + 48 < 2 ^ LENGTH(32)" using unat_lt2p by (rule le_less_trans)
    ultimately show ?thesis by simp
  qed
  have "others_kept (live (heap s)) s (live (heap s')) s'"
    unfolding others_kept_def
  proof (intro allI impI conjI)
    fix p n assume p: "live (heap s) p = Some n" "p \<notin> tracker_addrs s"
    show "live (heap s') p = Some n" using p s' by simp
    show "p \<notin> tracker_addrs s'" using p s' by (simp add: tracker_addrs_def)
    show "agree (region p n) (memory s) (memory s')"
      using q [OF _ p, of "szTracker s"] q [OF _ p, of "freqTracker s"] len unfolding s'
      by (auto simp: tracker_addrs_def
          intro!: agree_trans [OF store_trackers_agree store_trackers_agree])
  qed
  then have "m61_inv live valid (s'\<lparr>printed := printed s\<rparr>) bs"
    using s' v ok
    by (intro inv_others_kept [OF L inv])
      (auto simp: trackers_ok_def same_list_def others_kept_def tracker_addrs_def)
  then show ?thesis by (simp add: m61_inv_printed)
qed

lemma m61_inv_calloc:
  assumes L: "libc_ok L live valid" and inv: "m61_inv live valid s bs"
    and run: "m61_calloc L n sz f l s = Some (ptr, s')"
  shows "m61_inv live valid s' (if ptr = 0 then bs else new_alloc ptr (sz * n) f l # bs)"
proof (cases "ptr = 0")
  case True
  then consider "s' = allocationFailedWithSize sz s" | "m61_malloc L (sz * n) f l s = Some (0, s')"
    using run by (cases "m61_malloc L (sz * n) f l s"; cases "sz > maximumSizeValid div n")
      (auto simp: m61_calloc_def split: if_split_asm)
  then show ?thesis
    using True m61_inv_failed [OF inv] m61_malloc_ok [OF L inv]
    by cases (auto simp: malloc_post_def split: if_splits)
next
  case False
  then show ?thesis using m61_calloc_ok [OF L inv run] by simp
qed

lemma m61_reach_inv:
  assumes L: "libc_ok L live valid" and h: "valid h"
  shows "m61_reach L (m61_init h m) s bs \<Longrightarrow> m61_inv live valid s bs"
proof (induction rule: m61_reach.induct)
  case start
  show ?case by (rule m61_inv_init [where live = live and valid = valid, OF h])
next
  case (malloc s bs sz f l ptr s')
  then show ?case using m61_malloc_ok [OF L, of s bs] by (auto simp: malloc_post_def split: if_splits)
next
  case (calloc s bs n sz f l ptr s')
  show ?case by (rule m61_inv_calloc [OF L calloc.IH calloc.hyps(2)])
next
  case (realloc s xs b ys sz f l new s')
  from m61_realloc_ok [OF L realloc.IH realloc.hyps(2)] show ?case by (auto split: if_splits)
next
  case (free s xs b ys f l s')
  from m61_free_ok [OF L free.IH] free_node_ok(1) [OF L m61_inv_focus [OF free.IH]] free.hyps(2)
  show ?case by auto
next
  case (free_null s bs f l s')
  then show ?case by (simp add: m61_free_def)
next
  case (user_write s bs b a v)
  have only: "agree S (memory s) ((memory s)(a := v))" if "payload b \<inter> S = {}" for S
  proof -
    have "unat a \<notin> S" using that user_write.hyps(3) by blast
    then show ?thesis by (auto simp: agree_def)
  qed
  show ?case by (rule payload_write(1) [OF L user_write.IH user_write.hyps(2) only])
next
  case (leaks s bs s')
  then have "s' = s\<lparr>printed := printed s @ map leak_line bs\<rparr>"
    using leak_report [OF L leaks.IH] by simp
  then show ?case using leaks.IH by (simp add: m61_inv_printed)
next
  case (statistics s bs)
  then show ?case by (simp add: m61_printstatistics_def print_def m61_inv_printed)
next
  case (hitters s bs below s')
  show ?case by (rule m61_inv_hitters [OF L hitters.IH hitters.hyps(2)])
qed

text \<open>
  C4: in every state that a program which frees only live pointers and writes only into its
  payloads can reach, the doubly linked list in memory is exactly the list of the live
  allocations, their blocks are disjoint, and the statistics count and add up the live ones.
\<close>

theorem m61_reachable_intact:
  assumes "libc_ok L live valid" and "valid h" and "m61_reach L (m61_init h m) s bs"
  shows "chain (memory s) 0 bs 0 \<and> lastAlloc s = hd_addr bs 0 \<and> separate bs \<and>
    active_count (m61_getstatistics s) = word_of_nat (length bs) \<and>
    active_size (m61_getstatistics s) = sum_list (map (\<lambda>b. ucast (bytes b)) bs)"
proof -
  have inv: "m61_inv live valid s bs" by (rule m61_reach_inv [OF assms])
  show ?thesis
    using inv m61_inv_separate [OF assms(1) inv] by (simp add: m61_inv_def m61_getstatistics_def)
qed

theorem m61_reachable_intact_witness:
  "\<exists>s bs. m61_reach bump bump_start s bs \<and> length bs = 1 \<and>
     active_count (m61_getstatistics s) = 1 \<and> lastAlloc s = hd_addr bs 0"
proof -
  obtain s where s: "m61_malloc bump 5 7 1 bump_start = Some (0x1020, s)"
    using bump_first by blast
  have r: "m61_reach bump (m61_init (0x1000, []) (\<lambda>a. ucast a)) s [new_alloc 0x1020 5 7 1]"
    using m61_reach.malloc [OF m61_reach.start s] by (simp add: bump_start_def)
  have "bump_valid (0x1000, [])" by (simp add: bump_valid_def)
  from m61_reachable_intact [OF bump_libc this r] r
  show ?thesis by (intro exI [of _ s] exI [of _ "[new_alloc 0x1020 5 7 1]"])
    (simp add: bump_start_def)
qed

section \<open>The search for the surrounding region\<close>

lemma scan_step:
  "firstHeap s \<noteq> 0 \<Longrightarrow> scanMemoryForAllocation L p s =
     (if stack_addr L < p \<or> p < firstHeap s then Some (0, s)
      else if md_self (memory s) p = p then Some (p, s)
      else scanMemoryForAllocation L (p - 1) s)"
  by (subst scanMemoryForAllocation.simps) (auto simp: addressIsInHeap_def Let_def)

lemma scan_returns: "firstHeap s \<noteq> 0 \<Longrightarrow> \<exists>r. scanMemoryForAllocation L p s = Some (r, s)"
proof (induction "unat p" arbitrary: p)
  case 0
  then have "p = 0" by (metis unat_eq_zero)
  then show ?case using 0 by (subst scan_step) (auto simp: word_neq_0_conv)
next
  case (Suc n)
  have "unat (p - 1) = n" using Suc.hyps(2) unat_minus_one [of p] by (cases "p = 0") auto
  then show ?case using Suc by (subst scan_step) auto
qed

text \<open>
  the recursive scan for the region around a pointer always returns, whatever is in memory,
  because it stops at the lowest heap address, which is never zero.
\<close>

theorem scan_terminates:
  assumes "total_size_addr L \<noteq> 0"
  shows "\<exists>r s'. scanMemoryForAllocation L p s = Some (r, s') \<and> memory s' = memory s \<and>
    (r = 0 \<or> md_self (memory s) r = r)"
proof -
  let ?s = "if firstHeap s = 0 then s\<lparr>firstHeap := total_size_addr L\<rparr> else s"
  have nz: "firstHeap ?s \<noteq> 0" using assms by simp
  have eq: "scanMemoryForAllocation L p s = scanMemoryForAllocation L p ?s"
  proof (cases "firstHeap s = 0")
    case True
    then show ?thesis
      using assms by (subst (1 2) scanMemoryForAllocation.simps) (simp add: addressIsInHeap_def)
  qed simp
  obtain r where r: "scanMemoryForAllocation L p ?s = Some (r, ?s)" using scan_returns [OF nz] by blast
  have "r = 0 \<or> md_self (memory ?s) r = r"
    using r
  proof (induction "unat p" arbitrary: p)
    case 0
    then have "p = 0" by (metis unat_eq_zero)
    then show ?case using 0(2) nz by (subst (asm) scan_step) (auto simp: word_neq_0_conv split: if_splits)
  next
    case (Suc n)
    have "unat (p - 1) = n" using Suc.hyps(2) unat_minus_one [of p] by (cases "p = 0") auto
    then show ?case
      using Suc.hyps(1) [of "p - 1"] Suc.prems scan_step [OF nz, of L p] by (auto split: if_splits)
  qed
  moreover have "memory ?s = memory s" by simp
  ultimately show ?thesis using r unfolding eq by metis
qed

theorem scan_terminates_witness:
  "\<exists>r s'. scanMemoryForAllocation bump 0xBFFFFFFF bump_start = Some (r, s') \<and>
     memory s' = memory bump_start \<and> (r = 0 \<or> md_self (memory bump_start) r = r)"
  by (rule scan_terminates) (simp add: bump_def)

lemma scan_finds:
  assumes "firstHeap s \<noteq> 0" "firstHeap s \<le> q" "md_self (memory s) q = q"
  shows "q \<le> p \<Longrightarrow> p \<le> stack_addr L \<Longrightarrow> (\<And>r. q < r \<Longrightarrow> r \<le> p \<Longrightarrow> md_self (memory s) r \<noteq> r) \<Longrightarrow>
    scanMemoryForAllocation L p s = Some (q, s)"
proof (induction "unat p" arbitrary: p)
  case 0
  then have "unat q = unat p" by (simp add: word_le_nat_alt)
  then have "p = q" by (metis unsigned_word_eqI)
  then show ?case using assms 0 by (subst scan_step) auto
next
  case (Suc n)
  show ?case
  proof (cases "p = q")
    case True
    then show ?thesis using assms Suc.prems by (subst scan_step) auto
  next
    case False
    then have lt: "q < p" using Suc.prems(1) by simp
    have n: "unat (p - 1) = n" using Suc.hyps(2) unat_minus_one [of p] by (cases "p = 0") auto
    have p1: "q \<le> p - 1" "p - 1 \<le> p"
      using lt n Suc.hyps(2) by (simp_all add: word_less_nat_alt word_le_nat_alt)
    have "scanMemoryForAllocation L (p - 1) s = Some (q, s)"
      using n p1 Suc.prems by (intro Suc.hyps(1)) auto
    then show ?thesis
      using assms Suc.prems lt by (subst scan_step) auto
  qed
qed

text \<open>
  freeing a pointer into the middle of a live payload is reported together with the
  enclosing allocation, its size and the offset, as long as the bytes in front of the
  pointer do not happen to look like metadata; nothing is released.
\<close>

theorem m61_free_inside:
  assumes L: "libc_ok L live valid" and inv: "m61_inv live valid s (xs @ b # ys)"
    and k: "k \<noteq> 0" "unat k < unat (bytes b)"
    and p: "p = addr b + k"
    and plain: "\<not> md_freed (memory s) p"
      "load32 (memory s) (getPayload p + md_sz (memory s) p) \<noteq> getPayload p + md_sz (memory s) p"
      "\<And>r. addr b < r \<Longrightarrow> r \<le> p \<Longrightarrow> md_self (memory s) r \<noteq> r"
  shows "\<exists>s'. m61_free L (getPayload p) f l s = Some s' \<and> m61_inv live valid s' (xs @ b # ys) \<and>
    memory s' = memory s \<and>
    printed s' = printed s @ [NotAllocated f l (getPayload p),
      InsideRegion (afile b) (aline b) (getPayload p) k (bytes b)]"
proof -
  have at: "m61_inv_at live valid s xs b ys" by (rule m61_inv_focus [OF inv])
  have fb: "fits b" using m61_inv_at_facts(2) [OF L at] .
  have wf: "heap_wf (stack_addr L) (live (heap s))" using L inv by (simp add: libc_ok_def m61_inv_def)
  have lb: "live (heap s) (addr b) = Some (unat (bytes b) + 36)"
    and first: "firstHeap s \<noteq> 0" "firstHeap s \<le> addr b"
    using at by (simp_all add: m61_inv_at_def)
  have top: "unat (addr b) + unat (bytes b) + 36 \<le> unat (stack_addr L)"
    using heap_wf_region [OF wf lb] by simp
  have unat_p: "unat p = unat (addr b) + unat k"
    unfolding p using fb k(2) by (intro unat_add_small) (simp add: fits_def)
  have unat_ptr: "unat (getPayload p) = unat p + 32"
    unfolding getPayload_def sizeof_metadata_def
    using fb k(2) unat_p by (intro trans [OF unat_add_small]) (simp_all add: fits_def)
  have kpos: "0 < unat k" using k(1) by (simp add: unat_gt_0)
  have lt: "addr b < p" "p \<le> stack_addr L" "getPayload p \<le> stack_addr L" "addr b \<le> getPayload p"
    using unat_p unat_ptr top k(2) kpos by (simp_all add: word_less_nat_alt word_le_nat_alt)
  have heap: "addressIsInHeap L (getPayload p) s = (True, s)"
    using lt first by (auto simp: addressIsInHeap_def)
  obtain pv nx where nd: "node (memory s) b pv nx" using m61_inv_node [OF inv] .
  let ?s = "print (NotAllocated f l (getPayload p)) s"
  have scan: "scanMemoryForAllocation L p ?s = Some (addr b, ?s)"
    using nd first lt plain(3)
    by (intro scan_finds) (auto simp: print_def node_def)
  have off: "p - addr b = k" unfolding p by simp
  have "unat (bytes b + 36) = unat (bytes b) + 36"
    using top unat_lt32 [of "stack_addr L"] by (intro trans [OF unat_add_small]) (simp_all del: unat_lt32)
  then have small: "k < sizeof_metadata + bytes b + sizeof_backpack"
    using k(2) by (simp add: word_less_nat_alt sizeof_metadata_def sizeof_backpack_def ac_simps)
  have meta: "getMetadata (getPayload p) = p" by (simp add: getMetadata_def getPayload_def)
  have nz: "getPayload p \<noteq> 0" using unat_ptr by auto
  have "m61_free L (getPayload p) f l s = report_unallocated L (getPayload p) f l s"
    using plain(1,2) plain(3) [OF lt(1)] nz heap
    by (auto simp: m61_free_def meta eq_commute [of p] eq_commute [of _ "load32 _ _"])
  moreover have "report_unallocated L (getPayload p) f l s =
      Some (print (InsideRegion (afile b) (aline b) (getPayload p) k (bytes b)) ?s)"
    using scan nd fb small
    by (simp add: report_unallocated_def meta off node_def print_def fits_def)
  ultimately show ?thesis
    using inv by (simp add: print_def m61_inv_printed)
qed

lemma bit_load32:
  "bit (load32 m a) 12 = bit (m (a + 1)) 4" "bit (load32 m a) 20 = bit (m (a + 2)) 4"
  "bit (load32 m a) 28 = bit (m (a + 3)) 4"
  by (auto simp: load32_def bit_simps dest: bit_imp_le_length)

theorem m61_free_inside_witness:
  "\<exists>s s'. m61_malloc bump 80 7 1 bump_start = Some (0x1020, s) \<and>
     m61_free bump 0x1048 7 2 s = Some s' \<and>
     printed s' = printed s @ [NotAllocated 7 2 0x1048, InsideRegion 7 1 0x1048 40 80]"
proof -
  let ?b = "new_alloc 0x1020 80 7 1"
  obtain s where s: "m61_malloc bump 80 7 1 bump_start = Some (0x1020, s)"
    by (simp add: m61_malloc_enter bump_def bump_malloc_def trackAllocByHH_def bump_start_def
        m61_init_def set_mem_def maximumSizeValid_def sizeof_metadata_def sizeof_backpack_def
        getPayload_def)
  have post: "m61_inv bump_live bump_valid s ([] @ ?b # [])"
      "\<And>a. unat a \<in> payload ?b \<Longrightarrow> memory s a = 0"
    using m61_malloc_ok [OF bump_libc bump_start_inv s] by (simp_all add: malloc_post_def)
  have b: "addr ?b = 0x1000" "bytes ?b = 80" "afile ?b = 7" "aline ?b = 1"
    by (simp_all add: new_alloc_def getMetadata_def sizeof_metadata_def)
  have zero: "memory s a = 0" if "0x1020 \<le> unat a" "unat a < 0x1070" for a
    by (rule post(2)) (use that in \<open>simp add: payload_def region_def b\<close>)
  have load0: "load32 (memory s) a = 0" if "0x1020 \<le> unat a" "unat a + 4 \<le> 0x1070" for a
  proof -
    have "unat a + 4 \<le> 2 ^ 32" using that(2) by simp
    from unat_cell [OF this] show ?thesis using that zero by (simp add: load32_def)
  qed
  have self: "load32 (memory s) 0x101C = 0x1000"
    using post(1) by (simp add: m61_inv_def node_def md_self_def b)
  have plain: "md_self (memory s) r \<noteq> r" if "addr ?b < r" "r \<le> addr ?b + 40" for r
  proof -
    have r: "0x1000 < unat r" "unat r \<le> 0x1028"
      using that by (simp_all add: b word_less_nat_alt word_le_nat_alt)
    have r29: "unat (r + 29) = unat r + 29" using r by (intro trans [OF unat_add_small]) simp_all
    have low: "\<not> bit (memory s (r + 29)) 4"
    proof -
      consider "unat r = 0x1001" | "unat r = 0x1002" | "0x1003 \<le> unat r" using r by linarith
      then show ?thesis
      proof cases
        case 1
        then have "r = 0x1001" by (intro unsigned_word_eqI) simp
        then show ?thesis using bit_load32(2) [of "memory s" "0x101C"] by (simp add: self)
      next
        case 2
        then have "r = 0x1002" by (intro unsigned_word_eqI) simp
        then show ?thesis using bit_load32(3) [of "memory s" "0x101C"] by (simp add: self)
      next
        case 3
        then have "memory s (r + 29) = 0" using r r29 by (intro zero) simp_all
        then show ?thesis by simp
      qed
    qed
    have "bit r 12"
    proof -
      have "unat r div 2 ^ 12 = 1" using r by simp
      then have "bit (unat r) 12" by (simp add: bit_iff_odd)
      then show ?thesis by (simp add: bit_unsigned_iff)
    qed
    then show ?thesis
      using low bit_load32(1) [of "memory s" "r + 28"] by (auto simp: md_self_def add.assoc)
  qed
  have "\<exists>s'. m61_free bump (getPayload 0x1028) 7 2 s = Some s' \<and>
      m61_inv bump_live bump_valid s' ([] @ ?b # []) \<and> memory s' = memory s \<and>
      printed s' = printed s @ [NotAllocated 7 2 (getPayload 0x1028),
        InsideRegion (afile ?b) (aline ?b) (getPayload 0x1028) 40 (bytes ?b)]"
  proof (rule m61_free_inside [OF bump_libc post(1), where k = 40 and p = "0x1028"])
    show "\<not> md_freed (memory s) 0x1028"
      by (simp add: md_freed_def load0)
    show "load32 (memory s) (getPayload 0x1028 + md_sz (memory s) 0x1028)
        \<noteq> getPayload 0x1028 + md_sz (memory s) 0x1028"
      by (simp add: md_sz_def load0 getPayload_def sizeof_metadata_def)
    show "md_self (memory s) r \<noteq> r" if "addr ?b < r" "r \<le> 0x1028" for r
      using plain that by (simp add: b)
  qed (simp_all add: b)
  then show ?thesis using s unfolding b by (auto simp: getPayload_def sizeof_metadata_def)
qed

end
