(* ===== verification/Hardware.thy ===== *)
theory Hardware
  imports Console "HOL-Library.Monad_Syntax"
begin

text \<open>
  \<open>pset3/k-hardware.c\<close> and the hardware structures of \<open>pset3/x86.h\<close>: descriptor tables,
  interrupt controller, timer, cursor, keyboard, parallel port log, and the initial
  registers of a process. The devices behind the ports are a parameter: a record of what an
  \<open>in\<close> and an \<open>out\<close> instruction do to the device state.
\<close>

section \<open>Ports\<close>

record 'd device =
  dev_in :: "nat \<Rightarrow> 'd \<Rightarrow> u8 \<times> 'd"
  dev_out :: "nat \<Rightarrow> u8 \<Rightarrow> 'd \<Rightarrow> 'd"

definition outb :: "'d device \<Rightarrow> nat \<Rightarrow> int \<Rightarrow> 'd \<Rightarrow> 'd" where
  "outb D port data d = dev_out D port (word_of_int data) d"

definition inb :: "'d device \<Rightarrow> nat \<Rightarrow> 'd \<Rightarrow> u8 \<times> 'd" where
  "inb D port d = dev_in D port d"

primrec outbs :: "'d device \<Rightarrow> (nat \<times> int) list \<Rightarrow> 'd \<Rightarrow> 'd" where
  "outbs D [] d = d"
| "outbs D (e # es) d = outbs D es (outb D (fst e) (snd e) d)"

section \<open>Segments and gates\<close>

record gatedescriptor =
  gd_off_15_0 :: u16
  gd_ss :: u16
  gd_args :: nat
  gd_rsv1 :: nat
  gd_type :: nat
  gd_s :: nat
  gd_dpl :: nat
  gd_p :: nat
  gd_off_31_16 :: u16

definition STS_IG32 :: nat where "STS_IG32 = 0xE"
definition STS_TG32 :: nat where "STS_TG32 = 0xF"
definition STS_T32A :: nat where "STS_T32A = 0x9"
definition STA_X :: nat where "STA_X = 0x8"
definition STA_W :: nat where "STA_W = 0x2"
definition STA_R :: nat where "STA_R = 0x2"

definition SETGATE :: "bool \<Rightarrow> u16 \<Rightarrow> u32 \<Rightarrow> nat \<Rightarrow> gatedescriptor" where
  "SETGATE istrap sel off dpl =
     \<lparr>gd_off_15_0 = ucast (off AND 0xffff), gd_ss = sel, gd_args = 0, gd_rsv1 = 0,
      gd_type = (if istrap then STS_TG32 else STS_IG32), gd_s = 0, gd_dpl = dpl, gd_p = 1,
      gd_off_31_16 = ucast (drop_bit 16 off)\<rparr>"

definition gate_zero :: gatedescriptor where
  "gate_zero = \<lparr>gd_off_15_0 = 0, gd_ss = 0, gd_args = 0, gd_rsv1 = 0, gd_type = 0, gd_s = 0,
                gd_dpl = 0, gd_p = 0, gd_off_31_16 = 0\<rparr>"

record segmentdescriptor =
  sd_lim_15_0 :: u16
  sd_base_15_0 :: u16
  sd_base_23_16 :: u8
  sd_type :: nat
  sd_s :: nat
  sd_dpl :: nat
  sd_p :: nat
  sd_lim_19_16 :: nat
  sd_avl :: nat
  sd_rsv1 :: nat
  sd_db :: nat
  sd_g :: nat
  sd_base_31_24 :: u8

definition SEG_NULL :: segmentdescriptor where
  "SEG_NULL = \<lparr>sd_lim_15_0 = 0, sd_base_15_0 = 0, sd_base_23_16 = 0, sd_type = 0, sd_s = 0,
     sd_dpl = 0, sd_p = 0, sd_lim_19_16 = 0, sd_avl = 0, sd_rsv1 = 0, sd_db = 0, sd_g = 0,
     sd_base_31_24 = 0\<rparr>"

definition SEG :: "nat \<Rightarrow> u32 \<Rightarrow> u32 \<Rightarrow> nat \<Rightarrow> segmentdescriptor" where
  "SEG type base lim dpl =
     \<lparr>sd_lim_15_0 = ucast (drop_bit 12 lim), sd_base_15_0 = ucast base,
      sd_base_23_16 = ucast (drop_bit 16 base), sd_type = type, sd_s = 1, sd_dpl = dpl,
      sd_p = 1, sd_lim_19_16 = unat (drop_bit 28 lim AND 0xF), sd_avl = 0, sd_rsv1 = 0,
      sd_db = 1, sd_g = 1, sd_base_31_24 = ucast (drop_bit 24 base)\<rparr>"

definition SEG16 :: "nat \<Rightarrow> u32 \<Rightarrow> u32 \<Rightarrow> nat \<Rightarrow> segmentdescriptor" where
  "SEG16 type base lim dpl =
     \<lparr>sd_lim_15_0 = ucast lim, sd_base_15_0 = ucast base,
      sd_base_23_16 = ucast (drop_bit 16 base), sd_type = type, sd_s = 1, sd_dpl = dpl,
      sd_p = 1, sd_lim_19_16 = unat (drop_bit 16 lim AND 0xF), sd_avl = 0, sd_rsv1 = 0,
      sd_db = 1, sd_g = 0, sd_base_31_24 = ucast (drop_bit 24 base)\<rparr>"

definition SEGSEL_KERN_CODE :: u16 where "SEGSEL_KERN_CODE = 0x8"
definition SEGSEL_KERN_DATA :: u16 where "SEGSEL_KERN_DATA = 0x10"
definition SEGSEL_APP_CODE :: u16 where "SEGSEL_APP_CODE = 0x18"
definition SEGSEL_APP_DATA :: u16 where "SEGSEL_APP_DATA = 0x20"
definition SEGSEL_TASKSTATE :: u16 where "SEGSEL_TASKSTATE = 0x28"

definition INT_HARDWARE :: nat where "INT_HARDWARE = 32"
definition INT_TIMER :: nat where "INT_TIMER = INT_HARDWARE + 0"
definition INT_GPF :: nat where "INT_GPF = 0xD"
definition INT_PAGEFAULT :: nat where "INT_PAGEFAULT = 0xE"
definition INT_SYS :: nat where "INT_SYS = 48"
definition KERNEL_STACK_TOP :: u32 where "KERNEL_STACK_TOP = 0x80000"

text \<open>
  The addresses the linker chooses: the handlers of \<open>k-interrupt.S\<close> and the task descriptor.
\<close>

record handlers =
  default_int_handler :: u32
  gpf_int_handler :: u32
  pagefault_int_handler :: u32
  timer_int_handler :: u32
  sys_int_handlers :: "nat \<Rightarrow> u32"
  task_descriptor_addr :: u32

record tables =
  segments :: "segmentdescriptor list"
  interrupt_descriptors :: "gatedescriptor list"
  ts_esp0 :: u32
  ts_ss0 :: u16

definition initial_segments :: "segmentdescriptor list" where
  "initial_segments =
     [SEG_NULL, SEG (STA_X OR STA_R) 0 0xFFFFFFFF 0, SEG STA_W 0 0xFFFFFFFF 0,
      SEG (STA_X OR STA_R) 0 0xFFFFFFFF 3, SEG STA_W 0 0xFFFFFFFF 3, SEG_NULL]"

definition sizeof_taskstate :: u32 where "sizeof_taskstate = 104"

primrec set_gates :: "nat list \<Rightarrow> (nat \<Rightarrow> gatedescriptor) \<Rightarrow> gatedescriptor list \<Rightarrow> gatedescriptor list" where
  "set_gates [] g ds = ds"
| "set_gates (i # is) g ds = set_gates is g (ds[i := g i])"

definition segments_init :: "handlers \<Rightarrow> tables \<Rightarrow> tables" where
  "segments_init H T =
     (let ts = (SEG16 STS_T32A (task_descriptor_addr H) sizeof_taskstate 0)\<lparr>sd_s := 0\<rparr>;
          gate = (\<lambda>off dpl. SETGATE False SEGSEL_KERN_CODE off dpl);
          ds = replicate 256 gate_zero;
          ds = set_gates [16..<256] (\<lambda>_. gate (default_int_handler H) 0) ds;
          ds = ds[INT_TIMER := gate (timer_int_handler H) 0];
          ds = ds[INT_GPF := gate (gpf_int_handler H) 0];
          ds = ds[INT_PAGEFAULT := gate (pagefault_int_handler H) 0];
          ds = set_gates [INT_SYS..<INT_SYS + 16] (\<lambda>i. gate (sys_int_handlers H (i - INT_SYS)) 3) ds
      in T\<lparr>segments := (segments T)[unat SEGSEL_TASKSTATE div 8 := ts],
           interrupt_descriptors := ds, ts_esp0 := KERNEL_STACK_TOP,
           ts_ss0 := SEGSEL_KERN_DATA\<rparr>)"

section \<open>Interrupt controller and timer\<close>

definition IO_PIC1 :: nat where "IO_PIC1 = 0x20"
definition IO_PIC2 :: nat where "IO_PIC2 = 0xA0"
definition IRQ_SLAVE :: nat where "IRQ_SLAVE = 2"
definition IO_TIMER1 :: nat where "IO_TIMER1 = 0x40"
definition TIMER_MODE :: nat where "TIMER_MODE = IO_TIMER1 + 3"

definition interrupt_mask :: "'d device \<Rightarrow> u16 \<Rightarrow> 'd \<Rightarrow> 'd" where
  "interrupt_mask D interrupts_enabled d =
     (let masked = NOT interrupts_enabled in
      outbs D [(IO_PIC1 + 1, uint (masked AND 0xFF)),
               (IO_PIC2 + 1, uint (drop_bit 8 masked AND 0xFF))] d)"

definition interrupt_init :: "'d device \<Rightarrow> 'd \<Rightarrow> u16 \<times> 'd" where
  "interrupt_init D d =
     (let enabled = 0;
          d = interrupt_mask D enabled d;
          d = outbs D
            [(IO_PIC1, 0x11), (IO_PIC1 + 1, int INT_HARDWARE), (IO_PIC1 + 1, 2 ^ IRQ_SLAVE),
             (IO_PIC1 + 1, 0x3),
             (IO_PIC2, 0x11), (IO_PIC2 + 1, int INT_HARDWARE + 8), (IO_PIC2 + 1, int IRQ_SLAVE),
             (IO_PIC2 + 1, 0x01),
             (IO_PIC1, 0x68), (IO_PIC1, 0x0a), (IO_PIC2, 0x68), (IO_PIC2, 0x0a)] d
      in (enabled, interrupt_mask D enabled d))"

definition TIMER_FREQ :: int where "TIMER_FREQ = 1193182"

definition TIMER_DIV :: "int \<Rightarrow> int" where
  "TIMER_DIV x = (TIMER_FREQ + x div 2) div x"

definition timer_init :: "'d device \<Rightarrow> int \<Rightarrow> u16 \<Rightarrow> 'd \<Rightarrow> u16 \<times> 'd" where
  "timer_init D rate enabled d =
     (if rate > 0
      then (let d = outbs D [(TIMER_MODE, 0x00 OR 0x04 OR 0x30), (IO_TIMER1, TIMER_DIV rate mod 256),
                             (IO_TIMER1, TIMER_DIV rate div 256)] d;
                enabled = enabled OR push_bit (INT_TIMER - INT_HARDWARE) 1
            in (enabled, interrupt_mask D enabled d))
      else (let enabled = enabled AND NOT (push_bit (INT_TIMER - INT_HARDWARE) 1)
            in (enabled, interrupt_mask D enabled d)))"

definition console_show_cursor :: "'d device \<Rightarrow> int \<Rightarrow> 'd \<Rightarrow> 'd" where
  "console_show_cursor D cpos d =
     (let cpos = (if cpos < 0 \<or> cpos > int (CONSOLE_ROWS * CONSOLE_COLUMNS) then 0 else cpos)
      in outbs D [(0x3D4, 14), (0x3D5, cpos div 256), (0x3D4, 15), (0x3D5, cpos mod 256)] d)"

text \<open>\<open>poweroff\<close> and \<open>reboot\<close> never return; these are their port writes.\<close>

definition poweroff :: "'d device \<Rightarrow> 'd \<Rightarrow> 'd" where
  "poweroff D d = outbs D (map (\<lambda>c. (0x8900, of_char c)) ''Shutdown'') d"

definition reboot :: "'d device \<Rightarrow> 'd \<Rightarrow> 'd" where
  "reboot D d = outb D 0x92 3 d"

section \<open>Registers of a process\<close>

record registers =
  reg_edi :: u32
  reg_esi :: u32
  reg_ebp :: u32
  reg_original_esp :: u32
  reg_ebx :: u32
  reg_edx :: u32
  reg_ecx :: u32
  reg_eax :: u32
  reg_es :: u16
  reg_padding1 :: u16
  reg_ds :: u16
  reg_padding2 :: u16
  reg_intno :: u32
  reg_err :: u32
  reg_eip :: u32
  reg_cs :: u16
  reg_padding3 :: u16
  reg_eflags :: u32
  reg_esp :: u32
  reg_ss :: u16
  reg_padding4 :: u16

definition zero_registers :: registers where
  "zero_registers = \<lparr>reg_edi = 0, reg_esi = 0, reg_ebp = 0, reg_original_esp = 0, reg_ebx = 0,
     reg_edx = 0, reg_ecx = 0, reg_eax = 0, reg_es = 0, reg_padding1 = 0, reg_ds = 0,
     reg_padding2 = 0, reg_intno = 0, reg_err = 0, reg_eip = 0, reg_cs = 0, reg_padding3 = 0,
     reg_eflags = 0, reg_esp = 0, reg_ss = 0, reg_padding4 = 0\<rparr>"

definition EFLAGS_IF :: u32 where "EFLAGS_IF = 0x200"
definition EFLAGS_IOPL_3 :: u32 where "EFLAGS_IOPL_3 = 0x3000"
definition PROCINIT_ALLOW_PROGRAMMED_IO :: u32 where "PROCINIT_ALLOW_PROGRAMMED_IO = 0x01"
definition PROCINIT_DISABLE_INTERRUPTS :: u32 where "PROCINIT_DISABLE_INTERRUPTS = 0x02"

definition init_registers :: "u32 \<Rightarrow> registers" where
  "init_registers flags =
     (let r = zero_registers\<lparr>reg_cs := SEGSEL_APP_CODE OR 3, reg_ds := SEGSEL_APP_DATA OR 3,
                reg_es := SEGSEL_APP_DATA OR 3, reg_ss := SEGSEL_APP_DATA OR 3,
                reg_eflags := EFLAGS_IF\<rparr>;
          r = (if flags AND PROCINIT_ALLOW_PROGRAMMED_IO \<noteq> 0
               then r\<lparr>reg_eflags := reg_eflags r OR EFLAGS_IOPL_3\<rparr> else r)
      in if flags AND PROCINIT_DISABLE_INTERRUPTS \<noteq> 0
         then r\<lparr>reg_eflags := reg_eflags r AND NOT EFLAGS_IF\<rparr> else r)"

end
