(* ===== verification/Keyboard.thy ===== *)
theory Keyboard
  imports Hardware
begin

text \<open>
  The keyboard driver of \<open>pset3/k-hardware.c\<close>, the control keys, the parallel-port log and
  the kernel's panic message.
\<close>

section \<open>Key maps\<close>

definition MOD_SHIFT :: u8 where "MOD_SHIFT = 1"
definition MOD_CONTROL :: u8 where "MOD_CONTROL = 2"
definition MOD_CAPSLOCK :: u8 where "MOD_CAPSLOCK = 8"

definition KEY_SHIFT :: nat where "KEY_SHIFT = 250"
definition KEY_CONTROL :: nat where "KEY_CONTROL = 251"
definition KEY_ALT :: nat where "KEY_ALT = 252"
definition KEY_CAPSLOCK :: nat where "KEY_CAPSLOCK = 253"
definition KEY_NUMLOCK :: nat where "KEY_NUMLOCK = 254"
definition KEY_SCROLLLOCK :: nat where "KEY_SCROLLLOCK = 255"

definition CKEY :: "nat \<Rightarrow> nat" where "CKEY cn = 0x80 + cn"

abbreviation ch_nat :: "char \<Rightarrow> nat" where "ch_nat c \<equiv> of_char c"

definition keymap :: "nat list" where
  "keymap =
     [0, 27, CKEY 0, CKEY 1, CKEY 2, CKEY 3, CKEY 4, CKEY 5,
      CKEY 6, CKEY 7, CKEY 8, CKEY 9, CKEY 10, CKEY 11, 8, 9] @
     map ch_nat ''qwertyuiop'' @ [CKEY 12, CKEY 13, CKEY 14, KEY_CONTROL] @ map ch_nat ''as'' @
     map ch_nat ''dfghjkl'' @ [CKEY 15, CKEY 16, CKEY 17, KEY_SHIFT, CKEY 18] @
     map ch_nat ''zxcv'' @
     map ch_nat ''bnm'' @ [CKEY 19, CKEY 20, CKEY 21, KEY_SHIFT] @ map ch_nat ''*'' @
     [KEY_ALT, 32, KEY_CAPSLOCK, 0, 0, 0, 0, 0] @
     [0, 0, 0, 0, 0, KEY_NUMLOCK, KEY_SCROLLLOCK] @ map ch_nat ''789-456+1'' @
     map ch_nat ''230.'' @ replicate 12 0 @
     replicate 16 0 @ replicate 16 0 @ replicate 16 0 @
     replicate 12 0 @ [CKEY 14, KEY_CONTROL, 0, 0] @
     replicate 16 0 @
     [0, 0, 0, 0, 0] @ map ch_nat ''/'' @ [0, 0, KEY_ALT, 0, 0, 0, 0, 0, 0, 0] @
     [0, 0, 0, 0, 0, 0, 0, 196, 192, 198, 0, 195, 0, 193, 0, 197] @
     [194, 199, 200, 201] @ replicate 12 0 @
     replicate 16 0 @ replicate 16 0"

definition complex_keymap :: "nat list list" where
  "complex_keymap =
     [map ch_nat ''1!'' @ [0, 0], map ch_nat ''2@'' @ [0, 0], map ch_nat ''3#'' @ [0, 0],
      map ch_nat ''4$'' @ [0, 0], map ch_nat ''5%'' @ [0, 0], map ch_nat ''6^'' @ [0, 30],
      map ch_nat ''7&'' @ [0, 0], map ch_nat ''8*'' @ [0, 0], map ch_nat ''9('' @ [0, 0],
      map ch_nat ''0)'' @ [0, 0], map ch_nat ''-_'' @ [0, 31], map ch_nat ''=+'' @ [0, 0],
      map ch_nat ''[{'' @ [27, 0], map ch_nat '']}'' @ [29, 0], [10, 10, 13, 13],
      map ch_nat '';:'' @ [0, 0], [39, 34, 0, 0], [96, 126, 0, 0],
      [92, 124, 28, 0], map ch_nat '',<'' @ [0, 0], map ch_nat ''.>'' @ [0, 0],
      map ch_nat ''/?'' @ [0, 0]]"

section \<open>keyboard_readc\<close>

record keyboard =
  modifiers :: u8
  last_escape :: u8

definition KEYBOARD_STATUSREG :: nat where "KEYBOARD_STATUSREG = 0x64"
definition KEYBOARD_STATUS_READY :: u8 where "KEYBOARD_STATUS_READY = 0x01"
definition KEYBOARD_DATAREG :: nat where "KEYBOARD_DATAREG = 0x60"

text \<open>What \<open>keyboard_readc\<close> does with the byte it has read.\<close>

definition key_press :: "nat \<Rightarrow> u8 \<Rightarrow> nat \<times> u8" where
  "key_press ch mods =
     (if ch_nat CHR ''a'' \<le> ch \<and> ch \<le> ch_nat CHR ''z''
      then (if mods AND MOD_CONTROL \<noteq> 0 then ch - 0x60
            else if (mods AND MOD_SHIFT = 0) \<noteq> (mods AND MOD_CAPSLOCK = 0) then ch - 0x20
            else ch, mods)
      else if KEY_CAPSLOCK \<le> ch then (0, mods XOR push_bit (ch - KEY_SHIFT) 1)
      else if KEY_SHIFT \<le> ch then (0, mods OR push_bit (ch - KEY_SHIFT) 1)
      else if CKEY 0 \<le> ch \<and> ch \<le> CKEY 21
      then (complex_keymap ! (ch - CKEY 0) ! unat (mods AND 3), mods)
      else if ch < 0x80 \<and> mods AND MOD_CONTROL \<noteq> 0 then (0, mods)
      else (ch, mods))"

definition key_release :: "nat \<Rightarrow> u8 \<Rightarrow> u8" where
  "key_release ch mods =
     (if KEY_SHIFT \<le> ch \<and> ch < KEY_CAPSLOCK then mods AND NOT (push_bit (ch - KEY_SHIFT) 1)
      else mods)"

definition keyboard_data :: "u8 \<Rightarrow> keyboard \<Rightarrow> int \<times> keyboard" where
  "keyboard_data data k =
     (let escape = last_escape k; k = k\<lparr>last_escape := 0\<rparr> in
      if data = 0xE0 then (0, k\<lparr>last_escape := 0x80\<rparr>)
      else if data AND 0x80 \<noteq> 0
      then (0, k\<lparr>modifiers := key_release (keymap ! unat ((data AND 0x7F) OR escape)) (modifiers k)\<rparr>)
      else (let (ch, m) = key_press (keymap ! unat (data OR escape)) (modifiers k)
            in (int ch, k\<lparr>modifiers := m\<rparr>)))"

definition keyboard_readc :: "'d device \<Rightarrow> keyboard \<Rightarrow> 'd \<Rightarrow> int \<times> keyboard \<times> 'd" where
  "keyboard_readc D k d =
     (let (status, d) = inb D KEYBOARD_STATUSREG d in
      if status AND KEYBOARD_STATUS_READY = 0 then (-1, k, d)
      else (let (data, d) = inb D KEYBOARD_DATAREG d; (ch, k) = keyboard_data data k
            in (ch, k, d)))"

section \<open>Control keys\<close>

datatype key_action = Continue | Reboot string | Shutdown

definition key_command :: "int \<Rightarrow> key_action" where
  "key_command c =
     (if c = of_char CHR ''a'' \<or> c = of_char CHR ''f'' \<or> c = of_char CHR ''e''
      then Reboot (if c = of_char CHR ''a'' then ''allocator''
                   else if c = of_char CHR ''e'' then ''forkexit'' else ''fork'')
      else if c = 0x03 \<or> c = of_char CHR ''q'' then Shutdown else Continue)"

definition check_keyboard ::
    "'d device \<Rightarrow> keyboard \<Rightarrow> 'd \<Rightarrow> key_action \<times> keyboard \<times> 'd" where
  "check_keyboard D k d =
     (let (c, k, d) = keyboard_readc D k d; act = key_command c
      in (act, k, if act = Shutdown then poweroff D d else d))"

text \<open>\<open>fail\<close> polls until a control key is typed; \<open>None\<close> when none ever is.\<close>

partial_function (option) fail_loop ::
    "'d device \<Rightarrow> keyboard \<Rightarrow> 'd \<Rightarrow> (key_action \<times> keyboard \<times> 'd) option" where
  "fail_loop D k d =
     (let (act, k, d) = check_keyboard D k d
      in if act = Continue then fail_loop D k d else Some (act, k, d))"

section \<open>The log\<close>

definition IO_PARALLEL1_DATA :: nat where "IO_PARALLEL1_DATA = 0x378"
definition IO_PARALLEL1_STATUS :: nat where "IO_PARALLEL1_STATUS = 0x379"
definition IO_PARALLEL_STATUS_BUSY :: u8 where "IO_PARALLEL_STATUS_BUSY = 0x80"
definition IO_PARALLEL1_CONTROL :: nat where "IO_PARALLEL1_CONTROL = 0x37A"
definition IO_PARALLEL_CONTROL_SELECT :: int where "IO_PARALLEL_CONTROL_SELECT = 0x08"
definition IO_PARALLEL_CONTROL_INIT :: int where "IO_PARALLEL_CONTROL_INIT = 0x04"
definition IO_PARALLEL_CONTROL_STROBE :: int where "IO_PARALLEL_CONTROL_STROBE = 0x01"

definition delay :: "'d device \<Rightarrow> 'd \<Rightarrow> 'd" where
  "delay D d = ((\<lambda>d. snd (inb D 0x84 d)) ^^ 4) d"

primrec parallel_wait :: "'d device \<Rightarrow> nat \<Rightarrow> 'd \<Rightarrow> 'd" where
  "parallel_wait D 0 d = d"
| "parallel_wait D (Suc n) d =
     (let (status, d) = inb D IO_PARALLEL1_STATUS d in
      if status AND IO_PARALLEL_STATUS_BUSY = 0 then parallel_wait D n (delay D d) else d)"

record 'd parallel_port =
  initialized :: bool
  dev :: 'd

definition parallel_port_putc ::
    "'d device \<Rightarrow> 'd parallel_port \<Rightarrow> char \<Rightarrow> u32 \<Rightarrow> 'd parallel_port" where
  "parallel_port_putc D p c color =
     (let d = (if initialized p then dev p else outb D IO_PARALLEL1_CONTROL 0 (dev p));
          d = parallel_wait D 12800 d;
          d = outbs D
            [(IO_PARALLEL1_DATA, of_char c),
             (IO_PARALLEL1_CONTROL, IO_PARALLEL_CONTROL_SELECT OR IO_PARALLEL_CONTROL_INIT
                OR IO_PARALLEL_CONTROL_STROBE),
             (IO_PARALLEL1_CONTROL, IO_PARALLEL_CONTROL_SELECT OR IO_PARALLEL_CONTROL_INIT)] d
      in p\<lparr>initialized := True, dev := d\<rparr>)"

definition log_vprintf ::
    "'d device \<Rightarrow> mem \<Rightarrow> string \<Rightarrow> u32 list \<Rightarrow> 'd parallel_port \<Rightarrow> 'd parallel_port option" where
  "log_vprintf D m fmt args p = printer_vprintf (parallel_port_putc D) m 0 fmt args p"

section \<open>panic\<close>

definition CCOL :: "int \<Rightarrow> int" where "CCOL cpos = cpos mod 80"

text \<open>What \<open>panic\<close> prints on the console and in the log before it waits for a control key.\<close>

definition kernel_panic ::
    "'d device \<Rightarrow> mem \<Rightarrow> string \<Rightarrow> u32 list \<Rightarrow> u16 list \<Rightarrow> 'd parallel_port
     \<Rightarrow> (u16 list \<times> 'd parallel_port) option" where
  "kernel_panic D m fmt args cells p = do {
     (cells, cpos) \<leftarrow> console_vprintf m cells (CPOS 23 0) 0xC000 ''PANIC: '' [];
     p \<leftarrow> log_vprintf D m ''PANIC: '' [] p;
     (cells, cpos) \<leftarrow> console_vprintf m cells cpos 0xC000 fmt args;
     p \<leftarrow> log_vprintf D m fmt args p;
     (if CCOL cpos \<noteq> 0
      then do {
        (cells, _) \<leftarrow> console_vprintf m cells cpos 0xC000 [CHR 0x0A] [];
        p \<leftarrow> log_vprintf D m [CHR 0x0A] [] p;
        Some (cells, p) }
      else Some (cells, p)) }"

end
