(* ===== verification/HardwareProps.thy ===== *)
theory HardwareProps
  imports Keyboard
begin

text \<open>
  Properties of \<open>pset3/k-hardware.c\<close>: which interrupts user code may raise, what the timer and
  the log write to their ports, what the keyboard driver returns, and the privileges a
  process starts with. A device that answers reads from a table and records all writes
  makes the port traffic visible.
\<close>

definition trace_device :: "(nat \<Rightarrow> u8) \<Rightarrow> (nat \<times> u8) list device" where
  "trace_device answers =
     \<lparr>dev_in = (\<lambda>port d. (answers port, d)), dev_out = (\<lambda>port v d. d @ [(port, v)])\<rparr>"

lemma trace_simps [simp]:
  "inb (trace_device a) port d = (a port, d)"
  "outb (trace_device a) port v d = d @ [(port, word_of_int v)]"
  by (simp_all add: trace_device_def inb_def outb_def)

lemma trace_outbs [simp]:
  "outbs (trace_device a) es d = d @ map (\<lambda>(p, v). (p, word_of_int v)) es"
  by (induction es arbitrary: d) auto

section \<open>Interrupt gates\<close>

lemma length_set_gates [simp]: "length (set_gates is g ds) = length ds"
  by (induction "is" arbitrary: ds) auto

lemma nth_set_gates:
  "j < length ds \<Longrightarrow> set_gates is g ds ! j = (if j \<in> set is then g j else ds ! j)"
  by (induction "is" arbitrary: ds) (auto simp: nth_list_update)

definition gate_offset :: "gatedescriptor \<Rightarrow> u32" where
  "gate_offset g = push_bit 16 (ucast (gd_off_31_16 g)) OR ucast (gd_off_15_0 g)"

lemma gate_offset_SETGATE [simp]: "gate_offset (SETGATE t sel off dpl) = off"
proof (rule bit_word_eqI)
  fix n assume "n < LENGTH(32)"
  have ff: "(65535 :: u32) = mask 16" by (simp add: mask_eq_exp_minus_1)
  show "bit (gate_offset (SETGATE t sel off dpl)) n = bit off n"
    using \<open>n < LENGTH(32)\<close> unfolding gate_offset_def SETGATE_def ff
    by (cases "n < 16") (auto simp: bit_simps)
qed

lemma SETGATE_simps [simp]:
  "gd_p (SETGATE t sel off dpl) = 1" "gd_dpl (SETGATE t sel off dpl) = dpl"
  "gd_ss (SETGATE t sel off dpl) = sel" "gd_type (SETGATE False sel off dpl) = STS_IG32"
  "gd_p gate_zero = 0" "gd_dpl gate_zero = 0"
  by (simp_all add: SETGATE_def gate_zero_def)

lemma idt_entry:
  assumes "i < 256"
  shows "interrupt_descriptors (segments_init H T) ! i =
    (if i \<in> {48..<64} then SETGATE False SEGSEL_KERN_CODE (sys_int_handlers H (i - 48)) 3
     else if i = 14 then SETGATE False SEGSEL_KERN_CODE (pagefault_int_handler H) 0
     else if i = 13 then SETGATE False SEGSEL_KERN_CODE (gpf_int_handler H) 0
     else if i = 32 then SETGATE False SEGSEL_KERN_CODE (timer_int_handler H) 0
     else if 16 \<le> i then SETGATE False SEGSEL_KERN_CODE (default_int_handler H) 0
     else gate_zero)"
  using assms
  by (simp add: segments_init_def Let_def nth_set_gates nth_list_update INT_SYS_def INT_GPF_def
      INT_PAGEFAULT_def INT_TIMER_def INT_HARDWARE_def del: upt_Suc upt_rec_numeral)

text \<open>
  After \<open>segments_init\<close> user code (privilege level 3) can raise exactly the 16 system-call
  vectors; every gate that is present enters the kernel code segment at the handler meant
  for it, with interrupts disabled, and the first 16 vectors other than 13 and 14 are absent.
\<close>

theorem idt_user_callable:
  assumes "i < 256"
  shows "let g = interrupt_descriptors (segments_init H T) ! i in
    (gd_p g = 1 \<and> gd_dpl g = 3 \<longleftrightarrow> 48 \<le> i \<and> i < 64) \<and>
    (gd_p g = 0 \<longleftrightarrow> i < 16 \<and> i \<noteq> 13 \<and> i \<noteq> 14) \<and>
    (gd_p g = 1 \<longrightarrow> gd_ss g = SEGSEL_KERN_CODE \<and> gd_type g = STS_IG32 \<and>
       gate_offset g =
         (if 48 \<le> i \<and> i < 64 then sys_int_handlers H (i - 48)
          else if i = 14 then pagefault_int_handler H
          else if i = 13 then gpf_int_handler H
          else if i = 32 then timer_int_handler H else default_int_handler H))"
  unfolding idt_entry [OF assms] Let_def by auto

text \<open>Handlers at distinct addresses, and tables before start-up.\<close>

definition some_handlers :: handlers where
  "some_handlers = \<lparr>default_int_handler = 0x40000, gpf_int_handler = 0x40010, pagefault_int_handler = 0x40020,
     timer_int_handler = 0x40030, sys_int_handlers = (\<lambda>i. 0x41000 + 0x10 * word_of_nat i),
     task_descriptor_addr = 0x50000\<rparr>"

definition raw_tables :: tables where
  "raw_tables = \<lparr>segments = initial_segments, interrupt_descriptors = replicate 256 gate_zero, ts_esp0 = 0, ts_ss0 = 0\<rparr>"

theorem idt_user_callable_witness:
  "let g = interrupt_descriptors (segments_init some_handlers raw_tables) ! 51 in
     gd_p g = 1 \<and> gd_dpl g = 3 \<and> gate_offset g = 0x41030"
proof -
  have "(51 :: nat) < 256" by simp
  from idt_user_callable [OF this, of some_handlers raw_tables] show ?thesis
    unfolding Let_def by (simp add: some_handlers_def)
qed

lemma segment_table:
  assumes "segments T = initial_segments"
  shows "map sd_dpl (segments (segments_init H T)) = [0, 0, 0, 3, 3, 0]"
    and "sd_type (segments (segments_init H T) ! 5) = STS_T32A"
    and "sd_s (segments (segments_init H T) ! 5) = 0"
  using assms
  by (simp_all add: segments_init_def Let_def initial_segments_def SEG_NULL_def SEG_def SEG16_def
      SEGSEL_TASKSTATE_def)

section \<open>Timer\<close>

lemma int_div_less:
  fixes a b n :: int
  assumes "a < n * b" "0 < b"
  shows "a div b < n"
proof (rule ccontr)
  assume "\<not> a div b < n"
  then have "n * b \<le> a div b * b" using assms(2) by (intro mult_right_mono) simp_all
  also have "\<dots> \<le> a" using div_mult_mod_eq [of a b] pos_mod_sign [OF assms(2), of a] by linarith
  finally show False using assms(1) by simp
qed

text \<open>
  \<open>timer_init\<close> at a rate of 19 to 1193182 Hz programs the counter with the low byte and
  then the high byte of the divisor, and unmasks the timer alone besides what was enabled;
  below 19 Hz the divisor does not fit the counter.
\<close>

theorem timer_init_divisor:
  assumes "19 \<le> rate" "rate \<le> TIMER_FREQ"
  shows "\<exists>lo hi. timer_init (trace_device a) rate enabled d =
      (enabled OR 1, d @ [(TIMER_MODE, 0x34), (IO_TIMER1, lo), (IO_TIMER1, hi),
         (IO_PIC1 + 1, ucast (NOT (enabled OR 1) AND 0xFF)),
         (IO_PIC2 + 1, ucast (drop_bit 8 (NOT (enabled OR 1)) AND 0xFF))]) \<and>
    uint lo + 256 * uint hi = TIMER_DIV rate"
proof -
  have pos: "0 \<le> TIMER_DIV rate"
    using assms by (simp add: TIMER_DIV_def TIMER_FREQ_def pos_imp_zdiv_nonneg_iff)
  have "TIMER_FREQ + rate div 2 < 65536 * rate"
    using assms by (simp add: TIMER_FREQ_def)
  then have lt: "TIMER_DIV rate < 65536"
    unfolding TIMER_DIV_def using assms by (intro int_div_less) simp_all
  let ?lo = "word_of_int (TIMER_DIV rate mod 256) :: u8"
  let ?hi = "word_of_int (TIMER_DIV rate div 256) :: u8"
  have hi: "0 \<le> TIMER_DIV rate div 256" "TIMER_DIV rate div 256 < 256"
    using pos int_div_less [of "TIMER_DIV rate" 256 256] lt
    by (simp_all add: pos_imp_zdiv_nonneg_iff)
  have "uint ?lo = TIMER_DIV rate mod 256" "uint ?hi = TIMER_DIV rate div 256"
    using hi by (simp_all add: uint_word_of_int_eq take_bit_int_eq_self)
  then have "uint ?lo + 256 * uint ?hi = TIMER_DIV rate" by simp
  then show ?thesis
    using assms
    by (intro exI [of _ ?lo] exI [of _ ?hi])
      (simp add: timer_init_def Let_def interrupt_mask_def INT_TIMER_def)
qed

text \<open>The kernel's rate: 100 Hz gives the divisor 11932 = 0x2E9C.\<close>

theorem timer_init_divisor_witness:
  "\<exists>lo hi. timer_init (trace_device (\<lambda>_. 0)) 100 0 [] =
      (1, [(TIMER_MODE, 0x34), (IO_TIMER1, lo), (IO_TIMER1, hi),
         (IO_PIC1 + 1, 0xFE), (IO_PIC2 + 1, 0xFF)]) \<and> uint lo + 256 * uint hi = 11932"
  using timer_init_divisor [of 100 "\<lambda>_. 0" 0 "[]"] by (simp add: TIMER_FREQ_def TIMER_DIV_def)

section \<open>The log\<close>

definition data_writes :: "(nat \<times> u8) list \<Rightarrow> u8 list" where
  "data_writes d = map snd (filter (\<lambda>e. fst e = IO_PARALLEL1_DATA) d)"

lemma parallel_wait_trace: "parallel_wait (trace_device a) n d = d"
proof (induction n arbitrary: d)
  case (Suc n)
  have "delay (trace_device a) d = d" by (simp add: delay_def eval_nat_numeral)
  with Suc show ?case by simp
qed simp

lemma parallel_port_putc_trace:
  "data_writes (dev (parallel_port_putc (trace_device a) p c k)) =
     data_writes (dev p) @ [word_of_int (of_char c)]"
  by (simp add: parallel_port_putc_def Let_def parallel_wait_trace data_writes_def
      IO_PARALLEL1_DATA_def IO_PARALLEL1_CONTROL_def)

text \<open>
  Whatever the parallel port answers, \<open>log_vprintf\<close> writes exactly the formatted text to its
  data port, one byte per character and in order.
\<close>

theorem log_vprintf_text:
  "map_option (\<lambda>p. data_writes (dev p)) (log_vprintf (trace_device a) m fmt args p) =
     map_option (\<lambda>out. data_writes (dev p) @ map (\<lambda>(c, k). word_of_int (of_char c)) out)
       (vformat m 0 fmt args)"
proof -
  have "data_writes (dev (foldl (\<lambda>p (c, k). parallel_port_putc (trace_device a) p c k) p out)) =
      data_writes (dev p) @ map (\<lambda>(c, k). word_of_int (of_char c)) out" for out
    by (induction out arbitrary: p) (auto simp: parallel_port_putc_trace split_beta)
  then show ?thesis
    by (simp add: log_vprintf_def printer_vprintf_feed option.map_comp comp_def)
qed

text \<open>The parallel port is a printer that stays initialised once it is.\<close>

interpretation parallel_sink: printer_sink "parallel_port_putc D" initialized
  for D :: "'d device"
  by unfold_locales (simp add: parallel_port_putc_def Let_def)

section \<open>Cursor\<close>

lemma console_show_cursor_bytes:
  assumes "0 \<le> cpos" "cpos \<le> 2000"
  shows "console_show_cursor (trace_device a) cpos d =
    d @ [(0x3D4, 14), (0x3D5, word_of_int (cpos div 256)), (0x3D4, 15),
         (0x3D5, word_of_int (cpos mod 256))]"
  using assms by (simp add: console_show_cursor_def CONSOLE_ROWS_def CONSOLE_COLUMNS_def)

section \<open>Keyboard\<close>

lemma length_keymap: "length keymap = 256"
  by (simp add: keymap_def)

definition plain_key :: "nat \<Rightarrow> bool" where
  "plain_key ch \<longleftrightarrow> ch < 128 \<or> (192 \<le> ch \<and> ch \<le> 201)"

lemma keymap_entries:
  "\<forall>ch \<in> set keymap. plain_key ch \<or> (CKEY 0 \<le> ch \<and> ch \<le> CKEY 21) \<or> KEY_SHIFT \<le> ch \<and> ch \<le> 255"
  by (simp add: keymap_def plain_key_def CKEY_def KEY_SHIFT_def KEY_CONTROL_def KEY_ALT_def
      KEY_CAPSLOCK_def KEY_NUMLOCK_def KEY_SCROLLLOCK_def)

lemma complex_entries:
  "length complex_keymap = 22" "\<forall>row \<in> set complex_keymap. length row = 4 \<and> (\<forall>ch \<in> set row. ch < 128)"
  by (simp_all add: complex_keymap_def)

lemma and3_less: "unat ((m :: u8) AND 3) < 4"
proof -
  have "m AND 3 \<le> 3" by (rule word_and_le1)
  then have "unat (m AND 3) \<le> unat (3 :: u8)" by (simp only: word_le_nat_alt)
  then show ?thesis by simp
qed

lemma key_press_plain:
  assumes "ch \<in> set keymap"
  shows "plain_key (fst (key_press ch m))"
proof -
  have "complex_keymap ! i ! unat (m AND 3) < 128" if "i < 22" for i
    using that complex_entries and3_less [of m] by (simp add: all_set_conv_all_nth)
  from this [of "ch - CKEY 0"] bspec [OF keymap_entries assms] show ?thesis
    by (auto simp: key_press_def plain_key_def CKEY_def KEY_SHIFT_def KEY_CAPSLOCK_def)
qed

text \<open>
  for every byte the keyboard can send and every state of the driver, \<open>keyboard_readc\<close>
  reads its tables in bounds and returns an ASCII code or one of the ten special keys of
  \<open>kernel.h\<close> (0 for keys that only change the state); the escape prefix is remembered for
  exactly one byte.
\<close>

theorem keyboard_data_result:
  assumes "last_escape k \<in> {0, 0x80}"
  shows "let (ch, k') = keyboard_data data k in
    0 \<le> ch \<and> plain_key (nat ch) \<and> last_escape k' = (if data = 0xE0 then 0x80 else 0) \<and>
    unat (data OR last_escape k) < length keymap"
proof -
  have idx: "unat (x :: u8) < length keymap" for x
    using unat_lt2p [of x] by (simp add: length_keymap)
  show ?thesis
    using key_press_plain [of "keymap ! unat (data OR last_escape k)" "modifiers k"] idx
    by (auto simp: keyboard_data_def Let_def plain_key_def split: prod.splits)
qed

theorem keyboard_data_result_witness:
  "let (ch, k') = keyboard_data 0x48 \<lparr>modifiers = 0, last_escape = 0x80\<rparr> in
     ch = 192 \<and> 0 \<le> ch \<and> plain_key (nat ch) \<and> last_escape k' = 0"
proof -
  have "fst (keyboard_data 0x48 \<lparr>modifiers = 0, last_escape = 0x80\<rparr>) = 192" by code_simp
  then show ?thesis
    using keyboard_data_result [of "\<lparr>modifiers = 0, last_escape = 0x80\<rparr>" "0x48"]
    by (auto simp: Let_def split: prod.splits)
qed

text \<open>
  Letters. Without Control a letter key gives the capital letter exactly when one of Shift
  and Caps Lock is active but not both; with Control it gives the control code 1 to 26.
\<close>

theorem key_press_letter:
  assumes "97 \<le> ch" "ch \<le> 122"
  shows "key_press ch m =
    (if m AND MOD_CONTROL \<noteq> 0 then ch - 96
     else if (m AND MOD_SHIFT \<noteq> 0) \<noteq> (m AND MOD_CAPSLOCK \<noteq> 0) then ch - 32 else ch, m)"
  using assms by (simp add: key_press_def)

theorem key_press_letter_witness: "key_press 99 2 = (3, 2) \<and> key_press 99 9 = (99, 9)"
  using key_press_letter [of 99 2] key_press_letter [of 99 9]
  by (simp add: MOD_CONTROL_def MOD_SHIFT_def MOD_CAPSLOCK_def)

text \<open>
  Releasing Shift, Control or Alt after pressing it clears exactly its modifier bit, and
  pressing a lock key twice restores the modifiers.
\<close>

theorem modifier_keys:
  "list_all (\<lambda>ch. key_release ch (snd (key_press ch m)) = m AND NOT (push_bit (ch - KEY_SHIFT) 1))
     [KEY_SHIFT, KEY_CONTROL, KEY_ALT] \<and>
   list_all (\<lambda>ch. snd (key_press ch (snd (key_press ch m))) = m)
     [KEY_CAPSLOCK, KEY_NUMLOCK, KEY_SCROLLLOCK]"
proof -
  have clear: "(m OR b) AND NOT b = m AND NOT b" for b :: u8
    by (rule bit_word_eqI) (auto simp: bit_simps)
  have toggle: "(m XOR b) XOR b = m" for b :: u8
    by (rule bit_word_eqI) (auto simp: bit_simps)
  show ?thesis
    using clear [of 1] clear [of 2] clear [of 4]
    by (simp add: toggle key_press_def key_release_def KEY_SHIFT_def KEY_CONTROL_def KEY_ALT_def
        KEY_CAPSLOCK_def KEY_NUMLOCK_def KEY_SCROLLLOCK_def)
qed

section \<open>Privileges\<close>

text \<open>
  A process starts in user mode with user segments and zeroed general registers; it may
  do port I/O exactly when the first flag is set and runs with interrupts enabled exactly
  when the second is not.
\<close>

theorem init_registers_user:
  "let r = init_registers flags in
     reg_cs r AND 3 = 3 \<and> reg_ss r AND 3 = 3 \<and> reg_ds r = reg_ss r \<and> reg_es r = reg_ss r \<and>
     reg_eax r = 0 \<and> reg_eip r = 0 \<and>
     (reg_eflags r AND EFLAGS_IOPL_3 = (if flags AND 1 \<noteq> 0 then EFLAGS_IOPL_3 else 0)) \<and>
     (reg_eflags r AND EFLAGS_IF = (if flags AND 2 \<noteq> 0 then 0 else EFLAGS_IF))"
  by (simp add: init_registers_def Let_def zero_registers_def SEGSEL_APP_CODE_def
      SEGSEL_APP_DATA_def EFLAGS_IF_def EFLAGS_IOPL_3_def PROCINIT_ALLOW_PROGRAMMED_IO_def
      PROCINIT_DISABLE_INTERRUPTS_def)

end
