(* ===== verification/VirtualMemory.thy ===== *)
theory VirtualMemory
  imports MemRegions Hardware
begin

text \<open>
  Page directories and page tables in physical memory (\<open>pset3/k-hardware.c\<close>:
  \<open>virtual_memory_init\<close>, \<open>virtual_memory_map\<close>, \<open>virtual_memory_lookup\<close>). The kernel runs on
  an identity mapping of the 2 MB of physical memory, so its accesses are accesses to
  physical memory below \<open>MEMSIZE_PHYSICAL\<close>; one above it, like a failed assertion, is \<open>None\<close>.
  The facts used of byte memory (\<open>agree\<close>, \<open>region\<close>) come from \<open>MemRegions\<close>.
\<close>

section \<open>Entries\<close>

definition PAGESIZE :: u32 where "PAGESIZE = 0x1000"
definition PAGETABLE_NENTRIES :: nat where "PAGETABLE_NENTRIES = 1024"
definition PAGENUMBER :: "u32 \<Rightarrow> u32" where "PAGENUMBER p = drop_bit 12 p"
definition PTE_P :: u32 where "PTE_P = 1"
definition PTE_W :: u32 where "PTE_W = 2"
definition PTE_U :: u32 where "PTE_U = 4"
definition PTE_ADDR :: "u32 \<Rightarrow> u32" where "PTE_ADDR e = e AND NOT 0xFFF"
definition MEMSIZE_PHYSICAL :: u32 where "MEMSIZE_PHYSICAL = 0x200000"
definition MEMSIZE_VIRTUAL :: u32 where "MEMSIZE_VIRTUAL = 0x300000"
definition NPAGES :: nat where "NPAGES = 512"

definition kread :: "mem \<Rightarrow> u32 \<Rightarrow> u32 option" where
  "kread m a = (if unat a + 4 \<le> unat MEMSIZE_PHYSICAL then Some (load32 m a) else None)"

definition kwrite :: "mem \<Rightarrow> u32 \<Rightarrow> u32 \<Rightarrow> mem option" where
  "kwrite m a v = (if unat a + 4 \<le> unat MEMSIZE_PHYSICAL then Some (store32 m a v) else None)"

definition assertion :: "bool \<Rightarrow> unit option" where
  "assertion b = (if b then Some () else None)"

section \<open>Mapping and lookup\<close>

primrec map_loop ::
    "u32 \<Rightarrow> u32 \<Rightarrow> nat \<Rightarrow> u32 \<Rightarrow> u32 \<Rightarrow> int \<Rightarrow> u32 \<Rightarrow> mem \<Rightarrow> mem option" where
  "map_loop pagedir perm 0 va pa pagetable_index pagetable m = Some m"
| "map_loop pagedir perm (Suc n) va pa pagetable_index pagetable m = do {
     (pagetable_index, pagetable) \<leftarrow>
       (if uint (drop_bit 22 va) \<noteq> pagetable_index
        then do {
          ptaddr \<leftarrow> kread m (pagedir + 4 * drop_bit 22 va);
          assertion (ptaddr AND PTE_P \<noteq> 0);
          e \<leftarrow> kread m (pagedir + 4 * drop_bit 22 ptaddr);
          assertion (e AND PTE_P \<noteq> 0);
          Some (uint (drop_bit 22 va), PTE_ADDR ptaddr) }
        else Some (pagetable_index, pagetable));
     m \<leftarrow> kwrite m (pagetable + 4 * (drop_bit 12 va AND 0x3FF)) (pa OR perm);
     map_loop pagedir perm n (va + PAGESIZE) (pa + PAGESIZE) pagetable_index pagetable m }"

definition virtual_memory_map ::
    "u32 \<Rightarrow> u32 \<Rightarrow> u32 \<Rightarrow> u32 \<Rightarrow> u32 \<Rightarrow> mem \<Rightarrow> mem option" where
  "virtual_memory_map pagedir va pa sz perm m = do {
     assertion (va mod PAGESIZE = 0 \<and> pa mod PAGESIZE = 0 \<and> sz mod PAGESIZE = 0);
     assertion (va + sz \<ge> va \<and> pa + sz \<ge> pa);
     assertion (0 \<le> sint perm \<and> sint perm < 0x1000);
     map_loop pagedir perm (unat sz div 4096) va pa (- 1) 0 m }"

definition virtual_memory_lookup :: "mem \<Rightarrow> u32 \<Rightarrow> u32 \<Rightarrow> u32 option" where
  "virtual_memory_lookup m pagedir va = do {
     ptaddr \<leftarrow> kread m (pagedir + 4 * drop_bit 22 va);
     ptaddr \<leftarrow>
       (if ptaddr AND PTE_P \<noteq> 0
        then do {
          e \<leftarrow> kread m (PTE_ADDR ptaddr + 4 * (drop_bit 12 va AND 0x3FF));
          Some (e AND (ptaddr OR NOT (PTE_W OR PTE_U))) }
        else Some ptaddr);
     Some (if ptaddr AND PTE_P \<noteq> 0 then ptaddr else 0) }"

text \<open>
  The linker places \<open>kernel_pagedir\<close> and \<open>kernel_pagetable0\<close>; the control registers are the
  result besides memory.
\<close>

definition CR0_INIT :: u32 where
  "CR0_INIT = 0x1 OR 0x80000000 OR 0x40000 OR 0x10000 OR 0x20 OR 0x8 OR 0x4 OR 0x2"

definition virtual_memory_init ::
    "u32 \<Rightarrow> u32 \<Rightarrow> u32 \<Rightarrow> mem \<Rightarrow> (mem \<times> u32 \<times> u32) option" where
  "virtual_memory_init kernel_pagedir kernel_pagetable0 cr0 m = do {
     let m = memset m kernel_pagedir 0 (4 * word_of_nat PAGETABLE_NENTRIES);
     m \<leftarrow> kwrite m kernel_pagedir (kernel_pagetable0 OR PTE_P OR PTE_W OR PTE_U);
     m \<leftarrow> virtual_memory_map kernel_pagedir 0 0 MEMSIZE_PHYSICAL (PTE_P OR PTE_W OR PTE_U) m;
     Some (m, kernel_pagedir, (cr0 OR CR0_INIT) AND NOT (0x8 OR 0x4)) }"

definition physical_memory_isreserved :: "u32 \<Rightarrow> bool" where
  "physical_memory_isreserved pa \<longleftrightarrow> pa = 0 \<or> (pa \<ge> 0xA0000 \<and> pa < 0x100000)"

section \<open>Well-formed address spaces\<close>

text \<open>
  Every address space of the kernel has one page table, which covers the first 4 MB.
\<close>

definition aligned :: "u32 \<Rightarrow> bool" where
  "aligned p \<longleftrightarrow> 4096 dvd unat p"

definition page_at :: "u32 \<Rightarrow> bool" where
  "page_at p \<longleftrightarrow> aligned p \<and> unat p + 4096 \<le> 0x200000"

definition table_of :: "mem \<Rightarrow> u32 \<Rightarrow> u32" where
  "table_of m pd = PTE_ADDR (load32 m pd)"

definition pte :: "mem \<Rightarrow> u32 \<Rightarrow> nat \<Rightarrow> u32" where
  "pte m pd i = load32 m (table_of m pd + 4 * word_of_nat i)"

definition wf_dir :: "mem \<Rightarrow> u32 \<Rightarrow> bool" where
  "wf_dir m pd \<longleftrightarrow> page_at pd \<and> page_at (table_of m pd) \<and> table_of m pd \<noteq> pd \<and>
     load32 m pd AND 7 = 7 \<and>
     (\<forall>i. 0 < i \<and> i < 1024 \<longrightarrow> load32 m (pd + 4 * word_of_nat i) = 0)"

lemma unat_index:
  assumes "page_at p" "i < 1024"
  shows "unat (p + 4 * word_of_nat i) = unat p + 4 * i"
    and "unat (p + 4 * word_of_nat i) + 4 \<le> 0x200000"
    and "region (p + 4 * word_of_nat i) 4 \<subseteq> region p 4096"
proof -
  have "unat (4 * word_of_nat i :: u32) = 4 * i"
  proof -
    have "unat (word_of_nat (4 * i) :: u32) = 4 * i"
      by (rule unat_word_of_nat_less) (use assms(2) in simp)
    then show ?thesis by simp
  qed
  then show 1: "unat (p + 4 * word_of_nat i) = unat p + 4 * i"
    using assms unat_add_small [of p "4 * word_of_nat i"] by (simp add: page_at_def)
  show "unat (p + 4 * word_of_nat i) + 4 \<le> 0x200000"
    unfolding 1 using assms by (auto simp: page_at_def aligned_def elim!: dvdE)
  show "region (p + 4 * word_of_nat i) 4 \<subseteq> region p 4096"
    unfolding region_def 1 using assms(2) by auto
qed

lemma aligned_disjoint:
  assumes "aligned p" "aligned q" "p \<noteq> q"
  shows "region p 4096 \<inter> region q 4096 = {}"
proof -
  obtain i j where ij: "unat p = 4096 * i" "unat q = 4096 * j"
    using assms(1,2) by (auto simp: aligned_def elim!: dvdE)
  have "i \<noteq> j" using assms(3) ij by (metis unsigned_word_eqI)
  then show ?thesis by (auto simp: region_def ij)
qed

lemma kread_index:
  "page_at p \<Longrightarrow> i < 1024 \<Longrightarrow> kread m (p + 4 * word_of_nat i) = Some (load32 m (p + 4 * word_of_nat i))"
  using unat_index(2) by (simp add: kread_def MEMSIZE_PHYSICAL_def)

lemma kwrite_index:
  "page_at p \<Longrightarrow> i < 1024 \<Longrightarrow> kwrite m (p + 4 * word_of_nat i) v = Some (store32 m (p + 4 * word_of_nat i) v)"
  using unat_index(2) by (simp add: kwrite_def MEMSIZE_PHYSICAL_def)

text \<open>Only the pages of the directory and of its table matter.\<close>

lemma load_index_agree:
  assumes "page_at p" "i < 1024" "agree (region p 4096) m m'"
  shows "load32 m' (p + 4 * word_of_nat i) = load32 m (p + 4 * word_of_nat i)"
  using unat_index [OF assms(1,2)] assms(3) by (intro load32_agree) auto

lemma table_of_agree:
  "page_at pd \<Longrightarrow> agree (region pd 4096) m m' \<Longrightarrow> table_of m' pd = table_of m pd"
  using load_index_agree [of pd 0] by (simp add: table_of_def)

lemma wf_dir_agree:
  assumes "wf_dir m pd" "agree (region pd 4096) m m'"
  shows "wf_dir m' pd"
proof -
  have pd: "page_at pd" using assms(1) by (simp add: wf_dir_def)
  have "load32 m' (pd + 4 * word_of_nat i) = load32 m (pd + 4 * word_of_nat i)" if "i < 1024" for i
    using load_index_agree [OF pd that assms(2)] .
  from this [of 0] this show ?thesis
    using assms(1) table_of_agree [OF pd assms(2)] by (simp add: wf_dir_def)
qed

lemma pte_agree:
  assumes "wf_dir m pd" "agree (region pd 4096) m m'" "agree (region (table_of m pd) 4096) m m'"
    and "i < 1024"
  shows "pte m' pd i = pte m pd i"
  using assms table_of_agree [of pd m m'] load_index_agree
  by (simp add: pte_def wf_dir_def)

section \<open>Address arithmetic\<close>

lemma unat_drop_bit: "unat (drop_bit n (w :: u32)) = unat w div 2 ^ n"
  by (subst unsigned_drop_bit_eq) (simp add: drop_bit_eq_div take_bit_nat_eq_self)

lemma page_index:
  fixes va :: u32
  assumes "unat va = 4096 * i" "i < 1024"
  shows "drop_bit 22 va = 0" "drop_bit 12 va AND 0x3FF = word_of_nat i"
proof -
  have "4096 * i < 2 ^ 22" using assms(2) by simp
  then have "unat (drop_bit 22 va) = 0" unfolding unat_drop_bit assms(1) by (rule div_less)
  then show "drop_bit 22 va = 0" by (simp add: unat_eq_zero)
  have "unat (drop_bit 12 va) = i" using assms by (simp add: unat_drop_bit)
  then have "unat (drop_bit 12 va) = unat (word_of_nat i :: u32)"
    using assms(2) by (simp add: unat_word_of_nat_less)
  then have d: "drop_bit 12 va = word_of_nat i" by (rule unsigned_word_eqI)
  have m: "(0x3FF :: u32) = mask 10" by (simp add: mask_eq_exp_minus_1)
  have "(word_of_nat i :: u32) AND mask 10 = take_bit 10 (word_of_nat i)"
    by (simp only: take_bit_eq_mask)
  also have "\<dots> = word_of_nat (take_bit 10 i)" by (simp add: take_bit_of_nat)
  also have "take_bit 10 i = i" using assms(2) by (simp add: take_bit_nat_eq_self)
  finally show "drop_bit 12 va AND 0x3FF = word_of_nat i" by (simp only: d m)
qed

lemma PTE_ADDR_mask: "PTE_ADDR e = e AND NOT (mask 12)"
  by (simp add: PTE_ADDR_def mask_eq_exp_minus_1)

lemma aligned_bits: "aligned p \<Longrightarrow> n < 12 \<Longrightarrow> \<not> bit p n"
proof -
  assume "aligned p" "n < 12"
  then obtain k where k: "unat p = 4096 * k" by (auto simp: aligned_def)
  have "(4096 :: nat) * k = push_bit 12 k" by (simp add: push_bit_eq_mult)
  then have "\<not> bit (unat p) n" using \<open>n < 12\<close> by (simp add: k bit_push_bit_iff)
  then show ?thesis by (simp add: bit_unsigned_iff)
qed

lemma aligned_PTE_ADDR [simp]: "aligned (PTE_ADDR e)"
proof -
  have "PTE_ADDR e = push_bit 12 (drop_bit 12 e)"
    by (rule bit_word_eqI) (auto simp: PTE_ADDR_mask bit_simps)
  then have "unat (PTE_ADDR e) = unat (push_bit 12 (drop_bit 12 e))" by simp
  also have "\<dots> = take_bit 32 (push_bit 12 (unat (drop_bit 12 e)))" by (simp add: unsigned_push_bit_eq)
  also have "\<dots> = push_bit 12 (take_bit 20 (unat (drop_bit 12 e)))"
    by (simp add: push_bit_take_bit)
  finally show ?thesis by (simp add: aligned_def push_bit_eq_mult)
qed

lemma PTE_ADDR_page:
  assumes "aligned pa" "unat perm < 0x1000"
  shows "PTE_ADDR (pa OR perm) = pa"
proof (rule bit_word_eqI)
  fix n assume "n < LENGTH(32)"
  have "\<not> bit perm n" if "12 \<le> n"
  proof -
    have "unat perm < 2 ^ n" using assms(2) that power_increasing [of 12 n "2 :: nat"] by simp
    then have "\<not> bit (unat perm) n" by (simp add: bit_iff_odd)
    then show ?thesis using \<open>n < LENGTH(32)\<close> by (simp add: bit_unsigned_iff)
  qed
  then show "bit (PTE_ADDR (pa OR perm)) n = bit pa n"
    using aligned_bits [OF assms(1), of n] \<open>n < LENGTH(32)\<close>
    by (auto simp: PTE_ADDR_mask bit_simps)
qed

lemma table_top_zero:
  assumes "wf_dir m pd"
  shows "drop_bit 22 (load32 m pd) = 0"
proof -
  have "drop_bit 22 (load32 m pd) = drop_bit 22 (table_of m pd)"
    by (rule bit_word_eqI)
      (auto simp: table_of_def PTE_ADDR_mask bit_simps dest: bit_imp_le_length)
  moreover have "unat (drop_bit 22 (table_of m pd)) = 0"
    using assms by (simp add: unat_drop_bit wf_dir_def page_at_def)
  ultimately show ?thesis by (simp add: unat_eq_zero)
qed

lemma and_7: "e AND 7 = 7 \<Longrightarrow> bit (e :: u32) 0 \<and> bit e 1 \<and> bit e 2"
proof -
  assume e: "e AND 7 = 7"
  have "bit (e AND 7) n = bit (7 :: u32) n" for n by (simp only: e)
  from this [of 0] this [of 1] this [of 2] show ?thesis by (simp add: bit_simps)
qed

lemma and_1: "(e :: u32) AND 1 \<noteq> 0 \<longleftrightarrow> bit e 0"
  by (simp add: and_one_eq bit_0 odd_iff_mod_2_eq_one)

section \<open>The effect of a mapping\<close>

lemma store_pte:
  fixes v :: u32
  assumes wf: "wf_dir m pd" and i: "i < 1024"
  defines "m' \<equiv> store32 m (table_of m pd + 4 * word_of_nat i) v"
  shows "wf_dir m' pd" "table_of m' pd = table_of m pd"
    and "\<And>j. j < 1024 \<Longrightarrow> pte m' pd j = (if j = i then v else pte m pd j)"
    and "\<And>S. region (table_of m pd) 4096 \<inter> S = {} \<Longrightarrow> agree S m m'"
proof -
  let ?pt = "table_of m pd"
  have pt: "page_at ?pt" "page_at pd" "?pt \<noteq> pd" using wf by (simp_all add: wf_dir_def)
  show out: "agree S m m'" if "region ?pt 4096 \<inter> S = {}" for S
    unfolding m'_def using unat_index [OF pt(1) i] that by (intro store32_agree) auto
  have "region ?pt 4096 \<inter> region pd 4096 = {}"
    using pt by (intro aligned_disjoint) (simp_all add: page_at_def)
  then have dir: "agree (region pd 4096) m m'" by (rule out)
  show "wf_dir m' pd" by (rule wf_dir_agree [OF wf dir])
  show t: "table_of m' pd = ?pt" by (rule table_of_agree [OF pt(2) dir])
  show "pte m' pd j = (if j = i then v else pte m pd j)" if j: "j < 1024" for j
  proof (cases "j = i")
    case False
    have "load32 m' (?pt + 4 * word_of_nat j) = load32 m (?pt + 4 * word_of_nat j)"
      unfolding m'_def
      using unat_index [OF pt(1) i] unat_index [OF pt(1) j] False
      by (intro load32_store32) auto
    then show ?thesis using False by (simp add: pte_def t)
  next
    case True
    have "pte m' pd i = load32 m' (?pt + 4 * word_of_nat i)" by (simp add: pte_def t)
    then show ?thesis using True by (simp add: m'_def)
  qed
qed

lemma map_loop_spec:
  assumes "wf_dir m pd" "unat va = 4096 * i" "i + n \<le> 1024"
    and "idx = - 1 \<or> (idx = 0 \<and> pt = table_of m pd)"
  shows "\<exists>m'. map_loop pd perm n va pa idx pt m = Some m' \<and> wf_dir m' pd \<and>
    table_of m' pd = table_of m pd \<and>
    (\<forall>j < 1024. pte m' pd j = (if i \<le> j \<and> j < i + n then (pa + 4096 * word_of_nat (j - i)) OR perm
                               else pte m pd j)) \<and>
    (\<forall>S. region (table_of m pd) 4096 \<inter> S = {} \<longrightarrow> agree S m m')"
  using assms
proof (induction n arbitrary: va pa idx pt m i)
  case 0
  then show ?case by auto
next
  case (Suc n)
  let ?pt = "table_of m pd"
  have i: "i < 1024" using Suc.prems(3) by simp
  note ix = page_index [OF Suc.prems(2) i]
  have pages: "page_at pd" "page_at ?pt" using Suc.prems(1) by (simp_all add: wf_dir_def)
  have dir: "kread m pd = Some (load32 m pd)" using kread_index [OF pages(1), of 0 m] by simp
  have P: "load32 m pd AND PTE_P \<noteq> 0"
    using Suc.prems(1) and_7 by (simp add: wf_dir_def PTE_P_def and_1)
  let ?m = "store32 m (?pt + 4 * word_of_nat i) (pa OR perm)"
  have step: "map_loop pd perm (Suc n) va pa idx pt m =
      map_loop pd perm n (va + PAGESIZE) (pa + PAGESIZE) 0 ?pt ?m"
    using Suc.prems(4) dir P table_top_zero [OF Suc.prems(1)] kwrite_index [OF pages(2) i]
    by (auto simp: ix assertion_def table_of_def [symmetric])
  note st = store_pte [OF Suc.prems(1) i, where v = "pa OR perm"]
  have va: "unat (va + PAGESIZE) = 4096 * Suc i"
    using Suc.prems(2) i by (simp add: PAGESIZE_def unat_add_small)
  have "0 = (- 1 :: int) \<or> ((0 :: int) = 0 \<and> ?pt = table_of ?m pd)" using st(2) by simp
  from Suc.IH [OF st(1) va _ this, of "pa + PAGESIZE"] Suc.prems(3)
  obtain m' where m': "map_loop pd perm n (va + PAGESIZE) (pa + PAGESIZE) 0 ?pt ?m = Some m'"
      "wf_dir m' pd" "table_of m' pd = ?pt"
    and ptes: "\<And>j. j < 1024 \<Longrightarrow> pte m' pd j = (if Suc i \<le> j \<and> j < Suc i + n
        then (pa + PAGESIZE + 4096 * word_of_nat (j - Suc i)) OR perm else pte ?m pd j)"
    and out: "\<And>S. region ?pt 4096 \<inter> S = {} \<Longrightarrow> agree S ?m m'"
    using st(2) by auto
  have "pte m' pd j = (if i \<le> j \<and> j < i + Suc n then (pa + 4096 * word_of_nat (j - i)) OR perm
      else pte m pd j)" if "j < 1024" for j
  proof -
    have "pa + PAGESIZE + 4096 * word_of_nat (j - Suc i) = pa + 4096 * word_of_nat (j - i)"
      if "Suc i \<le> j"
    proof -
      have "j - i = Suc (j - Suc i)" using that by simp
      then show ?thesis by (simp add: PAGESIZE_def algebra_simps)
    qed
    note shift = this
    show ?thesis
    proof (cases "Suc i \<le> j \<and> j < Suc i + n")
      case True
      then have "pte m' pd j = (pa + PAGESIZE + 4096 * word_of_nat (j - Suc i)) OR perm"
        using ptes [OF that] by (simp only: simp_thms if_True)
      also have "\<dots> = (pa + 4096 * word_of_nat (j - i)) OR perm"
        using True by (simp only: shift)
      finally show ?thesis using True by auto
    next
      case False
      then have "pte m' pd j = pte ?m pd j" using ptes [OF that] by (simp only: if_False)
      then show ?thesis using False st(3) [OF that] by auto
    qed
  qed
  moreover have "agree S m m'" if "region ?pt 4096 \<inter> S = {}" for S
    using st(4) [OF that] out [OF that] by (rule agree_trans)
  ultimately show ?case using m' step by auto
qed

lemma unat_aligned: "aligned va \<Longrightarrow> \<exists>i. unat va = 4096 * i"
  by (auto simp: aligned_def)

lemma mod_PAGESIZE: "va mod PAGESIZE = 0 \<longleftrightarrow> aligned va"
proof -
  have "va mod PAGESIZE = 0 \<longleftrightarrow> unat (va mod PAGESIZE) = 0" by (simp add: unat_eq_zero)
  then show ?thesis by (simp add: unat_mod PAGESIZE_def aligned_def dvd_eq_mod_eq_0)
qed

lemma virtual_memory_map_ok:
  assumes wf: "wf_dir m pd" and al: "unat va = 4096 * i" "aligned pa" "unat sz = 4096 * n"
    and range: "i + n \<le> 1024" "unat pa + unat sz < 2 ^ 32"
    and perm: "unat perm < 0x1000"
  shows "\<exists>m'. virtual_memory_map pd va pa sz perm m = Some m' \<and> wf_dir m' pd \<and>
    table_of m' pd = table_of m pd \<and>
    (\<forall>j < 1024. pte m' pd j = (if i \<le> j \<and> j < i + n then (pa + 4096 * word_of_nat (j - i)) OR perm
                               else pte m pd j)) \<and>
    (\<forall>S. region (table_of m pd) 4096 \<inter> S = {} \<longrightarrow> agree S m m')"
proof -
  have vsz: "unat (va + sz) = unat va + unat sz" "unat (pa + sz) = unat pa + unat sz"
    using al range by (simp_all add: unat_add_small)
  have "virtual_memory_map pd va pa sz perm m = map_loop pd perm (unat sz div 4096) va pa (- 1) 0 m"
  proof -
    have "aligned va" "aligned sz" using al by (simp_all add: aligned_def)
    then have a: "va mod PAGESIZE = 0 \<and> pa mod PAGESIZE = 0 \<and> sz mod PAGESIZE = 0"
      using al(2) by (simp add: mod_PAGESIZE)
    have b: "va + sz \<ge> va \<and> pa + sz \<ge> pa" using vsz by (simp add: word_le_nat_alt)
    have "int (unat perm) < int 4096" using perm unfolding of_nat_less_iff by simp
    then have u: "0 \<le> uint perm" "uint perm < 4096" by simp_all
    then have "sint perm = uint perm"
      by (subst sint_uint) (rule signed_take_bit_int_eq_self, rule order_trans [OF _ u(1)], use u in simp_all)
    then have c: "0 \<le> sint perm \<and> sint perm < 0x1000" using u by simp
    show ?thesis
      unfolding virtual_memory_map_def assertion_def
      by (simp only: a b c simp_thms if_True Option.bind.bind_lunit)
  qed
  moreover have "unat sz div 4096 = n" using al(3) by simp
  ultimately show ?thesis
    using map_loop_spec [OF wf al(1) range(1), of "- 1" 0 perm pa] by simp
qed

lemma virtual_memory_lookup_pte:
  assumes wf: "wf_dir m pd" and va: "unat va div 4096 = i" "i < 1024"
  shows "virtual_memory_lookup m pd va = Some (if pte m pd i AND PTE_P \<noteq> 0 then pte m pd i else 0)"
proof -
  let ?e = "load32 m pd"
  have pages: "page_at pd" "page_at (table_of m pd)" using wf by (simp_all add: wf_dir_def)
  have d22: "drop_bit 22 va = 0"
  proof -
    have "unat va div 2 ^ 22 = (unat va div 4096) div 1024" by (simp add: div_mult2_eq [symmetric])
    then have "unat (drop_bit 22 va) = 0" using va by (simp add: unat_drop_bit)
    then show ?thesis by (simp add: unat_eq_zero)
  qed
  have d12: "drop_bit 12 va AND 0x3FF = word_of_nat i"
  proof -
    have u: "unat (word_of_nat (4096 * i) :: u32) = 4096 * i"
      using va(2) by (intro unat_word_of_nat_less) simp
    have "unat (drop_bit 12 va) = unat (drop_bit 12 (word_of_nat (4096 * i) :: u32))"
      unfolding unat_drop_bit u using va(1) by simp
    then have "drop_bit 12 va = drop_bit 12 (word_of_nat (4096 * i))" by (rule unsigned_word_eqI)
    then show ?thesis using page_index(2) [OF u va(2)] by simp
  qed
  have dir: "kread m pd = Some ?e" using kread_index [OF pages(1), of 0 m] by simp
  have P: "?e AND PTE_P \<noteq> 0" using wf and_7 by (simp add: wf_dir_def PTE_P_def and_1)
  have mask: "x AND (?e OR NOT (PTE_W OR PTE_U)) = x" for x
  proof (rule bit_word_eqI)
    fix n assume "n < LENGTH(32)"
    have six: "bit (6 :: u32) n \<longleftrightarrow> n = 1 \<or> n = 2"
    proof (cases "n < 3")
      case True
      then have "n = 0 \<or> n = 1 \<or> n = 2" by arith
      then show ?thesis by auto
    next
      case False
      have "(6 :: u32) = push_bit 1 1 OR push_bit 2 1" by simp
      then show ?thesis using False by (simp only: bit_or_iff bit_push_bit_iff) (auto simp: bit_1_iff)
    qed
    show "bit (x AND (?e OR NOT (PTE_W OR PTE_U))) n = bit x n"
      using wf and_7 [of ?e] \<open>n < LENGTH(32)\<close> six
      by (auto simp: wf_dir_def PTE_W_def PTE_U_def bit_simps)
  qed
  show ?thesis
    unfolding virtual_memory_lookup_def d22 d12
    using dir P kread_index [OF pages(2) va(2)] mask
    by (simp add: table_of_def [symmetric] pte_def)
qed

lemma map_lookup:
  assumes wf: "wf_dir m pd" and al: "unat va = 4096 * i" "aligned pa" "unat sz = 4096 * n"
    and range: "i + n \<le> 1024" "unat pa + unat sz < 2 ^ 32"
    and perm: "unat perm < 0x1000" "perm AND PTE_P \<noteq> 0"
  obtains m' where "virtual_memory_map pd va pa sz perm m = Some m'" "wf_dir m' pd"
    "\<And>a. unat a < 0x400000 \<Longrightarrow> virtual_memory_lookup m' pd a =
       (if unat va \<le> unat a \<and> unat a < unat va + unat sz
        then Some ((pa + 4096 * word_of_nat (unat a div 4096 - i)) OR perm)
        else virtual_memory_lookup m pd a)"
    "\<And>S. region (table_of m pd) 4096 \<inter> S = {} \<Longrightarrow> agree S m m'"
proof -
  obtain m' where m': "virtual_memory_map pd va pa sz perm m = Some m'" "wf_dir m' pd"
    and ptes: "\<And>j. j < 1024 \<Longrightarrow> pte m' pd j = (if i \<le> j \<and> j < i + n
        then (pa + 4096 * word_of_nat (j - i)) OR perm else pte m pd j)"
    and out: "\<And>S. region (table_of m pd) 4096 \<inter> S = {} \<Longrightarrow> agree S m m'"
    using virtual_memory_map_ok [OF wf al range perm(1)] by blast
  have P: "(x OR perm) AND PTE_P \<noteq> 0" for x
    using perm(2) by (simp add: PTE_P_def and_1 bit_or_iff)
  have "virtual_memory_lookup m' pd a =
       (if unat va \<le> unat a \<and> unat a < unat va + unat sz
        then Some ((pa + 4096 * word_of_nat (unat a div 4096 - i)) OR perm)
        else virtual_memory_lookup m pd a)" if a: "unat a < 0x400000" for a
  proof -
    let ?j = "unat a div 4096"
    have j: "?j < 1024" using a by (simp add: div_less_iff_less_mult)
    have iff: "unat va \<le> unat a \<and> unat a < unat va + unat sz \<longleftrightarrow> i \<le> ?j \<and> ?j < i + n"
      unfolding al by (simp add: div_less_iff_less_mult less_eq_div_iff_mult_less_eq algebra_simps)
    show ?thesis
      unfolding virtual_memory_lookup_pte [OF m'(2) refl j] virtual_memory_lookup_pte [OF wf refl j]
        ptes [OF j] iff
      using P by auto
  qed
  with m' out that show thesis by blast
qed

text \<open>
  C20: \<open>virtual_memory_map\<close> followed by \<open>virtual_memory_lookup\<close>: every address of the mapped
  range finds the physical page and the permissions it was given, every other address of
  the address space finds what it found before, and memory outside the page table is
  unchanged.
\<close>

theorem virtual_memory_map_lookup:
  assumes "wf_dir m pd" and "aligned va" "aligned pa" "aligned sz"
    and "unat va + unat sz \<le> 0x400000" "unat pa + unat sz < 2 ^ 32"
    and "unat perm < 0x1000" "perm AND PTE_P \<noteq> 0"
  shows "\<exists>m'. virtual_memory_map pd va pa sz perm m = Some m' \<and> wf_dir m' pd \<and>
    (\<forall>a. unat a < 0x400000 \<longrightarrow> virtual_memory_lookup m' pd a =
       (if unat va \<le> unat a \<and> unat a < unat va + unat sz
        then Some ((pa + 4096 * word_of_nat (unat a div 4096 - unat va div 4096)) OR perm)
        else virtual_memory_lookup m pd a)) \<and>
    agree (- region (table_of m pd) 4096) m m'"
proof -
  obtain i n where i: "unat va = 4096 * i" and n: "unat sz = 4096 * n"
    using assms(2,4) unat_aligned by blast
  have r: "i + n \<le> 1024" using assms(5) i n by simp
  have d: "unat va div 4096 = i" using i by simp
  obtain m' where m': "virtual_memory_map pd va pa sz perm m = Some m'" "wf_dir m' pd"
    and look: "\<And>a. unat a < 0x400000 \<Longrightarrow> virtual_memory_lookup m' pd a =
       (if unat va \<le> unat a \<and> unat a < unat va + unat sz
        then Some ((pa + 4096 * word_of_nat (unat a div 4096 - i)) OR perm)
        else virtual_memory_lookup m pd a)"
    and out: "\<And>S. region (table_of m pd) 4096 \<inter> S = {} \<Longrightarrow> agree S m m'"
    by (rule map_lookup [OF assms(1) i assms(3) n r assms(6-8)]) blast
  have "agree (- region (table_of m pd) 4096) m m'" by (rule out) simp
  then show ?thesis using m' look unfolding d by blast
qed

section \<open>The kernel's own address space\<close>

lemma virtual_memory_init_ok:
  assumes pages: "page_at pd" "page_at pt" "pt \<noteq> pd"
  shows "\<exists>m'. virtual_memory_init pd pt cr0 m = Some (m', pd, (cr0 OR CR0_INIT) AND NOT (0x8 OR 0x4)) \<and>
    wf_dir m' pd \<and> table_of m' pd = pt \<and>
    (\<forall>j < 512. pte m' pd j = (4096 * word_of_nat j) OR 7) \<and>
    (\<forall>j. 512 \<le> j \<and> j < 1024 \<longrightarrow> pte m' pd j = load32 m (pt + 4 * word_of_nat j)) \<and>
    (\<forall>S. region pd 4096 \<inter> S = {} \<and> region pt 4096 \<inter> S = {} \<longrightarrow> agree S m m')"
proof -
  let ?e = "pt OR PTE_P OR PTE_W OR PTE_U"
  have e7: "?e = pt OR 7" by (simp add: PTE_P_def PTE_W_def PTE_U_def or.assoc)
  have addr: "PTE_ADDR ?e = pt"
    unfolding e7 using pages(2) by (intro PTE_ADDR_page) (simp_all add: page_at_def)
  let ?m0 = "memset m pd 0 (4 * word_of_nat PAGETABLE_NENTRIES)"
  let ?m1 = "store32 ?m0 pd ?e"
  have size: "unat (4 * word_of_nat PAGETABLE_NENTRIES :: u32) = 4096"
    by (simp add: PAGETABLE_NENTRIES_def)
  have zero: "load32 ?m0 (pd + 4 * word_of_nat j) = 0" if j: "j < 1024" for j
  proof -
    have cell: "unat a \<in> region pd 4096 \<Longrightarrow> ?m0 a = 0" for a
    proof -
      assume a: "unat a \<in> region pd 4096"
      then have "unat (a - pd) = unat a - unat pd"
        by (intro unat_sub) (simp add: region_def word_le_nat_alt)
      then show ?thesis using a size by (auto simp: memset_at region_def)
    qed
    have "load32 ?m0 (pd + 4 * word_of_nat j) = load32 (\<lambda>_. 0) (pd + 4 * word_of_nat j)"
      using unat_index [OF pages(1) j] cell
      by (intro load32_agree [where S = "region pd 4096"]) (auto simp: agree_def)
    then show ?thesis by (simp add: load32_def)
  qed
  have e1: "load32 ?m1 pd = ?e" by simp
  have rest: "load32 ?m1 (pd + 4 * word_of_nat j) = 0" if "0 < j" "j < 1024" for j
  proof -
    have "load32 ?m1 (pd + 4 * word_of_nat j) = load32 ?m0 (pd + 4 * word_of_nat j)"
      using unat_index [OF pages(1) that(2)] unat_index [OF pages(1), of 0] that
      by (intro load32_store32) auto
    then show ?thesis using zero [OF that(2)] by simp
  qed
  have low: "?e AND 7 = 7"
    unfolding e7 by (rule bit_word_eqI) (auto simp: bit_simps)
  have wf: "wf_dir ?m1 pd" and t1: "table_of ?m1 pd = pt"
    using pages addr rest low e1 by (simp_all add: wf_dir_def table_of_def)
  have kw: "kwrite ?m0 pd ?e = Some ?m1"
    using kwrite_index [OF pages(1), of 0] by simp
  have first: "agree S m ?m1" if S: "region pd 4096 \<inter> S = {}" for S
  proof -
    have "agree S m ?m0" using S size pages(1) by (intro memset_agree) (auto simp: page_at_def)
    moreover have "agree S ?m0 ?m1"
      using S unat_index [OF pages(1), of 0] by (intro store32_agree) auto
    ultimately show ?thesis by (rule agree_trans)
  qed
  have pt0: "pte ?m1 pd j = load32 m (pt + 4 * word_of_nat j)" if "j < 1024" for j
  proof -
    have "region pd 4096 \<inter> region pt 4096 = {}"
      using pages by (intro aligned_disjoint) (auto simp: page_at_def)
    then have "load32 ?m1 (pt + 4 * word_of_nat j) = load32 m (pt + 4 * word_of_nat j)"
      by (intro load_index_agree [OF pages(2) that] first)
    then show ?thesis by (simp add: pte_def t1)
  qed
  have ms: "unat MEMSIZE_PHYSICAL = 4096 * 512" by (simp add: MEMSIZE_PHYSICAL_def)
  have al0: "unat (0 :: u32) = 4096 * 0" "aligned 0" by (simp_all add: aligned_def)
  have perm: "PTE_P OR PTE_W OR PTE_U = 7" by (simp add: PTE_P_def PTE_W_def PTE_U_def)
  obtain m' where m': "virtual_memory_map pd 0 0 MEMSIZE_PHYSICAL 7 ?m1 = Some m'" "wf_dir m' pd"
      "table_of m' pd = table_of ?m1 pd"
    and ptes: "\<And>j. j < 1024 \<Longrightarrow> pte m' pd j =
      (if 0 \<le> j \<and> j < 0 + 512 then (0 + 4096 * word_of_nat (j - 0)) OR 7 else pte ?m1 pd j)"
    and out: "\<And>S. region (table_of ?m1 pd) 4096 \<inter> S = {} \<Longrightarrow> agree S ?m1 m'"
    using virtual_memory_map_ok [OF wf al0 ms, of 7] by (auto simp: ms)
  have "agree S m m'" if S: "region pd 4096 \<inter> S = {}" "region pt 4096 \<inter> S = {}" for S
  proof -
    have "agree S m ?m1" using S(1) by (rule first)
    moreover have "agree S ?m1 m'" using S(2) out t1 by simp
    ultimately show ?thesis by (rule agree_trans)
  qed
  moreover have "virtual_memory_init pd pt cr0 m =
      Some (m', pd, (cr0 OR CR0_INIT) AND NOT (0x8 OR 0x4))"
    using kw m'(1) by (simp add: virtual_memory_init_def perm)
  moreover have "pte m' pd j = load32 m (pt + 4 * word_of_nat j)" if "512 \<le> j" "j < 1024" for j
    using ptes [of j] that pt0 [OF that(2)] by simp
  ultimately show ?thesis using m' t1 ptes by auto
qed

lemma page_base:
  fixes a :: u32
  shows "4096 * word_of_nat (unat a div 4096) = PTE_ADDR a"
proof -
  have "word_of_nat (unat (drop_bit 12 a)) = drop_bit 12 a" by simp
  then have "word_of_nat (unat a div 4096) = drop_bit 12 a" by (simp add: unat_drop_bit)
  then have "4096 * word_of_nat (unat a div 4096) = push_bit 12 (drop_bit 12 a)"
    by (simp add: push_bit_eq_mult)
  also have "\<dots> = PTE_ADDR a"
    by (rule bit_word_eqI) (auto simp: PTE_ADDR_mask bit_simps)
  finally show ?thesis .
qed



theorem virtual_memory_map_lookup_witness:
  "\<exists>m m'. virtual_memory_map 0x8000 0x100000 0x5000 0x2000 5 m = Some m' \<and>
     virtual_memory_lookup m' 0x8000 0x101ABC = Some 0x6005 \<and>
     virtual_memory_lookup m' 0x8000 0x102000 = virtual_memory_lookup m 0x8000 0x102000"
proof -
  have p: "page_at 0x8000" "page_at 0x9000" "(0x9000 :: u32) \<noteq> 0x8000"
    by (simp_all add: page_at_def aligned_def)
  obtain m where wf: "wf_dir m 0x8000"
    using virtual_memory_init_ok [OF p, of 0 "\<lambda>_. 0"] by blast
  have "aligned 0x100000" "aligned 0x5000" "aligned 0x2000"
    "unat (0x100000 :: u32) + unat (0x2000 :: u32) \<le> 0x400000"
    "unat (0x5000 :: u32) + unat (0x2000 :: u32) < 2 ^ 32" "unat (5 :: u32) < 0x1000"
    "5 AND PTE_P \<noteq> 0"
    by (simp_all add: aligned_def PTE_P_def)
  from virtual_memory_map_lookup [OF wf this]
  obtain m' where m': "virtual_memory_map 0x8000 0x100000 0x5000 0x2000 5 m = Some m'"
    and look: "\<And>a :: u32. unat a < 0x400000 \<Longrightarrow> virtual_memory_lookup m' 0x8000 a =
       (if unat (0x100000 :: u32) \<le> unat a \<and> unat a < unat (0x100000 :: u32) + unat (0x2000 :: u32)
        then Some ((0x5000 + 4096 * word_of_nat (unat a div 4096 - unat (0x100000 :: u32) div 4096)) OR 5)
        else virtual_memory_lookup m 0x8000 a)"
    by blast
  show ?thesis using m' look [of "0x101ABC"] look [of "0x102000"] by auto
qed

end
