(* ===== verification/Kernel.thy ===== *)
theory Kernel
  imports Keyboard VirtualMemory
begin

text \<open>
  The WeensyOS kernel, first part (\<open>pset3/kernel.c\<close>, \<open>pset3/kernel.h\<close>, \<open>pset3/k-loader.c\<close>,
  \<open>pset3/elf.h\<close>): the kernel's state, physical page allocation, page directories, the
  program loader, process set-up, \<open>run\<close> and \<open>schedule\<close>, and \<open>fork\<close>. Operations return
  \<open>None\<close> where an assertion of the kernel fails or an access leaves memory or an array.
\<close>

section \<open>State\<close>

datatype procstate = P_FREE | P_RUNNABLE | P_BLOCKED | P_BROKEN

record proc =
  p_pid :: int
  p_registers :: registers
  p_state :: procstate
  p_pagedir :: u32

definition NPROC :: nat where "NPROC = 16"
definition KERNEL_START_ADDR :: u32 where "KERNEL_START_ADDR = 0x40000"
definition PROC_START_ADDR :: u32 where "PROC_START_ADDR = 0x100000"
definition HZ :: int where "HZ = 100"

text \<open>Both fields are \<open>int8_t\<close>: they are read with \<open>sint\<close>.\<close>

record pageinfo_t =
  owner :: u8
  refcount :: u8

definition PO_FREE :: int where "PO_FREE = 0"
definition PO_RESERVED :: int where "PO_RESERVED = - 1"
definition PO_KERNEL :: int where "PO_KERNEL = - 2"

text \<open>
  \<open>current\<close> is an index into \<open>processes\<close>, \<open>None\<close> the null pointer it holds before the first
  \<open>run\<close>. \<open>showing\<close> and \<open>last_ticks\<close> are the static variables of \<open>memshow_virtual_animate\<close>.
\<close>

record 'd kernel =
  processes :: "proc list"
  current :: "nat option"
  ticks :: u32
  pageinfo :: "pageinfo_t list"
  memory :: mem
  cells :: "u16 list"
  cursorpos :: int
  control :: "u32 \<times> u32"   \<comment> \<open>\<open>%cr3\<close> and \<open>%cr0\<close>\<close>
  enabled :: u16
  descriptors :: tables
  kbd :: keyboard
  devices :: 'd
  last_ticks :: u32
  showing :: nat

text \<open>What the linker decides, and the address of the stack buffer of \<open>memshow_virtual_animate\<close>.\<close>

record linked =
  kernel_pagedir :: u32
  kernel_pagetable0 :: u32
  kernel_end :: u32
  ramimages :: "u32 list"
  int_handlers :: handlers
  name_buffer :: u32

abbreviation page_addr :: "nat \<Rightarrow> u32" where
  "page_addr i \<equiv> 4096 * word_of_nat i"

definition page_number :: "u32 \<Rightarrow> nat" where
  "page_number a = unat (PAGENUMBER a)"

definition update_page :: "nat \<Rightarrow> (pageinfo_t \<Rightarrow> pageinfo_t) \<Rightarrow> 'd kernel \<Rightarrow> 'd kernel" where
  "update_page pn f k = k\<lparr>pageinfo := (pageinfo k)[pn := f (pageinfo k ! pn)]\<rparr>"

definition update_proc :: "nat \<Rightarrow> (proc \<Rightarrow> proc) \<Rightarrow> 'd kernel \<Rightarrow> 'd kernel" where
  "update_proc i f k = k\<lparr>processes := (processes k)[i := f (processes k ! i)]\<rparr>"

definition update_mem :: "(mem \<Rightarrow> mem option) \<Rightarrow> 'd kernel \<Rightarrow> 'd kernel option" where
  "update_mem f k = map_option (\<lambda>m. k\<lparr>memory := m\<rparr>) (f (memory k))"

section \<open>Physical pages\<close>

definition claim_page :: "u32 \<Rightarrow> u8 \<Rightarrow> 'd kernel \<Rightarrow> 'd kernel" where
  "claim_page addr ow = update_page (page_number addr) (\<lambda>p. p\<lparr>refcount := 1, owner := ow\<rparr>)"

definition page_taken :: "u32 \<Rightarrow> 'd kernel \<Rightarrow> bool" where
  "page_taken addr k \<longleftrightarrow> addr AND 0xFFF \<noteq> 0 \<or> addr \<ge> MEMSIZE_PHYSICAL
     \<or> refcount (pageinfo k ! page_number addr) \<noteq> 0"

definition page_alloc :: "u32 \<Rightarrow> u32 \<Rightarrow> u8 \<Rightarrow> 'd kernel \<Rightarrow> (int \<times> 'd kernel) option" where
  "page_alloc pagedir addr ow k =
     (if page_taken addr k then Some (- 1, k)
      else do {
        k \<leftarrow> update_mem (virtual_memory_map pagedir addr addr PAGESIZE (PTE_P OR PTE_W OR PTE_U))
               (claim_page addr ow k);
        Some (0, k) })"

definition my_page_alloc :: "u32 \<Rightarrow> u8 \<Rightarrow> 'd kernel \<Rightarrow> int \<times> 'd kernel" where
  "my_page_alloc addr ow k =
     (if page_taken addr k then (- 1, k) else (0, claim_page addr ow k))"

definition freeAddress :: "'d kernel \<Rightarrow> u32" where
  "freeAddress k =
     (case find (\<lambda>i. sint (owner (pageinfo k ! i)) = PO_FREE) [0..<NPAGES] of
        Some i \<Rightarrow> page_addr i | None \<Rightarrow> - 1)"

definition m_alloc :: "int \<Rightarrow> 'd kernel \<Rightarrow> u32 \<times> 'd kernel" where
  "m_alloc ow k =
     (let a = freeAddress k in
      if a = - 1 then (- 1, k)
      else (let (r, k) = my_page_alloc a (word_of_int ow) k
            in if r = - 1 then (- 1, k) else (a, k)))"

text \<open>The search of \<open>m_free\<close> for another process that maps the page.\<close>

primrec references :: "mem \<Rightarrow> u32 \<Rightarrow> u32 \<Rightarrow> nat list \<Rightarrow> bool option" where
  "references m pd addr [] = Some False"
| "references m pd addr (j # js) = do {
     e \<leftarrow> virtual_memory_lookup m pd (page_addr j);
     if PTE_ADDR e = addr then Some True else references m pd addr js }"

primrec first_sharer :: "mem \<Rightarrow> proc list \<Rightarrow> u32 \<Rightarrow> nat list \<Rightarrow> nat option option" where
  "first_sharer m ps addr [] = Some None"
| "first_sharer m ps addr (i # is) =
     (if p_state (ps ! i) \<noteq> P_RUNNABLE then first_sharer m ps addr is
      else do {
        r \<leftarrow> references m (p_pagedir (ps ! i)) addr [0..<NPAGES];
        if r then Some (Some i) else first_sharer m ps addr is })"

definition m_free :: "u32 \<Rightarrow> 'd kernel \<Rightarrow> 'd kernel option" where
  "m_free addr k = do {
     assertion (page_number addr < NPAGES);
     let k = update_page (page_number addr) (\<lambda>p. p\<lparr>refcount := refcount p - 1\<rparr>) k;
     let referenceCount = sint (refcount (pageinfo k ! page_number addr));
     (if referenceCount < 0 then None
      else if referenceCount = 0
      then Some (update_page (page_number addr) (\<lambda>p. p\<lparr>owner := word_of_int PO_FREE\<rparr>) k)
      else do {
        s \<leftarrow> first_sharer (memory k) (processes k) addr [1..<NPROC];
        case s of
          Some i \<Rightarrow> Some (update_page (page_number addr) (\<lambda>p. p\<lparr>owner := word_of_nat i\<rparr>) k)
        | None \<Rightarrow> Some k }) }"

primrec release_pages :: "int \<Rightarrow> nat list \<Rightarrow> 'd kernel \<Rightarrow> 'd kernel option" where
  "release_pages pid [] k = Some k"
| "release_pages pid (i # is) k = do {
     k \<leftarrow> (if sint (owner (pageinfo k ! i)) = pid then m_free (page_addr i) k else Some k);
     release_pages pid is k }"

definition m_releaseMemoryforProcess :: "nat \<Rightarrow> 'd kernel \<Rightarrow> 'd kernel option" where
  "m_releaseMemoryforProcess p k = do {
     let k = update_proc p (\<lambda>q. q\<lparr>p_state := P_BLOCKED\<rparr>) k;
     let pid = p_pid (processes k ! p);
     k \<leftarrow> release_pages pid [0..<NPAGES] k;
     assertion (list_all (\<lambda>i. sint (owner (pageinfo k ! i)) \<noteq> pid) [0..<NPAGES]);
     Some (update_proc p (\<lambda>q. q\<lparr>p_state := P_FREE\<rparr>) k) }"

section \<open>Page directories\<close>

definition in_physical :: "u32 \<Rightarrow> u32 \<Rightarrow> bool" where
  "in_physical a n \<longleftrightarrow> unat a + unat n \<le> unat MEMSIZE_PHYSICAL"

definition copy_pagedir :: "u32 \<Rightarrow> int \<Rightarrow> 'd kernel \<Rightarrow> (u32 \<times> 'd kernel) option" where
  "copy_pagedir pagedir ow k =
     (let (processdir, k) = m_alloc ow k; (processpage, k) = m_alloc ow k in
      if processdir = - 1 \<or> processpage = - 1 then Some (- 1, k)
      else do {
        let m = memset (memory k) processdir 0 PAGESIZE;
        m \<leftarrow> kwrite m processdir (processpage OR PTE_P OR PTE_W OR PTE_U);
        let offset = PAGENUMBER PROC_START_ADDR * 4;
        e \<leftarrow> kread m pagedir;
        let pdpagetable = PTE_ADDR e;
        assertion (in_physical pdpagetable offset);
        let m = memcpy m processpage pdpagetable offset;
        let m = memset m (processpage + offset) 0 (PAGESIZE - offset);
        Some (processdir, k\<lparr>memory := m\<rparr>) })"

section \<open>The program loader\<close>

definition ELF_MAGIC :: u32 where "ELF_MAGIC = 0x464C457F"
definition ELF_PTYPE_LOAD :: u32 where "ELF_PTYPE_LOAD = 1"
definition ELF_PFLAG_WRITE :: u32 where "ELF_PFLAG_WRITE = 2"

definition load16 :: "mem \<Rightarrow> u32 \<Rightarrow> u16" where
  "load16 m a = ucast (m a) OR push_bit 8 (ucast (m (a + 1)))"

record elf_header =
  e_magic :: u32
  e_entry :: u32
  e_phoff :: u32
  e_phnum :: u16

definition elf_header_at :: "mem \<Rightarrow> u32 \<Rightarrow> elf_header" where
  "elf_header_at m a = \<lparr>e_magic = load32 m a, e_entry = load32 m (a + 24),
     e_phoff = load32 m (a + 28), e_phnum = load16 m (a + 44)\<rparr>"

record elf_program =
  p_type :: u32
  p_offset :: u32
  p_va :: u32
  p_filesz :: u32
  p_memsz :: u32
  p_flags :: u32

definition elf_program_at :: "mem \<Rightarrow> u32 \<Rightarrow> elf_program" where
  "elf_program_at m a = \<lparr>p_type = load32 m a, p_offset = load32 m (a + 4),
     p_va = load32 m (a + 8), p_filesz = load32 m (a + 16), p_memsz = load32 m (a + 20),
     p_flags = load32 m (a + 24)\<rparr>"

text \<open>
  The loops over the pages of a segment go from \<open>page_va\<close> in steps of a page while
  \<open>page_va < end_mem\<close>. The first stops at the end of physical memory, where \<open>page_alloc\<close>
  fails; the second runs only after the first has not failed.
\<close>

partial_function (option) alloc_pages ::
    "u32 \<Rightarrow> int \<Rightarrow> u32 \<Rightarrow> u32 \<Rightarrow> 'd kernel \<Rightarrow> (int \<times> 'd kernel) option" where
  "alloc_pages pagedir pid page_va end_mem k =
     (if page_va < end_mem
      then do {
        (r, k) \<leftarrow> page_alloc pagedir page_va (word_of_int pid) k;
        (if r < 0 then Some (- 1, k)
         else alloc_pages pagedir pid (page_va + PAGESIZE) end_mem k) }
      else Some (0, k))"

partial_function (option) protect_pages ::
    "u32 \<Rightarrow> u32 \<Rightarrow> u32 \<Rightarrow> u32 \<Rightarrow> 'd kernel \<Rightarrow> 'd kernel option" where
  "protect_pages pagedir flags page_va end_mem k =
     (if page_va < end_mem
      then do {
        k \<leftarrow> (if flags AND ELF_PFLAG_WRITE = 0
             then update_mem (virtual_memory_map pagedir page_va page_va PAGESIZE (PTE_P OR PTE_U)) k
             else Some k);
        protect_pages pagedir flags (page_va + PAGESIZE) end_mem k }
      else Some k)"

text \<open>
  The segment is written in the address space of the process: every page of it must be
  mapped there, writable and, as \<open>page_alloc\<close> maps it, to itself.
\<close>

definition writable_identity :: "mem \<Rightarrow> u32 \<Rightarrow> u32 \<Rightarrow> u32 \<Rightarrow> bool" where
  "writable_identity m pd a n \<longleftrightarrow> n = 0 \<or>
     list_all (\<lambda>i. case virtual_memory_lookup m pd (page_addr i) of
         None \<Rightarrow> False
       | Some e \<Rightarrow> e AND (PTE_P OR PTE_W) = PTE_P OR PTE_W \<and> PTE_ADDR e = page_addr i)
       [unat a div 4096 ..< (unat a + unat n + 4095) div 4096]"

definition copyseg :: "nat \<Rightarrow> elf_program \<Rightarrow> u32 \<Rightarrow> 'd kernel \<Rightarrow> (int \<times> 'd kernel) option" where
  "copyseg p ph src k = do {
     let pagedir = p_pagedir (processes k ! p);
     let va = p_va ph;
     let end_file = va + p_filesz ph;
     let end_mem = va + p_memsz ph;
     let va = va AND NOT (PAGESIZE - 1);
     (r, k) \<leftarrow> alloc_pages pagedir (p_pid (processes k ! p)) va end_mem k;
     if r < 0 then Some (- 1, k)
     else do {
       let k = k\<lparr>control := (pagedir, snd (control k))\<rparr>;
       assertion (writable_identity (memory k) pagedir va (end_file - va));
       assertion (writable_identity (memory k) pagedir end_file (end_mem - end_file));
       let m = memcpy (memory k) va src (end_file - va);
       let m = memset m end_file 0 (end_mem - end_file);
       k \<leftarrow> protect_pages pagedir (p_flags ph) va end_mem (k\<lparr>memory := m\<rparr>);
       Some (0, k) } }"

primrec load_segments ::
    "nat \<Rightarrow> u32 \<Rightarrow> u32 \<Rightarrow> nat list \<Rightarrow> 'd kernel \<Rightarrow> (int \<times> 'd kernel) option" where
  "load_segments p eh ph [] k = Some (0, k)"
| "load_segments p eh ph (i # is) k = do {
     let s = elf_program_at (memory k) (ph + 32 * word_of_nat i);
     (r, k) \<leftarrow> (if p_type s = ELF_PTYPE_LOAD then copyseg p s (eh + p_offset s) k else Some (0, k));
     if r < 0 then Some (- 1, k) else load_segments p eh ph is k }"

definition program_load :: "linked \<Rightarrow> nat \<Rightarrow> nat \<Rightarrow> 'd kernel \<Rightarrow> (int \<times> 'd kernel) option" where
  "program_load L p program_id k = do {
     assertion (program_id < length (ramimages L));
     let eh = ramimages L ! program_id;
     let h = elf_header_at (memory k) eh;
     assertion (e_magic h = ELF_MAGIC);
     (r, k) \<leftarrow> load_segments p eh (eh + e_phoff h) [0..<unat (e_phnum h)] k;
     if r < 0 then Some (- 1, k)
     else Some (0, update_proc p
            (\<lambda>q. q\<lparr>p_registers := (p_registers q)\<lparr>reg_eip := e_entry h\<rparr>\<rparr>) k) }"

section \<open>Processes\<close>

definition process_init :: "nat \<Rightarrow> u32 \<Rightarrow> 'd kernel \<Rightarrow> 'd kernel" where
  "process_init p flags = update_proc p (\<lambda>q. q\<lparr>p_registers := init_registers flags\<rparr>)"

text \<open>
  \<open>current->p_pid = pid\<close> and the later read of \<open>current->p_pid\<close>: through the null pointer,
  as \<open>start\<close> calls it, they go to physical address 0, which is mapped.
\<close>

definition write_current_pid :: "int \<Rightarrow> 'd kernel \<Rightarrow> 'd kernel" where
  "write_current_pid pid k =
     (case current k of
        None \<Rightarrow> k\<lparr>memory := store32 (memory k) 0 (word_of_int pid)\<rparr>
      | Some c \<Rightarrow> update_proc c (\<lambda>q. q\<lparr>p_pid := pid\<rparr>) k)"

definition read_current_pid :: "'d kernel \<Rightarrow> int" where
  "read_current_pid k =
     (case current k of None \<Rightarrow> sint (load32 (memory k) 0) | Some c \<Rightarrow> p_pid (processes k ! c))"

definition process_setup :: "linked \<Rightarrow> nat \<Rightarrow> nat \<Rightarrow> 'd kernel \<Rightarrow> 'd kernel option" where
  "process_setup L pid program_number k = do {
     let k = process_init pid 0 k;
     let k = write_current_pid (int pid) k;
     (pd, k) \<leftarrow> copy_pagedir (kernel_pagedir L) (read_current_pid k) k;
     let k = update_proc pid (\<lambda>q. q\<lparr>p_pagedir := pd\<rparr>) k;
     if pd = - 1 then Some k
     else do {
       (r, k) \<leftarrow> program_load L pid program_number k;
       assertion (r \<ge> 0);
       let k = update_proc pid
         (\<lambda>q. q\<lparr>p_registers := (p_registers q)\<lparr>reg_esp := MEMSIZE_VIRTUAL\<rparr>\<rparr>) k;
       let (procStack, k) = m_alloc (int pid) k;
       k \<leftarrow> update_mem (virtual_memory_map (p_pagedir (processes k ! pid))
              (reg_esp (p_registers (processes k ! pid)) - PAGESIZE) procStack PAGESIZE
              (PTE_P OR PTE_W OR PTE_U)) k;
       Some (update_proc pid (\<lambda>q. q\<lparr>p_state := P_RUNNABLE\<rparr>) k) } }"

definition run :: "nat \<Rightarrow> 'd kernel \<Rightarrow> 'd kernel option" where
  "run p k = do {
     assertion (p_state (processes k ! p) = P_RUNNABLE);
     Some (k\<lparr>current := Some p, control := (p_pagedir (processes k ! p), snd (control k))\<rparr>) }"

text \<open>
  \<open>schedule\<close> does not return; the loop ends in the process that runs next or with a key that
  reboots or powers off, and goes on for ever (\<open>None\<close>) when neither happens.
\<close>

datatype outcome = Running nat | Key key_action | Panicked string "u32 list" | Asserted

definition poll_keyboard :: "'d device \<Rightarrow> 'd kernel \<Rightarrow> key_action \<times> 'd kernel" where
  "poll_keyboard D k =
     (let (act, kb, d) = check_keyboard D (kbd k) (devices k)
      in (act, k\<lparr>kbd := kb, devices := d\<rparr>))"

partial_function (option) schedule_loop ::
    "'d device \<Rightarrow> nat \<Rightarrow> 'd kernel \<Rightarrow> (outcome \<times> 'd kernel) option" where
  "schedule_loop D pid k =
     (let pid = (pid + 1) mod NPROC in
      case (if p_state (processes k ! pid) = P_RUNNABLE then run pid k else None) of
        Some k \<Rightarrow> Some (Running pid, k)
      | None \<Rightarrow>
          (let (act, k) = poll_keyboard D k in
           if act = Continue then schedule_loop D pid k else Some (Key act, k)))"

definition schedule :: "'d device \<Rightarrow> 'd kernel \<Rightarrow> (outcome \<times> 'd kernel) option" where
  "schedule D k =
     (case current k of
        None \<Rightarrow> None
      | Some c \<Rightarrow> schedule_loop D (nat (p_pid (processes k ! c))) k)"

end
