(* ===== verification/KernelMain.thy ===== *)
theory KernelMain
  imports Kernel
begin

text \<open>
  The WeensyOS kernel, second part (\<open>pset3/kernel.c\<close>): start-up, the consistency check of
  virtual memory, the memory display, \<open>fork\<close> and the interrupt handler.
\<close>

section \<open>Start-up\<close>

definition hardware_init :: "linked \<Rightarrow> 'd device \<Rightarrow> 'd kernel \<Rightarrow> 'd kernel option" where
  "hardware_init L D k = do {
     let k = k\<lparr>descriptors := segments_init (int_handlers L) (descriptors k)\<rparr>;
     let (en, d) = interrupt_init D (devices k);
     let k = k\<lparr>enabled := en, devices := d\<rparr>;
     (m, ctl) \<leftarrow> virtual_memory_init (kernel_pagedir L) (kernel_pagetable0 L) (snd (control k))
                   (memory k);
     Some (k\<lparr>memory := m, control := ctl\<rparr>) }"

definition initial_owner :: "linked \<Rightarrow> u32 \<Rightarrow> int" where
  "initial_owner L addr =
     (if physical_memory_isreserved addr then PO_RESERVED
      else if (addr \<ge> KERNEL_START_ADDR \<and> addr < kernel_end L) \<or> addr = KERNEL_STACK_TOP - PAGESIZE
      then PO_KERNEL else PO_FREE)"

definition initial_page :: "linked \<Rightarrow> nat \<Rightarrow> pageinfo_t" where
  "initial_page L i =
     (let ow = initial_owner L (page_addr i) in
      \<lparr>owner = word_of_int ow, refcount = (if ow \<noteq> PO_FREE then 1 else 0)\<rparr>)"

definition pageinfo_init :: "linked \<Rightarrow> 'd kernel \<Rightarrow> 'd kernel" where
  "pageinfo_init L k = k\<lparr>pageinfo := map (initial_page L) [0..<NPAGES]\<rparr>"

definition console_base :: u32 where "console_base = 0xB8000"

definition free_proc :: "nat \<Rightarrow> proc" where
  "free_proc i = \<lparr>p_pid = int i, p_registers = zero_registers, p_state = P_FREE, p_pagedir = 0\<rparr>"

primrec setup_processes :: "linked \<Rightarrow> (nat \<times> nat) list \<Rightarrow> 'd kernel \<Rightarrow> 'd kernel option" where
  "setup_processes L [] k = Some k"
| "setup_processes L (p # ps) k = do {
     k \<leftarrow> process_setup L (fst p) (snd p) k;
     setup_processes L ps k }"

text \<open>The command line is given by its contents, \<open>None\<close> being the null pointer.\<close>

definition start_programs :: "string option \<Rightarrow> (nat \<times> nat) list" where
  "start_programs command =
     (if command = Some ''fork'' then [(1, 4)]
      else if command = Some ''forkexit'' then [(1, 5)]
      else map (\<lambda>i. (i, i - 1)) [1..<5])"

definition protect_kernel :: "linked \<Rightarrow> mem \<Rightarrow> mem option" where
  "protect_kernel L m = do {
     m \<leftarrow> virtual_memory_map (kernel_pagedir L) 0 0 console_base (PTE_P OR PTE_W) m;
     virtual_memory_map (kernel_pagedir L) (console_base + PAGESIZE) (console_base + PAGESIZE)
       (PROC_START_ADDR - (console_base + PAGESIZE)) (PTE_P OR PTE_W) m }"

definition start :: "linked \<Rightarrow> 'd device \<Rightarrow> string option \<Rightarrow> 'd kernel \<Rightarrow> 'd kernel option" where
  "start L D command k = do {
     k \<leftarrow> hardware_init L D k;
     let k = pageinfo_init L k;
     let (cs, pos) = console_clear (cells k);
     let k = k\<lparr>cells := cs, cursorpos := pos\<rparr>;
     let (en, d) = timer_init D HZ (enabled k) (devices k);
     let k = k\<lparr>enabled := en, devices := d\<rparr>;
     let k = k\<lparr>processes := map free_proc [0..<NPROC]\<rparr>;
     k \<leftarrow> update_mem (protect_kernel L) k;
     k \<leftarrow> setup_processes L (start_programs command) k;
     run 1 k }"

section \<open>The consistency check\<close>

definition page_is :: "'d kernel \<Rightarrow> u32 \<Rightarrow> int \<Rightarrow> int \<Rightarrow> unit option" where
  "page_is k a ow n = do {
     assertion (page_number a < NPAGES);
     assertion (sint (owner (pageinfo k ! page_number a)) = ow);
     assertion (sint (refcount (pageinfo k ! page_number a)) = n) }"

primrec check_entries :: "'d kernel \<Rightarrow> u32 \<Rightarrow> int \<Rightarrow> nat list \<Rightarrow> unit option" where
  "check_entries k pd ow [] = Some ()"
| "check_entries k pd ow (i # is) = do {
     e \<leftarrow> kread (memory k) (pd + 4 * word_of_nat i);
     (if e AND PTE_P \<noteq> 0 then page_is k e ow 1 else Some ());
     check_entries k pd ow is }"

definition check_pagedir :: "'d kernel \<Rightarrow> u32 \<Rightarrow> int \<Rightarrow> int \<Rightarrow> unit option" where
  "check_pagedir k pd ow n = do {
     page_is k pd ow n;
     check_entries k pd ow [0..<PAGETABLE_NENTRIES] }"

primrec check_processes :: "linked \<Rightarrow> int \<Rightarrow> 'd kernel \<Rightarrow> nat list \<Rightarrow> unit option" where
  "check_processes L n k [] = Some ()"
| "check_processes L n k (pid # pids) = do {
     (let p = processes k ! pid in
      if p_state p = P_FREE then Some ()
      else if p_pagedir p = kernel_pagedir L then check_pagedir k (kernel_pagedir L) PO_KERNEL n
      else check_pagedir k (p_pagedir p) (int pid) 1);
     check_processes L n k pids }"

definition page_owner_active :: "'d kernel \<Rightarrow> pageinfo_t \<Rightarrow> bool" where
  "page_owner_active k p \<longleftrightarrow>
     (if sint (refcount p) > 0 \<and> sint (owner p) \<ge> 0
      then nat (sint (owner p)) < NPROC \<and> p_state (processes k ! nat (sint (owner p))) \<noteq> P_FREE
      else True)"

definition virtual_memory_check :: "linked \<Rightarrow> 'd kernel \<Rightarrow> unit option" where
  "virtual_memory_check L k = do {
     assertion (p_state (processes k ! 0) = P_FREE);
     let n = 1 + int (length (filter (\<lambda>i. p_state (processes k ! i) \<noteq> P_FREE
                \<and> p_pagedir (processes k ! i) = kernel_pagedir L) [0..<NPROC]));
     check_pagedir k (kernel_pagedir L) PO_KERNEL n;
     check_processes L n k [0..<NPROC];
     assertion (list_all (\<lambda>pn. page_owner_active k (pageinfo k ! pn)) [0..<NPAGES]) }"

section \<open>The memory display\<close>

definition memstate_colors :: "u16 list" where
  "memstate_colors =
     map (\<lambda>(c, a). char_u16 c OR a)
       [(CHR ''K'', 0x0D00), (CHR ''R'', 0x0700), (CHR ''.'', 0x0700),
        (CHR ''1'', 0x0C00), (CHR ''2'', 0x0A00), (CHR ''3'', 0x0900), (CHR ''4'', 0x0E00),
        (CHR ''5'', 0x0F00), (CHR ''6'', 0x0C00), (CHR ''7'', 0x0A00), (CHR ''8'', 0x0900),
        (CHR ''9'', 0x0E00), (CHR ''A'', 0x0F00), (CHR ''B'', 0x0C00), (CHR ''C'', 0x0A00),
        (CHR ''D'', 0x0900), (CHR ''E'', 0x0E00), (CHR ''F'', 0x0F00)]"

definition page_color :: "pageinfo_t \<Rightarrow> u16 option" where
  "page_color p =
     (let ow = (if refcount p = 0 then PO_FREE else sint (owner p)); i = nat (ow - PO_KERNEL)
      in if PO_KERNEL \<le> ow \<and> i < length memstate_colors then Some (memstate_colors ! i) else None)"

definition darken :: "pageinfo_t \<Rightarrow> u16 \<Rightarrow> u16" where
  "darken p color = (if sint (refcount p) > 1 then color AND 0x77FF else color)"

definition reverse_video :: "u16 \<Rightarrow> u16" where
  "reverse_video color =
     push_bit 4 (color AND 0x0F00) OR drop_bit 4 (color AND 0xF000) OR (color AND 0x00FF)"

definition put_row_label :: "'d kernel \<Rightarrow> nat \<Rightarrow> nat \<Rightarrow> u16 list \<Rightarrow> u16 list option" where
  "put_row_label k row pn cs =
     (if pn mod 64 = 0
      then map_option fst (console_vprintf (memory k) cs (CPOS (int (row + pn div 64)) 3) 0x0F00
             ''%08X '' [page_addr pn])
      else Some cs)"

primrec show_physical :: "'d kernel \<Rightarrow> nat list \<Rightarrow> u16 list \<Rightarrow> u16 list option" where
  "show_physical k [] cs = Some cs"
| "show_physical k (pn # pns) cs = do {
     cs \<leftarrow> put_row_label k 1 pn cs;
     color \<leftarrow> page_color (pageinfo k ! pn);
     cs \<leftarrow> set_cell (nat (CPOS (int (1 + pn div 64)) (int (12 + pn mod 64)))) (darken (pageinfo k ! pn) color) cs;
     show_physical k pns cs }"

definition memshow_physical :: "'d kernel \<Rightarrow> 'd kernel option" where
  "memshow_physical k = do {
     (cs, _) \<leftarrow> console_vprintf (memory k) (cells k) (CPOS 0 32) 0x0F00 ''PHYSICAL MEMORY'' [];
     cs \<leftarrow> show_physical k [0..<NPAGES] cs;
     Some (k\<lparr>cells := cs\<rparr>) }"

definition virtual_color :: "'d kernel \<Rightarrow> u32 \<Rightarrow> u16 option" where
  "virtual_color k e =
     (if e = 0 then Some (char_u16 CHR '' '')
      else do {
        assertion (page_number e < NPAGES);
        let p = pageinfo k ! page_number e;
        color \<leftarrow> page_color p;
        Some (darken p (if e AND PTE_U \<noteq> 0 then reverse_video color else color)) })"

primrec show_virtual :: "'d kernel \<Rightarrow> u32 \<Rightarrow> nat list \<Rightarrow> u16 list \<Rightarrow> u16 list option" where
  "show_virtual k pd [] cs = Some cs"
| "show_virtual k pd (pn # pns) cs = do {
     e \<leftarrow> virtual_memory_lookup (memory k) pd (page_addr pn);
     color \<leftarrow> virtual_color k e;
     cs \<leftarrow> put_row_label k 11 pn cs;
     cs \<leftarrow> set_cell (nat (CPOS (int (11 + pn div 64)) (int (12 + pn mod 64)))) color cs;
     show_virtual k pd pns cs }"

definition memshow_virtual :: "u32 \<Rightarrow> u32 \<Rightarrow> 'd kernel \<Rightarrow> 'd kernel option" where
  "memshow_virtual pd name k = do {
     assertion (pd = PTE_ADDR pd);
     (cs, _) \<leftarrow> console_vprintf (memory k) (cells k) (CPOS 10 26) 0x0F00
                  ''VIRTUAL ADDRESS SPACE FOR %s'' [name];
     cs \<leftarrow> show_virtual k pd [0..<unat (MEMSIZE_VIRTUAL div PAGESIZE)] cs;
     Some (k\<lparr>cells := cs\<rparr>) }"

function skip_free :: "proc list \<Rightarrow> nat \<Rightarrow> nat" where
  "skip_free ps s =
     (if s \<le> 2 * NPROC \<and> p_state (ps ! (s mod NPROC)) = P_FREE then skip_free ps (s + 1) else s)"
  by auto
termination by (relation "measure (\<lambda>(ps, s). 2 * NPROC + 1 - s)") auto

primrec put_string :: "u32 \<Rightarrow> string \<Rightarrow> mem \<Rightarrow> mem" where
  "put_string a [] m = m"
| "put_string a (c # cs) m = put_string (a + 1) cs (m(a := of_char c))"

definition memshow_virtual_animate :: "linked \<Rightarrow> 'd kernel \<Rightarrow> 'd kernel option" where
  "memshow_virtual_animate L k = do {
     let k = (if last_ticks k = 0 \<or> ticks k - last_ticks k \<ge> word_of_int (HZ div 4)
              then k\<lparr>last_ticks := ticks k, showing := showing k + 1\<rparr> else k);
     let s = skip_free (processes k) (showing k) mod NPROC;
     let k = k\<lparr>showing := s\<rparr>;
     if p_state (processes k ! s) \<noteq> P_FREE
     then do {
       (buf, _) \<leftarrow> vsnprintf (memory k) 4 ''%d '' [word_of_nat s];
       let k = k\<lparr>memory := put_string (name_buffer L) buf (memory k)\<rparr>;
       memshow_virtual (p_pagedir (processes k ! s)) (name_buffer L) k }
     else Some k }"

section \<open>fork\<close>

text \<open>\<open>fork_page\<close> is one round of the loop; \<open>False\<close> means that no page was left for the copy.\<close>

definition fork_page :: "u32 \<Rightarrow> u32 \<Rightarrow> int \<Rightarrow> nat \<Rightarrow> 'd kernel \<Rightarrow> (bool \<times> 'd kernel) option" where
  "fork_page fatherdir forkdir child i k = do {
     let va = page_addr i;
     pa \<leftarrow> virtual_memory_lookup (memory k) fatherdir va;
     let pageIsUserWritable = (pa AND (PTE_P OR PTE_U OR PTE_W) = PTE_P OR PTE_U OR PTE_W);
     let pageIsUserReadable = (pa AND (PTE_P OR PTE_U) = PTE_P OR PTE_U);
     (if pageIsUserWritable
      then (let (freePhysicalAddress, k) = m_alloc child k in
            if freePhysicalAddress = - 1 then Some (False, k)
            else do {
              assertion (in_physical (PTE_ADDR pa) PAGESIZE);
              let k = k\<lparr>memory := memcpy (memory k) freePhysicalAddress (PTE_ADDR pa) PAGESIZE\<rparr>;
              k \<leftarrow> update_mem (virtual_memory_map forkdir va freePhysicalAddress PAGESIZE
                     (PTE_P OR PTE_W OR PTE_U)) k;
              Some (True, k) })
      else if pageIsUserReadable
      then do {
        k \<leftarrow> update_mem (virtual_memory_map forkdir va (PTE_ADDR pa) PAGESIZE (PTE_P OR PTE_U)) k;
        assertion (page_number (PTE_ADDR pa) < NPAGES);
        Some (True, update_page (page_number (PTE_ADDR pa)) (\<lambda>p. p\<lparr>refcount := refcount p + 1\<rparr>) k) }
      else Some (True, k)) }"

primrec fork_pages ::
    "u32 \<Rightarrow> u32 \<Rightarrow> int \<Rightarrow> nat list \<Rightarrow> 'd kernel \<Rightarrow> (bool \<times> 'd kernel) option" where
  "fork_pages fatherdir forkdir child [] k = Some (True, k)"
| "fork_pages fatherdir forkdir child (i # is) k = do {
     (ok, k) \<leftarrow> fork_page fatherdir forkdir child i k;
     if ok then fork_pages fatherdir forkdir child is k else Some (False, k) }"

definition set_eax :: "nat \<Rightarrow> u32 \<Rightarrow> 'd kernel \<Rightarrow> 'd kernel" where
  "set_eax i v = update_proc i (\<lambda>q. q\<lparr>p_registers := (p_registers q)\<lparr>reg_eax := v\<rparr>\<rparr>)"

definition free_slot :: "'d kernel \<Rightarrow> nat option" where
  "free_slot k = find (\<lambda>i. p_state (processes k ! i) = P_FREE) [1..<NPROC]"

text \<open>The system call up to \<open>run(father)\<close>, which ends each of its branches.\<close>

definition sys_fork :: "nat \<Rightarrow> 'd kernel \<Rightarrow> 'd kernel option" where
  "sys_fork father k =
     (case free_slot k of
        None \<Rightarrow> Some (set_eax father (- 1) k)
      | Some slot \<Rightarrow> do {
          let k = update_proc slot (\<lambda>q. q\<lparr>p_pid := int slot,
                    p_registers := (p_registers (processes k ! father))\<lparr>reg_eax := 0\<rparr>,
                    p_state := P_RUNNABLE\<rparr>) k;
          let fatherdir = p_pagedir (processes k ! father);
          (forkdir, k) \<leftarrow> copy_pagedir fatherdir (int slot) k;
          if forkdir = - 1
          then do {
            k \<leftarrow> m_releaseMemoryforProcess slot k;
            Some (set_eax father (- 1) k) }
          else do {
            let k = update_proc slot (\<lambda>q. q\<lparr>p_pagedir := forkdir\<rparr>) k;
            (ok, k) \<leftarrow> fork_pages fatherdir forkdir (int slot)
                        [page_number PROC_START_ADDR ..< page_number MEMSIZE_VIRTUAL] k;
            if ok then Some (set_eax father (word_of_nat slot) k)
            else do {
              k \<leftarrow> m_releaseMemoryforProcess slot k;
              Some (set_eax father (- 1) k) } } })"

definition sys_page_alloc :: "nat \<Rightarrow> 'd kernel \<Rightarrow> 'd kernel option" where
  "sys_page_alloc c k =
     (let (freePhysicalAddress, k) = m_alloc (p_pid (processes k ! c)) k in
      if freePhysicalAddress = - 1 then Some (set_eax c (- 1) k)
      else do {
        k \<leftarrow> update_mem (virtual_memory_map (p_pagedir (processes k ! c))
               (reg_eax (p_registers (processes k ! c))) freePhysicalAddress PAGESIZE
               (PTE_P OR PTE_W OR PTE_U)) k;
        Some (set_eax c freePhysicalAddress k) })"

section \<open>Interrupts\<close>

definition INT_SYS_PANIC :: nat where "INT_SYS_PANIC = INT_SYS + 0"
definition INT_SYS_GETPID :: nat where "INT_SYS_GETPID = INT_SYS + 1"
definition INT_SYS_YIELD :: nat where "INT_SYS_YIELD = INT_SYS + 2"
definition INT_SYS_PAGE_ALLOC :: nat where "INT_SYS_PAGE_ALLOC = INT_SYS + 3"
definition INT_SYS_FORK :: nat where "INT_SYS_FORK = INT_SYS + 4"
definition INT_SYS_EXIT :: nat where "INT_SYS_EXIT = INT_SYS + 5"
definition PFERR_PRESENT :: u32 where "PFERR_PRESENT = 1"
definition PFERR_WRITE :: u32 where "PFERR_WRITE = 2"
definition PFERR_USER :: u32 where "PFERR_USER = 4"

text \<open>How a case of the handler ends: \<open>run(p)\<close>, \<open>schedule()\<close> or \<open>panic(...)\<close>.\<close>

datatype handler_end = Run nat | Schedule | Panic string "u32 list"

text \<open>
  The arguments \<open>operation\<close> and \<open>problem\<close> of the \<open>%s\<close> conversions are string literals; they
  stand in the format itself.
\<close>

definition page_fault :: "nat \<Rightarrow> u32 \<Rightarrow> registers \<Rightarrow> 'd kernel \<Rightarrow> (handler_end \<times> 'd kernel) option" where
  "page_fault c addr reg k =
     (let operation = (if reg_err reg AND PFERR_WRITE \<noteq> 0 then ''write'' else ''read'');
          problem = (if reg_err reg AND PFERR_PRESENT \<noteq> 0 then ''protection problem'' else ''missing page'');
          how = '' ('' @ operation @ '' '' @ problem @ '', eip=%p)!'' @ [CHR 0x0A]
      in if reg_err reg AND PFERR_USER = 0
         then Some (Panic (''Kernel page fault for %08X'' @ how) [addr, reg_eip reg], k)
         else do {
           (cs, _) \<leftarrow> console_vprintf (memory k) (cells k) (CPOS 24 0) 0x0C00
             (''Process %d page fault for %08X'' @ how)
             [word_of_int (p_pid (processes k ! c)), addr, reg_eip reg];
           Some (Schedule, update_proc c (\<lambda>q. q\<lparr>p_state := P_BROKEN\<rparr>) (k\<lparr>cells := cs\<rparr>)) })"

definition handle_interrupt ::
    "nat \<Rightarrow> u32 \<Rightarrow> registers \<Rightarrow> 'd kernel \<Rightarrow> (handler_end \<times> 'd kernel) option" where
  "handle_interrupt c fault_addr reg k =
     (let n = unat (reg_intno reg) in
      if n = INT_SYS_PANIC then Some (Panic ''%s'' [reg_eax (p_registers (processes k ! c))], k)
      else if n = INT_SYS_EXIT then map_option (Pair Schedule) (m_releaseMemoryforProcess c k)
      else if n = INT_SYS_GETPID
      then Some (Run c, set_eax c (word_of_int (p_pid (processes k ! c))) k)
      else if n = INT_SYS_YIELD then Some (Schedule, k)
      else if n = INT_SYS_PAGE_ALLOC then map_option (Pair (Run c)) (sys_page_alloc c k)
      else if n = INT_TIMER then Some (Schedule, k\<lparr>ticks := ticks k + 1\<rparr>)
      else if n = INT_PAGEFAULT then page_fault c fault_addr reg k
      else if n = INT_SYS_FORK then map_option (Pair (Run c)) (sys_fork c k)
      else Some (Panic (''Unexpected interrupt %d!'' @ [CHR 0x0A]) [reg_intno reg], k))"

text \<open>What the handler does before it looks at the keyboard and at the interrupt number.\<close>

definition interrupt_entry ::
    "linked \<Rightarrow> 'd device \<Rightarrow> nat \<Rightarrow> registers \<Rightarrow> 'd kernel \<Rightarrow> 'd kernel option" where
  "interrupt_entry L D c reg k = do {
     let k = update_proc c (\<lambda>q. q\<lparr>p_registers := reg\<rparr>) k;
     let k = k\<lparr>control := (kernel_pagedir L, snd (control k))\<rparr>;
     let k = k\<lparr>devices := console_show_cursor D (cursorpos k) (devices k)\<rparr>;
     virtual_memory_check L k;
     k \<leftarrow> memshow_physical k;
     memshow_virtual_animate L k }"

definition finish :: "'d device \<Rightarrow> handler_end \<Rightarrow> 'd kernel \<Rightarrow> (outcome \<times> 'd kernel) option" where
  "finish D e k =
     (case e of
        Run p \<Rightarrow> (case run p k of Some k \<Rightarrow> Some (Running p, k) | None \<Rightarrow> Some (Asserted, k))
      | Panic fmt args \<Rightarrow> Some (Panicked fmt args, k)
      | Schedule \<Rightarrow> schedule D k)"

text \<open>\<open>None\<close> is the scheduler that finds no process and no key for ever.\<close>

definition interrupt ::
    "linked \<Rightarrow> 'd device \<Rightarrow> u32 \<Rightarrow> registers \<Rightarrow> 'd kernel \<Rightarrow> (outcome \<times> 'd kernel) option" where
  "interrupt L D fault_addr reg k =
     (case current k of
        None \<Rightarrow> Some (Asserted, k)
      | Some c \<Rightarrow>
          (case interrupt_entry L D c reg k of
             None \<Rightarrow> Some (Asserted, k)
           | Some k \<Rightarrow>
               (let (act, k) = poll_keyboard D k in
                if act \<noteq> Continue then Some (Key act, k)
                else (case handle_interrupt c fault_addr reg k of
                        None \<Rightarrow> Some (Asserted, k)
                      | Some (e, k) \<Rightarrow> finish D e k))))"

end
