(* ===== verification/KernelMemory.thy ===== *)
theory KernelMemory
  imports KernelMain
begin

text \<open>
  Physical pages of the WeensyOS kernel: what \<open>m_alloc\<close> and \<open>m_free\<close> do to \<open>pageinfo\<close>, which
  bytes the page-copying routines touch, and the address space that \<open>copy_pagedir\<close> builds.
\<close>

section \<open>Copies of whole cells\<close>

lemma region_at: "unat p + n \<le> 2 ^ 32 \<Longrightarrow> unat a \<in> region p n \<longleftrightarrow> unat (a - p) < n"
proof (cases "unat p \<le> unat a")
  case True
  then have "unat (a - p) = unat a - unat p" by (intro unat_sub) (simp add: word_le_nat_alt)
  then show ?thesis using True by (auto simp: region_def)
next
  case False
  assume le: "unat p + n \<le> 2 ^ 32"
  have "unat (a - p) = 2 ^ 32 + unat a - unat p" using False by (simp add: unat_sub_if_size word_size)
  then show ?thesis using le False by (auto simp: region_def)
qed

lemma memcpy_outside:
  assumes "region d (unat n) \<inter> S = {}" "unat d + unat n \<le> 2 ^ 32"
  shows "agree S m (memcpy m d s n)"
  using assms(1) by (auto simp: agree_def in_range_def region_at [OF assms(2), symmetric] intro!: memcpy_frame)

lemma load32_memset_zero:
  assumes "region q 4 \<subseteq> region p (unat n)" "unat p + unat n \<le> 2 ^ 32"
  shows "load32 (memset m p 0 n) q = 0"
proof -
  have q: "unat q + 4 \<le> 2 ^ 32" using assms by (auto simp: region_def)
  have "unat a \<in> region q 4 \<Longrightarrow> memset m p 0 n a = 0" for a
    using assms region_at [OF assms(2)] by (auto simp: memset_at)
  then show ?thesis using cell_in_region [OF q] by (simp add: load32_def)
qed

lemma memcpy_page_at:
  assumes "aligned d" "aligned s" "d \<noteq> s" "unat n \<le> 4096"
  shows "memcpy m d s n a = (if in_range a d n then m (s + (a - d)) else m a)"
proof (rule memcpy_at)
  have "4096 dvd unat (d - s)"
  proof -
    have "4096 dvd (2 :: nat) ^ 32" by simp
    then show ?thesis
      using assms(1,2) unfolding aligned_def unat_sub_if_size word_size
      by (auto intro!: dvd_diff_nat dvd_add)
  qed
  then have "4096 \<le> unat (d - s)" using assms(3) by (intro dvd_imp_le) (auto simp: unat_gt_0)
  then show "d = s \<or> unat n \<le> unat (d - s)" using assms(4) by simp
qed

lemma load32_memcpy_page:
  assumes "aligned d" "aligned s" "d \<noteq> s" "unat n \<le> 4096" "unat x + 4 \<le> unat n"
  shows "load32 (memcpy m d s n) (d + x) = load32 m (s + x)"
proof -
  have u: "unat (x + 1) = unat x + 1" "unat (x + 2) = unat x + 2" "unat (x + 3) = unat x + 3"
    using assms(4,5) by (simp_all add: unat_add_small)
  have "memcpy m d s n (d + y) = m (s + y)" if "unat y < unat n" for y
    using that by (simp add: memcpy_page_at [OF assms(1-4)] in_range_def)
  from this [of x] this [of "x + 1"] this [of "x + 2"] this [of "x + 3"] show ?thesis
    using assms(5) by (intro load32_cong) (simp_all add: u add.assoc)
qed

section \<open>Pages\<close>

lemma unat_page_addr: "i < 1048576 \<Longrightarrow> unat (page_addr i) = 4096 * i"
proof -
  assume "i < 1048576"
  then have "unat (word_of_nat (4096 * i) :: u32) = 4096 * i" by (intro unat_word_of_nat_less) simp
  then show ?thesis by simp
qed

lemma page_number_addr [simp]: "i < 1048576 \<Longrightarrow> page_number (page_addr i) = i"
  by (simp add: page_number_def PAGENUMBER_def unat_drop_bit unat_page_addr)

lemma page_at_addr: "i < NPAGES \<Longrightarrow> page_at (page_addr i)"
  by (simp add: page_at_def aligned_def unat_page_addr NPAGES_def)

lemma page_addr_eq: "i < NPAGES \<Longrightarrow> j < NPAGES \<Longrightarrow> page_addr i = page_addr j \<longleftrightarrow> i = j"
proof -
  assume ij: "i < NPAGES" "j < NPAGES"
  have "i = j" if "page_addr i = page_addr j"
  proof -
    have "unat (page_addr i) = unat (page_addr j)" by (simp only: that)
    then have "4096 * i = 4096 * j"
      using unat_page_addr [of i] unat_page_addr [of j] ij by (simp only: NPAGES_def)
    then show ?thesis by simp
  qed
  then show ?thesis by blast
qed

lemma page_at_number:
  assumes "page_at p"
  shows "page_number p < NPAGES" "p = page_addr (page_number p)"
proof -
  obtain i where i: "unat p = 4096 * i" using assms by (auto simp: page_at_def aligned_def)
  then have lt: "i < 512" using assms by (simp add: page_at_def)
  have n: "page_number p = i" by (simp add: page_number_def PAGENUMBER_def unat_drop_bit i)
  then show "page_number p < NPAGES" using lt by (simp add: NPAGES_def)
  have "unat p = unat (page_addr i)" using unat_page_addr [of i] lt i by simp
  then show "p = page_addr (page_number p)" unfolding n by (rule unsigned_word_eqI)
qed

text \<open>A page without an owner is not referenced either: what \<open>freeAddress\<close> relies on.\<close>

definition pages_ok :: "'d kernel \<Rightarrow> bool" where
  "pages_ok k \<longleftrightarrow> length (pageinfo k) = NPAGES
     \<and> list_all (\<lambda>p. owner p = 0 \<longrightarrow> refcount p = 0) (pageinfo k)"

definition used :: "'d kernel \<Rightarrow> nat \<Rightarrow> bool" where
  "used k i \<longleftrightarrow> owner (pageinfo k ! i) \<noteq> 0"

definition free_page :: "'d kernel \<Rightarrow> nat option" where
  "free_page k = find (\<lambda>i. \<not> used k i) [0..<NPAGES]"

lemma free_page_SomeD: "free_page k = Some i \<Longrightarrow> i < NPAGES \<and> \<not> used k i"
  by (auto simp: free_page_def find_Some_iff)

lemma sint_eq_0 [simp]: "sint (w :: u8) = 0 \<longleftrightarrow> w = 0"
  by (rule signed_eq_0_iff)

lemma page_aligned_mask: "i < NPAGES \<Longrightarrow> page_addr i AND 0xFFF = 0"
proof -
  assume "i < NPAGES"
  then have al: "aligned (page_addr i)" using page_at_addr by (simp add: page_at_def)
  have "(0xFFF :: u32) = mask 12" by (simp add: mask_eq_exp_minus_1)
  moreover have "page_addr i AND mask 12 = 0"
    using aligned_bits [OF al] by (intro bit_word_eqI) (auto simp: bit_simps)
  ultimately show ?thesis by (simp only:)
qed

lemma pages_ok_refcount: "pages_ok k \<Longrightarrow> i < NPAGES \<Longrightarrow> \<not> used k i \<Longrightarrow> refcount (pageinfo k ! i) = 0"
  by (auto simp: pages_ok_def used_def list_all_length)

lemma page_taken_free:
  assumes "pages_ok k" "i < NPAGES" "\<not> used k i"
  shows "\<not> page_taken (page_addr i) k"
proof -
  have "unat (page_addr i) < unat MEMSIZE_PHYSICAL"
    using unat_page_addr [of i] assms(2) by (simp add: NPAGES_def MEMSIZE_PHYSICAL_def)
  moreover have "page_number (page_addr i) = i" using assms(2) by (simp add: NPAGES_def)
  ultimately show ?thesis
    using pages_ok_refcount [OF assms] page_aligned_mask [OF assms(2)]
    by (simp add: page_taken_def word_less_nat_alt not_le)
qed

definition own_page :: "nat \<Rightarrow> int \<Rightarrow> 'd kernel \<Rightarrow> 'd kernel" where
  "own_page i ow k = k\<lparr>pageinfo := (pageinfo k)[i := (pageinfo k ! i)\<lparr>refcount := 1, owner := word_of_int ow\<rparr>]\<rparr>"

lemma claim_page_addr: "i < NPAGES \<Longrightarrow> claim_page (page_addr i) (word_of_int ow) k = own_page i ow k"
  by (simp add: claim_page_def update_page_def own_page_def NPAGES_def)

lemma page_addr_not_minus1: "i < NPAGES \<Longrightarrow> page_addr i \<noteq> - 1"
proof
  assume i: "i < NPAGES" and eq: "page_addr i = - 1"
  have "unat (page_addr i) = unat (- 1 :: u32)" by (simp only: eq)
  then have "4096 * i = 2 ^ 32 - 1"
    using unat_page_addr [of i] i by (simp add: NPAGES_def unsigned_minus_1_eq_mask mask_eq_exp_minus_1)
  then show False using i by (simp add: NPAGES_def)
qed

lemma m_alloc_eq:
  assumes "pages_ok k"
  shows "m_alloc ow k = (case free_page k of None \<Rightarrow> (- 1, k) | Some i \<Rightarrow> (page_addr i, own_page i ow k))"
proof (cases "free_page k")
  case None
  then have "freeAddress k = - 1" by (simp add: freeAddress_def free_page_def used_def PO_FREE_def)
  then show ?thesis using None by (simp add: m_alloc_def)
next
  case (Some i)
  note i = free_page_SomeD [OF Some]
  have a: "freeAddress k = page_addr i"
    using Some by (simp add: freeAddress_def free_page_def used_def PO_FREE_def)
  have "my_page_alloc (page_addr i) (word_of_int ow) k = (0, own_page i ow k)"
    using i page_taken_free [OF assms] by (simp add: my_page_alloc_def claim_page_addr)
  then show ?thesis using Some page_addr_not_minus1 i by (simp add: m_alloc_def a)
qed

lemma own_page_simps [simp]:
  "memory (own_page i ow k) = memory k" "processes (own_page i ow k) = processes k"
  "current (own_page i ow k) = current k"
  "length (pageinfo (own_page i ow k)) = length (pageinfo k)"
  by (simp_all add: own_page_def)

lemma used_own_page:
  assumes "pages_ok k" "i < NPAGES" "(word_of_int ow :: u8) \<noteq> 0"
  shows "used (own_page i ow k) j \<longleftrightarrow> j = i \<or> used k j"
  using assms by (auto simp: own_page_def used_def pages_ok_def nth_list_update)

lemma pages_ok_own_page:
  assumes "pages_ok k" "i < NPAGES" "(word_of_int ow :: u8) \<noteq> 0"
  shows "pages_ok (own_page i ow k)"
  using assms unfolding pages_ok_def own_page_def
  by (auto simp: list_all_length nth_list_update)

abbreviation page :: "nat \<Rightarrow> nat set" where "page i \<equiv> region (page_addr i) 4096"

lemma page_disjoint: "i < NPAGES \<Longrightarrow> j < NPAGES \<Longrightarrow> i \<noteq> j \<Longrightarrow> page i \<inter> page j = {}"
  using page_at_addr by (intro aligned_disjoint) (auto simp: page_at_def page_addr_eq)

text \<open>A page table page holds 1024 entries; the first 256 are the kernel's.\<close>

lemma copy_pagedir_memory:
  fixes m pd i j
  assumes wf: "wf_dir m pd" and ij: "i < NPAGES" "j < NPAGES" "i \<noteq> j"
    and pd: "pd \<noteq> page_addr i" "pd \<noteq> page_addr j" "table_of m pd \<noteq> page_addr i" "table_of m pd \<noteq> page_addr j"
  defines "m1 \<equiv> memset m (page_addr i) 0 PAGESIZE"
  defines "m2 \<equiv> store32 m1 (page_addr i) (page_addr j OR 7)"
  defines "m3 \<equiv> memcpy m2 (page_addr j) (table_of m pd) 1024"
  defines "m4 \<equiv> memset m3 (page_addr j + 1024) 0 3072"
  shows "wf_dir m4 (page_addr i)" "table_of m4 (page_addr i) = page_addr j"
    and "\<And>n. n < 1024 \<Longrightarrow> pte m4 (page_addr i) n = (if n < 256 then pte m pd n else 0)"
    and "\<And>S. page i \<inter> S = {} \<Longrightarrow> page j \<inter> S = {} \<Longrightarrow> agree S m m4"
    and "kread m2 pd = Some (load32 m pd)"
proof -
  let ?i = "page_addr i" and ?j = "page_addr j" and ?t = "table_of m pd"
  have pages: "page_at ?i" "page_at ?j" "page_at pd" "page_at ?t"
    using wf ij page_at_addr by (simp_all add: wf_dir_def)
  have fit: "unat ?i + 4096 \<le> 2 ^ 32" "unat ?j + 4096 \<le> 2 ^ 32"
    using pages by (simp_all add: page_at_def)
  have size: "unat PAGESIZE = 4096" by (simp add: PAGESIZE_def)
  have al: "aligned ?i" "aligned ?j" "aligned pd" "aligned ?t" using pages by (simp_all add: page_at_def)
  have ne: "?i \<noteq> ?j" using ij page_addr_eq by simp
  have d1: "unat (?j + 1024) = unat ?j + 1024"
    using fit(2) by (subst unat_add_small) simp_all
  have a12: "agree S m m2" if S: "page i \<inter> S = {}" for S
  proof -
    have "agree S m m1" unfolding m1_def using S fit size by (intro memset_agree) simp_all
    moreover have "agree S m1 m2" unfolding m2_def
      using unat_index [OF pages(1), of 0] S by (intro store32_agree) auto
    ultimately show ?thesis by (rule agree_trans)
  qed
  have part: "region ?j 1024 \<subseteq> page j" "region (?j + 1024) 3072 \<subseteq> page j"
    by (auto simp: region_def d1)
  have a23: "agree S m2 m3" if "page j \<inter> S = {}" for S
    unfolding m3_def using that fit part by (intro memcpy_outside) auto
  have a34: "agree S m3 m4" if "page j \<inter> S = {}" for S
    unfolding m4_def using that fit part by (intro memset_agree) (auto simp: d1)
  have a24: "agree S m2 m4" if "page j \<inter> S = {}" for S
    using agree_trans [OF a23 [OF that] a34 [OF that]] .
  show "agree S m m4" if "page i \<inter> S = {}" "page j \<inter> S = {}" for S
    using agree_trans [OF a12 [OF that(1)] a24 [OF that(2)]] .
  have rp: "region ?i 4096 \<inter> region pd 4096 = {}" "region ?i 4096 \<inter> region ?t 4096 = {}"
    using aligned_disjoint [OF al(1,3)] aligned_disjoint [OF al(1,4)] pd by metis+
  have "load32 m2 pd = load32 m pd"
    using load_index_agree [OF pages(3), of 0] a12 [OF rp(1)] by simp
  then show "kread m2 pd = Some (load32 m pd)"
    using kread_index [OF pages(3), of 0] by simp
  have rj: "page j \<inter> page i = {}" using page_disjoint ij by blast
  have dir: "load32 m4 (?i + 4 * word_of_nat n) = load32 m2 (?i + 4 * word_of_nat n)" if "n < 1024" for n
    by (rule load_index_agree [OF pages(1) that a24 [OF rj]])
  have e0: "load32 m4 ?i = ?j OR 7" using dir [of 0] by (simp add: m2_def)
  have en: "load32 m4 (?i + 4 * word_of_nat n) = 0" if n: "0 < n" "n < 1024" for n
  proof -
    have "load32 m2 (?i + 4 * word_of_nat n) = load32 m1 (?i + 4 * word_of_nat n)"
      unfolding m2_def using unat_index [OF pages(1) n(2)] unat_index [OF pages(1), of 0] n
      by (intro load32_store32) auto
    also have "\<dots> = 0" unfolding m1_def
      using unat_index [OF pages(1) n(2)] fit size by (intro load32_memset_zero) simp_all
    finally show ?thesis by (simp only: dir [OF n(2)])
  qed
  show t: "table_of m4 ?i = ?j"
    unfolding table_of_def e0 by (rule PTE_ADDR_page [OF al(2)]) simp
  have seven: "(?j OR 7) AND 7 = 7" by (rule bit_word_eqI) (auto simp: bit_simps)
  show "wf_dir m4 ?i"
    unfolding wf_dir_def t e0 using pages ne seven en by auto
  show "pte m4 ?i n = (if n < 256 then pte m pd n else 0)" if n: "n < 1024" for n
  proof (cases "n < 256")
    case True
    have x: "unat (4 * word_of_nat n :: u32) = 4 * n"
    proof -
      have "unat (word_of_nat (4 * n) :: u32) = 4 * n" by (intro unat_word_of_nat_less) (use n in simp)
      then show ?thesis by simp
    qed
    have "load32 m4 (?j + 4 * word_of_nat n) = load32 m3 (?j + 4 * word_of_nat n)"
    proof (rule load32_agree [where S = "region ?j 1024"])
      show "agree (region ?j 1024) m3 m4"
        unfolding m4_def using fit by (intro memset_agree) (auto simp: region_def d1)
    qed (use unat_index [OF pages(2) n] True in \<open>auto simp: region_def\<close>)
    also have "\<dots> = load32 m2 (?t + 4 * word_of_nat n)"
      unfolding m3_def using al pd x True by (intro load32_memcpy_page) auto
    also have "\<dots> = load32 m (?t + 4 * word_of_nat n)"
      by (rule load_index_agree [OF pages(4) n a12 [OF rp(2)]])
    finally show ?thesis using True by (simp add: pte_def t)
  next
    case False
    have "load32 m4 (?j + 4 * word_of_nat n) = 0"
      unfolding m4_def using unat_index [OF pages(2) n] fit d1 False n
      by (intro load32_memset_zero) (auto simp: region_def)
    then show ?thesis using False by (simp add: pte_def t)
  qed
qed

text \<open>\<open>copy_pagedir\<close> with the results of its two allocations.\<close>

lemma copy_pagedir_none:
  assumes "pages_ok k" "(word_of_int ow :: u8) \<noteq> 0"
  shows "free_page k = None \<Longrightarrow> copy_pagedir pd ow k = Some (- 1, k)"
    and "free_page k = Some i \<Longrightarrow> free_page (own_page i ow k) = None \<Longrightarrow>
      copy_pagedir pd ow k = Some (- 1, own_page i ow k)"
  using assms free_page_SomeD [of k i]
  by (simp_all add: copy_pagedir_def m_alloc_eq pages_ok_own_page)

lemma used_page_ne:
  "i < NPAGES \<Longrightarrow> page_at p \<Longrightarrow> used k (page_number p) \<Longrightarrow> \<not> used k i \<Longrightarrow> p \<noteq> page_addr i"
  by (auto simp: NPAGES_def)

definition dir_used :: "'d kernel \<Rightarrow> u32 \<Rightarrow> bool" where
  "dir_used k pd \<longleftrightarrow> wf_dir (memory k) pd \<and> used k (page_number pd)
     \<and> used k (page_number (table_of (memory k) pd))"

lemma copy_pagedir_some:
  assumes ok: "pages_ok k" and ow: "(word_of_int ow :: u8) \<noteq> 0" and dir: "dir_used k pd"
    and i: "free_page k = Some i" and j: "free_page (own_page i ow k) = Some j"
  obtains m' where
    "copy_pagedir pd ow k = Some (page_addr i, (own_page j ow (own_page i ow k))\<lparr>memory := m'\<rparr>)"
    "i < NPAGES" "j < NPAGES" "i \<noteq> j" "\<not> used k i" "\<not> used k j"
    "wf_dir m' (page_addr i)" "table_of m' (page_addr i) = page_addr j"
    "\<And>n. n < 1024 \<Longrightarrow> pte m' (page_addr i) n = (if n < 256 then pte (memory k) pd n else 0)"
    "\<And>S. page i \<inter> S = {} \<Longrightarrow> page j \<inter> S = {} \<Longrightarrow> agree S (memory k) m'"
proof -
  have I: "i < NPAGES" "\<not> used k i" using free_page_SomeD [OF i] by simp_all
  have J: "j < NPAGES" "j \<noteq> i" "\<not> used k j"
    using free_page_SomeD [OF j] used_own_page [OF ok I(1) ow] by simp_all
  have wf: "wf_dir (memory k) pd" using dir by (simp add: dir_used_def)
  have pages: "page_at pd" "page_at (table_of (memory k) pd)" using wf by (simp_all add: wf_dir_def)
  have ne: "pd \<noteq> page_addr i" "pd \<noteq> page_addr j" "table_of (memory k) pd \<noteq> page_addr i"
    "table_of (memory k) pd \<noteq> page_addr j"
    using used_page_ne [OF I(1) pages(1) _ I(2)] used_page_ne [OF J(1) pages(1) _ J(3)]
      used_page_ne [OF I(1) pages(2) _ I(2)] used_page_ne [OF J(1) pages(2) _ J(3)] dir
    by (simp_all add: dir_used_def)
  define m1 where "m1 = memset (memory k) (page_addr i) 0 PAGESIZE"
  define m2 where "m2 = store32 m1 (page_addr i) (page_addr j OR 7)"
  define m3 where "m3 = memcpy m2 (page_addr j) (table_of (memory k) pd) 1024"
  define m4 where "m4 = memset m3 (page_addr j + 1024) 0 3072"
  note C = copy_pagedir_memory [OF wf I(1) J(1) J(2) [symmetric] ne, folded m1_def, folded m2_def,
      folded m3_def, folded m4_def]
  have off: "PAGENUMBER PROC_START_ADDR * 4 = 1024"
    by (simp add: PAGENUMBER_def PROC_START_ADDR_def drop_bit_eq_div)
  have kw: "kwrite m1 (page_addr i) (page_addr j OR 7) = Some m2"
    using kwrite_index [OF page_at_addr [OF I(1)], of 0] by (simp add: m2_def)
  have seven: "page_addr j OR PTE_P OR PTE_W OR PTE_U = page_addr j OR 7"
    by (simp add: PTE_P_def PTE_W_def PTE_U_def or.assoc)
  have fit: "in_physical (table_of (memory k) pd) 1024"
    using pages(2) by (simp add: in_physical_def page_at_def MEMSIZE_PHYSICAL_def)
  have "copy_pagedir pd ow k = Some (page_addr i, (own_page j ow (own_page i ow k))\<lparr>memory := m4\<rparr>)"
    using C(5) fit kw i j page_addr_not_minus1 [OF I(1)] page_addr_not_minus1 [OF J(1)]
    by (simp add: copy_pagedir_def m_alloc_eq ok pages_ok_own_page [OF ok I(1) ow] off seven
        m1_def [unfolded PAGESIZE_def, symmetric] table_of_def [symmetric] assertion_def m3_def [symmetric]
        m4_def [symmetric] PAGESIZE_def)
  then show thesis using that C(1-4) I J by blast
qed

end
