(* ===== verification/KernelFork.thy ===== *)
theory KernelFork
  imports KernelMemory
begin

text \<open>
  \<open>fork\<close> of the WeensyOS kernel: the loop over the father's pages keeps an invariant that
  says what the child's address space holds so far and that nothing the father uses is
  touched; with the release of a process this gives the contract of the whole system call.
\<close>

section \<open>The loop of fork\<close>

text \<open>
  \<open>fork_inv k0 fd child dir tab i k\<close> describes the kernel before round \<open>i\<close>: \<open>k0\<close> is the state
  before \<open>fork\<close>, \<open>fd\<close> the father's directory, \<open>dir\<close> and \<open>tab\<close> the pages of the child's new
  directory and page table. \<open>copy_page\<close> is the physical page of the child at a page number.
\<close>

definition copy_page :: "mem \<Rightarrow> nat \<Rightarrow> nat \<Rightarrow> nat" where
  "copy_page m dir n = page_number (PTE_ADDR (pte m (page_addr dir) n))"

definition same_page :: "mem \<Rightarrow> mem \<Rightarrow> nat \<Rightarrow> u32 \<Rightarrow> bool" where
  "same_page m m0 c p \<longleftrightarrow> (\<forall>x. unat x < 4096 \<longrightarrow> m (page_addr c + x) = m0 (p + x))"

definition forked :: "'d kernel \<Rightarrow> u32 \<Rightarrow> int \<Rightarrow> nat \<Rightarrow> nat \<Rightarrow> 'd kernel \<Rightarrow> nat \<Rightarrow> bool" where
  "forked k0 fd child dir tab k n \<longleftrightarrow>
     (let e = pte (memory k0) fd n; e' = pte (memory k) (page_addr dir) n;
          c = copy_page (memory k) dir n in
      if e AND 7 = 7
      then c < NPAGES \<and> \<not> used k0 c \<and> c \<noteq> dir \<and> c \<noteq> tab
           \<and> pageinfo k ! c = \<lparr>owner = word_of_int child, refcount = 1\<rparr>
           \<and> e' = page_addr c OR 7 \<and> same_page (memory k) (memory k0) c (PTE_ADDR e)
      else if e AND 5 = 5 then e' = PTE_ADDR e OR 5
      else e' = 0)"

definition user_page_ok :: "'d kernel \<Rightarrow> u32 \<Rightarrow> bool" where
  "user_page_ok k e \<longleftrightarrow> (if e AND 5 = 5 then page_at (PTE_ADDR e) \<and> used k (page_number (PTE_ADDR e)) else True)"

definition space_ok :: "'d kernel \<Rightarrow> u32 \<Rightarrow> bool" where
  "space_ok k fd \<longleftrightarrow> dir_used k fd \<and> list_all (\<lambda>n. user_page_ok k (pte (memory k) fd n)) [256..<768]"

definition used_area :: "'d kernel \<Rightarrow> nat set" where
  "used_area k = (\<Union>i \<in> {i. i < NPAGES \<and> used k i}. page i)"

text \<open>How many of the father's read-only pages below page number \<open>i\<close> are the physical page \<open>n\<close>.\<close>

definition shares :: "u32 \<Rightarrow> nat \<Rightarrow> bool" where
  "shares e n \<longleftrightarrow> e AND 7 \<noteq> 7 \<and> e AND 5 = 5 \<and> page_number (PTE_ADDR e) = n"

definition shared_upto :: "'d kernel \<Rightarrow> u32 \<Rightarrow> nat \<Rightarrow> nat \<Rightarrow> nat" where
  "shared_upto k fd i n = length (filter (\<lambda>j. shares (pte (memory k) fd j) n) [256..<i])"

lemma shared_upto_start [simp]: "shared_upto k fd 256 n = 0"
  by (simp add: shared_upto_def)

lemma shared_upto_Suc:
  "256 \<le> i \<Longrightarrow> shared_upto k fd (Suc i) n =
     shared_upto k fd i n + (if shares (pte (memory k) fd i) n then 1 else 0)"
  by (simp add: shared_upto_def)

definition fork_inv :: "'d kernel \<Rightarrow> u32 \<Rightarrow> int \<Rightarrow> nat \<Rightarrow> nat \<Rightarrow> nat \<Rightarrow> 'd kernel \<Rightarrow> bool" where
  "fork_inv k0 fd child dir tab i k \<longleftrightarrow>
     k = k0\<lparr>pageinfo := pageinfo k, memory := memory k\<rparr> \<and> pages_ok k \<and>
     (\<forall>n < NPAGES. used k0 n \<longrightarrow> owner (pageinfo k ! n) = owner (pageinfo k0 ! n)) \<and>
     agree (used_area k0) (memory k0) (memory k) \<and>
     wf_dir (memory k) (page_addr dir) \<and> table_of (memory k) (page_addr dir) = page_addr tab \<and>
     pageinfo k ! dir = \<lparr>owner = word_of_int child, refcount = 1\<rparr> \<and>
     pageinfo k ! tab = \<lparr>owner = word_of_int child, refcount = 1\<rparr> \<and>
     (\<forall>n < NPAGES. \<not> used k0 n \<longrightarrow> \<not> used k n
        \<or> pageinfo k ! n = \<lparr>owner = word_of_int child, refcount = 1\<rparr>) \<and>
     (\<forall>n < 1024. n < 256 \<or> i \<le> n \<longrightarrow>
        pte (memory k) (page_addr dir) n = (if n < 256 then pte (memory k0) fd n else 0)) \<and>
     (\<forall>n. 256 \<le> n \<and> n < i \<longrightarrow> forked k0 fd child dir tab k n) \<and>
     (\<forall>n < NPAGES. used k0 n \<longrightarrow>
        refcount (pageinfo k ! n) = refcount (pageinfo k0 ! n) + word_of_nat (shared_upto k0 fd i n)) \<and>
     (\<forall>n n'. 256 \<le> n \<and> n < n' \<and> n' < i \<and> pte (memory k0) fd n AND 7 = 7 \<and> pte (memory k0) fd n' AND 7 = 7
        \<longrightarrow> copy_page (memory k) dir n \<noteq> copy_page (memory k) dir n')"

lemma agree_page: "used k i \<Longrightarrow> i < NPAGES \<Longrightarrow> agree (used_area k) m m' \<Longrightarrow> agree (page i) m m'"
  by (erule agree_subset) (auto simp: used_area_def)

lemma agree_used_page:
  assumes "page_at p" "used k (page_number p)" "agree (used_area k) m m'"
  shows "agree (region p 4096) m m'"
proof -
  note n = page_at_number [OF assms(1)]
  have "agree (page (page_number p)) m m'" using assms n by (intro agree_page)
  then show ?thesis by (simp only: n(2) [symmetric])
qed

lemma dir_used_agree:
  assumes "dir_used k fd" "agree (used_area k) (memory k) m'"
  shows "wf_dir m' fd" "n < 1024 \<Longrightarrow> pte m' fd n = pte (memory k) fd n" "table_of m' fd = table_of (memory k) fd"
proof -
  have wf: "wf_dir (memory k) fd" and p: "page_at fd" "page_at (table_of (memory k) fd)"
    using assms(1) by (simp_all add: dir_used_def wf_dir_def)
  have a: "agree (region fd 4096) (memory k) m'" "agree (region (table_of (memory k) fd) 4096) (memory k) m'"
    using assms(1) by (auto intro!: agree_used_page [OF p(1) _ assms(2)] agree_used_page [OF p(2) _ assms(2)]
        simp: dir_used_def)
  show "wf_dir m' fd" by (rule wf_dir_agree [OF wf a(1)])
  show "n < 1024 \<Longrightarrow> pte m' fd n = pte (memory k) fd n" by (rule pte_agree [OF wf a])
  show "table_of m' fd = table_of (memory k) fd" by (rule table_of_agree [OF p(1) a(1)])
qed

lemma lookup_page:
  assumes "wf_dir m pd" "n < 1024"
  shows "virtual_memory_lookup m pd (page_addr n) = Some (if pte m pd n AND PTE_P \<noteq> 0 then pte m pd n else 0)"
  using assms unat_page_addr [of n] by (intro virtual_memory_lookup_pte) simp_all

lemma and_mask_P: "(if e AND PTE_P \<noteq> 0 then e else 0) AND 7 = (7 :: u32) \<longleftrightarrow> e AND 7 = 7"
    "(if e AND PTE_P \<noteq> 0 then e else 0) AND 5 = (5 :: u32) \<longleftrightarrow> e AND 5 = 5"
proof -
  have "bit e 0" if "e AND x = x" "bit x 0" for x :: u32
    using that by (metis bit_and_iff)
  from this [of 7] this [of 5] show
    "(if e AND PTE_P \<noteq> 0 then e else 0) AND 7 = (7 :: u32) \<longleftrightarrow> e AND 7 = 7"
    "(if e AND PTE_P \<noteq> 0 then e else 0) AND 5 = (5 :: u32) \<longleftrightarrow> e AND 5 = 5"
    by (auto simp: PTE_P_def and_1)
qed


lemma in_page: "c < NPAGES \<Longrightarrow> unat x < 4096 \<Longrightarrow> unat (page_addr c + x) \<in> page c"
  using page_at_addr [of c] by (subst region_at) (auto simp: page_at_def)

lemma same_page_agree:
  assumes "same_page m m0 c p" "c < NPAGES" "agree (page c) m m'"
  shows "same_page m' m0 c p"
  using assms in_page [OF assms(2)] by (simp add: same_page_def agree_def)

lemma forked_frame:
  assumes f: "forked k0 fd child dir tab k n" and ch: "(word_of_int child :: u8) \<noteq> 0"
    and e: "pte (memory k') (page_addr dir) n = pte (memory k) (page_addr dir) n"
    and fr: "\<And>c. c < NPAGES \<Longrightarrow> \<not> used k0 c \<Longrightarrow> used k c \<Longrightarrow> c \<noteq> tab \<Longrightarrow>
      agree (page c) (memory k) (memory k') \<and> pageinfo k' ! c = pageinfo k ! c"
  shows "forked k0 fd child dir tab k' n"
proof (cases "pte (memory k0) fd n AND 7 = 7")
  case True
  let ?c = "copy_page (memory k) dir n"
  have c: "?c < NPAGES" "\<not> used k0 ?c" "?c \<noteq> tab" "pageinfo k ! ?c = \<lparr>owner = word_of_int child, refcount = 1\<rparr>"
    and s: "same_page (memory k) (memory k0) ?c (PTE_ADDR (pte (memory k0) fd n))"
    using f True by (simp_all add: forked_def Let_def)
  have u: "used k ?c" using c(4) ch by (simp add: used_def)
  have c': "copy_page (memory k') dir n = ?c" by (simp add: copy_page_def e)
  have "same_page (memory k') (memory k0) ?c (PTE_ADDR (pte (memory k0) fd n))"
    using fr [OF c(1,2) u c(3)] by (blast intro: same_page_agree [OF s c(1)])
  then show ?thesis using f True fr [OF c(1,2) u c(3)] by (simp add: forked_def Let_def c' e)
next
  case False
  then show ?thesis using f by (simp add: forked_def Let_def e)
qed

lemma fork_invD:
  assumes "fork_inv k0 fd child dir tab i k"
  shows "k = k0\<lparr>pageinfo := pageinfo k, memory := memory k\<rparr>" "pages_ok k"
    "\<And>n. n < NPAGES \<Longrightarrow> used k0 n \<Longrightarrow> owner (pageinfo k ! n) = owner (pageinfo k0 ! n)"
    "agree (used_area k0) (memory k0) (memory k)"
    "wf_dir (memory k) (page_addr dir)" "table_of (memory k) (page_addr dir) = page_addr tab"
    "\<And>n. n < 1024 \<Longrightarrow> n < 256 \<or> i \<le> n \<Longrightarrow>
        pte (memory k) (page_addr dir) n = (if n < 256 then pte (memory k0) fd n else 0)"
    "\<And>n. 256 \<le> n \<Longrightarrow> n < i \<Longrightarrow> forked k0 fd child dir tab k n"
    "pageinfo k ! dir = \<lparr>owner = word_of_int child, refcount = 1\<rparr>"
    "pageinfo k ! tab = \<lparr>owner = word_of_int child, refcount = 1\<rparr>"
    "\<And>n. n < NPAGES \<Longrightarrow> \<not> used k0 n \<Longrightarrow> \<not> used k n
        \<or> pageinfo k ! n = \<lparr>owner = word_of_int child, refcount = 1\<rparr>"
    "\<And>n. n < NPAGES \<Longrightarrow> used k0 n \<Longrightarrow>
        refcount (pageinfo k ! n) = refcount (pageinfo k0 ! n) + word_of_nat (shared_upto k0 fd i n)"
    "\<And>n n'. 256 \<le> n \<Longrightarrow> n < n' \<Longrightarrow> n' < i \<Longrightarrow> pte (memory k0) fd n AND 7 = 7 \<Longrightarrow>
        pte (memory k0) fd n' AND 7 = 7 \<Longrightarrow> copy_page (memory k) dir n \<noteq> copy_page (memory k) dir n'"
  using assms by (auto simp only: fork_inv_def)

text \<open>One round writes at most the child's page table and one free page.\<close>

lemma fork_inv_step:
  assumes I: "fork_inv k0 fd child dir tab i k" and ch: "(word_of_int child :: u8) \<noteq> 0"
    and i: "256 \<le> i" "i < 768" and tab: "tab < NPAGES" "\<not> used k0 tab"
    and dir: "dir < NPAGES" "\<not> used k0 dir"
    and k': "k' = k\<lparr>pageinfo := ps, memory := m\<rparr>" "pages_ok k'"
    and own: "\<And>n. n < NPAGES \<Longrightarrow> used k n \<Longrightarrow> owner (ps ! n) = owner (pageinfo k ! n)"
    and new: "\<And>n. n < NPAGES \<Longrightarrow> \<not> used k0 n \<Longrightarrow> ps ! n = pageinfo k ! n
      \<or> (\<not> used k n \<and> ps ! n = \<lparr>owner = word_of_int child, refcount = 1\<rparr>)"
    and mem: "\<And>c. c < NPAGES \<Longrightarrow> used k c \<Longrightarrow> c \<noteq> tab \<Longrightarrow> agree (page c) (memory k) m"
    and wf: "wf_dir m (page_addr dir)" "table_of m (page_addr dir) = page_addr tab"
    and ptes: "\<And>n. n < 1024 \<Longrightarrow> n \<noteq> i \<Longrightarrow> pte m (page_addr dir) n = pte (memory k) (page_addr dir) n"
    and here: "forked k0 fd child dir tab k' i"
    and fresh: "pte (memory k0) fd i AND 7 = 7 \<Longrightarrow> \<not> used k (copy_page m dir i)"
    and refs: "\<And>n. n < NPAGES \<Longrightarrow> used k0 n \<Longrightarrow> refcount (ps ! n) =
      refcount (pageinfo k ! n) + (if shares (pte (memory k0) fd i) n then 1 else 0)"
  shows "fork_inv k0 fd child dir tab (Suc i) k'"
proof -
  note inv = fork_invD [OF I]
  have u: "used k n" if "n < NPAGES" "used k0 n" for n
    using inv(3) [OF that] that(2) by (simp add: used_def)
  have "agree (used_area k0) (memory k0) m"
  proof -
    have "agree (page c) (memory k) m" if "c < NPAGES" "used k0 c" for c
      using mem [OF that(1) u [OF that]] tab(2) that(2) by auto
    then have "agree (used_area k0) (memory k) m" by (auto simp: agree_def used_area_def)
    with inv(4) show ?thesis by (rule agree_trans)
  qed
  moreover have "forked k0 fd child dir tab k' n" if n: "256 \<le> n" "n < Suc i" for n
  proof (cases "n = i")
    case True
    then show ?thesis using here by simp
  next
    case False
    then have lt: "n < i" using n(2) by simp
    show ?thesis
    proof (rule forked_frame [OF inv(8) [OF n(1) lt] ch])
      show "pte (memory k') (page_addr dir) n = pte (memory k) (page_addr dir) n"
        using ptes [of n] lt i by (simp add: k'(1))
      show "agree (page c) (memory k) (memory k') \<and> pageinfo k' ! c = pageinfo k ! c"
        if "c < NPAGES" "\<not> used k0 c" "used k c" "c \<noteq> tab" for c
        using mem new [OF that(1,2)] that by (auto simp: k'(1))
    qed
  qed
  moreover have "pte m (page_addr dir) n = (if n < 256 then pte (memory k0) fd n else 0)"
    if "n < 1024" "n < 256 \<or> Suc i \<le> n" for n
    using ptes [of n] inv(7) [of n] that i by auto
  moreover have "k' = k0\<lparr>pageinfo := ps, memory := m\<rparr>"
    by (subst k'(1), subst inv(1)) simp
  moreover have "owner (ps ! n) = owner (pageinfo k0 ! n)" if "n < NPAGES" "used k0 n" for n
    using own [OF that(1) u [OF that]] inv(3) [OF that] by simp
  moreover have "ps ! dir = pageinfo k ! dir" "ps ! tab = pageinfo k ! tab"
    using new [OF dir] new [OF tab] inv(9,10) ch by (simp_all add: used_def)
  moreover have "\<not> used k' n \<or> ps ! n = \<lparr>owner = word_of_int child, refcount = 1\<rparr>"
    if "n < NPAGES" "\<not> used k0 n" for n
    using new [OF that] inv(11) [OF that] by (auto simp: used_def k'(1))
  moreover have "refcount (ps ! n) = refcount (pageinfo k0 ! n) + word_of_nat (shared_upto k0 fd (Suc i) n)"
    if "n < NPAGES" "used k0 n" for n
    using refs [OF that] inv(12) [OF that] i by (simp add: shared_upto_Suc)
  moreover have "copy_page m dir n \<noteq> copy_page m dir n'"
    if n: "256 \<le> n" "n < n'" "n' < Suc i" "pte (memory k0) fd n AND 7 = 7" "pte (memory k0) fd n' AND 7 = 7" for n n'
  proof -
    have same: "copy_page m dir l = copy_page (memory k) dir l" if "l < i" for l
      using ptes [of l] that i by (simp add: copy_page_def)
    show ?thesis
    proof (cases "n' = i")
      case True
      have "pageinfo k ! copy_page (memory k) dir n = \<lparr>owner = word_of_int child, refcount = 1\<rparr>"
        using inv(8) [of n] n True by (simp add: forked_def Let_def)
      then have "used k (copy_page (memory k) dir n)" using ch by (simp add: used_def)
      then show ?thesis using fresh n True same [of n] by auto
    next
      case False
      then show ?thesis using inv(13) [OF n(1,2) _ n(4,5)] same [of n] same [of n'] n by simp
    qed
  qed
  ultimately show ?thesis using k' wf inv(9,10) unfolding fork_inv_def by simp
qed

lemma map_page:
  assumes "wf_dir m pd" "i < 1024" "page_at pa" "unat perm < 4096"
  obtains m' where "virtual_memory_map pd (page_addr i) pa PAGESIZE perm m = Some m'"
    "wf_dir m' pd" "table_of m' pd = table_of m pd" "pte m' pd i = pa OR perm"
    "\<And>n. n < 1024 \<Longrightarrow> n \<noteq> i \<Longrightarrow> pte m' pd n = pte m pd n"
    "\<And>S. region (table_of m pd) 4096 \<inter> S = {} \<Longrightarrow> agree S m m'"
proof -
  have va: "unat (page_addr i) = 4096 * i" using unat_page_addr [of i] assms(2) by simp
  have sz: "unat PAGESIZE = 4096 * 1" by (simp add: PAGESIZE_def)
  have pa: "aligned pa" "unat pa + unat PAGESIZE < 2 ^ 32" using assms(3) by (simp_all add: page_at_def sz)
  have lt: "i + 1 \<le> 1024" using assms(2) by simp
  have perm: "unat perm < 0x1000" using assms(4) by simp
  obtain m' where m': "virtual_memory_map pd (page_addr i) pa PAGESIZE perm m = Some m'" "wf_dir m' pd"
      "table_of m' pd = table_of m pd"
    and ptes: "\<forall>j < 1024. pte m' pd j = (if i \<le> j \<and> j < i + 1 then (pa + 4096 * word_of_nat (j - i)) OR perm
                               else pte m pd j)"
    and out: "\<forall>S. region (table_of m pd) 4096 \<inter> S = {} \<longrightarrow> agree S m m'"
    using virtual_memory_map_ok [OF assms(1) va pa(1) sz lt pa(2) perm] by (elim exE conjE) (rule that)
  show thesis
  proof (rule that [OF m'])
    show "pte m' pd i = pa OR perm" using ptes assms(2) by simp
    show "pte m' pd n = pte m pd n" if "n < 1024" "n \<noteq> i" for n
    proof -
      have "\<not> (i \<le> n \<and> n < i + 1)" using that(2) by auto
      then show ?thesis using ptes [rule_format, OF that(1)] by (simp only: if_False)
    qed
  qed (use out in blast)
qed


lemma fork_page_writable:
  assumes I: "fork_inv k0 fd child dir tab i k" and ch: "(word_of_int child :: u8) \<noteq> 0"
    and i: "256 \<le> i" "i < 768" and tab: "tab < NPAGES" "\<not> used k0 tab"
    and dir: "dir < NPAGES" "\<not> used k0 dir" "dir \<noteq> tab" and fd: "dir_used k0 fd"
    and e: "pte (memory k0) fd i AND 7 = 7"
    and src: "page_at (PTE_ADDR (pte (memory k0) fd i))" "used k0 (page_number (PTE_ADDR (pte (memory k0) fd i)))"
    and p: "free_page k = Some p"
  shows "\<exists>k'. fork_page fd (page_addr dir) child i k = Some (True, k')
    \<and> fork_inv k0 fd child dir tab (Suc i) k'"
proof -
  note inv = fork_invD [OF I]
  let ?e = "pte (memory k0) fd i" and ?m = "memory k"
  have u: "used k n" if "n < NPAGES" "used k0 n" for n
    using inv(3) [OF that] that(2) by (simp add: used_def)
  have ud: "used k dir" "used k tab" using inv(9,10) ch by (simp_all add: used_def)
  have P: "p < NPAGES" "\<not> used k p" using free_page_SomeD [OF p] by simp_all
  then have ne: "p \<noteq> dir" "p \<noteq> tab" "\<not> used k0 p" using ud u by auto
  have i1: "i < 1024" using i by simp
  have eP: "?e AND PTE_P \<noteq> 0" using and_7 [OF e] by (simp add: PTE_P_def and_1)
  have look: "virtual_memory_lookup ?m fd (page_addr i) = Some ?e"
    using lookup_page [OF dir_used_agree(1) [OF fd inv(4)] i1] dir_used_agree(2) [OF fd inv(4) i1] eP by simp
  have fit: "in_physical (PTE_ADDR ?e) PAGESIZE"
    using src(1) by (simp add: in_physical_def page_at_def MEMSIZE_PHYSICAL_def PAGESIZE_def)
  define ma where "ma = memcpy ?m (page_addr p) (PTE_ADDR ?e) PAGESIZE"
  have P4: "unat (page_addr p) + 4096 \<le> 2 ^ 32" using page_at_addr [OF P(1)] by (simp add: page_at_def)
  have ama: "agree S ?m ma" if "page p \<inter> S = {}" for S
    unfolding ma_def using that P4 by (intro memcpy_outside) (simp_all add: PAGESIZE_def)
  have ad: "agree (page dir) ?m ma" "agree (page tab) ?m ma"
    using page_disjoint [OF P(1) dir(1) ne(1)] page_disjoint [OF P(1) tab(1) ne(2)] by (simp_all add: ama)
  have wa: "wf_dir ma (page_addr dir)" "table_of ma (page_addr dir) = page_addr tab"
    using wf_dir_agree [OF inv(5) ad(1)] table_of_agree [OF page_at_addr [OF dir(1)] ad(1)] inv(6) by simp_all
  have pa: "pte ma (page_addr dir) n = pte ?m (page_addr dir) n" if "n < 1024" for n
    using pte_agree [OF inv(5) ad(1) _ that] ad(2) inv(6) by simp
  have low: "unat (7 :: u32) < 4096" by simp
  obtain m' where m': "virtual_memory_map (page_addr dir) (page_addr i) (page_addr p) PAGESIZE 7 ma = Some m'"
    "wf_dir m' (page_addr dir)" "table_of m' (page_addr dir) = table_of ma (page_addr dir)"
    "pte m' (page_addr dir) i = page_addr p OR 7"
    and ptes: "\<And>n. n < 1024 \<Longrightarrow> n \<noteq> i \<Longrightarrow> pte m' (page_addr dir) n = pte ma (page_addr dir) n"
    and out: "\<And>S. region (table_of ma (page_addr dir)) 4096 \<inter> S = {} \<Longrightarrow> agree S ma m'"
    using map_page [OF wa(1) i1 page_at_addr [OF P(1)] low] by blast
  let ?k = "(own_page p child k)\<lparr>memory := m'\<rparr>"
  have amm: "agree (page c) ma m'" if "c < NPAGES" "c \<noteq> tab" for c
    using out [unfolded wa(2), OF page_disjoint [OF tab(1) that(1)]] that(2) by simp
  have ps: "length (pageinfo k) = NPAGES" using inv(2) by (simp add: pages_ok_def)
  have c: "copy_page m' dir i = p"
    using page_at_addr [OF P(1)] P(1)
    by (simp add: copy_page_def m'(4) PTE_ADDR_page page_at_def NPAGES_def)
  have seven: "PTE_P OR PTE_U OR PTE_W = 7" "PTE_P OR PTE_W OR PTE_U = 7"
    by (simp_all add: PTE_P_def PTE_W_def PTE_U_def)
  have run: "fork_page fd (page_addr dir) child i k = Some (True, ?k)"
    using look p fit e m'(1) page_addr_not_minus1 [OF P(1)]
    by (simp add: fork_page_def m_alloc_eq [OF inv(2)] seven assertion_def update_mem_def ma_def [symmetric])
  moreover have "fork_inv k0 fd child dir tab (Suc i) ?k"
  proof (rule fork_inv_step [OF I ch i tab dir(1,2)])
    show "?k = k\<lparr>pageinfo := (pageinfo k)[p := (pageinfo k ! p)\<lparr>refcount := 1, owner := word_of_int child\<rparr>], memory := m'\<rparr>"
      by (simp add: own_page_def)
    show "pages_ok ?k" using pages_ok_own_page [OF inv(2) P(1) ch] by (simp add: pages_ok_def)
    show "agree (page c) ?m m'" if "c < NPAGES" "used k c" "c \<noteq> tab" for c
      using ama [OF page_disjoint [OF P(1) that(1)]] amm [OF that(1,3)] that(2) P(2)
      by (auto intro: agree_trans [of _ _ ma])
    show "\<not> used k (copy_page m' dir i)" using P(2) c by simp
    show "refcount ((pageinfo k)[p := (pageinfo k ! p)\<lparr>refcount := 1, owner := word_of_int child\<rparr>] ! n)
      = refcount (pageinfo k ! n) + (if shares ?e n then 1 else 0)" if "n < NPAGES" "used k0 n" for n
      using that ne(3) e by (cases "n = p") (auto simp: shares_def)
    show "forked k0 fd child dir tab ?k i"
    proof -
      have "same_page ma (memory k0) p (PTE_ADDR ?e)" unfolding same_page_def
      proof (intro allI impI)
        fix x :: u32 assume x: "unat x < 4096"
        have "PTE_ADDR ?e \<noteq> page_addr p"
          using used_page_ne [OF P(1) src(1) _ P(2)] u [OF page_at_number(1) [OF src(1)] src(2)] by simp
        then have "ma (page_addr p + x) = ?m (PTE_ADDR ?e + x)"
          using page_at_addr [OF P(1)] src(1) x unfolding ma_def
          by (subst memcpy_page_at) (auto simp: page_at_def in_range_def PAGESIZE_def)
        also have "\<dots> = memory k0 (PTE_ADDR ?e + x)"
        proof -
          have "unat (PTE_ADDR ?e + x) \<in> region (PTE_ADDR ?e) 4096"
            using src(1) x by (subst region_at) (auto simp: page_at_def)
          then show ?thesis using agree_used_page [OF src inv(4)] by (simp add: agree_def)
        qed
        finally show "ma (page_addr p + x) = memory k0 (PTE_ADDR ?e + x)" .
      qed
      then have "same_page m' (memory k0) p (PTE_ADDR ?e)"
        by (rule same_page_agree [OF _ P(1) amm [OF P(1) ne(2)]])
      then show ?thesis using e P(1) ne m'(4) ps by (simp add: forked_def c own_page_def)
    qed
    show "(pageinfo k)[p := (pageinfo k ! p)\<lparr>refcount := 1, owner := word_of_int child\<rparr>] ! n = pageinfo k ! n
      \<or> (\<not> used k n \<and> (pageinfo k)[p := (pageinfo k ! p)\<lparr>refcount := 1, owner := word_of_int child\<rparr>] ! n
            = \<lparr>owner = word_of_int child, refcount = 1\<rparr>)" if "n < NPAGES" for n
      using that P ps by (cases "n = p") auto
  qed (use P ne ps wa m' ptes pa in \<open>auto simp: nth_list_update\<close>)
  ultimately show ?thesis by blast
qed


lemma fork_page_readable:
  assumes I: "fork_inv k0 fd child dir tab i k" and ch: "(word_of_int child :: u8) \<noteq> 0"
    and i: "256 \<le> i" "i < 768" and tab: "tab < NPAGES" "\<not> used k0 tab"
    and dir: "dir < NPAGES" "\<not> used k0 dir" "dir \<noteq> tab" and fd: "dir_used k0 fd"
    and e: "pte (memory k0) fd i AND 7 \<noteq> 7" "pte (memory k0) fd i AND 5 = 5"
    and src: "page_at (PTE_ADDR (pte (memory k0) fd i))" "used k0 (page_number (PTE_ADDR (pte (memory k0) fd i)))"
  shows "\<exists>k'. fork_page fd (page_addr dir) child i k = Some (True, k')
    \<and> fork_inv k0 fd child dir tab (Suc i) k'"
proof -
  note inv = fork_invD [OF I]
  let ?e = "pte (memory k0) fd i" and ?m = "memory k"
  let ?q = "page_number (PTE_ADDR ?e)"
  have i1: "i < 1024" using i by simp
  have eP: "?e AND PTE_P \<noteq> 0"
  proof -
    have "bit (?e AND 5) 0" unfolding e(2) by (simp add: bit_0)
    then show ?thesis by (simp add: PTE_P_def and_1 bit_simps)
  qed
  have look: "virtual_memory_lookup ?m fd (page_addr i) = Some ?e"
    using lookup_page [OF dir_used_agree(1) [OF fd inv(4)] i1] dir_used_agree(2) [OF fd inv(4) i1] eP by simp
  have low: "unat (5 :: u32) < 4096" by simp
  obtain m' where m': "virtual_memory_map (page_addr dir) (page_addr i) (PTE_ADDR ?e) PAGESIZE 5 ?m = Some m'"
    "wf_dir m' (page_addr dir)" "table_of m' (page_addr dir) = table_of ?m (page_addr dir)"
    "pte m' (page_addr dir) i = PTE_ADDR ?e OR 5"
    and ptes: "\<And>n. n < 1024 \<Longrightarrow> n \<noteq> i \<Longrightarrow> pte m' (page_addr dir) n = pte ?m (page_addr dir) n"
    and out: "\<And>S. region (table_of ?m (page_addr dir)) 4096 \<inter> S = {} \<Longrightarrow> agree S ?m m'"
    using map_page [OF inv(5) i1 src(1) low] by blast
  let ?ps = "(pageinfo k)[?q := (pageinfo k ! ?q)\<lparr>refcount := refcount (pageinfo k ! ?q) + 1\<rparr>]"
  let ?k = "k\<lparr>pageinfo := ?ps, memory := m'\<rparr>"
  have q: "?q < NPAGES" by (rule page_at_number(1) [OF src(1)])
  have uq: "used k ?q" using inv(3) [OF q src(2)] src(2) by (simp add: used_def)
  have bits: "PTE_P OR PTE_U OR PTE_W = 7" "PTE_P OR PTE_U = 5"
    by (simp_all add: PTE_P_def PTE_W_def PTE_U_def)
  have "update_page ?q (\<lambda>p. p\<lparr>refcount := refcount p + 1\<rparr>) (k\<lparr>memory := m'\<rparr>) = ?k"
    by (simp add: update_page_def)
  then have run: "fork_page fd (page_addr dir) child i k = Some (True, ?k)"
    using look e m'(1) q
    by (simp add: fork_page_def bits assertion_def update_mem_def)
  moreover have "fork_inv k0 fd child dir tab (Suc i) ?k"
  proof (rule fork_inv_step [OF I ch i tab dir(1,2)])
    show "?k = k\<lparr>pageinfo := ?ps, memory := m'\<rparr>" by simp
    show "pages_ok ?k"
      using inv(2) uq q unfolding pages_ok_def by (auto simp: list_all_length nth_list_update used_def)
    show "owner (?ps ! n) = owner (pageinfo k ! n)" if "n < NPAGES" for n
      using that inv(2) q by (simp add: nth_list_update pages_ok_def)
    show "?ps ! n = pageinfo k ! n \<or> (\<not> used k n \<and> ?ps ! n = \<lparr>owner = word_of_int child, refcount = 1\<rparr>)"
      if "n < NPAGES" "\<not> used k0 n" for n
    proof -
      have "n \<noteq> ?q" using that src(2) by auto
      then show ?thesis by simp
    qed
    show "agree (page c) ?m m'" if "c < NPAGES" "c \<noteq> tab" for c
      using out [unfolded inv(6), OF page_disjoint [OF tab(1) that(1)]] that(2) by simp
    show "forked k0 fd child dir tab ?k i" using e m'(4) by (simp add: forked_def)
    show "refcount (?ps ! n) = refcount (pageinfo k ! n) + (if shares ?e n then 1 else 0)"
      if "n < NPAGES" for n
      using that inv(2) e by (cases "n = ?q") (auto simp: shares_def pages_ok_def)
  qed (use m' ptes inv(6) e(1) in auto)
  ultimately show ?thesis by blast
qed

lemma fork_page_other:
  assumes I: "fork_inv k0 fd child dir tab i k" and ch: "(word_of_int child :: u8) \<noteq> 0"
    and i: "256 \<le> i" "i < 768" and tab: "tab < NPAGES" "\<not> used k0 tab"
    and dir: "dir < NPAGES" "\<not> used k0 dir" and fd: "dir_used k0 fd"
    and e: "pte (memory k0) fd i AND 5 \<noteq> 5"
  shows "\<exists>k'. fork_page fd (page_addr dir) child i k = Some (True, k')
    \<and> fork_inv k0 fd child dir tab (Suc i) k'"
proof -
  note inv = fork_invD [OF I]
  let ?e = "pte (memory k0) fd i" and ?m = "memory k"
  have i1: "i < 1024" using i by simp
  have e7: "?e AND 7 \<noteq> 7"
  proof
    assume "?e AND 7 = 7"
    have "?e AND 5 = (?e AND 7) AND 5" by (simp add: and.assoc)
    also have "\<dots> = 5" using \<open>?e AND 7 = 7\<close> by simp
    finally show False using e by simp
  qed
  have look: "virtual_memory_lookup ?m fd (page_addr i) = Some (if ?e AND PTE_P \<noteq> 0 then ?e else 0)"
    using lookup_page [OF dir_used_agree(1) [OF fd inv(4)] i1] dir_used_agree(2) [OF fd inv(4) i1] by simp
  have bits: "PTE_P OR PTE_U OR PTE_W = 7" "PTE_P OR PTE_U = 5"
    by (simp_all add: PTE_P_def PTE_W_def PTE_U_def)
  have run: "fork_page fd (page_addr dir) child i k = Some (True, k)"
    using look e e7 and_mask_P [of ?e] by (simp add: fork_page_def bits split: if_splits)
  moreover have "fork_inv k0 fd child dir tab (Suc i) k"
  proof (rule fork_inv_step [OF I ch i tab dir])
    show "k = k\<lparr>pageinfo := pageinfo k, memory := memory k\<rparr>" by simp
    show "forked k0 fd child dir tab k i" using e e7 inv(7) [of i] i i1 by (simp add: forked_def)
    show "refcount (pageinfo k ! n) = refcount (pageinfo k ! n) + (if shares ?e n then 1 else 0)" for n
      using e by (simp add: shares_def)
  qed (use inv e7 in auto)
  ultimately show ?thesis by blast
qed

lemma fork_pages_ok:
  assumes ch: "(word_of_int child :: u8) \<noteq> 0" and tab: "tab < NPAGES" "\<not> used k0 tab"
    and dir: "dir < NPAGES" "\<not> used k0 dir" "dir \<noteq> tab" and sp: "space_ok k0 fd"
  shows "fork_inv k0 fd child dir tab i k \<Longrightarrow> 256 \<le> i \<Longrightarrow> i + n = 768 \<Longrightarrow>
    \<exists>ok k'. fork_pages fd (page_addr dir) child [i..<768] k = Some (ok, k')
      \<and> (if ok then fork_inv k0 fd child dir tab 768 k'
         else \<exists>j. j < 768 \<and> fork_inv k0 fd child dir tab j k' \<and> free_page k' = None)"
proof (induction n arbitrary: i k)
  case 0
  then show ?case by (auto intro!: exI [of _ True])
next
  case (Suc n)
  let ?e = "pte (memory k0) fd i"
  have i: "256 \<le> i" "i < 768" using Suc.prems by simp_all
  have fd: "dir_used k0 fd" using sp by (simp add: space_ok_def)
  have "i \<in> set [256..<768]" using i by (simp only: set_upt atLeastLessThan_iff)
  with sp have ue: "user_page_ok k0 ?e" unfolding space_ok_def list_all_iff by blast
  have l: "[i..<768] = i # [Suc i..<768]" using i by (simp add: upt_conv_Cons)
  have "(\<exists>k'. fork_page fd (page_addr dir) child i k = Some (True, k') \<and> fork_inv k0 fd child dir tab (Suc i) k')
    \<or> (fork_page fd (page_addr dir) child i k = Some (False, k) \<and> free_page k = None)"
  proof (cases "?e AND 5 = 5")
    case False
    then show ?thesis using fork_page_other [OF Suc.prems(1) ch i tab dir(1,2) fd] by blast
  next
    case True
    then have src: "page_at (PTE_ADDR ?e)" "used k0 (page_number (PTE_ADDR ?e))"
      using ue by (simp_all add: user_page_ok_def)
    show ?thesis
    proof (cases "?e AND 7 = 7")
      case False
      then show ?thesis using fork_page_readable [OF Suc.prems(1) ch i tab dir fd _ True src] by blast
    next
      case w: True
      show ?thesis
      proof (cases "free_page k")
        case (Some p)
        then show ?thesis using fork_page_writable [OF Suc.prems(1) ch i tab dir fd w src Some] by blast
      next
        case None
        note inv = fork_invD [OF Suc.prems(1)]
        have i1: "i < 1024" using i by simp
        have "virtual_memory_lookup (memory k) fd (page_addr i) = Some ?e"
          using lookup_page [OF dir_used_agree(1) [OF fd inv(4)] i1] dir_used_agree(2) [OF fd inv(4) i1]
            and_7 [OF w] by (simp add: PTE_P_def and_1)
        moreover have "PTE_P OR PTE_U OR PTE_W = 7" by (simp add: PTE_P_def PTE_W_def PTE_U_def)
        ultimately have "fork_page fd (page_addr dir) child i k = Some (False, k)"
          using w None by (simp add: fork_page_def m_alloc_eq [OF inv(2)])
        then show ?thesis using None by blast
      qed
    qed
  qed
  then show ?case
  proof (elim disjE exE conjE)
    fix k' assume k': "fork_page fd (page_addr dir) child i k = Some (True, k')"
      "fork_inv k0 fd child dir tab (Suc i) k'"
    then show ?thesis using Suc.IH [OF k'(2)] Suc.prems(3) i by (simp add: l)
  next
    assume "fork_page fd (page_addr dir) child i k = Some (False, k)" "free_page k = None"
    then show ?thesis using Suc.prems(1) i by (auto simp: l)
  qed
qed

section \<open>Releasing a process\<close>

lemma m_free_last:
  assumes "i < NPAGES" "length (pageinfo k) = NPAGES" "refcount (pageinfo k ! i) = 1"
  shows "m_free (page_addr i) k = Some (k\<lparr>pageinfo := (pageinfo k)[i := \<lparr>owner = 0, refcount = 0\<rparr>]\<rparr>)"
proof -
  have n: "page_number (page_addr i) = i" using assms(1) by (simp add: NPAGES_def)
  have eq: "p\<lparr>refcount := 0, owner := 0\<rparr> = \<lparr>owner = 0, refcount = 0\<rparr>" for p :: pageinfo_t
    by (cases p) simp
  show ?thesis
    using assms by (simp add: m_free_def n assertion_def update_page_def PO_FREE_def eq)
qed

lemma release_pages_last:
  assumes "pid \<noteq> 0" "length (pageinfo k) = NPAGES" "distinct is" "set is \<subseteq> {..<NPAGES}"
    and "\<And>n. n \<in> set is \<Longrightarrow> sint (owner (pageinfo k ! n)) = pid \<Longrightarrow> refcount (pageinfo k ! n) = 1"
  shows "\<exists>ps. release_pages pid is k = Some (k\<lparr>pageinfo := ps\<rparr>) \<and> length ps = NPAGES \<and>
    (\<forall>n < NPAGES. ps ! n = (if n \<in> set is \<and> sint (owner (pageinfo k ! n)) = pid
       then \<lparr>owner = 0, refcount = 0\<rparr> else pageinfo k ! n))"
  using assms(2-)
proof (induction "is" arbitrary: k)
  case Nil
  then show ?case by (intro exI [of _ "pageinfo k"]) simp
next
  case (Cons i "is")
  have i: "i < NPAGES" "i \<notin> set is" using Cons.prems by simp_all
  show ?case
  proof (cases "sint (owner (pageinfo k ! i)) = pid")
    case True
    let ?k = "k\<lparr>pageinfo := (pageinfo k)[i := \<lparr>owner = 0, refcount = 0\<rparr>]\<rparr>"
    have step: "m_free (page_addr i) k = Some ?k"
      using True Cons.prems i by (intro m_free_last) simp_all
    have "\<exists>ps. release_pages pid is ?k = Some (?k\<lparr>pageinfo := ps\<rparr>) \<and> length ps = NPAGES \<and>
      (\<forall>n < NPAGES. ps ! n = (if n \<in> set is \<and> sint (owner (pageinfo ?k ! n)) = pid
         then \<lparr>owner = 0, refcount = 0\<rparr> else pageinfo ?k ! n))"
    proof (rule Cons.IH)
      fix n assume n: "n \<in> set is" "sint (owner (pageinfo ?k ! n)) = pid"
      then have "n \<noteq> i" using i by auto
      then show "refcount (pageinfo ?k ! n) = 1" using n Cons.prems(4) [of n] by simp
    qed (use Cons.prems in simp_all)
    then obtain ps where ps: "release_pages pid is ?k = Some (?k\<lparr>pageinfo := ps\<rparr>)" "length ps = NPAGES"
      and at: "\<And>n. n < NPAGES \<Longrightarrow> ps ! n = (if n \<in> set is \<and> sint (owner (pageinfo ?k ! n)) = pid
         then \<lparr>owner = 0, refcount = 0\<rparr> else pageinfo ?k ! n)"
      by (elim exE conjE) (rule that, iprover+)
    have "ps ! n = (if n \<in> set (i # is) \<and> sint (owner (pageinfo k ! n)) = pid
         then \<lparr>owner = 0, refcount = 0\<rparr> else pageinfo k ! n)" if "n < NPAGES" for n
      using at [OF that] i Cons.prems(1) True assms(1) by (cases "n = i") auto
    then show ?thesis using step ps True by (auto simp: exI [of _ ps])
  next
    case False
    have "\<exists>ps. release_pages pid is k = Some (k\<lparr>pageinfo := ps\<rparr>) \<and> length ps = NPAGES \<and>
      (\<forall>n < NPAGES. ps ! n = (if n \<in> set is \<and> sint (owner (pageinfo k ! n)) = pid
         then \<lparr>owner = 0, refcount = 0\<rparr> else pageinfo k ! n))"
      using Cons.prems by (intro Cons.IH) simp_all
    moreover have "release_pages pid (i # is) k = release_pages pid is k" using False by simp
    ultimately show ?thesis using False by fastforce
  qed
qed

lemma release_process:
  assumes p: "p < length (processes k)" and pid: "p_pid (processes k ! p) \<noteq> 0"
    and len: "length (pageinfo k) = NPAGES"
    and one: "\<And>n. n < NPAGES \<Longrightarrow> sint (owner (pageinfo k ! n)) = p_pid (processes k ! p) \<Longrightarrow>
      refcount (pageinfo k ! n) = 1"
  obtains ps where "m_releaseMemoryforProcess p k =
      Some (update_proc p (\<lambda>q. q\<lparr>p_state := P_FREE\<rparr>) (k\<lparr>pageinfo := ps\<rparr>))"
    "length ps = NPAGES"
    "\<And>n. n < NPAGES \<Longrightarrow> ps ! n = (if sint (owner (pageinfo k ! n)) = p_pid (processes k ! p)
       then \<lparr>owner = 0, refcount = 0\<rparr> else pageinfo k ! n)"
proof -
  let ?pid = "p_pid (processes k ! p)"
  let ?b = "update_proc p (\<lambda>q. q\<lparr>p_state := P_BLOCKED\<rparr>) k"
  have b: "pageinfo ?b = pageinfo k" "p_pid (processes ?b ! p) = ?pid"
    using p by (simp_all add: update_proc_def)
  have "\<exists>ps. release_pages ?pid [0..<NPAGES] ?b = Some (?b\<lparr>pageinfo := ps\<rparr>) \<and> length ps = NPAGES \<and>
    (\<forall>n < NPAGES. ps ! n = (if n \<in> set [0..<NPAGES] \<and> sint (owner (pageinfo ?b ! n)) = ?pid
       then \<lparr>owner = 0, refcount = 0\<rparr> else pageinfo ?b ! n))"
    using pid len one by (intro release_pages_last) (auto simp: b)
  then have "\<exists>ps. release_pages ?pid [0..<NPAGES] ?b = Some (?b\<lparr>pageinfo := ps\<rparr>) \<and> length ps = NPAGES \<and>
    (\<forall>n < NPAGES. ps ! n = (if sint (owner (pageinfo k ! n)) = ?pid
       then \<lparr>owner = 0, refcount = 0\<rparr> else pageinfo k ! n))"
    unfolding b by simp
  then obtain ps where ps: "release_pages ?pid [0..<NPAGES] ?b = Some (?b\<lparr>pageinfo := ps\<rparr>)"
      "length ps = NPAGES"
    and at: "\<And>n. n < NPAGES \<Longrightarrow> ps ! n = (if sint (owner (pageinfo k ! n)) = ?pid
       then \<lparr>owner = 0, refcount = 0\<rparr> else pageinfo k ! n)"
    by (elim exE conjE) (rule that, iprover+)
  have none: "list_all (\<lambda>i. sint (owner (ps ! i)) \<noteq> ?pid) [0..<NPAGES]"
    using at pid by (auto simp: list_all_iff)
  have fin: "update_proc p (\<lambda>q. q\<lparr>p_state := P_FREE\<rparr>) (?b\<lparr>pageinfo := ps\<rparr>)
      = update_proc p (\<lambda>q. q\<lparr>p_state := P_FREE\<rparr>) (k\<lparr>pageinfo := ps\<rparr>)"
    using p by (simp add: update_proc_def)
  have "m_releaseMemoryforProcess p k =
      Some (update_proc p (\<lambda>q. q\<lparr>p_state := P_FREE\<rparr>) (k\<lparr>pageinfo := ps\<rparr>))"
    unfolding m_releaseMemoryforProcess_def Let_def b(2) ps(1) fin [symmetric]
    using none by (simp add: assertion_def)
  then show thesis using ps(2) at by (rule that)
qed

section \<open>The system call\<close>

definition child_of :: "proc \<Rightarrow> nat \<Rightarrow> procstate \<Rightarrow> u32 \<Rightarrow> proc" where
  "child_of f slot st pd = \<lparr>p_pid = int slot, p_registers = (p_registers f)\<lparr>reg_eax := 0\<rparr>,
     p_state = st, p_pagedir = pd\<rparr>"

definition with_eax :: "proc \<Rightarrow> u32 \<Rightarrow> proc" where
  "with_eax f v = f\<lparr>p_registers := (p_registers f)\<lparr>reg_eax := v\<rparr>\<rparr>"

text \<open>The reference counts after the read-only pages below page number \<open>i\<close> have been shared.\<close>

definition references_added :: "'d kernel \<Rightarrow> u32 \<Rightarrow> nat \<Rightarrow> 'd kernel \<Rightarrow> bool" where
  "references_added k fd i k' \<longleftrightarrow> (\<forall>n < NPAGES. used k n \<longrightarrow> pageinfo k' ! n =
     \<lparr>owner = owner (pageinfo k ! n), refcount = refcount (pageinfo k ! n) + word_of_nat (shared_upto k fd i n)\<rparr>)"

definition fork_success :: "'d kernel \<Rightarrow> nat \<Rightarrow> nat \<Rightarrow> 'd kernel \<Rightarrow> bool" where
  "fork_success k father slot k' \<longleftrightarrow>
     (let f = processes k ! father; pd = p_pagedir (processes k' ! slot); m = memory k';
          dir = page_number pd; tab = page_number (table_of m pd) in
      processes k' = (processes k)[slot := child_of f slot P_RUNNABLE pd, father := with_eax f (word_of_nat slot)]
      \<and> wf_dir m pd \<and> \<not> used k dir \<and> \<not> used k tab
      \<and> pageinfo k' ! dir = \<lparr>owner = word_of_nat slot, refcount = 1\<rparr>
      \<and> pageinfo k' ! tab = \<lparr>owner = word_of_nat slot, refcount = 1\<rparr>
      \<and> (\<forall>n < NPAGES. \<not> used k n \<longrightarrow> \<not> used k' n
           \<or> pageinfo k' ! n = \<lparr>owner = word_of_nat slot, refcount = 1\<rparr>)
      \<and> (\<forall>n < 256. pte m pd n = pte (memory k) (p_pagedir f) n)
      \<and> (\<forall>n. 256 \<le> n \<and> n < 768 \<longrightarrow> forked k (p_pagedir f) (int slot) dir tab k' n)
      \<and> (\<forall>n n'. 256 \<le> n \<and> n < n' \<and> n' < 768 \<and> pte (memory k) (p_pagedir f) n AND 7 = 7
           \<and> pte (memory k) (p_pagedir f) n' AND 7 = 7 \<longrightarrow> copy_page m dir n \<noteq> copy_page m dir n')
      \<and> (\<forall>n. 768 \<le> n \<and> n < 1024 \<longrightarrow> pte m pd n = 0)
      \<and> references_added k (p_pagedir f) 768 k')"

definition fork_failure :: "'d kernel \<Rightarrow> nat \<Rightarrow> nat \<Rightarrow> 'd kernel \<Rightarrow> bool" where
  "fork_failure k father slot k' \<longleftrightarrow>
     (let f = processes k ! father; pd = p_pagedir (processes k' ! slot) in
      processes k' = (processes k)[slot := child_of f slot P_FREE pd, father := with_eax f (- 1)]
      \<and> map owner (pageinfo k') = map owner (pageinfo k)
      \<and> (\<exists>i \<le> 768. references_added k (p_pagedir f) i k'))"

lemma same_pages:
  assumes "memory k' = memory k" "pageinfo k' = pageinfo k"
  shows "pages_ok k' = pages_ok k" "used k' = used k" "free_page k' = free_page k"
    "dir_used k' = dir_used k" "space_ok k' = space_ok k" "used_area k' = used_area k"
    "forked k' fd c dir tab k2 n = forked k fd c dir tab k2 n"
proof -
  show u: "used k' = used k" by (rule ext) (simp add: used_def assms)
  show "dir_used k' = dir_used k" by (rule ext) (simp add: dir_used_def u assms)
  then show "space_ok k' = space_ok k"
    by (intro ext) (simp only: space_ok_def user_page_ok_def u assms)
qed (simp_all add: pages_ok_def free_page_def used_def used_area_def forked_def assms)

text \<open>Releasing a child whose pages are its own puts \<open>pageinfo\<close> back.\<close>

lemma release_child:
  assumes slot: "slot < length (processes k2)" "p_pid (processes k2 ! slot) = int slot" "0 < slot" "slot < NPROC"
    and ok: "pages_ok k2" and k0: "length (pageinfo k0) = NPAGES"
    and old: "\<And>n. n < NPAGES \<Longrightarrow> used k0 n \<Longrightarrow> owner (pageinfo k2 ! n) = owner (pageinfo k0 ! n)"
    and none: "\<And>n. n < NPAGES \<Longrightarrow> sint (owner (pageinfo k0 ! n)) \<noteq> int slot"
    and new: "\<And>n. n < NPAGES \<Longrightarrow> \<not> used k0 n \<Longrightarrow> \<not> used k2 n
        \<or> pageinfo k2 ! n = \<lparr>owner = word_of_int (int slot), refcount = 1\<rparr>"
  shows "\<exists>ps. m_releaseMemoryforProcess slot k2 =
      Some (update_proc slot (\<lambda>q. q\<lparr>p_state := P_FREE\<rparr>) (k2\<lparr>pageinfo := ps\<rparr>))
    \<and> map owner ps = map owner (pageinfo k0) \<and> pages_ok (k2\<lparr>pageinfo := ps\<rparr>)
    \<and> (\<forall>n < NPAGES. used k0 n \<longrightarrow> ps ! n = pageinfo k2 ! n)"
proof -
  have s: "sint (word_of_int (int slot) :: u8) = int slot"
    using slot(4) unfolding signed_of_int NPROC_def
    by (simp add: signed_take_bit_int_eq_self_iff)
  have len: "length (pageinfo k2) = NPAGES" using ok by (simp add: pages_ok_def)
  have one: "refcount (pageinfo k2 ! n) = 1"
    if n: "n < NPAGES" "sint (owner (pageinfo k2 ! n)) = p_pid (processes k2 ! slot)" for n
  proof (cases "used k0 n")
    case True
    then show ?thesis using old [OF n(1)] none [OF n(1)] n(2) slot(2) by simp
  next
    case False
    moreover have "used k2 n" using n(2) slot(2,3) unfolding used_def by auto
    ultimately show ?thesis using new [OF n(1)] by auto
  qed
  have pid: "p_pid (processes k2 ! slot) \<noteq> 0" using slot(2,3) by simp
  obtain ps where ps: "m_releaseMemoryforProcess slot k2 =
      Some (update_proc slot (\<lambda>q. q\<lparr>p_state := P_FREE\<rparr>) (k2\<lparr>pageinfo := ps\<rparr>))" "length ps = NPAGES"
    and at: "\<And>n. n < NPAGES \<Longrightarrow> ps ! n = (if sint (owner (pageinfo k2 ! n)) = p_pid (processes k2 ! slot)
       then \<lparr>owner = 0, refcount = 0\<rparr> else pageinfo k2 ! n)"
    using release_process [OF slot(1) pid len one] by blast
  have "map owner ps = map owner (pageinfo k0)"
  proof (rule nth_equalityI)
    fix n assume "n < length (map owner ps)"
    then have n: "n < NPAGES" using ps(2) by simp
    show "map owner ps ! n = map owner (pageinfo k0) ! n"
    proof (cases "used k0 n")
      case True
      then show ?thesis using at [OF n] old [OF n] none [OF n] n ps(2) k0 slot(2) by simp
    next
      case False
      have "owner (ps ! n) = 0"
        using new [OF n False] at [OF n] s slot(2) by (auto simp: used_def)
      then show ?thesis using False n ps(2) k0 by (simp add: used_def)
    qed
  qed (use ps(2) k0 in simp)
  moreover have "pages_ok (k2\<lparr>pageinfo := ps\<rparr>)"
    using ok ps(2) at unfolding pages_ok_def by (auto simp: list_all_length)
  moreover have "ps ! n = pageinfo k2 ! n" if "n < NPAGES" "used k0 n" for n
    using at [OF that(1)] old [OF that] none [OF that(1)] slot(2) by simp
  ultimately show ?thesis using ps(1) by blast
qed


lemma child_update:
  "q\<lparr>p_pid := int slot, p_registers := (p_registers f)\<lparr>reg_eax := 0\<rparr>, p_state := st\<rparr> =
    child_of f slot st (p_pagedir q)"
  by (cases q) (simp add: child_of_def)

lemma child_pagedir: "(child_of f slot st pd)\<lparr>p_pagedir := pd'\<rparr> = child_of f slot st pd'"
  by (simp add: child_of_def)

lemma failure_state:
  assumes "slot < length (processes k)" "father < length (processes k)" "father \<noteq> slot"
    and "processes k2 = (processes k)[slot := child_of (processes k ! father) slot P_RUNNABLE pd]"
    and "map owner ps = map owner (pageinfo k)"
    and i: "i \<le> 768" "references_added k (p_pagedir (processes k ! father)) i (k2\<lparr>pageinfo := ps\<rparr>)"
  shows "fork_failure k father slot
    (set_eax father (- 1) (update_proc slot (\<lambda>q. q\<lparr>p_state := P_FREE\<rparr>) (k2\<lparr>pageinfo := ps\<rparr>)))"
proof -
  have "references_added k (p_pagedir (processes k ! father)) i
      (set_eax father (- 1) (update_proc slot (\<lambda>q. q\<lparr>p_state := P_FREE\<rparr>) (k2\<lparr>pageinfo := ps\<rparr>)))"
    using i(2) by (simp add: references_added_def set_eax_def update_proc_def)
  with i(1) assms(1-5) show ?thesis
    by (auto simp: fork_failure_def Let_def set_eax_def update_proc_def child_of_def with_eax_def)
qed

lemma fork_start:
  fixes k k0 :: "'d kernel"
  assumes ok: "pages_ok k" and dir: "dir_used k fd" and ch: "(word_of_int child :: u8) \<noteq> 0"
    and i: "free_page k = Some i" and j: "free_page (own_page i child k) = Some j"
    and k0: "memory k0 = memory k" "pageinfo k0 = pageinfo k"
    and k2: "\<And>m'. k2 m' = k0\<lparr>pageinfo := pageinfo (own_page j child (own_page i child k)), memory := m'\<rparr>"
  obtains m' where
    "copy_pagedir fd child k = Some (page_addr i, (own_page j child (own_page i child k))\<lparr>memory := m'\<rparr>)"
    "i < NPAGES" "j < NPAGES" "i \<noteq> j" "\<not> used k i" "\<not> used k j"
    "fork_inv k0 fd child i j 256 (k2 m')"
proof -
  obtain m' where m': "copy_pagedir fd child k = Some (page_addr i, (own_page j child (own_page i child k))\<lparr>memory := m'\<rparr>)"
    and ij: "i < NPAGES" "j < NPAGES" "i \<noteq> j" "\<not> used k i" "\<not> used k j"
    and wf: "wf_dir m' (page_addr i)" "table_of m' (page_addr i) = page_addr j"
    and ptes: "\<And>n. n < 1024 \<Longrightarrow> pte m' (page_addr i) n = (if n < 256 then pte (memory k) fd n else 0)"
    and out: "\<And>S. page i \<inter> S = {} \<Longrightarrow> page j \<inter> S = {} \<Longrightarrow> agree S (memory k) m'"
    by (rule copy_pagedir_some [OF ok ch dir i j]) (rule that)
  have len: "length (pageinfo k) = NPAGES" using ok by (simp add: pages_ok_def)
  let ?ps = "pageinfo (own_page j child (own_page i child k))"
  have ps: "?ps ! n = (if n = i \<or> n = j then \<lparr>owner = word_of_int child, refcount = 1\<rparr> else pageinfo k ! n)"
    if "n < NPAGES" for n
  proof -
    have eq: "p\<lparr>refcount := 1, owner := w\<rparr> = \<lparr>owner = w, refcount = 1\<rparr>" for p :: pageinfo_t and w
      by (cases p) simp
    show ?thesis using that ij len by (simp add: own_page_def eq nth_list_update)
  qed
  have "pages_ok (k2 m')"
    using pages_ok_own_page [OF pages_ok_own_page [OF ok ij(1) ch] ij(2) ch] by (simp add: k2 pages_ok_def)
  moreover have "agree (used_area k0) (memory k0) m'"
  proof -
    have "page n \<inter> page i = {}" "page n \<inter> page j = {}" if "n < NPAGES" "used k n" for n
      using that ij page_disjoint by metis+
    then have "agree (page n) (memory k) m'" if "n < NPAGES" "used k n" for n
      using that by (intro out) blast+
    then have "agree (used_area k) (memory k) m'" by (auto simp: agree_def used_area_def)
    then show ?thesis by (simp only: same_pages(6) [OF k0] k0(1))
  qed
  ultimately have "fork_inv k0 fd child i j 256 (k2 m')"
    using wf ptes ps ij k0 by (auto simp: fork_inv_def k2 used_def)
  with m' ij show thesis by (rule that)
qed

lemma fork_success_state:
  assumes I: "fork_inv k0 fd (int slot) dir tab 768 k'" and k0: "memory k0 = memory k" "pageinfo k0 = pageinfo k"
    and ps: "processes k0 = (processes k)[slot := child_of (processes k ! father) slot P_RUNNABLE (page_addr dir)]"
    and sl: "slot < length (processes k)" "father < length (processes k)" "father \<noteq> slot"
    and fd: "fd = p_pagedir (processes k ! father)"
    and new: "dir < NPAGES" "tab < NPAGES" "\<not> used k dir" "\<not> used k tab"
  shows "fork_success k father slot (set_eax father (word_of_nat slot) k')"
proof -
  note inv = fork_invD [OF I]
  let ?k = "set_eax father (word_of_nat slot) k'"
  have pr: "processes k' = processes k0" by (subst inv(1)) simp
  have "processes ?k = (processes k)[slot := child_of (processes k ! father) slot P_RUNNABLE (page_addr dir),
      father := with_eax (processes k ! father) (word_of_nat slot)]"
    using sl by (simp add: set_eax_def update_proc_def pr ps with_eax_def)
  moreover from this have "p_pagedir (processes ?k ! slot) = page_addr dir"
    using sl by (simp add: child_of_def)
  moreover have m: "memory ?k = memory k'" "pageinfo ?k = pageinfo k'"
    by (simp_all add: set_eax_def update_proc_def)
  moreover have "page_number (page_addr dir) = dir" "page_number (table_of (memory k') (page_addr dir)) = tab"
    using new inv(6) by (simp_all add: NPAGES_def)
  moreover have "forked k fd (int slot) dir tab ?k n" if "256 \<le> n" "n < 768" for n
    using inv(8) [OF that] unfolding forked_def used_def m k0 .
  moreover have "references_added k fd 768 ?k"
    using inv(3,12) unfolding references_added_def used_def shared_upto_def m k0
    by (auto intro: pageinfo_t.equality)
  moreover have "copy_page (memory k') dir n \<noteq> copy_page (memory k') dir n'"
    if "256 \<le> n" "n < n'" "n' < 768" "pte (memory k) fd n AND 7 = 7" "pte (memory k) fd n' AND 7 = 7" for n n'
    using inv(13) [OF that(1-3)] that(4,5) by (simp only: k0 simp_thms)
  moreover have "\<not> used ?k n \<or> pageinfo ?k ! n = \<lparr>owner = word_of_nat slot, refcount = 1\<rparr>"
    if "n < NPAGES" "\<not> used k n" for n
    using inv(11) [OF that(1)] that(2) by (simp add: used_def m k0)
  ultimately show ?thesis
    using inv(5,7,9,10) new fd k0 by (simp add: fork_success_def Let_def)
qed


text \<open>The kernel a fork starts from, the entered child, and what a fork may do.\<close>

definition fork_ready :: "'d kernel \<Rightarrow> nat \<Rightarrow> nat \<Rightarrow> bool" where
  "fork_ready k father slot \<longleftrightarrow> pages_ok k \<and> length (processes k) = NPROC
     \<and> father < NPROC \<and> p_state (processes k ! father) \<noteq> P_FREE
     \<and> free_slot k = Some slot \<and> space_ok k (p_pagedir (processes k ! father))
     \<and> list_all (\<lambda>p. sint (owner p) \<noteq> int slot) (pageinfo k)"

definition enter_child :: "nat \<Rightarrow> nat \<Rightarrow> 'd kernel \<Rightarrow> 'd kernel" where
  "enter_child father slot k = update_proc slot (\<lambda>q. q\<lparr>p_pid := int slot,
     p_registers := (p_registers (processes k ! father))\<lparr>reg_eax := 0\<rparr>, p_state := P_RUNNABLE\<rparr>) k"

definition fork_outcome :: "'d kernel \<Rightarrow> nat \<Rightarrow> nat \<Rightarrow> 'd kernel option \<Rightarrow> bool" where
  "fork_outcome k father slot r \<longleftrightarrow> (\<exists>k'. r = Some k' \<and> pages_ok k'
     \<and> (fork_success k father slot k' \<or> fork_failure k father slot k')
     \<and> agree (used_area k) (memory k) (memory k'))"

definition give_up :: "nat \<Rightarrow> nat \<Rightarrow> 'd kernel \<Rightarrow> 'd kernel option" where
  "give_up father slot k = do { k \<leftarrow> m_releaseMemoryforProcess slot k; Some (set_eax father (- 1) k) }"

lemma fork_readyD:
  assumes "fork_ready k father slot"
  shows "pages_ok k" "length (pageinfo k) = NPAGES" "0 < slot" "slot < NPROC" "father \<noteq> slot"
    "slot < length (processes k)" "father < length (processes k)"
    "free_slot k = Some slot" "space_ok k (p_pagedir (processes k ! father))"
    "n < NPAGES \<Longrightarrow> sint (owner (pageinfo k ! n)) \<noteq> int slot"
proof -
  have fs: "free_slot k = Some slot" using assms by (simp add: fork_ready_def)
  have s: "0 < slot" "slot < NPROC" "p_state (processes k ! slot) = P_FREE"
    using fs by (auto simp: free_slot_def find_Some_iff)
  show "0 < slot" "slot < NPROC" "free_slot k = Some slot" by (rule s fs)+
  show "father \<noteq> slot" using assms s(3) by (auto simp: fork_ready_def)
  show "pages_ok k" "slot < length (processes k)" "father < length (processes k)"
    "space_ok k (p_pagedir (processes k ! father))"
    using assms s(2) by (simp_all add: fork_ready_def)
  show l: "length (pageinfo k) = NPAGES" using assms by (simp add: fork_ready_def pages_ok_def)
  show "sint (owner (pageinfo k ! n)) \<noteq> int slot" if "n < NPAGES"
    using assms that l by (simp add: fork_ready_def list_all_length)
qed

lemma slot_owner: "0 < slot \<Longrightarrow> slot < NPROC \<Longrightarrow> (word_of_int (int slot) :: u8) \<noteq> 0"
proof
  assume slot: "0 < slot" "slot < NPROC" and z: "(word_of_int (int slot) :: u8) = 0"
  from z have "unat (word_of_nat slot :: u8) = 0" by simp
  moreover have "unat (word_of_nat slot :: u8) = slot"
    using slot(2) by (intro unat_word_of_nat_less) (simp add: NPROC_def)
  ultimately show False using slot(1) by simp
qed

lemma enter_child_simps:
  "memory (enter_child father slot k) = memory k" "pageinfo (enter_child father slot k) = pageinfo k"
  "processes (enter_child father slot k) =
    (processes k)[slot := child_of (processes k ! father) slot P_RUNNABLE (p_pagedir (processes k ! slot))]"
  by (simp_all add: enter_child_def update_proc_def child_update)

lemma sys_fork_eq:
  assumes "fork_ready k father slot"
  defines "fd \<equiv> p_pagedir (processes k ! father)"
  shows "sys_fork father k = do {
      (forkdir, k) \<leftarrow> copy_pagedir fd (int slot) (enter_child father slot k);
      if forkdir = - 1
      then give_up father slot k
      else do {
        let k = update_proc slot (\<lambda>q. q\<lparr>p_pagedir := forkdir\<rparr>) k;
        (ok, k) \<leftarrow> fork_pages fd forkdir (int slot) [256 ..< 768] k;
        if ok then Some (set_eax father (word_of_nat slot) k) else give_up father slot k } }"
proof -
  note f = fork_readyD [OF assms(1)]
  have f1: "processes (enter_child father slot k) ! father = processes k ! father"
    using f(5) by (simp add: enter_child_simps)
  have pn: "page_number PROC_START_ADDR = 256" "page_number MEMSIZE_VIRTUAL = 768"
    by (simp_all add: page_number_def PAGENUMBER_def PROC_START_ADDR_def MEMSIZE_VIRTUAL_def drop_bit_eq_div)
  show ?thesis
    unfolding sys_fork_def f(8) option.simps Let_def enter_child_def [symmetric] f1 pn fd_def give_up_def by (rule refl)
qed

lemma fork_gives_up:
  fixes k k2 :: "'d kernel"
  assumes ready: "fork_ready k father slot" and k2: "pages_ok k2"
    and pr: "processes k2 = (processes k)[slot := child_of (processes k ! father) slot P_RUNNABLE pd]"
    and old: "\<And>n. n < NPAGES \<Longrightarrow> used k n \<Longrightarrow> owner (pageinfo k2 ! n) = owner (pageinfo k ! n)"
    and new: "\<And>n. n < NPAGES \<Longrightarrow> \<not> used k n \<Longrightarrow> \<not> used k2 n
        \<or> pageinfo k2 ! n = \<lparr>owner = word_of_int (int slot), refcount = 1\<rparr>"
    and ag: "agree (used_area k) (memory k) (memory k2)"
    and i: "i \<le> 768" "\<And>n. n < NPAGES \<Longrightarrow> used k n \<Longrightarrow> refcount (pageinfo k2 ! n) =
      refcount (pageinfo k ! n) + word_of_nat (shared_upto k (p_pagedir (processes k ! father)) i n)"
  shows "fork_outcome k father slot (give_up father slot k2)"
proof -
  note f = fork_readyD [OF ready]
  have "slot < length (processes k2)" "p_pid (processes k2 ! slot) = int slot"
    using f(6) by (simp_all add: pr child_of_def)
  from release_child [OF this f(3,4) k2 f(2) old f(10) new]
  obtain ps where ps: "m_releaseMemoryforProcess slot k2 =
      Some (update_proc slot (\<lambda>q. q\<lparr>p_state := P_FREE\<rparr>) (k2\<lparr>pageinfo := ps\<rparr>))"
    "map owner ps = map owner (pageinfo k)" "pages_ok (k2\<lparr>pageinfo := ps\<rparr>)"
    and same: "\<And>n. n < NPAGES \<Longrightarrow> used k n \<Longrightarrow> ps ! n = pageinfo k2 ! n" by blast
  have "references_added k (p_pagedir (processes k ! father)) i (k2\<lparr>pageinfo := ps\<rparr>)"
    using same i(2) old by (auto simp: references_added_def intro: pageinfo_t.equality)
  from failure_state [OF f(6,7,5) pr ps(2) i(1) this] ps ag show ?thesis
    by (simp add: fork_outcome_def give_up_def pages_ok_def set_eax_def update_proc_def)
qed

text \<open>The copies of the pages, once directory and page table have been allocated.\<close>

lemma fork_copied:
  fixes k k0 :: "'d kernel"
  assumes ready: "fork_ready k father slot"
    and k0: "memory k0 = memory k" "pageinfo k0 = pageinfo k"
    and pr0: "processes k0 = (processes k)[slot := child_of (processes k ! father) slot P_RUNNABLE (page_addr i)]"
    and ij: "i < NPAGES" "j < NPAGES" "i \<noteq> j" "\<not> used k i" "\<not> used k j"
    and inv: "fork_inv k0 (p_pagedir (processes k ! father)) (int slot) i j 256 k2"
  shows "fork_outcome k father slot (do {
      (ok, k) \<leftarrow> fork_pages (p_pagedir (processes k ! father)) (page_addr i) (int slot) [256 ..< 768] k2;
      if ok then Some (set_eax father (word_of_nat slot) k) else give_up father slot k })"
proof -
  let ?fd = "p_pagedir (processes k ! father)"
  note f = fork_readyD [OF ready] and used = same_pages(2) [OF k0]
  have sp0: "space_ok k0 ?fd" using f(9) by (simp only: same_pages(5) [OF k0])
  have "\<exists>ok k'. fork_pages ?fd (page_addr i) (int slot) [256..<768] k2 = Some (ok, k')
      \<and> (if ok then fork_inv k0 ?fd (int slot) i j 768 k'
         else \<exists>n. n < 768 \<and> fork_inv k0 ?fd (int slot) i j n k' \<and> free_page k' = None)"
    by (rule fork_pages_ok [OF slot_owner [OF f(3,4)] ij(2) _ ij(1) _ ij(3) sp0 inv, of 512])
      (simp_all add: used ij)
  then obtain b k3 n where k3: "fork_pages ?fd (page_addr i) (int slot) [256..<768] k2 = Some (b, k3)"
    and b: "b \<Longrightarrow> fork_inv k0 ?fd (int slot) i j 768 k3"
    and n: "fork_inv k0 ?fd (int slot) i j n k3" "n \<le> 768"
    by (auto split: if_splits)
  note fi = fork_invD [OF n(1)]
  have ag: "agree (used_area k) (memory k) (memory k3)"
    using fi(4) by (simp only: same_pages(6) [OF k0] k0)
  have pr3: "processes k3 = processes k0" by (subst fi(1)) simp
  show ?thesis
  proof (cases b)
    case True
    then have "fork_success k father slot (set_eax father (word_of_nat slot) k3)"
      by (intro fork_success_state [OF b k0 pr0 f(6,7,5) refl ij(1,2,4,5)]) simp
    then show ?thesis using True k3 fi(2) ag
      by (simp add: fork_outcome_def set_eax_def update_proc_def pages_ok_def del: upt_rec_numeral)
  next
    case False
    have "fork_outcome k father slot (give_up father slot k3)"
    proof (rule fork_gives_up [OF ready fi(2) _ _ _ ag n(2)])
      show "processes k3 = (processes k)[slot := child_of (processes k ! father) slot P_RUNNABLE (page_addr i)]"
        by (simp only: pr3 pr0)
    qed (use fi(3,11,12) in \<open>simp_all add: used k0 shared_upto_def\<close>)
    then show ?thesis using False k3 by (simp del: upt_rec_numeral)
  qed
qed

text \<open>The three ways \<open>copy_pagedir\<close> ends: no page, one page, both pages.\<close>

lemma fork_no_page:
  assumes ready: "fork_ready k father slot" and none: "free_page k = None"
  shows "fork_outcome k father slot (sys_fork father k)"
proof -
  let ?k1 = "enter_child father slot k"
  note f = fork_readyD [OF ready] and sim = same_pages [OF enter_child_simps(1,2) [of father slot k]]
  have "copy_pagedir (p_pagedir (processes k ! father)) (int slot) ?k1 = Some (- 1, ?k1)"
    using copy_pagedir_none(1) [of ?k1] none f(1) slot_owner [OF f(3,4)] by (simp add: sim)
  moreover have "fork_outcome k father slot (give_up father slot ?k1)"
    by (rule fork_gives_up [OF ready _ enter_child_simps(3), where i = 256])
      (use f(1) in \<open>simp_all add: sim enter_child_simps agree_refl\<close>)
  ultimately show ?thesis by (simp add: sys_fork_eq [OF ready])
qed

lemma own_page_at:
  assumes "i < NPAGES" "length (pageinfo k) = NPAGES"
  shows "pageinfo (own_page i ow k) ! n =
    (if n = i then \<lparr>owner = word_of_int ow, refcount = 1\<rparr> else pageinfo k ! n)"
proof -
  have eq: "p\<lparr>refcount := 1, owner := w\<rparr> = \<lparr>owner = w, refcount = 1\<rparr>" for p :: pageinfo_t and w
    by (cases p) simp
  show ?thesis using assms by (simp add: own_page_def eq nth_list_update)
qed

lemma fork_one_page:
  assumes ready: "fork_ready k father slot" and i: "free_page k = Some i"
    and none: "free_page (own_page i (int slot) (enter_child father slot k)) = None"
  shows "fork_outcome k father slot (sys_fork father k)"
proof -
  let ?k1 = "enter_child father slot k" and ?o = "own_page i (int slot) (enter_child father slot k)"
  note f = fork_readyD [OF ready] and sim = same_pages [OF enter_child_simps(1,2) [of father slot k]]
  have I: "i < NPAGES" "\<not> used k i" using free_page_SomeD [OF i] by simp_all
  have ok1: "pages_ok ?k1" using f(1) by (simp add: sim)
  note ch = slot_owner [OF f(3,4)]
  have own: "pageinfo ?o ! n = (if n = i then \<lparr>owner = word_of_int (int slot), refcount = 1\<rparr> else pageinfo k ! n)" for n
    using own_page_at [OF I(1), of ?k1] f(2) by (simp add: enter_child_simps)
  have "copy_pagedir (p_pagedir (processes k ! father)) (int slot) ?k1 = Some (- 1, ?o)"
    using copy_pagedir_none(2) [OF ok1 ch] i none by (simp add: sim)
  moreover have "fork_outcome k father slot (give_up father slot ?o)"
  proof (rule fork_gives_up [OF ready, where i = 256])
    show "pages_ok ?o" by (rule pages_ok_own_page [OF ok1 I(1) ch])
    show "processes ?o = (processes k)[slot :=
        child_of (processes k ! father) slot P_RUNNABLE (p_pagedir (processes k ! slot))]"
      by (simp add: enter_child_simps)
  qed (use I in \<open>auto simp: own used_def enter_child_simps agree_refl\<close>)
  ultimately show ?thesis by (simp add: sys_fork_eq [OF ready])
qed

lemma fork_two_pages:
  fixes k :: "'d kernel"
  assumes ready: "fork_ready k father slot" and i: "free_page k = Some i"
    and j: "free_page (own_page i (int slot) (enter_child father slot k)) = Some j"
  shows "fork_outcome k father slot (sys_fork father k)"
proof -
  define k1 where "k1 = enter_child father slot k"
  note f = fork_readyD [OF ready] and k1 = enter_child_simps [of father slot k, folded k1_def]
  note sim = same_pages [OF k1(1,2)]
  let ?fd = "p_pagedir (processes k ! father)" and ?o = "own_page i (int slot) k1"
  define k0 where "k0 = update_proc slot (\<lambda>q. q\<lparr>p_pagedir := page_addr i\<rparr>) k1"
  have k0: "memory k0 = memory k1" "pageinfo k0 = pageinfo k1" by (simp_all add: k0_def update_proc_def)
  have pr0: "processes k0 = (processes k)[slot := child_of (processes k ! father) slot P_RUNNABLE (page_addr i)]"
    using f(6) by (simp add: k0_def update_proc_def k1(3) child_pagedir)
  define k2 where "k2 m' = update_proc slot (\<lambda>q. q\<lparr>p_pagedir := page_addr i\<rparr>)
      ((own_page j (int slot) ?o)\<lparr>memory := m'\<rparr>)" for m'
  have k2: "k2 m' = k0\<lparr>pageinfo := pageinfo (own_page j (int slot) ?o), memory := m'\<rparr>" for m'
    by (simp add: k2_def k0_def update_proc_def own_page_def)
  have ok1: "pages_ok k1" and d1: "dir_used k1 ?fd" and i1: "free_page k1 = Some i"
    using f(1,9) i by (simp_all add: sim space_ok_def)
  obtain m' where copy: "copy_pagedir ?fd (int slot) k1 = Some (page_addr i, (own_page j (int slot) ?o)\<lparr>memory := m'\<rparr>)"
    and ij: "i < NPAGES" "j < NPAGES" "i \<noteq> j" "\<not> used k1 i" "\<not> used k1 j"
    and inv: "fork_inv k0 ?fd (int slot) i j 256 (k2 m')"
    by (rule fork_start [OF ok1 d1 slot_owner [OF f(3,4)] i1 j [folded k1_def] k0 k2]) (rule that)
  have "fork_outcome k father slot (do {
      (ok, k) \<leftarrow> fork_pages ?fd (page_addr i) (int slot) [256 ..< 768] (k2 m');
      if ok then Some (set_eax father (word_of_nat slot) k) else give_up father slot k })"
    by (rule fork_copied [OF ready _ _ pr0 _ _ _ _ _ inv]) (use ij in \<open>simp_all add: k0 k1 sim\<close>)
  then show ?thesis
    using copy page_addr_not_minus1 [OF ij(1)]
    by (simp add: sys_fork_eq [OF ready] k1_def [symmetric] k2_def Let_def del: upt_rec_numeral)
qed

text \<open>
  C16: \<open>fork\<close> never fails an assertion: in a kernel whose pages are consistent and whose
  father has an address space of its own, it either gives the child a copy of the father
  (the same registers with \<open>%eax\<close> 0, the kernel's half of the page table, a fresh page with
  the same contents for every writable page, the same page read-only, with one more reference,
  for every read-only one, nothing else) and the father the child's number, or it gives the
  father -1 and leaves every slot and every page owner as it was; the references it had
  counted until then stay counted. In both cases no page in use is written.
\<close>

theorem sys_fork_contract:
  assumes "pages_ok k" "length (processes k) = NPROC"
    and "father < NPROC" "p_state (processes k ! father) \<noteq> P_FREE"
    and "free_slot k = Some slot" "space_ok k (p_pagedir (processes k ! father))"
    and "list_all (\<lambda>p. sint (owner p) \<noteq> int slot) (pageinfo k)"
  shows "\<exists>k'. sys_fork father k = Some k' \<and> pages_ok k' \<and>
    (fork_success k father slot k' \<or> fork_failure k father slot k') \<and>
    agree (used_area k) (memory k) (memory k')"
proof -
  have ready: "fork_ready k father slot" using assms by (simp add: fork_ready_def)
  have "fork_outcome k father slot (sys_fork father k)"
    using fork_no_page [OF ready] fork_one_page [OF ready] fork_two_pages [OF ready]
    by (metis option.exhaust)
  then show ?thesis by (simp only: fork_outcome_def)
qed

text \<open>A kernel with one process, whose directory, page table and one page are pages 8, 9, 10.\<close>

definition one_page :: "nat \<Rightarrow> pageinfo_t" where
  "one_page i = (if i \<in> {8, 9, 10} then \<lparr>owner = 1, refcount = 1\<rparr> else \<lparr>owner = 0, refcount = 0\<rparr>)"

definition one_process :: "mem \<Rightarrow> unit kernel" where
  "one_process m =
     \<lparr>processes = (map free_proc [0..<NPROC])[1 := \<lparr>p_pid = 1, p_registers = init_registers 0,
         p_state = P_RUNNABLE, p_pagedir = page_addr 8\<rparr>],
      current = Some 1, ticks = 0, pageinfo = map one_page [0..<NPAGES], memory = m,
      cells = replicate 2000 0, cursorpos = 0, control = (0, 0), enabled = 0,
      descriptors = \<lparr>segments = initial_segments, interrupt_descriptors = [], ts_esp0 = 0, ts_ss0 = 0\<rparr>,
      kbd = \<lparr>modifiers = 0, last_escape = 0\<rparr>, devices = (), last_ticks = 0, showing = 1\<rparr>"

lemma empty_dir:
  assumes d: "d < NPAGES" "t < NPAGES" "d \<noteq> t"
  defines "m \<equiv> store32 (\<lambda>_. 0) (page_addr d) (page_addr t OR 7)"
  shows "wf_dir m (page_addr d)" "table_of m (page_addr d) = page_addr t"
    and "n < 1024 \<Longrightarrow> pte m (page_addr d) n = 0"
proof -
  have p: "page_at (page_addr d)" "page_at (page_addr t)" using d by (simp_all add: page_at_addr)
  have ne: "page_addr t \<noteq> page_addr d" using page_addr_eq d by blast
  have e: "load32 m (page_addr d) = page_addr t OR 7" by (simp only: m_def load32_store32_same)
  show t: "table_of m (page_addr d) = page_addr t"
    unfolding table_of_def e using p(2) by (intro PTE_ADDR_page) (simp_all add: page_at_def)
  have z: "load32 (\<lambda>_. 0) a = 0" for a by (simp add: load32_def)
  have r: "load32 m (page_addr d + 4 * word_of_nat i) = 0" if "0 < i" "i < 1024" for i
  proof -
    have "load32 m (page_addr d + 4 * word_of_nat i) = load32 (\<lambda>_. 0) (page_addr d + 4 * word_of_nat i)"
      unfolding m_def using unat_index [OF p(1) that(2)] unat_index [OF p(1), of 0] that
      by (intro load32_store32) auto
    then show ?thesis by (simp only: z)
  qed
  have seven: "(x OR 7) AND 7 = (7 :: u32)" for x by (rule bit_word_eqI) (auto simp: bit_simps)
  show "wf_dir m (page_addr d)"
    unfolding wf_dir_def t e seven using p r ne by auto
  show "pte m (page_addr d) n = 0" if n: "n < 1024"
  proof -
    have "load32 m (page_addr t + 4 * word_of_nat n) = load32 (\<lambda>_. 0) (page_addr t + 4 * word_of_nat n)"
    proof (rule load_index_agree [OF p(2) n])
      show "agree (page t) (\<lambda>_. 0) m"
        unfolding m_def using unat_index [OF p(1), of 0] page_disjoint [OF d]
        by (intro store32_agree) auto
    qed
    then show ?thesis by (simp only: pte_def t z)
  qed
qed

lemma one_process_simps:
  "memory (one_process m) = m" "pageinfo (one_process m) = map one_page [0..<NPAGES]"
  "processes (one_process m) ! 1 = \<lparr>p_pid = 1, p_registers = init_registers 0,
         p_state = P_RUNNABLE, p_pagedir = page_addr 8\<rparr>"
  "n < NPAGES \<Longrightarrow> used (one_process m) n \<longleftrightarrow> n \<in> {8, 9, 10}"
  by (simp_all add: one_process_def NPROC_def used_def one_page_def)

lemma one_process_ok: "pages_ok (one_process m)"
  by (auto simp: pages_ok_def one_process_simps one_page_def list_all_iff simp del: upt_rec_numeral)

lemma one_process_slot: "free_slot (one_process m) = Some 2"
  by (simp add: free_slot_def one_process_def NPROC_def free_proc_def upt_rec nth_list_update)

text \<open>Its address space: page 10 at the first application page, writable.\<close>

lemma one_process_space: "\<exists>m. space_ok (one_process m) (page_addr 8) \<and> pte m (page_addr 8) 256 = page_addr 10 OR 7"
proof -
  have n: "8 < NPAGES" "9 < NPAGES" "10 < NPAGES" "(8 :: nat) \<noteq> 9" by (simp_all add: NPAGES_def)
  let ?m = "store32 (\<lambda>_. 0) (page_addr 8) (page_addr 9 OR 7)"
  note e = empty_dir [OF n(1,2,4)]
  have low: "unat (7 :: u32) < 4096" by simp
  have i: "256 < (1024 :: nat)" by simp
  obtain m' where m': "wf_dir m' (page_addr 8)" "table_of m' (page_addr 8) = table_of ?m (page_addr 8)"
    "pte m' (page_addr 8) 256 = page_addr 10 OR 7"
    and ptes: "\<And>j. j < 1024 \<Longrightarrow> j \<noteq> 256 \<Longrightarrow> pte m' (page_addr 8) j = pte ?m (page_addr 8) j"
    by (rule map_page [OF e(1) i page_at_addr [OF n(3)] low]) (rule that)
  have pn: "page_number (page_addr 8) = 8" "page_number (page_addr 9) = 9" "page_number (page_addr 10) = 10"
    by (rule page_number_addr; simp)+
  have "dir_used (one_process m') (page_addr 8)"
    using m' one_process_simps(4) [OF n(1)] one_process_simps(4) [OF n(2)]
    by (simp only: dir_used_def one_process_simps(1) e(2) pn) simp
  moreover have "user_page_ok (one_process m') (pte m' (page_addr 8) j)" if "256 \<le> j" "j < 768" for j
  proof (cases "j = 256")
    case True
    have "PTE_ADDR (page_addr 10 OR 7) = page_addr 10"
      using page_at_addr [OF n(3)] by (intro PTE_ADDR_page) (simp_all add: page_at_def)
    then show ?thesis
      using True page_at_addr [OF n(3)] one_process_simps(4) [OF n(3)] pn(3) m'(3)
      by (simp only: user_page_ok_def) simp
  next
    case False
    then have "pte m' (page_addr 8) j = 0" using ptes [of j] e(3) [of j] that by simp
    then show ?thesis by (simp only: user_page_ok_def) simp
  qed
  ultimately have "space_ok (one_process m') (page_addr 8)"
    unfolding space_ok_def one_process_simps(1) list_all_iff set_upt by auto
  then show ?thesis using m'(3) by blast
qed

theorem sys_fork_contract_witness:
  "\<exists>m k'. pte m (page_addr 8) 256 = page_addr 10 OR 7 \<and> sys_fork 1 (one_process m) = Some k'
     \<and> (fork_success (one_process m) 1 2 k' \<or> fork_failure (one_process m) 1 2 k')"
proof -
  obtain m where sp: "space_ok (one_process m) (page_addr 8)" and e: "pte m (page_addr 8) 256 = page_addr 10 OR 7"
    using one_process_space by blast
  have "list_all (\<lambda>p. sint (owner p) \<noteq> int 2) (pageinfo (one_process m))"
    by (auto simp: one_process_simps one_page_def list_all_iff simp del: upt_rec_numeral)
  moreover have "length (processes (one_process m)) = NPROC" by (simp add: one_process_def)
  moreover have "1 < NPROC" by (simp add: NPROC_def)
  moreover have "p_state (processes (one_process m) ! 1) \<noteq> P_FREE"
    by (simp only: one_process_simps proc.simps) simp
  moreover have "space_ok (one_process m) (p_pagedir (processes (one_process m) ! 1))"
    using sp by (simp only: one_process_simps proc.simps)
  ultimately show ?thesis
    using sys_fork_contract [OF one_process_ok _ _ _ one_process_slot, where father = 1] e by blast
qed

end
