(* ===== verification/KernelProps.thy ===== *)
theory KernelProps
  imports KernelFork
begin

text \<open>
  Properties of the WeensyOS scheduler and of page allocation and release: which process
  runs next, fairness, \<open>m_alloc\<close>, and \<open>exit\<close> with and without shared pages.
\<close>

section \<open>Scheduling\<close>

text \<open>A keyboard on which no control key is ever typed.\<close>

definition quiet :: "'d device \<Rightarrow> bool" where
  "quiet D \<longleftrightarrow> (\<forall>kb d. fst (check_keyboard D kb d) = Continue)"

definition next_runnable :: "proc list \<Rightarrow> nat \<Rightarrow> nat option" where
  "next_runnable ps c = find (\<lambda>i. p_state (ps ! i) = P_RUNNABLE) (map (\<lambda>j. (c + j) mod NPROC) [1..<NPROC + 1])"

text \<open>\<open>same_machine\<close>: only the keyboard driver and the devices differ.\<close>

definition same_machine :: "'d kernel \<Rightarrow> 'd kernel \<Rightarrow> bool" where
  "same_machine k k' \<longleftrightarrow> (\<exists>kb d. k' = k\<lparr>kbd := kb, devices := d\<rparr>)"

lemma same_machine_refl [simp]: "same_machine k k"
proof -
  have "k = k\<lparr>kbd := kbd k, devices := devices k\<rparr>" by simp
  then show ?thesis unfolding same_machine_def by blast
qed

lemma same_machine_trans: "same_machine k k' \<Longrightarrow> same_machine k' k'' \<Longrightarrow> same_machine k k''"
  by (auto simp: same_machine_def) blast

lemma same_machine_processes: "same_machine k k' \<Longrightarrow> processes k' = processes k"
  by (auto simp: same_machine_def)

lemma poll_quiet: "quiet D \<Longrightarrow> \<exists>k'. poll_keyboard D k = (Continue, k') \<and> same_machine k k'"
  unfolding quiet_def poll_keyboard_def same_machine_def
  by (cases "check_keyboard D (kbd k) (devices k)") (metis fst_conv case_prod_conv)

lemma schedule_loop_step:
  assumes "quiet D" "p_state (processes k ! ((pid + 1) mod NPROC)) \<noteq> P_RUNNABLE"
  shows "\<exists>k'. schedule_loop D pid k = schedule_loop D ((pid + 1) mod NPROC) k' \<and> same_machine k k'"
proof -
  obtain k' where "poll_keyboard D k = (Continue, k')" "same_machine k k'" using poll_quiet [OF assms(1)] by blast
  then show ?thesis using assms(2) by (intro exI [of _ k']) (subst schedule_loop.simps, simp add: Let_def)
qed

lemma schedule_loop_hit:
  assumes "p_state (processes k ! ((pid + 1) mod NPROC)) = P_RUNNABLE"
  shows "schedule_loop D pid k = map_option (Pair (Running ((pid + 1) mod NPROC))) (run ((pid + 1) mod NPROC) k)"
  using assms by (subst schedule_loop.simps) (simp add: Let_def run_def assertion_def)

text \<open>The loop never ends when no process is runnable.\<close>

lemma schedule_loop_ends:
  "schedule_loop D pid k = Some r \<Longrightarrow> quiet D \<Longrightarrow> \<exists>i < NPROC. p_state (processes k ! i) = P_RUNNABLE"
proof (induction rule: schedule_loop.raw_induct [rotated, consumes 1])
  case (1 schedule_loop D pid k r)
  let ?p = "(pid + 1) mod NPROC"
  show ?case
  proof (cases "p_state (processes k ! ?p) = P_RUNNABLE")
    case True
    then show ?thesis by (intro exI [of _ ?p]) (simp add: NPROC_def)
  next
    case False
    obtain k' where k': "poll_keyboard D k = (Continue, k')" "same_machine k k'"
      using poll_quiet [OF 1(3)] by blast
    then have "schedule_loop D ?p k' = Some r" using 1(2) False by (simp add: Let_def)
    then show ?thesis using 1(1) [OF _ 1(3)] same_machine_processes [OF k'(2)] by metis
  qed
qed

lemma schedule_loop_find:
  assumes "quiet D" "pid < NPROC"
  shows "find (\<lambda>i. p_state (processes k ! i) = P_RUNNABLE) (map (\<lambda>j. (pid + j) mod NPROC) [1..<n + 1]) = Some q \<Longrightarrow>
    \<exists>k'. same_machine k k' \<and> schedule_loop D pid k = map_option (Pair (Running q)) (run q k') 
      \<and> p_state (processes k ! q) = P_RUNNABLE"
  using assms
proof (induction n arbitrary: pid k)
  case 0
  then show ?case by simp
next
  case (Suc n)
  let ?p = "(pid + 1) mod NPROC"
  have l: "map (\<lambda>j. (pid + j) mod NPROC) [1..<Suc n + 1] = ?p # map (\<lambda>j. (?p + j) mod NPROC) [1..<n + 1]"
  proof -
    have "[1..<Suc n + 1] = 1 # map Suc [1..<n + 1]" by (simp add: upt_conv_Cons map_Suc_upt del: upt_Suc)
    moreover have "(pid + Suc j) mod NPROC = (?p + j) mod NPROC" for j by (simp add: mod_simps)
    ultimately show ?thesis by simp
  qed
  show ?case
  proof (cases "p_state (processes k ! ?p) = P_RUNNABLE")
    case True
    then have "q = ?p" using Suc.prems(1) unfolding l by simp
    then show ?thesis using True schedule_loop_hit [OF True] by (intro exI [of _ k]) simp
  next
    case False
    obtain k' where k': "schedule_loop D pid k = schedule_loop D ?p k'" "same_machine k k'"
      using schedule_loop_step [OF Suc.prems(2) False] by blast
    have "\<exists>k''. same_machine k' k'' \<and> schedule_loop D ?p k' = map_option (Pair (Running q)) (run q k'')
        \<and> p_state (processes k' ! q) = P_RUNNABLE"
    proof (rule Suc.IH)
      show "find (\<lambda>i. p_state (processes k' ! i) = P_RUNNABLE) (map (\<lambda>j. (?p + j) mod NPROC) [1..<n + 1]) = Some q"
        using Suc.prems(1) False unfolding l same_machine_processes [OF k'(2)] by simp
    qed (use Suc.prems in \<open>simp_all add: NPROC_def\<close>)
    then show ?thesis using k' same_machine_trans same_machine_processes [OF k'(2)] by metis
  qed
qed


lemma run_runnable:
  "p_state (processes k ! q) = P_RUNNABLE \<Longrightarrow>
    run q k = Some (k\<lparr>current := Some q, control := (p_pagedir (processes k ! q), snd (control k))\<rparr>)"
  by (simp add: run_def assertion_def)

lemma schedule_frame:
  assumes "quiet D" "current k = Some c" "c < NPROC" "p_pid (processes k ! c) = int c"
    and "next_runnable (processes k) c = Some q"
  obtains kb d where "schedule D k = Some (Running q, k\<lparr>current := Some q,
      control := (p_pagedir (processes k ! q), snd (control k)), kbd := kb, devices := d\<rparr>)"
proof -
  obtain k' where k': "same_machine k k'" "schedule_loop D c k = map_option (Pair (Running q)) (run q k')"
      "p_state (processes k ! q) = P_RUNNABLE"
    using schedule_loop_find [OF assms(1,3)] assms(5) unfolding next_runnable_def by blast
  obtain kb d where k: "k' = k\<lparr>kbd := kb, devices := d\<rparr>" using k'(1) by (auto simp: same_machine_def)
  have "schedule D k = Some (Running q, k\<lparr>current := Some q,
      control := (p_pagedir (processes k ! q), snd (control k)), kbd := kb, devices := d\<rparr>)"
    using assms(2,4) k'(2,3) by (simp add: schedule_def run_runnable k)
  then show thesis by (rule that)
qed

lemma schedule_some:
  assumes "quiet D" "current k = Some c" "c < NPROC" "p_pid (processes k ! c) = int c"
    and "next_runnable (processes k) c = Some q"
  obtains k' where "schedule D k = Some (Running q, k')" "current k' = Some q"
    "processes k' = processes k" "memory k' = memory k" "pageinfo k' = pageinfo k"
    "fst (control k') = p_pagedir (processes k ! q)"
proof -
  obtain kb d where "schedule D k = Some (Running q, k\<lparr>current := Some q,
      control := (p_pagedir (processes k ! q), snd (control k)), kbd := kb, devices := d\<rparr>)"
    by (rule schedule_frame [OF assms])
  then show thesis by (rule that) simp_all
qed

text \<open>
  C18: while no control key is typed (\<open>quiet\<close>), \<open>schedule\<close> runs the first runnable process after the
  current one in cyclic order and changes \<open>current\<close>, the page directory in use, and, as it polls the
  keyboard, the state of the keyboard driver and of the devices: every other part of the kernel's
  state is as it was. If no process is runnable it never returns.
\<close>

theorem schedule_next:
  assumes "quiet D" "current k = Some c" "c < NPROC" "p_pid (processes k ! c) = int c"
  shows "case next_runnable (processes k) c of
      Some q \<Rightarrow> \<exists>kb d. schedule D k = Some (Running q, k\<lparr>current := Some q,
        control := (p_pagedir (processes k ! q), snd (control k)), kbd := kb, devices := d\<rparr>)
    | None \<Rightarrow> schedule D k = None"
proof (cases "next_runnable (processes k) c")
  case None
  have "schedule_loop D c k = None"
  proof (rule ccontr)
    assume "schedule_loop D c k \<noteq> None"
    then obtain i where i: "i < NPROC" "p_state (processes k ! i) = P_RUNNABLE"
      using schedule_loop_ends [OF _ assms(1)] by blast
    let ?j = "(if c < i then i - c else i + NPROC - c)"
    have "(c + ?j) mod NPROC = i" "?j \<in> {1..<NPROC + 1}" using i(1) assms(3) by auto
    then have "i \<in> set (map (\<lambda>j. (c + j) mod NPROC) [1..<NPROC + 1])"
      unfolding set_map set_upt by (intro image_eqI [where x = ?j]) simp_all
    then show False using None i(2) by (auto simp: next_runnable_def find_None_iff)
  qed
  then show ?thesis using None assms by (simp add: schedule_def)
next
  case (Some q)
  show ?thesis unfolding Some option.case by (rule schedule_frame [OF assms Some]) blast
qed

section \<open>Fairness\<close>

text \<open>What happens when every process that runs is interrupted by the timer or yields.\<close>

primrec yields :: "'d device \<Rightarrow> nat \<Rightarrow> 'd kernel \<Rightarrow> 'd kernel option" where
  "yields D 0 k = Some k"
| "yields D (Suc n) k =
     (case schedule D k of Some (Running q, k') \<Rightarrow> yields D n k' | _ \<Rightarrow> None)"

lemma next_runnable_first:
  assumes "1 \<le> d" "d \<le> NPROC" "p_state (ps ! ((c + d) mod NPROC)) = P_RUNNABLE"
  obtains j where "next_runnable ps c = Some ((c + j) mod NPROC)" "1 \<le> j" "j \<le> d"
proof -
  let ?P = "\<lambda>j. 1 \<le> j \<and> p_state (ps ! ((c + j) mod NPROC)) = P_RUNNABLE"
  define l where "l = (LEAST j. ?P j)"
  have d: "?P d" using assms by simp
  have j: "?P l" unfolding l_def by (rule LeastI [of ?P, OF d])
  have le: "l \<le> d" unfolding l_def by (rule Least_le [of ?P, OF d])
  have least: "\<not> ?P i" if "i < l" for i using that unfolding l_def by (rule not_less_Least)
  have "next_runnable ps c = Some ((c + l) mod NPROC)"
    unfolding next_runnable_def find_Some_iff
  proof (intro exI [of _ "l - 1"] conjI allI impI)
    show "l - 1 < length (map (\<lambda>j. (c + j) mod NPROC) [1..<NPROC + 1])" using j le assms(2) by (simp del: upt_Suc) linarith
    then show "p_state (ps ! (map (\<lambda>j. (c + j) mod NPROC) [1..<NPROC + 1] ! (l - 1))) = P_RUNNABLE"
      "(c + l) mod NPROC = map (\<lambda>j. (c + j) mod NPROC) [1..<NPROC + 1] ! (l - 1)"
      using j by (simp_all del: upt_Suc)
  next
    fix i assume i: "i < l - 1"
    then have "\<not> ?P (Suc i)" by (intro least) simp
    moreover have "1 + i < NPROC + 1" using i le assms(2) by linarith
    ultimately show "p_state (ps ! (map (\<lambda>j. (c + j) mod NPROC) [1..<NPROC + 1] ! i)) \<noteq> P_RUNNABLE"
      by (simp del: upt_Suc)
  qed
  then show thesis using j le by (intro that) simp_all
qed

lemma schedule_reaches:
  assumes "quiet D" "1 \<le> d" "d \<le> NPROC" "current k = Some c" "c < NPROC"
    and "list_all (\<lambda>i. p_pid (processes k ! i) = int i) [0..<NPROC]"
    and "p_state (processes k ! ((c + d) mod NPROC)) = P_RUNNABLE"
  shows "\<exists>n k'. 1 \<le> n \<and> n \<le> d \<and> yields D n k = Some k' \<and> current k' = Some ((c + d) mod NPROC)"
  using assms(2-)
proof (induction d arbitrary: k c rule: less_induct)
  case (less d)
  obtain j where j: "next_runnable (processes k) c = Some ((c + j) mod NPROC)" "1 \<le> j" "j \<le> d"
    using next_runnable_first [OF less.prems(1,2,6)] by blast
  let ?c = "(c + j) mod NPROC"
  have pid: "p_pid (processes k ! c) = int c" using less.prems(4,5) by (simp add: list_all_iff)
  obtain k' where k': "schedule D k = Some (Running ?c, k')" "current k' = Some ?c" "processes k' = processes k"
    by (rule schedule_some [OF assms(1) less.prems(3,4) pid j(1)])
  show ?case
  proof (cases "j = d")
    case True
    then show ?thesis using k' less.prems(1) by (intro exI [of _ 1] exI [of _ k']) simp
  next
    case False
    have "(?c + (d - j)) mod NPROC = (c + j + (d - j)) mod NPROC" by (rule mod_add_left_eq)
    then have e: "(?c + (d - j)) mod NPROC = (c + d) mod NPROC" using j(3) by simp
    have "\<exists>n k2. 1 \<le> n \<and> n \<le> d - j \<and> yields D n k' = Some k2 \<and> current k2 = Some ((?c + (d - j)) mod NPROC)"
    proof (rule less.IH)
      show "list_all (\<lambda>i. p_pid (processes k' ! i) = int i) [0..<NPROC]" using less.prems(5) by (simp only: k'(3))
      show "p_state (processes k' ! ((?c + (d - j)) mod NPROC)) = P_RUNNABLE"
        using less.prems(6) by (simp only: e k'(3))
    qed (use j False less.prems(2) k'(2) in \<open>simp_all add: NPROC_def\<close>)
    then obtain n k2 where "1 \<le> n" "n \<le> d - j" "yields D n k' = Some k2" "current k2 = Some ((c + d) mod NPROC)"
      unfolding e by blast
    then show ?thesis using k'(1) j(2) by (intro exI [of _ "Suc n"] exI [of _ k2]) simp
  qed
qed

text \<open>
  C19: Round robin: a runnable process runs after at most \<open>NPROC\<close> rounds of the scheduler,
  whatever process runs first.
\<close>

theorem schedule_fair:
  assumes "quiet D" "current k = Some c" "c < NPROC"
    and "list_all (\<lambda>i. p_pid (processes k ! i) = int i) [0..<NPROC]"
    and "q < NPROC" "p_state (processes k ! q) = P_RUNNABLE"
  shows "\<exists>n k'. 1 \<le> n \<and> n \<le> NPROC \<and> yields D n k = Some k' \<and> current k' = Some q"
proof -
  let ?d = "(if c < q then q - c else q + NPROC - c)"
  have d: "1 \<le> ?d" "?d \<le> NPROC" "(c + ?d) mod NPROC = q" using assms(3,5) by auto
  have r: "p_state (processes k ! ((c + ?d) mod NPROC)) = P_RUNNABLE" unfolding d(3) by (rule assms(6))
  show ?thesis
    using schedule_reaches [OF assms(1) d(1,2) assms(2-4) r] d(2) unfolding d(3) by (blast intro: order_trans)
qed


text \<open>A machine without devices: every port reads 0.\<close>

definition no_devices :: "unit device" where
  "no_devices = \<lparr>dev_in = (\<lambda>_ d. (0, d)), dev_out = (\<lambda>_ _ d. d)\<rparr>"

lemma quiet_no_devices: "quiet no_devices"
  by (simp add: quiet_def check_keyboard_def keyboard_readc_def inb_def no_devices_def key_command_def)

theorem schedule_next_witness:
  "(\<exists>k'. schedule no_devices (one_process (\<lambda>_. 0)) = Some (Running 1, k'))
   \<and> schedule no_devices ((one_process (\<lambda>_. 0))\<lparr>processes := map free_proc [0..<NPROC]\<rparr>) = None"
proof -
  let ?k = "one_process (\<lambda>_. 0)" and ?k2 = "(one_process (\<lambda>_. 0))\<lparr>processes := map free_proc [0..<NPROC]\<rparr>"
  have c: "current ?k = Some 1" "1 < NPROC" "p_pid (processes ?k ! 1) = int 1"
    "current ?k2 = Some 1" "p_pid (processes ?k2 ! 1) = int 1"
    by (simp_all add: one_process_def NPROC_def free_proc_def upt_rec)
  have "next_runnable (processes ?k) 1 = Some 1" "next_runnable (processes ?k2) 1 = None"
    by (simp_all add: next_runnable_def one_process_def NPROC_def free_proc_def upt_rec)
  then show ?thesis
    using schedule_next [OF quiet_no_devices c(1-3)] schedule_next [OF quiet_no_devices c(4,2,5)] by auto
qed

theorem schedule_fair_witness:
  "\<exists>n k'. 1 \<le> n \<and> n \<le> NPROC \<and> yields no_devices n
     ((one_process (\<lambda>_. 0))\<lparr>processes := map (\<lambda>i. (free_proc i)\<lparr>p_state := P_RUNNABLE\<rparr>) [0..<NPROC]\<rparr>) = Some k'
     \<and> current k' = Some 7"
proof (rule schedule_fair [OF quiet_no_devices])
  let ?k = "(one_process (\<lambda>_. 0))\<lparr>processes := map (\<lambda>i. (free_proc i)\<lparr>p_state := P_RUNNABLE\<rparr>) [0..<NPROC]\<rparr>"
  show "current ?k = Some 1" by (simp add: one_process_def)
  show "list_all (\<lambda>i. p_pid (processes ?k ! i) = int i) [0..<NPROC]"
    by (simp add: list_all_iff free_proc_def)
qed (simp_all add: NPROC_def)

section \<open>Allocation and exit\<close>

text \<open>
  When pages without an owner are not referenced, \<open>m_alloc\<close> hands out the free page with the
  lowest number, gives it to the owner with reference count 1 and changes nothing else; it
  returns -1, with the state unchanged, exactly when every page is owned.
\<close>

theorem m_alloc_lowest:
  assumes "pages_ok k"
  shows "m_alloc ow k =
    (case find (\<lambda>i. owner (pageinfo k ! i) = 0) [0..<NPAGES] of
       None \<Rightarrow> (- 1, k)
     | Some i \<Rightarrow> (page_addr i,
         k\<lparr>pageinfo := (pageinfo k)[i := \<lparr>owner = word_of_int ow, refcount = 1\<rparr>]\<rparr>))"
proof -
  have eq: "p\<lparr>refcount := 1, owner := w\<rparr> = \<lparr>owner = w, refcount = 1\<rparr>" for p :: pageinfo_t and w
    by (cases p) simp
  show ?thesis
    by (simp add: m_alloc_eq [OF assms] free_page_def used_def own_page_def eq split: option.split)
qed

theorem m_alloc_lowest_witness:
  "m_alloc 3 (one_process (\<lambda>_. 0)) = (0, (one_process (\<lambda>_. 0))\<lparr>pageinfo :=
     (map one_page [0..<NPAGES])[0 := \<lparr>owner = 3, refcount = 1\<rparr>]\<rparr>)"
proof -
  have "find (\<lambda>i. owner (pageinfo (one_process (\<lambda>_. 0)) ! i) = 0) [0..<NPAGES] = Some 0"
    unfolding find_Some_iff by (rule exI [of _ 0]) (simp add: one_process_simps one_page_def NPAGES_def del: upt_rec_numeral)
  then show ?thesis using m_alloc_lowest [OF one_process_ok, of 3 "\<lambda>_. 0"] by (simp add: one_process_simps)
qed

text \<open>
  \<open>exit\<close> of a process none of whose pages is shared gives back exactly the pages it owns,
  frees its slot and leaves everything else alone; no assertion fails.
\<close>

theorem exit_releases:
  assumes "p < length (processes k)" "0 < p_pid (processes k ! p)" "length (pageinfo k) = NPAGES"
    and "list_all (\<lambda>q. sint (owner q) = p_pid (processes k ! p) \<longrightarrow> refcount q = 1) (pageinfo k)"
  shows "m_releaseMemoryforProcess p k =
    Some (k\<lparr>processes := (processes k)[p := (processes k ! p)\<lparr>p_state := P_FREE\<rparr>],
       pageinfo := map (\<lambda>q. if sint (owner q) = p_pid (processes k ! p)
         then \<lparr>owner = 0, refcount = 0\<rparr> else q) (pageinfo k)\<rparr>)"
proof -
  have pid: "p_pid (processes k ! p) \<noteq> 0" using assms(2) by simp
  have one: "refcount (pageinfo k ! n) = 1"
    if "n < NPAGES" "sint (owner (pageinfo k ! n)) = p_pid (processes k ! p)" for n
    using assms(3,4) that by (simp add: list_all_length)
  obtain ps where ps: "m_releaseMemoryforProcess p k =
      Some (update_proc p (\<lambda>q. q\<lparr>p_state := P_FREE\<rparr>) (k\<lparr>pageinfo := ps\<rparr>))" "length ps = NPAGES"
    and at: "\<And>n. n < NPAGES \<Longrightarrow> ps ! n = (if sint (owner (pageinfo k ! n)) = p_pid (processes k ! p)
       then \<lparr>owner = 0, refcount = 0\<rparr> else pageinfo k ! n)"
    by (rule release_process [OF assms(1) pid assms(3) one]) (assumption | rule that)+
  have "ps = map (\<lambda>q. if sint (owner q) = p_pid (processes k ! p)
      then \<lparr>owner = 0, refcount = 0\<rparr> else q) (pageinfo k)"
    by (rule nth_equalityI) (use ps(2) at assms(3) in auto)
  then show ?thesis using ps(1) by (simp add: update_proc_def)
qed

theorem exit_releases_witness:
  "map_option (\<lambda>k. (map p_state (processes k), pageinfo k)) (m_releaseMemoryforProcess 1 (one_process (\<lambda>_. 0))) =
     Some (replicate NPROC P_FREE, replicate NPAGES \<lparr>owner = 0, refcount = 0\<rparr>)"
proof -
  have one: "sint (1 :: u8) = 1" by simp
  have pid: "p_pid (processes (one_process (\<lambda>_. 0)) ! 1) = 1" by (simp only: one_process_simps proc.simps)
  have "list_all (\<lambda>q. sint (owner q) = p_pid (processes (one_process (\<lambda>_. 0)) ! 1) \<longrightarrow> refcount q = 1)
      (pageinfo (one_process (\<lambda>_. 0)))"
    unfolding pid by (auto simp: one_process_simps one_page_def list_all_iff simp del: upt_rec_numeral)
  moreover have "1 < length (processes (one_process (\<lambda>_. 0)))" "0 < p_pid (processes (one_process (\<lambda>_. 0)) ! 1)"
    "length (pageinfo (one_process (\<lambda>_. 0))) = NPAGES" "p_pid (processes (one_process (\<lambda>_. 0)) ! 1) = 1"
    by (simp_all add: one_process_def NPROC_def)
  moreover have "map (\<lambda>q. if sint (owner q) = 1 then \<lparr>owner = 0, refcount = 0\<rparr> else q) (map one_page [0..<NPAGES])
      = replicate NPAGES \<lparr>owner = 0, refcount = 0\<rparr>"
    by (rule nth_equalityI) (auto simp: one_page_def one)
  moreover have "map p_state ((processes (one_process (\<lambda>_. 0)))[1 := (processes (one_process (\<lambda>_. 0)) ! 1)\<lparr>p_state := P_FREE\<rparr>])
      = replicate NPROC P_FREE"
    by (simp add: one_process_def NPROC_def free_proc_def upt_rec numeral_eq_Suc)
  ultimately show ?thesis using exit_releases [of 1 "one_process (\<lambda>_. 0)"] by (simp add: one_process_simps)
qed


section \<open>Exit of a process whose pages are shared\<close>

definition none_runnable :: "nat \<Rightarrow> proc list \<Rightarrow> bool" where
  "none_runnable p ps \<longleftrightarrow> list_all (\<lambda>i. i = p \<or> p_state (ps ! i) \<noteq> P_RUNNABLE) [0..<NPROC]"

lemma first_sharer_none:
  "list_all (\<lambda>i. p_state (ps ! i) \<noteq> P_RUNNABLE) is \<Longrightarrow> first_sharer m ps a is = Some None"
  by (induction "is") simp_all

abbreviation unref :: "nat \<Rightarrow> 'd kernel \<Rightarrow> 'd kernel" where
  "unref i k \<equiv> update_page i (\<lambda>p. p\<lparr>refcount := refcount p - 1\<rparr>) k"

lemma m_free_eq:
  assumes "i < NPAGES"
  shows "m_free (page_addr i) k =
    (if sint (refcount (pageinfo (unref i k) ! i)) < 0 then None
     else if sint (refcount (pageinfo (unref i k) ! i)) = 0
     then Some (update_page i (\<lambda>p. p\<lparr>owner := word_of_int PO_FREE\<rparr>) (unref i k))
     else do { s \<leftarrow> first_sharer (memory (unref i k)) (processes (unref i k)) (page_addr i) [1..<NPROC];
        case s of Some j \<Rightarrow> Some (update_page i (\<lambda>p. p\<lparr>owner := word_of_nat j\<rparr>) (unref i k))
        | None \<Rightarrow> Some (unref i k) })"
proof -
  have n: "page_number (page_addr i) = i" using assms by (simp add: NPAGES_def)
  show ?thesis
    using assms by (simp only: m_free_def n Let_def assertion_def if_True Option.bind.bind_lunit)
qed

lemma m_free_result:
  assumes "m_free (page_addr i) k = Some k'" "i < NPAGES"
  shows "\<exists>q. k' = k\<lparr>pageinfo := (pageinfo k)[i := q]\<rparr>"
proof -
  let ?k = "unref i k"
  have u: "\<exists>q. update_page i f ?k = k\<lparr>pageinfo := (pageinfo k)[i := q]\<rparr>" for f
    unfolding update_page_def by simp blast
  let ?r = "sint (refcount (pageinfo ?k ! i))"
  note eq = m_free_eq [OF assms(2), of k]
  consider "?r < 0" | "?r = 0" | "\<not> ?r < 0" "?r \<noteq> 0" by blast
  then show ?thesis
  proof cases
    case 1
    then show ?thesis using assms(1) eq by simp
  next
    case 2
    then have "k' = update_page i (\<lambda>p. p\<lparr>owner := word_of_int PO_FREE\<rparr>) ?k" using assms(1) eq by simp
    then show ?thesis using u by blast
  next
    case 3
    then obtain s where "(case s of Some j \<Rightarrow> Some (update_page i (\<lambda>p. p\<lparr>owner := word_of_nat j\<rparr>) ?k)
        | None \<Rightarrow> Some ?k) = Some k'"
      using assms(1) unfolding eq by (simp only: if_False Option.bind_eq_Some_conv) blast
    then show ?thesis using u [of id] u by (cases s) (auto simp: update_page_def)
  qed
qed

lemma m_free_keeps:
  assumes "m_free (page_addr i) k = Some k'" "i < NPAGES"
  shows "processes k' = processes k" "length (pageinfo k') = length (pageinfo k)"
    "n \<noteq> i \<Longrightarrow> pageinfo k' ! n = pageinfo k ! n"
  using m_free_result [OF assms] by auto

lemma m_free_shared:
  assumes "i < length (pageinfo k)" "i < NPAGES" "refcount (pageinfo k ! i) = word_of_nat r" "2 \<le> r" "r < 128"
    and "list_all (\<lambda>i. p_state (processes k ! i) \<noteq> P_RUNNABLE) [1..<NPROC]"
  shows "\<exists>k'. m_free (page_addr i) k = Some k' \<and> owner (pageinfo k' ! i) = owner (pageinfo k ! i)"
proof -
  have r: "(word_of_nat r :: u8) - 1 = word_of_nat (r - 1)" using assms(4) by (simp add: of_nat_diff)
  have "signed_take_bit 7 (int (r - 1)) = int (r - 1)"
    using assms(5) by (simp add: signed_take_bit_int_eq_self_iff)
  then have s: "sint (word_of_nat (r - 1) :: u8) = int (r - 1)" unfolding signed_of_nat by simp
  have "refcount (pageinfo (unref i k) ! i) = word_of_nat (r - 1)"
    using assms(1,3) r by (simp add: update_page_def)
  then have c: "sint (refcount (pageinfo (unref i k) ! i)) = int (r - 1)" by (simp only: s)
  have "first_sharer (memory (unref i k)) (processes (unref i k)) (page_addr i) [1..<NPROC] = Some None"
    by (rule first_sharer_none) (use assms(6) in \<open>simp add: update_page_def\<close>)
  then have "m_free (page_addr i) k = Some (unref i k)"
    using assms(4) unfolding m_free_eq [OF assms(2)] c by simp
  then show ?thesis using assms(1) by (simp add: update_page_def)
qed

lemma release_pages_stuck:
  assumes "release_pages pid is k = Some k'" "distinct is" "set is \<subseteq> {..<NPAGES}"
    and "length (pageinfo k) = NPAGES" "list_all (\<lambda>i. p_state (processes k ! i) \<noteq> P_RUNNABLE) [1..<NPROC]"
    and "n < NPAGES" "sint (owner (pageinfo k ! n)) = pid"
    and "n \<in> set is \<Longrightarrow> refcount (pageinfo k ! n) = word_of_nat r" "2 \<le> r" "r < 128"
  shows "sint (owner (pageinfo k' ! n)) = pid"
  using assms
proof (induction "is" arbitrary: k)
  case Nil
  then show ?case by simp
next
  case (Cons i "is")
  have i: "i < NPAGES" "i \<notin> set is" using Cons.prems by simp_all
  show ?case
  proof (cases "sint (owner (pageinfo k ! i)) = pid")
    case False
    then show ?thesis using Cons.prems by (intro Cons.IH [of k]) simp_all
  next
    case True
    then obtain k1 where k1: "m_free (page_addr i) k = Some k1" "release_pages pid is k1 = Some k'"
      using Cons.prems(1) by (auto simp: Option.bind_eq_Some_conv)
    note keep = m_free_keeps [OF k1(1) i(1)]
    show ?thesis
    proof (rule Cons.IH [OF k1(2)])
      show "sint (owner (pageinfo k1 ! n)) = pid"
      proof (cases "n = i")
        case True
        have "i < length (pageinfo k)" "refcount (pageinfo k ! i) = word_of_nat r"
          using Cons.prems(4,8) i True by simp_all
        from m_free_shared [OF this(1) i(1) this(2) Cons.prems(9,10,5)] k1(1) show ?thesis
          using Cons.prems(7) True by simp
      next
        case False
        then show ?thesis using keep(3) Cons.prems(7) by simp
      qed
      show "refcount (pageinfo k1 ! n) = word_of_nat r" if "n \<in> set is"
      proof -
        have "n \<noteq> i" using that i(2) by auto
        then show ?thesis using that keep(3) Cons.prems(8) by simp
      qed
    qed (use Cons.prems keep in simp_all)
  qed
qed

text \<open>
  The exit of a process fails the kernel's assertion whenever one of its pages is still
  referenced by another address space and no other process is runnable: \<open>m_free\<close> then finds no
  new owner, and \<open>m_releaseMemoryforProcess\<close> asserts that none of its pages is left.
\<close>

theorem exit_shared_asserts:
  assumes "p < length (processes k)" "length (processes k) = NPROC" "length (pageinfo k) = NPAGES"
    and "none_runnable p (processes k)"
    and "i < NPAGES" "sint (owner (pageinfo k ! i)) = p_pid (processes k ! p)"
    and "refcount (pageinfo k ! i) = word_of_nat r" "2 \<le> r" "r < 128"
  shows "m_releaseMemoryforProcess p k = None"
proof -
  let ?b = "update_proc p (\<lambda>q. q\<lparr>p_state := P_BLOCKED\<rparr>) k" and ?pid = "p_pid (processes k ! p)"
  have b: "pageinfo ?b = pageinfo k" "p_pid (processes ?b ! p) = ?pid"
    using assms(1) by (simp_all add: update_proc_def)
  have nr: "list_all (\<lambda>i. p_state (processes ?b ! i) \<noteq> P_RUNNABLE) [1..<NPROC]"
    using assms(1,2,4) by (auto simp: list_all_iff none_runnable_def update_proc_def nth_list_update)
  have "sint (owner (pageinfo k2 ! i)) = ?pid"
    if "release_pages ?pid [0..<NPAGES] ?b = Some k2" for k2
    using release_pages_stuck [OF that _ _ _ nr assms(5), of r] assms(3,6-) by (auto simp: b atLeast0LessThan)
  then have "assertion (list_all (\<lambda>i. sint (owner (pageinfo k2 ! i)) \<noteq> ?pid) [0..<NPAGES]) = None"
    if "release_pages ?pid [0..<NPAGES] ?b = Some k2" for k2
    using that assms(5) by (auto simp: assertion_def list_all_iff)
  then show ?thesis
    by (cases "release_pages ?pid [0..<NPAGES] ?b") (simp_all add: m_releaseMemoryforProcess_def Let_def b)
qed

theorem exit_shared_asserts_witness:
  "m_releaseMemoryforProcess 1 ((one_process (\<lambda>_. 0))\<lparr>pageinfo :=
     (map one_page [0..<NPAGES])[10 := \<lparr>owner = 1, refcount = 2\<rparr>]\<rparr>) = None"
proof (rule exit_shared_asserts [where i = 10 and r = 2])
  let ?k = "(one_process (\<lambda>_. 0))\<lparr>pageinfo := (map one_page [0..<NPAGES])[10 := \<lparr>owner = 1, refcount = 2\<rparr>]\<rparr>"
  show "none_runnable 1 (processes ?k)"
    by (auto simp: none_runnable_def one_process_def list_all_iff nth_list_update free_proc_def)
  have "p_pid (processes ?k ! 1) = 1" by (simp add: one_process_def NPROC_def)
  then show "sint (owner (pageinfo ?k ! 10)) = p_pid (processes ?k ! 1)" by (simp add: NPAGES_def)
qed (simp_all add: one_process_def NPROC_def NPAGES_def)

end
