(* ===== verification/KernelAlloc.thy ===== *)
theory KernelAlloc
  imports KernelProps
begin

text \<open>
  The system call \<open>sys_page_alloc\<close> of the WeensyOS kernel: the page a process gets and what
  else changes.
\<close>

definition page_added :: "'d kernel \<Rightarrow> nat \<Rightarrow> nat \<Rightarrow> nat \<Rightarrow> 'd kernel \<Rightarrow> bool" where
  "page_added k c n p k' \<longleftrightarrow>
     (let q = processes k ! c; pd = p_pagedir q in
      k' = k\<lparr>processes := (processes k)[c := with_eax q (page_addr p)],
             pageinfo := (pageinfo k)[p := \<lparr>owner = word_of_int (p_pid q), refcount = 1\<rparr>],
             memory := memory k'\<rparr>
      \<and> p < NPAGES \<and> \<not> used k p
      \<and> wf_dir (memory k') pd \<and> table_of (memory k') pd = table_of (memory k) pd
      \<and> pte (memory k') pd n = page_addr p OR 7
      \<and> (\<forall>j < 1024. j \<noteq> n \<longrightarrow> pte (memory k') pd j = pte (memory k) pd j)
      \<and> agree (- region (table_of (memory k) pd) 4096) (memory k) (memory k'))"

lemma free_page_NoneD: "free_page k = None \<Longrightarrow> n < NPAGES \<Longrightarrow> used k n"
  by (auto simp: free_page_def find_None_iff simp del: upt_rec_numeral)

lemma sys_page_alloc_result:
  assumes "pages_ok k" "c < length (processes k)" "wf_dir (memory k) (p_pagedir (processes k ! c))"
    and "reg_eax (p_registers (processes k ! c)) = page_addr n" "n < 1024"
    and "(word_of_int (p_pid (processes k ! c)) :: u8) \<noteq> 0"
  shows "\<exists>k'. sys_page_alloc c k = Some k' \<and>
    (if \<forall>p < NPAGES. used k p then k' = set_eax c (- 1) k else \<exists>p. page_added k c n p k')"
proof (cases "free_page k")
  case None
  then have "\<forall>p < NPAGES. used k p" using free_page_NoneD by blast
  then show ?thesis using None by (simp add: sys_page_alloc_def m_alloc_eq [OF assms(1)])
next
  case (Some p)
  note P = free_page_SomeD [OF Some]
  let ?q = "processes k ! c" and ?k1 = "own_page p (p_pid (processes k ! c)) k"
  have low: "unat (7 :: u32) < 4096" by simp
  have P1: "p < NPAGES" using P by simp
  obtain m' where m': "virtual_memory_map (p_pagedir ?q) (page_addr n) (page_addr p) PAGESIZE 7 (memory k) = Some m'"
    "wf_dir m' (p_pagedir ?q)" "table_of m' (p_pagedir ?q) = table_of (memory k) (p_pagedir ?q)"
    "pte m' (p_pagedir ?q) n = page_addr p OR 7"
    and ptes: "\<And>j. j < 1024 \<Longrightarrow> j \<noteq> n \<Longrightarrow> pte m' (p_pagedir ?q) j = pte (memory k) (p_pagedir ?q) j"
    and out: "\<And>S. region (table_of (memory k) (p_pagedir ?q)) 4096 \<inter> S = {} \<Longrightarrow> agree S (memory k) m'"
    using map_page [OF assms(3,5) page_at_addr [OF P1] low] by blast
  have seven: "PTE_P OR PTE_W OR PTE_U = 7" by (simp add: PTE_P_def PTE_W_def PTE_U_def)
  let ?k = "set_eax c (page_addr p) (?k1\<lparr>memory := m'\<rparr>)"
  have run: "sys_page_alloc c k = Some ?k"
    using Some P page_addr_not_minus1 [of p] m'(1) assms(4)
    by (simp add: sys_page_alloc_def m_alloc_eq [OF assms(1)] seven update_mem_def)
  have eq: "q\<lparr>refcount := 1, owner := w\<rparr> = \<lparr>owner = w, refcount = 1\<rparr>" for q :: pageinfo_t and w
    by (cases q) simp
  have "?k = k\<lparr>processes := (processes k)[c := with_eax ?q (page_addr p)],
      pageinfo := (pageinfo k)[p := \<lparr>owner = word_of_int (p_pid ?q), refcount = 1\<rparr>], memory := memory ?k\<rparr>"
    by (simp add: set_eax_def update_proc_def own_page_def with_eax_def eq)
  moreover have "memory ?k = m'" by (simp add: set_eax_def update_proc_def)
  ultimately have "page_added k c n p ?k"
    using P m'(2-4) ptes out by (simp add: page_added_def)
  moreover have "\<not> (\<forall>p < NPAGES. used k p)" using P by blast
  ultimately show ?thesis using run by auto
qed

text \<open>
  C17: \<open>sys_page_alloc\<close> called with the address of a page never fails an assertion. It takes a
  free physical page for the process, maps it there for the process to read and write, returns
  its physical address and changes no other entry of the page table, no other page's owner and
  no byte outside the process's page table; the contents the page had before are not erased.
  It returns -1 and changes nothing when, and only when, every page is in use.
\<close>

theorem sys_page_alloc_contract:
  assumes "pages_ok k" "c < length (processes k)" "wf_dir (memory k) (p_pagedir (processes k ! c))"
    and "reg_eax (p_registers (processes k ! c)) = page_addr n" "n < 1024"
    and "(word_of_int (p_pid (processes k ! c)) :: u8) \<noteq> 0"
  shows "\<exists>k'. sys_page_alloc c k = Some k' \<and>
    (if \<forall>p < NPAGES. used k p then k' = set_eax c (- 1) k else \<exists>p. page_added k c n p k')"
  by (rule sys_page_alloc_result [OF assms])

text \<open>The process of \<open>one_process\<close> with an empty address space asks for page 300.\<close>

definition asking :: "unit kernel" where
  "asking = (one_process (\<lambda>_. 0))\<lparr>memory := store32 (\<lambda>_. 0) (page_addr 8) (page_addr 9 OR 7),
     processes := (processes (one_process (\<lambda>_. 0)))[1 := (processes (one_process (\<lambda>_. 0)) ! 1)\<lparr>p_registers :=
       (init_registers 0)\<lparr>reg_eax := page_addr 300\<rparr>\<rparr>]\<rparr>"

lemma asking_simps:
  "1 < length (processes asking)" "memory asking = store32 (\<lambda>_. 0) (page_addr 8) (page_addr 9 OR 7)"
  "processes asking ! 1 = \<lparr>p_pid = 1, p_registers = (init_registers 0)\<lparr>reg_eax := page_addr 300\<rparr>,
     p_state = P_RUNNABLE, p_pagedir = page_addr 8\<rparr>"
  "pageinfo asking = pageinfo (one_process (\<lambda>_. 0))"
proof -
  have len: "1 < length (processes (one_process (\<lambda>_. 0)))" by (simp add: one_process_def NPROC_def)
  then show "processes asking ! 1 = \<lparr>p_pid = 1, p_registers = (init_registers 0)\<lparr>reg_eax := page_addr 300\<rparr>,
     p_state = P_RUNNABLE, p_pagedir = page_addr 8\<rparr>"
    by (simp only: asking_def kernel.simps nth_list_update_eq one_process_simps) simp
  show "1 < length (processes asking)" using len by (simp add: asking_def)
qed (simp_all add: asking_def)

theorem sys_page_alloc_contract_witness:
  "\<exists>k' p. sys_page_alloc 1 asking = Some k' \<and> page_added asking 1 300 p k'"
proof -
  have d: "8 < NPAGES" "9 < NPAGES" "(8 :: nat) \<noteq> 9" "0 < NPAGES" by (simp_all add: NPAGES_def)
  have ok: "pages_ok asking" using one_process_ok [of "\<lambda>_. 0"] by (simp add: pages_ok_def asking_simps)
  have "\<not> used asking 0" using one_process_simps(4) [OF d(4), of "\<lambda>_. 0"] by (simp add: used_def asking_simps)
  then have "\<not> (\<forall>p < NPAGES. used asking p)" using d(4) by blast
  with sys_page_alloc_contract [OF ok asking_simps(1), of 300] empty_dir(1) [OF d(1-3)] show ?thesis
    by (simp only: asking_simps proc.simps registers.simps) auto
qed

end
