(* ===== verification/KernelIsolation.thy ===== *)
theory KernelIsolation
  imports KernelAlloc
begin

text \<open>
  What keeps the processes of the WeensyOS kernel apart: which page an address space may map,
  the reference counts of the pages that processes share, and the lemmas on what another
  process or the kernel may change without touching an address space.
\<close>

declare upt_rec_numeral [simp del]

section \<open>Address spaces\<close>

text \<open>The page of the console at \<open>0xB8000\<close>, the one page below its own half a process may reach.\<close>

abbreviation CONSOLE_PAGE :: nat where "CONSOLE_PAGE \<equiv> 184"

definition active :: "'d kernel \<Rightarrow> nat \<Rightarrow> bool" where
  "active k i \<longleftrightarrow> 0 < i \<and> i < NPROC \<and> p_state (processes k ! i) \<noteq> P_FREE"

definition entry :: "'d kernel \<Rightarrow> nat \<Rightarrow> nat \<Rightarrow> u32" where
  "entry k i n = pte (memory k) (p_pagedir (processes k ! i)) n"

definition dir_page :: "'d kernel \<Rightarrow> nat \<Rightarrow> nat" where
  "dir_page k i = page_number (p_pagedir (processes k ! i))"

definition table_page :: "'d kernel \<Rightarrow> nat \<Rightarrow> nat" where
  "table_page k i = page_number (table_of (memory k) (p_pagedir (processes k ! i)))"

definition mapped_page :: "'d kernel \<Rightarrow> nat \<Rightarrow> nat \<Rightarrow> nat" where
  "mapped_page k i n = page_number (PTE_ADDR (entry k i n))"

text \<open>The physical pages of a process: directory, page table and what its own half maps.\<close>

definition space_pages :: "'d kernel \<Rightarrow> nat \<Rightarrow> nat list" where
  "space_pages k i = dir_page k i # table_page k i #
     map (mapped_page k i) (filter (\<lambda>n. entry k i n \<noteq> 0) [256..<768])"

definition owned :: "'d kernel \<Rightarrow> nat \<Rightarrow> nat \<Rightarrow> bool" where
  "owned k i c \<longleftrightarrow> pageinfo k ! c = \<lparr>owner = word_of_nat i, refcount = 1\<rparr>"

definition private_entry :: "'d kernel \<Rightarrow> nat \<Rightarrow> nat \<Rightarrow> bool" where
  "private_entry k i n \<longleftrightarrow> (\<exists>c < NPAGES. entry k i n = page_addr c OR 7 \<and> owned k i c)"

definition shared_entry :: "'d kernel \<Rightarrow> nat \<Rightarrow> nat \<Rightarrow> bool" where
  "shared_entry k i n \<longleftrightarrow> n < NPAGES \<and> entry k i n = page_addr n OR 5"

definition space_isolated :: "'d kernel \<Rightarrow> nat \<Rightarrow> bool" where
  "space_isolated k i \<longleftrightarrow> p_pid (processes k ! i) = int i
     \<and> wf_dir (memory k) (p_pagedir (processes k ! i))
     \<and> owned k i (dir_page k i) \<and> owned k i (table_page k i)
     \<and> (\<forall>n < 256. PTE_ADDR (entry k i n) = page_addr n
          \<and> (entry k i n AND PTE_U \<noteq> 0 \<longrightarrow> n = CONSOLE_PAGE \<and> sint (owner (pageinfo k ! n)) < 0))
     \<and> (\<forall>n. 256 \<le> n \<and> n < 768 \<longrightarrow> entry k i n = 0 \<or> private_entry k i n \<or> shared_entry k i n)
     \<and> (\<forall>n. 768 \<le> n \<and> n < 1024 \<longrightarrow> entry k i n = 0)
     \<and> distinct (space_pages k i)"

text \<open>The processes that share page \<open>c\<close>, and what its reference count promises them.\<close>

definition sharers :: "'d kernel \<Rightarrow> nat \<Rightarrow> nat set" where
  "sharers k c = {i. active k i \<and> 256 \<le> c \<and> shared_entry k i c}"

definition sharing_ok :: "'d kernel \<Rightarrow> nat \<Rightarrow> bool" where
  "sharing_ok k c \<longleftrightarrow> sharers k c = {} \<or>
     (\<exists>j. active k j \<and> owner (pageinfo k ! c) = word_of_nat j
        \<and> int (card (insert j (sharers k c))) \<le> sint (refcount (pageinfo k ! c)))"

definition owner_ok :: "'d kernel \<Rightarrow> pageinfo_t \<Rightarrow> bool" where
  "owner_ok k p \<longleftrightarrow> sint (owner p) \<le> 0 \<or> active k (nat (sint (owner p)))"

definition isolated :: "'d kernel \<Rightarrow> bool" where
  "isolated k \<longleftrightarrow> pages_ok k \<and> length (processes k) = NPROC \<and> p_state (processes k ! 0) = P_FREE
     \<and> list_all (owner_ok k) (pageinfo k)
     \<and> (\<forall>i. active k i \<longrightarrow> space_isolated k i) \<and> (\<forall>c < NPAGES. sharing_ok k c)"

section \<open>Entries and owners\<close>

lemma sint_small: "i < 128 \<Longrightarrow> sint (word_of_nat i :: u8) = int i"
  unfolding signed_of_nat by (simp add: signed_take_bit_int_eq_self_iff)

lemma sint_slot: "i < NPROC \<Longrightarrow> sint (word_of_nat i :: u8) = int i"
  by (rule sint_small) (simp add: NPROC_def)

lemma owner_slot_eq: "i < NPROC \<Longrightarrow> j < NPROC \<Longrightarrow> (word_of_nat i :: u8) = word_of_nat j \<longleftrightarrow> i = j"
  using sint_slot by (metis of_nat_eq_iff)

lemma owned_same: "owned k i c \<Longrightarrow> owned k j c \<Longrightarrow> i < NPROC \<Longrightarrow> j < NPROC \<Longrightarrow> i = j"
  by (simp add: owned_def owner_slot_eq)

lemma owned_used: "owned k i c \<Longrightarrow> 0 < i \<Longrightarrow> i < NPROC \<Longrightarrow> used k c"
  using sint_slot [of i] unfolding owned_def used_def by auto

lemma page_addr_low: "c < NPAGES \<Longrightarrow> page_addr c AND 7 = 0"
proof -
  assume "c < NPAGES"
  then have "page_addr c AND 0xFFF = 0" by (rule page_aligned_mask)
  then have "(page_addr c AND 0xFFF) AND 7 = 0 AND 7" by (simp only:)
  then show ?thesis by (simp add: and.assoc)
qed

lemma entry_parts:
  assumes "c < NPAGES"
  shows "PTE_ADDR (page_addr c OR 7) = page_addr c" "PTE_ADDR (page_addr c OR 5) = page_addr c"
    "(page_addr c OR 7) AND 7 = 7" "(page_addr c OR 5) AND 7 = 5" "(page_addr c OR 7) AND 5 = 5"
    "(page_addr c OR 5) AND 5 = 5" "page_number (page_addr c) = c"
proof -
  have al: "aligned (page_addr c)" using page_at_addr [OF assms] by (simp add: page_at_def)
  show "PTE_ADDR (page_addr c OR 7) = page_addr c" "PTE_ADDR (page_addr c OR 5) = page_addr c"
    by (rule PTE_ADDR_page [OF al]; simp)+
  have d: "(page_addr c OR x) AND y = (page_addr c AND y) OR (x AND y)" for x y
    by (rule bit_word_eqI) (auto simp: bit_simps)
  have "page_addr c AND 5 = (page_addr c AND 7) AND 5" by (simp add: and.assoc)
  then have low: "page_addr c AND 5 = 0" using page_addr_low [OF assms] by simp
  show "(page_addr c OR 7) AND 7 = 7" "(page_addr c OR 7) AND 5 = 5" "(page_addr c OR 5) AND 5 = 5"
    "(page_addr c OR 5) AND 7 = 5"
    by (simp_all only: d low page_addr_low [OF assms]) simp_all
  show "page_number (page_addr c) = c" using assms by (simp add: NPAGES_def)
qed

lemma shared_entryD:
  assumes "shared_entry k i n"
  shows "n < NPAGES" "entry k i n = page_addr n OR 5" "mapped_page k i n = n" "entry k i n \<noteq> 0"
    "entry k i n AND 7 \<noteq> 7" "entry k i n AND 5 = 5"
proof -
  show n: "n < NPAGES" and e: "entry k i n = page_addr n OR 5" using assms by (simp_all add: shared_entry_def)
  note p = entry_parts [OF n]
  show "mapped_page k i n = n" by (simp only: mapped_page_def e p)
  show "entry k i n AND 5 = 5" "entry k i n AND 7 \<noteq> 7" by (simp_all only: e p) simp
  show "entry k i n \<noteq> 0"
  proof
    assume "entry k i n = 0"
    then have "(0 :: u32) AND 5 = 5" using p(6) by (simp only: e)
    then show False by simp
  qed
qed

lemma private_entryE:
  assumes "private_entry k i n"
  obtains c where "c < NPAGES" "entry k i n = page_addr c OR 7" "owned k i c" "mapped_page k i n = c"
    "entry k i n \<noteq> 0" "entry k i n AND 7 = 7" "entry k i n AND 5 = 5" "\<not> shared_entry k i n"
proof -
  obtain c where c: "c < NPAGES" "entry k i n = page_addr c OR 7" "owned k i c"
    using assms by (auto simp: private_entry_def)
  note p = entry_parts [OF c(1)]
  have "\<not> shared_entry k i n" using shared_entryD(5) [of k i n] p(3) by (auto simp: c(2))
  moreover have "mapped_page k i n = c" by (simp only: mapped_page_def c(2) p)
  moreover have "entry k i n AND 7 = 7" "entry k i n AND 5 = 5" by (simp_all only: c(2) p)
  moreover from this have "entry k i n \<noteq> 0" by auto
  ultimately show thesis using c by (intro that) 
qed


section \<open>One address space\<close>

lemma space_isolatedD:
  assumes "space_isolated k i"
  shows "p_pid (processes k ! i) = int i" "wf_dir (memory k) (p_pagedir (processes k ! i))"
    "owned k i (dir_page k i)" "owned k i (table_page k i)"
    "n < 256 \<Longrightarrow> PTE_ADDR (entry k i n) = page_addr n"
    "n < 256 \<Longrightarrow> entry k i n AND PTE_U \<noteq> 0 \<Longrightarrow> n = CONSOLE_PAGE \<and> sint (owner (pageinfo k ! n)) < 0"
    "256 \<le> n \<Longrightarrow> n < 768 \<Longrightarrow> entry k i n = 0 \<or> private_entry k i n \<or> shared_entry k i n"
    "768 \<le> n \<Longrightarrow> n < 1024 \<Longrightarrow> entry k i n = 0" "distinct (space_pages k i)"
  using assms by (auto simp: space_isolated_def)

lemma space_addresses:
  assumes "space_isolated k i"
  shows "dir_page k i < NPAGES" "table_page k i < NPAGES"
    "p_pagedir (processes k ! i) = page_addr (dir_page k i)"
    "table_of (memory k) (p_pagedir (processes k ! i)) = page_addr (table_page k i)"
  using space_isolatedD(2) [OF assms] page_at_number
  by (auto simp: wf_dir_def dir_page_def table_page_def)

lemma distinct_space_pages:
  "distinct (space_pages k i) \<longleftrightarrow> dir_page k i \<noteq> table_page k i
     \<and> (\<forall>n. 256 \<le> n \<and> n < 768 \<and> entry k i n \<noteq> 0 \<longrightarrow>
          mapped_page k i n \<noteq> dir_page k i \<and> mapped_page k i n \<noteq> table_page k i)
     \<and> (\<forall>n n'. 256 \<le> n \<and> n < 768 \<and> entry k i n \<noteq> 0 \<and> 256 \<le> n' \<and> n' < 768 \<and> entry k i n' \<noteq> 0
          \<and> n \<noteq> n' \<longrightarrow> mapped_page k i n \<noteq> mapped_page k i n')"
proof -
  let ?M = "{n. 256 \<le> n \<and> n < 768 \<and> entry k i n \<noteq> 0}"
  have set: "set (filter (\<lambda>n. entry k i n \<noteq> 0) [256..<768]) = ?M" by auto
  have img: "x \<notin> mapped_page k i ` ?M \<longleftrightarrow> (\<forall>n. n \<in> ?M \<longrightarrow> mapped_page k i n \<noteq> x)" for x by auto
  have "distinct (space_pages k i) \<longleftrightarrow> dir_page k i \<noteq> table_page k i \<and> dir_page k i \<notin> mapped_page k i ` ?M
      \<and> table_page k i \<notin> mapped_page k i ` ?M \<and> inj_on (mapped_page k i) ?M"
    by (simp add: space_pages_def distinct_map del: set_filter) (simp only: set; blast)
  then show ?thesis unfolding img inj_on_def by blast
qed

lemma mapped_in_pages:
  "256 \<le> n \<Longrightarrow> n < 768 \<Longrightarrow> entry k i n \<noteq> 0 \<Longrightarrow> mapped_page k i n \<in> set (space_pages k i)"
  by (auto simp: space_pages_def)

lemma space_pages_cases:
  assumes "space_isolated k i" "c \<in> set (space_pages k i)"
  shows "c < NPAGES" "owned k i c \<and> \<not> (256 \<le> c \<and> shared_entry k i c) \<or> 256 \<le> c \<and> shared_entry k i c"
proof -
  note S = space_isolatedD [OF assms(1)]
  consider "c = dir_page k i" | "c = table_page k i"
    | n where "256 \<le> n" "n < 768" "entry k i n \<noteq> 0" "c = mapped_page k i n"
    using assms(2) by (auto simp: space_pages_def)
  then have "c < NPAGES \<and> (owned k i c \<or> 256 \<le> c \<and> shared_entry k i c)"
  proof cases
    case 3
    then consider "private_entry k i n" | "shared_entry k i n" using S(7) by blast
    then show ?thesis
      by cases (use 3 shared_entryD [of k i n] in \<open>auto elim!: private_entryE\<close>)
  qed (use S(3,4) space_addresses [OF assms(1)] in auto)
  then show "c < NPAGES" "owned k i c \<and> \<not> (256 \<le> c \<and> shared_entry k i c) \<or> 256 \<le> c \<and> shared_entry k i c"
    by blast+
qed

text \<open>A page that a process shares is none of its private pages.\<close>

lemma shared_not_private:
  assumes "space_isolated k i" "256 \<le> c" "shared_entry k i c"
  shows "c \<noteq> dir_page k i" "c \<noteq> table_page k i"
    "256 \<le> n \<Longrightarrow> n < 768 \<Longrightarrow> private_entry k i n \<Longrightarrow> mapped_page k i n \<noteq> c"
proof -
  note sh = shared_entryD [OF assms(3)]
  have c: "c < 768" using sh(1) by (simp add: NPAGES_def)
  note d = space_isolatedD(9) [OF assms(1), unfolded distinct_space_pages]
  have dt: "mapped_page k i c \<noteq> dir_page k i \<and> mapped_page k i c \<noteq> table_page k i"
    using d assms(2) c sh(4) by blast
  show "c \<noteq> dir_page k i" "c \<noteq> table_page k i" by (use dt in \<open>simp_all only: sh(3) simp_thms\<close>)
  show "mapped_page k i n \<noteq> c" if n: "256 \<le> n" "n < 768" "private_entry k i n"
  proof -
    have "n \<noteq> c" "entry k i n \<noteq> 0" using n(3) assms(3) by (auto elim: private_entryE)
    then have "mapped_page k i n \<noteq> mapped_page k i c" using d n(1,2) assms(2) c sh(4) by blast
    then show ?thesis unfolding sh(3) .
  qed
qed

section \<open>What leaves an address space alone\<close>

lemma same_entries:
  assumes "space_isolated k i" "p_pagedir (processes k' ! i) = p_pagedir (processes k ! i)"
    and "agree (page (dir_page k i)) (memory k) (memory k')" "agree (page (table_page k i)) (memory k) (memory k')"
  shows "wf_dir (memory k') (p_pagedir (processes k' ! i))" "n < 1024 \<Longrightarrow> entry k' i n = entry k i n"
    "dir_page k' i = dir_page k i" "table_page k' i = table_page k i"
    "n < 1024 \<Longrightarrow> mapped_page k' i n = mapped_page k i n" "space_pages k' i = space_pages k i"
proof -
  note a = space_addresses [OF assms(1)] and wf = space_isolatedD(2) [OF assms(1)]
  have ag: "agree (region (p_pagedir (processes k ! i)) 4096) (memory k) (memory k')"
    "agree (region (table_of (memory k) (p_pagedir (processes k ! i))) 4096) (memory k) (memory k')"
    using assms(3) by (simp only: a(3)) (use assms(4) in \<open>simp only: a(4)\<close>)
  show wf': "wf_dir (memory k') (p_pagedir (processes k' ! i))"
    using wf_dir_agree [OF wf ag(1)] assms(2) by simp
  show e: "n < 1024 \<Longrightarrow> entry k' i n = entry k i n" for n
    using pte_agree [OF wf ag] assms(2) by (simp add: entry_def)
  have "page_at (p_pagedir (processes k ! i))" using wf by (simp add: wf_dir_def)
  then show d: "dir_page k' i = dir_page k i" "table_page k' i = table_page k i"
    using table_of_agree [OF _ ag(1)] assms(2) by (simp_all add: dir_page_def table_page_def)
  show m: "n < 1024 \<Longrightarrow> mapped_page k' i n = mapped_page k i n" for n using e by (simp add: mapped_page_def)
  have f: "filter (\<lambda>n. entry k' i n \<noteq> 0) [256..<768] = filter (\<lambda>n. entry k i n \<noteq> 0) [256..<768]"
    by (intro filter_cong) (simp_all add: e)
  show "space_pages k' i = space_pages k i"
    unfolding space_pages_def d f by (simp add: m)
qed

lemma space_isolated_frame:
  assumes S: "space_isolated k i" and p: "p_pagedir (processes k' ! i) = p_pagedir (processes k ! i)"
      "p_pid (processes k' ! i) = p_pid (processes k ! i)"
    and ag: "agree (page (dir_page k i)) (memory k) (memory k')" "agree (page (table_page k i)) (memory k) (memory k')"
    and own: "\<And>c. c < NPAGES \<Longrightarrow> owned k i c \<Longrightarrow> \<not> (256 \<le> c \<and> shared_entry k i c) \<Longrightarrow> owned k' i c"
    and neg: "\<And>c. c < 256 \<Longrightarrow> sint (owner (pageinfo k ! c)) < 0 \<Longrightarrow> sint (owner (pageinfo k' ! c)) < 0"
  shows "space_isolated k' i" "n < 1024 \<Longrightarrow> shared_entry k' i n = shared_entry k i n"
proof -
  note D = space_isolatedD [OF S] and e = same_entries [OF S p(1) ag] and a = space_addresses [OF S]
  show sh: "n < 1024 \<Longrightarrow> shared_entry k' i n = shared_entry k i n" for n
    by (simp add: shared_entry_def e(2))
  have own': "owned k' i c" if "c \<in> set (space_pages k i)" "\<not> (256 \<le> c \<and> shared_entry k i c)" for c
    using space_pages_cases [OF S that(1)] own that(2) by blast
  have dt: "owned k' i (dir_page k i)" "owned k' i (table_page k i)"
    by (rule own'; use shared_not_private [OF S] in \<open>auto simp: space_pages_def\<close>)+
  have "entry k i n = 0 \<or> private_entry k' i n \<or> shared_entry k' i n" if n: "256 \<le> n" "n < 768" for n
  proof -
    consider "entry k i n = 0" | "private_entry k i n" | "shared_entry k i n" using D(7) [OF n] by blast
    then show ?thesis
    proof cases
      case 2
      then obtain c where c: "c < NPAGES" "entry k i n = page_addr c OR 7" "owned k i c" "mapped_page k i n = c"
        "entry k i n \<noteq> 0" by (elim private_entryE)
      have "\<not> (256 \<le> c \<and> shared_entry k i c)" using shared_not_private(3) [OF S _ _ n 2] c(4) by blast
      then have "owned k' i c" using own c by blast
      then show ?thesis using c n e(2) [of n] by (auto simp: private_entry_def)
    qed (use n sh in simp_all)
  qed
  then show "space_isolated k' i"
    using D dt neg e(1) p(2) unfolding space_isolated_def e(3,4,6) by (auto simp: e(2))
qed


section \<open>The whole kernel\<close>

lemma isolatedD:
  assumes "isolated k"
  shows "pages_ok k" "length (processes k) = NPROC" "length (pageinfo k) = NPAGES"
    "p_state (processes k ! 0) = P_FREE"
    "c < NPAGES \<Longrightarrow> owner_ok k (pageinfo k ! c)" "active k i \<Longrightarrow> space_isolated k i"
    "c < NPAGES \<Longrightarrow> sharing_ok k c"
  using assms by (auto simp: isolated_def pages_ok_def list_all_length)

lemma isolatedI:
  assumes "pages_ok k" "length (processes k) = NPROC" "p_state (processes k ! 0) = P_FREE"
    "\<And>c. c < NPAGES \<Longrightarrow> owner_ok k (pageinfo k ! c)" "\<And>i. active k i \<Longrightarrow> space_isolated k i"
    "\<And>c. c < NPAGES \<Longrightarrow> sharing_ok k c"
  shows "isolated k"
  using assms by (auto simp: isolated_def pages_ok_def list_all_length)

lemma activeD: "active k i \<Longrightarrow> 0 < i \<and> i < NPROC"
  by (simp add: active_def)

lemma owned_distinct:
  "owned k i c \<Longrightarrow> owned k j c' \<Longrightarrow> i \<noteq> j \<Longrightarrow> active k i \<Longrightarrow> active k j \<Longrightarrow> c \<noteq> c'"
  using owned_same [of k i c j] by (auto dest: activeD)

lemma finite_sharers [simp]: "finite (sharers k c)"
  by (rule finite_subset [of _ "{..<NPROC}"]) (auto simp: sharers_def active_def)

lemma sharing_ok_mono:
  assumes "sharing_ok k c" "sharers k' c \<subseteq> sharers k c" "pageinfo k' ! c = pageinfo k ! c"
    and "\<And>j. active k j \<Longrightarrow> active k' j"
  shows "sharing_ok k' c"
proof (cases "sharers k' c = {}")
  case False
  then have ne: "sharers k c \<noteq> {}" using assms(2) by blast
  then obtain j where j: "active k j" "owner (pageinfo k ! c) = word_of_nat j"
    "int (card (insert j (sharers k c))) \<le> sint (refcount (pageinfo k ! c))"
    using assms(1) by (auto simp: sharing_ok_def)
  have "card (insert j (sharers k' c)) \<le> card (insert j (sharers k c))"
    using assms(2) by (intro card_mono) auto
  then have "int (card (insert j (sharers k' c))) \<le> sint (refcount (pageinfo k' ! c))"
    using j(3) assms(3) by simp
  then show ?thesis using j(1,2) assms(3,4) unfolding sharing_ok_def by metis
qed (simp add: sharing_ok_def)

text \<open>A shared page is in use; with a second process it counts at least two references.\<close>

lemma sharer_used:
  assumes "sharing_ok k c" "i \<in> sharers k c"
  shows "used k c"
proof -
  obtain j where j: "active k j" "owner (pageinfo k ! c) = word_of_nat j"
    using assms by (auto simp: sharing_ok_def)
  then have "sint (owner (pageinfo k ! c)) = int j" using sint_slot activeD by metis
  then show ?thesis using activeD [OF j(1)] by (auto simp: used_def)
qed

lemma shared_not_owned:
  assumes "sharing_ok k c" "i \<in> sharers k c" "active k j" "i \<noteq> j"
  shows "\<not> owned k j c"
proof
  assume o: "owned k j c"
  obtain l where l: "active k l" "owner (pageinfo k ! c) = word_of_nat l"
    "int (card (insert l (sharers k c))) \<le> sint (refcount (pageinfo k ! c))"
    using assms(1,2) by (auto simp: sharing_ok_def)
  have "l = j" using o l(1,2) assms(3) owner_slot_eq by (auto simp: owned_def active_def)
  then have "card {i, j} \<le> card (insert l (sharers k c))" using assms(2) by (intro card_mono) auto
  then show False using o l(3) assms(4) by (simp add: owned_def)
qed

text \<open>No page of one process is a private page of another, and none is a free page.\<close>

lemma space_pages_used:
  assumes "isolated k" "active k i" "c \<in> set (space_pages k i)"
  shows "used k c"
proof -
  note S = isolatedD(6) [OF assms(1,2)]
  note c = space_pages_cases [OF S assms(3)]
  show ?thesis
    using c(2) owned_used [of k i c] sharer_used [OF isolatedD(7) [OF assms(1) c(1)], of i] assms(2)
    by (auto simp: active_def sharers_def)
qed

lemma private_of_one:
  assumes "isolated k" "active k i" "active k j" "i \<noteq> j" "c \<in> set (space_pages k i)" "owned k j c'"
    and "\<not> (256 \<le> c' \<and> shared_entry k j c')"
  shows "c \<noteq> c'"
proof
  assume eq: "c = c'"
  note S = isolatedD(6) [OF assms(1,2)]
  note c = space_pages_cases [OF S assms(5)]
  from c(2) show False
  proof (elim disjE conjE)
    assume "owned k i c"
    from owned_distinct [OF this assms(6,4,2,3)] eq show False by contradiction
  next
    assume "256 \<le> c" "shared_entry k i c"
    then have "i \<in> sharers k c" using assms(2) by (simp add: sharers_def)
    then show False using shared_not_owned [OF isolatedD(7) [OF assms(1) c(1)] _ assms(3,4)] assms(6) eq by simp
  qed
qed

end
