(* ===== verification/IsolationSteps.thy ===== *)
theory IsolationSteps
  imports KernelIsolation
begin

text \<open>
  Every system call of the WeensyOS kernel keeps the address spaces apart, and leaves a process
  that does not run as it was.
\<close>

definition left_alone :: "'d kernel \<Rightarrow> 'd kernel \<Rightarrow> nat \<Rightarrow> bool" where
  "left_alone k k' j \<longleftrightarrow> processes k' ! j = processes k ! j
     \<and> (\<forall>c \<in> set (space_pages k j). agree (page c) (memory k) (memory k'))"

definition kernel_kept :: "'d kernel \<Rightarrow> 'd kernel \<Rightarrow> bool" where
  "kernel_kept k k' \<longleftrightarrow> (\<forall>x < NPAGES. sint (owner (pageinfo k ! x)) < 0 \<longrightarrow>
     owner (pageinfo k' ! x) = owner (pageinfo k ! x))"

lemma kernel_kept_refl: "pageinfo k' = pageinfo k \<Longrightarrow> kernel_kept k k'"
  by (simp add: kernel_kept_def)

lemma kernel_kept_low: "kernel_kept k k' \<Longrightarrow> x < 256 \<Longrightarrow> sint (owner (pageinfo k ! x)) < 0 \<Longrightarrow>
    sint (owner (pageinfo k' ! x)) < 0"
  by (simp add: kernel_kept_def NPAGES_def)

section \<open>Steps that change no page owner and no page table\<close>

lemma isolated_same:
  assumes I: "isolated k" and pi: "pageinfo k' = pageinfo k" "length (processes k') = length (processes k)"
    and p: "\<And>i. p_pid (processes k' ! i) = p_pid (processes k ! i)"
      "\<And>i. p_pagedir (processes k' ! i) = p_pagedir (processes k ! i)"
      "\<And>i. p_state (processes k' ! i) = P_FREE \<longleftrightarrow> p_state (processes k ! i) = P_FREE"
    and ag: "\<And>i. active k i \<Longrightarrow> agree (page (dir_page k i)) (memory k) (memory k')"
      "\<And>i. active k i \<Longrightarrow> agree (page (table_page k i)) (memory k) (memory k')"
  shows "isolated k'"
proof -
  note K = isolatedD [OF I]
  have act: "active k' i = active k i" for i by (simp add: active_def p)
  have other: "space_isolated k' i" "x < 1024 \<Longrightarrow> shared_entry k' i x = shared_entry k i x" if "active k i" for i x
    by (rule space_isolated_frame [OF K(6) [OF that] p(2,1) ag(1,2) [OF that]]; simp add: owned_def pi)+
  have "sharing_ok k' x" if "x < NPAGES" for x
  proof (rule sharing_ok_mono [OF K(7) [OF that]])
    have "x < 1024" using that by (simp add: NPAGES_def)
    then show "sharers k' x \<subseteq> sharers k x" using other(2) by (auto simp: sharers_def act)
  qed (simp_all add: pi act)
  then show ?thesis
    using K(1-5) other(1) by (intro isolatedI) (auto simp: act p pi pages_ok_def owner_ok_def)
qed

lemma set_eax_simps:
  "p_pid (processes (set_eax c v k) ! i) = p_pid (processes k ! i)"
  "p_pagedir (processes (set_eax c v k) ! i) = p_pagedir (processes k ! i)"
  "p_state (processes (set_eax c v k) ! i) = p_state (processes k ! i)"
  "length (processes (set_eax c v k)) = length (processes k)"
  "memory (set_eax c v k) = memory k" "pageinfo (set_eax c v k) = pageinfo k"
  by (cases "c < length (processes k)"; cases "i = c";
      simp add: set_eax_def update_proc_def list_update_beyond)+

lemma set_eax_isolated:
  assumes "isolated k"
  shows "isolated (set_eax c v k)" "j \<noteq> c \<Longrightarrow> left_alone k (set_eax c v k) j" "kernel_kept k (set_eax c v k)"
proof -
  show "isolated (set_eax c v k)" by (rule isolated_same [OF assms]; simp add: set_eax_simps)
  show "left_alone k (set_eax c v k) j" if "j \<noteq> c"
    using that by (simp add: left_alone_def set_eax_simps) (simp add: set_eax_def update_proc_def)
  show "kernel_kept k (set_eax c v k)" by (rule kernel_kept_refl) (simp add: set_eax_simps)
qed

section \<open>sys_page_alloc\<close>

lemma page_addedD:
  assumes "page_added k c n p k'" "isolated k" "active k c"
  shows "processes k' = (processes k)[c := with_eax (processes k ! c) (page_addr p)]"
    "pageinfo k' = (pageinfo k)[p := \<lparr>owner = word_of_nat c, refcount = 1\<rparr>]"
    "p < NPAGES" "\<not> used k p" "wf_dir (memory k') (p_pagedir (processes k ! c))"
    "table_of (memory k') (p_pagedir (processes k ! c)) = table_of (memory k) (p_pagedir (processes k ! c))"
    "pte (memory k') (p_pagedir (processes k ! c)) n = page_addr p OR 7"
    "\<And>j. j < 1024 \<Longrightarrow> j \<noteq> n \<Longrightarrow> pte (memory k') (p_pagedir (processes k ! c)) j = entry k c j"
    "agree (- page (table_page k c)) (memory k) (memory k')"
proof -
  note S = isolatedD(6) [OF assms(2,3)]
  have pid: "p_pid (processes k ! c) = int c" by (rule space_isolatedD(1) [OF S])
  note a = assms(1) [unfolded page_added_def Let_def]
  have k': "k' = k\<lparr>processes := (processes k)[c := with_eax (processes k ! c) (page_addr p)],
      pageinfo := (pageinfo k)[p := \<lparr>owner = word_of_int (p_pid (processes k ! c)), refcount = 1\<rparr>],
      memory := memory k'\<rparr>" using a by (elim conjE)
  show "processes k' = (processes k)[c := with_eax (processes k ! c) (page_addr p)]" by (subst k') simp
  show "pageinfo k' = (pageinfo k)[p := \<lparr>owner = word_of_nat c, refcount = 1\<rparr>]" by (subst k') (simp add: pid)
  show "agree (- page (table_page k c)) (memory k) (memory k')"
    using a unfolding space_addresses(4) [OF S] by (elim conjE)
qed (use assms(1) in \<open>simp_all add: page_added_def Let_def entry_def\<close>)

lemma page_added_proc:
  assumes I: "isolated k" and c: "active k c" and added: "page_added k c n p k'"
  shows "processes k' ! i = (if i = c then with_eax (processes k ! c) (page_addr p) else processes k ! i)"
    "p_pid (processes k' ! i) = p_pid (processes k ! i)" "p_pagedir (processes k' ! i) = p_pagedir (processes k ! i)"
    "p_state (processes k' ! i) = p_state (processes k ! i)" "active k' i = active k i"
proof -
  have "c < length (processes k)" using c isolatedD(2) [OF I] by (simp add: active_def)
  then show p: "processes k' ! i = (if i = c then with_eax (processes k ! c) (page_addr p) else processes k ! i)" for i
    by (simp add: page_addedD(1) [OF added I c] nth_list_update)
  show "p_pid (processes k' ! i) = p_pid (processes k ! i)" "p_pagedir (processes k' ! i) = p_pagedir (processes k ! i)"
    "p_state (processes k' ! i) = p_state (processes k ! i)" "active k' i = active k i"
    by (simp_all add: p with_eax_def active_def)
qed

lemma page_added_info:
  assumes I: "isolated k" and c: "active k c" and added: "page_added k c n p k'"
  shows "x < NPAGES \<Longrightarrow> pageinfo k' ! x = (if x = p then \<lparr>owner = word_of_nat c, refcount = 1\<rparr> else pageinfo k ! x)"
    "active k i \<Longrightarrow> x < NPAGES \<Longrightarrow> owned k i x \<Longrightarrow> owned k' i x" "owned k' c p" "kernel_kept k k'"
proof -
  note a = page_addedD [OF added I c]
  show pi: "x < NPAGES \<Longrightarrow> pageinfo k' ! x = (if x = p then \<lparr>owner = word_of_nat c, refcount = 1\<rparr> else pageinfo k ! x)" for x
    using isolatedD(3) [OF I] a(3) by (simp add: a(2) nth_list_update)
  show "active k i \<Longrightarrow> x < NPAGES \<Longrightarrow> owned k i x \<Longrightarrow> owned k' i x"
    using owned_used [of k i x] activeD [of k i] a(4) by (auto simp: owned_def pi)
  show "owned k' c p" using a(3) by (simp add: owned_def pi)
  show "kernel_kept k k'" using a(4) by (auto simp: kernel_kept_def pi used_def)
qed

lemma page_added_others:
  assumes I: "isolated k" and c: "active k c" and added: "page_added k c n p k'" and i: "active k i" "i \<noteq> c"
  shows "left_alone k k' i" "space_isolated k' i" "x < 1024 \<Longrightarrow> shared_entry k' i x = shared_entry k i x"
proof -
  note a = page_addedD [OF added I c] and K = isolatedD [OF I] and S = isolatedD(6) [OF I c]
  note tp = space_isolatedD(4) [OF S] and adr = space_addresses [OF S]
  note q = page_added_proc [OF I c added] and pi = page_added_info [OF I c added]
  have tns: "\<not> (256 \<le> table_page k c \<and> shared_entry k c (table_page k c))"
    using shared_not_private(2) [OF S] by blast
  have ag: "agree (page x) (memory k) (memory k')" if x: "x \<in> set (space_pages k i)" for x
  proof (rule agree_subset [OF a(9)])
    have "x < NPAGES" "x \<noteq> table_page k c"
      using space_pages_cases(1) [OF K(6) [OF i(1)] x] private_of_one [OF I i(1) c i(2) x tp tns] by blast+
    then show "page x \<subseteq> - page (table_page k c)" using page_disjoint [OF _ adr(2)] by blast
  qed
  then show "left_alone k k' i" using i(2) by (simp add: left_alone_def q)
  show "space_isolated k' i" "x < 1024 \<Longrightarrow> shared_entry k' i x = shared_entry k i x"
    by (rule space_isolated_frame [OF K(6) [OF i(1)] q(3,2)]; use ag pi(2) [OF i(1)] kernel_kept_low [OF pi(4)] in
        \<open>simp add: space_pages_def\<close>)+
qed

lemma page_added_entries:
  assumes I: "isolated k" and c: "active k c" and added: "page_added k c n p k'"
  shows "j < 1024 \<Longrightarrow> entry k' c j = (if j = n then page_addr p OR 7 else entry k c j)"
    "j < 1024 \<Longrightarrow> mapped_page k' c j = (if j = n then p else mapped_page k c j)"
    "dir_page k' c = dir_page k c" "table_page k' c = table_page k c"
    "x \<in> set (space_pages k c) \<Longrightarrow> p \<noteq> x"
proof -
  note a = page_addedD [OF added I c] and q = page_added_proc [OF I c added]
  show e: "j < 1024 \<Longrightarrow> entry k' c j = (if j = n then page_addr p OR 7 else entry k c j)"
    using a(7) a(8) [of j] by (simp add: entry_def q(3))
  show "j < 1024 \<Longrightarrow> mapped_page k' c j = (if j = n then p else mapped_page k c j)"
    using e entry_parts [OF a(3)] by (simp add: mapped_page_def)
  show "dir_page k' c = dir_page k c" "table_page k' c = table_page k c"
    by (simp_all add: dir_page_def table_page_def q(3) a(6))
  show "x \<in> set (space_pages k c) \<Longrightarrow> p \<noteq> x" using space_pages_used [OF I c] a(4) by blast
qed

lemma page_added_distinct:
  assumes I: "isolated k" and c: "active k c" and n: "256 \<le> n" "n < 768" and added: "page_added k c n p k'"
  shows "distinct (space_pages k' c)"
proof -
  note e = page_added_entries [OF I c added]
  note dist = space_isolatedD(9) [OF isolatedD(6) [OF I c], unfolded distinct_space_pages]
  have pm: "p \<noteq> mapped_page k c j" if "256 \<le> j" "j < 768" "entry k c j \<noteq> 0" for j
    by (rule e(5) [OF mapped_in_pages [OF that]])
  have pd: "p \<noteq> dir_page k c" "p \<noteq> table_page k c" by (rule e(5); simp add: space_pages_def)+
  have "mapped_page k' c j \<noteq> dir_page k c \<and> mapped_page k' c j \<noteq> table_page k c"
    if j: "256 \<le> j" "j < 768" "entry k' c j \<noteq> 0" for j
    using j dist pd e(1,2) [of j] by (cases "j = n") auto
  moreover have "mapped_page k' c j \<noteq> mapped_page k' c j'"
    if j: "256 \<le> j" "j < 768" "entry k' c j \<noteq> 0" "256 \<le> j'" "j' < 768" "entry k' c j' \<noteq> 0" "j \<noteq> j'" for j j'
  proof -
    have "j \<noteq> n \<Longrightarrow> entry k c j \<noteq> 0" "j' \<noteq> n \<Longrightarrow> entry k c j' \<noteq> 0" using j e(1) [of j] e(1) [of j'] by auto
    moreover have "mapped_page k' c j = (if j = n then p else mapped_page k c j)"
      "mapped_page k' c j' = (if j' = n then p else mapped_page k c j')" using j e(2) by simp_all
    ultimately show ?thesis using j dist pm [of j] pm [of j'] by (cases "j = n"; cases "j' = n") auto
  qed
  moreover have "dir_page k c \<noteq> table_page k c" using dist by blast
  ultimately show ?thesis unfolding distinct_space_pages e(3,4) by blast
qed

lemma page_added_self:
  assumes I: "isolated k" and c: "active k c" and n: "256 \<le> n" "n < 768" and added: "page_added k c n p k'"
  shows "space_isolated k' c"
proof -
  note a = page_addedD [OF added I c] and D = space_isolatedD [OF isolatedD(6) [OF I c]]
  note adr = space_addresses [OF isolatedD(6) [OF I c]]
  note q = page_added_proc [OF I c added] and pi = page_added_info [OF I c added] and e = page_added_entries [OF I c added]
  have "private_entry k' c n" using e(1) [of n] a(3) pi(3) n by (auto simp: private_entry_def)
  moreover have "private_entry k c j \<Longrightarrow> j \<noteq> n \<Longrightarrow> j < 1024 \<Longrightarrow> private_entry k' c j"
    "shared_entry k c j \<Longrightarrow> j \<noteq> n \<Longrightarrow> j < 1024 \<Longrightarrow> shared_entry k' c j" for j
    using pi(2) [OF c] by (auto simp: private_entry_def shared_entry_def e(1))
  ultimately have ent: "entry k' c j = 0 \<or> private_entry k' c j \<or> shared_entry k' c j"
    if "256 \<le> j" "j < 768" for j
    using D(7) [OF that] that e(1) [of j] by (cases "j = n") auto
  then show ?thesis
    using D(1-6,8) pi(2) [OF c] adr(1,2) kernel_kept_low [OF pi(4)] n page_added_distinct [OF I c n added]
    unfolding space_isolated_def e(3,4) by (auto simp: q(2,3) e(1) a(5))
qed

lemma page_added_isolated:
  assumes I: "isolated k" and c: "active k c" and n: "256 \<le> n" "n < 768" and added: "page_added k c n p k'"
  shows "isolated k'"
proof (rule isolatedI)
  note a = page_addedD [OF added I c] and K = isolatedD [OF I]
  note q = page_added_proc [OF I c added] and pi = page_added_info [OF I c added] and e = page_added_entries [OF I c added]
  have "(word_of_nat c :: u8) \<noteq> 0" using sint_slot [of c] activeD [OF c] by auto
  then show "pages_ok k'" using K(1,3) a(3) by (auto simp: pages_ok_def a(2) list_all_length nth_list_update)
  show "length (processes k') = NPROC" using K(2) by (simp add: a(1))
  show "p_state (processes k' ! 0) = P_FREE" using K(4) by (simp add: q(4))
  show "owner_ok k' (pageinfo k' ! x)" if "x < NPAGES" for x
    using K(5) [OF that] that c sint_slot [of c] activeD [OF c] by (auto simp: owner_ok_def pi q(5))
  show "space_isolated k' i" if "active k' i" for i
    using that page_added_self [OF I c n added] page_added_others(2) [OF I c added] by (cases "i = c") (auto simp: q(5))
  show "sharing_ok k' x" if x: "x < NPAGES" for x
  proof -
    have x1: "x < 1024" using x by (simp add: NPAGES_def)
    have "shared_entry k c x" if "shared_entry k' c x"
    proof -
      have "entry k' c x \<noteq> page_addr p OR 7" using shared_entryD(5) [OF that] entry_parts(3) [OF a(3)] by metis
      then show ?thesis using that e(1) [OF x1] by (auto simp: shared_entry_def split: if_splits)
    qed
    then have sub: "sharers k' x \<subseteq> sharers k x"
      using page_added_others(3) [OF I c added _ _ x1] by (auto simp: sharers_def q(5))
    show ?thesis
    proof (cases "x = p")
      case True
      then have "sharers k x = {}" using sharer_used [OF K(7) [OF x]] a(4) by blast
      then show ?thesis using sub by (simp add: sharing_ok_def)
    next
      case False
      then show ?thesis using sharing_ok_mono [OF K(7) [OF x] sub] x by (simp add: pi q(5))
    qed
  qed
qed

lemma sys_page_alloc_isolated:
  assumes I: "isolated k" and c: "active k c" and n: "256 \<le> n" "n < 768"
    and eax: "reg_eax (p_registers (processes k ! c)) = page_addr n" and run: "sys_page_alloc c k = Some k'"
  shows "isolated k'" "active k j \<Longrightarrow> j \<noteq> c \<Longrightarrow> left_alone k k' j" "kernel_kept k k'"
proof -
  note K = isolatedD [OF I] and D = space_isolatedD [OF isolatedD(6) [OF I c]]
  have "(word_of_nat c :: u8) \<noteq> 0" using sint_slot [of c] activeD [OF c] by auto
  then have "(word_of_int (p_pid (processes k ! c)) :: u8) \<noteq> 0" by (simp add: D(1))
  moreover have "c < length (processes k)" "n < 1024" using K(2) activeD [OF c] n by simp_all
  ultimately have "if \<forall>p < NPAGES. used k p then k' = set_eax c (- 1) k else \<exists>p. page_added k c n p k'"
    using sys_page_alloc_result [OF K(1) _ D(2) eax] run by simp
  then consider "k' = set_eax c (- 1) k" | p where "page_added k c n p k'" by (auto split: if_splits)
  then show "isolated k'" "active k j \<Longrightarrow> j \<noteq> c \<Longrightarrow> left_alone k k' j" "kernel_kept k k'"
    by (cases; use set_eax_isolated [OF I] page_added_isolated [OF I c n] page_added_others(1) [OF I c]
        page_added_info(4) [OF I c] in blast)+
qed

end
