(* ===== verification/IsolationFork.thy ===== *)
theory IsolationFork
  imports IsolationSteps
begin

text \<open>\<open>fork\<close> keeps the address spaces apart: the father's, the child's and all others.\<close>

section \<open>What fork needs\<close>

lemma isolated_space_ok:
  assumes I: "isolated k" and c: "active k c"
  shows "space_ok k (p_pagedir (processes k ! c))"
proof -
  note S = isolatedD(6) [OF I c] and K = isolatedD [OF I]
  note D = space_isolatedD [OF S]
  have u: "used k x" if "owned k c x" for x using owned_used [OF that] activeD [OF c] by blast
  have "dir_used k (p_pagedir (processes k ! c))"
    using D(2) u [OF D(3)] u [OF D(4)] by (simp add: dir_used_def dir_page_def table_page_def)
  moreover have "user_page_ok k (entry k c n)" if n: "256 \<le> n" "n < 768" for n
  proof -
    consider "entry k c n = 0" | "private_entry k c n" | "shared_entry k c n" using D(7) [OF n] by blast
    then show ?thesis
    proof cases
      case 1
      then show ?thesis by (simp add: user_page_ok_def)
    next
      case 2
      then obtain x where x: "x < NPAGES" "entry k c n = page_addr x OR 7" "owned k c x" by (elim private_entryE)
      then show ?thesis unfolding user_page_ok_def x(2) entry_parts [OF x(1)]
        using u [OF x(3)] page_at_addr [OF x(1)] by simp
    next
      case 3
      note sh = shared_entryD [OF 3]
      have "c \<in> sharers k n" using 3 n c by (simp add: sharers_def)
      then have "used k n" by (rule sharer_used [OF K(7) [OF sh(1)]])
      then show ?thesis unfolding user_page_ok_def sh(2) entry_parts [OF sh(1)]
        using page_at_addr [OF sh(1)] by simp
    qed
  qed
  ultimately show ?thesis unfolding space_ok_def list_all_iff set_upt by (auto simp: entry_def)
qed

lemma free_slotD:
  assumes "free_slot k = Some slot"
  shows "0 < slot" "slot < NPROC" "p_state (processes k ! slot) = P_FREE" "\<not> active k slot"
  using assms by (auto simp: free_slot_def find_Some_iff active_def)

lemma isolated_fork_ready:
  assumes I: "isolated k" and c: "active k c" and slot: "free_slot k = Some slot"
  shows "fork_ready k c slot"
proof -
  note K = isolatedD [OF I] and s = free_slotD [OF slot]
  have "sint (owner (pageinfo k ! x)) \<noteq> int slot" if "x < NPAGES" for x
    using K(5) [OF that] s by (auto simp: owner_ok_def)
  then show ?thesis
    using K(1-3) c slot isolated_space_ok [OF I c]
    by (auto simp: fork_ready_def active_def list_all_length)
qed

text \<open>Each read-only page of the father is shared once.\<close>

lemma shared_upto_eq:
  assumes I: "isolated k" and c: "active k c" and i: "256 \<le> i" "i \<le> 768"
  shows "shared_upto k (p_pagedir (processes k ! c)) i x =
    (if 256 \<le> x \<and> x < i \<and> shared_entry k c x then 1 else 0)"
  using i
proof (induction i rule: nat_induct_at_least)
  case base
  then show ?case by simp
next
  case (Suc j)
  note D = space_isolatedD [OF isolatedD(6) [OF I c]]
  have j: "256 \<le> j" "j < 768" using Suc by simp_all
  consider "entry k c j = 0" | "private_entry k c j" | "shared_entry k c j" using D(7) [OF j] by blast
  then have "shares (entry k c j) x \<longleftrightarrow> x = j \<and> shared_entry k c j"
  proof cases
    case 1
    then show ?thesis using shared_entryD(4) by (auto simp: shares_def)
  next
    case 2
    then show ?thesis by (auto simp: shares_def elim: private_entryE)
  next
    case 3
    then show ?thesis using shared_entryD [OF 3] by (auto simp: shares_def mapped_page_def)
  qed
  then show ?case using Suc j by (auto simp: shared_upto_Suc entry_def less_Suc_eq)
qed


section \<open>The processes there are\<close>

text \<open>\<open>forked_from k c i k'\<close>: what success and failure have in common.\<close>

definition counted :: "'d kernel \<Rightarrow> bool" where
  "counted k \<longleftrightarrow> list_all (\<lambda>p. sint (refcount p) < 127) (pageinfo k)"

definition forked_from :: "'d kernel \<Rightarrow> nat \<Rightarrow> nat \<Rightarrow> 'd kernel \<Rightarrow> bool" where
  "forked_from k c i k' \<longleftrightarrow> 256 \<le> i \<and> i \<le> 768
     \<and> references_added k (p_pagedir (processes k ! c)) i k' \<and> agree (used_area k) (memory k) (memory k')
     \<and> (\<forall>j. active k j \<longrightarrow> processes k' ! j = (if j = c then with_eax (processes k ! c)
          (reg_eax (p_registers (processes k' ! c))) else processes k ! j))"

lemma forked_from_pages:
  assumes I: "isolated k" and c: "active k c" and f: "forked_from k c i k'" and x: "x < NPAGES" "used k x"
  shows "owner (pageinfo k' ! x) = owner (pageinfo k ! x)"
    "refcount (pageinfo k' ! x) = refcount (pageinfo k ! x)
       + (if 256 \<le> x \<and> x < i \<and> shared_entry k c x then 1 else 0)"
proof -
  have i: "256 \<le> i" "i \<le> 768" using f by (simp_all add: forked_from_def)
  have "pageinfo k' ! x = \<lparr>owner = owner (pageinfo k ! x), refcount = refcount (pageinfo k ! x)
      + word_of_nat (shared_upto k (p_pagedir (processes k ! c)) i x)\<rparr>"
    using f x by (simp add: forked_from_def references_added_def)
  then show "owner (pageinfo k' ! x) = owner (pageinfo k ! x)"
    "refcount (pageinfo k' ! x) = refcount (pageinfo k ! x)
       + (if 256 \<le> x \<and> x < i \<and> shared_entry k c x then 1 else 0)"
    by (simp_all add: shared_upto_eq [OF I c i])
qed

lemma forked_from_kept:
  assumes "isolated k" "active k c" "forked_from k c i k'"
  shows "kernel_kept k k'"
proof -
  have "used k x" if "sint (owner (pageinfo k ! x)) < 0" for x using that by (auto simp: used_def)
  then show ?thesis using forked_from_pages(1) [OF assms] by (simp add: kernel_kept_def)
qed

lemma forked_from_agree:
  assumes "isolated k" "forked_from k c i k'" "active k j" "x \<in> set (space_pages k j)"
  shows "agree (page x) (memory k) (memory k')"
proof (rule agree_page)
  show "used k x" by (rule space_pages_used [OF assms(1,3,4)])
  show "x < NPAGES" by (rule space_pages_cases(1) [OF isolatedD(6) [OF assms(1,3)] assms(4)])
  show "agree (used_area k) (memory k) (memory k')" using assms(2) by (simp add: forked_from_def)
qed

lemma forked_from_owned:
  assumes I: "isolated k" and c: "active k c" and f: "forked_from k c i k'" and j: "active k j"
    and o: "x < NPAGES" "owned k j x" "\<not> (256 \<le> x \<and> shared_entry k j x)"
  shows "owned k' j x"
proof -
  have u: "used k x" using owned_used [OF o(2)] activeD [OF j] by blast
  have "\<not> (256 \<le> x \<and> shared_entry k c x)"
  proof
    assume sh: "256 \<le> x \<and> shared_entry k c x"
    then have "c \<in> sharers k x" using c by (simp add: sharers_def)
    then show False using shared_not_owned [OF isolatedD(7) [OF I o(1)] _ j] o sh by (cases "c = j") auto
  qed
  then show ?thesis
    using forked_from_pages [OF I c f o(1) u] o(2) unfolding owned_def
    by (auto intro: pageinfo_t.equality)
qed

lemma forked_from_others:
  assumes I: "isolated k" and c: "active k c" and f: "forked_from k c i k'" and j: "active k j"
  shows "space_isolated k' j" "x < 1024 \<Longrightarrow> shared_entry k' j x = shared_entry k j x"
    "j \<noteq> c \<Longrightarrow> left_alone k k' j" "active k' j"
proof -
  have p: "processes k' ! j = (if j = c then with_eax (processes k ! c)
      (reg_eax (p_registers (processes k' ! c))) else processes k ! j)"
    using f j unfolding forked_from_def by blast
  note neg = kernel_kept_low [OF forked_from_kept [OF I c f]]
  have d: "p_pid (processes k' ! j) = p_pid (processes k ! j)" "p_pagedir (processes k' ! j) = p_pagedir (processes k ! j)"
    "p_state (processes k' ! j) = p_state (processes k ! j)"
    using p by (auto simp: with_eax_def)
  note frame = space_isolated_frame [OF isolatedD(6) [OF I j] d(2,1) _ _ forked_from_owned [OF I c f j] neg]
  show "space_isolated k' j" "x < 1024 \<Longrightarrow> shared_entry k' j x = shared_entry k j x"
    by (rule frame; (assumption | rule forked_from_agree [OF I f j]; simp add: space_pages_def))+
  show "left_alone k k' j" if "j \<noteq> c" using that p forked_from_agree [OF I f j] by (simp add: left_alone_def)
  show "active k' j" using j d(3) by (simp add: active_def)
qed

text \<open>One more reference for one more process.\<close>

lemma sharing_ok_insert:
  assumes ok: "sharing_ok k x" and sub: "sharers k' x \<subseteq> insert s (sharers k x)"
    and d: "s \<in> sharers k' x \<Longrightarrow> sharers k x \<noteq> {} \<and> d = 1" "d = 0 \<or> d = (1 :: int)"
    and p: "owner (pageinfo k' ! x) = owner (pageinfo k ! x)"
      "sint (refcount (pageinfo k' ! x)) = sint (refcount (pageinfo k ! x)) + d"
    and act: "\<And>j. active k j \<Longrightarrow> active k' j"
  shows "sharing_ok k' x"
proof (cases "sharers k' x = {}")
  case False
  then have "sharers k x \<noteq> {}" using sub d(1) by blast
  then obtain j where j: "active k j" "owner (pageinfo k ! x) = word_of_nat j"
    "int (card (insert j (sharers k x))) \<le> sint (refcount (pageinfo k ! x))"
    using ok by (auto simp: sharing_ok_def)
  have "int (card (insert j (sharers k' x))) \<le> int (card (insert j (sharers k x))) + d"
  proof (cases "s \<in> sharers k' x")
    case True
    have "card (insert j (sharers k' x)) \<le> card (insert s (insert j (sharers k x)))"
      using sub by (intro card_mono) auto
    also have "\<dots> \<le> Suc (card (insert j (sharers k x)))" by (rule card_insert_le_m1) simp_all
    finally show ?thesis using d(1) [OF True] by simp
  next
    case False
    then have "card (insert j (sharers k' x)) \<le> card (insert j (sharers k x))"
      using sub by (intro card_mono) auto
    then show ?thesis using d(2) by auto
  qed
  then have "int (card (insert j (sharers k' x))) \<le> sint (refcount (pageinfo k' ! x))" using j(3) p(2) by simp
  then show ?thesis using j(1,2) p(1) act unfolding sharing_ok_def by metis
qed (simp add: sharing_ok_def)

lemma sint_Suc: "sint (w :: u8) < 127 \<Longrightarrow> sint (w + 1) = sint w + 1"
proof -
  assume "sint w < 127"
  moreover have "- 128 \<le> sint w" using sint_ge [of w] by simp
  ultimately have "signed_take_bit 7 (sint w + 1) = sint w + 1"
    by (simp add: signed_take_bit_int_eq_self_iff)
  moreover have "sint (w + 1) = signed_take_bit 7 (sint w + sint (1 :: u8))"
    by (simp only: sint_word_ariths(1)) simp
  ultimately show ?thesis by simp
qed


lemma counted_refcount:
  assumes I: "isolated k" and c: "active k c" and f: "forked_from k c i k'" and n: "counted k"
    and x: "x < NPAGES" "used k x"
  shows "sint (refcount (pageinfo k' ! x)) = sint (refcount (pageinfo k ! x))
    + (if 256 \<le> x \<and> x < i \<and> shared_entry k c x then 1 else 0)"
proof -
  have "sint (refcount (pageinfo k ! x)) < 127"
    using n x isolatedD(3) [OF I] by (simp add: counted_def list_all_length)
  then show ?thesis using forked_from_pages(2) [OF I c f x] sint_Suc by simp
qed

lemma forked_from_sharing:
  assumes I: "isolated k" and c: "active k c" and f: "forked_from k c i k'" and n: "counted k"
    and x: "x < NPAGES" and s: "\<not> active k s"
    and act: "\<And>j. active k' j \<Longrightarrow> active k j \<or> j = s"
    and new: "active k' s \<Longrightarrow> shared_entry k' s x \<Longrightarrow> 256 \<le> x \<Longrightarrow> shared_entry k c x \<and> i = 768"
  shows "sharing_ok k' x"
proof -
  note K = isolatedD [OF I] and o = forked_from_others [OF I c f]
  have x1: "x < 1024" "x < 768" using x by (simp_all add: NPAGES_def)
  have sub: "sharers k' x \<subseteq> insert s (sharers k x)" using act o(2) [OF _ x1(1)] by (auto simp: sharers_def)
  have ns: "s \<in> sharers k' x \<Longrightarrow> 256 \<le> x \<and> x < i \<and> shared_entry k c x"
    using new x1(2) by (auto simp: sharers_def)
  show ?thesis
  proof (cases "used k x")
    case True
    let ?d = "if 256 \<le> x \<and> x < i \<and> shared_entry k c x then 1 else 0 :: int"
    show ?thesis
    proof (rule sharing_ok_insert [where d = ?d, OF K(7) [OF x] sub])
      show "sharers k x \<noteq> {} \<and> ?d = 1" if "s \<in> sharers k' x"
      proof -
        have "c \<in> sharers k x" using ns [OF that] c by (simp add: sharers_def)
        then show ?thesis using ns [OF that] by auto
      qed
      show "?d = 0 \<or> ?d = 1" by simp
      show "owner (pageinfo k' ! x) = owner (pageinfo k ! x)" by (rule forked_from_pages(1) [OF I c f x True])
      show "sint (refcount (pageinfo k' ! x)) = sint (refcount (pageinfo k ! x)) + ?d"
        by (rule counted_refcount [OF I c f n x True])
      show "active k j \<Longrightarrow> active k' j" for j by (rule o(4))
    qed
  next
    case False
    then have none: "sharers k x = {}" using sharer_used [OF K(7) [OF x]] by blast
    have "s \<notin> sharers k' x"
    proof
      assume "s \<in> sharers k' x"
      from ns [OF this] have "c \<in> sharers k x" using c by (simp add: sharers_def)
      then show False using none by blast
    qed
    then have "sharers k' x = {}" using sub none by blast
    then show ?thesis by (simp add: sharing_ok_def)
  qed
qed

section \<open>Failure\<close>

lemma fork_failure_isolated:
  assumes I: "isolated k" and c: "active k c" and slot: "free_slot k = Some slot" and n: "counted k"
    and ok: "pages_ok k'" and fail: "fork_failure k c slot k'" and ag: "agree (used_area k) (memory k) (memory k')"
  shows "isolated k'" "active k j \<Longrightarrow> j \<noteq> c \<Longrightarrow> left_alone k k' j" "kernel_kept k k'"
proof -
  note K = isolatedD [OF I] and s = free_slotD [OF slot]
  have ne: "c \<noteq> slot" using c s(4) by blast
  have lens: "slot < length (processes k)" "c < length (processes k)"
    using s(2) K(2) activeD [OF c] by simp_all
  have pr: "processes k' = (processes k)[slot := child_of (processes k ! c) slot P_FREE (p_pagedir (processes k' ! slot)),
      c := with_eax (processes k ! c) (- 1)]"
    and ow: "map owner (pageinfo k') = map owner (pageinfo k)"
    using fail by (simp_all add: fork_failure_def Let_def)
  obtain i where i: "i \<le> 768" "references_added k (p_pagedir (processes k ! c)) i k'"
    using fail by (auto simp: fork_failure_def Let_def)
  have proc: "processes k' ! j = (if j = c then with_eax (processes k ! c) (- 1) else processes k ! j)" if "j \<noteq> slot" for j
    using lens that by (subst pr) (simp add: nth_list_update)
  have free: "p_state (processes k' ! slot) = P_FREE"
    using lens ne by (subst pr) (simp add: child_of_def)
  have "references_added k (p_pagedir (processes k ! c)) (max 256 i) k'"
    using i(2) by (simp add: references_added_def shared_upto_def max_def)
  then have f: "forked_from k c (max 256 i) k'"
  proof -
    have "reg_eax (p_registers (processes k' ! c)) = - 1" using proc [OF ne] by (simp add: with_eax_def)
    then have "processes k' ! j = (if j = c then with_eax (processes k ! c)
        (reg_eax (p_registers (processes k' ! c))) else processes k ! j)" if "active k j" for j
    proof -
      have "j \<noteq> slot" using that s(4) by blast
      then show ?thesis using proc [of j] \<open>reg_eax _ = - 1\<close> by simp
    qed
    then show ?thesis using i(1) ag \<open>references_added k _ (max 256 i) k'\<close> by (simp add: forked_from_def)
  qed
  note o = forked_from_others [OF I c f]
  have act: "active k' j \<longleftrightarrow> active k j" for j
    using proc [of j] free s(3) by (cases "j = slot") (auto simp: active_def with_eax_def)
  show "isolated k'"
  proof (rule isolatedI [OF ok])
    show "length (processes k') = NPROC" using K(2) by (subst pr) simp
    show "p_state (processes k' ! 0) = P_FREE" using K(4) proc [of 0] s(1) by (auto simp: with_eax_def)
    show "owner_ok k' (pageinfo k' ! x)" if x: "x < NPAGES" for x
    proof -
      have l: "length (pageinfo k') = NPAGES" using ok by (simp add: pages_ok_def)
      have "map owner (pageinfo k') ! x = map owner (pageinfo k) ! x" by (simp only: ow)
      then have "owner (pageinfo k' ! x) = owner (pageinfo k ! x)" using x l K(3) by simp
      then show ?thesis using K(5) [OF x] by (simp add: owner_ok_def act)
    qed
    show "space_isolated k' j" if "active k' j" for j using o(1) that act by blast
    show "sharing_ok k' x" if "x < NPAGES" for x
      by (rule forked_from_sharing [OF I c f n that s(4)]) (use act s(4) in auto)
  qed
  show "active k j \<Longrightarrow> j \<noteq> c \<Longrightarrow> left_alone k k' j" by (rule o(3))
  show "kernel_kept k k'" by (rule forked_from_kept [OF I c f])
qed


section \<open>Success\<close>

lemma fork_successD:
  assumes "fork_success k c slot k'"
  shows "processes k' = (processes k)[slot := child_of (processes k ! c) slot P_RUNNABLE (p_pagedir (processes k' ! slot)),
      c := with_eax (processes k ! c) (word_of_nat slot)]"
    "wf_dir (memory k') (p_pagedir (processes k' ! slot))"
    "\<not> used k (dir_page k' slot)" "\<not> used k (table_page k' slot)"
    "owned k' slot (dir_page k' slot)" "owned k' slot (table_page k' slot)"
    "\<And>x. x < NPAGES \<Longrightarrow> \<not> used k x \<Longrightarrow> \<not> used k' x \<or> owned k' slot x"
    "\<And>n. n < 256 \<Longrightarrow> entry k' slot n = entry k c n"
    "\<And>n. 256 \<le> n \<Longrightarrow> n < 768 \<Longrightarrow>
      forked k (p_pagedir (processes k ! c)) (int slot) (dir_page k' slot) (table_page k' slot) k' n"
    "\<And>n. 768 \<le> n \<Longrightarrow> n < 1024 \<Longrightarrow> entry k' slot n = 0"
    "references_added k (p_pagedir (processes k ! c)) 768 k'"
    "\<And>n n'. 256 \<le> n \<Longrightarrow> n < n' \<Longrightarrow> n' < 768 \<Longrightarrow> entry k c n AND 7 = 7 \<Longrightarrow> entry k c n' AND 7 = 7 \<Longrightarrow>
      copy_page (memory k') (dir_page k' slot) n \<noteq> copy_page (memory k') (dir_page k' slot) n'"
  using assms by (auto simp only: fork_success_def Let_def dir_page_def table_page_def entry_def owned_def)

text \<open>The three kinds of entries of the child.\<close>

lemma fork_child_entry:
  assumes I: "isolated k" and c: "active k c" and s: "fork_success k c slot k'" and n: "256 \<le> n" "n < 768"
  shows "entry k c n = 0 \<Longrightarrow> entry k' slot n = 0"
    "shared_entry k c n \<Longrightarrow> shared_entry k' slot n \<and> used k n"
    "private_entry k c n \<Longrightarrow> private_entry k' slot n \<and> \<not> used k (mapped_page k' slot n)
      \<and> mapped_page k' slot n = copy_page (memory k') (dir_page k' slot) n
      \<and> mapped_page k' slot n \<noteq> dir_page k' slot \<and> mapped_page k' slot n \<noteq> table_page k' slot"
proof -
  note f = fork_successD(9) [OF s n] and K = isolatedD [OF I]
  note e = entry_def [of k c n, symmetric]
  have pd: "p_pagedir (processes k' ! slot) = page_addr (dir_page k' slot)"
    using page_at_number(2) fork_successD(2) [OF s] by (simp add: wf_dir_def dir_page_def)
  have e': "pte (memory k') (page_addr (dir_page k' slot)) n = entry k' slot n" by (simp add: entry_def pd)
  show "entry k c n = 0 \<Longrightarrow> entry k' slot n = 0"
    using f unfolding forked_def Let_def e e' by simp
  show "shared_entry k' slot n \<and> used k n" if sh: "shared_entry k c n"
  proof -
    note x = shared_entryD [OF sh]
    have "entry k' slot n = PTE_ADDR (entry k c n) OR 5"
      using f x(5,6) unfolding forked_def Let_def e e' by simp
    then have "shared_entry k' slot n"
      unfolding shared_entry_def x(2) entry_parts(2) [OF x(1)] using x(1) by simp
    moreover have "c \<in> sharers k n" using sh n c by (simp add: sharers_def)
    then have "used k n" by (rule sharer_used [OF K(7) [OF x(1)]])
    ultimately show ?thesis by blast
  qed
  show "private_entry k' slot n \<and> \<not> used k (mapped_page k' slot n)
      \<and> mapped_page k' slot n = copy_page (memory k') (dir_page k' slot) n
      \<and> mapped_page k' slot n \<noteq> dir_page k' slot \<and> mapped_page k' slot n \<noteq> table_page k' slot"
    if pr: "private_entry k c n"
  proof -
    have seven: "entry k c n AND 7 = 7" using pr by (rule private_entryE)
    let ?x = "copy_page (memory k') (dir_page k' slot) n"
    have x: "?x < NPAGES" "\<not> used k ?x" "?x \<noteq> dir_page k' slot" "?x \<noteq> table_page k' slot"
      "pageinfo k' ! ?x = \<lparr>owner = word_of_int (int slot), refcount = 1\<rparr>" "entry k' slot n = page_addr ?x OR 7"
      using f seven unfolding forked_def Let_def e e' by simp_all
    have "owned k' slot ?x" using x(5) by (simp add: owned_def)
    then have "private_entry k' slot n" using x(1,6) by (auto simp: private_entry_def)
    moreover have "mapped_page k' slot n = ?x"
      unfolding mapped_page_def x(6) entry_parts(1) [OF x(1)] by (rule entry_parts(7) [OF x(1)])
    ultimately show ?thesis using x(2-4) by simp
  qed
qed

lemma fork_child_distinct:
  assumes I: "isolated k" and c: "active k c" and s: "fork_success k c slot k'"
  shows "distinct (space_pages k' slot)"
proof -
  note D = space_isolatedD [OF isolatedD(6) [OF I c]] and F = fork_successD [OF s]
  have kind: "private_entry k c n \<or> shared_entry k c n" if "256 \<le> n" "n < 768" "entry k' slot n \<noteq> 0" for n
    using D(7) [OF that(1,2)] fork_child_entry(1) [OF I c s that(1,2)] that(3) by blast
  have dt: "dir_page k' slot \<noteq> table_page k' slot"
  proof
    assume eq: "dir_page k' slot = table_page k' slot"
    have "page_at (p_pagedir (processes k' ! slot))" "page_at (table_of (memory k') (p_pagedir (processes k' ! slot)))"
      using F(2) by (simp_all add: wf_dir_def)
    then have "table_of (memory k') (p_pagedir (processes k' ! slot)) = p_pagedir (processes k' ! slot)"
      using page_at_number(2) eq by (metis dir_page_def table_page_def)
    then show False using F(2) by (simp add: wf_dir_def)
  qed
  have own: "mapped_page k' slot n \<noteq> dir_page k' slot \<and> mapped_page k' slot n \<noteq> table_page k' slot"
    if n: "256 \<le> n" "n < 768" "entry k' slot n \<noteq> 0" for n
  proof (cases "private_entry k c n")
    case True
    then show ?thesis using fork_child_entry(3) [OF I c s n(1,2)] by blast
  next
    case False
    then have sh: "shared_entry k' slot n" "used k n" using fork_child_entry(2) [OF I c s n(1,2)] kind [OF n] by blast+
    then show ?thesis using shared_entryD(3) [OF sh(1)] F(3,4) by auto
  qed
  have diff: "mapped_page k' slot n \<noteq> mapped_page k' slot n'"
    if n: "256 \<le> n" "n < 768" "entry k' slot n \<noteq> 0" and n': "256 \<le> n'" "n' < 768" "entry k' slot n' \<noteq> 0"
      and lt: "n < n'" for n n'
  proof -
    have sh: "mapped_page k' slot x = x \<and> used k x" if "256 \<le> x" "x < 768" "shared_entry k c x" for x
      using fork_child_entry(2) [OF I c s that] shared_entryD(3) by blast
    have pr: "\<not> used k (mapped_page k' slot x) \<and> mapped_page k' slot x = copy_page (memory k') (dir_page k' slot) x
        \<and> entry k c x AND 7 = 7" if "256 \<le> x" "x < 768" "private_entry k c x" for x
      using fork_child_entry(3) [OF I c s that] that(3) by (auto elim: private_entryE)
    from kind [OF n] kind [OF n'] show ?thesis
    proof (elim disjE)
      assume "private_entry k c n" "private_entry k c n'"
      then show ?thesis using pr [OF n(1,2)] pr [OF n'(1,2)] F(12) [OF n(1) lt n'(2)] by simp
    next
      assume "private_entry k c n" "shared_entry k c n'"
      then show ?thesis using pr [OF n(1,2)] sh [OF n'(1,2)] by auto
    next
      assume "shared_entry k c n" "private_entry k c n'"
      then show ?thesis using sh [OF n(1,2)] pr [OF n'(1,2)] by auto
    next
      assume "shared_entry k c n" "shared_entry k c n'"
      then show ?thesis using sh [OF n(1,2)] sh [OF n'(1,2)] lt by simp
    qed
  qed
  have "mapped_page k' slot n \<noteq> mapped_page k' slot n'"
    if "256 \<le> n" "n < 768" "entry k' slot n \<noteq> 0" "256 \<le> n'" "n' < 768" "entry k' slot n' \<noteq> 0" "n \<noteq> n'" for n n'
    using diff [OF that(1-6)] diff [OF that(4-6,1-3)] that(7) by (cases "n < n'") auto
  then show ?thesis unfolding distinct_space_pages using dt own by blast
qed


lemma fork_success_from:
  assumes I: "isolated k" and c: "active k c" and slot: "free_slot k = Some slot"
    and s: "fork_success k c slot k'" and ag: "agree (used_area k) (memory k) (memory k')"
  shows "forked_from k c 768 k'" "active k' j \<longleftrightarrow> active k j \<or> j = slot"
    "p_pid (processes k' ! slot) = int slot" "p_state (processes k' ! 0) = P_FREE"
proof -
  note K = isolatedD [OF I] and z = free_slotD [OF slot] and F = fork_successD [OF s]
  have ne: "c \<noteq> slot" using c z(4) by blast
  have lens: "slot < length (processes k)" "c < length (processes k)"
    using z(2) K(2) activeD [OF c] by simp_all
  have proc: "processes k' ! j = (if j = c then with_eax (processes k ! c) (word_of_nat slot) else processes k ! j)"
    if "j \<noteq> slot" for j
    using lens that by (subst F(1)) (simp add: nth_list_update)
  have new: "processes k' ! slot = child_of (processes k ! c) slot P_RUNNABLE (p_pagedir (processes k' ! slot))"
    using lens ne by (subst F(1)) simp
  show "p_pid (processes k' ! slot) = int slot" by (subst new) (simp add: child_of_def)
  have "p_state (processes k' ! slot) = P_RUNNABLE" by (subst new) (simp add: child_of_def)
  then show "active k' j \<longleftrightarrow> active k j \<or> j = slot" for j
    using proc [of j] z(1,2) by (cases "j = slot") (auto simp: active_def with_eax_def)
  show "p_state (processes k' ! 0) = P_FREE" using K(4) proc [of 0] z(1) by (auto simp: with_eax_def)
  have "reg_eax (p_registers (processes k' ! c)) = word_of_nat slot" using proc [OF ne] by (simp add: with_eax_def)
  then have "processes k' ! j = (if j = c then with_eax (processes k ! c)
      (reg_eax (p_registers (processes k' ! c))) else processes k ! j)" if "active k j" for j
  proof -
    have "j \<noteq> slot" using that z(4) by blast
    then show ?thesis using proc [of j] \<open>reg_eax _ = word_of_nat slot\<close> by simp
  qed
  then show "forked_from k c 768 k'" using ag F(11) by (simp add: forked_from_def)
qed

lemma fork_child_isolated:
  assumes I: "isolated k" and c: "active k c" and slot: "free_slot k = Some slot"
    and s: "fork_success k c slot k'" and ag: "agree (used_area k) (memory k) (memory k')"
  shows "space_isolated k' slot"
proof -
  note from_k = fork_success_from [OF I c slot s ag]
  note S' = forked_from_others(1) [OF I c from_k(1) c]
  note D = space_isolatedD [OF isolatedD(6) [OF I c]] and D' = space_isolatedD [OF S'] and F = fork_successD [OF s]
  have same: "entry k' c n = entry k c n" if "n < 256" for n
  proof (rule same_entries(2) [OF isolatedD(6) [OF I c]])
    obtain v where "processes k' ! c = with_eax (processes k ! c) v"
    proof (rule that)
      show "processes k' ! c = with_eax (processes k ! c) (reg_eax (p_registers (processes k' ! c)))"
        by (rule from_k(1) [unfolded forked_from_def, THEN conjunct2, THEN conjunct2, THEN conjunct2, THEN conjunct2,
              rule_format, OF c, unfolded if_P [OF refl]])
    qed
    then show "p_pagedir (processes k' ! c) = p_pagedir (processes k ! c)" by (simp add: with_eax_def)
    show "agree (page (dir_page k c)) (memory k) (memory k')" "agree (page (table_page k c)) (memory k) (memory k')"
      by (rule forked_from_agree [OF I from_k(1) c]; simp add: space_pages_def)+
    show "n < 1024" using that by simp
  qed
  have "PTE_ADDR (entry k' slot n) = page_addr n
      \<and> (entry k' slot n AND PTE_U \<noteq> 0 \<longrightarrow> n = CONSOLE_PAGE \<and> sint (owner (pageinfo k' ! n)) < 0)" if "n < 256" for n
    using D'(5,6) [of n] that by (simp add: F(8) same)
  moreover have "entry k' slot n = 0 \<or> private_entry k' slot n \<or> shared_entry k' slot n"
    if "256 \<le> n" "n < 768" for n
    using D(7) [OF that] fork_child_entry [OF I c s that] by blast
  ultimately show ?thesis
    using from_k(3) F(2,5,6,10) fork_child_distinct [OF I c s] unfolding space_isolated_def by blast
qed

lemma fork_success_isolated:
  assumes I: "isolated k" and c: "active k c" and slot: "free_slot k = Some slot" and n: "counted k"
    and ok: "pages_ok k'" and s: "fork_success k c slot k'" and ag: "agree (used_area k) (memory k) (memory k')"
  shows "isolated k'" "active k j \<Longrightarrow> j \<noteq> c \<Longrightarrow> left_alone k k' j" "kernel_kept k k'"
proof -
  note K = isolatedD [OF I] and z = free_slotD [OF slot] and F = fork_successD [OF s]
  note from_k = fork_success_from [OF I c slot s ag]
  note o = forked_from_others [OF I c from_k(1)] and act = from_k(2)
  show "isolated k'"
  proof (rule isolatedI [OF ok _ from_k(4)])
    show "length (processes k') = NPROC" using K(2) by (subst F(1)) simp
    show "owner_ok k' (pageinfo k' ! x)" if x: "x < NPAGES" for x
    proof (cases "used k x")
      case True
      then show ?thesis using K(5) [OF x] forked_from_pages(1) [OF I c from_k(1) x] by (auto simp: owner_ok_def act)
    next
      case False
      then show ?thesis using F(7) [OF x] z(2) by (auto simp: owner_ok_def used_def owned_def act sint_slot)
    qed
    show "space_isolated k' i" if "active k' i" for i
      using that o(1) fork_child_isolated [OF I c slot s ag] by (auto simp: act)
    show "sharing_ok k' x" if x: "x < NPAGES" for x
    proof (rule forked_from_sharing [OF I c from_k(1) n x z(4)])
      show "shared_entry k c x \<and> 768 = (768 :: nat)" if sh: "shared_entry k' slot x" "256 \<le> x"
      proof -
        have x1: "x < 768" using x by (simp add: NPAGES_def)
        note e = fork_child_entry [OF I c s sh(2) x1]
        consider "entry k c x = 0" | "private_entry k c x" | "shared_entry k c x"
          using space_isolatedD(7) [OF K(6) [OF c] sh(2) x1] by blast
        then show ?thesis
          by cases (use e shared_entryD(4) [OF sh(1)] sh(1) in \<open>auto elim: private_entryE\<close>)
      qed
    qed (use act in auto)
  qed
  show "active k j \<Longrightarrow> j \<noteq> c \<Longrightarrow> left_alone k k' j" by (rule o(3))
  show "kernel_kept k k'" by (rule forked_from_kept [OF I c from_k(1)])
qed

lemma sys_fork_isolated:
  assumes I: "isolated k" and c: "active k c" and n: "counted k" and run: "sys_fork c k = Some k'"
  shows "isolated k'" "active k j \<Longrightarrow> j \<noteq> c \<Longrightarrow> left_alone k k' j" "kernel_kept k k'"
proof -
  have "isolated k' \<and> (active k j \<longrightarrow> j \<noteq> c \<longrightarrow> left_alone k k' j) \<and> kernel_kept k k'" for j
  proof (cases "free_slot k")
    case None
    then have "k' = set_eax c (- 1) k" using run by (simp add: sys_fork_def)
    then show ?thesis using set_eax_isolated [OF I] by simp
  next
    case (Some slot)
    note ready = isolated_fork_ready [OF I c Some]
    have "fork_outcome k c slot (sys_fork c k)"
      using fork_no_page [OF ready] fork_one_page [OF ready] fork_two_pages [OF ready]
      by (metis option.exhaust)
    then have out: "pages_ok k'" "fork_success k c slot k' \<or> fork_failure k c slot k'"
      "agree (used_area k) (memory k) (memory k')"
      using run by (auto simp: fork_outcome_def)
    from out(2) show ?thesis
      using fork_success_isolated [OF I c Some n out(1) _ out(3)]
        fork_failure_isolated [OF I c Some n out(1) _ out(3)] by blast
  qed
  then show "isolated k'" "active k j \<Longrightarrow> j \<noteq> c \<Longrightarrow> left_alone k k' j" "kernel_kept k k'" by blast+
qed

end
