(* ===== verification/IsolationExit.thy ===== *)
theory IsolationExit
  imports IsolationFork
begin

text \<open>
  \<open>exit\<close> keeps the address spaces apart: a page that others still share goes to one of them
  and keeps a reference for each.
\<close>

section \<open>What m_free does to a page\<close>

definition released :: "proc list \<Rightarrow> mem \<Rightarrow> nat \<Rightarrow> pageinfo_t \<Rightarrow> pageinfo_t \<Rightarrow> bool" where
  "released ps m x old q \<longleftrightarrow> refcount q = refcount old - 1 \<and> 0 \<le> sint (refcount q) \<and>
     (if sint (refcount q) = 0 then owner q = 0
      else owner q = owner old \<or> (\<exists>j \<in> {1..<NPROC}. p_state (ps ! j) = P_RUNNABLE
        \<and> references m (p_pagedir (ps ! j)) (page_addr x) [0..<NPAGES] = Some True
        \<and> owner q = word_of_nat j))"

lemma first_sharerD:
  "first_sharer m ps a is = Some (Some j) \<Longrightarrow> j \<in> set is \<and> p_state (ps ! j) = P_RUNNABLE
     \<and> references m (p_pagedir (ps ! j)) a [0..<NPAGES] = Some True"
  by (induction "is") (auto simp: Option.bind_eq_Some_conv split: if_splits)

lemma m_free_released:
  assumes "m_free (page_addr i) k = Some k'" "i < NPAGES" "length (pageinfo k) = NPAGES"
  shows "released (processes k) (memory k) i (pageinfo k ! i) (pageinfo k' ! i)"
proof -
  let ?p = "pageinfo k ! i"
  have u: "pageinfo (unref i k) ! i = ?p\<lparr>refcount := refcount ?p - 1\<rparr>" "memory (unref i k) = memory k"
    "processes (unref i k) = processes k" "length (pageinfo (unref i k)) = NPAGES"
    using assms(2,3) by (simp_all add: update_page_def)
  let ?r = "sint (refcount ?p - 1)"
  have at: "pageinfo (update_page i f (unref i k)) ! i = f (?p\<lparr>refcount := refcount ?p - 1\<rparr>)" for f
    using assms(2,3) by (simp add: update_page_def)
  note eq = assms(1) [unfolded m_free_eq [OF assms(2)] u]
  show ?thesis
  proof (cases "?r = 0")
    case True
    then have "k' = update_page i (\<lambda>p. p\<lparr>owner := word_of_int PO_FREE\<rparr>) (unref i k)" using eq by simp
    then show ?thesis using True by (simp add: released_def at PO_FREE_def)
  next
    case False
    have pos: "0 \<le> ?r" using eq by (auto split: if_splits)
    then obtain s where s: "first_sharer (memory k) (processes k) (page_addr i) [1..<NPROC] = Some s"
      "k' = (case s of Some j \<Rightarrow> update_page i (\<lambda>p. p\<lparr>owner := word_of_nat j\<rparr>) (unref i k) | None \<Rightarrow> unref i k)"
      using eq False by (auto simp: Option.bind_eq_Some_conv split: option.splits)
    show ?thesis
    proof (cases s)
      case None
      then show ?thesis using s(2) False pos by (simp add: released_def u)
    next
      case (Some j)
      note j = first_sharerD [OF s(1) [unfolded Some]]
      then have "j \<in> {1..<NPROC}" by simp
      then show ?thesis using s(2) Some False pos j by (auto simp: released_def at)
    qed
  qed
qed

lemma release_pages_released:
  assumes "release_pages pid is k = Some k'" "distinct is" "set is \<subseteq> {..<NPAGES}" "length (pageinfo k) = NPAGES"
  shows "\<exists>ps. k' = k\<lparr>pageinfo := ps\<rparr> \<and> length ps = NPAGES \<and> (\<forall>x < NPAGES.
    if x \<in> set is \<and> sint (owner (pageinfo k ! x)) = pid
    then released (processes k) (memory k) x (pageinfo k ! x) (ps ! x) else ps ! x = pageinfo k ! x)"
  using assms
proof (induction "is" arbitrary: k)
  case Nil
  then show ?case by (intro exI [of _ "pageinfo k"]) simp
next
  case (Cons i "is")
  have i: "i < NPAGES" "i \<notin> set is" using Cons.prems by simp_all
  show ?case
  proof (cases "sint (owner (pageinfo k ! i)) = pid")
    case False
    then have "release_pages pid is k = Some k'" using Cons.prems(1) by simp
    then obtain ps where ps: "k' = k\<lparr>pageinfo := ps\<rparr>" "length ps = NPAGES"
      and at: "\<And>x. x < NPAGES \<Longrightarrow> if x \<in> set is \<and> sint (owner (pageinfo k ! x)) = pid
        then released (processes k) (memory k) x (pageinfo k ! x) (ps ! x) else ps ! x = pageinfo k ! x"
      using Cons.IH [OF _ _ _ Cons.prems(4)] Cons.prems(2,3) by auto
    have "if x \<in> set (i # is) \<and> sint (owner (pageinfo k ! x)) = pid
        then released (processes k) (memory k) x (pageinfo k ! x) (ps ! x) else ps ! x = pageinfo k ! x"
      if "x < NPAGES" for x
      using at [OF that] False by (cases "x = i") (auto split: if_splits)
    then show ?thesis using ps by blast
  next
    case True
    then obtain k1 where k1: "m_free (page_addr i) k = Some k1" "release_pages pid is k1 = Some k'"
      using Cons.prems(1) by (auto simp: Option.bind_eq_Some_conv)
    obtain q where q: "k1 = k\<lparr>pageinfo := (pageinfo k)[i := q]\<rparr>" using m_free_result [OF k1(1) i(1)] by blast
    have rel: "released (processes k) (memory k) i (pageinfo k ! i) q"
      using m_free_released [OF k1(1) i(1) Cons.prems(4)] i(1) Cons.prems(4) q by simp
    have "length (pageinfo k1) = NPAGES" using Cons.prems(4) q by simp
    from Cons.IH [OF k1(2) _ _ this] obtain ps where ps: "k' = k1\<lparr>pageinfo := ps\<rparr>" "length ps = NPAGES"
      and at: "\<And>x. x < NPAGES \<Longrightarrow> if x \<in> set is \<and> sint (owner (pageinfo k1 ! x)) = pid
        then released (processes k1) (memory k1) x (pageinfo k1 ! x) (ps ! x) else ps ! x = pageinfo k1 ! x"
      using Cons.prems(2,3) by auto
    have "if x \<in> set (i # is) \<and> sint (owner (pageinfo k ! x)) = pid
        then released (processes k) (memory k) x (pageinfo k ! x) (ps ! x) else ps ! x = pageinfo k ! x"
      if x: "x < NPAGES" for x
      using at [OF x] rel True i Cons.prems(4) by (cases "x = i") (auto simp: q split: if_splits)
    then show ?thesis using ps q by (intro exI [of _ ps]) simp
  qed
qed

lemma exit_pages:
  assumes "m_releaseMemoryforProcess p k = Some k'" "p < length (processes k)" "length (pageinfo k) = NPAGES"
  defines "ps0 \<equiv> (processes k)[p := (processes k ! p)\<lparr>p_state := P_BLOCKED\<rparr>]"
  shows "processes k' = (processes k)[p := (processes k ! p)\<lparr>p_state := P_FREE\<rparr>]" "memory k' = memory k"
    "length (pageinfo k') = NPAGES"
    "\<And>x. x < NPAGES \<Longrightarrow> sint (owner (pageinfo k ! x)) \<noteq> p_pid (processes k ! p) \<Longrightarrow> pageinfo k' ! x = pageinfo k ! x"
    "\<And>x. x < NPAGES \<Longrightarrow> sint (owner (pageinfo k ! x)) = p_pid (processes k ! p) \<Longrightarrow>
      released ps0 (memory k) x (pageinfo k ! x) (pageinfo k' ! x)"
    "\<And>x. x < NPAGES \<Longrightarrow> sint (owner (pageinfo k' ! x)) \<noteq> p_pid (processes k ! p)"
proof -
  let ?b = "update_proc p (\<lambda>q. q\<lparr>p_state := P_BLOCKED\<rparr>) k" and ?pid = "p_pid (processes k ! p)"
  have b: "pageinfo ?b = pageinfo k" "p_pid (processes ?b ! p) = ?pid" "processes ?b = ps0" "memory ?b = memory k"
    "p_pid (ps0 ! p) = ?pid"
    using assms(2) by (simp_all add: update_proc_def ps0_def)
  obtain k2 where k2: "release_pages ?pid [0..<NPAGES] ?b = Some k2"
    "list_all (\<lambda>i. sint (owner (pageinfo k2 ! i)) \<noteq> ?pid) [0..<NPAGES]"
    "k' = update_proc p (\<lambda>q. q\<lparr>p_state := P_FREE\<rparr>) k2"
    using assms(1) by (auto simp: m_releaseMemoryforProcess_def Let_def b assertion_def Option.bind_eq_Some_conv
        split: if_splits)
  obtain ps where ps: "k2 = ?b\<lparr>pageinfo := ps\<rparr>" "length ps = NPAGES"
    and at: "\<And>x. x < NPAGES \<Longrightarrow> if x \<in> set [0..<NPAGES] \<and> sint (owner (pageinfo ?b ! x)) = ?pid
    then released (processes ?b) (memory ?b) x (pageinfo ?b ! x) (ps ! x) else ps ! x = pageinfo ?b ! x"
    using release_pages_released [OF k2(1)] assms(3) by (auto simp: b atLeast0LessThan)
  have pi: "pageinfo k' = ps" by (simp add: k2(3) ps(1) update_proc_def)
  show "processes k' = (processes k)[p := (processes k ! p)\<lparr>p_state := P_FREE\<rparr>]" "memory k' = memory k"
    using assms(2) by (simp_all add: k2(3) ps(1) update_proc_def)
  show "length (pageinfo k') = NPAGES" by (simp only: pi ps(2))
  show "sint (owner (pageinfo k ! x)) \<noteq> ?pid \<Longrightarrow> pageinfo k' ! x = pageinfo k ! x"
    "sint (owner (pageinfo k ! x)) = ?pid \<Longrightarrow> released ps0 (memory k) x (pageinfo k ! x) (pageinfo k' ! x)"
    "sint (owner (pageinfo k' ! x)) \<noteq> ?pid" if "x < NPAGES" for x
    using at [OF that] that k2(2) by (simp_all add: pi b ps(1) list_all_iff)
qed


section \<open>The new owner shares the page\<close>

lemma referencesD:
  "references m pd a js = Some True \<Longrightarrow> \<exists>j \<in> set js. \<exists>e. virtual_memory_lookup m pd (page_addr j) = Some e \<and> PTE_ADDR e = a"
  by (induction js) (auto simp: Option.bind_eq_Some_conv split: if_splits)

lemma references_sharer:
  assumes I: "isolated k" and j: "active k j" and r: "references (memory k) (p_pagedir (processes k ! j)) (page_addr x) [0..<NPAGES] = Some True"
    and x: "256 \<le> x" "x < NPAGES" and no: "\<not> owned k j x"
  shows "shared_entry k j x"
proof -
  note D = space_isolatedD [OF isolatedD(6) [OF I j]]
  obtain n e where n: "n < NPAGES" "virtual_memory_lookup (memory k) (p_pagedir (processes k ! j)) (page_addr n) = Some e"
    "PTE_ADDR e = page_addr x" using referencesD [OF r] by auto
  have n1: "n < 1024" "n < 768" using n(1) by (simp_all add: NPAGES_def)
  have nz: "PTE_ADDR (0 :: u32) \<noteq> page_addr x"
  proof
    assume "PTE_ADDR 0 = page_addr x"
    then have "page_addr 0 = page_addr x" by (simp add: PTE_ADDR_def)
    then show False using page_addr_eq [of 0 x] x by (simp add: NPAGES_def)
  qed
  have "e = (if entry k j n AND PTE_P \<noteq> 0 then entry k j n else 0)"
    using n(2) lookup_page [OF D(2) n1(1)] by (auto simp: entry_def)
  then have e: "PTE_ADDR (entry k j n) = page_addr x" using n(3) nz by (auto split: if_splits)
  have "256 \<le> n"
  proof (rule ccontr)
    assume "\<not> 256 \<le> n"
    then have lt: "n < 256" by simp
    then have "page_addr n = page_addr x" using D(5) [OF lt] e by simp
    then show False using page_addr_eq [OF n(1) x(2)] lt x(1) by simp
  qed
  then consider "entry k j n = 0" | "private_entry k j n" | "shared_entry k j n" using D(7) n1(2) by blast
  then show ?thesis
  proof cases
    case 1
    then show ?thesis using e nz by simp
  next
    case 2
    then obtain y where y: "y < NPAGES" "entry k j n = page_addr y OR 7" "owned k j y" by (elim private_entryE)
    have "page_addr y = page_addr x" using e by (simp only: y(2) entry_parts(1) [OF y(1)])
    then show ?thesis using page_addr_eq [OF y(1) x(2)] y(3) no by simp
  next
    case 3
    note sh = shared_entryD [OF 3]
    have "page_addr n = page_addr x" using e by (simp only: sh(2) entry_parts(2) [OF sh(1)])
    then show ?thesis using page_addr_eq [OF n(1) x(2)] 3 by simp
  qed
qed

section \<open>The kernel after exit\<close>

lemma sint_pred: "0 \<le> sint (w - 1 :: u8) \<Longrightarrow> 0 < sint w \<Longrightarrow> sint (w - 1) = sint w - 1"
proof -
  assume "0 < sint w"
  moreover have "sint w < 128" using sint_lt [of w] by simp
  ultimately have "signed_take_bit 7 (sint w - 1) = sint w - 1"
    by (simp add: signed_take_bit_int_eq_self_iff)
  moreover have "sint (w - 1) = signed_take_bit 7 (sint w - sint (1 :: u8))"
    by (simp only: sint_word_ariths(2)) simp
  ultimately show ?thesis by simp
qed

lemma exit_sharing:
  assumes I: "isolated k" and p: "active k p" and run: "m_releaseMemoryforProcess p k = Some k'"
    and x: "x < NPAGES" and act: "\<And>i. active k' i \<longleftrightarrow> active k i \<and> i \<noteq> p"
    and sh: "\<And>i. active k' i \<Longrightarrow> shared_entry k' i x = shared_entry k i x"
  shows "sharing_ok k' x"
proof -
  note K = isolatedD [OF I] and D = space_isolatedD [OF isolatedD(6) [OF I p]]
  have pl: "p < length (processes k)" using K(2) activeD [OF p] by simp
  note ex = exit_pages [OF run pl K(3)]
  have shs: "sharers k' x = sharers k x - {p}" using sh by (auto simp: sharers_def act)
  show ?thesis
  proof (cases "sharers k' x = {}")
    case False
    then obtain i where i: "i \<in> sharers k x" "i \<noteq> p" by (auto simp: shs)
    then obtain j where j: "active k j" "owner (pageinfo k ! x) = word_of_nat j"
      "int (card (insert j (sharers k x))) \<le> sint (refcount (pageinfo k ! x))"
      using K(7) [OF x] by (auto simp: sharing_ok_def)
    have x256: "256 \<le> x" using i(1) by (simp add: sharers_def)
    have so: "sint (owner (pageinfo k ! x)) = int j" using j(2) sint_slot [of j] activeD [OF j(1)] by simp
    show ?thesis
    proof (cases "j = p")
      case other: False
      then have "pageinfo k' ! x = pageinfo k ! x" using ex(4) [OF x] so D(1) by simp
      moreover have "card (insert j (sharers k' x)) \<le> card (insert j (sharers k x))"
        by (intro card_mono) (auto simp: shs)
      ultimately have "int (card (insert j (sharers k' x))) \<le> sint (refcount (pageinfo k' ! x))" using j(3) by simp
      then show ?thesis using j(1,2) other \<open>pageinfo k' ! x = _\<close> act unfolding sharing_ok_def by metis
    next
      case mine: True
      let ?q = "pageinfo k' ! x"
      have rel: "released ((processes k)[p := (processes k ! p)\<lparr>p_state := P_BLOCKED\<rparr>]) (memory k) x (pageinfo k ! x) ?q"
        using ex(5) [OF x] so D(1) mine by simp
      have "card {i, p} \<le> card (insert p (sharers k x))" using i by (intro card_mono) auto
      then have two: "2 \<le> card (insert p (sharers k x))" using i(2) by simp
      then have ref: "sint (refcount ?q) = sint (refcount (pageinfo k ! x)) - 1"
        using rel j(3) mine by (auto simp: released_def intro: sint_pred)
      then have pos: "sint (refcount ?q) \<noteq> 0" using j(3) two mine by simp
      have "owner ?q \<noteq> owner (pageinfo k ! x)" using ex(6) [OF x] so D(1) mine by auto
      then obtain l where l: "l \<in> {1..<NPROC}" "l \<noteq> p" "p_state (processes k ! l) = P_RUNNABLE"
        "references (memory k) (p_pagedir (processes k ! l)) (page_addr x) [0..<NPAGES] = Some True"
        "owner ?q = word_of_nat l"
        using rel pos pl unfolding released_def by (auto simp: nth_list_update split: if_splits)
      have la: "active k l" using l(1,3) by (simp add: active_def)
      have "\<not> owned k l x" using shared_not_owned [OF K(7) [OF x] i(1) la] j(2) mine l(2) owner_slot_eq [of p l]
          activeD [OF p] activeD [OF la] by (auto simp: owned_def)
      from references_sharer [OF I la l(4) x256 x this] have "l \<in> sharers k x"
        using la x256 by (simp add: sharers_def)
      then have "l \<in> sharers k' x" using l(2) by (simp add: shs)
      then have "insert l (sharers k' x) = sharers k x - {p}" by (auto simp: shs)
      moreover have "card (insert p (sharers k x)) = Suc (card (sharers k x - {p}))"
        by (simp add: card.insert_remove)
      ultimately have "int (card (insert l (sharers k' x))) \<le> sint (refcount ?q)" using j(3) mine ref by simp
      then show ?thesis using l(2,5) la act unfolding sharing_ok_def by metis
    qed
  qed (simp add: sharing_ok_def)
qed

lemma exit_isolated:
  assumes I: "isolated k" and p: "active k p" and run: "m_releaseMemoryforProcess p k = Some k'"
  shows "isolated k'" "j \<noteq> p \<Longrightarrow> left_alone k k' j" "kernel_kept k k'"
proof -
  note K = isolatedD [OF I] and D = space_isolatedD [OF isolatedD(6) [OF I p]]
  have pl: "p < length (processes k)" using K(2) activeD [OF p] by simp
  note ex = exit_pages [OF run pl K(3)]
  have proc: "processes k' ! i = (if i = p then (processes k ! p)\<lparr>p_state := P_FREE\<rparr> else processes k ! i)" for i
    using pl by (simp add: ex(1) nth_list_update)
  have act: "active k' i \<longleftrightarrow> active k i \<and> i \<noteq> p" for i by (simp add: active_def proc)
  show "j \<noteq> p \<Longrightarrow> left_alone k k' j" by (simp add: left_alone_def proc ex(2))
  have same: "pageinfo k' ! x = pageinfo k ! x" if "x < NPAGES" "sint (owner (pageinfo k ! x)) \<noteq> int p" for x
    using ex(4) that D(1) by simp
  show kept: "kernel_kept k k'" using same by (simp add: kernel_kept_def)
  have other: "space_isolated k' i" "x < 1024 \<Longrightarrow> shared_entry k' i x = shared_entry k i x"
    if i: "active k' i" for i x
  proof -
    have ik: "active k i" "i \<noteq> p" using i by (simp_all add: act)
    have own: "owned k' i y" if "y < NPAGES" "owned k i y" for y
      using same [OF that(1)] that(2) ik(2) activeD [OF ik(1)] by (simp add: owned_def sint_slot)
    show "space_isolated k' i" "x < 1024 \<Longrightarrow> shared_entry k' i x = shared_entry k i x"
      by (rule space_isolated_frame [OF K(6) [OF ik(1)]]; use ik(2) own kernel_kept_low [OF kept] in \<open>simp add: proc ex(2)\<close>)+
  qed
  show "isolated k'"
  proof (rule isolatedI)
    have "owner (pageinfo k' ! x) = 0 \<longrightarrow> refcount (pageinfo k' ! x) = 0" if x: "x < NPAGES" for x
    proof (cases "sint (owner (pageinfo k ! x)) = int p")
      case True
      have "word_of_nat l \<noteq> (0 :: u8)" if "l \<in> {1..<NPROC}" for l using sint_slot [of l] that by auto
      then show ?thesis using ex(5) [OF x] True D(1) activeD [OF p] by (auto simp: released_def split: if_splits)
    next
      case False
      have "pageinfo k' ! x = pageinfo k ! x" by (rule same [OF x False])
      then show ?thesis using K(1,3) x by (simp add: pages_ok_def list_all_length)
    qed
    then show "pages_ok k'" using ex(3) by (simp add: pages_ok_def list_all_length)
    show "length (processes k') = NPROC" using K(2) by (simp add: ex(1))
    show "p_state (processes k' ! 0) = P_FREE" using K(4) by (simp add: proc)
    show "owner_ok k' (pageinfo k' ! x)" if x: "x < NPAGES" for x
    proof (cases "sint (owner (pageinfo k ! x)) = int p")
      case True
      have "active k' l" if "l \<in> {1..<NPROC}" "p_state ((processes k)[p := (processes k ! p)\<lparr>p_state := P_BLOCKED\<rparr>] ! l) = P_RUNNABLE" for l
      proof -
        have "active k l \<and> l \<noteq> p" using that pl by (cases "l = p") (auto simp: active_def)
        then show ?thesis by (simp add: act)
      qed
      then show ?thesis
        using ex(5,6) [OF x] True D(1) by (auto simp: released_def owner_ok_def sint_slot split: if_splits)
    next
      case False
      then show ?thesis using K(5) [OF x] by (auto simp: owner_ok_def same [OF x] act)
    qed
    show "space_isolated k' i" if "active k' i" for i by (rule other(1) [OF that])
    show "sharing_ok k' x" if x: "x < NPAGES" for x
      by (rule exit_sharing [OF I p run x act other(2)]) (use x in \<open>simp_all add: NPAGES_def\<close>)
  qed
qed

end
