(* ===== verification/KernelSteps.thy ===== *)
theory KernelSteps
  imports IsolationExit
begin

text \<open>
  Whole interrupts of the WeensyOS kernel, and what happens between them: a process writes its
  own writable pages, an interrupt enters the kernel, shows the memory, handles the call and
  runs a process again. In every state the address spaces are apart, and a process keeps its
  registers, its page table and its memory while others run.
\<close>

section \<open>Entering the kernel\<close>

definition buffer_ok :: "linked \<Rightarrow> 'd kernel \<Rightarrow> bool" where
  "buffer_ok L k \<longleftrightarrow> (let b = page_number (name_buffer L) in
     b < NPAGES \<and> unat (name_buffer L) + 4 \<le> 4096 * (b + 1) \<and> sint (owner (pageinfo k ! b)) < 0)"

lemma buffer_ok_kept: "buffer_ok L k \<Longrightarrow> kernel_kept k k' \<Longrightarrow> buffer_ok L k'"
  by (simp add: buffer_ok_def Let_def kernel_kept_def)

lemma put_string_agree:
  "unat a + length cs \<le> 2 ^ 32 \<Longrightarrow> region a (length cs) \<inter> S = {} \<Longrightarrow> agree S m (put_string a cs m)"
proof (induction cs arbitrary: a m)
  case Nil
  then show ?case by simp
next
  case (Cons c cs)
  show ?case
  proof (cases cs)
    case Nil
    then show ?thesis using Cons.prems by (auto simp: agree_def region_def)
  next
    case (Cons d ds)
    then have "unat (a + 1) = unat a + 1" using Cons.prems(1) by (simp add: unat_add_small)
    then have r1: "unat (a + 1) + length cs \<le> 2 ^ 32" "region (a + 1) (length cs) \<subseteq> region a (length (c # cs))"
      using Cons.prems(1) by (auto simp: region_def)
    then have r: "unat (a + 1) + length cs \<le> 2 ^ 32" "region (a + 1) (length cs) \<inter> S = {}"
      using Cons.prems(2) by blast+
    have "unat a \<in> region a (length (c # cs))" by (simp add: region_def)
    then have "unat a \<notin> S" using Cons.prems(2) by blast
    then have "agree S m (m(a := of_char c))" by (auto simp: agree_def)
    with Cons.IH [OF r] show ?thesis by (auto intro: agree_trans)
  qed
qed

lemma vsnprintf_length:
  assumes "vsnprintf m n fmt args = Some (buf, r)" "0 < n"
  shows "length buf \<le> n"
proof (cases "vformat m 0 fmt args")
  case None
  then show ?thesis using assms by (simp add: vsnprintf_def printer_vprintf_feed)
next
  case (Some out)
  then show ?thesis using assms vsnprintf_result [OF Some assms(2)] by auto
qed

text \<open>The pages of a process belong to processes, never to the kernel.\<close>

lemma space_pages_owner:
  assumes I: "isolated k" and i: "active k i" and x: "x \<in> set (space_pages k i)"
  shows "0 < sint (owner (pageinfo k ! x))"
proof -
  have pos: "0 < sint (word_of_nat j :: u8)" if "active k j" for j
    using sint_slot [of j] activeD [OF that] by simp
  note c = space_pages_cases [OF isolatedD(6) [OF I i] x]
  from c(2) show ?thesis
  proof (elim disjE conjE)
    assume "owned k i x"
    then show ?thesis using pos [OF i] by (simp add: owned_def)
  next
    assume "256 \<le> x" "shared_entry k i x"
    then have "i \<in> sharers k x" using i by (simp add: sharers_def)
    then show ?thesis using isolatedD(7) [OF I c(1)] pos by (auto simp: sharing_ok_def)
  qed
qed

lemma kernel_page_apart:
  assumes "isolated k" "active k i" "x \<in> set (space_pages k i)" "y < NPAGES" "sint (owner (pageinfo k ! y)) < 0"
  shows "page y \<inter> page x = {}"
proof (rule page_disjoint [OF assms(4)])
  show "x < NPAGES" by (rule space_pages_cases(1) [OF isolatedD(6) [OF assms(1,2)] assms(3)])
  show "y \<noteq> x" using space_pages_owner [OF assms(1-3)] assms(5) by auto
qed

lemma buffer_agree:
  assumes I: "isolated k" and b: "buffer_ok L k" and i: "active k i" "x \<in> set (space_pages k i)" and l: "length cs \<le> 4"
  shows "agree (page x) m (put_string (name_buffer L) cs m)"
proof (rule put_string_agree)
  let ?b = "page_number (name_buffer L)"
  have bd: "?b < NPAGES" "unat (name_buffer L) + 4 \<le> 4096 * (?b + 1)" "sint (owner (pageinfo k ! ?b)) < 0"
    using b by (simp_all add: buffer_ok_def Let_def)
  have lo: "4096 * ?b \<le> unat (name_buffer L)"
    by (simp add: page_number_def PAGENUMBER_def unat_drop_bit)
  have "region (name_buffer L) (length cs) \<subseteq> page ?b"
    using bd lo l unat_page_addr [of ?b] by (auto simp: region_def NPAGES_def)
  then show "region (name_buffer L) (length cs) \<inter> page x = {}"
    using kernel_page_apart [OF I i bd(1,3)] by blast
  show "unat (name_buffer L) + length cs \<le> 2 ^ 32" using bd(1,2) l by (simp add: NPAGES_def)
qed

lemma memshow_result:
  "memshow_physical k = Some k1 \<Longrightarrow> \<exists>cs. k1 = k\<lparr>cells := cs\<rparr>"
  "memshow_virtual pd name k = Some k1 \<Longrightarrow> \<exists>cs. k1 = k\<lparr>cells := cs\<rparr>"
  by (auto simp: memshow_physical_def memshow_virtual_def Option.bind_eq_Some_conv)

lemma animate_result:
  assumes "memshow_virtual_animate L k = Some k1"
  shows "processes k1 = processes k \<and> pageinfo k1 = pageinfo k \<and> current k1 = current k \<and>
    (\<exists>cs. length cs \<le> 4 \<and> memory k1 = put_string (name_buffer L) cs (memory k))"
proof -
  define k2 where "k2 = (if last_ticks k = 0 \<or> ticks k - last_ticks k \<ge> word_of_int (HZ div 4)
              then k\<lparr>last_ticks := ticks k, showing := showing k + 1\<rparr> else k)"
  define s where "s = skip_free (processes k2) (showing k2) mod NPROC"
  have k2: "processes k2 = processes k" "pageinfo k2 = pageinfo k" "current k2 = current k" "memory k2 = memory k"
    by (simp_all add: k2_def)
  note run = assms [unfolded memshow_virtual_animate_def Let_def, folded k2_def, folded s_def]
  show ?thesis
  proof (cases "p_state (processes (k2\<lparr>showing := s\<rparr>) ! s) \<noteq> P_FREE")
    case True
    then obtain buf r where b: "vsnprintf (memory k) 4 ''%d '' [word_of_nat s] = Some (buf, r)"
      and v: "\<exists>pd. memshow_virtual pd (name_buffer L)
        (k2\<lparr>showing := s, memory := put_string (name_buffer L) buf (memory k)\<rparr>) = Some k1"
      using run by (auto simp: Option.bind_eq_Some_conv k2)
    have "length buf \<le> 4" using vsnprintf_length [OF b] by simp
    then show ?thesis using v by (auto dest!: memshow_result(2) simp: k2)
  next
    case False
    then have "k1 = k2\<lparr>showing := s\<rparr>" using run by simp
    then show ?thesis by (intro conjI exI [of _ "[]"]) (simp_all add: k2)
  qed
qed

lemma entry_result:
  assumes "interrupt_entry L D c reg k = Some k1"
  shows "processes k1 = (processes k)[c := (processes k ! c)\<lparr>p_registers := reg\<rparr>] \<and> pageinfo k1 = pageinfo k
    \<and> current k1 = current k \<and> (\<exists>cs. length cs \<le> 4 \<and> memory k1 = put_string (name_buffer L) cs (memory k))"
proof -
  define k0 where "k0 = (update_proc c (\<lambda>q. q\<lparr>p_registers := reg\<rparr>) k)
    \<lparr>control := (kernel_pagedir L, snd (control k)), devices := console_show_cursor D (cursorpos k) (devices k)\<rparr>"
  have "\<exists>k2. memshow_physical k0 = Some k2 \<and> memshow_virtual_animate L k2 = Some k1"
    using assms by (auto simp: interrupt_entry_def Let_def Option.bind_eq_Some_conv update_proc_def k0_def)
  then obtain cs where run: "memshow_virtual_animate L (k0\<lparr>cells := cs\<rparr>) = Some k1"
    by (auto dest!: memshow_result(1))
  have k2: "processes (k0\<lparr>cells := cs\<rparr>) = (processes k)[c := (processes k ! c)\<lparr>p_registers := reg\<rparr>]"
      "pageinfo (k0\<lparr>cells := cs\<rparr>) = pageinfo k" "current (k0\<lparr>cells := cs\<rparr>) = current k"
      "memory (k0\<lparr>cells := cs\<rparr>) = memory k"
    by (simp_all add: k0_def update_proc_def)
  show ?thesis using animate_result [OF run] unfolding k2 .
qed

lemma entry_isolated:
  assumes I: "isolated k" and b: "buffer_ok L k" and run: "interrupt_entry L D c reg k = Some k1"
  shows "isolated k1" "active k j \<Longrightarrow> j \<noteq> c \<Longrightarrow> left_alone k k1 j" "kernel_kept k k1"
    "active k1 j = active k j" "c < NPROC \<Longrightarrow> p_registers (processes k1 ! c) = reg"
    "p_state (processes k1 ! j) = p_state (processes k ! j)"
proof -
  obtain cs where r: "processes k1 = (processes k)[c := (processes k ! c)\<lparr>p_registers := reg\<rparr>]"
      "pageinfo k1 = pageinfo k" "length cs \<le> 4" "memory k1 = put_string (name_buffer L) cs (memory k)"
    using entry_result [OF run] by blast
  have p: "p_pid (processes k1 ! i) = p_pid (processes k ! i)" "p_pagedir (processes k1 ! i) = p_pagedir (processes k ! i)"
    "p_state (processes k1 ! i) = p_state (processes k ! i)" for i
    by (cases "c < length (processes k)"; cases "i = c"; simp add: r list_update_beyond)+
  have ag: "agree (page x) (memory k) (memory k1)" if "active k i" "x \<in> set (space_pages k i)" for i x
    unfolding r(4) by (rule buffer_agree [OF I b that r(3)])
  show "isolated k1"
    by (rule isolated_same [OF I r(2)]) (simp_all add: r(1) p [unfolded r(1)] ag space_pages_def)
  show "active k j \<Longrightarrow> j \<noteq> c \<Longrightarrow> left_alone k k1 j" using ag by (simp add: left_alone_def r(1))
  show "kernel_kept k k1" by (rule kernel_kept_refl [OF r(2)])
  show "active k1 j = active k j" "p_state (processes k1 ! j) = p_state (processes k ! j)"
    by (simp_all add: active_def p)
  show "c < NPROC \<Longrightarrow> p_registers (processes k1 ! c) = reg" using isolatedD(2) [OF I] by (simp add: r(1))
qed


section \<open>Handling the interrupt\<close>

text \<open>
  What a process may ask for: a page at an address of its own half of the address space, and a
  fork while no page has 127 references, the most the counter can hold.
\<close>

definition call_ok :: "registers \<Rightarrow> 'd kernel \<Rightarrow> bool" where
  "call_ok reg k \<longleftrightarrow>
     (unat (reg_intno reg) = INT_SYS_PAGE_ALLOC \<longrightarrow> (\<exists>n. 256 \<le> n \<and> n < 768 \<and> reg_eax reg = page_addr n)) \<and>
     (unat (reg_intno reg) = INT_SYS_FORK \<longrightarrow> counted k)"

definition kept :: "nat \<Rightarrow> 'd kernel \<Rightarrow> 'd kernel \<Rightarrow> bool" where
  "kept c k k' \<longleftrightarrow> isolated k' \<and> (\<forall>j. active k j \<and> j \<noteq> c \<longrightarrow> left_alone k k' j) \<and> kernel_kept k k'"

lemma kept_same:
  assumes "isolated k" "memory k' = memory k" "pageinfo k' = pageinfo k" "processes k' = processes k"
  shows "kept c k k'"
proof -
  have "isolated k'" by (rule isolated_same [OF assms(1,3)]) (simp_all add: assms)
  then show ?thesis using kernel_kept_refl [OF assms(3)] by (simp add: kept_def left_alone_def assms)
qed

lemma broken_isolated:
  assumes I: "isolated k" and c: "active k c"
  shows "kept c k (update_proc c (\<lambda>q. q\<lparr>p_state := P_BROKEN\<rparr>) (k\<lparr>cells := cs\<rparr>))" (is "kept c k ?k")
proof -
  have cl: "c < length (processes k)" using isolatedD(2) [OF I] activeD [OF c] by simp
  have p: "processes ?k ! i = (if i = c then (processes k ! c)\<lparr>p_state := P_BROKEN\<rparr> else processes k ! i)" for i
    using cl by (simp add: update_proc_def nth_list_update)
  have "isolated ?k"
  proof (rule isolated_same [OF I])
    show "p_state (processes ?k ! i) = P_FREE \<longleftrightarrow> p_state (processes k ! i) = P_FREE" for i
      using c by (simp add: p active_def)
  qed (simp_all add: p, simp_all add: update_proc_def)
  moreover have "kernel_kept k ?k" by (rule kernel_kept_refl) (simp add: update_proc_def)
  moreover have "left_alone k ?k j" if "j \<noteq> c" for j
    using that by (simp add: left_alone_def p) (simp add: update_proc_def)
  ultimately show ?thesis by (simp add: kept_def)
qed

lemma handle_interrupt_cases:
  assumes "handle_interrupt c fa reg k = Some (e, k')" "unat (reg_intno reg) \<noteq> INT_SYS_EXIT"
  shows "(unat (reg_intno reg) = INT_SYS_PAGE_ALLOC \<and> sys_page_alloc c k = Some k' \<and> e = Run c)
    \<or> (unat (reg_intno reg) = INT_SYS_FORK \<and> sys_fork c k = Some k' \<and> e = Run c)
    \<or> page_fault c fa reg k = Some (e, k') \<or> (k' = set_eax c (word_of_int (p_pid (processes k ! c))) k \<and> e = Run c)
    \<or> (k' = k \<and> (\<forall>q. e \<noteq> Run q)) \<or> (k' = k\<lparr>ticks := ticks k + 1\<rparr> \<and> e = Schedule)"
proof -
  let ?n = "unat (reg_intno reg)"
  note run = assms(1) [unfolded handle_interrupt_def Let_def if_not_P [OF assms(2)]]
  consider "?n = INT_SYS_PANIC" | "?n \<noteq> INT_SYS_PANIC" "?n = INT_SYS_GETPID"
    | "?n \<notin> {INT_SYS_PANIC, INT_SYS_GETPID}" "?n = INT_SYS_YIELD"
    | "?n \<notin> {INT_SYS_PANIC, INT_SYS_GETPID, INT_SYS_YIELD}" "?n = INT_SYS_PAGE_ALLOC"
    | "?n \<notin> {INT_SYS_PANIC, INT_SYS_GETPID, INT_SYS_YIELD, INT_SYS_PAGE_ALLOC}" "?n = INT_TIMER"
    | "?n \<notin> {INT_SYS_PANIC, INT_SYS_GETPID, INT_SYS_YIELD, INT_SYS_PAGE_ALLOC, INT_TIMER}" "?n = INT_PAGEFAULT"
    | "?n \<notin> {INT_SYS_PANIC, INT_SYS_GETPID, INT_SYS_YIELD, INT_SYS_PAGE_ALLOC, INT_TIMER, INT_PAGEFAULT}"
    by blast
  then show ?thesis by cases (use run in \<open>auto split: if_split_asm\<close>)
qed

lemma handle_interrupt_isolated:
  assumes I: "isolated k" and c: "active k c" and regs: "p_registers (processes k ! c) = reg"
    and ok: "call_ok reg k" and run: "handle_interrupt c fa reg k = Some (e, k')"
  shows "kept c k k'" "e = Run q \<Longrightarrow> q = c"
proof -
  let ?n = "unat (reg_intno reg)"
  have alloc: "\<exists>n. 256 \<le> n \<and> n < 768 \<and> reg_eax (p_registers (processes k ! c)) = page_addr n" if "?n = INT_SYS_PAGE_ALLOC"
    using ok that regs by (simp add: call_ok_def)
  have fork: "counted k" if "?n = INT_SYS_FORK" using ok that by (simp add: call_ok_def)
  have "(kept c k k') \<and> (\<forall>q. e = Run q \<longrightarrow> q = c)"
  proof (cases "?n = INT_SYS_EXIT")
    case True
    then have r: "m_releaseMemoryforProcess c k = Some k'" "e = Schedule"
      using run by (auto simp: handle_interrupt_def INT_SYS_EXIT_def INT_SYS_PANIC_def)
    then show ?thesis using exit_isolated [OF I c r(1)] by (auto simp: kept_def)
  next
    case nexit: False
    consider "?n = INT_SYS_PAGE_ALLOC" "sys_page_alloc c k = Some k'" "e = Run c"
      | "?n = INT_SYS_FORK" "sys_fork c k = Some k'" "e = Run c"
      | "page_fault c fa reg k = Some (e, k')"
      | v where "k' = set_eax c v k" "e = Run c" | "k' = k" "\<forall>q. e \<noteq> Run q"
      | "k' = k\<lparr>ticks := ticks k + 1\<rparr>" "e = Schedule"
      using handle_interrupt_cases [OF run nexit] by blast
    then show ?thesis
    proof cases
      case 1
      obtain n where n: "256 \<le> n" "n < 768" "reg_eax (p_registers (processes k ! c)) = page_addr n"
        using alloc [OF 1(1)] by blast
      show ?thesis using sys_page_alloc_isolated [OF I c n 1(2)] 1(3) by (auto simp: kept_def)
    next
      case 2
      show ?thesis using sys_fork_isolated [OF I c fork [OF 2(1)] 2(2)] 2(3) by (auto simp: kept_def)
    next
      case 3
      then show ?thesis using broken_isolated [OF I c] kept_same [OF I refl refl refl]
        by (auto simp: page_fault_def Let_def Option.bind_eq_Some_conv split: if_splits)
    next
      case 4
      then show ?thesis using set_eax_isolated [OF I] by (auto simp: kept_def)
    next
      case 5
      then show ?thesis using kept_same [OF I refl refl refl] by auto
    next
      case 6
      then show ?thesis using kept_same [OF I, of k' c] by simp
    qed
  qed
  then show "kept c k k'" "e = Run q \<Longrightarrow> q = c" by blast+
qed

section \<open>Back to a process\<close>

definition running :: "'d kernel \<Rightarrow> bool" where
  "running k \<longleftrightarrow> (case current k of None \<Rightarrow> False | Some c \<Rightarrow> active k c)"

lemma runD:
  assumes "run q k = Some k'"
  shows "p_state (processes k ! q) = P_RUNNABLE" "current k' = Some q" "processes k' = processes k"
    "memory k' = memory k" "pageinfo k' = pageinfo k"
  using assms by (auto simp: run_def assertion_def split: if_splits)

lemma schedule_loop_running:
  "schedule_loop D pid k = Some r \<Longrightarrow> r = (Running q, k') \<Longrightarrow> \<exists>k1. run q k1 = Some k' \<and> q < NPROC
     \<and> memory k1 = memory k \<and> pageinfo k1 = pageinfo k \<and> processes k1 = processes k"
proof (induction rule: schedule_loop.raw_induct [rotated, consumes 1])
  case (1 schedule_loop D pid k r)
  note IH = 1(1) and body = 1(2) and r = 1(3)
  let ?p = "(pid + 1) mod NPROC"
  show ?case
  proof (cases "p_state (processes k ! ?p) = P_RUNNABLE")
    case True
    then obtain k1 where k1: "run ?p k = Some k1" by (simp add: run_def assertion_def)
    then have "k1 = k'" "?p = q" using True body r by (simp_all add: Let_def)
    then show ?thesis using k1 by (intro exI [of _ k]) (simp add: NPROC_def)
  next
    case False
    obtain act k2 where k2: "poll_keyboard D k = (act, k2)" by (cases "poll_keyboard D k")
    then have same: "memory k2 = memory k" "pageinfo k2 = pageinfo k" "processes k2 = processes k"
      by (auto simp: poll_keyboard_def Let_def split: prod.splits)
    show ?thesis
    proof (cases "act = Continue")
      case True
      then have "schedule_loop D ?p k2 = Some r" using body False k2 by (simp add: Let_def)
      from IH [OF this r] show ?thesis unfolding same .
    next
      case False
      then show ?thesis using body \<open>p_state _ \<noteq> P_RUNNABLE\<close> k2 r by (simp add: Let_def)
    qed
  qed
qed

lemma finish_running:
  assumes "finish D e k = Some (Running q, k')" "\<And>q. e = Run q \<Longrightarrow> q < NPROC"
  shows "p_state (processes k ! q) = P_RUNNABLE" "current k' = Some q" "q < NPROC" "processes k' = processes k"
    "memory k' = memory k" "pageinfo k' = pageinfo k"
proof -
  have "\<exists>k1. run q k1 = Some k' \<and> q < NPROC \<and> memory k1 = memory k \<and> pageinfo k1 = pageinfo k
    \<and> processes k1 = processes k"
  proof (cases e)
    case (Run p)
    then show ?thesis using assms by (auto simp: finish_def split: option.splits)
  next
    case Schedule
    then obtain c where "schedule_loop D c k = Some (Running q, k')"
      using assms(1) by (auto simp: finish_def schedule_def split: option.splits)
    then show ?thesis by (rule schedule_loop_running) simp
  next
    case (Panic f a)
    then show ?thesis using assms(1) by (simp add: finish_def)
  qed
  then obtain k1 where k1: "run q k1 = Some k'" "q < NPROC" "memory k1 = memory k" "pageinfo k1 = pageinfo k"
    "processes k1 = processes k" by blast
  note r = runD [OF k1(1)]
  show "p_state (processes k ! q) = P_RUNNABLE" "current k' = Some q" "q < NPROC" "processes k' = processes k"
    "memory k' = memory k" "pageinfo k' = pageinfo k"
    using r k1 by simp_all
qed

end
