(* ===== verification/KernelSafety.thy ===== *)
theory KernelSafety
  imports KernelSteps
begin

text \<open>
  The kernel and its processes as a transition system: every reachable state keeps the address
  spaces apart, and a process that waits finds its registers and its memory as it left them.
\<close>

section \<open>Separation\<close>

text \<open>
  \<open>reaches step s0\<close>: any number of steps from \<open>s0\<close>; \<open>waits step runs j s0\<close>: any number of steps
  in none of which \<open>j\<close> is the one that runs.
\<close>

inductive reaches :: "('s \<Rightarrow> 's \<Rightarrow> bool) \<Rightarrow> 's \<Rightarrow> 's \<Rightarrow> bool" for step s0 where
  reaches_start: "reaches step s0 s0"
| reaches_step: "reaches step s0 s \<Longrightarrow> step s s' \<Longrightarrow> reaches step s0 s'"

inductive waits :: "('s \<Rightarrow> 's \<Rightarrow> bool) \<Rightarrow> ('s \<Rightarrow> 'p \<Rightarrow> bool) \<Rightarrow> 'p \<Rightarrow> 's \<Rightarrow> 's \<Rightarrow> bool" for step runs j s0 where
  waits_start: "waits step runs j s0 s0"
| waits_step: "waits step runs j s0 s \<Longrightarrow> \<not> runs s j \<Longrightarrow> step s s' \<Longrightarrow> waits step runs j s0 s'"

text \<open>What the steps of a kernel promise: an invariant, and the view of everyone who does not run.\<close>

locale separation =
  fixes step :: "'s \<Rightarrow> 's \<Rightarrow> bool" and runs :: "'s \<Rightarrow> 'p \<Rightarrow> bool" and alive :: "'s \<Rightarrow> 'p \<Rightarrow> bool"
    and inv :: "'s \<Rightarrow> bool" and view :: "'s \<Rightarrow> 's \<Rightarrow> 'p \<Rightarrow> bool"
  assumes step_inv: "step s s' \<Longrightarrow> inv s \<Longrightarrow> inv s'"
    and step_view: "step s s' \<Longrightarrow> inv s \<Longrightarrow> alive s j \<Longrightarrow> \<not> runs s j \<Longrightarrow> view s s' j"
    and view_refl: "view s s j"
    and view_trans: "inv s \<Longrightarrow> alive s j \<Longrightarrow> view s s' j \<Longrightarrow> view s' s'' j \<Longrightarrow> view s s'' j"
    and view_alive: "inv s \<Longrightarrow> alive s j \<Longrightarrow> view s s' j \<Longrightarrow> alive s' j"
begin

lemma reaches_inv: "reaches step s0 s \<Longrightarrow> inv s0 \<Longrightarrow> inv s"
  by (induction rule: reaches.induct) (auto intro: step_inv)

lemma waits_view: "waits step runs j s0 s \<Longrightarrow> inv s0 \<Longrightarrow> alive s0 j \<Longrightarrow> inv s \<and> view s0 s j"
  by (induction rule: waits.induct) (blast intro: view_refl step_inv view_trans view_alive step_view)+

end

section \<open>The steps\<close>

text \<open>
  The physical memory the process that runs can write, its own pages and the page of the console;
  what the kernel has there, the cells and \<open>cursorpos\<close>, may become anything.
\<close>

definition writable_area :: "'d kernel \<Rightarrow> nat \<Rightarrow> nat set" where
  "writable_area k c = (\<Union>n \<in> {n. n < 1024 \<and> entry k c n AND 7 = 7}. page (mapped_page k c n))"

inductive kernel_step :: "linked \<Rightarrow> 'd device \<Rightarrow> 'd kernel \<Rightarrow> 'd kernel \<Rightarrow> bool" for L D where
  user_step: "current k = Some c \<Longrightarrow> agree (- writable_area k c) (memory k) m' \<Longrightarrow>
    length cs = length (cells k) \<Longrightarrow> kernel_step L D k (k\<lparr>memory := m', cells := cs, cursorpos := p\<rparr>)"
| interrupt_step: "interrupt L D fa reg k = Some (Running q, k') \<Longrightarrow> call_ok reg k \<Longrightarrow> kernel_step L D k k'"

definition good :: "linked \<Rightarrow> 'd kernel \<Rightarrow> bool" where
  "good L k \<longleftrightarrow> isolated k \<and> buffer_ok L k \<and> running k"

section \<open>A process runs\<close>

lemma writable_cases:
  assumes I: "isolated k" and c: "active k c" and n: "n < 1024" "entry k c n AND 7 = 7"
  shows "mapped_page k c n < NPAGES"
    "sint (owner (pageinfo k ! mapped_page k c n)) < 0 \<or> 256 \<le> n \<and> n < 768 \<and> private_entry k c n"
proof -
  note D = space_isolatedD [OF isolatedD(6) [OF I c]]
  have nz: "entry k c n \<noteq> 0"
  proof
    assume "entry k c n = 0"
    then have "(0 :: u32) AND 7 = 7" using n(2) by (simp only:)
    then show False by simp
  qed
  have "mapped_page k c n < NPAGES \<and> (sint (owner (pageinfo k ! mapped_page k c n)) < 0
      \<or> 256 \<le> n \<and> n < 768 \<and> private_entry k c n)"
  proof (cases "n < 256")
    case True
    have "mapped_page k c n = n" using True by (simp only: mapped_page_def D(5) [OF True]) simp
    moreover have "entry k c n AND PTE_U \<noteq> 0"
    proof
      assume "entry k c n AND PTE_U = 0"
      then have "(entry k c n AND 7) AND 4 = 0" by (simp add: and.assoc PTE_U_def)
      then show False using n(2) by simp
    qed
    ultimately have "mapped_page k c n = n" "sint (owner (pageinfo k ! n)) < 0" using D(6) [OF True] by blast+
    then show ?thesis using True by (simp add: NPAGES_def)
  next
    case False
    then have l: "256 \<le> n" "n < 768" using D(8) n(1) nz by (auto simp: not_less intro: ccontr)
    then have "private_entry k c n" using D(7) [OF l] nz n(2) shared_entryD(5) by blast
    then show ?thesis using l by (auto elim: private_entryE)
  qed
  then show "mapped_page k c n < NPAGES"
    "sint (owner (pageinfo k ! mapped_page k c n)) < 0 \<or> 256 \<le> n \<and> n < 768 \<and> private_entry k c n" by blast+
qed

text \<open>What a process writes is no page table and no page of another process.\<close>

lemma writable_apart:
  assumes I: "isolated k" and c: "active k c" and i: "active k i" "x \<in> set (space_pages k i)"
    and x: "i \<noteq> c \<or> x = dir_page k i \<or> x = table_page k i"
  shows "page x \<subseteq> - writable_area k c"
proof -
  have "page x \<inter> page (mapped_page k c n) = {}" if n: "n < 1024" "entry k c n AND 7 = 7" for n
  proof -
    note w = writable_cases [OF I c n]
    have xl: "x < NPAGES" by (rule space_pages_cases(1) [OF isolatedD(6) [OF I i(1)] i(2)])
    from w(2) have "x \<noteq> mapped_page k c n"
    proof (elim disjE conjE)
      assume "sint (owner (pageinfo k ! mapped_page k c n)) < 0"
      then show ?thesis using space_pages_owner [OF I i] by auto
    next
      assume l: "256 \<le> n" "n < 768" "private_entry k c n"
      note S = isolatedD(6) [OF I c]
      have "entry k c n \<noteq> 0" "owned k c (mapped_page k c n)" using l(3) by (auto elim: private_entryE)
      moreover have "\<not> (256 \<le> mapped_page k c n \<and> shared_entry k c (mapped_page k c n))"
        using shared_not_private(3) [OF S _ _ l] by blast
      ultimately show ?thesis
        using private_of_one [OF I i(1) c _ i(2)] x space_isolatedD(9) [OF S, unfolded distinct_space_pages] l
        by (cases "i = c") auto
    qed
    then show ?thesis by (rule page_disjoint [OF xl w(1)])
  qed
  then show ?thesis unfolding writable_area_def by blast
qed

lemma user_step_good:
  assumes g: "good L k" and c: "current k = Some c" and ag: "agree (- writable_area k c) (memory k) m'"
  shows "good L (k\<lparr>memory := m', cells := cs, cursorpos := p\<rparr>)"
    "active k j \<Longrightarrow> j \<noteq> c \<Longrightarrow> left_alone k (k\<lparr>memory := m', cells := cs, cursorpos := p\<rparr>) j"
proof -
  let ?k = "k\<lparr>memory := m', cells := cs, cursorpos := p\<rparr>"
  have I: "isolated k" and b: "buffer_ok L k" and a: "active k c" using g c by (simp_all add: good_def running_def)
  have ag1: "agree (page x) (memory k) m'"
    if "active k i" "x \<in> set (space_pages k i)" "i \<noteq> c \<or> x = dir_page k i \<or> x = table_page k i" for i x
    by (rule agree_subset [OF ag writable_apart [OF I a that]])
  have "isolated ?k"
    by (rule isolated_same [OF I]) (simp_all add: ag1 space_pages_def)
  then show "good L ?k" using b a c by (simp add: good_def running_def buffer_ok_def active_def)
  show "active k j \<Longrightarrow> j \<noteq> c \<Longrightarrow> left_alone k ?k j" using ag1 by (simp add: left_alone_def)
qed

section \<open>An interrupt\<close>

lemma left_alone_refl: "left_alone k k j"
  by (simp add: left_alone_def)

lemma left_alone_pages: "isolated k \<Longrightarrow> active k j \<Longrightarrow> left_alone k k' j \<Longrightarrow> space_pages k' j = space_pages k j \<and> active k' j"
proof -
  assume I: "isolated k" and j: "active k j" and kp: "left_alone k k' j"
  have "space_pages k' j = space_pages k j"
    by (rule same_entries(6) [OF isolatedD(6) [OF I j]]) (use kp in \<open>simp_all add: left_alone_def space_pages_def\<close>)
  then show ?thesis using j kp by (simp add: left_alone_def active_def)
qed

lemma left_alone_trans:
  assumes "isolated k" "active k j" "left_alone k k1 j" "left_alone k1 k2 j"
  shows "left_alone k k2 j"
  using left_alone_pages [OF assms(1-3)] assms(3,4) by (auto simp: left_alone_def intro: agree_trans)

lemma interrupt_parts:
  assumes "interrupt L D fa reg k = Some (Running q, k')"
  obtains c k1 k2 e k3 where "current k = Some c" "interrupt_entry L D c reg k = Some k1"
    "processes k2 = processes k1" "memory k2 = memory k1" "pageinfo k2 = pageinfo k1"
    "handle_interrupt c fa reg k2 = Some (e, k3)" "finish D e k3 = Some (Running q, k')"
proof -
  obtain c where c: "current k = Some c" using assms by (cases "current k") (auto simp: interrupt_def)
  obtain k1 where k1: "interrupt_entry L D c reg k = Some k1"
    using assms c by (cases "interrupt_entry L D c reg k") (auto simp: interrupt_def)
  obtain act k2 where k2: "poll_keyboard D k1 = (act, k2)" by (cases "poll_keyboard D k1")
  have same: "processes k2 = processes k1" "memory k2 = memory k1" "pageinfo k2 = pageinfo k1"
    using k2 by (auto simp: poll_keyboard_def Let_def split: prod.splits)
  have cont: "act = Continue" using assms c k1 k2 by (auto simp: interrupt_def split: if_splits)
  obtain r where r: "handle_interrupt c fa reg k2 = Some r"
    using assms c k1 k2 cont by (cases "handle_interrupt c fa reg k2") (auto simp: interrupt_def)
  have "finish D (fst r) (snd r) = Some (Running q, k')"
    using assms c k1 k2 cont r by (simp add: interrupt_def split: prod.splits)
  then show thesis using that [OF c k1 same, of "fst r" "snd r"] r by simp
qed

lemma interrupt_good:
  assumes g: "good L k" and run: "interrupt L D fa reg k = Some (Running q, k')" and ok: "call_ok reg k"
  shows "good L k'" "active k j \<Longrightarrow> current k \<noteq> Some j \<Longrightarrow> left_alone k k' j"
proof -
  obtain c k1 k2 e k3 where c: "current k = Some c" and k1: "interrupt_entry L D c reg k = Some k1"
    and same: "processes k2 = processes k1" "memory k2 = memory k1" "pageinfo k2 = pageinfo k1"
    and h: "handle_interrupt c fa reg k2 = Some (e, k3)" and fin: "finish D e k3 = Some (Running q, k')"
    by (rule interrupt_parts [OF run])
  have I: "isolated k" and b: "buffer_ok L k" and a: "active k c" using g c by (simp_all add: good_def running_def)
  note en = entry_isolated [OF I b k1]
  have en2: "kept c k1 k2" by (rule kept_same [OF en(1) same(2,3,1)])
  then have I2: "isolated k2" by (simp add: kept_def)
  have act2: "active k2 i = active k i" for i using en(4) same(1) by (simp add: active_def)
  have reg: "p_registers (processes k2 ! c) = reg" using en(5) activeD [OF a] by (simp add: same)
  have pi: "pageinfo k2 = pageinfo k" using entry_result [OF k1] same(3) by simp
  have ok2: "call_ok reg k2" using ok by (simp add: call_ok_def counted_def pi)
  have a2: "active k2 c" using a by (simp add: act2)
  note hd = handle_interrupt_isolated [OF I2 a2 reg ok2 h]
  have I3: "isolated k3" using hd(1) by (simp add: kept_def)
  have "\<And>q. e = Run q \<Longrightarrow> q < NPROC" using hd(2) activeD [OF a] by blast
  note f = finish_running [OF fin this]
  have k': "kept c k3 k'" by (rule kept_same [OF I3 f(5,6,4)])
  have "kernel_kept k k'"
    using en(3) en2 hd(1) k' by (simp add: kept_def kernel_kept_def)
  then have "buffer_ok L k'" by (rule buffer_ok_kept [OF b])
  moreover have "active k' q"
  proof -
    have "q \<noteq> 0" using isolatedD(4) [OF I3] f(1) by (auto intro: ccontr)
    then show ?thesis using f(1,3,4) by (simp add: active_def)
  qed
  ultimately show "good L k'" using k' f(2) by (simp add: good_def running_def kept_def)
  show "left_alone k k' j" if j: "active k j" "current k \<noteq> Some j"
  proof -
    have ne: "j \<noteq> c" using j(2) c by auto
    have s1: "left_alone k k1 j" by (rule en(2) [OF j(1) ne])
    have a1: "active k1 j" "active k2 j" using j(1) en(4) act2 by simp_all
    have s2: "left_alone k1 k2 j" using en2 a1 ne by (simp add: kept_def)
    have s3: "left_alone k2 k3 j" using hd(1) a1 ne by (simp add: kept_def)
    have "active k3 j" using left_alone_pages [OF I2 a1(2) s3] by blast
    then have s4: "left_alone k3 k' j" using k' ne by (simp add: kept_def)
    show ?thesis
      by (rule left_alone_trans [OF I j(1) left_alone_trans [OF I j(1) left_alone_trans [OF I j(1) s1 s2] s3] s4])
  qed
qed

lemma step_good:
  assumes "kernel_step L D k k'" "good L k"
  shows "good L k'" "active k j \<Longrightarrow> current k \<noteq> Some j \<Longrightarrow> left_alone k k' j"
proof -
  have "good L k' \<and> (active k j \<and> current k \<noteq> Some j \<longrightarrow> left_alone k k' j)"
    using assms(1)
  proof (cases rule: kernel_step.cases)
    case (user_step c m')
    then show ?thesis using user_step_good [OF assms(2)] by auto
  next
    case (interrupt_step fa reg q)
    then show ?thesis using interrupt_good [OF assms(2)] by blast
  qed
  then show "good L k'" "active k j \<Longrightarrow> current k \<noteq> Some j \<Longrightarrow> left_alone k k' j" by blast+
qed

interpretation sep: separation "kernel_step L D" "\<lambda>k j. current k = Some j" active "good L" left_alone
proof unfold_locales
  show "good L k'" if "kernel_step L D k k'" "good L k" for k k' by (rule step_good(1) [OF that])
  show "left_alone k k' j" if "kernel_step L D k k'" "good L k" "active k j" "current k \<noteq> Some j" for k k' j
    by (rule step_good(2) [OF that])
  show "left_alone k k j" for k j by (rule left_alone_refl)
  show "left_alone k k'' j" if "good L k" "active k j" "left_alone k k' j" "left_alone k' k'' j" for k k' k'' j
    using left_alone_trans that by (auto simp: good_def)
  show "active k' j" if "good L k" "active k j" "left_alone k k' j" for k k' j
    using left_alone_pages that by (auto simp: good_def)
qed

end
