(* ===== verification/KernelApart.thy ===== *)
theory KernelApart
  imports KernelSafety
begin

text \<open>
  The two properties of the running kernel, address spaces apart and a waiting process left
  alone, on a kernel with two processes.
\<close>

section \<open>Two processes\<close>

lemma kernel_page_entry: "c < NPAGES \<Longrightarrow> PTE_ADDR (page_addr c OR 3) = page_addr c \<and> (page_addr c OR 3) AND PTE_U = 0"
proof
  assume c: "c < NPAGES"
  then show "PTE_ADDR (page_addr c OR 3) = page_addr c"
    using page_at_addr [OF c] by (intro PTE_ADDR_page) (simp_all add: page_at_def)
  have d: "(page_addr c OR y) AND z = (page_addr c AND z) OR (y AND z)" for y z
    by (rule bit_word_eqI) (auto simp: bit_simps)
  have "(page_addr c OR 3) AND 4 = (page_addr c AND 4) OR (3 AND 4)" by (rule d)
  moreover have "page_addr c AND 4 = (page_addr c AND 7) AND 4" by (simp add: and.assoc)
  ultimately show "(page_addr c OR 3) AND PTE_U = 0" using page_addr_low [OF c] by (simp add: PTE_U_def)
qed

text \<open>The kernel's half mapped to itself, and one page of the process's own half.\<close>

definition lone_space :: "mem \<Rightarrow> nat \<Rightarrow> nat \<Rightarrow> nat \<Rightarrow> bool" where
  "lone_space m d t x \<longleftrightarrow> wf_dir m (page_addr d) \<and> table_of m (page_addr d) = page_addr t
     \<and> (\<forall>n < 1024. pte m (page_addr d) n =
          (if n < 256 then page_addr n OR 3 else if n = 256 then page_addr x OR 7 else 0))"

lemma lone_space_agree:
  assumes "lone_space m d t x" "agree (page d) m m'" "agree (page t) m m'" "d < NPAGES"
  shows "lone_space m' d t x"
  using assms wf_dir_agree [of m "page_addr d" m'] table_of_agree [OF page_at_addr [OF assms(4)] assms(2)]
    pte_agree [of m "page_addr d" m'] by (auto simp: lone_space_def)

lemma add_own_page:
  assumes wf: "wf_dir m (page_addr d)" and t: "table_of m (page_addr d) = page_addr t"
    and e: "\<And>n. n < 1024 \<Longrightarrow> pte m (page_addr d) n = (if n < 256 then page_addr n OR 3 else 0)" and x: "x < NPAGES"
  obtains m' where "lone_space m' d t x" "\<And>S. page t \<inter> S = {} \<Longrightarrow> agree S m m'"
proof -
  have low: "unat (7 :: u32) < 4096" and i: "256 < (1024 :: nat)" by simp_all
  obtain m' where m': "wf_dir m' (page_addr d)" "table_of m' (page_addr d) = table_of m (page_addr d)"
    "pte m' (page_addr d) 256 = page_addr x OR 7"
    and ptes: "\<And>j. j < 1024 \<Longrightarrow> j \<noteq> 256 \<Longrightarrow> pte m' (page_addr d) j = pte m (page_addr d) j"
    and out: "\<And>S. region (table_of m (page_addr d)) 4096 \<inter> S = {} \<Longrightarrow> agree S m m'"
    by (rule map_page [OF wf i page_at_addr [OF x] low]) (rule that)
  have "lone_space m' d t x" using m' ptes e t by (auto simp: lone_space_def)
  then show thesis using out t by (intro that [of m']) simp_all
qed

lemma first_space:
  assumes "d < NPAGES" "t < NPAGES" "d \<noteq> t" "x < NPAGES"
  shows "\<exists>m. lone_space m d t x"
proof -
  let ?m = "store32 (\<lambda>_. 0) (page_addr d) (page_addr t OR 7)"
  note e = empty_dir [OF assms(1-3)]
  have "\<exists>m'. virtual_memory_map (page_addr d) 0 0 0x100000 3 ?m = Some m' \<and> wf_dir m' (page_addr d) \<and>
    table_of m' (page_addr d) = table_of ?m (page_addr d) \<and>
    (\<forall>j < 1024. pte m' (page_addr d) j = (if 0 \<le> j \<and> j < 0 + 256 then (0 + 4096 * word_of_nat (j - 0)) OR 3
                               else pte ?m (page_addr d) j)) \<and>
    (\<forall>S. region (table_of ?m (page_addr d)) 4096 \<inter> S = {} \<longrightarrow> agree S ?m m')"
    by (rule virtual_memory_map_ok [OF e(1)]) (simp_all add: aligned_def)
  then obtain m' where m': "wf_dir m' (page_addr d)" "table_of m' (page_addr d) = page_addr t"
    "\<And>j. j < 1024 \<Longrightarrow> pte m' (page_addr d) j = (if j < 256 then page_addr j OR 3 else 0)"
    using e(2,3) by auto
  obtain m1 where "lone_space m1 d t x" by (rule add_own_page [OF m' assms(4)])
  then show ?thesis by blast
qed

lemma second_space:
  assumes l: "lone_space m d t x" and ne: "distinct [d, t, d', t']" and p: "d < NPAGES" "t < NPAGES" "d' < NPAGES" "t' < NPAGES"
    and x: "x' < NPAGES"
  shows "\<exists>m'. lone_space m' d t x \<and> lone_space m' d' t' x'"
proof -
  have wf: "wf_dir m (page_addr d)" and t: "table_of m (page_addr d) = page_addr t"
    and e: "\<And>n. n < 1024 \<Longrightarrow> pte m (page_addr d) n =
      (if n < 256 then page_addr n OR 3 else if n = 256 then page_addr x OR 7 else 0)"
    using l by (simp_all add: lone_space_def)
  have a: "page_addr d \<noteq> page_addr d'" "page_addr d \<noteq> page_addr t'" "page_addr t \<noteq> page_addr d'" "page_addr t \<noteq> page_addr t'"
    using ne p by (simp_all add: page_addr_eq)
  note C = copy_pagedir_memory [OF wf p(3,4) _ a(1,2) a(3,4) [folded t]]
  have d't': "d' \<noteq> t'" using ne by simp
  note C = C [OF d't']
  obtain m1 where m1: "wf_dir m1 (page_addr d')" "table_of m1 (page_addr d') = page_addr t'"
    "\<And>n. n < 1024 \<Longrightarrow> pte m1 (page_addr d') n = (if n < 256 then pte m (page_addr d) n else 0)"
    "\<And>S. page d' \<inter> S = {} \<Longrightarrow> page t' \<inter> S = {} \<Longrightarrow> agree S m m1"
    by (rule that [OF C(1,2)]) (rule C(3) C(4); assumption)+
  have e1: "pte m1 (page_addr d') n = (if n < 256 then page_addr n OR 3 else 0)" if "n < 1024" for n
    using m1(3) [OF that] e [OF that] by simp
  obtain m2 where m2: "lone_space m2 d' t' x'" "\<And>S. page t' \<inter> S = {} \<Longrightarrow> agree S m1 m2"
    by (rule add_own_page [OF m1(1,2) e1 x]) (assumption, rule that)
  have "agree (page y) m m2" if y: "y < NPAGES" "y \<noteq> d'" "y \<noteq> t'" for y
  proof -
    have dis: "page d' \<inter> page y = {}" "page t' \<inter> page y = {}" using page_disjoint p y by metis+
    show ?thesis by (rule agree_trans [OF m1(4) [OF dis] m2(2) [OF dis(2)]])
  qed
  then have "lone_space m2 d t x" using lone_space_agree [OF l] p ne by simp
  then show ?thesis using m2(1) by blast
qed


text \<open>Processes 1 and 2; page 7 is the kernel's stack, pages 8 to 13 are theirs.\<close>

definition two_pages :: "nat \<Rightarrow> pageinfo_t" where
  "two_pages i = (if i = 7 then \<lparr>owner = - 2, refcount = 1\<rparr>
     else if i \<in> {8, 9, 10} then \<lparr>owner = 1, refcount = 1\<rparr>
     else if i \<in> {11, 12, 13} then \<lparr>owner = 2, refcount = 1\<rparr> else \<lparr>owner = 0, refcount = 0\<rparr>)"

definition two_processes :: "mem \<Rightarrow> unit kernel" where
  "two_processes m = (one_process m)\<lparr>pageinfo := map two_pages [0..<NPAGES],
     processes := (processes (one_process m))[2 := \<lparr>p_pid = 2, p_registers = init_registers 0,
       p_state = P_RUNNABLE, p_pagedir = page_addr 11\<rparr>]\<rparr>"

definition two_linked :: linked where
  "two_linked = \<lparr>kernel_pagedir = 0, kernel_pagetable0 = 0, kernel_end = 0, ramimages = [],
     int_handlers = \<lparr>default_int_handler = 0, gpf_int_handler = 0, pagefault_int_handler = 0, timer_int_handler = 0,
       sys_int_handlers = (\<lambda>_. 0), task_descriptor_addr = 0\<rparr>, name_buffer = page_addr 7 + 4000\<rparr>"

lemma two_processes_simps:
  "memory (two_processes m) = m" "pageinfo (two_processes m) = map two_pages [0..<NPAGES]"
  "processes (two_processes m) ! 1 = \<lparr>p_pid = 1, p_registers = init_registers 0, p_state = P_RUNNABLE, p_pagedir = page_addr 8\<rparr>"
  "processes (two_processes m) ! 2 = \<lparr>p_pid = 2, p_registers = init_registers 0, p_state = P_RUNNABLE, p_pagedir = page_addr 11\<rparr>"
  "length (processes (two_processes m)) = NPROC" "current (two_processes m) = Some 1"
proof -
  have one: "length (processes (one_process m)) = NPROC" by (simp add: one_process_def)
  show "processes (two_processes m) ! 1 = \<lparr>p_pid = 1, p_registers = init_registers 0, p_state = P_RUNNABLE, p_pagedir = page_addr 8\<rparr>"
    using one_process_simps(3) by (simp add: two_processes_def)
  show "processes (two_processes m) ! 2 = \<lparr>p_pid = 2, p_registers = init_registers 0, p_state = P_RUNNABLE, p_pagedir = page_addr 11\<rparr>"
    using one by (simp add: two_processes_def NPROC_def)
  show "length (processes (two_processes m)) = NPROC" using one by (simp add: two_processes_def)
  show "current (two_processes m) = Some 1" by (simp add: two_processes_def one_process_def)
qed (simp_all add: two_processes_def one_process_def)

lemma two_active: "active (two_processes m) i \<longleftrightarrow> i = 1 \<or> i = 2"
proof -
  have "p_state (processes (two_processes m) ! i) = P_FREE" if "i < NPROC" "i \<noteq> 1" "i \<noteq> 2"
    using that by (simp add: two_processes_def one_process_def free_proc_def)
  moreover have "p_state (processes (two_processes m) ! 1) = P_RUNNABLE" "p_state (processes (two_processes m) ! 2) = P_RUNNABLE"
    by (simp_all only: two_processes_simps proc.simps)
  moreover have "1 < NPROC" "2 < NPROC" by (simp_all add: NPROC_def)
  ultimately show ?thesis unfolding active_def by auto
qed

text \<open>An address space of one page, as \<open>isolated\<close> wants it.\<close>

lemma lone_space_isolated:
  assumes l: "lone_space (memory k) d t x" and p: "p_pid (processes k ! i) = int i" "p_pagedir (processes k ! i) = page_addr d"
    and o: "owned k i d" "owned k i t" "owned k i x" and ne: "distinct [d, t, x]" "d < NPAGES" "t < NPAGES" "x < NPAGES"
  shows "space_isolated k i" "\<not> (256 \<le> c \<and> shared_entry k i c)"
proof -
  have e: "entry k i n = (if n < 256 then page_addr n OR 3 else if n = 256 then page_addr x OR 7 else 0)" if "n < 1024" for n
    using l that by (simp add: lone_space_def entry_def p)
  have d: "dir_page k i = d" "table_page k i = t"
    using l ne by (simp_all add: dir_page_def table_page_def p lone_space_def entry_parts(7))
  have pr: "private_entry k i 256" using e [of 256] o(3) ne(4) by (auto simp: private_entry_def)
  have m: "mapped_page k i 256 = x" using e [of 256] entry_parts [OF ne(4)] by (simp add: mapped_page_def)
  have ns: "\<not> shared_entry k i n" if "256 \<le> n" for n
  proof
    assume sh: "shared_entry k i n"
    note D = shared_entryD [OF sh]
    have "n = 256" using e [of n] D(1,4) that by (auto simp: NPAGES_def split: if_splits)
    then show False using sh pr by (auto elim: private_entryE)
  qed
  then show "\<not> (256 \<le> c \<and> shared_entry k i c)" by blast
  have only: "n = 256" if "256 \<le> n" "n < 768" "entry k i n \<noteq> 0" for n
    using e [of n] that by (auto split: if_splits)
  have "distinct (space_pages k i)"
    unfolding distinct_space_pages d using ne(1) only m by (metis distinct_length_2_or_more)
  moreover have "PTE_ADDR (entry k i n) = page_addr n \<and> (entry k i n AND PTE_U \<noteq> 0 \<longrightarrow> n = CONSOLE_PAGE \<and> sint (owner (pageinfo k ! n)) < 0)"
    if "n < 256" for n
    using e [of n] kernel_page_entry [of n] that by (simp add: NPAGES_def)
  moreover have "entry k i n = 0 \<or> private_entry k i n \<or> shared_entry k i n" if "256 \<le> n" "n < 768" for n
    using only [OF that] pr by blast
  ultimately show "space_isolated k i"
    using o(1,2) l e unfolding space_isolated_def d by (auto simp: p lone_space_def)
qed

lemma two_processes_good: "\<exists>m. lone_space m 8 9 10 \<and> lone_space m 11 12 13 \<and> good two_linked (two_processes m)"
proof -
  have n: "7 < NPAGES" "8 < NPAGES" "9 < NPAGES" "10 < NPAGES" "11 < NPAGES" "12 < NPAGES" "13 < NPAGES" by (simp_all add: NPAGES_def)
  obtain m0 where "lone_space m0 8 9 10" using first_space [OF n(2,3) _ n(4)] by auto
  from second_space [OF this _ n(2,3,5,6,7)] obtain m where m: "lone_space m 8 9 10" "lone_space m 11 12 13" by auto
  let ?k = "two_processes m"
  have pi: "pageinfo ?k ! c = two_pages c" if "c < NPAGES" for c using that by (simp add: two_processes_simps)
  have own: "owned ?k 1 8" "owned ?k 1 9" "owned ?k 1 10" "owned ?k 2 11" "owned ?k 2 12" "owned ?k 2 13"
    using n by (simp_all add: owned_def pi two_pages_def)
  have P: "p_pid (processes ?k ! 1) = int 1" "p_pagedir (processes ?k ! 1) = page_addr 8"
    "p_pid (processes ?k ! 2) = int 2" "p_pagedir (processes ?k ! 2) = page_addr 11"
    by (simp_all only: two_processes_simps proc.simps of_nat_1 of_nat_numeral)
  have l: "lone_space (memory ?k) 8 9 10" "lone_space (memory ?k) 11 12 13" using m by (simp_all add: two_processes_simps)
  note s1 = lone_space_isolated [OF l(1) P(1,2) own(1-3) _ n(2-4)]
  note s2 = lone_space_isolated [OF l(2) P(3,4) own(4-6) _ n(5-7)]
  have "isolated ?k"
  proof (rule isolatedI)
    show "pages_ok ?k" by (auto simp: pages_ok_def two_processes_simps list_all_length two_pages_def)
    show "length (processes ?k) = NPROC" by (rule two_processes_simps)
    show "p_state (processes ?k ! 0) = P_FREE" by (simp add: two_processes_def one_process_def NPROC_def free_proc_def)
    show "owner_ok ?k (pageinfo ?k ! c)" if "c < NPAGES" for c
      using that by (auto simp: owner_ok_def pi two_pages_def two_active)
    show "space_isolated ?k i" if "active ?k i" for i using that s1(1) s2(1) by (auto simp: two_active)
    show "sharing_ok ?k c" if "c < NPAGES" for c
      using s1(2) [of c] s2(2) [of c] by (auto simp: sharing_ok_def sharers_def two_active)
  qed
  moreover have "buffer_ok two_linked ?k"
  proof -
    have b: "page_number (page_addr 7 + 4000) = 7" "unat (page_addr 7 + 4000 :: u32) = 32672"
      by (simp_all add: page_number_def PAGENUMBER_def drop_bit_eq_div)
    show ?thesis unfolding buffer_ok_def Let_def two_linked_def linked.simps b
      using n(1) pi [OF n(1)] by (simp add: two_pages_def)
  qed
  moreover have "running ?k" by (simp add: running_def two_processes_simps two_active)
  ultimately show ?thesis using m by (auto simp: good_def)
qed


text \<open>A process may write its own page, here the first byte of page 10.\<close>

lemma two_processes_write:
  assumes "lone_space m 8 9 10"
  shows "kernel_step L D (two_processes m) ((two_processes m)\<lparr>memory := m(page_addr 10 := v)\<rparr>)"
proof -
  let ?k = "two_processes m"
  have n: "10 < NPAGES" by (simp add: NPAGES_def)
  have "pte m (page_addr 8) 256 = page_addr 10 OR 7" using assms by (simp add: lone_space_def)
  then have e: "entry ?k 1 256 = page_addr 10 OR 7" by (simp only: entry_def two_processes_simps proc.simps)
  have w: "entry ?k 1 256 AND 7 = 7" "mapped_page ?k 1 256 = 10"
    unfolding mapped_page_def e entry_parts [OF n] by (rule refl)+
  have "unat (page_addr 10) \<in> page 10" by (simp only: region_def atLeastLessThan_iff) simp
  then have "unat (page_addr 10) \<in> page (mapped_page ?k 1 256)" by (simp only: w)
  then have "unat (page_addr 10) \<in> writable_area ?k 1"
    unfolding writable_area_def using w(1) by (intro UN_I [of 256]) simp_all
  moreover have "agree (- S) m (m(a := v))" if "unat a \<in> S" for S and a using that by (auto simp: agree_def)
  ultimately have "agree (- writable_area ?k 1) (memory ?k) (m(page_addr 10 := v))"
    unfolding two_processes_simps(1) by blast
  from user_step [OF two_processes_simps(6) this refl, of L D "cursorpos ?k"] show ?thesis
    by (simp add: two_processes_def one_process_def)
qed

section \<open>Isolation\<close>

text \<open>
  \<open>spaces_apart\<close>: a page that a process can write, the page of the console apart, is accessible to no
  other process, and to itself at one place only; no process can access a page directory or a
  page table. A process accesses what it maps with the user bit; the kernel's own mapping of the
  first megabyte, which is in every page table, has it for the console alone.
\<close>

definition spaces_apart :: "'d kernel \<Rightarrow> bool" where
  "spaces_apart k \<longleftrightarrow>
     (\<forall>i j n m. active k i \<and> active k j \<and> n < 1024 \<and> m < 1024 \<and> (i, n) \<noteq> (j, m) \<and> n \<noteq> CONSOLE_PAGE
        \<and> entry k i n AND 7 = 7 \<and> entry k j m AND PTE_U \<noteq> 0 \<longrightarrow> mapped_page k i n \<noteq> mapped_page k j m)
     \<and> (\<forall>i j n. active k i \<and> active k j \<and> n < 1024 \<and> entry k i n AND PTE_U \<noteq> 0 \<longrightarrow>
          mapped_page k i n \<noteq> dir_page k j \<and> mapped_page k i n \<noteq> table_page k j)"

lemma writable_once:
  assumes I: "isolated k" and i: "active k i" and j: "active k j" and n: "256 \<le> n" "n < 768" and m: "256 \<le> m" "m < 768"
    and ne: "(i, n) \<noteq> (j, m)" and e: "entry k i n AND 7 = 7" "entry k j m \<noteq> 0"
  shows "mapped_page k i n \<noteq> mapped_page k j m"
proof -
  note S = isolatedD(6) [OF I i]
  have "entry k i n \<noteq> 0" using e(1) by (auto intro: ccontr)
  then have p: "private_entry k i n" using space_isolatedD(7) [OF S n] e(1) shared_entryD(5) by blast
  show ?thesis
  proof (cases "i = j")
    case True
    then show ?thesis
      using space_isolatedD(9) [OF S, unfolded distinct_space_pages] n m ne e(2) \<open>entry k i n \<noteq> 0\<close> by blast
  next
    case False
    have o: "owned k i (mapped_page k i n)" using p by (auto elim: private_entryE)
    have "\<not> (256 \<le> mapped_page k i n \<and> shared_entry k i (mapped_page k i n))"
      using shared_not_private(3) [OF S _ _ n p] by blast
    then show ?thesis using private_of_one [OF I j i _ mapped_in_pages [OF m e(2)] o] False by auto
  qed
qed

lemma user_entry:
  assumes I: "isolated k" and i: "active k i" and n: "n < 1024" and e: "entry k i n AND PTE_U \<noteq> 0"
  shows "(n = CONSOLE_PAGE \<and> mapped_page k i n = CONSOLE_PAGE \<and> sint (owner (pageinfo k ! CONSOLE_PAGE)) < 0)
    \<or> (256 \<le> n \<and> n < 768 \<and> entry k i n \<noteq> 0)"
proof -
  note D = space_isolatedD [OF isolatedD(6) [OF I i]]
  have nz: "entry k i n \<noteq> 0" using e by (auto intro: ccontr)
  show ?thesis
  proof (cases "n < 256")
    case True
    have "mapped_page k i n = n" using True by (simp only: mapped_page_def D(5) [OF True]) simp
    then show ?thesis using D(6) [OF True e] by blast
  next
    case False
    then show ?thesis using D(8) n nz by (auto simp: not_less intro: ccontr)
  qed
qed

lemma user_writable: "e AND 7 = (7 :: u32) \<Longrightarrow> e AND PTE_U \<noteq> 0"
proof
  assume e: "e AND 7 = 7" "e AND PTE_U = 0"
  have "(e AND 7) AND 4 = 0" using e(2) by (simp add: and.assoc PTE_U_def)
  then show False using e(1) by simp
qed

lemma writable_apart_user:
  assumes I: "isolated k" and i: "active k i" and j: "active k j" and n: "n < 1024" "n \<noteq> CONSOLE_PAGE" and m: "m < 1024"
    and ne: "(i, n) \<noteq> (j, m)" and e: "entry k i n AND 7 = 7" "entry k j m AND PTE_U \<noteq> 0"
  shows "mapped_page k i n \<noteq> mapped_page k j m"
proof -
  have l: "256 \<le> n" "n < 768" "entry k i n \<noteq> 0" using user_entry [OF I i n(1) user_writable [OF e(1)]] n(2) by blast+
  have p: "private_entry k i n"
    using space_isolatedD(7) [OF isolatedD(6) [OF I i] l(1,2)] l(3) e(1) shared_entryD(5) by blast
  consider "256 \<le> m" "m < 768" "entry k j m \<noteq> 0"
    | "mapped_page k j m = CONSOLE_PAGE" "sint (owner (pageinfo k ! CONSOLE_PAGE)) < 0"
    using user_entry [OF I j m e(2)] by blast
  then show ?thesis
  proof cases
    case 1
    then show ?thesis by (rule writable_once [OF I i j l(1,2) _ _ ne e(1)])
  next
    case 2
    have "owned k i (mapped_page k i n)" using p by (auto elim: private_entryE)
    then have "0 < sint (owner (pageinfo k ! mapped_page k i n))"
      using sint_slot [of i] activeD [OF i] by (simp add: owned_def)
    then show ?thesis using 2 by auto
  qed
qed

lemma table_unreachable:
  assumes I: "isolated k" and i: "active k i" and j: "active k j" and n: "n < 1024" and e: "entry k i n AND PTE_U \<noteq> 0"
    and x: "x = dir_page k j \<or> x = table_page k j"
  shows "mapped_page k i n \<noteq> x"
proof -
  note S = isolatedD(6) [OF I i] and D = space_isolatedD [OF isolatedD(6) [OF I i]] and J = isolatedD(6) [OF I j]
  have xj: "x \<in> set (space_pages k j)" "owned k j x" "\<not> (256 \<le> x \<and> shared_entry k j x)"
    using x space_isolatedD(3,4) [OF J] shared_not_private(1,2) [OF J] by (auto simp: space_pages_def)
  have nz: "entry k i n \<noteq> 0" using e by (auto intro: ccontr)
  show ?thesis
  proof (cases "n < 256")
    case True
    have "mapped_page k i n = n" using True by (simp only: mapped_page_def D(5) [OF True]) simp
    then show ?thesis using D(6) [OF True e] space_pages_owner [OF I j xj(1)] by auto
  next
    case False
    then have l: "256 \<le> n" "n < 768" using D(8) n nz by (auto simp: not_less intro: ccontr)
    show ?thesis
    proof (cases "i = j")
      case True
      then show ?thesis using D(9) [unfolded distinct_space_pages] l nz x by blast
    next
      case False
      show ?thesis by (rule private_of_one [OF I i j False mapped_in_pages [OF l nz] xj(2,3)])
    qed
  qed
qed

lemma isolated_apart: "isolated k \<Longrightarrow> spaces_apart k"
  unfolding spaces_apart_def
proof (intro conjI allI impI; elim conjE)
  fix i j n m
  assume "isolated k" "active k i" "active k j" "n < 1024" "m < 1024" "(i, n) \<noteq> (j, m)" "n \<noteq> CONSOLE_PAGE"
    "entry k i n AND 7 = 7" "entry k j m AND PTE_U \<noteq> 0"
  then show "mapped_page k i n \<noteq> mapped_page k j m" by (intro writable_apart_user)
qed (use table_unreachable in blast)+

text \<open>
  C1: From a kernel whose address spaces are apart, every state that writes of the running process
  and interrupts reach has its address spaces apart: a page that a process can write, the console
  apart, no other process can access, no process can access a page directory or a page table, every
  page that is mapped is in use, and its reference count covers the processes that share it. The
  steps are restricted by \<open>call_ok\<close>, a guard on the processes that the kernel does not check: a
  \<open>sys_page_alloc\<close> is for a page address in the process's own half, and no reference count is 127,
  the largest \<open>int8_t\<close>, at a \<open>fork\<close>. Without it the claim is false.
\<close>

theorem isolation_invariant:
  assumes "reaches (kernel_step L D) k0 k" "isolated k0" "buffer_ok L k0" "running k0"
  shows "isolated k \<and> spaces_apart k \<and> running k"
proof -
  have "good L k" using assms by (intro sep.reaches_inv [OF assms(1)]) (simp add: good_def)
  then show ?thesis using isolated_apart by (auto simp: good_def)
qed

theorem isolation_invariant_witness:
  "\<exists>m. lone_space m 8 9 10 \<and> lone_space m 11 12 13
     \<and> isolated ((two_processes m)\<lparr>memory := m(page_addr 10 := 1)\<rparr>)
     \<and> spaces_apart ((two_processes m)\<lparr>memory := m(page_addr 10 := 1)\<rparr>)"
proof -
  obtain m where m: "lone_space m 8 9 10" "lone_space m 11 12 13" "good two_linked (two_processes m)"
    using two_processes_good by blast
  have "reaches (kernel_step two_linked no_devices) (two_processes m) ((two_processes m)\<lparr>memory := m(page_addr 10 := 1)\<rparr>)"
    by (rule reaches_step, rule reaches_start, rule two_processes_write [OF m(1)])
  from isolation_invariant [OF this] m show ?thesis by (auto simp: good_def)
qed

section \<open>A process that waits\<close>

text \<open>
  C3: While a process does not run, whatever the other processes write and whatever calls within
  the guard \<open>call_ok\<close> they make, exits and forks included, it keeps its place in the process table
  with its registers, all its page table entries and every byte of the pages that its own half of
  the address space maps: its program, its heap and its stack. The console is shared.
\<close>

theorem waiting_process_kept:
  assumes "waits (kernel_step L D) (\<lambda>k j. current k = Some j) j k0 k"
    and "isolated k0" "buffer_ok L k0" "running k0" "active k0 j"
  shows "processes k ! j = processes k0 ! j
    \<and> (\<forall>n < 1024. entry k j n = entry k0 j n)
    \<and> (\<forall>n. 256 \<le> n \<and> n < 768 \<and> entry k0 j n \<noteq> 0 \<longrightarrow> agree (page (mapped_page k0 j n)) (memory k0) (memory k))"
proof -
  have "good L k0" using assms(2-4) by (simp add: good_def)
  from sep.waits_view [OF assms(1) this assms(5)] have kp: "left_alone k0 k j" by simp
  have "entry k j n = entry k0 j n" if "n < 1024" for n
    by (rule same_entries(2) [OF isolatedD(6) [OF assms(2,5)]])
      (use kp that in \<open>simp_all add: left_alone_def space_pages_def\<close>)
  moreover have "agree (page (mapped_page k0 j n)) (memory k0) (memory k)"
    if "256 \<le> n" "n < 768" "entry k0 j n \<noteq> 0" for n
    using kp mapped_in_pages [OF that] by (simp add: left_alone_def)
  ultimately show ?thesis using kp by (simp add: left_alone_def)
qed

theorem waiting_process_kept_witness:
  "\<exists>m. lone_space m 11 12 13 \<and> agree (page 13) m (m(page_addr 10 := 1))
     \<and> processes ((two_processes m)\<lparr>memory := m(page_addr 10 := 1)\<rparr>) ! 2 = processes (two_processes m) ! 2"
proof -
  obtain m where m: "lone_space m 8 9 10" "lone_space m 11 12 13" "good two_linked (two_processes m)"
    using two_processes_good by blast
  let ?k = "two_processes m" and ?k' = "(two_processes m)\<lparr>memory := m(page_addr 10 := 1)\<rparr>"
  have n: "13 < NPAGES" by (simp add: NPAGES_def)
  have ne: "current ?k \<noteq> Some 2" by (simp add: two_processes_simps)
  have w: "waits (kernel_step two_linked no_devices) (\<lambda>k j. current k = Some j) 2 ?k ?k'"
    by (rule waits_step, rule waits_start, rule ne, rule two_processes_write [OF m(1)])
  have "pte m (page_addr 11) 256 = page_addr 13 OR 7" using m(2) by (simp add: lone_space_def)
  then have e: "entry ?k 2 256 = page_addr 13 OR 7" by (simp only: entry_def two_processes_simps proc.simps)
  have x: "mapped_page ?k 2 256 = 13" unfolding mapped_page_def e entry_parts [OF n] by (rule refl)
  have nz: "entry ?k 2 256 \<noteq> 0" using entry_parts(3) [OF n] e by auto
  have g: "isolated ?k" "buffer_ok two_linked ?k" "running ?k" "active ?k 2"
    using m(3) by (simp_all add: good_def two_active)
  note r = waiting_process_kept [OF w g]
  have "agree (page 13) (memory ?k) (memory ?k')" using conjunct2 [OF conjunct2 [OF r], rule_format, of 256] nz x by simp
  moreover have "processes ?k' ! 2 = processes ?k ! 2" by (rule conjunct1 [OF r])
  ultimately show ?thesis using m(2) by (intro exI [of _ m]) (simp add: two_processes_simps)
qed

end
