(* ===== verification/KernelSetup.thy ===== *)
theory KernelSetup
  imports KernelApart
begin

text \<open>
  A process in construction: what the program loader does keeps the address spaces of the
  other processes apart from the one it builds, and the kernel's own pages as they were.
\<close>

section \<open>A process in construction\<close>

text \<open>The process is not runnable yet; its address space is judged as if it were.\<close>

definition as_active :: "nat \<Rightarrow> 'd kernel \<Rightarrow> 'd kernel" where
  "as_active i = update_proc i (\<lambda>q. q\<lparr>p_state := P_RUNNABLE\<rparr>)"

definition exact :: "'d kernel \<Rightarrow> bool" where
  "exact k \<longleftrightarrow> list_all (\<lambda>p. refcount p = 0 \<longrightarrow> owner p = 0) (pageinfo k)"

definition loading :: "nat \<Rightarrow> 'd kernel \<Rightarrow> bool" where
  "loading i k \<longleftrightarrow> isolated (as_active i k) \<and> 0 < i \<and> i < NPROC \<and> exact k"

text \<open>The pages of the kernel's image and stack.\<close>

definition kernel_area :: "'d kernel \<Rightarrow> nat set" where
  "kernel_area k = (\<Union>x \<in> {x. x < NPAGES \<and> sint (owner (pageinfo k ! x)) = PO_KERNEL}. page x)"

definition kernel_same :: "'d kernel \<Rightarrow> 'd kernel \<Rightarrow> bool" where
  "kernel_same k k' \<longleftrightarrow> kernel_kept k k' \<and> agree (kernel_area k) (memory k) (memory k')"

text \<open>What the loader may change: pages from the process's half on, of the process in construction.\<close>

definition load_step :: "nat \<Rightarrow> 'd kernel \<Rightarrow> 'd kernel \<Rightarrow> bool" where
  "load_step i k k' \<longleftrightarrow> loading i k' \<and> kernel_same k k' \<and> processes k' = processes k \<and> current k' = current k
     \<and> (\<forall>c < 256. used k' c \<longleftrightarrow> used k c)"

lemma as_active_simps [simp]:
  "memory (as_active i k) = memory k" "pageinfo (as_active i k) = pageinfo k" "current (as_active i k) = current k"
  "length (processes (as_active i k)) = length (processes k)"
  by (simp_all add: as_active_def update_proc_def)

lemma as_active_proc:
  "p_pid (processes (as_active i k) ! j) = p_pid (processes k ! j)"
  "p_pagedir (processes (as_active i k) ! j) = p_pagedir (processes k ! j)"
  "p_registers (processes (as_active i k) ! j) = p_registers (processes k ! j)"
  by (cases "i < length (processes k)"; cases "j = i"; simp add: as_active_def update_proc_def list_update_beyond)+

lemma as_active_space [simp]:
  "entry (as_active i k) j = entry k j" "dir_page (as_active i k) j = dir_page k j"
  "table_page (as_active i k) j = table_page k j" "mapped_page (as_active i k) j = mapped_page k j"
  "owned (as_active i k) = owned k" "used (as_active i k) = used k"
  "private_entry (as_active i k) j = private_entry k j" "shared_entry (as_active i k) j = shared_entry k j"
  by (auto simp: fun_eq_iff entry_def dir_page_def table_page_def mapped_page_def owned_def used_def private_entry_def
      shared_entry_def as_active_proc)

lemma loadingD:
  assumes "loading i k"
  shows "isolated (as_active i k)" "0 < i" "i < NPROC" "exact k" "active (as_active i k) i"
    "i < length (processes k)"
proof -
  show a: "isolated (as_active i k)" "0 < i" "i < NPROC" "exact k" using assms by (simp_all add: loading_def)
  show l: "i < length (processes k)" using isolatedD(2) [OF a(1)] a(3) by simp
  show "active (as_active i k) i" using a l by (simp add: active_def as_active_def update_proc_def)
qed

lemma kernel_area_mono: "kernel_kept k k' \<Longrightarrow> kernel_area k \<subseteq> kernel_area k'"
  by (auto simp: kernel_area_def kernel_kept_def PO_KERNEL_def)

lemma kernel_kept_trans: "kernel_kept k k1 \<Longrightarrow> kernel_kept k1 k2 \<Longrightarrow> kernel_kept k k2"
  by (simp add: kernel_kept_def)

lemma kernel_same_refl [simp]: "kernel_same k k"
  by (simp add: kernel_same_def kernel_kept_refl agree_refl)

lemma kernel_same_trans:
  assumes "kernel_same k k1" "kernel_same k1 k2"
  shows "kernel_same k k2"
  using assms kernel_kept_trans agree_trans agree_subset [OF _ kernel_area_mono] by (metis kernel_same_def)

lemma load_step_refl: "loading i k \<Longrightarrow> load_step i k k"
  by (simp add: load_step_def)

lemma load_step_trans: "load_step i k k1 \<Longrightarrow> load_step i k1 k2 \<Longrightarrow> load_step i k k2"
  using kernel_same_trans by (auto simp: load_step_def)


section \<open>A page for the process\<close>

text \<open>A page of the program, mapped where it is.\<close>

definition loaded :: "nat \<Rightarrow> 'd kernel \<Rightarrow> nat \<Rightarrow> bool" where
  "loaded i k n \<longleftrightarrow> n < NPAGES \<and> entry k i n = page_addr n OR 7 \<and> owned k i n"

lemma own_pages_kernel:
  assumes "length (pageinfo k) = NPAGES" "x < NPAGES" "owned k i x" "0 < i" "i < NPROC"
  shows "page x \<inter> kernel_area k = {}"
proof -
  have o: "0 < sint (owner (pageinfo k ! x))" using assms(3,4) sint_slot [OF assms(5)] by (simp add: owned_def)
  have "page x \<inter> page y = {}" if y: "y < NPAGES" "sint (owner (pageinfo k ! y)) = PO_KERNEL" for y
  proof -
    have "x \<noteq> y" using o y(2) by (auto simp: PO_KERNEL_def)
    then show ?thesis by (rule page_disjoint [OF assms(2) y(1)])
  qed
  then show ?thesis unfolding kernel_area_def by blast
qed

lemma loading_table:
  assumes "loading i k"
  shows "table_page k i < NPAGES" "owned k i (table_page k i)" "dir_page k i < NPAGES" "owned k i (dir_page k i)"
    "p_pagedir (processes k ! i) = page_addr (dir_page k i)"
    "table_of (memory k) (p_pagedir (processes k ! i)) = page_addr (table_page k i)"
    "wf_dir (memory k) (p_pagedir (processes k ! i))" "length (pageinfo k) = NPAGES" "pages_ok k"
    "p_pid (processes k ! i) = int i"
proof -
  note L = loadingD [OF assms]
  note S = isolatedD(6) [OF L(1,5)]
  show "table_page k i < NPAGES" "owned k i (table_page k i)" "dir_page k i < NPAGES" "owned k i (dir_page k i)"
    "p_pagedir (processes k ! i) = page_addr (dir_page k i)"
    "table_of (memory k) (p_pagedir (processes k ! i)) = page_addr (table_page k i)"
    "wf_dir (memory k) (p_pagedir (processes k ! i))" "p_pid (processes k ! i) = int i"
    using space_isolatedD(1-4) [OF S] space_addresses [OF S] by (simp_all add: as_active_proc)
  show "length (pageinfo k) = NPAGES" "pages_ok k" using isolatedD(1,3) [OF L(1)] by (simp_all add: pages_ok_def)
qed

lemma table_write_kernel:
  assumes "loading i k" "agree (- page (table_page k i)) (memory k) m'"
  shows "agree (kernel_area k) (memory k) m'"
  using agree_subset [OF assms(2)] own_pages_kernel [OF loading_table(8,1,2) [OF assms(1)]] loadingD(2,3) [OF assms(1)]
  by blast

lemma isolated_as_active:
  assumes "isolated K" "pageinfo k' = pageinfo K" "memory k' = memory K" "length (processes k') = length (processes K)"
    and "\<And>j. p_pid (processes k' ! j) = p_pid (processes K ! j)"
    and "\<And>j. p_pagedir (processes k' ! j) = p_pagedir (processes K ! j)"
    and "\<And>j. p_state (processes (as_active i k') ! j) = P_FREE \<longleftrightarrow> p_state (processes K ! j) = P_FREE"
  shows "isolated (as_active i k')"
  by (rule isolated_same [OF assms(1)]; simp add: as_active_proc assms agree_refl)

text \<open>A free page is taken for the process in construction and mapped at page \<open>n\<close>.\<close>

lemma map_new_page:
  assumes L: "loading i k" and n: "256 \<le> n" "n < 768" and c: "c < NPAGES" "\<not> used k c"
    and k': "k' = k\<lparr>pageinfo := (pageinfo k)[c := \<lparr>owner = word_of_nat i, refcount = 1\<rparr>], memory := m'\<rparr>"
    and run: "virtual_memory_map (p_pagedir (processes k ! i)) (page_addr n) (page_addr c) PAGESIZE 7 (memory k) = Some m'"
  shows "loading i k'" "kernel_same k k'" "entry k' i n = page_addr c OR 7" "owned k' i c"
    "\<And>x. x < NPAGES \<Longrightarrow> used k' x \<longleftrightarrow> x = c \<or> used k x"
    "\<And>x. x \<noteq> n \<Longrightarrow> loaded i k x \<Longrightarrow> loaded i k' x"
proof -
  note D = loadingD [OF L] and T = loading_table [OF L]
  let ?K = "as_active i k"
  have n1: "n < 1024" using n by simp
  have "unat (7 :: u32) < 4096" by simp
  then obtain m where m: "virtual_memory_map (p_pagedir (processes k ! i)) (page_addr n) (page_addr c) PAGESIZE 7 (memory k) = Some m"
    "wf_dir m (p_pagedir (processes k ! i))"
    "table_of m (p_pagedir (processes k ! i)) = table_of (memory k) (p_pagedir (processes k ! i))"
    "pte m (p_pagedir (processes k ! i)) n = page_addr c OR 7"
    and ptes: "\<And>j. j < 1024 \<Longrightarrow> j \<noteq> n \<Longrightarrow> pte m (p_pagedir (processes k ! i)) j = pte (memory k) (p_pagedir (processes k ! i)) j"
    and out: "\<And>S. region (table_of (memory k) (p_pagedir (processes k ! i))) 4096 \<inter> S = {} \<Longrightarrow> agree S (memory k) m"
    by (rule map_page [OF T(7) n1 page_at_addr [OF c(1)]]) (rule that)
  have mm: "m = m'" using m(1) run by simp
  note m = m [unfolded mm] and ptes = ptes [unfolded mm] and out = out [unfolded mm]
  have ag: "agree (- page (table_page k i)) (memory k) m'" by (rule out) (simp add: T(6))
  let ?K' = "?K\<lparr>processes := (processes ?K)[i := with_eax (processes ?K ! i) (page_addr c)],
      pageinfo := (pageinfo k)[c := \<lparr>owner = word_of_nat i, refcount = 1\<rparr>], memory := m'\<rparr>"
  have added: "page_added ?K i n c ?K'"
    unfolding page_added_def Let_def using c m(2-4) ptes ag
    by (simp add: as_active_proc T(10) T(6))
  note I = page_added_isolated [OF D(1,5) n added] and pr = page_added_proc [OF D(1,5) added]
  have il: "i < length (processes ?K)" using D(6) by simp
  have pi: "pageinfo k' ! x = (if x = c then \<lparr>owner = word_of_nat i, refcount = 1\<rparr> else pageinfo k ! x)" if "x < NPAGES" for x
    using c(1) T(8) by (simp add: k' nth_list_update)
  have "isolated (as_active i k')"
  proof (rule isolated_as_active [OF I])
    show "p_pid (processes k' ! j) = p_pid (processes ?K' ! j)" "p_pagedir (processes k' ! j) = p_pagedir (processes ?K' ! j)" for j
      using pr(2,3) [of j] by (simp_all add: k' as_active_proc)
    show "p_state (processes (as_active i k') ! j) = P_FREE \<longleftrightarrow> p_state (processes ?K' ! j) = P_FREE" for j
    proof -
      have "processes (as_active i k') = processes ?K" by (simp add: k' as_active_def update_proc_def)
      then show ?thesis using pr(4) [of j] by simp
    qed
  qed (simp_all add: k')
  moreover have "length (pageinfo k') = NPAGES" by (simp add: k' T(8))
  then have "exact k'" using D(4) by (auto simp: exact_def list_all_length T(8) pi)
  ultimately show "loading i k'" using D(2,3) by (simp add: loading_def)
  show u: "\<And>x. x < NPAGES \<Longrightarrow> used k' x \<longleftrightarrow> x = c \<or> used k x"
    using sint_slot [OF D(3)] D(2) by (auto simp: used_def pi)
  have "kernel_kept k k'" using c(2) by (auto simp: kernel_kept_def pi used_def)
  then show "kernel_same k k'" using table_write_kernel [OF L ag] by (simp add: kernel_same_def k')
  show "entry k' i n = page_addr c OR 7" using m(4) by (simp add: entry_def k')
  show "owned k' i c" using c(1) by (simp add: owned_def pi)
  show "loaded i k' x" if "x \<noteq> n" "loaded i k x" for x
  proof -
    have "used k x" using that(2) owned_used D(2,3) by (auto simp: loaded_def)
    then have "x \<noteq> c" using c(2) by blast
    moreover have "x < 1024" using that(2) by (simp add: loaded_def NPAGES_def)
    ultimately show ?thesis using that ptes [of x] by (simp add: loaded_def owned_def pi entry_def k')
  qed
qed


lemma seven: "PTE_P OR PTE_W OR PTE_U = 7" "PTE_P OR PTE_U = 5"
  by (simp_all add: PTE_P_def PTE_W_def PTE_U_def)

lemma not_taken:
  assumes L: "loading i k" and t: "\<not> page_taken addr k"
  shows "addr = page_addr (page_number addr)" "page_number addr < NPAGES" "\<not> used k (page_number addr)"
    "unat addr = 4096 * page_number addr"
proof -
  have a: "addr AND 0xFFF = 0" "addr < MEMSIZE_PHYSICAL" "refcount (pageinfo k ! page_number addr) = 0"
    using t by (simp_all add: page_taken_def not_le)
  have m: "addr AND 0xFFF = take_bit 12 addr" by (simp add: take_bit_eq_mask mask_eq_exp_minus_1)
  have "unat (take_bit 12 addr) = unat addr mod 4096" by (simp add: take_bit_eq_mod unat_mod)
  then have d: "4096 dvd unat addr" using a(1) by (simp add: m mod_eq_0_iff_dvd)
  have l: "unat addr < 0x200000" using a(2) by (simp add: word_less_nat_alt MEMSIZE_PHYSICAL_def)
  have "page_at addr" using d l by (auto simp: page_at_def aligned_def)
  from page_at_number [OF this] show n: "page_number addr < NPAGES" and e: "addr = page_addr (page_number addr)" by blast+
  show "unat addr = 4096 * page_number addr"
  proof -
    have "unat addr = unat (page_addr (page_number addr))" using e by simp
    also have "\<dots> = 4096 * page_number addr" using n by (intro unat_page_addr) (simp add: NPAGES_def)
    finally show ?thesis .
  qed
  show "\<not> used k (page_number addr)"
    using loadingD(4) [OF L] a(3) n loading_table(8) [OF L] by (simp add: exact_def list_all_length used_def)
qed

lemma page_alloc_step:
  assumes L: "loading i k" and a: "0x100000 \<le> unat addr"
    and run: "page_alloc (p_pagedir (processes k ! i)) addr (word_of_int (p_pid (processes k ! i))) k = Some (r, k')" "0 \<le> r"
  obtains n where "256 \<le> n" "n < NPAGES" "addr = page_addr n" "unat addr = 4096 * n" "load_step i k k'" "loaded i k' n"
    "\<And>x. loaded i k x \<Longrightarrow> loaded i k' x"
proof -
  let ?n = "page_number addr"
  note T = loading_table [OF L] and D = loadingD [OF L]
  have t: "\<not> page_taken addr k" using run by (auto simp: page_alloc_def split: if_splits)
  note A = not_taken [OF L t]
  have n: "256 \<le> ?n" "?n < 768" using A(2,4) a by (simp_all add: NPAGES_def)
  have eq: "q\<lparr>refcount := 1, owner := w\<rparr> = \<lparr>owner = w, refcount = 1\<rparr>" for q :: pageinfo_t and w
    by (cases q) simp
  let ?k1 = "k\<lparr>pageinfo := (pageinfo k)[?n := \<lparr>owner = word_of_nat i, refcount = 1\<rparr>]\<rparr>"
  have c: "claim_page addr (word_of_int (p_pid (processes k ! i))) k = ?k1"
    by (simp add: claim_page_def update_page_def eq T(10))
  from run t obtain m' where m: "virtual_memory_map (p_pagedir (processes k ! i)) addr addr PAGESIZE 7 (memory k) = Some m'"
    "k' = ?k1\<lparr>memory := m'\<rparr>"
    by (auto simp: page_alloc_def c update_mem_def seven split: bind_split_asm)
  have k': "k' = k\<lparr>pageinfo := (pageinfo k)[?n := \<lparr>owner = word_of_nat i, refcount = 1\<rparr>], memory := m'\<rparr>" using m(2) by simp
  have run': "virtual_memory_map (p_pagedir (processes k ! i)) (page_addr ?n) (page_addr ?n) PAGESIZE 7 (memory k) = Some m'"
    using m(1) A(1) by simp
  note M = map_new_page [OF L n A(2,3) k' run']
  show thesis
  proof (rule that [OF n(1) A(2,1,4)])
    show "load_step i k k'" using M(1,2,5) n(1) A(2) by (simp add: load_step_def k' NPAGES_def)
    show "loaded i k' ?n" using M(3,4) A(2) by (simp add: loaded_def)
    show "loaded i k' x" if "loaded i k x" for x
    proof -
      have "used k x" using that owned_used D(2,3) by (auto simp: loaded_def)
      then have "x \<noteq> ?n" using A(3) by blast
      then show ?thesis by (rule M(6) [OF _ that])
    qed
  qed
qed

lemma load_step_entry_same:
  assumes "load_step i k k'"
  shows "p_pagedir (processes k' ! i) = p_pagedir (processes k ! i)" "p_pid (processes k' ! i) = p_pid (processes k ! i)"
  using assms by (simp_all add: load_step_def)

text \<open>The first loop of the loader.\<close>

lemma alloc_pages_step:
  "alloc_pages pd pid va end_mem k = Some y \<Longrightarrow> loading i k \<Longrightarrow> pd = p_pagedir (processes k ! i) \<Longrightarrow>
    pid = p_pid (processes k ! i) \<Longrightarrow> 0x100000 \<le> unat va \<Longrightarrow> y = (r, k') \<Longrightarrow> 0 \<le> r \<Longrightarrow>
    load_step i k k' \<and> (\<forall>x. loaded i k x \<longrightarrow> loaded i k' x)
      \<and> (\<forall>n. unat va \<le> 4096 * n \<and> 4096 * n < unat end_mem \<longrightarrow> loaded i k' n)"
proof (induction arbitrary: r k' rule: alloc_pages.raw_induct [rotated, consumes 1])
  case (1 f pd pid va end_mem k y)
  show ?case
  proof (cases "va < end_mem")
    case False
    then have "k' = k" using 1 by simp
    moreover have "unat end_mem \<le> unat va" using False by (simp add: word_less_nat_alt not_less)
    ultimately show ?thesis using load_step_refl [OF 1(3)] by auto
  next
    case True
    then obtain r1 k1 where a: "page_alloc pd va (word_of_int pid) k = Some (r1, k1)"
      "(if r1 < 0 then Some (- 1, k1) else f pd pid (va + PAGESIZE) end_mem k1) = Some y"
      using 1(2) by (auto split: bind_split_asm)
    have r1: "0 \<le> r1" using a(2) 1(7,8) by (auto split: if_splits)
    from a(1) have a1: "page_alloc (p_pagedir (processes k ! i)) va (word_of_int (p_pid (processes k ! i))) k = Some (r1, k1)"
      by (simp add: 1(4,5))
    obtain n where n: "256 \<le> n" "n < NPAGES" "va = page_addr n" "unat va = 4096 * n" "load_step i k k1" "loaded i k1 n"
      "\<And>x. loaded i k x \<Longrightarrow> loaded i k1 x"
      by (rule page_alloc_step [OF 1(3,6) a1 r1]) (rule that)
    have "va + PAGESIZE = page_addr (Suc n)" by (simp add: n(3) PAGESIZE_def)
    moreover have "unat (page_addr (Suc n)) = 4096 * Suc n" using n(2) by (intro unat_page_addr) (simp add: NPAGES_def)
    ultimately have next_va: "unat (va + PAGESIZE) = 4096 * Suc n" by simp
    have rest: "f pd pid (va + PAGESIZE) end_mem k1 = Some y" using a(2) r1 by simp
    have L1: "loading i k1" "pd = p_pagedir (processes k1 ! i)" "pid = p_pid (processes k1 ! i)"
      using n(5) 1(4,5) by (simp_all add: load_step_def)
    have "load_step i k1 k' \<and> (\<forall>x. loaded i k1 x \<longrightarrow> loaded i k' x)
        \<and> (\<forall>n. unat (va + PAGESIZE) \<le> 4096 * n \<and> 4096 * n < unat end_mem \<longrightarrow> loaded i k' n)"
      by (rule 1(1) [OF rest L1 _ 1(7,8)]) (use next_va n(1) in simp)
    then have R: "load_step i k1 k'" "\<And>x. loaded i k1 x \<Longrightarrow> loaded i k' x"
      "\<And>m. 4096 * Suc n \<le> 4096 * m \<Longrightarrow> 4096 * m < unat end_mem \<Longrightarrow> loaded i k' m"
      by (simp_all add: next_va)
    have "loaded i k' m" if m: "unat va \<le> 4096 * m" "4096 * m < unat end_mem" for m
    proof (cases "m = n")
      case True
      then show ?thesis using R(2) n(6) by blast
    next
      case False
      then have "4096 * Suc n \<le> 4096 * m" using m(1) n(4) by simp
      then show ?thesis by (rule R(3) [OF _ m(2)])
    qed
    then show ?thesis using load_step_trans [OF n(5) R(1)] R(2) n(7) by blast
  qed
qed


section \<open>A page is made read-only\<close>

lemma loaded_private:
  assumes "loaded i k n"
  shows "private_entry k i n" "mapped_page k i n = n" "\<not> shared_entry k i n" "entry k i n \<noteq> 0" "n < NPAGES"
proof -
  have n: "n < NPAGES" "entry k i n = page_addr n OR 7" "owned k i n" using assms by (simp_all add: loaded_def)
  then show p: "private_entry k i n" "n < NPAGES" by (auto simp: private_entry_def)
  show "mapped_page k i n = n" by (simp only: mapped_page_def n(2) entry_parts [OF n(1)])
  show "\<not> shared_entry k i n" "entry k i n \<noteq> 0" using p(1) by (auto elim: private_entryE)
qed

lemma protect_page:
  assumes L: "loading i k" and n: "256 \<le> n" "loaded i k n"
    and run: "virtual_memory_map (p_pagedir (processes k ! i)) (page_addr n) (page_addr n) PAGESIZE 5 (memory k) = Some m'"
  shows "load_step i k (k\<lparr>memory := m'\<rparr>)" "\<And>x. x \<noteq> n \<Longrightarrow> loaded i k x \<Longrightarrow> loaded i (k\<lparr>memory := m'\<rparr>) x"
proof -
  note D = loadingD [OF L] and T = loading_table [OF L] and P = loaded_private [OF n(2)]
  let ?K = "as_active i k" and ?pd = "p_pagedir (processes k ! i)"
  let ?K' = "?K\<lparr>memory := m'\<rparr>"
  note I = isolatedD [OF D(1)] and S = isolatedD(6) [OF D(1,5)]
  have n1: "n < 1024" "n < 768" using P(5) by (simp_all add: NPAGES_def)
  have "unat (5 :: u32) < 4096" by simp
  then obtain m where m: "virtual_memory_map ?pd (page_addr n) (page_addr n) PAGESIZE 5 (memory k) = Some m"
    "wf_dir m ?pd" "table_of m ?pd = table_of (memory k) ?pd" "pte m ?pd n = page_addr n OR 5"
    and ptes: "\<And>j. j < 1024 \<Longrightarrow> j \<noteq> n \<Longrightarrow> pte m ?pd j = pte (memory k) ?pd j"
    and out: "\<And>S. region (table_of (memory k) ?pd) 4096 \<inter> S = {} \<Longrightarrow> agree S (memory k) m"
    by (rule map_page [OF T(7) n1(1) page_at_addr [OF P(5)]]) (rule that)
  have mm: "m = m'" using m(1) run by simp
  note m = m [unfolded mm] and ptes = ptes [unfolded mm] and out = out [unfolded mm]
  have ag: "agree (- page (table_page k i)) (memory k) m'" by (rule out) (simp add: T(6))
  have pd: "p_pagedir (processes ?K' ! j) = p_pagedir (processes k ! j)" "p_pid (processes ?K' ! j) = p_pid (processes k ! j)" for j
    by (simp_all add: as_active_proc)
  have e: "entry ?K' i j = (if j = n then page_addr n OR 5 else entry ?K i j)" if "j < 1024" for j
    using m(4) ptes [OF that] by (simp add: entry_def pd) (simp add: as_active_proc)
  have sh: "shared_entry ?K' i j \<longleftrightarrow> j = n \<or> shared_entry ?K i j" if "j < 1024" for j
    using P(5) by (auto simp: shared_entry_def e [OF that])
  have nz: "entry ?K' i j \<noteq> 0 \<longleftrightarrow> entry ?K i j \<noteq> 0" and mp: "mapped_page ?K' i j = mapped_page ?K i j" if "j < 1024" for j
  proof -
    have "shared_entry ?K' i n" using sh [OF n1(1)] by blast
    from shared_entryD(3,4) [OF this] show "entry ?K' i j \<noteq> 0 \<longleftrightarrow> entry ?K i j \<noteq> 0" "mapped_page ?K' i j = mapped_page ?K i j"
      using P(2,4) e [OF that] by (cases "j = n"; simp add: mapped_page_def)+
  qed
  have d: "dir_page ?K' i = dir_page ?K i" "table_page ?K' i = table_page ?K i"
    by (simp_all add: dir_page_def table_page_def as_active_proc m(3))
  have sp: "space_pages ?K' i = space_pages ?K i"
  proof -
    have f: "filter (\<lambda>j. entry ?K' i j \<noteq> 0) [256..<768] = filter (\<lambda>j. entry ?K i j \<noteq> 0) [256..<768]"
      by (intro filter_cong) (use nz in auto)
    have "map (mapped_page ?K' i) (filter (\<lambda>j. entry ?K i j \<noteq> 0) [256..<768]) =
        map (mapped_page ?K i) (filter (\<lambda>j. entry ?K i j \<noteq> 0) [256..<768])"
      by (rule map_cong [OF refl]) (rule mp, simp)
    then show ?thesis unfolding space_pages_def d f by (simp only:)
  qed
  have pv: "private_entry ?K' i j" if "private_entry ?K i j" "j \<noteq> n" "j < 1024" for j
    using that by (auto simp: private_entry_def e owned_def)
  have self: "space_isolated ?K' i"
  proof -
    note S1 = space_isolatedD [OF S]
    have "entry ?K' i j = 0 \<or> private_entry ?K' i j \<or> shared_entry ?K' i j" if "256 \<le> j" "j < 768" for j
      using S1(7) [OF that] that pv [of j] sh [of j] nz [of j] by (cases "j = n") auto
    then show ?thesis using S1(1,3-6,8,9) m(2) n(1) n1
      unfolding space_isolated_def d sp by (auto simp: pd as_active_proc e owned_def)
  qed
  have other: "space_isolated ?K' j" "\<And>x. x < 1024 \<Longrightarrow> shared_entry ?K' j x = shared_entry ?K j x"
    if j: "active ?K j" "j \<noteq> i" for j
  proof -
    have tns: "\<not> (256 \<le> table_page ?K i \<and> shared_entry ?K i (table_page ?K i))" using shared_not_private(2) [OF S] by blast
    have "owned ?K i (table_page ?K i)" using T(2) by simp
    note apart = private_of_one [OF D(1) j(1) D(5) j(2) _ this tns]
    have agj: "agree (page x) (memory ?K) (memory ?K')" if x: "x \<in> set (space_pages ?K j)" for x
    proof -
      have "x < NPAGES" by (rule space_pages_cases(1) [OF I(6) [OF j(1)] x])
      then have "page x \<inter> page (table_page k i) = {}" using apart [OF x] T(1) by (intro page_disjoint) auto
      then have "page x \<subseteq> - page (table_page k i)" by blast
      then show ?thesis using agree_subset [OF ag] by simp
    qed
    have "agree (page (dir_page ?K j)) (memory ?K) (memory ?K')" "agree (page (table_page ?K j)) (memory ?K) (memory ?K')"
      by (rule agj; simp add: space_pages_def)+
    from space_isolated_frame [OF I(6) [OF j(1)] _ _ this]
    show "space_isolated ?K' j" "\<And>x. x < 1024 \<Longrightarrow> shared_entry ?K' j x = shared_entry ?K j x"
      by (simp_all add: owned_def)
  qed
  have act: "active ?K' j = active ?K j" for j by (simp add: active_def)
  have "sharing_ok ?K' x" if x: "x < NPAGES" for x
  proof -
    have x1: "x < 1024" using x by (simp add: NPAGES_def)
    show ?thesis
    proof (cases "x = n")
      case False
      then have "shared_entry ?K' j x = shared_entry ?K j x" if "active ?K j" for j
        using sh [OF x1] other(2) [OF that _ x1] by (cases "j = i") auto
      then have "sharers ?K' x \<subseteq> sharers ?K x" by (auto simp: sharers_def act)
      then show ?thesis by (rule sharing_ok_mono [OF I(7) [OF x]]) (simp_all add: act)
    next
      case True
      have o: "owned ?K i n" using n(2) by (simp add: loaded_def)
      have "j \<notin> sharers ?K n" if "j \<noteq> i" for j
        using shared_not_owned [OF I(7) [OF P(5)] _ D(5)] that o by blast
      then have "sharers ?K' n \<subseteq> {i}" using other(2) [OF _ _ n1(1)] by (auto simp: sharers_def act)
      then have "card (insert i (sharers ?K' n)) \<le> card {i}" by (intro card_mono) auto
      then have "int (card (insert i (sharers ?K' n))) \<le> 1" by simp
      moreover have "pageinfo ?K' ! n = \<lparr>owner = word_of_nat i, refcount = 1\<rparr>" using o by (simp add: owned_def)
      ultimately show ?thesis using D(5) unfolding sharing_ok_def True by (intro disjI2 exI [of _ i]) (simp add: act)
    qed
  qed
  then have "isolated ?K'"
    using I(1,2,4,5) self other(1) by (intro isolatedI) (auto simp: act pages_ok_def owner_ok_def)
  moreover have "as_active i (k\<lparr>memory := m'\<rparr>) = ?K'" by (simp add: as_active_def update_proc_def)
  ultimately have "isolated (as_active i (k\<lparr>memory := m'\<rparr>))" by (simp only:)
  then have "loading i (k\<lparr>memory := m'\<rparr>)" using D(2-4) by (simp add: loading_def exact_def)
  moreover have "kernel_same k (k\<lparr>memory := m'\<rparr>)"
    using table_write_kernel [OF L ag] by (simp add: kernel_same_def kernel_kept_refl)
  ultimately show "load_step i k (k\<lparr>memory := m'\<rparr>)" by (simp add: load_step_def used_def)
  show "loaded i (k\<lparr>memory := m'\<rparr>) x" if "x \<noteq> n" "loaded i k x" for x
  proof -
    have "x < 1024" using that(2) by (simp add: loaded_def NPAGES_def)
    then show ?thesis using that ptes [of x] by (simp add: loaded_def owned_def entry_def)
  qed
qed


lemma protect_pages_step:
  "protect_pages pd flags va end_mem k = Some k' \<Longrightarrow> loading i k \<Longrightarrow> pd = p_pagedir (processes k ! i) \<Longrightarrow>
    0x100000 \<le> unat va \<Longrightarrow> 4096 dvd unat va \<Longrightarrow>
    (\<And>n. unat va \<le> 4096 * n \<Longrightarrow> 4096 * n < unat end_mem \<Longrightarrow> loaded i k n) \<Longrightarrow> load_step i k k'"
proof (induction rule: protect_pages.raw_induct [rotated, consumes 1])
  case (1 f pd flags va end_mem k k')
  note loads = 1(7)
  show ?case
  proof (cases "va < end_mem")
    case False
    then have "k' = k" using 1(2) by simp
    then show ?thesis using load_step_refl [OF 1(3)] by simp
  next
    case True
    obtain n where n: "unat va = 4096 * n" using 1(6) by (elim dvdE)
    have l: "loaded i k n" using loads [of n] n True by (simp add: word_less_nat_alt)
    have n1: "256 \<le> n" "n < NPAGES" using n 1(5) loaded_private(5) [OF l] by simp_all
    have va: "va = page_addr n"
    proof (rule unsigned_word_eqI)
      show "unat va = unat (page_addr n)" using n n1(2) by (simp add: unat_page_addr NPAGES_def)
    qed
    obtain k1 where k1: "(if flags AND ELF_PFLAG_WRITE = 0
        then update_mem (virtual_memory_map pd va va PAGESIZE (PTE_P OR PTE_U)) k else Some k) = Some k1"
      "f pd flags (va + PAGESIZE) end_mem k1 = Some k'"
      using 1(2) True by (auto split: bind_split_asm)
    have s: "load_step i k k1 \<and> (\<forall>x. x \<noteq> n \<longrightarrow> loaded i k x \<longrightarrow> loaded i k1 x)"
    proof (cases "flags AND ELF_PFLAG_WRITE = 0")
      case True
      then obtain m' where m': "virtual_memory_map (p_pagedir (processes k ! i)) (page_addr n) (page_addr n) PAGESIZE 5 (memory k) = Some m'"
        "k1 = k\<lparr>memory := m'\<rparr>" using k1(1) by (auto simp: update_mem_def seven va 1(4))
      show ?thesis using protect_page [OF 1(3) n1(1) l m'(1)] m'(2) by blast
    next
      case False
      then show ?thesis using k1(1) load_step_refl [OF 1(3)] by simp
    qed
    have "va + PAGESIZE = page_addr (Suc n)" by (simp add: va PAGESIZE_def)
    moreover have "unat (page_addr (Suc n)) = 4096 * Suc n" using n1(2) by (intro unat_page_addr) (simp add: NPAGES_def)
    ultimately have next_va: "unat (va + PAGESIZE) = 4096 * Suc n" by simp
    have "load_step i k1 k'"
    proof (rule 1(1) [OF k1(2)])
      show "loading i k1" "pd = p_pagedir (processes k1 ! i)" using s 1(4) by (simp_all add: load_step_def)
      show "0x100000 \<le> unat (va + PAGESIZE)" "4096 dvd unat (va + PAGESIZE)" using next_va n1(1) by simp_all
      show "loaded i k1 m" if "unat (va + PAGESIZE) \<le> 4096 * m" "4096 * m < unat end_mem" for m
      proof -
        have "m \<noteq> n" "unat va \<le> 4096 * m" using that(1) next_va n by simp_all
        then show ?thesis using s loads [OF _ that(2)] by blast
      qed
    qed
    then show ?thesis using s load_step_trans by blast
  qed
qed

section \<open>Writing the program\<close>

lemma lookup_high:
  assumes wf: "wf_dir m pd" and j: "1024 \<le> j" "j < 1048576"
  shows "virtual_memory_lookup m pd (page_addr j) = Some 0"
proof -
  have i: "0 < j div 1024" "j div 1024 < 1024" using j by auto
  have "unat (page_addr j) = 4096 * j" using j(2) by (rule unat_page_addr)
  then have "unat (drop_bit 22 (page_addr j)) = 4096 * j div 4194304" by (simp add: unat_drop_bit)
  also have "\<dots> = j div 1024" using div_mult_mult1 [of 4096 j 1024] by simp
  finally have "word_of_nat (unat (drop_bit 22 (page_addr j))) = (word_of_nat (j div 1024) :: u32)" by (rule arg_cong)
  then have "drop_bit 22 (page_addr j) = word_of_nat (j div 1024)" by simp
  moreover have "load32 m (pd + 4 * word_of_nat (j div 1024)) = 0" "page_at pd" using wf i by (simp_all add: wf_dir_def)
  ultimately show ?thesis using kread_index [OF _ i(2), of pd m] by (simp add: virtual_memory_lookup_def)
qed

text \<open>Pages mapped to themselves, writable and in the process's half, are the process's own.\<close>

lemma writable_low:
  assumes wf: "wf_dir m pd" and w: "writable_identity m pd a n" and n: "n \<noteq> 0"
  shows "j \<in> set [unat a div 4096 ..< (unat a + unat n + 4095) div 4096] \<Longrightarrow> j < 1024 \<and>
      (case virtual_memory_lookup m pd (page_addr j) of None \<Rightarrow> False
       | Some e \<Rightarrow> e AND (PTE_P OR PTE_W) = PTE_P OR PTE_W \<and> PTE_ADDR e = page_addr j)"
    and "unat a + unat n \<le> 0x400000"
proof -
  let ?r = "[unat a div 4096 ..< (unat a + unat n + 4095) div 4096]"
  have ok: "case virtual_memory_lookup m pd (page_addr j) of None \<Rightarrow> False
      | Some e \<Rightarrow> e AND (PTE_P OR PTE_W) = PTE_P OR PTE_W \<and> PTE_ADDR e = page_addr j" if "j \<in> set ?r" for j
    using w n that unfolding writable_identity_def list_all_iff by blast
  have low: "j < 1024" if j: "j \<in> set ?r" for j
  proof (rule ccontr)
    assume "\<not> j < 1024"
    moreover have "unat a div 4096 < 1048576" using unat_lt2p [of a] by (simp add: less_mult_imp_div_less)
    ultimately have h: "max 1024 (unat a div 4096) \<in> set ?r" "1024 \<le> max 1024 (unat a div 4096)"
      "max 1024 (unat a div 4096) < 1048576" using j by auto
    then show False using ok [OF h(1)] lookup_high [OF wf h(2,3)] by (simp add: PTE_P_def PTE_W_def)
  qed
  then show "j \<in> set ?r \<Longrightarrow> j < 1024 \<and> (case virtual_memory_lookup m pd (page_addr j) of None \<Rightarrow> False
       | Some e \<Rightarrow> e AND (PTE_P OR PTE_W) = PTE_P OR PTE_W \<and> PTE_ADDR e = page_addr j)" using ok by blast
  show "unat a + unat n \<le> 0x400000"
  proof (rule ccontr)
    assume big: "\<not> unat a + unat n \<le> 0x400000"
    moreover have "0 < unat n" using n by (simp add: unat_gt_0)
    ultimately have "(unat a + unat n - 1) div 4096 \<in> set ?r"
    proof -
      have "unat a div 4096 \<le> (unat a + unat n - 1) div 4096" using \<open>0 < unat n\<close> by (intro div_le_mono) simp
      moreover have "(unat a + unat n - 1) div 4096 < (unat a + unat n + 4095) div 4096" using \<open>0 < unat n\<close> by linarith
      ultimately show ?thesis by simp
    qed
    from low [OF this] show False using big by linarith
  qed
qed

lemma writable_own:
  assumes L: "loading i k" and a: "0x100000 \<le> unat a"
    and w: "writable_identity (memory k) (p_pagedir (processes k ! i)) a n" and x: "x \<in> region a (unat n)"
  shows "\<exists>j. j < NPAGES \<and> x \<in> page j \<and> entry k i j AND 7 = 7 \<and> mapped_page k i j = j \<and> owned k i j"
proof -
  note D = loadingD [OF L] and T = loading_table [OF L]
  let ?pd = "p_pagedir (processes k ! i)" and ?r = "[unat a div 4096 ..< (unat a + unat n + 4095) div 4096]"
  have xr: "unat a \<le> x" "x < unat a + unat n" using x by (simp_all add: region_def)
  then have n: "n \<noteq> 0" by auto
  let ?j = "x div 4096"
  have j: "?j \<in> set ?r"
  proof -
    have "unat a div 4096 \<le> ?j" using xr(1) by (rule div_le_mono)
    moreover have "?j < (unat a + unat n + 4095) div 4096" using xr(2) by linarith
    ultimately show ?thesis by simp
  qed
  note low = writable_low(1) [OF T(7) w n j]
  then have jl: "?j < 1024" and ok: "case virtual_memory_lookup (memory k) ?pd (page_addr ?j) of None \<Rightarrow> False
      | Some e \<Rightarrow> e AND (PTE_P OR PTE_W) = PTE_P OR PTE_W \<and> PTE_ADDR e = page_addr ?j" by blast+
  have h: "256 \<le> ?j" using a xr(1) by linarith
  have lk: "virtual_memory_lookup (memory k) ?pd (page_addr ?j) =
      Some (if entry k i ?j AND PTE_P \<noteq> 0 then entry k i ?j else 0)"
    unfolding entry_def by (rule lookup_page [OF T(7) jl])
  have e: "entry k i ?j AND 3 = 3" "PTE_ADDR (entry k i ?j) = page_addr ?j"
  proof -
    have "entry k i ?j AND PTE_P \<noteq> 0" using ok lk by (auto simp: PTE_P_def PTE_W_def split: if_splits)
    then show "entry k i ?j AND 3 = 3" "PTE_ADDR (entry k i ?j) = page_addr ?j"
      using ok lk by (simp_all add: PTE_P_def PTE_W_def)
  qed
  have nz: "entry k i ?j \<noteq> 0" using e(1) by auto
  note S = isolatedD(6) [OF D(1,5)]
  have "?j < 768" using space_isolatedD(8) [OF S, of ?j] nz jl by (auto simp: not_less intro: ccontr)
  then have "private_entry k i ?j \<or> shared_entry k i ?j" using space_isolatedD(7) [OF S h] nz by simp
  moreover have "\<not> shared_entry k i ?j"
  proof
    assume sh: "shared_entry k i ?j"
    have "(page_addr ?j OR 5) AND 2 = (page_addr ?j AND 2) OR (5 AND 2)"
      by (rule bit_word_eqI) (auto simp: bit_simps)
    moreover have "page_addr ?j AND 2 = (page_addr ?j AND 7) AND 2" by (simp add: and.assoc)
    ultimately have "entry k i ?j AND 2 = 0"
      using shared_entryD(1,2) [OF sh] page_addr_low by simp
    moreover have "(entry k i ?j AND 3) AND 2 = entry k i ?j AND 2" by (simp add: and.assoc)
    ultimately show False using e(1) by simp
  qed
  ultimately obtain c where c: "c < NPAGES" "owned k i c" "mapped_page k i ?j = c" "entry k i ?j AND 7 = 7"
    by (elim disjE private_entryE) blast+
  have "mapped_page k i ?j = ?j"
    using jl by (simp only: mapped_page_def e(2)) simp
  moreover have "x \<in> page ?j"
  proof -
    have "unat (page_addr ?j) = 4096 * ?j" using jl by (intro unat_page_addr) simp
    then show ?thesis by (simp add: region_def)
  qed
  ultimately show ?thesis using c by (intro exI [of _ ?j]) simp
qed


lemma own_write:
  assumes L: "loading i k" and ag: "agree (- W) (memory k) m'"
    and W: "\<And>x. x \<in> W \<Longrightarrow> \<exists>j. j < NPAGES \<and> x \<in> page j \<and> entry k i j AND 7 = 7 \<and> mapped_page k i j = j \<and> owned k i j"
  shows "load_step i k (k\<lparr>memory := m'\<rparr>)" "loaded i k x \<Longrightarrow> loaded i (k\<lparr>memory := m'\<rparr>) x"
proof -
  note D = loadingD [OF L] and T = loading_table [OF L]
  let ?K = "as_active i k" and ?k = "k\<lparr>memory := m'\<rparr>"
  have "W \<subseteq> writable_area ?K i"
  proof
    fix x assume "x \<in> W"
    then obtain j where "j < NPAGES" "x \<in> page j" "entry k i j AND 7 = 7" "mapped_page k i j = j" using W by blast
    then show "x \<in> writable_area ?K i" by (auto simp: writable_area_def NPAGES_def intro!: exI [of _ j])
  qed
  then have ag': "agree (- writable_area ?K i) (memory k) m'" by (intro agree_subset [OF ag]) blast
  have pages: "agree (page (dir_page ?K j)) (memory ?K) m'" "agree (page (table_page ?K j)) (memory ?K) m'" if "active ?K j" for j
    using agree_subset [OF ag' writable_apart [OF D(1,5) that]] by (simp_all add: space_pages_def)
  have K': "as_active i ?k = ?K\<lparr>memory := m'\<rparr>" by (simp add: as_active_def update_proc_def)
  have "isolated (?K\<lparr>memory := m'\<rparr>)" by (rule isolated_same [OF D(1)]; use pages in simp)
  then have "loading i ?k" using D(2-4) unfolding loading_def K' by (simp add: exact_def)
  moreover have "agree (kernel_area k) (memory k) m'"
  proof (rule agree_subset [OF ag])
    show "kernel_area k \<subseteq> - W"
    proof
      fix x assume "x \<in> kernel_area k"
      moreover have "page j \<inter> kernel_area k = {}" if "j < NPAGES" "owned k i j" for j
        using own_pages_kernel [OF T(8) that] D(2,3) by blast
      ultimately show "x \<in> - W" using W by blast
    qed
  qed
  ultimately show "load_step i k ?k" by (simp add: load_step_def kernel_same_def kernel_kept_refl used_def)
  show "loaded i ?k x" if x: "loaded i k x"
  proof -
    have "x < 1024" using x by (simp add: loaded_def NPAGES_def)
    then have "entry (?K\<lparr>memory := m'\<rparr>) i x = entry ?K i x"
      by (rule same_entries(2) [OF isolatedD(6) [OF D(1,5)], rotated 3]) (use pages [OF D(5)] in simp_all)
    then show ?thesis using x by (simp add: loaded_def owned_def entry_def as_active_proc)
  qed
qed


section \<open>Segments and programs\<close>

lemma same_step:
  assumes L: "loading i k" and k': "pageinfo k' = pageinfo k" "memory k' = memory k" "processes k' = processes k"
    "current k' = current k"
  shows "load_step i k k'" "loaded i k' x = loaded i k x"
proof -
  note D = loadingD [OF L]
  have "isolated (as_active i k')"
    by (rule isolated_as_active [OF D(1)]) (simp_all add: k' as_active_proc, simp add: as_active_def update_proc_def k')
  then have "loading i k'" using D(2-4) by (simp add: loading_def exact_def k')
  then show "load_step i k k'"
    by (simp add: load_step_def kernel_same_def kernel_kept_refl used_def k')
  show "loaded i k' x = loaded i k x" by (simp add: loaded_def owned_def entry_def k')
qed

lemma page_floor:
  fixes a :: u32
  shows "unat (a AND NOT (PAGESIZE - 1)) = 4096 * (unat a div 4096)"
proof -
  have "a AND NOT (PAGESIZE - 1) = page_addr (unat a div 4096)"
    by (simp add: page_base) (simp add: PTE_ADDR_def PAGESIZE_def)
  moreover have "unat a div 4096 < 1048576" using unat_lt2p [of a] by (simp add: less_mult_imp_div_less)
  ultimately show ?thesis using unat_page_addr by simp
qed

lemma copyseg_step:
  assumes L: "loading i k" and va: "PROC_START_ADDR \<le> p_va ph"
    and run: "copyseg i ph src k = Some (r, k')" "0 \<le> r"
  shows "load_step i k k'"
proof -
  define va where "va = p_va ph AND NOT (PAGESIZE - 1)"
  define end_file where "end_file = p_va ph + p_filesz ph"
  define end_mem where "end_mem = p_va ph + p_memsz ph"
  let ?pd = "p_pagedir (processes k ! i)"
  have v: "0x100000 \<le> unat va" "4096 dvd unat va"
  proof -
    have "0x100000 \<le> unat (p_va ph)" using va by (simp add: PROC_START_ADDR_def word_le_nat_alt)
    then have "256 \<le> unat (p_va ph) div 4096" by linarith
    then show "0x100000 \<le> unat va" "4096 dvd unat va" unfolding va_def page_floor by simp_all
  qed
  obtain r1 k1 where a: "alloc_pages ?pd (p_pid (processes k ! i)) va end_mem k = Some (r1, k1)"
    "(if r1 < 0 then Some (- 1, k1)
      else do {
       let k = k1\<lparr>control := (?pd, snd (control k1))\<rparr>;
       assertion (writable_identity (memory k) ?pd va (end_file - va));
       assertion (writable_identity (memory k) ?pd end_file (end_mem - end_file));
       let m = memcpy (memory k) va src (end_file - va);
       let m = memset m end_file 0 (end_mem - end_file);
       k \<leftarrow> protect_pages ?pd (p_flags ph) va end_mem (k\<lparr>memory := m\<rparr>);
       Some (0, k) }) = Some (r, k')"
    using run(1) unfolding copyseg_def Let_def va_def [symmetric] end_file_def [symmetric] end_mem_def [symmetric]
    by (auto split: bind_split_asm)
  have r1: "0 \<le> r1" using a(2) run(2) by (auto split: if_splits)
  note al = alloc_pages_step [OF a(1) L refl refl v(1) refl r1]
  define k2 where "k2 = k1\<lparr>control := (?pd, snd (control k1))\<rparr>"
  have L1: "loading i k1" using al by (simp add: load_step_def)
  have s2: "load_step i k1 k2" "loaded i k2 x = loaded i k1 x" for x by (rule same_step [OF L1]; simp add: k2_def)+
  have L2: "loading i k2" using s2(1) by (simp add: load_step_def)
  have pd: "p_pagedir (processes k2 ! i) = ?pd" using al s2(1) by (simp add: load_step_def)
  define m where "m = memset (memcpy (memory k2) va src (end_file - va)) end_file 0 (end_mem - end_file)"
  have b: "writable_identity (memory k2) ?pd va (end_file - va)"
    "writable_identity (memory k2) ?pd end_file (end_mem - end_file)"
    "protect_pages ?pd (p_flags ph) va end_mem (k2\<lparr>memory := m\<rparr>) = Some k'"
    using a(2) r1 unfolding Let_def k2_def [symmetric] m_def [symmetric]
    by (auto simp: assertion_def split: if_splits bind_split_asm)
  note wf = loading_table(7) [OF L2, unfolded pd]
  have ef: "unat va + unat (end_file - va) < 2 ^ 32" "0x100000 \<le> unat end_file"
  proof -
    have "unat va + unat (end_file - va) \<le> 0x400000 \<or> end_file = va" using writable_low(2) [OF wf b(1)] by auto
    then show "unat va + unat (end_file - va) < 2 ^ 32" using unat_lt2p [of va] by auto
    then have "unat end_file = unat va + unat (end_file - va)" using unat_add_small [of va "end_file - va"] by simp
    then show "0x100000 \<le> unat end_file" using v(1) by simp
  qed
  have em: "unat end_file + unat (end_mem - end_file) \<le> 2 ^ 32"
  proof (cases "end_mem - end_file = 0")
    case True
    then show ?thesis using less_imp_le [OF unat_lt2p [of end_file]] by simp
  next
    case False
    then show ?thesis using writable_low(2) [OF wf b(2)] by simp
  qed
  let ?W = "region va (unat (end_file - va)) \<union> region end_file (unat (end_mem - end_file))"
  have ag: "agree (- ?W) (memory k2) m"
  proof -
    have "agree (- ?W) (memory k2) (memcpy (memory k2) va src (end_file - va))"
      by (rule memcpy_outside) (use ef(1) in auto)
    moreover have "agree (- ?W) (memcpy (memory k2) va src (end_file - va)) m"
      unfolding m_def by (rule memset_agree) (use em in auto)
    ultimately show ?thesis by (rule agree_trans)
  qed
  have W: "\<exists>j. j < NPAGES \<and> x \<in> page j \<and> entry k2 i j AND 7 = 7 \<and> mapped_page k2 i j = j \<and> owned k2 i j" if "x \<in> ?W" for x
    using that writable_own [OF L2 v(1), unfolded pd, OF b(1)] writable_own [OF L2 ef(2), unfolded pd, OF b(2)] by blast
  note w = own_write [OF L2 ag W]
  define k3 where "k3 = k2\<lparr>memory := m\<rparr>"
  have k3: "load_step i k2 k3" "loaded i k2 x \<Longrightarrow> loaded i k3 x" for x using w unfolding k3_def by blast+
  have L3: "loading i k3" "p_pagedir (processes k3 ! i) = ?pd" using k3(1) pd by (simp_all add: load_step_def)
  have "load_step i k3 k'"
  proof (rule protect_pages_step [OF b(3) [folded k3_def] L3(1) L3(2) [symmetric] v])
    show "loaded i k3 n" if "unat va \<le> 4096 * n" "4096 * n < unat end_mem" for n
    proof -
      have "loaded i k1 n" using al that by simp
      then have "loaded i k2 n" by (simp only: s2(2))
      then show ?thesis by (rule k3(2))
    qed
  qed
  from load_step_trans [OF load_step_trans [OF load_step_trans [OF conjunct1 [OF al] s2(1)] k3(1)] this]
  show ?thesis .
qed


text \<open>
  The image of a program is part of the kernel's, apart from the kernel's page directory and
  page table; its segments are for the process's half.
\<close>

definition image_area :: "linked \<Rightarrow> nat set" where
  "image_area L = {unat KERNEL_START_ADDR ..< unat (kernel_end L)}
     - region (kernel_pagedir L) 4096 - region (kernel_pagetable0 L) 4096"

definition image_ok :: "linked \<Rightarrow> mem \<Rightarrow> u32 \<Rightarrow> bool" where
  "image_ok L m eh \<longleftrightarrow> (let h = elf_header_at m eh; ph = eh + e_phoff h in
     region eh 52 \<subseteq> image_area L \<and>
     list_all (\<lambda>i. let a = ph + 32 * word_of_nat i; s = elf_program_at m a in
       region a 32 \<subseteq> image_area L \<and> (p_type s = ELF_PTYPE_LOAD \<longrightarrow> PROC_START_ADDR \<le> p_va s)) [0..<unat (e_phnum h)])"

lemma image_area_top:
  assumes "region a (Suc n) \<subseteq> image_area L"
  shows "unat a + Suc n \<le> 2 ^ 32"
proof -
  have "unat a + n \<in> image_area L" using assms by (auto simp: region_def)
  then have "unat a + Suc n \<le> unat (kernel_end L)" by (simp add: image_area_def)
  also have "\<dots> \<le> 2 ^ 32" by (rule less_imp_le) simp
  finally show ?thesis .
qed

lemma load_field:
  assumes ag: "agree (image_area L) m m'" and a: "region a n \<subseteq> image_area L" and x: "unat x + 4 \<le> n"
  shows "load32 m' (a + x) = load32 m (a + x)" "load16 m' (a + x) = load16 m (a + x)"
proof -
  obtain n' where n: "n = Suc n'" using x by (cases n) auto
  have top: "unat a + n \<le> 2 ^ 32" using image_area_top a unfolding n by blast
  have u: "unat (a + x) = unat a + unat x" using top x by (intro unat_add_small) simp
  have sub: "region (a + x) 4 \<subseteq> image_area L" using a x unfolding region_def u by auto
  show "load32 m' (a + x) = load32 m (a + x)" using load32_agree [OF ag sub] u top x by simp
  have "unat (a + x + 1) = unat (a + x) + unat (1 :: u32)" using u top x by (intro unat_add_small) simp
  then have "unat (a + x) \<in> image_area L" "unat (a + x + 1) \<in> image_area L" using sub by (auto simp: region_def)
  then show "load16 m' (a + x) = load16 m (a + x)" using ag by (simp add: load16_def agree_def)
qed

lemma elf_same:
  assumes ag: "agree (image_area L) m m'"
  shows "region a 52 \<subseteq> image_area L \<Longrightarrow> elf_header_at m' a = elf_header_at m a"
    "region a 32 \<subseteq> image_area L \<Longrightarrow> elf_program_at m' a = elf_program_at m a"
  using load_field [OF ag, of a 52] load_field [OF ag, of a 32] load_field [OF ag, of a _ 0]
  by (simp_all add: elf_header_at_def elf_program_at_def)


definition segment_ok :: "linked \<Rightarrow> mem \<Rightarrow> u32 \<Rightarrow> bool" where
  "segment_ok L m a \<longleftrightarrow> region a 32 \<subseteq> image_area L \<and>
     (p_type (elf_program_at m a) = ELF_PTYPE_LOAD \<longrightarrow> PROC_START_ADDR \<le> p_va (elf_program_at m a))"

lemma image_okD:
  assumes "image_ok L m eh"
  shows "region eh 52 \<subseteq> image_area L"
    "j \<in> set [0..<unat (e_phnum (elf_header_at m eh))] \<Longrightarrow>
      segment_ok L m (eh + e_phoff (elf_header_at m eh) + 32 * word_of_nat j)"
  using assms by (auto simp: image_ok_def segment_ok_def Let_def list_all_iff)

lemma segment_ok_same: "agree (image_area L) m m' \<Longrightarrow> segment_ok L m' a = segment_ok L m a"
  using elf_same(2) by (auto simp: segment_ok_def)

lemma image_ok_same:
  assumes "agree (image_area L) m m'" "image_ok L m eh"
  shows "image_ok L m' eh"
proof -
  have h: "elf_header_at m' eh = elf_header_at m eh" using elf_same(1) [OF assms(1)] image_okD(1) [OF assms(2)] by blast
  have "region eh 52 \<subseteq> image_area L" by (rule image_okD(1) [OF assms(2)])
  moreover have "segment_ok L m' (eh + e_phoff (elf_header_at m eh) + 32 * word_of_nat j)"
    if "j \<in> set [0..<unat (e_phnum (elf_header_at m eh))]" for j
    using image_okD(2) [OF assms(2) that] segment_ok_same [OF assms(1)] by simp
  ultimately show ?thesis
    by (simp add: image_ok_def Let_def h list_all_iff del: set_upt) (auto simp: segment_ok_def)
qed

lemma image_kept:
  assumes "image_area L \<subseteq> kernel_area k" "kernel_same k k'"
  shows "image_area L \<subseteq> kernel_area k'" "agree (image_area L) (memory k) (memory k')"
  using assms kernel_area_mono [of k k'] agree_subset [of "kernel_area k"] by (auto simp: kernel_same_def)

lemma load_segments_step:
  "load_segments i eh ph is k = Some (r, k') \<Longrightarrow> 0 \<le> r \<Longrightarrow> loading i k \<Longrightarrow> image_area L \<subseteq> kernel_area k \<Longrightarrow>
    list_all (\<lambda>j. segment_ok L (memory k) (ph + 32 * word_of_nat j)) is \<Longrightarrow> load_step i k k'"
proof (induction "is" arbitrary: k)
  case Nil
  then show ?case using load_step_refl by simp
next
  case (Cons j "is")
  let ?s = "elf_program_at (memory k) (ph + 32 * word_of_nat j)"
  obtain r1 k1 where k1: "(if p_type ?s = ELF_PTYPE_LOAD then copyseg i ?s (eh + p_offset ?s) k else Some (0, k)) = Some (r1, k1)"
    "(if r1 < 0 then Some (- 1, k1) else load_segments i eh ph is k1) = Some (r, k')"
    using Cons.prems(1) by (auto simp: Let_def split: bind_split_asm)
  have r1: "0 \<le> r1" using k1(2) Cons.prems(2) by (auto split: if_splits)
  have st: "load_step i k k1"
  proof (cases "p_type ?s = ELF_PTYPE_LOAD")
    case True
    then have "PROC_START_ADDR \<le> p_va ?s" using Cons.prems(5) by (simp add: segment_ok_def)
    then show ?thesis using copyseg_step [OF Cons.prems(3) _ _ r1] k1(1) True by simp
  next
    case False
    then show ?thesis using k1(1) load_step_refl [OF Cons.prems(3)] by simp
  qed
  then have ks: "kernel_same k k1" "loading i k1" by (simp_all add: load_step_def)
  note im = image_kept [OF Cons.prems(4) ks(1)]
  have "load_step i k1 k'"
  proof (rule Cons.IH)
    show "load_segments i eh ph is k1 = Some (r, k')" using k1(2) r1 by simp
    show "list_all (\<lambda>j. segment_ok L (memory k1) (ph + 32 * word_of_nat j)) is"
      using Cons.prems(5) segment_ok_same [OF im(2)] by simp
  qed (use Cons.prems(2) ks(2) im(1) in auto)
  then show ?case by (rule load_step_trans [OF st])
qed

lemma program_load_step:
  assumes run: "program_load L i program_id k = Some (r, k')" "0 \<le> r" and ld: "loading i k"
    and im: "image_area L \<subseteq> kernel_area k" "list_all (image_ok L (memory k)) (ramimages L)"
  obtains k1 f where "load_step i k k1" "k' = update_proc i (\<lambda>q. q\<lparr>p_registers := f (p_registers q)\<rparr>) k1"
proof -
  let ?eh = "ramimages L ! program_id"
  let ?h = "elf_header_at (memory k) ?eh"
  obtain r1 k1 where p: "program_id < length (ramimages L)"
    "load_segments i ?eh (?eh + e_phoff ?h) [0..<unat (e_phnum ?h)] k = Some (r1, k1)"
    "(if r1 < 0 then Some (- 1, k1) else Some (0, update_proc i
            (\<lambda>q. q\<lparr>p_registers := (p_registers q)\<lparr>reg_eip := e_entry ?h\<rparr>\<rparr>) k1)) = Some (r, k')"
    using run(1) by (auto simp: program_load_def Let_def assertion_def split: if_splits bind_split_asm)
  have "image_ok L (memory k) ?eh" using im(2) p(1) by (simp add: list_all_length)
  note ok = image_okD(2) [OF this]
  have "load_step i k k1"
    by (rule load_segments_step [OF p(2) _ ld im(1)]) (use p(3) run(2) ok in \<open>auto simp: list_all_iff split: if_splits\<close>)
  moreover have "k' = update_proc i (\<lambda>q. q\<lparr>p_registers := (\<lambda>g. g\<lparr>reg_eip := e_entry ?h\<rparr>) (p_registers q)\<rparr>) k1"
    using p(3) run(2) by (auto split: if_splits)
  ultimately show thesis by (rule that)
qed

end
