(* ===== verification/KernelBoot.thy ===== *)
theory KernelBoot
  imports KernelSetup
begin

text \<open>
  The start of the kernel: the state in which \<open>start\<close> runs the first process has its address
  spaces apart, whatever programs it has loaded.
\<close>

section \<open>The kernel while it starts\<close>

definition low_used :: "'d kernel \<Rightarrow> nat" where
  "low_used k = card {c. 0 < c \<and> c < 64 \<and> used k c}"

text \<open>
  The kernel's page directory and page table are pages of the kernel, and the first megabyte is
  mapped to itself, for processes only where it is reserved; physical page 0 is reserved.
\<close>

definition kernel_dir_ok :: "linked \<Rightarrow> 'd kernel \<Rightarrow> bool" where
  "kernel_dir_ok L k \<longleftrightarrow> wf_dir (memory k) (kernel_pagedir L)
     \<and> table_of (memory k) (kernel_pagedir L) = kernel_pagetable0 L
     \<and> region (kernel_pagedir L) 4096 \<subseteq> kernel_area k \<and> region (kernel_pagetable0 L) 4096 \<subseteq> kernel_area k
     \<and> owner (pageinfo k ! 0) = word_of_int PO_RESERVED
     \<and> (\<forall>n < 256. PTE_ADDR (pte (memory k) (kernel_pagedir L) n) = page_addr n
          \<and> (pte (memory k) (kernel_pagedir L) n AND PTE_U \<noteq> 0 \<longrightarrow> n = CONSOLE_PAGE \<and> sint (owner (pageinfo k ! n)) < 0))"

definition booting :: "linked \<Rightarrow> nat \<Rightarrow> 'd kernel \<Rightarrow> bool" where
  "booting L n k \<longleftrightarrow> isolated k \<and> exact k \<and> current k = None \<and> kernel_dir_ok L k \<and> image_area L \<subseteq> kernel_area k
     \<and> list_all (image_ok L (memory k)) (ramimages L) \<and> buffer_ok L k \<and> low_used k \<le> 3 * n
     \<and> (\<forall>i < NPROC. p_pid (processes k ! i) = int i)"

lemma kernel_dir_ok_same:
  assumes ok: "kernel_dir_ok L k" and s: "kernel_same k k'"
  shows "kernel_dir_ok L k'"
proof -
  let ?pd = "kernel_pagedir L" and ?pt = "kernel_pagetable0 L"
  have wf: "wf_dir (memory k) ?pd" "table_of (memory k) ?pd = ?pt" and sub: "region ?pd 4096 \<subseteq> kernel_area k"
    "region ?pt 4096 \<subseteq> kernel_area k" and o: "owner (pageinfo k ! 0) = word_of_int PO_RESERVED"
    and e: "\<And>n. n < 256 \<Longrightarrow> PTE_ADDR (pte (memory k) ?pd n) = page_addr n
          \<and> (pte (memory k) ?pd n AND PTE_U \<noteq> 0 \<longrightarrow> n = CONSOLE_PAGE \<and> sint (owner (pageinfo k ! n)) < 0)"
    using ok by (simp_all add: kernel_dir_ok_def)
  have kk: "kernel_kept k k'" and ag: "agree (kernel_area k) (memory k) (memory k')"
    using s by (simp_all add: kernel_same_def)
  note agd = agree_subset [OF ag sub(1)] and agt = agree_subset [OF ag sub(2)]
  have pd: "page_at ?pd" using wf(1) by (simp add: wf_dir_def)
  have wf': "wf_dir (memory k') ?pd" by (rule wf_dir_agree [OF wf(1) agd])
  moreover have "table_of (memory k') ?pd = ?pt" using table_of_agree [OF pd agd] wf(2) by simp
  moreover have "pte (memory k') ?pd n = pte (memory k) ?pd n" if "n < 256" for n
    using pte_agree [OF wf(1) agd] agt wf(2) that by simp
  moreover have "owner (pageinfo k' ! 0) = word_of_int PO_RESERVED"
    using kk o by (simp add: kernel_kept_def NPAGES_def PO_RESERVED_def)
  moreover have "region ?pd 4096 \<subseteq> kernel_area k'" "region ?pt 4096 \<subseteq> kernel_area k'"
    using sub kernel_area_mono [OF kk] by blast+
  ultimately show ?thesis using e kernel_kept_low [OF kk] by (simp add: kernel_dir_ok_def)
qed

lemma low_page:
  assumes ok: "pages_ok k" and low: "low_used k < 63"
  obtains c where "free_page k = Some c" "c < NPAGES" "\<not> used k c"
proof -
  have "\<exists>c. 0 < c \<and> c < 64 \<and> \<not> used k c"
  proof (rule ccontr)
    assume "\<nexists>c. 0 < c \<and> c < 64 \<and> \<not> used k c"
    then have "{c. 0 < c \<and> c < 64 \<and> used k c} = {1..<64}" by auto
    then show False using low by (simp add: low_used_def)
  qed
  then obtain c where "c < 64" "\<not> used k c" by blast
  then have c: "c < NPAGES" "\<not> used k c" by (simp_all add: NPAGES_def)
  obtain d where d: "free_page k = Some d"
    using free_page_NoneD [of k c] c by (cases "free_page k") auto
  then show thesis using free_page_SomeD [OF d] by (intro that) auto
qed

lemma low_used_add:
  assumes "\<And>x. x < 64 \<Longrightarrow> used k' x \<longleftrightarrow> x = c \<or> used k x"
  shows "low_used k' \<le> Suc (low_used k)"
proof -
  have f: "finite {x. 0 < x \<and> x < 64 \<and> used k x}" by simp
  have "{x. 0 < x \<and> x < 64 \<and> used k' x} \<subseteq> insert c {x. 0 < x \<and> x < 64 \<and> used k x}" using assms by auto
  then have "low_used k' \<le> card (insert c {x. 0 < x \<and> x < 64 \<and> used k x})"
    unfolding low_used_def by (intro card_mono) simp_all
  also have "\<dots> \<le> Suc (low_used k)" unfolding low_used_def by (rule card_insert_le_m1) simp_all
  finally show ?thesis .
qed

lemma low_used_same: "(\<And>x. x < 64 \<Longrightarrow> used k' x \<longleftrightarrow> used k x) \<Longrightarrow> low_used k' = low_used k"
proof -
  assume "\<And>x. x < 64 \<Longrightarrow> used k' x \<longleftrightarrow> used k x"
  then have "{c. 0 < c \<and> c < 64 \<and> used k' c} = {c. 0 < c \<and> c < 64 \<and> used k c}" by auto
  then show ?thesis by (simp add: low_used_def)
qed


section \<open>A new address space\<close>

text \<open>Two free pages become directory and page table of process \<open>i\<close>, with the kernel's half alone.\<close>

definition space_added :: "'d kernel \<Rightarrow> u32 \<Rightarrow> nat \<Rightarrow> nat \<Rightarrow> nat \<Rightarrow> 'd kernel \<Rightarrow> bool" where
  "space_added k kp i a b k' \<longleftrightarrow> a < NPAGES \<and> b < NPAGES \<and> a \<noteq> b \<and> \<not> used k a \<and> \<not> used k b
     \<and> pageinfo k' = (pageinfo k)[a := \<lparr>owner = word_of_nat i, refcount = 1\<rparr>, b := \<lparr>owner = word_of_nat i, refcount = 1\<rparr>]
     \<and> processes k' = (processes k)[i := (processes k ! i)\<lparr>p_pagedir := page_addr a\<rparr>]
     \<and> current k' = current k
     \<and> wf_dir (memory k') (page_addr a) \<and> table_of (memory k') (page_addr a) = page_addr b
     \<and> (\<forall>n < 1024. pte (memory k') (page_addr a) n = (if n < 256 then pte (memory k) kp n else 0))
     \<and> (\<forall>S. page a \<inter> S = {} \<and> page b \<inter> S = {} \<longrightarrow> agree S (memory k) (memory k'))"

lemma space_added_info:
  assumes I: "isolated k" and s: "space_added k kp i a b k'"
  shows "x < NPAGES \<Longrightarrow> pageinfo k' ! x = (if x = a \<or> x = b then \<lparr>owner = word_of_nat i, refcount = 1\<rparr> else pageinfo k ! x)"
    "length (pageinfo k') = NPAGES"
    "x < NPAGES \<Longrightarrow> used k x \<Longrightarrow> agree (page x) (memory k) (memory k')"
proof -
  have s': "a < NPAGES" "b < NPAGES" "\<not> used k a" "\<not> used k b"
    "pageinfo k' = (pageinfo k)[a := \<lparr>owner = word_of_nat i, refcount = 1\<rparr>, b := \<lparr>owner = word_of_nat i, refcount = 1\<rparr>]"
    "\<And>S. page a \<inter> S = {} \<Longrightarrow> page b \<inter> S = {} \<Longrightarrow> agree S (memory k) (memory k')"
    using s by (simp_all add: space_added_def)
  show "x < NPAGES \<Longrightarrow> pageinfo k' ! x = (if x = a \<or> x = b then \<lparr>owner = word_of_nat i, refcount = 1\<rparr> else pageinfo k ! x)"
    using isolatedD(3) [OF I] s'(1,2) by (auto simp: s'(5) nth_list_update)
  show "length (pageinfo k') = NPAGES" using isolatedD(3) [OF I] by (simp add: s'(5))
  show "agree (page x) (memory k) (memory k')" if x: "x < NPAGES" "used k x"
    by (rule s'(6); rule page_disjoint; use x s' in auto)
qed

lemma space_added_kept:
  assumes I: "isolated k" and s: "space_added k kp i a b k'"
  shows "kernel_same k k'"
proof -
  note i = space_added_info [OF I s]
  have n: "\<not> used k a" "\<not> used k b" using s by (simp_all add: space_added_def)
  have u: "used k x" if "sint (owner (pageinfo k ! x)) < 0" for x using that by (auto simp: used_def)
  have "kernel_kept k k'" using n u i(1) by (auto simp: kernel_kept_def)
  moreover have "agree (kernel_area k) (memory k) (memory k')"
    unfolding agree_def
  proof (intro allI impI)
    fix z :: u32 assume "unat z \<in> kernel_area k"
    then obtain x where x: "x < NPAGES" "sint (owner (pageinfo k ! x)) = PO_KERNEL" "unat z \<in> page x"
      by (auto simp: kernel_area_def)
    have "agree (page x) (memory k) (memory k')" using i(3) [OF x(1)] u x(2) by (simp add: PO_KERNEL_def)
    then show "memory k' z = memory k z" using x(3) by (simp add: agree_def)
  qed
  ultimately show ?thesis by (simp add: kernel_same_def)
qed

lemma space_added_loading:
  assumes I: "isolated k" and e: "exact k" and s: "space_added k kp i a b k'"
    and i: "0 < i" "i < NPROC" "p_state (processes k ! i) = P_FREE" "p_pid (processes k ! i) = int i"
    and kp: "\<And>n. n < 256 \<Longrightarrow> PTE_ADDR (pte (memory k) kp n) = page_addr n
      \<and> (pte (memory k) kp n AND PTE_U \<noteq> 0 \<longrightarrow> n = CONSOLE_PAGE \<and> sint (owner (pageinfo k ! n)) < 0)"
  shows "loading i k'"
proof -
  have s': "a < NPAGES" "b < NPAGES" "a \<noteq> b" "\<not> used k a" "\<not> used k b"
    "processes k' = (processes k)[i := (processes k ! i)\<lparr>p_pagedir := page_addr a\<rparr>]"
    "wf_dir (memory k') (page_addr a)" "table_of (memory k') (page_addr a) = page_addr b"
    "\<And>n. n < 1024 \<Longrightarrow> pte (memory k') (page_addr a) n = (if n < 256 then pte (memory k) kp n else 0)"
    using s by (simp_all add: space_added_def)
  note K = isolatedD [OF I] and pi = space_added_info [OF I s]
  let ?K = "as_active i k'"
  have il: "i < length (processes k)" using i(2) K(2) by simp
  have pr: "processes k' ! j = (if j = i then (processes k ! i)\<lparr>p_pagedir := page_addr a\<rparr> else processes k ! j)" for j
    using il by (simp add: s'(6) nth_list_update)
  have na: "\<not> active k i" using i(3) by (simp add: active_def)
  have act: "active ?K j \<longleftrightarrow> j = i \<or> active k j" for j
    using il i pr [of j] by (cases "j = i") (auto simp: active_def as_active_def update_proc_def s'(6))
  have pgd: "p_pagedir (processes k' ! i) = page_addr a" by (simp add: pr)
  have ent: "entry k' i n = (if n < 256 then pte (memory k) kp n else 0)" if "n < 1024" for n
    using s'(9) [OF that] by (simp add: entry_def pgd)
  have ab: "dir_page k' i = a" "table_page k' i = b"
    using s'(1,2) by (simp_all add: dir_page_def table_page_def pgd s'(8) NPAGES_def)
  have neg: "sint (owner (pageinfo k' ! x)) < 0" if "x < 256" "sint (owner (pageinfo k ! x)) < 0" for x
  proof -
    have "used k x" using that(2) by (auto simp: used_def)
    then have "x \<noteq> a" "x \<noteq> b" using s'(4,5) by auto
    then show ?thesis using that pi(1) [of x] by (simp add: NPAGES_def)
  qed
  have self: "space_isolated ?K i"
  proof -
    have sp: "space_pages ?K i = [a, b]"
    proof -
      have "filter (\<lambda>n. entry k' i n \<noteq> 0) [256..<768] = []" using ent by (auto simp: filter_empty_conv)
      then show ?thesis by (simp add: space_pages_def ab)
    qed
    have "wf_dir (memory k') (p_pagedir (processes k' ! i))" using s'(7) by (simp add: pgd)
    moreover have "owned k' i a" "owned k' i b" using pi(1) s'(1,2) by (simp_all add: owned_def)
    moreover have "p_pid (processes k' ! i) = int i" using i(4) by (simp add: pr)
    ultimately show ?thesis
      unfolding space_isolated_def sp using s'(3) kp neg ent by (simp add: as_active_proc ab)
  qed
  have other: "space_isolated ?K j" "\<And>x. x < 1024 \<Longrightarrow> shared_entry ?K j x = shared_entry k j x" if j: "active k j" for j
  proof -
    have ne: "j \<noteq> i" using j na by blast
    have ag: "agree (page x) (memory k) (memory ?K)" if "x \<in> set (space_pages k j)" for x
      using pi(3) space_pages_used [OF I j that] space_pages_cases(1) [OF K(6) [OF j] that] by simp
    have "owned ?K j x" if "x < NPAGES" "owned k j x" for x
    proof -
      have "used k x" using owned_used [OF that(2)] activeD [OF j] by blast
      then have "x \<noteq> a" "x \<noteq> b" using s'(4,5) by auto
      then show ?thesis using that pi(1) by (simp add: owned_def)
    qed
    moreover have "p_pagedir (processes ?K ! j) = p_pagedir (processes k ! j)" "p_pid (processes ?K ! j) = p_pid (processes k ! j)"
      using ne by (simp_all add: as_active_proc pr)
    moreover have "agree (page (dir_page k j)) (memory k) (memory ?K)" "agree (page (table_page k j)) (memory k) (memory ?K)"
      by (rule ag; simp add: space_pages_def)+
    ultimately show "space_isolated ?K j" "\<And>x. x < 1024 \<Longrightarrow> shared_entry ?K j x = shared_entry k j x"
      using space_isolated_frame [OF K(6) [OF j], of ?K] neg by simp_all
  qed
  have "sharing_ok ?K x" if x: "x < NPAGES" for x
  proof -
    have x1: "x < 1024" using x by (simp add: NPAGES_def)
    have ns: "\<not> shared_entry k' i x" if "256 \<le> x"
      using that ent [OF x1] shared_entryD(4) [of k' i x] by auto
    have sub: "sharers ?K x \<subseteq> sharers k x"
    proof
      fix j assume j: "j \<in> sharers ?K x"
      then have h: "active ?K j" "256 \<le> x" "shared_entry ?K j x" by (simp_all add: sharers_def)
      have "j \<noteq> i" using ns [OF h(2)] h(3) by auto
      then have "active k j" using h(1) act by blast
      then show "j \<in> sharers k x" using other(2) [OF _ x1] h by (simp add: sharers_def)
    qed
    show ?thesis
    proof (cases "x = a \<or> x = b")
      case True
      then have "\<not> used k x" using s'(4,5) by blast
      then have "sharers k x = {}" using sharer_used [OF K(7) [OF x]] by blast
      then show ?thesis using sub by (simp add: sharing_ok_def)
    next
      case False
      show ?thesis by (rule sharing_ok_mono [OF K(7) [OF x] sub]) (use False pi(1) [OF x] act in simp_all)
    qed
  qed
  moreover have "owner_ok ?K (pageinfo ?K ! x)" if x: "x < NPAGES" for x
    using K(5) [OF x] pi(1) [OF x] sint_slot [OF i(2)] act by (auto simp: owner_ok_def)
  moreover have "pages_ok ?K"
  proof -
    have "(word_of_nat i :: u8) \<noteq> 0" using sint_slot [OF i(2)] i(1) by auto
    then show ?thesis using K(1,3) pi(1,2) by (simp add: pages_ok_def list_all_length)
  qed
  moreover have "length (processes ?K) = NPROC" using K(2) by (simp add: s'(6))
  moreover have "p_state (processes ?K ! 0) = P_FREE"
    using K(4) i(1) pr [of 0] by (simp add: as_active_def update_proc_def)
  moreover have "space_isolated ?K j" if "active ?K j" for j
    using that act [of j] self other(1) [of j] by (cases "j = i") simp_all
  ultimately have "isolated ?K" by (intro isolatedI)
  moreover have "exact k'" using e K(3) pi(1,2) by (simp add: exact_def list_all_length)
  ultimately show ?thesis using i(1,2) by (simp add: loading_def)
qed


section \<open>One process is set up\<close>

lemma regs_loading:
  assumes L: "loading i k" and k': "k' = update_proc i (\<lambda>q. q\<lparr>p_registers := f (p_registers q)\<rparr>) k"
  shows "loading i k'" "kernel_same k k'" "used k' = used k" "current k' = current k" "memory k' = memory k"
    "pageinfo k' = pageinfo k" "length (processes k') = length (processes k)"
    "j \<noteq> i \<Longrightarrow> processes k' ! j = processes k ! j" "p_pagedir (processes k' ! j) = p_pagedir (processes k ! j)"
    "p_pid (processes k' ! j) = p_pid (processes k ! j)" "p_registers (processes k' ! i) = f (p_registers (processes k ! i))"
proof -
  note D = loadingD [OF L]
  show p: "j \<noteq> i \<Longrightarrow> processes k' ! j = processes k ! j" "p_pagedir (processes k' ! j) = p_pagedir (processes k ! j)"
    "p_pid (processes k' ! j) = p_pid (processes k ! j)" "p_registers (processes k' ! i) = f (p_registers (processes k ! i))"
    "length (processes k') = length (processes k)" for j
    using D(6) by (cases "j = i"; simp add: k' update_proc_def)+
  show m: "used k' = used k" "current k' = current k" "memory k' = memory k" "pageinfo k' = pageinfo k"
    by (simp_all add: k' update_proc_def used_def fun_eq_iff)
  have "isolated (as_active i k')"
  proof (rule isolated_as_active [OF D(1)])
    show "p_state (processes (as_active i k') ! j) = P_FREE \<longleftrightarrow> p_state (processes (as_active i k) ! j) = P_FREE" for j
      using D(6) by (cases "j = i") (simp_all add: k' as_active_def update_proc_def)
  qed (simp_all add: m p as_active_proc)
  then show "loading i k'" using D(2-4) by (simp add: loading_def exact_def m)
  show "kernel_same k k'" by (simp add: kernel_same_def kernel_kept_refl m)
qed

lemma page_info_eq: "q\<lparr>refcount := 1, owner := w\<rparr> = \<lparr>owner = w, refcount = 1\<rparr>" for q :: pageinfo_t
  by (cases q) simp

lemma copy_kernel_space:
  assumes I: "isolated k" and d: "kernel_dir_ok L k" and low: "low_used k < 62" and i: "0 < i" "i < NPROC"
  obtains a b k1 where "copy_pagedir (kernel_pagedir L) (int i) k = Some (page_addr a, k1)" "a < NPAGES"
    "space_added k (kernel_pagedir L) i a b (update_proc i (\<lambda>q. q\<lparr>p_pagedir := page_addr a\<rparr>) k1)"
proof -
  let ?kp = "kernel_pagedir L"
  note K = isolatedD [OF I]
  have w: "(word_of_int (int i) :: u8) \<noteq> 0" using sint_slot [OF i(2)] i(1) by auto
  obtain a where a: "free_page k = Some a" "a < NPAGES" "\<not> used k a"
    using low_page [OF K(1)] low by (metis less_trans numeral_less_iff rel_simps)
  let ?k1 = "own_page a (int i) k"
  have ok1: "pages_ok ?k1" by (rule pages_ok_own_page [OF K(1) a(2) w])
  have "low_used ?k1 \<le> Suc (low_used k)" by (rule low_used_add) (rule used_own_page [OF K(1) a(2) w])
  then have "low_used ?k1 < 63" using low by simp
  then obtain b where b: "free_page ?k1 = Some b" using low_page [OF ok1] by metis
  have du: "dir_used k ?kp"
  proof -
    have wf: "wf_dir (memory k) ?kp" using d by (simp add: kernel_dir_ok_def)
    have u: "used k (page_number p)" if p: "page_at p" "region p 4096 \<subseteq> kernel_area k" for p
    proof -
      note n = page_at_number [OF p(1)]
      have "unat p \<in> kernel_area k" using p(2) by (auto simp: region_def)
      then obtain x where x: "x < NPAGES" "sint (owner (pageinfo k ! x)) = PO_KERNEL" "unat p \<in> page x"
        by (auto simp: kernel_area_def)
      have "unat p \<in> page (page_number p)" using n(2) by (auto simp: region_def)
      then have "x = page_number p" using page_disjoint [OF x(1) n(1)] x(3) by blast
      then show ?thesis using x(2) by (auto simp: used_def PO_KERNEL_def)
    qed
    have "page_at ?kp" "page_at (table_of (memory k) ?kp)" using wf by (simp_all add: wf_dir_def)
    then show ?thesis using u wf d by (simp add: dir_used_def kernel_dir_ok_def)
  qed
  obtain m' where c: "copy_pagedir ?kp (int i) k = Some (page_addr a, (own_page b (int i) ?k1)\<lparr>memory := m'\<rparr>)"
    "a < NPAGES" "b < NPAGES" "a \<noteq> b" "\<not> used k a" "\<not> used k b"
    "wf_dir m' (page_addr a)" "table_of m' (page_addr a) = page_addr b"
    "\<And>n. n < 1024 \<Longrightarrow> pte m' (page_addr a) n = (if n < 256 then pte (memory k) ?kp n else 0)"
    "\<And>S. page a \<inter> S = {} \<Longrightarrow> page b \<inter> S = {} \<Longrightarrow> agree S (memory k) m'"
    by (rule copy_pagedir_some [OF K(1) w du a(1) b]) (rule that)
  let ?k4 = "update_proc i (\<lambda>q. q\<lparr>p_pagedir := page_addr a\<rparr>) ((own_page b (int i) ?k1)\<lparr>memory := m'\<rparr>)"
  have "space_added k ?kp i a b ?k4"
    unfolding space_added_def using c K(3) by (simp add: update_proc_def own_page_def page_info_eq)
  then show thesis by (rule that [OF c(1,2)])
qed


text \<open>The pid goes through the null pointer: to physical page 0, which no one else uses.\<close>

lemma pid_through_null:
  assumes B: "booting L n k" and i: "i < NPROC"
  defines "k2 \<equiv> write_current_pid (int i) (process_init i 0 k)"
  shows "isolated k2" "kernel_same k k2" "exact k2" "read_current_pid k2 = int i" "current k2 = None" "low_used k2 = low_used k"
    "p_state (processes k2 ! j) = p_state (processes k ! j)" "p_pid (processes k2 ! j) = p_pid (processes k ! j)"
proof -
  have I: "isolated k" and c: "current k = None" and o: "owner (pageinfo k ! 0) = word_of_int PO_RESERVED"
    using B by (simp_all add: booting_def kernel_dir_ok_def)
  have so: "sint (owner (pageinfo k ! 0)) = - 1" by (simp add: o PO_RESERVED_def)
  have k2: "k2 = (process_init i 0 k)\<lparr>memory := store32 (memory k) 0 (word_of_int (int i))\<rparr>"
    by (simp add: k2_def write_current_pid_def process_init_def update_proc_def c)
  have il: "i < length (processes k)" using isolatedD(2) [OF I] i by simp
  have pr: "p_pid (processes k2 ! j) = p_pid (processes k ! j)" "p_pagedir (processes k2 ! j) = p_pagedir (processes k ! j)"
    "p_state (processes k2 ! j) = p_state (processes k ! j)" for j
    using il by (cases "j = i"; simp add: k2 process_init_def update_proc_def)+
  then show "p_state (processes k2 ! j) = p_state (processes k ! j)" "p_pid (processes k2 ! j) = p_pid (processes k ! j)" by blast+
  have f: "pageinfo k2 = pageinfo k" "memory k2 = store32 (memory k) 0 (word_of_int (int i))" "current k2 = None"
    "length (processes k2) = length (processes k)"
    by (simp_all add: k2 process_init_def update_proc_def c)
  then show "current k2 = None" by blast
  have p0: "region 0 4 \<subseteq> page 0" by (auto simp: region_def)
  have ag: "agree S (memory k) (memory k2)" if "page 0 \<inter> S = {}" for S
    unfolding f(2) by (rule store32_agree) (use that p0 in auto)
  have dis: "page 0 \<inter> page x = {}" if "active k j" "x \<in> set (space_pages k j)" for j x
    by (rule kernel_page_apart [OF I that]) (simp_all add: so NPAGES_def)
  show "isolated k2"
  proof (rule isolated_same [OF I f(1,4) pr(1,2)])
    show "p_state (processes k2 ! i) = P_FREE \<longleftrightarrow> p_state (processes k ! i) = P_FREE" for i by (simp add: pr)
    show "agree (page (dir_page k j)) (memory k) (memory k2)" "agree (page (table_page k j)) (memory k) (memory k2)"
      if "active k j" for j by (rule ag; rule dis [OF that]; simp add: space_pages_def)+
  qed
  show "exact k2" using B by (simp add: booting_def exact_def f(1))
  show "low_used k2 = low_used k" by (rule low_used_same) (simp add: used_def f(1))
  have "page 0 \<inter> kernel_area k = {}"
  proof -
    have "page 0 \<inter> page x = {}" if "x < NPAGES" "sint (owner (pageinfo k ! x)) = PO_KERNEL" for x
    proof -
      have "sint (owner (pageinfo k ! x)) \<noteq> sint (owner (pageinfo k ! 0))" unfolding that(2) so by (simp add: PO_KERNEL_def)
      then have "0 \<noteq> x" by (intro notI) simp
      then show ?thesis by (intro page_disjoint that(1)) (simp_all add: NPAGES_def)
    qed
    then show ?thesis unfolding kernel_area_def by blast
  qed
  then show "kernel_same k k2" using ag f(1) by (simp add: kernel_same_def kernel_kept_refl)
  have "sint (word_of_nat i :: u32) = int i"
    unfolding signed_of_nat using i by (simp add: signed_take_bit_int_eq_self_iff NPROC_def)
  then show "read_current_pid k2 = int i" by (simp add: read_current_pid_def f(3) f(2))
qed

lemma stack_page_mapped:
  assumes L: "loading i k" and esp: "reg_esp (p_registers (processes k ! i)) = MEMSIZE_VIRTUAL"
    and m: "m_alloc (int i) k = (procStack, k1)"
    and run: "update_mem (virtual_memory_map (p_pagedir (processes k1 ! i)) (reg_esp (p_registers (processes k1 ! i)) - PAGESIZE)
        procStack PAGESIZE (PTE_P OR PTE_W OR PTE_U)) k1 = Some k2"
  shows "loading i k2" "kernel_same k k2" "processes k2 = processes k" "current k2 = current k" "low_used k2 \<le> Suc (low_used k)"
proof -
  note T = loading_table [OF L] and D = loadingD [OF L]
  have "\<exists>c. free_page k = Some c"
  proof (cases "free_page k")
    case None
    then have "procStack = - 1" using m by (simp add: m_alloc_eq [OF T(9)])
    moreover have "(- 1 :: u32) mod PAGESIZE \<noteq> 0" by (simp add: PAGESIZE_def)
    ultimately have "update_mem (virtual_memory_map (p_pagedir (processes k1 ! i)) (reg_esp (p_registers (processes k1 ! i)) - PAGESIZE)
        procStack PAGESIZE (PTE_P OR PTE_W OR PTE_U)) k1 = None"
      by (simp add: update_mem_def virtual_memory_map_def assertion_def)
    then show ?thesis using run by simp
  qed simp
  then obtain c where c: "free_page k = Some c" by blast
  have cl: "c < NPAGES" "\<not> used k c" using free_page_SomeD [OF c] by blast+
  have k1: "procStack = page_addr c" "k1 = k\<lparr>pageinfo := (pageinfo k)[c := \<lparr>owner = word_of_nat i, refcount = 1\<rparr>]\<rparr>"
    using m c by (simp_all add: m_alloc_eq [OF T(9)] own_page_def page_info_eq)
  have "MEMSIZE_VIRTUAL - PAGESIZE = page_addr 767" by (simp add: MEMSIZE_VIRTUAL_def PAGESIZE_def)
  then obtain m' where m': "virtual_memory_map (p_pagedir (processes k ! i)) (page_addr 767) (page_addr c) PAGESIZE 7 (memory k) = Some m'"
    "k2 = k1\<lparr>memory := m'\<rparr>"
    using run esp by (auto simp: k1 update_mem_def seven)
  have k2: "k2 = k\<lparr>pageinfo := (pageinfo k)[c := \<lparr>owner = word_of_nat i, refcount = 1\<rparr>], memory := m'\<rparr>"
    using m'(2) k1(2) by simp
  note M = map_new_page [OF L _ _ cl k2 m'(1)]
  show "loading i k2" "kernel_same k k2" by (rule M; simp)+
  show "processes k2 = processes k" "current k2 = current k" by (simp_all add: k2)
  have "used k2 x \<longleftrightarrow> x = c \<or> used k x" if "x < 64" for x
    by (rule M(5)) (use that in \<open>simp_all add: NPAGES_def\<close>)
  then show "low_used k2 \<le> Suc (low_used k)" by (rule low_used_add)
qed


lemma low_used_space:
  assumes I: "isolated k" and s: "space_added k kp i a b k'" and i: "0 < i" "i < NPROC"
  shows "low_used k' \<le> low_used k + 2"
proof -
  let ?S = "{x. 0 < x \<and> x < 64 \<and> used k x}"
  have "used k' x \<longleftrightarrow> x = a \<or> x = b \<or> used k x" if "x < 64" for x
  proof -
    have "x < NPAGES" using that by (simp add: NPAGES_def)
    from space_added_info(1) [OF I s this] show ?thesis
      using sint_slot [OF i(2)] i(1) by (auto simp: used_def)
  qed
  then have "{x. 0 < x \<and> x < 64 \<and> used k' x} \<subseteq> insert a (insert b ?S)" by auto
  then have "low_used k' \<le> card (insert a (insert b ?S))" unfolding low_used_def by (intro card_mono) simp_all
  also have "\<dots> \<le> Suc (card (insert b ?S))" by (rule card_insert_le_m1) simp_all
  also have "\<dots> \<le> Suc (Suc (low_used k))" unfolding low_used_def Suc_le_mono by (rule card_insert_le_m1) simp_all
  finally show ?thesis by simp
qed

definition setup_end :: "nat \<Rightarrow> 'd kernel \<Rightarrow> 'd kernel option" where
  "setup_end i k5 =
     (let k = update_proc i (\<lambda>q. q\<lparr>p_registers := (p_registers q)\<lparr>reg_esp := MEMSIZE_VIRTUAL\<rparr>\<rparr>) k5;
          (procStack, k) = m_alloc (int i) k
      in do {
       k \<leftarrow> update_mem (virtual_memory_map (p_pagedir (processes k ! i))
              (reg_esp (p_registers (processes k ! i)) - PAGESIZE) procStack PAGESIZE
              (PTE_P OR PTE_W OR PTE_U)) k;
       Some (update_proc i (\<lambda>q. q\<lparr>p_state := P_RUNNABLE\<rparr>) k) })"

lemma setup_end_step:
  assumes L: "loading i k" and im: "image_area L \<subseteq> kernel_area k" "list_all (image_ok L (memory k)) (ramimages L)"
    and p: "program_load L i prog k = Some (r, k5)" "0 \<le> r" "setup_end i k5 = Some k'"
  obtains k8 where "k' = as_active i k8" "loading i k8" "kernel_same k k8" "current k8 = current k"
    "low_used k8 \<le> Suc (low_used k)" "\<And>j. p_pid (processes k8 ! j) = p_pid (processes k ! j)"
    "\<And>j. j \<noteq> i \<Longrightarrow> p_state (processes k8 ! j) = p_state (processes k ! j)"
proof -
  obtain k4 f where q: "load_step i k k4" "k5 = update_proc i (\<lambda>q. q\<lparr>p_registers := f (p_registers q)\<rparr>) k4"
    by (rule program_load_step [OF p(1,2) L im])
  have L4: "loading i k4" "kernel_same k k4" using q(1) by (simp_all add: load_step_def)
  note R5 = regs_loading [OF L4(1) q(2)]
  define k6 where "k6 = update_proc i (\<lambda>q. q\<lparr>p_registers := (p_registers q)\<lparr>reg_esp := MEMSIZE_VIRTUAL\<rparr>\<rparr>) k5"
  note R6 = regs_loading [OF R5(1) k6_def]
  obtain procStack k7 where m: "m_alloc (int i) k6 = (procStack, k7)" by (cases "m_alloc (int i) k6")
  obtain k8 where e: "update_mem (virtual_memory_map (p_pagedir (processes k7 ! i)) (reg_esp (p_registers (processes k7 ! i)) - PAGESIZE)
        procStack PAGESIZE (PTE_P OR PTE_W OR PTE_U)) k7 = Some k8" "k' = as_active i k8"
    using p(3) unfolding setup_end_def k6_def [symmetric] Let_def m as_active_def by (auto split: bind_split_asm)
  have "reg_esp (p_registers (processes k6 ! i)) = MEMSIZE_VIRTUAL" by (simp add: R6(11))
  note M = stack_page_mapped [OF R6(1) this m e(1)]
  show thesis
  proof (rule that [OF e(2) M(1)])
    show "kernel_same k k8"
      by (rule kernel_same_trans [OF L4(2) kernel_same_trans [OF R5(2) kernel_same_trans [OF R6(2) M(2)]]])
    show "current k8 = current k" using q(1) by (simp add: M(4) R6(4) R5(4) load_step_def)
    have "low_used k4 = low_used k" by (rule low_used_same) (use q(1) in \<open>simp add: load_step_def\<close>)
    moreover have "low_used k6 = low_used k4" by (simp add: low_used_def R6(3) R5(3))
    ultimately show "low_used k8 \<le> Suc (low_used k)" using M(5) by simp
    show "p_pid (processes k8 ! j) = p_pid (processes k ! j)" "j \<noteq> i \<Longrightarrow> p_state (processes k8 ! j) = p_state (processes k ! j)" for j
      using q(1) by (simp_all add: M(3) R6(8,10) R5(8,10) load_step_def)
  qed
qed

text \<open>The process has its address space; its program is yet to be loaded.\<close>

lemma new_space:
  assumes B: "booting L n k" and n: "n < 20" and i: "0 < i" "i < NPROC" "p_state (processes k ! i) = P_FREE"
  obtains a k2 k3 k4 where "k2 = write_current_pid (int i) (process_init i 0 k)"
    "copy_pagedir (kernel_pagedir L) (read_current_pid k2) k2 = Some (page_addr a, k3)" "a < NPAGES"
    "k4 = update_proc i (\<lambda>q. q\<lparr>p_pagedir := page_addr a\<rparr>) k3" "loading i k4" "kernel_same k k4" "current k4 = None"
    "low_used k4 \<le> low_used k + 2" "\<And>j. p_pid (processes k4 ! j) = p_pid (processes k ! j)"
    "\<And>j. p_state (processes k4 ! j) = p_state (processes k ! j)"
proof -
  let ?kp = "kernel_pagedir L"
  define k2 where "k2 = write_current_pid (int i) (process_init i 0 k)"
  note N = pid_through_null [OF B i(2), folded k2_def]
  have d2: "kernel_dir_ok L k2" using kernel_dir_ok_same [OF _ N(2)] B by (simp add: booting_def)
  have "low_used k2 < 62" using B n N(6) by (simp add: booting_def)
  then obtain a b k3 where c: "copy_pagedir ?kp (int i) k2 = Some (page_addr a, k3)" "a < NPAGES"
    "space_added k2 ?kp i a b (update_proc i (\<lambda>q. q\<lparr>p_pagedir := page_addr a\<rparr>) k3)"
    by (rule copy_kernel_space [OF N(1) d2 _ i(1,2)])
  define k4 where "k4 = update_proc i (\<lambda>q. q\<lparr>p_pagedir := page_addr a\<rparr>) k3"
  note sa = c(3) [folded k4_def] and s4 = space_added_kept [OF N(1) c(3), folded k4_def]
  show thesis
  proof (rule that [OF k2_def _ c(2) k4_def])
    show "copy_pagedir ?kp (read_current_pid k2) k2 = Some (page_addr a, k3)" using c(1) N(4) by simp
    show "loading i k4"
    proof (rule space_added_loading [OF N(1,3) sa i(1,2)])
      show "p_state (processes k2 ! i) = P_FREE" "p_pid (processes k2 ! i) = int i"
        using i B by (simp_all add: N(7,8) booting_def)
    qed (use d2 in \<open>simp add: kernel_dir_ok_def\<close>)
    show "kernel_same k k4" by (rule kernel_same_trans [OF N(2) s4])
    show "current k4 = None" using sa N(5) by (simp add: space_added_def)
    show "low_used k4 \<le> low_used k + 2" using low_used_space [OF N(1) sa i(1,2)] N(6) by simp
    show "p_pid (processes k4 ! j) = p_pid (processes k ! j)" "p_state (processes k4 ! j) = p_state (processes k ! j)" for j
      using sa isolatedD(2) [OF N(1)] i(2) by (cases "j = i"; simp add: space_added_def N(7,8))+
  qed
qed

lemma booting_images:
  assumes "booting L n k" "kernel_same k k'"
  shows "image_area L \<subseteq> kernel_area k'" "agree (image_area L) (memory k) (memory k')"
    "list_all (image_ok L (memory k')) (ramimages L)"
proof -
  show "image_area L \<subseteq> kernel_area k'" and ag: "agree (image_area L) (memory k) (memory k')"
    using image_kept [OF _ assms(2)] assms(1) by (simp_all add: booting_def)
  show "list_all (image_ok L (memory k')) (ramimages L)"
    using assms(1) image_ok_same [OF ag] by (auto simp: booting_def list_all_iff)
qed

lemma process_setup_step:
  assumes B: "booting L n k" and n: "n < 20" and i: "0 < i" "i < NPROC" "p_state (processes k ! i) = P_FREE"
    and run: "process_setup L i prog k = Some k'"
  shows "booting L (Suc n) k'" "kernel_same k k'" "p_state (processes k' ! i) = P_RUNNABLE"
    "j \<noteq> i \<Longrightarrow> p_state (processes k' ! j) = p_state (processes k ! j)"
proof -
  obtain a k2 k3 k4 where k2: "k2 = write_current_pid (int i) (process_init i 0 k)"
    and c: "copy_pagedir (kernel_pagedir L) (read_current_pid k2) k2 = Some (page_addr a, k3)" "a < NPAGES"
    and k4: "k4 = update_proc i (\<lambda>q. q\<lparr>p_pagedir := page_addr a\<rparr>) k3" "loading i k4" "kernel_same k k4" "current k4 = None"
      "low_used k4 \<le> low_used k + 2"
    and pr4: "\<And>j. p_pid (processes k4 ! j) = p_pid (processes k ! j)" "\<And>j. p_state (processes k4 ! j) = p_state (processes k ! j)"
    by (rule new_space [OF B n i]) (rule that)
  note im4 = booting_images [OF B k4(3)]
  obtain r k5 where p: "program_load L i prog k4 = Some (r, k5)" "0 \<le> r" "setup_end i k5 = Some k'"
    using run c page_addr_not_minus1 [OF c(2)]
    unfolding process_setup_def setup_end_def Let_def k2 [symmetric]
    by (auto simp: k4(1) assertion_def split: if_splits bind_split_asm)
  obtain k8 where e: "k' = as_active i k8" "loading i k8" "kernel_same k4 k8" "current k8 = current k4"
    "low_used k8 \<le> Suc (low_used k4)" "\<And>j. p_pid (processes k8 ! j) = p_pid (processes k4 ! j)"
    "\<And>j. j \<noteq> i \<Longrightarrow> p_state (processes k8 ! j) = p_state (processes k4 ! j)"
    by (rule setup_end_step [OF k4(2) im4(1,3) p]) (rule that)
  note D8 = loadingD [OF e(2)]
  have same: "kernel_same k k8" by (rule kernel_same_trans [OF k4(3) e(3)])
  note im8 = booting_images [OF B same]
  have ext: "kernel_area k' = kernel_area k8" "low_used k' = low_used k8"
    by (simp_all add: e(1) kernel_area_def low_used_def)
  have "kernel_dir_ok L k8" "buffer_ok L k8"
    using kernel_dir_ok_same [OF _ same] buffer_ok_kept [of L k k8] B same by (simp_all add: booting_def kernel_same_def)
  then have "kernel_dir_ok L k'" "buffer_ok L k'"
    by (simp_all add: e(1) kernel_dir_ok_def buffer_ok_def kernel_area_def)
  moreover have "current k' = None" by (simp add: e(1,4) k4(4))
  moreover have "list_all (image_ok L (memory k')) (ramimages L)" using im8(3) by (simp add: e(1))
  moreover have "\<forall>j < NPROC. p_pid (processes k' ! j) = int j"
    using B by (simp add: e(1) as_active_proc e(6) pr4 booting_def)
  moreover have "isolated k'" "exact k'" using D8(1,4) by (simp_all add: e(1) exact_def)
  moreover have "low_used k8 \<le> 3 * Suc n" using e(5) k4(5) B by (simp add: booting_def)
  ultimately show "booting L (Suc n) k'" using im8(1) by (simp add: booting_def ext)
  show "kernel_same k k'" using same by (simp add: e(1) kernel_same_def kernel_kept_def)
  show "p_state (processes k' ! i) = P_RUNNABLE" using D8(6) by (simp add: e(1) as_active_def update_proc_def)
  show "p_state (processes k' ! j) = p_state (processes k ! j)" if "j \<noteq> i"
    using e(7) [OF that] that by (simp add: e(1) as_active_def update_proc_def pr4)
qed

text \<open>A program without segments is always set up.\<close>

definition empty_program :: "linked \<Rightarrow> mem \<Rightarrow> nat \<Rightarrow> bool" where
  "empty_program L m prog \<longleftrightarrow> prog < length (ramimages L) \<and>
     (let h = elf_header_at m (ramimages L ! prog) in e_magic h = ELF_MAGIC \<and> e_phnum h = 0)"

lemma empty_program_same:
  assumes B: "booting L n k" and s: "kernel_same k k'" and e: "empty_program L (memory k) prog"
  shows "empty_program L (memory k') prog"
proof -
  have prog: "prog < length (ramimages L)" using e by (simp add: empty_program_def)
  then have "region (ramimages L ! prog) 52 \<subseteq> image_area L"
    using B image_okD(1) [of L "memory k"] by (simp add: booting_def list_all_length)
  from elf_same(1) [OF booting_images(2) [OF B s] this] show ?thesis using e by (simp add: empty_program_def)
qed

lemma empty_program_loaded:
  assumes "empty_program L (memory k) prog"
  obtains f where "program_load L i prog k = Some (0, update_proc i (\<lambda>q. q\<lparr>p_registers := f (p_registers q)\<rparr>) k)"
  using assms by (intro that [of "reg_eip_update (\<lambda>_. e_entry (elf_header_at (memory k) (ramimages L ! prog)))"])
    (simp add: empty_program_def program_load_def Let_def assertion_def)

lemma setup_end_ok:
  assumes L: "loading i k" and low: "low_used k < 63"
  obtains k' where "setup_end i k = Some k'"
proof -
  define k6 where "k6 = update_proc i (\<lambda>q. q\<lparr>p_registers := (p_registers q)\<lparr>reg_esp := MEMSIZE_VIRTUAL\<rparr>\<rparr>) k"
  note R6 = regs_loading [OF L k6_def]
  note T = loading_table [OF R6(1)]
  have "low_used k6 < 63" using low by (simp add: low_used_def R6(3))
  then obtain c where c: "free_page k6 = Some c" "c < NPAGES" "\<not> used k6 c" by (rule low_page [OF T(9)])
  have "MEMSIZE_VIRTUAL - PAGESIZE = page_addr 767" by (simp add: MEMSIZE_VIRTUAL_def PAGESIZE_def)
  then have esp: "reg_esp (p_registers (processes k6 ! i)) - PAGESIZE = page_addr 767" by (simp add: R6(11))
  obtain m' where "virtual_memory_map (p_pagedir (processes k6 ! i)) (page_addr 767) (page_addr c) PAGESIZE 7 (memory k6) = Some m'"
    by (rule map_page [OF T(7) _ page_at_addr [OF c(2)], of 767 7]) (simp, simp, rule that)
  moreover have "processes (own_page c (int i) k6) = processes k6" "memory (own_page c (int i) k6) = memory k6"
    by (simp_all add: own_page_def)
  ultimately show thesis
    by (intro that) (simp add: setup_end_def k6_def [symmetric] m_alloc_eq [OF T(9)] c(1) esp update_mem_def seven)
qed

lemma process_setup_empty:
  assumes B: "booting L n k" and n: "n < 20" and i: "0 < i" "i < NPROC" "p_state (processes k ! i) = P_FREE"
    and e: "empty_program L (memory k) prog"
  obtains k' where "process_setup L i prog k = Some k'"
proof -
  obtain a k2 k3 k4 where k2: "k2 = write_current_pid (int i) (process_init i 0 k)"
    and c: "copy_pagedir (kernel_pagedir L) (read_current_pid k2) k2 = Some (page_addr a, k3)" "a < NPAGES"
    and k4: "k4 = update_proc i (\<lambda>q. q\<lparr>p_pagedir := page_addr a\<rparr>) k3" "loading i k4" "kernel_same k k4"
      "low_used k4 \<le> low_used k + 2"
    by (rule new_space [OF B n i]) (rule that)
  have "empty_program L (memory k4) prog" by (rule empty_program_same [OF B k4(3) e])
  then obtain f where p: "program_load L i prog k4 = Some (0, update_proc i (\<lambda>q. q\<lparr>p_registers := f (p_registers q)\<rparr>) k4)"
    by (rule empty_program_loaded)
  define k5 where "k5 = update_proc i (\<lambda>q. q\<lparr>p_registers := f (p_registers q)\<rparr>) k4"
  note R5 = regs_loading [OF k4(2) k5_def]
  have "low_used k5 < 63" using k4(4) B n by (simp add: booting_def low_used_def R5(3))
  then obtain k' where k': "setup_end i k5 = Some k'" by (rule setup_end_ok [OF R5(1)])
  show thesis
  proof (rule that)
    show "process_setup L i prog k = Some k'"
      using c p k' page_addr_not_minus1 [OF c(2)]
      by (simp add: process_setup_def k2 [symmetric] k4(1) [symmetric] k5_def [symmetric] assertion_def
          setup_end_def [of i k5, unfolded Let_def, symmetric] Let_def cong: if_cong)
  qed
qed


section \<open>All processes\<close>

lemma setup_processes_step:
  "setup_processes L ps k = Some k' \<Longrightarrow> booting L n k \<Longrightarrow> n + length ps \<le> 20 \<Longrightarrow> distinct (map fst ps) \<Longrightarrow>
    (\<And>i. i \<in> fst ` set ps \<Longrightarrow> 0 < i \<and> i < NPROC \<and> p_state (processes k ! i) = P_FREE) \<Longrightarrow>
    booting L (n + length ps) k' \<and>
    (\<forall>j. p_state (processes k' ! j) = (if j \<in> fst ` set ps then P_RUNNABLE else p_state (processes k ! j)))"
proof (induction ps arbitrary: n k)
  case (Cons p ps)
  obtain k1 where k1: "process_setup L (fst p) (snd p) k = Some k1" "setup_processes L ps k1 = Some k'"
    using Cons.prems(1) by (auto split: bind_split_asm)
  have i: "0 < fst p" "fst p < NPROC" "p_state (processes k ! fst p) = P_FREE" using Cons.prems(5) [of "fst p"] by simp_all
  have n: "n < 20" using Cons.prems(3) by simp
  note S = process_setup_step [OF Cons.prems(2) n i k1(1)]
  have p: "fst p \<notin> fst ` set ps" using Cons.prems(4) by simp
  have "booting L (Suc n + length ps) k' \<and>
    (\<forall>j. p_state (processes k' ! j) = (if j \<in> fst ` set ps then P_RUNNABLE else p_state (processes k1 ! j)))"
  proof (rule Cons.IH [OF k1(2) S(1)])
    show "0 < j \<and> j < NPROC \<and> p_state (processes k1 ! j) = P_FREE" if j: "j \<in> fst ` set ps" for j
    proof -
      have "j \<noteq> fst p" using j p by blast
      then show ?thesis using S(4) Cons.prems(5) [of j] j by auto
    qed
  qed (use Cons.prems(3,4) in simp_all)
  then show ?case using S(3,4) by auto
qed simp

lemma setup_processes_empty:
  "booting L n k \<Longrightarrow> n + length ps \<le> 20 \<Longrightarrow> distinct (map fst ps) \<Longrightarrow>
    (\<And>i. i \<in> fst ` set ps \<Longrightarrow> 0 < i \<and> i < NPROC \<and> p_state (processes k ! i) = P_FREE) \<Longrightarrow>
    list_all (\<lambda>p. empty_program L (memory k) (snd p)) ps \<Longrightarrow> \<exists>k'. setup_processes L ps k = Some k'"
proof (induction ps arbitrary: n k)
  case (Cons p ps)
  have i: "0 < fst p" "fst p < NPROC" "p_state (processes k ! fst p) = P_FREE" using Cons.prems(4) [of "fst p"] by simp_all
  have n: "n < 20" using Cons.prems(2) by simp
  have "empty_program L (memory k) (snd p)" using Cons.prems(5) by simp
  then obtain k1 where k1: "process_setup L (fst p) (snd p) k = Some k1"
    by (rule process_setup_empty [OF Cons.prems(1) n i])
  note S = process_setup_step [OF Cons.prems(1) n i k1]
  have p: "fst p \<notin> fst ` set ps" using Cons.prems(3) by simp
  have e: "empty_program L (memory k1) q" if "empty_program L (memory k) q" for q
    using empty_program_same [OF Cons.prems(1) S(2) that] .
  have "\<exists>k'. setup_processes L ps k1 = Some k'"
  proof (rule Cons.IH [OF S(1)])
    show "0 < j \<and> j < NPROC \<and> p_state (processes k1 ! j) = P_FREE" if j: "j \<in> fst ` set ps" for j
    proof -
      have "j \<noteq> fst p" using j p by blast
      then show ?thesis using S(4) Cons.prems(4) [of j] j by auto
    qed
    show "list_all (\<lambda>p. empty_program L (memory k1) (snd p)) ps" using Cons.prems(5) e by (auto simp: list_all_iff)
  qed (use Cons.prems(2,3) in simp_all)
  then show ?case using k1 by simp
qed simp

lemma start_programs_ok:
  "distinct (map fst (start_programs command))" "length (start_programs command) \<le> 20"
  "i \<in> fst ` set (start_programs command) \<Longrightarrow> 0 < i \<and> i < NPROC"
proof -
  have "map (fst \<circ> (\<lambda>i. (i, i - 1))) xs = xs" for xs :: "nat list" by (induction xs) auto
  note m = this this [unfolded One_nat_def]
  have "distinct (map fst (start_programs command)) \<and> length (start_programs command) \<le> 20 \<and>
      set (map fst (start_programs command)) \<subseteq> {1..<6}"
    unfolding start_programs_def by (cases "command = Some ''fork''"; cases "command = Some ''forkexit''"; simp add: m; auto)
  then show "distinct (map fst (start_programs command))" "length (start_programs command) \<le> 20"
    "i \<in> fst ` set (start_programs command) \<Longrightarrow> 0 < i \<and> i < NPROC"
    by (auto simp: NPROC_def)
qed

section \<open>The kernel's own pages\<close>

text \<open>
  What the linker promises: page directory and page table are pages of the kernel, the kernel
  ends below the reserved addresses, and the buffer is on the kernel's stack.
\<close>

definition linked_ok :: "linked \<Rightarrow> bool" where
  "linked_ok L \<longleftrightarrow> page_at (kernel_pagedir L) \<and> page_at (kernel_pagetable0 L) \<and> kernel_pagetable0 L \<noteq> kernel_pagedir L
     \<and> region (kernel_pagedir L) 4096 \<subseteq> {unat KERNEL_START_ADDR ..< unat (kernel_end L)}
     \<and> region (kernel_pagetable0 L) 4096 \<subseteq> {unat KERNEL_START_ADDR ..< unat (kernel_end L)}
     \<and> unat (kernel_end L) \<le> 0xA0000
     \<and> unat KERNEL_STACK_TOP - 4096 \<le> unat (name_buffer L) \<and> unat (name_buffer L) + 4 \<le> unat KERNEL_STACK_TOP"

lemma initial_page_at:
  assumes "c < NPAGES"
  shows "owner (initial_page L c) = word_of_int (initial_owner L (page_addr c))"
    "refcount (initial_page L c) = 0 \<longleftrightarrow> initial_owner L (page_addr c) = PO_FREE"
    "sint (owner (initial_page L c)) = initial_owner L (page_addr c)"
    "owner (initial_page L c) = 0 \<longleftrightarrow> initial_owner L (page_addr c) = PO_FREE"
    "initial_owner L (page_addr c) \<le> 0"
proof -
  have "initial_owner L (page_addr c) \<in> {- 2, - 1, 0}"
    by (simp add: initial_owner_def PO_FREE_def PO_RESERVED_def PO_KERNEL_def)
  then show "owner (initial_page L c) = word_of_int (initial_owner L (page_addr c))"
    "refcount (initial_page L c) = 0 \<longleftrightarrow> initial_owner L (page_addr c) = PO_FREE"
    "sint (owner (initial_page L c)) = initial_owner L (page_addr c)"
    "owner (initial_page L c) = 0 \<longleftrightarrow> initial_owner L (page_addr c) = PO_FREE"
    "initial_owner L (page_addr c) \<le> 0"
    by (auto simp: initial_page_def Let_def PO_FREE_def)
qed

lemma initial_owner_at:
  assumes "c < NPAGES"
  shows "initial_owner L (page_addr c) = (if c = 0 \<or> (160 \<le> c \<and> c < 256) then PO_RESERVED
    else if (64 \<le> c \<and> 4096 * c < unat (kernel_end L)) \<or> c = 127 then PO_KERNEL else PO_FREE)"
proof -
  have u: "unat (page_addr c) = 4096 * c" using assms by (intro unat_page_addr) (simp add: NPAGES_def)
  have z: "page_addr c = 0 \<longleftrightarrow> c = 0" using u by (metis mult_eq_0_iff unat_eq_zero zero_neq_numeral)
  have s: "page_addr c = KERNEL_STACK_TOP - PAGESIZE \<longleftrightarrow> c = 127"
  proof -
    have "KERNEL_STACK_TOP - PAGESIZE = page_addr 127" by (simp add: KERNEL_STACK_TOP_def PAGESIZE_def)
    then show ?thesis using page_addr_eq [OF assms, of 127] by (simp add: NPAGES_def)
  qed
  have r: "physical_memory_isreserved (page_addr c) \<longleftrightarrow> c = 0 \<or> (160 \<le> c \<and> c < 256)"
    unfolding physical_memory_isreserved_def z word_le_nat_alt word_less_nat_alt u by auto
  have k: "page_addr c \<ge> KERNEL_START_ADDR \<and> page_addr c < kernel_end L \<longleftrightarrow> 64 \<le> c \<and> 4096 * c < unat (kernel_end L)"
    unfolding word_le_nat_alt word_less_nat_alt u KERNEL_START_ADDR_def by auto
  show ?thesis unfolding initial_owner_def r k s ..
qed


section \<open>The kernel's own address space\<close>

lemma protect_kernel_ok:
  assumes wf: "wf_dir m pd" and pd: "pd = kernel_pagedir L"
    and e: "\<forall>j < 256. pte m pd j = page_addr j OR 7"
  obtains m' where "protect_kernel L m = Some m'" "wf_dir m' pd" "table_of m' pd = table_of m pd"
    "\<And>j. j < 256 \<Longrightarrow> pte m' pd j = page_addr j OR (if j = 184 then 7 else 3)"
    "\<And>S. region (table_of m pd) 4096 \<inter> S = {} \<Longrightarrow> agree S m m'"
proof -
  have three: "PTE_P OR PTE_W = 3" "unat (3 :: u32) < 0x1000" by (simp_all add: PTE_P_def PTE_W_def)
  have a1: "unat (0 :: u32) = 4096 * 0" "aligned 0" "unat console_base = 4096 * 184" "0 + 184 \<le> (1024 :: nat)"
    "unat (0 :: u32) + unat console_base < 2 ^ 32"
    by (simp_all add: aligned_def console_base_def)
  have a2: "unat (console_base + PAGESIZE) = 4096 * 185" "aligned (console_base + PAGESIZE)"
    "unat (PROC_START_ADDR - (console_base + PAGESIZE)) = 4096 * 71" "185 + 71 \<le> (1024 :: nat)"
    "unat (console_base + PAGESIZE) + unat (PROC_START_ADDR - (console_base + PAGESIZE)) < 2 ^ 32"
    by (simp_all add: aligned_def console_base_def PAGESIZE_def PROC_START_ADDR_def)
  obtain m1 where m1: "virtual_memory_map pd 0 0 console_base 3 m = Some m1" "wf_dir m1 pd" "table_of m1 pd = table_of m pd"
    and p1: "\<forall>j < 1024. pte m1 pd j = (if 0 \<le> j \<and> j < 0 + 184 then (0 + 4096 * word_of_nat (j - 0)) OR 3 else pte m pd j)"
    and o1: "\<forall>S. region (table_of m pd) 4096 \<inter> S = {} \<longrightarrow> agree S m m1"
    using virtual_memory_map_ok [OF wf a1 three(2)] by (elim exE conjE) (rule that)
  obtain m2 where m2: "virtual_memory_map pd (console_base + PAGESIZE) (console_base + PAGESIZE)
        (PROC_START_ADDR - (console_base + PAGESIZE)) 3 m1 = Some m2" "wf_dir m2 pd" "table_of m2 pd = table_of m1 pd"
    and p2: "\<forall>j < 1024. pte m2 pd j = (if 185 \<le> j \<and> j < 185 + 71 then (console_base + PAGESIZE + 4096 * word_of_nat (j - 185)) OR 3
        else pte m1 pd j)"
    and o2: "\<forall>S. region (table_of m1 pd) 4096 \<inter> S = {} \<longrightarrow> agree S m1 m2"
    using virtual_memory_map_ok [OF m1(2) a2 three(2)] by (elim exE conjE) (rule that)
  show thesis
  proof (rule that)
    show "protect_kernel L m = Some m2" using m1(1) m2(1) by (simp add: protect_kernel_def three(1) pd)
    show "wf_dir m2 pd" "table_of m2 pd = table_of m pd" using m2(2,3) m1(3) by simp_all
    show "pte m2 pd j = page_addr j OR (if j = 184 then 7 else 3)" if j: "j < 256" for j
    proof -
      have cb: "console_base + PAGESIZE = 757760" by (simp add: console_base_def PAGESIZE_def)
      have "757760 + page_addr (j - 185) = page_addr j" if "185 \<le> j" using that by (simp add: of_nat_diff)
      then show ?thesis using p1 p2 e j unfolding cb by (cases "j < 184"; cases "185 \<le> j"; simp)
    qed
    show "agree S m m2" if "region (table_of m pd) 4096 \<inter> S = {}" for S
    proof -
      have "agree S m m1" "agree S m1 m2" using o1 o2 m1(3) that by simp_all
      then show ?thesis by (rule agree_trans)
    qed
  qed
qed

definition kernel_mapped :: "linked \<Rightarrow> mem \<Rightarrow> mem \<Rightarrow> bool" where
  "kernel_mapped L m m' \<longleftrightarrow> wf_dir m' (kernel_pagedir L) \<and> table_of m' (kernel_pagedir L) = kernel_pagetable0 L
     \<and> (\<forall>j < 256. pte m' (kernel_pagedir L) j = page_addr j OR (if j = 184 then 7 else 3))
     \<and> agree (image_area L) m m'"

lemma kernel_mapped_ok:
  assumes L: "linked_ok L"
  obtains m1 cr m2 where "virtual_memory_init (kernel_pagedir L) (kernel_pagetable0 L) cr0 m = Some (m1, cr)"
    "protect_kernel L m1 = Some m2" "kernel_mapped L m m2"
proof -
  let ?pd = "kernel_pagedir L" and ?pt = "kernel_pagetable0 L"
  have p: "page_at ?pd" "page_at ?pt" "?pt \<noteq> ?pd" using L by (simp_all add: linked_ok_def)
  obtain m1 where m1: "virtual_memory_init ?pd ?pt cr0 m = Some (m1, ?pd, (cr0 OR CR0_INIT) AND NOT (0x8 OR 0x4))"
    "wf_dir m1 ?pd" "table_of m1 ?pd = ?pt"
    and e: "\<forall>j < 512. pte m1 ?pd j = (4096 * word_of_nat j) OR 7"
    and o1: "\<forall>S. region ?pd 4096 \<inter> S = {} \<and> region ?pt 4096 \<inter> S = {} \<longrightarrow> agree S m m1"
    using virtual_memory_init_ok [OF p, of cr0 m] by (elim exE conjE) (rule that)
  have e': "\<forall>j < 256. pte m1 ?pd j = page_addr j OR 7" using e by simp
  obtain m2 where m2: "protect_kernel L m1 = Some m2" "wf_dir m2 ?pd" "table_of m2 ?pd = table_of m1 ?pd"
    "\<And>j. j < 256 \<Longrightarrow> pte m2 ?pd j = page_addr j OR (if j = 184 then 7 else 3)"
    "\<And>S. region (table_of m1 ?pd) 4096 \<inter> S = {} \<Longrightarrow> agree S m1 m2"
    by (rule protect_kernel_ok [OF m1(2) refl e']) (rule that)
  have "region ?pd 4096 \<inter> image_area L = {}" "region ?pt 4096 \<inter> image_area L = {}" by (auto simp: image_area_def)
  then have "agree (image_area L) m m1" "agree (image_area L) m1 m2" using o1 m2(5) m1(3) by simp_all
  from agree_trans [OF this] show thesis
    by (intro that [OF m1(1) m2(1)]) (simp add: kernel_mapped_def m2 m1(3))
qed

section \<open>The state the processes are set up in\<close>

lemma low_pages_free: "x < 64 \<Longrightarrow> 0 < x \<Longrightarrow> initial_owner L (page_addr x) = PO_FREE"
  by (simp add: initial_owner_at NPAGES_def)

lemma booting_start:
  assumes L: "linked_ok L" and m: "kernel_mapped L m0 (memory k)"
    and im: "list_all (image_ok L m0) (ramimages L)"
    and k: "pageinfo k = map (initial_page L) [0..<NPAGES]" "processes k = map free_proc [0..<NPROC]" "current k = None"
  shows "booting L 0 k"
proof -
  have pi: "pageinfo k ! x = initial_page L x" if "x < NPAGES" for x using that by (simp add: k)
  have pr: "processes k ! i = free_proc i" if "i < NPROC" for i using that by (simp add: k)
  have na: "\<not> active k i" for i by (auto simp: active_def pr free_proc_def)
  note ow = initial_page_at
  have I: "isolated k"
  proof (rule isolatedI)
    show "pages_ok k" using ow by (simp add: pages_ok_def k list_all_length PO_FREE_def)
    show "owner_ok k (pageinfo k ! c)" if "c < NPAGES" for c using ow [OF that] by (simp add: owner_ok_def pi that)
    show "sharing_ok k c" if "c < NPAGES" for c by (simp add: sharing_ok_def sharers_def na)
    show "p_state (processes k ! 0) = P_FREE" by (simp add: pr NPROC_def free_proc_def)
  qed (use na in \<open>simp_all add: k\<close>)
  have e: "exact k" using ow by (simp add: exact_def k list_all_length PO_FREE_def)
  have area: "{unat KERNEL_START_ADDR ..< unat (kernel_end L)} \<subseteq> kernel_area k"
  proof
    fix z assume z: "z \<in> {unat KERNEL_START_ADDR ..< unat (kernel_end L)}"
    have b: "0x40000 \<le> z" "z < unat (kernel_end L)" "unat (kernel_end L) \<le> 0xA0000"
      using z L by (simp_all add: linked_ok_def KERNEL_START_ADDR_def)
    define x where "x = z div 4096"
    have x: "64 \<le> x" "x < 160" "4096 * x \<le> z" "z < 4096 * x + 4096" using b by (simp_all add: x_def)
    have xn: "x < NPAGES" using x by (simp add: NPAGES_def)
    have "initial_owner L (page_addr x) = PO_KERNEL" using x b by (simp add: initial_owner_at [OF xn])
    then have "sint (owner (pageinfo k ! x)) = PO_KERNEL" using ow(3) [OF xn] by (simp add: pi xn)
    moreover have "unat (page_addr x) = 4096 * x" using xn by (intro unat_page_addr) (simp add: NPAGES_def)
    then have "z \<in> page x" using x by (simp add: region_def)
    ultimately show "z \<in> kernel_area k" using xn by (auto simp: kernel_area_def)
  qed
  have dir: "kernel_dir_ok L k"
  proof -
    have "owner (pageinfo k ! 0) = word_of_int PO_RESERVED"
      using ow(1) [of 0 L] by (simp add: pi NPAGES_def initial_owner_at [of 0, simplified])
    moreover have "PTE_ADDR (pte (memory k) (kernel_pagedir L) n) = page_addr n
          \<and> (pte (memory k) (kernel_pagedir L) n AND PTE_U \<noteq> 0 \<longrightarrow> n = CONSOLE_PAGE \<and> sint (owner (pageinfo k ! n)) < 0)" if n: "n < 256" for n
    proof -
      have nn: "n < NPAGES" using n by (simp add: NPAGES_def)
      have p: "pte (memory k) (kernel_pagedir L) n = page_addr n OR (if n = 184 then 7 else 3)"
        using m n by (simp add: kernel_mapped_def)
      have ad: "PTE_ADDR (page_addr n OR w) = page_addr n" if "unat w < 4096" for w
        using PTE_ADDR_page [of "page_addr n" w] page_at_addr [OF nn] that by (simp add: page_at_def)
      have o: "sint (owner (pageinfo k ! CONSOLE_PAGE)) < 0"
        using ow(3) [of 184 L] initial_owner_at [of 184 L] by (simp add: pi NPAGES_def PO_RESERVED_def)
      have q: "(page_addr n OR 3) AND PTE_U = 0" using kernel_page_entry [OF nn] by blast
      show ?thesis
      proof (cases "n = CONSOLE_PAGE")
        case True
        then show ?thesis using o ad [of 7] p by simp
      next
        case False
        then have "pte (memory k) (kernel_pagedir L) n = page_addr n OR 3" using p by simp
        moreover have "PTE_ADDR (page_addr n OR 3) = page_addr n" by (rule ad) simp
        ultimately show ?thesis using q by (simp only: simp_thms)
      qed
    qed
    moreover have "region (kernel_pagedir L) 4096 \<subseteq> kernel_area k" "region (kernel_pagetable0 L) 4096 \<subseteq> kernel_area k"
      using L area by (auto simp: linked_ok_def)
    moreover have "wf_dir (memory k) (kernel_pagedir L)" "table_of (memory k) (kernel_pagedir L) = kernel_pagetable0 L"
      using m by (simp_all add: kernel_mapped_def)
    ultimately show ?thesis unfolding kernel_dir_ok_def by blast
  qed
  have "image_area L \<subseteq> kernel_area k" using area by (auto simp: image_area_def)
  moreover have "list_all (image_ok L (memory k)) (ramimages L)"
    using im m image_ok_same by (auto simp: kernel_mapped_def list_all_iff)
  moreover have "buffer_ok L k"
  proof -
    have b': "4096 * 127 \<le> unat (name_buffer L)" "unat (name_buffer L) + 4 \<le> 4096 * 128"
      using L by (simp_all add: linked_ok_def KERNEL_STACK_TOP_def)
    then have b: "unat (name_buffer L) div 4096 = 127" "unat (name_buffer L) + 4 \<le> 4096 * 128" by linarith+
    have "sint (owner (pageinfo k ! 127)) < 0"
      using ow(3) [of 127 L] initial_owner_at [of 127 L] by (simp add: pi NPAGES_def PO_RESERVED_def PO_KERNEL_def)
    moreover have "page_number (name_buffer L) = 127" using b(1) by (simp add: page_number_def PAGENUMBER_def drop_bit_eq_div unat_div)
    ultimately show ?thesis using b by (simp add: buffer_ok_def NPAGES_def)
  qed
  moreover have "low_used k = 0"
  proof -
    have "{c. 0 < c \<and> c < 64 \<and> used k c} = {}"
    proof -
      have "\<not> used k c" if "0 < c" "c < 64" for c
        using low_pages_free [OF that(2,1)] ow(4) [of c L] that by (simp add: used_def pi NPAGES_def)
      then show ?thesis by blast
    qed
    then show ?thesis unfolding low_used_def by simp
  qed
  moreover have "\<forall>i < NPROC. p_pid (processes k ! i) = int i" by (simp add: pr free_proc_def)
  ultimately show ?thesis using I e dir k(3) by (simp add: booting_def)
qed

text \<open>\<open>start\<close> up to its processes.\<close>

lemma start_up:
  assumes L: "linked_ok L" and im: "list_all (image_ok L (memory k)) (ramimages L)" and c: "current k = None"
  obtains k1 where "start L D command k = do { k2 \<leftarrow> setup_processes L (start_programs command) k1; run 1 k2 }"
    "booting L 0 k1" "agree (image_area L) (memory k) (memory k1)"
    "\<And>i. i \<in> fst ` set (start_programs command) \<Longrightarrow> 0 < i \<and> i < NPROC \<and> p_state (processes k1 ! i) = P_FREE"
proof -
  obtain m1 cr m2 where m: "virtual_memory_init (kernel_pagedir L) (kernel_pagetable0 L) (snd (control k)) (memory k) = Some (m1, cr)"
    "protect_kernel L m1 = Some m2" "kernel_mapped L (memory k) m2"
    by (rule kernel_mapped_ok [OF L])
  define k1 where "k1 = (let (en, d) = interrupt_init D (devices k); (cs, pos) = console_clear (cells k);
      (en, d) = timer_init D HZ en d in
     k\<lparr>descriptors := segments_init (int_handlers L) (descriptors k), control := cr, pageinfo := map (initial_page L) [0..<NPAGES],
       cells := cs, cursorpos := pos, enabled := en, devices := d, processes := map free_proc [0..<NPROC], memory := m2\<rparr>)"
  have k1: "memory k1 = m2" "pageinfo k1 = map (initial_page L) [0..<NPAGES]" "processes k1 = map free_proc [0..<NPROC]"
    "current k1 = None"
    by (simp_all add: k1_def c split: prod.split)
  show thesis
  proof (rule that)
    show "start L D command k = do { k2 \<leftarrow> setup_processes L (start_programs command) k1; run 1 k2 }"
      using m(1,2) unfolding start_def hardware_init_def pageinfo_init_def k1_def
      by (simp add: update_mem_def Let_def split: prod.split)
    show "booting L 0 k1" by (rule booting_start [OF L _ im k1(2-4)]) (simp add: k1(1) m(3))
    show "agree (image_area L) (memory k) (memory k1)" using m(3) by (simp add: kernel_mapped_def k1(1))
    show "0 < i \<and> i < NPROC \<and> p_state (processes k1 ! i) = P_FREE" if "i \<in> fst ` set (start_programs command)" for i
      using start_programs_ok(3) [OF that] by (simp add: k1(3) free_proc_def)
  qed
qed

lemma start_good:
  assumes L: "linked_ok L" and im: "list_all (image_ok L (memory k)) (ramimages L)" and c: "current k = None"
    and run: "start L D command k = Some k'"
  shows "good L k'"
proof -
  obtain k1 where k1: "start L D command k = do { k2 \<leftarrow> setup_processes L (start_programs command) k1; run 1 k2 }"
    "booting L 0 k1"
    "\<And>i. i \<in> fst ` set (start_programs command) \<Longrightarrow> 0 < i \<and> i < NPROC \<and> p_state (processes k1 ! i) = P_FREE"
    by (rule start_up [OF L im c]) (rule that)
  obtain k2 where k2: "setup_processes L (start_programs command) k1 = Some k2" "run 1 k2 = Some k'"
    using run k1(1) by (auto split: bind_split_asm)
  have B: "booting L (0 + length (start_programs command)) k2"
    using setup_processes_step [OF k2(1) k1(2) _ _ k1(3)] start_programs_ok(1,2) by simp
  note r = runD [OF k2(2)]
  have I: "isolated k2" "buffer_ok L k2" using B by (simp_all add: booting_def)
  have "isolated k'" by (rule isolated_same [OF I(1)]) (simp_all add: r agree_refl)
  moreover have "buffer_ok L k'" using I(2) by (simp add: buffer_ok_def r)
  moreover have "active k' 1" using r(1) by (simp add: active_def r NPROC_def)
  ultimately show ?thesis by (simp add: good_def running_def r(2))
qed

lemma start_empty:
  assumes L: "linked_ok L" and im: "list_all (image_ok L (memory k)) (ramimages L)" and c: "current k = None"
    and e: "list_all (\<lambda>p. empty_program L (memory k) (snd p)) (start_programs command)"
  obtains k' where "start L D command k = Some k'"
proof -
  obtain k1 where k1: "start L D command k = do { k2 \<leftarrow> setup_processes L (start_programs command) k1; run 1 k2 }"
    "booting L 0 k1" "agree (image_area L) (memory k) (memory k1)"
    "\<And>i. i \<in> fst ` set (start_programs command) \<Longrightarrow> 0 < i \<and> i < NPROC \<and> p_state (processes k1 ! i) = P_FREE"
    by (rule start_up [OF L im c]) (rule that)
  have "empty_program L (memory k1) q" if "empty_program L (memory k) q" for q
    using that elf_same(1) [OF k1(3)] im image_okD(1) [of L "memory k"]
    by (simp add: empty_program_def list_all_length)
  then have e1: "list_all (\<lambda>p. empty_program L (memory k1) (snd p)) (start_programs command)"
    using e by (auto simp: list_all_iff)
  obtain k2 where k2: "setup_processes L (start_programs command) k1 = Some k2"
    using setup_processes_empty [OF k1(2) _ _ k1(4) e1] start_programs_ok(1,2) by auto
  have "1 \<in> fst ` set (start_programs command)" by (force simp: start_programs_def image_iff)
  then have "p_state (processes k2 ! 1) = P_RUNNABLE"
    using setup_processes_step [OF k2 k1(2) _ _ k1(4)] start_programs_ok(1,2) by simp
  then show thesis by (intro that) (simp add: k1(1) k2 run_def assertion_def)
qed

section \<open>From the start on\<close>

text \<open>
  C2: After a cold boot, with any command line: once \<open>start\<close> has loaded its programs and run the
  first process, every state that writes of processes and interrupts reach keeps the address spaces
  of the processes apart, and a process is running in it. The linker promises \<open>linked_ok\<close>; a
  program in the kernel's image is loaded above the kernel, and its header and segment table lie in
  the image (\<open>image_ok\<close>); the calls of the processes are within the guard \<open>call_ok\<close>, which the kernel
  does not check. \<open>current\<close> is null as the boot loader leaves it; after a soft reboot it points to
  the process that ran, and \<open>process_setup\<close> overwrites that one's pid.
\<close>

theorem booted_isolation:
  assumes "linked_ok L" and "list_all (image_ok L (memory k)) (ramimages L)" and "current k = None"
    and "start L D command k = Some k0" and "reaches (kernel_step L D) k0 k1"
  shows "isolated k1 \<and> spaces_apart k1 \<and> running k1"
proof -
  have "good L k1" by (rule sep.reaches_inv [OF assms(5) start_good [OF assms(1-4)]])
  then show ?thesis using isolated_apart by (auto simp: good_def)
qed

definition boot_linked :: linked where
  "boot_linked = \<lparr>kernel_pagedir = 0x40000, kernel_pagetable0 = 0x41000, kernel_end = 0x43000,
     ramimages = replicate 6 0x42000, int_handlers = int_handlers two_linked, name_buffer = 0x7FF00\<rparr>"

definition boot_memory :: mem where
  "boot_memory = store32 (\<lambda>_. 0) 0x42000 ELF_MAGIC"

lemma boot_linked_ok: "linked_ok boot_linked"
  by (simp add: linked_ok_def boot_linked_def page_at_def aligned_def region_def KERNEL_START_ADDR_def KERNEL_STACK_TOP_def)

lemma boot_header: "e_magic (elf_header_at boot_memory 0x42000) = ELF_MAGIC" "e_phnum (elf_header_at boot_memory 0x42000) = 0"
  by (simp add: elf_header_at_def boot_memory_def) (simp add: elf_header_at_def boot_memory_def load16_def store32_def)

lemma boot_image: "image_ok boot_linked boot_memory 0x42000"
  by (simp add: image_ok_def Let_def boot_header image_area_def boot_linked_def region_def KERNEL_START_ADDR_def)

lemma boot_programs: "list_all (\<lambda>p. empty_program boot_linked boot_memory (snd p)) (start_programs command)"
proof -
  have "empty_program boot_linked boot_memory q" if "q < 6" for q
    using that by (simp add: empty_program_def boot_header boot_linked_def Let_def)
  then show ?thesis by (auto simp: start_programs_def list_all_iff)
qed

theorem booted_isolation_witness:
  "\<exists>k0. start boot_linked no_devices (Some ''fork'') ((one_process boot_memory)\<lparr>current := None\<rparr>) = Some k0
     \<and> isolated k0 \<and> spaces_apart k0 \<and> running k0"
proof -
  let ?k = "(one_process boot_memory)\<lparr>current := None\<rparr>"
  have m: "memory ?k = boot_memory" "current ?k = None" by (simp_all add: one_process_def)
  have im: "list_all (image_ok boot_linked (memory ?k)) (ramimages boot_linked)"
    proof -
    have "ramimages boot_linked = replicate 6 0x42000" by (simp add: boot_linked_def)
    then show ?thesis unfolding m using boot_image by (simp add: list_all_length)
  qed
  have e: "list_all (\<lambda>p. empty_program boot_linked (memory ?k) (snd p)) (start_programs (Some ''fork''))"
    unfolding m by (rule boot_programs)
  obtain k0 where k0: "start boot_linked no_devices (Some ''fork'') ?k = Some k0"
    by (rule start_empty [OF boot_linked_ok im m(2) e])
  from booted_isolation [OF boot_linked_ok im m(2) k0 reaches_start] k0 show ?thesis by blast
qed

end
