(* ===== verification/Processes.thy ===== *)
theory Processes
  imports KernelApart LibRand
begin

text \<open>
  The processes of WeensyOS: \<open>pset3/p-allocator.c\<close>, \<open>p-fork.c\<close>, \<open>p-forkexit.c\<close> with the system
  calls of \<open>process.h\<close>. A process is a state machine: one step takes the result of the last
  call and computes, up to the next call, the bytes it stores and the call it makes. \<open>None\<close>
  is a process that spins without a call.
\<close>

section \<open>System calls\<close>

datatype syscall = Sys_panic string | Sys_getpid | Sys_yield | Sys_page_alloc u32 | Sys_fork | Sys_exit

text \<open>
  The registers at a call: the number selects the interrupt, an argument is in \<open>%eax\<close>, which a
  call without one leaves as it is. The text of a panic is in a buffer on the stack.
\<close>

definition syscall_0 :: "nat \<Rightarrow> registers \<Rightarrow> registers" where
  "syscall_0 number regs = regs\<lparr>reg_intno := word_of_nat number\<rparr>"

definition syscall_1 :: "nat \<Rightarrow> u32 \<Rightarrow> registers \<Rightarrow> registers" where
  "syscall_1 number arg0 regs = regs\<lparr>reg_intno := word_of_nat number, reg_eax := arg0\<rparr>"

definition syscall_registers :: "u32 \<Rightarrow> syscall \<Rightarrow> registers \<Rightarrow> registers" where
  "syscall_registers buf c = (case c of Sys_panic _ \<Rightarrow> syscall_1 INT_SYS_PANIC buf
     | Sys_getpid \<Rightarrow> syscall_1 INT_SYS_GETPID 0 | Sys_yield \<Rightarrow> syscall_0 INT_SYS_YIELD
     | Sys_page_alloc addr \<Rightarrow> syscall_1 INT_SYS_PAGE_ALLOC addr | Sys_fork \<Rightarrow> syscall_0 INT_SYS_FORK
     | Sys_exit \<Rightarrow> syscall_0 INT_SYS_EXIT)"

definition ROUNDDOWN :: "u32 \<Rightarrow> u32 \<Rightarrow> u32" where
  "ROUNDDOWN a n = a - a mod n"

definition ROUNDUP :: "u32 \<Rightarrow> u32 \<Rightarrow> u32" where
  "ROUNDUP a n = ROUNDDOWN (a + n - 1) n"

section \<open>The state of a process\<close>

text \<open>Where a process is: the call it waits for, or the end of its loop.\<close>

datatype label = Starting | Fork_1 | Fork_2 | Waiting | Forking | At_getpid | Looping | Allocating
  | Reforking | Repid | Drained | Stopped

record user =
  label :: label
  pid :: int
  heap_top :: u32
  stack_bottom :: u32
  random :: rng

text \<open>A step's result: the state, the bytes stored, the console and the call.\<close>

type_synonym user_step = "user \<times> (u32 \<times> u8) list \<times> u16 list \<times> syscall option"

definition ALLOC_SLOWDOWN :: int where "ALLOC_SLOWDOWN = 100"

definition call_from :: "user \<Rightarrow> label \<Rightarrow> syscall \<Rightarrow> u16 list \<Rightarrow> user_step" where
  "call_from u l c cs = (u\<lparr>label := l\<rparr>, [], cs, Some c)"

definition stores :: "(u32 \<times> u8) list \<Rightarrow> user_step \<Rightarrow> user_step" where
  "stores ws r = (case r of (u, ws', cs, c) \<Rightarrow> (u, ws @ ws', cs, c))"

text \<open>\<open>rand\<close> is never negative, so \<open>mod\<close> is C's remainder here.\<close>

definition rand_below :: "int \<Rightarrow> user \<Rightarrow> int \<times> user" where
  "rand_below n u = (let (x, g) = rand (random u) in (sint x mod n, u\<lparr>random := g\<rparr>))"

text \<open>After \<open>sys_getpid\<close>: the seed, the heap behind the program, the page of the stack.\<close>

definition start_heap :: "u32 \<Rightarrow> u32 \<Rightarrow> u32 \<Rightarrow> user \<Rightarrow> user" where
  "start_heap end_addr esp p u = u\<lparr>pid := sint p, random := srand p (random u),
     heap_top := ROUNDUP end_addr PAGESIZE, stack_bottom := ROUNDDOWN (esp - 1) PAGESIZE\<rparr>"

text \<open>A page has been allocated: the store that tests it, and the next address.\<close>

definition heap_store :: "user \<Rightarrow> (u32 \<times> u8) list" where
  "heap_store u = [(heap_top u, word_of_int (pid u))]"

definition grow_heap :: "user \<Rightarrow> user" where
  "grow_heap u = u\<lparr>heap_top := heap_top u + PAGESIZE\<rparr>"

section \<open>p-allocator and p-fork\<close>

definition allocator_loop :: "user \<Rightarrow> u16 list \<Rightarrow> user_step" where
  "allocator_loop u cs =
     (let (x, u) = rand_below ALLOC_SLOWDOWN u in
      if x < pid u
      then if heap_top u = stack_bottom u then call_from u Drained Sys_yield cs
           else call_from u Allocating (Sys_page_alloc (heap_top u)) cs
      else call_from u Looping Sys_yield cs)"

definition allocator_step :: "u32 \<Rightarrow> u32 \<Rightarrow> user \<Rightarrow> u32 \<Rightarrow> u16 list \<Rightarrow> user_step" where
  "allocator_step end_addr esp u r cs =
     (case label u of
        Starting \<Rightarrow> call_from u At_getpid Sys_getpid cs
      | At_getpid \<Rightarrow> allocator_loop (start_heap end_addr esp r u) cs
      | Looping \<Rightarrow> allocator_loop u cs
      | Allocating \<Rightarrow>
          if sint r < 0 then call_from u Drained Sys_yield cs
          else stores (heap_store u) (call_from (grow_heap u) Looping Sys_yield cs)
      | Drained \<Rightarrow> call_from u Drained Sys_yield cs
      | _ \<Rightarrow> (u, [], cs, None))"

definition fork_step :: "u32 \<Rightarrow> u32 \<Rightarrow> user \<Rightarrow> u32 \<Rightarrow> u16 list \<Rightarrow> user_step" where
  "fork_step end_addr esp u r cs =
     (case label u of
        Starting \<Rightarrow> call_from u Fork_1 Sys_fork cs
      | Fork_1 \<Rightarrow>
          if sint r \<ge> 0 then call_from u Fork_2 Sys_fork cs
          else call_from u Stopped (Sys_panic (''p-fork.c:13: assertion 'p >= 0' failed'' @ [CHR 0x0A])) cs
      | Fork_2 \<Rightarrow>
          if sint r \<ge> 0 then call_from u At_getpid Sys_getpid cs
          else call_from u Stopped (Sys_panic (''p-fork.c:15: assertion 'p >= 0' failed'' @ [CHR 0x0A])) cs
      | Stopped \<Rightarrow> (u, [], cs, None)
      | _ \<Rightarrow> allocator_step end_addr esp u r cs)"

section \<open>p-forkexit\<close>

definition forkexit_wait :: "user \<Rightarrow> u16 list \<Rightarrow> user_step" where
  "forkexit_wait u cs =
     (let (x, u) = rand_below ALLOC_SLOWDOWN u in
      if x = 0 then call_from u Forking Sys_fork cs else call_from u Waiting Sys_yield cs)"

definition forkexit_drained :: "user \<Rightarrow> u16 list \<Rightarrow> user_step" where
  "forkexit_drained u cs =
     (let (x, u) = rand_below (2 * ALLOC_SLOWDOWN) u in
      if x = 0 then call_from u Stopped Sys_exit cs else call_from u Drained Sys_yield cs)"

definition forkexit_loop :: "user \<Rightarrow> u16 list \<Rightarrow> user_step" where
  "forkexit_loop u cs =
     (let (x, u) = rand_below (8 * ALLOC_SLOWDOWN) u in
      if x < 8 * pid u
      then if heap_top u = stack_bottom u then forkexit_drained u cs
           else call_from u Allocating (Sys_page_alloc (heap_top u)) cs
      else if x = 8 * pid u then call_from u Reforking Sys_fork cs
      else if x = 8 * pid u + 1 then call_from u Stopped Sys_exit cs
      else call_from u Looping Sys_yield cs)"

text \<open>The message of the kernel at the bottom of the console is erased; no \<open>%s\<close> reads memory.\<close>

definition clear_message :: "u16 list \<Rightarrow> u16 list" where
  "clear_message cs =
     (if cs ! nat (CPOS 24 0) \<noteq> 0
      then case console_vprintf (\<lambda>_. 0) cs (CPOS 24 0) 0 [CHR 0x0A] [] of Some (cs', _) \<Rightarrow> cs' | None \<Rightarrow> cs
      else cs)"

definition forkexit_step :: "u32 \<Rightarrow> u32 \<Rightarrow> user \<Rightarrow> u32 \<Rightarrow> u16 list \<Rightarrow> user_step" where
  "forkexit_step end_addr esp u r cs =
     (case label u of
        Starting \<Rightarrow> forkexit_wait u cs
      | Waiting \<Rightarrow> forkexit_wait u cs
      | Forking \<Rightarrow> if r = 0 then call_from u At_getpid Sys_getpid cs else forkexit_wait u cs
      | At_getpid \<Rightarrow> forkexit_loop (start_heap end_addr esp r u) cs
      | Looping \<Rightarrow> forkexit_loop u cs
      | Allocating \<Rightarrow>
          if sint r < 0 then forkexit_drained u cs
          else stores (heap_store u) (forkexit_loop (grow_heap u) (clear_message cs))
      | Reforking \<Rightarrow> if r = 0 then call_from u Repid Sys_getpid cs else forkexit_loop u cs
      | Repid \<Rightarrow> forkexit_loop (u\<lparr>pid := sint r\<rparr>) cs
      | Drained \<Rightarrow> forkexit_drained u cs
      | _ \<Rightarrow> (u, [], cs, None))"

section \<open>Runs\<close>

text \<open>
  A run gives each call its result, and the process the console as others have left it; the
  first result is that of no call.
\<close>

primrec user_run :: "(user \<Rightarrow> u32 \<Rightarrow> u16 list \<Rightarrow> user_step) \<Rightarrow> user \<Rightarrow> (u32 \<times> u16 list) list
    \<Rightarrow> ((u32 \<times> u8) list \<times> syscall option) list" where
  "user_run step u [] = []"
| "user_run step u (i # is) =
     (case step u (fst i) (snd i) of (u', ws, cs, c) \<Rightarrow> (ws, c) # user_run step u' is)"

definition new_user :: user where
  "new_user = \<lparr>label = Starting, pid = 0, heap_top = 0, stack_bottom = 0,
     random = \<lparr>rand_seed_set = False, rand_seed = 0\<rparr>\<rparr>"

primrec requested :: "((u32 \<times> u8) list \<times> syscall option) list \<Rightarrow> u32 list" where
  "requested [] = []"
| "requested (a # as) = (case snd a of Some (Sys_page_alloc p) \<Rightarrow> p # requested as | _ \<Rightarrow> requested as)"

end
