(* ===== verification/ProcessProps.thy ===== *)
theory ProcessProps
  imports Processes
begin

text \<open>
  What the processes of WeensyOS ask the kernel for: consecutive pages between their program
  and their stack, and no store outside of the pages they were given. This is what the kernel
  relies on without checking it.
\<close>

section \<open>The interface of a process that grows a heap\<close>

text \<open>
  Page \<open>n\<close> is the next one a process in \<open>inv e s n\<close> asks for, from \<open>first e\<close> on and below
  \<open>limit s\<close>. \<open>asked u\<close> is the page \<open>u\<close> waits for.
\<close>

text \<open>A run stores nothing but in the page whose request the kernel has just granted.\<close>

definition granted :: "syscall option \<Rightarrow> u32 \<Rightarrow> u32 set" where
  "granted c r = (case c of Some (Sys_page_alloc p) \<Rightarrow> if 0 \<le> sint r then {p} else {} | _ \<Rightarrow> {})"

fun stores_granted :: "syscall option \<Rightarrow> (u32 \<times> u16 list) list \<Rightarrow> ((u32 \<times> u8) list \<times> syscall option) list \<Rightarrow> bool" where
  "stores_granted c (i # is) (a # as) \<longleftrightarrow> fst ` set (fst a) \<subseteq> granted c (fst i) \<and> stores_granted (snd a) is as"
| "stores_granted c _ _ \<longleftrightarrow> True"

locale heap_program =
  fixes step :: "u32 \<Rightarrow> u32 \<Rightarrow> user \<Rightarrow> u32 \<Rightarrow> u16 list \<Rightarrow> user_step"
    and ok :: "u32 \<Rightarrow> u32 \<Rightarrow> bool" and inv :: "u32 \<Rightarrow> u32 \<Rightarrow> nat \<Rightarrow> user \<Rightarrow> bool"
    and first :: "u32 \<Rightarrow> nat" and limit :: "u32 \<Rightarrow> nat" and asked :: "user \<Rightarrow> u32 option"
  assumes start: "ok e s \<Longrightarrow> inv e s (first e) new_user" and start_asked: "asked new_user = None"
    and below: "ok e s \<Longrightarrow> first e \<le> limit s"
    and step: "ok e s \<Longrightarrow> inv e s n u \<Longrightarrow> step e s u r cs = (u', ws, cs', c) \<Longrightarrow>
      (requested [(ws, c)] = [] \<and> inv e s n u') \<or>
      (requested [(ws, c)] = [page_addr n] \<and> n < limit s \<and> inv e s (Suc n) u')"
    and asks: "step e s u r cs = (u', ws, cs', c) \<Longrightarrow> asked u' = Some p \<Longrightarrow> c = Some (Sys_page_alloc p)"
    and store: "step e s u r cs = (u', ws, cs', c) \<Longrightarrow>
      ws = [] \<or> (\<exists>p. asked u = Some p \<and> 0 \<le> sint r \<and> fst ` set ws \<subseteq> {p})"
begin

lemma run_requests:
  assumes ok: "ok e s"
  shows "inv e s n u \<Longrightarrow> n \<le> limit s \<Longrightarrow>
    \<exists>k. requested (user_run (step e s) u is) = map page_addr [n..<n + k] \<and> n + k \<le> limit s"
proof (induction "is" arbitrary: n u)
  case Nil
  then show ?case by (intro exI [of _ 0]) simp
next
  case (Cons i "is")
  obtain u' ws cs c where s: "step e s u (fst i) (snd i) = (u', ws, cs, c)" by (cases "step e s u (fst i) (snd i)")
  have rq: "requested ((ws, c) # as) = requested [(ws, c)] @ requested as" for as
    by (simp split: option.splits syscall.splits)
  have run: "requested (user_run (step e s) u (i # is)) = requested [(ws, c)] @ requested (user_run (step e s) u' is)"
    by (subst rq [symmetric]) (simp add: s)
  from step [OF ok Cons.prems(1) s] show ?case
  proof (elim disjE conjE)
    assume r: "requested [(ws, c)] = []" "inv e s n u'"
    then show ?thesis unfolding run r(1) append_Nil by (intro Cons.IH Cons.prems(2))
  next
    assume r: "requested [(ws, c)] = [page_addr n]" "n < limit s" "inv e s (Suc n) u'"
    from r(2) have "Suc n \<le> limit s" by simp
    from Cons.IH [OF r(3) this] obtain k where k:
      "requested (user_run (step e s) u' is) = map page_addr [Suc n..<Suc n + k]" "Suc n + k \<le> limit s" by blast
    have "[n..<n + Suc k] = n # [Suc n..<Suc n + k]" by (simp add: upt_conv_Cons del: upt_Suc)
    then show ?thesis unfolding run r(1) k(1) using k(2) by (intro exI [of _ "Suc k"]) (simp del: upt_Suc)
  qed
qed

lemma run_stores:
  "(\<And>p. asked u = Some p \<Longrightarrow> c = Some (Sys_page_alloc p)) \<Longrightarrow> stores_granted c is (user_run (step e s) u is)"
proof (induction "is" arbitrary: u c)
  case (Cons i "is")
  obtain u' ws cs c' where s: "step e s u (fst i) (snd i) = (u', ws, cs, c')" by (cases "step e s u (fst i) (snd i)")
  have "fst ` set ws \<subseteq> granted c (fst i)" using store [OF s] Cons.prems by (auto simp: granted_def)
  moreover have "stores_granted c' is (user_run (step e s) u' is)" by (rule Cons.IH) (rule asks [OF s])
  ultimately show ?case by (simp add: s)
qed simp

lemma run_pages:
  assumes "ok e s"
  shows "\<exists>k. requested (user_run (step e s) new_user is) = map page_addr [first e..<first e + k] \<and> first e + k \<le> limit s"
    "stores_granted None is (user_run (step e s) new_user is)"
  using run_requests [OF assms start [OF assms] below [OF assms]] run_stores [of new_user] start_asked by simp_all

end

section \<open>Where heap and stack are\<close>

definition heap_first :: "u32 \<Rightarrow> nat" where "heap_first end_addr = (unat end_addr + 4095) div 4096"
definition stack_page :: "u32 \<Rightarrow> nat" where "stack_page esp = (unat esp - 1) div 4096"

text \<open>The program is in the process's half, below the stack, which is in it too.\<close>

definition layout_ok :: "u32 \<Rightarrow> u32 \<Rightarrow> bool" where
  "layout_ok end_addr esp \<longleftrightarrow> PROC_START_ADDR \<le> end_addr \<and> esp \<le> MEMSIZE_VIRTUAL
     \<and> heap_first end_addr \<le> stack_page esp"

lemma ROUNDDOWN_page: "ROUNDDOWN a PAGESIZE = page_addr (unat a div 4096)"
proof (rule unsigned_word_eqI)
  have m: "unat (a mod PAGESIZE) = unat a mod 4096" by (simp add: unat_mod PAGESIZE_def)
  have "unat (ROUNDDOWN a PAGESIZE) = unat a - unat a mod 4096"
    unfolding ROUNDDOWN_def by (subst unat_sub) (simp_all add: m word_le_nat_alt)
  also have "\<dots> = 4096 * (unat a div 4096)" by (simp add: minus_mod_eq_mult_div)
  also have "\<dots> = unat (page_addr (unat a div 4096))"
  proof (rule unat_page_addr [symmetric])
    have "unat a < 4294967296" by simp
    then show "unat a div 4096 < 1048576" by (simp add: less_mult_imp_div_less)
  qed
  finally show "unat (ROUNDDOWN a PAGESIZE) = unat (page_addr (unat a div 4096))" .
qed

lemma layout_pages:
  assumes "layout_ok end_addr esp"
  shows "256 \<le> heap_first end_addr" "heap_first end_addr \<le> stack_page esp" "stack_page esp < 768"
    "ROUNDUP end_addr PAGESIZE = page_addr (heap_first end_addr)"
    "ROUNDDOWN (esp - 1) PAGESIZE = page_addr (stack_page esp)"
proof -
  have l: "0x100000 \<le> unat end_addr" "unat esp \<le> 0x300000" "heap_first end_addr \<le> stack_page esp"
    using assms by (simp_all add: layout_ok_def PROC_START_ADDR_def MEMSIZE_VIRTUAL_def word_le_nat_alt)
  show h: "256 \<le> heap_first end_addr" using l(1) unfolding heap_first_def by linarith
  show s: "stack_page esp < 768" using l(2) unfolding stack_page_def by linarith
  show hs: "heap_first end_addr \<le> stack_page esp" by (rule l(3))
  have e: "unat end_addr < 0x300000" using hs s unfolding heap_first_def by linarith
  have "unat (end_addr + PAGESIZE - 1) = unat end_addr + 4095"
  proof -
    have p: "end_addr + PAGESIZE - 1 = end_addr + 4095" by (simp add: PAGESIZE_def)
    have "unat (end_addr + 4095) = unat end_addr + unat (4095 :: u32)" by (rule unat_add_small) (use e in simp)
    then show ?thesis unfolding p by simp
  qed
  then show "ROUNDUP end_addr PAGESIZE = page_addr (heap_first end_addr)"
    by (simp only: ROUNDUP_def ROUNDDOWN_page heap_first_def)
  have "0 < unat esp" using hs h unfolding stack_page_def by linarith
  then have "unat (esp - 1) = unat esp - 1" by (subst unat_sub) (simp_all add: word_le_nat_alt)
  then show "ROUNDDOWN (esp - 1) PAGESIZE = page_addr (stack_page esp)"
    by (simp only: ROUNDDOWN_page stack_page_def)
qed

definition at_heap :: "u32 \<Rightarrow> nat \<Rightarrow> user \<Rightarrow> bool" where
  "at_heap esp m u \<longleftrightarrow> heap_top u = page_addr m \<and> stack_bottom u = page_addr (stack_page esp) \<and> m \<le> stack_page esp"

definition heap_inv :: "u32 \<Rightarrow> u32 \<Rightarrow> nat \<Rightarrow> user \<Rightarrow> bool" where
  "heap_inv end_addr esp n u \<longleftrightarrow> heap_first end_addr \<le> n \<and>
     (if label u \<in> {Starting, Fork_1, Fork_2, Waiting, Forking, At_getpid} then n = heap_first end_addr
      else if label u \<in> {Looping, Reforking, Repid} then at_heap esp n u
      else if label u = Allocating
      then 0 < n \<and> heap_first end_addr \<le> n - 1 \<and> at_heap esp (n - 1) u \<and> n - 1 < stack_page esp
      else True)"

lemma at_heap_simps [simp]:
  "at_heap esp m (u\<lparr>label := l\<rparr>) = at_heap esp m u" "at_heap esp m (u\<lparr>pid := p\<rparr>) = at_heap esp m u"
  "at_heap esp m (u\<lparr>random := g\<rparr>) = at_heap esp m u"
  by (simp_all add: at_heap_def)

lemma at_heap_start: "layout_ok end_addr esp \<Longrightarrow> at_heap esp (heap_first end_addr) (start_heap end_addr esp p u)"
  by (simp add: at_heap_def start_heap_def layout_pages)

lemma at_heap_grow:
  "layout_ok end_addr esp \<Longrightarrow> at_heap esp m u \<Longrightarrow> m < stack_page esp \<Longrightarrow> at_heap esp (Suc m) (grow_heap u)"
  by (simp add: at_heap_def grow_heap_def PAGESIZE_def algebra_simps)

lemma at_heap_full:
  assumes "layout_ok end_addr esp" "at_heap esp m u"
  shows "heap_top u = stack_bottom u \<longleftrightarrow> m = stack_page esp"
proof -
  have m: "m < 1048576" "stack_page esp < 1048576" using assms layout_pages(3) [OF assms(1)] by (auto simp: at_heap_def)
  have "m = stack_page esp" if "page_addr m = page_addr (stack_page esp)"
  proof -
    have "unat (page_addr m) = unat (page_addr (stack_page esp))" by (simp only: that)
    then show ?thesis using m by (simp only: unat_page_addr mult_cancel1) simp
  qed
  then show ?thesis using assms(2) by (auto simp: at_heap_def)
qed

lemma rand_below_heap: "rand_below k u = (x, u') \<Longrightarrow> at_heap esp m u' = at_heap esp m u \<and> label u' = label u \<and> pid u' = pid u"
  by (auto simp: rand_below_def Let_def at_heap_def split: prod.splits)


section \<open>The programs\<close>

definition heap_asked :: "user \<Rightarrow> u32 option" where
  "heap_asked u = (if label u = Allocating then Some (heap_top u) else None)"

text \<open>What a step may do from page \<open>n\<close>.\<close>

definition step_ok :: "u32 \<Rightarrow> u32 \<Rightarrow> nat \<Rightarrow> user_step \<Rightarrow> bool" where
  "step_ok end_addr esp n r = (case r of (u', ws, cs', c) \<Rightarrow>
     (requested [(ws, c)] = [] \<and> heap_inv end_addr esp n u') \<or>
     (requested [(ws, c)] = [page_addr n] \<and> n < stack_page esp \<and> heap_inv end_addr esp (Suc n) u'))"

definition asks_ok :: "user_step \<Rightarrow> bool" where
  "asks_ok r = (case r of (u', ws, cs', c) \<Rightarrow> label u' = Allocating \<longrightarrow> c = Some (Sys_page_alloc (heap_top u')))"

lemma step_ok_stores [simp]: "step_ok e s n (stores ws r) = step_ok e s n r"
  by (cases r) (simp add: step_ok_def stores_def split: option.splits syscall.splits)

lemma asks_ok_stores [simp]: "asks_ok (stores ws r) = asks_ok r"
  by (cases r) (simp add: asks_ok_def stores_def)

lemma stores_bytes: "fst (snd (stores ws r)) = ws @ fst (snd r)"
  by (cases r) (simp add: stores_def)

lemma call_from_bytes [simp]: "fst (snd (call_from u l c cs)) = []"
  by (simp add: call_from_def)

lemma call_from_asks [simp]: "asks_ok (call_from u l c cs) \<longleftrightarrow> (l = Allocating \<longrightarrow> c = Sys_page_alloc (heap_top u))"
  by (simp add: call_from_def asks_ok_def)

lemma call_from_quiet:
  "(\<And>p. c \<noteq> Sys_page_alloc p) \<Longrightarrow> step_ok e s n (call_from u l c cs) \<longleftrightarrow> heap_inv e s n (u\<lparr>label := l\<rparr>)"
  by (cases c) (auto simp: call_from_def step_ok_def)

lemma call_from_alloc:
  assumes "at_heap s n u" "heap_first e \<le> n" "n < stack_page s"
  shows "step_ok e s n (call_from u Allocating (Sys_page_alloc (heap_top u)) cs)"
  using assms by (simp add: call_from_def step_ok_def heap_inv_def) (simp add: at_heap_def)

text \<open>The end of the heap is the stack: an address other than it has a page to ask for.\<close>

lemma heap_choice:
  assumes l: "layout_ok e s" and h: "at_heap s n u" and n: "heap_first e \<le> n"
    and full: "heap_top u = stack_bottom u \<Longrightarrow> step_ok e s n r"
  shows "step_ok e s n (if heap_top u = stack_bottom u then r
           else call_from u Allocating (Sys_page_alloc (heap_top u)) cs)"
proof (cases "heap_top u = stack_bottom u")
  case False
  have "n < stack_page s" using False h at_heap_full [OF l h] by (simp add: at_heap_def)
  then show ?thesis using False call_from_alloc [OF h n] by simp
qed (simp add: full)

lemma allocator_loop_ok:
  assumes "layout_ok e s" "at_heap s n u" "heap_first e \<le> n"
  shows "step_ok e s n (allocator_loop u cs)"
proof -
  obtain x u' where x: "rand_below ALLOC_SLOWDOWN u = (x, u')" by (cases "rand_below ALLOC_SLOWDOWN u")
  have h: "at_heap s n u'" using assms(2) rand_below_heap [OF x] by simp
  have "step_ok e s n (call_from u' Drained Sys_yield cs)" "step_ok e s n (call_from u' Looping Sys_yield cs)"
    using h assms(3) by (simp_all add: call_from_quiet heap_inv_def)
  then show "step_ok e s n (allocator_loop u cs)"
    using heap_choice [OF assms(1) h assms(3)] by (simp add: allocator_loop_def x)
qed

lemma allocator_loop_asks [simp]: "asks_ok (allocator_loop u cs)" "fst (snd (allocator_loop u cs)) = []"
  by (simp_all add: allocator_loop_def split: prod.splits)

lemma forkexit_wait_ok:
  "heap_first e = n \<Longrightarrow> step_ok e s n (forkexit_wait u cs)" "asks_ok (forkexit_wait u cs)" "fst (snd (forkexit_wait u cs)) = []"
  by (simp_all add: forkexit_wait_def call_from_quiet heap_inv_def split: prod.splits)

lemma forkexit_drained_ok:
  "heap_first e \<le> n \<Longrightarrow> step_ok e s n (forkexit_drained u cs)"
  "asks_ok (forkexit_drained u cs)" "fst (snd (forkexit_drained u cs)) = []"
  by (simp_all add: forkexit_drained_def call_from_quiet heap_inv_def split: prod.splits)

lemma forkexit_loop_ok:
  assumes "layout_ok e s" "at_heap s n u" "heap_first e \<le> n"
  shows "step_ok e s n (forkexit_loop u cs)"
proof -
  obtain x u' where x: "rand_below (8 * ALLOC_SLOWDOWN) u = (x, u')" by (cases "rand_below (8 * ALLOC_SLOWDOWN) u")
  have h: "at_heap s n u'" using assms(2) rand_below_heap [OF x] by simp
  have "step_ok e s n (call_from u' Reforking Sys_fork cs)" "step_ok e s n (call_from u' Stopped Sys_exit cs)"
    "step_ok e s n (call_from u' Looping Sys_yield cs)"
    using h assms(3) by (simp_all add: call_from_quiet heap_inv_def)
  then show ?thesis
    using heap_choice [OF assms(1) h assms(3) forkexit_drained_ok(1) [OF assms(3)]] by (simp add: forkexit_loop_def x)
qed

lemma forkexit_loop_asks: "asks_ok (forkexit_loop u cs)" "fst (snd (forkexit_loop u cs)) = []"
  by (simp_all add: forkexit_loop_def forkexit_drained_ok split: prod.splits)


text \<open>A call whose result has arrived: the state it was made from.\<close>

lemma heap_inv_allocated:
  assumes "layout_ok e s" "heap_inv e s n u" "label u = Allocating"
  shows "at_heap s n (grow_heap u)" "heap_first e \<le> n"
  using assms at_heap_grow [OF assms(1), of "n - 1" u] by (simp_all add: heap_inv_def)

lemma silent_ok: "heap_inv e s n u \<Longrightarrow> step_ok e s n (u, [], cs, None)"
  by (simp add: step_ok_def)

lemma at_getpid_heap:
  assumes "layout_ok e s" "heap_inv e s n u" "label u = At_getpid"
  shows "at_heap s n (start_heap e s p u)" "heap_first e \<le> n"
  using assms at_heap_start [OF assms(1)] by (simp_all add: heap_inv_def)

lemma heap_inv_looping: "heap_inv e s n u \<Longrightarrow> label u \<in> {Looping, Reforking, Repid} \<Longrightarrow> at_heap s n u"
  by (auto simp: heap_inv_def)

lemma heap_inv_first: "heap_inv e s n u \<Longrightarrow> heap_first e \<le> n"
  by (simp add: heap_inv_def)

lemma heap_inv_starting:
  "heap_inv e s n u \<Longrightarrow> label u \<in> {Starting, Fork_1, Fork_2, Waiting, Forking} \<Longrightarrow> heap_first e = n"
  by (auto simp: heap_inv_def)

lemma heap_inv_label:
  "l \<in> {Starting, Fork_1, Fork_2, Waiting, Forking, At_getpid} \<Longrightarrow> heap_first e = n \<Longrightarrow> heap_inv e s n (u\<lparr>label := l\<rparr>)"
  "l \<in> {Drained, Stopped} \<Longrightarrow> heap_first e \<le> n \<Longrightarrow> heap_inv e s n (u\<lparr>label := l\<rparr>)"
  by (auto simp: heap_inv_def)

lemma allocator_step_ok:
  assumes l: "layout_ok e s" and i: "heap_inv e s n u"
  shows "step_ok e s n (allocator_step e s u r cs)"
proof (cases "label u")
  case Starting
  then show ?thesis using heap_inv_starting [OF i] by (simp add: allocator_step_def call_from_quiet heap_inv_label)
next
  case At_getpid
  then show ?thesis using allocator_loop_ok [OF l at_getpid_heap [OF l i]] by (simp add: allocator_step_def)
next
  case Looping
  then show ?thesis
    using allocator_loop_ok [OF l heap_inv_looping [OF i] heap_inv_first [OF i]] by (simp add: allocator_step_def)
next
  case Allocating
  then show ?thesis using heap_inv_allocated [OF l i]
    by (simp add: allocator_step_def call_from_quiet heap_inv_label) (simp add: heap_inv_def)
next
  case Drained
  then show ?thesis using heap_inv_first [OF i] by (simp add: allocator_step_def call_from_quiet heap_inv_label)
qed (use i in \<open>simp_all add: allocator_step_def silent_ok\<close>)

lemma fork_step_ok:
  assumes l: "layout_ok e s" and i: "heap_inv e s n u"
  shows "step_ok e s n (fork_step e s u r cs)"
proof (cases "label u \<in> {Starting, Fork_1, Fork_2}")
  case True
  have "heap_first e = n" using heap_inv_starting [OF i] True by blast
  then show ?thesis using True by (auto simp: fork_step_def call_from_quiet heap_inv_label)
next
  case False
  then show ?thesis
    using allocator_step_ok [OF l i] silent_ok [OF i] by (cases "label u") (simp_all add: fork_step_def)
qed

lemma forkexit_step_ok:
  assumes l: "layout_ok e s" and i: "heap_inv e s n u"
  shows "step_ok e s n (forkexit_step e s u r cs)"
proof -
  have loop: "step_ok e s n (forkexit_loop (u\<lparr>pid := p\<rparr>) cs')" if "label u \<in> {Looping, Reforking, Repid}" for p cs'
    using heap_inv_looping [OF i that] forkexit_loop_ok [OF l _ heap_inv_first [OF i]] by simp
  note first = heap_inv_starting [OF i] and n = heap_inv_first [OF i]
  show ?thesis
  proof (cases "label u")
    case At_getpid
    then show ?thesis using forkexit_loop_ok [OF l at_getpid_heap [OF l i]] by (simp add: forkexit_step_def)
  next
    case Allocating
    then show ?thesis using forkexit_loop_ok [OF l heap_inv_allocated [OF l i]] forkexit_drained_ok(1) [OF n]
      by (simp add: forkexit_step_def)
  next
    case Looping
    then show ?thesis using loop [of "pid u"] by (simp add: forkexit_step_def)
  next
    case Reforking
    then show ?thesis using loop [of "pid u"] heap_inv_looping [OF i]
      by (simp add: forkexit_step_def call_from_quiet) (simp add: heap_inv_def n)
  next
    case Repid
    then show ?thesis using loop by (simp add: forkexit_step_def)
  next
    case Forking
    then show ?thesis using first by (simp add: forkexit_step_def forkexit_wait_ok call_from_quiet heap_inv_label)
  qed (use i n first in \<open>simp_all add: forkexit_step_def silent_ok forkexit_wait_ok forkexit_drained_ok\<close>)
qed


text \<open>The one store of a step is to the page whose allocation has just returned.\<close>

definition acts_ok :: "user \<Rightarrow> u32 \<Rightarrow> user_step \<Rightarrow> bool" where
  "acts_ok u r res \<longleftrightarrow> asks_ok res \<and>
     (fst (snd res) = [] \<or> label u = Allocating \<and> 0 \<le> sint r \<and> fst (snd res) = heap_store u)"

lemma allocator_step_acts: "acts_ok u r (allocator_step e s u r cs)"
  by (cases "label u") (simp_all add: acts_ok_def allocator_step_def stores_bytes, simp_all add: asks_ok_def)

lemma fork_step_acts: "acts_ok u r (fork_step e s u r cs)"
  using allocator_step_acts [of u r e s cs]
  by (cases "label u") (simp_all add: acts_ok_def fork_step_def, simp_all add: asks_ok_def)

lemma forkexit_step_acts: "acts_ok u r (forkexit_step e s u r cs)"
  by (cases "label u")
    (simp_all add: acts_ok_def forkexit_step_def stores_bytes forkexit_loop_asks forkexit_wait_ok forkexit_drained_ok,
     simp_all add: asks_ok_def)

lemma acts_okD:
  assumes "acts_ok u r (u', ws, cs', c)"
  shows "heap_asked u' = Some p \<Longrightarrow> c = Some (Sys_page_alloc p)"
    and "ws = [] \<or> (\<exists>p. heap_asked u = Some p \<and> 0 \<le> sint r \<and> fst ` set ws \<subseteq> {p})"
  using assms by (auto simp: acts_ok_def asks_ok_def heap_asked_def heap_store_def split: if_splits)

lemma step_okD: "step_ok e s n (u', ws, cs', c) \<Longrightarrow>
    (requested [(ws, c)] = [] \<and> heap_inv e s n u') \<or>
    (requested [(ws, c)] = [page_addr n] \<and> n < stack_page s \<and> heap_inv e s (Suc n) u')"
  by (simp only: step_ok_def prod.case)

lemma new_user_heap:
  "heap_inv e s (heap_first e) new_user" "heap_asked new_user = None" "layout_ok e s \<Longrightarrow> heap_first e \<le> stack_page s"
  by (simp_all add: heap_inv_def heap_asked_def new_user_def layout_ok_def)

lemma heap_programI:
  assumes ok: "\<And>e s n u r cs. layout_ok e s \<Longrightarrow> heap_inv e s n u \<Longrightarrow> step_ok e s n (f e s u r cs)"
    and acts: "\<And>e s u r cs. acts_ok u r (f e s u r cs)"
  shows "heap_program f layout_ok heap_inv heap_first stack_page heap_asked"
proof
  show "(requested [(ws, c)] = [] \<and> heap_inv e s n u') \<or>
      (requested [(ws, c)] = [page_addr n] \<and> n < stack_page s \<and> heap_inv e s (Suc n) u')"
    if "layout_ok e s" "heap_inv e s n u" "f e s u r cs = (u', ws, cs', c)" for e s n u r cs u' ws cs' c
    using ok [OF that(1,2), of r cs] unfolding that(3) by (rule step_okD)
next
  fix e s u r cs u' ws cs' c p
  assume "f e s u r cs = (u', ws, cs', c)"
  note a = acts [of u r e s cs, unfolded this]
  show "c = Some (Sys_page_alloc p)" if "heap_asked u' = Some p" using acts_okD(1) [OF a that] .
  show "ws = [] \<or> (\<exists>p. heap_asked u = Some p \<and> 0 \<le> sint r \<and> fst ` set ws \<subseteq> {p})" using acts_okD(2) [OF a] .
qed (simp_all add: new_user_heap)

interpretation allocator: heap_program allocator_step layout_ok heap_inv heap_first stack_page heap_asked
  by (rule heap_programI [OF allocator_step_ok allocator_step_acts])

interpretation forker: heap_program fork_step layout_ok heap_inv heap_first stack_page heap_asked
  by (rule heap_programI [OF fork_step_ok fork_step_acts])

interpretation forkexit: heap_program forkexit_step layout_ok heap_inv heap_first stack_page heap_asked
  by (rule heap_programI [OF forkexit_step_ok forkexit_step_acts])

section \<open>What the kernel is asked\<close>

lemma requested_call: "(ws, Some (Sys_page_alloc p)) \<in> set as \<Longrightarrow> p \<in> set (requested as)"
  by (induction as) (auto split: option.splits syscall.splits)

definition syscall_number :: "syscall \<Rightarrow> nat" where
  "syscall_number c = (case c of Sys_panic _ \<Rightarrow> INT_SYS_PANIC | Sys_getpid \<Rightarrow> INT_SYS_GETPID
     | Sys_yield \<Rightarrow> INT_SYS_YIELD | Sys_page_alloc _ \<Rightarrow> INT_SYS_PAGE_ALLOC | Sys_fork \<Rightarrow> INT_SYS_FORK
     | Sys_exit \<Rightarrow> INT_SYS_EXIT)"

lemma syscall_numbers [simp]:
  "unat (reg_intno (syscall_registers buf c regs)) = syscall_number c"
  by (cases c) (simp_all add: syscall_registers_def syscall_number_def syscall_0_def syscall_1_def INT_SYS_PANIC_def
      INT_SYS_def INT_SYS_GETPID_def INT_SYS_YIELD_def INT_SYS_PAGE_ALLOC_def INT_SYS_FORK_def INT_SYS_EXIT_def)

lemma call_ok_syscall:
  assumes "\<And>p. c = Sys_page_alloc p \<Longrightarrow> \<exists>n. 256 \<le> n \<and> n < 768 \<and> p = page_addr n" "c = Sys_fork \<Longrightarrow> counted k"
  shows "call_ok (syscall_registers buf c regs) k"
  using assms by (cases c) (simp_all add: call_ok_def, simp_all add: syscall_registers_def syscall_1_def syscall_number_def
      INT_SYS_PANIC_def INT_SYS_GETPID_def INT_SYS_YIELD_def INT_SYS_PAGE_ALLOC_def INT_SYS_FORK_def INT_SYS_EXIT_def)

text \<open>
  C15: whatever the kernel answers, a run of p-allocator, p-fork or p-forkexit asks for the pages
  behind the program one after the other, each once, and never for the page of its stack or one
  above it; of the bytes it stores through \<open>heap_top\<close> each goes to the page whose request has just
  been granted; and every call but \<open>fork\<close> meets \<open>call_ok\<close>, the guard under which the kernel keeps the
  address spaces apart. The part of the guard about \<open>fork\<close> is up to the kernel's counters, not to the
  program. Stores to the console, to global variables and to the stack are not modelled. The program
  ends at \<open>end_addr\<close> and runs with stack pointer \<open>esp\<close>; \<open>layout_ok\<close> says that both are in the
  process's half of the address space, program below stack.
\<close>

theorem process_requests:
  assumes "layout_ok end_addr esp" "program \<in> {allocator_step, fork_step, forkexit_step}"
    and "as = user_run (program end_addr esp) new_user is"
  shows "(\<exists>k. requested as = map page_addr [heap_first end_addr..<heap_first end_addr + k]
            \<and> heap_first end_addr + k \<le> stack_page esp)
    \<and> stores_granted None is as
    \<and> (\<forall>ws c. (ws, Some c) \<in> set as \<longrightarrow> c \<noteq> Sys_fork \<longrightarrow> call_ok (syscall_registers buf c regs) k)"
proof -
  have r: "\<exists>k. requested as = map page_addr [heap_first end_addr..<heap_first end_addr + k]
      \<and> heap_first end_addr + k \<le> stack_page esp" and s: "stores_granted None is as"
    using assms(2) allocator.run_pages [OF assms(1), of "is"] forker.run_pages [OF assms(1), of "is"]
      forkexit.run_pages [OF assms(1), of "is"] by (auto simp: assms(3))
  have p: "\<exists>n. 256 \<le> n \<and> n < 768 \<and> p = page_addr n" if pr: "p \<in> set (requested as)" for p
  proof -
    obtain m where m: "requested as = map page_addr [heap_first end_addr..<heap_first end_addr + m]"
      "heap_first end_addr + m \<le> stack_page esp" using r by blast
    obtain n where "n \<in> {heap_first end_addr..<heap_first end_addr + m}" "p = page_addr n"
      using pr unfolding m(1) set_map set_upt by blast
    with m(2) have "heap_first end_addr \<le> n" "n < stack_page esp" "p = page_addr n" by simp_all
    then show ?thesis using layout_pages(1-3) [OF assms(1)] by (intro exI [of _ n]) simp
  qed
  have "call_ok (syscall_registers buf c regs) k" if "(ws, Some c) \<in> set as" "c \<noteq> Sys_fork" for ws c
    by (rule call_ok_syscall) (use that p requested_call in blast)+
  with r s show ?thesis by blast
qed

text \<open>A run of p-allocator as process 100: the first page behind the program is asked for.\<close>

theorem process_requests_witness:
  "requested (user_run (allocator_step 0x100800 0x300000) new_user [(0, []), (100, []), (0, [])]) = [0x101000]
    \<and> stores_granted None [(0, []), (100, []), (0, [])]
        (user_run (allocator_step 0x100800 0x300000) new_user [(0, []), (100, []), (0, [])])"
proof -
  have l: "layout_ok 0x100800 0x300000"
    by (simp add: layout_ok_def heap_first_def stack_page_def PROC_START_ADDR_def MEMSIZE_VIRTUAL_def)
  let ?step = "allocator_step 0x100800 0x300000" and ?u = "new_user\<lparr>label := At_getpid\<rparr>"
  let ?h = "start_heap 0x100800 0x300000 100 ?u"
  have 1: "?step new_user 0 [] = (?u, [], [], Some Sys_getpid)"
    by (simp add: allocator_step_def new_user_def call_from_def)
  have h: "pid ?h = 100" "heap_top ?h = 0x101000" "stack_bottom ?h = 0x2FF000"
    by (simp_all add: start_heap_def ROUNDUP_def ROUNDDOWN_def PAGESIZE_def)
  obtain x g where g: "rand (random ?h) = (x, g)" by (cases "rand (random ?h)")
  have "sint x mod 100 < 100" by simp
  then have 2: "?step ?u 100 [] = (?h\<lparr>random := g, label := Allocating\<rparr>, [], [], Some (Sys_page_alloc 0x101000))"
    by (simp add: allocator_step_def allocator_loop_def rand_below_def g h ALLOC_SLOWDOWN_def call_from_def)
  have 3: "fst (snd (?step (?h\<lparr>random := g, label := Allocating\<rparr>) 0 [])) = [(0x101000, 100)]"
    "snd (snd (snd (?step (?h\<lparr>random := g, label := Allocating\<rparr>) 0 []))) = Some Sys_yield"
    by (simp_all add: allocator_step_def call_from_def stores_def heap_store_def h)
  have "requested (user_run ?step new_user [(0, []), (100, []), (0, [])]) = [0x101000]"
    using 3 by (simp add: 1 2 case_prod_unfold)
  moreover have "allocator_step \<in> {allocator_step, fork_step, forkexit_step}" by simp
  ultimately show ?thesis using process_requests [OF l _ refl] by blast
qed

end
