(* ===== verification/Io61.thy ===== *)
theory Io61
  imports Prelude "HOL-Library.Monad_Syntax"
begin

text \<open>
  Buffered input and output of \<open>pset4\<close>: the files of the operating system as the programs use
  them, the unbuffered library \<open>slow-io61.c\<close>, and \<open>io61.c\<close> with its array of caches and least
  recently used eviction. Loops and recursive calls that need not end are
  \<open>partial_function (option)\<close>: \<open>None\<close> is a call that does not return, or one that follows the
  null pointer. Sizes are natural numbers; the places where \<open>size_t\<close> arithmetic wraps are
  written out modulo \<open>2 ^ 64\<close>.
\<close>

section \<open>Files\<close>

text \<open>
  An open descriptor: the contents, the file offset, whether it is a regular file, and, for
  one that is not, how many bytes each \<open>read\<close> delivers at most (afterwards as many as asked).
  The system calls do not fail.
\<close>

record os_fd =
  contents :: "u8 list"
  fpos :: nat
  regular :: bool
  chunks :: "nat list"

definition sys_read :: "nat \<Rightarrow> os_fd \<Rightarrow> u8 list \<times> os_fd" where
  "sys_read n d =
     (let n = (if regular d \<or> chunks d = [] then n else min n (Suc (hd (chunks d))));
          bs = take n (drop (fpos d) (contents d))
      in (bs, d\<lparr>fpos := fpos d + length bs, chunks := tl (chunks d)\<rparr>))"

definition sys_pread :: "nat \<Rightarrow> nat \<Rightarrow> os_fd \<Rightarrow> u8 list" where
  "sys_pread n pos d = take n (drop pos (contents d))"

definition sys_write :: "u8 list \<Rightarrow> os_fd \<Rightarrow> os_fd" where
  "sys_write bs d =
     (let old = contents d; p = fpos d; pad = replicate (p - length old) 0 in
      d\<lparr>contents := take p old @ pad @ bs @ drop (p + length bs) old, fpos := p + length bs\<rparr>)"

definition sys_lseek :: "nat \<Rightarrow> os_fd \<Rightarrow> int \<times> os_fd" where
  "sys_lseek pos d = (if regular d then (int pos, d\<lparr>fpos := pos\<rparr>) else (- 1, d))"

definition sys_filesize :: "os_fd \<Rightarrow> int" where
  "sys_filesize d = (if regular d then int (length (contents d)) else - 1)"

definition EOF :: int where "EOF = - 1"

section \<open>The unbuffered library\<close>

definition slow_readc :: "os_fd \<Rightarrow> (int \<times> os_fd) option" where
  "slow_readc d =
     (let (bs, d) = sys_read 1 d in
      Some (if length bs = 1 then uint (bs ! 0) else EOF, d))"

definition slow_writec :: "int \<Rightarrow> os_fd \<Rightarrow> os_fd" where
  "slow_writec ch d = sys_write [word_of_int ch] d"

partial_function (option) slow_read_loop :: "nat \<Rightarrow> u8 list \<Rightarrow> os_fd \<Rightarrow> (u8 list \<times> os_fd) option" where
  "slow_read_loop sz acc d =
     (if length acc = sz then Some (acc, d)
      else do {
        (ch, d) \<leftarrow> slow_readc d;
        if ch = EOF then Some (acc, d) else slow_read_loop sz (acc @ [word_of_int ch]) d })"

definition slow_read :: "nat \<Rightarrow> os_fd \<Rightarrow> (int \<times> u8 list \<times> os_fd) option" where
  "slow_read sz d = do {
     (bs, d) \<leftarrow> slow_read_loop sz [] d;
     Some (if bs = [] \<and> sz \<noteq> 0 then - 1 else int (length bs), bs, d) }"

primrec slow_write_loop :: "u8 list \<Rightarrow> os_fd \<Rightarrow> os_fd" where
  "slow_write_loop [] d = d"
| "slow_write_loop (b # bs) d = slow_write_loop bs (slow_writec (sint b) d)"

definition slow_write :: "u8 list \<Rightarrow> os_fd \<Rightarrow> int \<times> os_fd" where
  "slow_write bs d = (int (length bs), slow_write_loop bs d)"

definition slow_seek :: "nat \<Rightarrow> os_fd \<Rightarrow> (int \<times> os_fd) option" where
  "slow_seek pos d = (let (r, d) = sys_lseek pos d in Some (if r \<noteq> - 1 then 0 else - 1, d))"

section \<open>Caches\<close>

definition PAGE :: nat where "PAGE = 4096"
definition NCACHES :: nat where "NCACHES = 10"

datatype cache_state = CACHE_EMPTY | CACHE_ACTIVE

record io61_cache =
  c_buf :: "u8 list"
  c_state :: cache_state
  c_pos :: nat
  c_offset :: nat
  c_bufsize :: nat
  c_lifetime :: int

datatype open_mode = O_RDONLY | O_WRONLY

record io61_file =
  fd :: os_fd
  mode :: open_mode
  filesize :: int
  caches :: "io61_cache list"
  currentCache :: int

text \<open>\<open>freeCache\<close>: the first empty slot, otherwise the first of those with the longest lifetime.\<close>

primrec free_scan :: "io61_cache list \<Rightarrow> nat \<Rightarrow> nat \<Rightarrow> int \<Rightarrow> nat" where
  "free_scan [] i oldestCache maxLifetime = oldestCache"
| "free_scan (c # cs) i oldestCache maxLifetime =
     (if c_state c = CACHE_EMPTY then i
      else if c_lifetime c > maxLifetime then free_scan cs (i + 1) i (c_lifetime c)
      else free_scan cs (i + 1) oldestCache maxLifetime)"

definition freeCache :: "io61_file \<Rightarrow> nat" where
  "freeCache f = free_scan (caches f) 0 0 (- 1)"

definition set_cache :: "nat \<Rightarrow> io61_cache \<Rightarrow> io61_file \<Rightarrow> io61_file" where
  "set_cache i c f = f\<lparr>caches := (caches f)[i := c]\<rparr>"

definition buildCacheForPos :: "nat \<Rightarrow> io61_file \<Rightarrow> nat option \<times> io61_file" where
  "buildCacheForPos pos f =
     (let i = freeCache f;
          (bs, d) = (if filesize f = - 1 then sys_read PAGE (fd f) else (sys_pread PAGE pos (fd f), fd f));
          f = f\<lparr>fd := d\<rparr>
      in if length bs = 0
         then (None, set_cache i ((caches f ! i)\<lparr>c_state := CACHE_EMPTY, c_buf := []\<rparr>) f)
         else (Some i, (set_cache i \<lparr>c_buf = bs, c_state = CACHE_ACTIVE, c_pos = pos, c_offset = 0,
                          c_bufsize = length bs, c_lifetime = 0\<rparr> f)\<lparr>currentCache := int i\<rparr>))"

primrec find_scan :: "nat \<Rightarrow> io61_cache list \<Rightarrow> nat \<Rightarrow> nat option \<Rightarrow> io61_cache list \<times> nat option" where
  "find_scan pos [] i found = ([], found)"
| "find_scan pos (c # cs) i found =
     (let hit = (found = None \<and> c_state c = CACHE_ACTIVE \<and> c_pos c \<le> pos \<and> c_pos c + c_bufsize c > pos);
          l = (if hit then c_lifetime c - 1 else c_lifetime c);
          (cs, found) = find_scan pos cs (i + 1) (if hit then Some i else found)
      in (c\<lparr>c_lifetime := l + 1\<rparr> # cs, found))"

definition getCacheForPos :: "nat \<Rightarrow> io61_file \<Rightarrow> nat option \<times> io61_file" where
  "getCacheForPos pos f =
     (let (cs, found) = find_scan pos (caches f) 0 None; f = f\<lparr>caches := cs\<rparr> in
      case found of None \<Rightarrow> (None, f) | Some i \<Rightarrow> (Some i, f\<lparr>currentCache := int i\<rparr>))"

definition getCurrentCache :: "io61_file \<Rightarrow> nat option" where
  "getCurrentCache f = (if currentCache f = - 1 then None else Some (nat (currentCache f)))"

text \<open>\<open>malloc\<close> leaves the caches of a new file as it finds memory: they are an argument.\<close>

definition io61_fdopen :: "io61_cache list \<Rightarrow> os_fd \<Rightarrow> open_mode \<Rightarrow> io61_file" where
  "io61_fdopen junk d m =
     \<lparr>fd = d, mode = m, filesize = sys_filesize d, caches = junk, currentCache = - 1\<rparr>"

section \<open>Reading\<close>

text \<open>Makes sure that there is a current cache; \<open>None\<close> when the file is empty.\<close>

definition start_reading :: "io61_file \<Rightarrow> nat option \<times> io61_file" where
  "start_reading f =
     (case getCurrentCache f of
        None \<Rightarrow> (let (r, f) = buildCacheForPos 0 f in
                 (case r of None \<Rightarrow> None | Some _ \<Rightarrow> getCurrentCache f, f))
      | Some i \<Rightarrow> (Some i, f))"

partial_function (option) io61_readc :: "io61_file \<Rightarrow> (int \<times> io61_file) option" where
  "io61_readc f =
     (case start_reading f of
        (None, f) \<Rightarrow> Some (EOF, f)
      | (Some i, f) \<Rightarrow>
          (let c = caches f ! i in
           if c_offset c < c_bufsize c
           then Some (sint (c_buf c ! c_offset c), set_cache i (c\<lparr>c_offset := c_offset c + 1\<rparr>) f)
           else (case buildCacheForPos (c_pos c + c_offset c) f of
                   (None, f) \<Rightarrow> Some (EOF, f)
                 | (Some _, f) \<Rightarrow> io61_readc f)))"

text \<open>
  The loop of \<open>io61_read\<close>; \<open>i\<close> is the slot the local pointer \<open>currentCache\<close> points to, which
  \<open>buildCacheForPos\<close> does not change. The result is what has been stored in \<open>buf\<close>; its length
  is \<open>nread\<close>, which never exceeds \<open>sz\<close>, so the assertion holds.
\<close>

partial_function (option) read_loop ::
    "nat \<Rightarrow> nat \<Rightarrow> u8 list \<Rightarrow> io61_file \<Rightarrow> (u8 list \<times> io61_file) option" where
  "read_loop i sz acc f =
     (if length acc = sz then Some (acc, f)
      else
        (let c = caches f ! i;
             charsLeft = c_bufsize c - c_offset c;
             cycleRead = (if sz - length acc > charsLeft then charsLeft else sz - length acc);
             acc = acc @ take cycleRead (drop (c_offset c) (c_buf c));
             c = c\<lparr>c_offset := c_offset c + cycleRead\<rparr>;
             f = set_cache i c f
         in if c_offset c = c_bufsize c
            then (case buildCacheForPos (c_pos c + c_offset c) f of
                    (None, f) \<Rightarrow> Some (acc, f)
                  | (Some _, f) \<Rightarrow> read_loop i sz acc f)
            else read_loop i sz acc f))"

partial_function (option) io61_read :: "nat \<Rightarrow> io61_file \<Rightarrow> (u8 list \<times> io61_file) option" where
  "io61_read sz f =
     (case start_reading f of
        (None, f) \<Rightarrow> Some ([], f)
      | (Some i, f) \<Rightarrow>
          (let c = caches f ! i in
           if c_offset c < c_bufsize c then read_loop i sz [] f
           else (case buildCacheForPos (c_pos c + c_offset c) f of
                   (None, f) \<Rightarrow> Some ([], f)
                 | (Some _, f) \<Rightarrow> io61_read sz f)))"

section \<open>Writing\<close>

definition flush_slot :: "nat \<Rightarrow> io61_file \<Rightarrow> io61_file" where
  "flush_slot i f =
     (let c = caches f ! i in
      if c_offset c > 0
      then set_cache i (c\<lparr>c_offset := 0\<rparr>) (f\<lparr>fd := sys_write (take (c_offset c) (c_buf c)) (fd f)\<rparr>)
      else f)"

definition io61_flush :: "io61_file \<Rightarrow> io61_file" where
  "io61_flush f = (if mode f \<noteq> O_WRONLY then f else fold flush_slot [0..<NCACHES] f)"

text \<open>The bytes of a fresh \<open>malloc\<close> are not read before they are written; they are 0 here.\<close>

definition start_writing :: "nat \<Rightarrow> io61_file \<Rightarrow> nat \<times> io61_file" where
  "start_writing n f =
     (case getCurrentCache f of
        Some i \<Rightarrow> (i, f)
      | None \<Rightarrow> (0, (set_cache 0 ((caches f ! 0)\<lparr>c_buf := replicate n 0, c_bufsize := n,
                        c_offset := 0, c_state := CACHE_ACTIVE\<rparr>) f)\<lparr>currentCache := 0\<rparr>))"

partial_function (option) io61_writec :: "int \<Rightarrow> io61_file \<Rightarrow> io61_file option" where
  "io61_writec ch f =
     (let (i, f) = start_writing PAGE f; c = caches f ! i in
      if c_offset c < c_bufsize c
      then Some (set_cache i (c\<lparr>c_buf := (c_buf c)[c_offset c := word_of_int ch],
                    c_offset := c_offset c + 1\<rparr>) f)
      else io61_writec ch (io61_flush f))"

text \<open>\<open>memcpy\<close> of \<open>bs\<close> into a buffer.\<close>

definition put_at :: "nat \<Rightarrow> u8 list \<Rightarrow> u8 list \<Rightarrow> u8 list" where
  "put_at k bs buf = take k buf @ bs @ drop (k + length bs) buf"

partial_function (option) write_loop :: "nat \<Rightarrow> u8 list \<Rightarrow> io61_file \<Rightarrow> io61_file option" where
  "write_loop i bs f =
     (if bs = [] then Some f
      else
        (let c = caches f ! i;
             charsLeft = c_bufsize c - c_offset c;
             cycleWrite = (if length bs > charsLeft then charsLeft else length bs);
             c = c\<lparr>c_buf := put_at (c_offset c) (take cycleWrite bs) (c_buf c),
                   c_offset := c_offset c + cycleWrite\<rparr>;
             f = set_cache i c f;
             f = (if c_offset c = c_bufsize c then io61_flush f else f)
         in write_loop i (drop cycleWrite bs) f))"

partial_function (option) io61_write :: "u8 list \<Rightarrow> io61_file \<Rightarrow> io61_file option" where
  "io61_write bs f =
     (let (i, f) = start_writing (10 * PAGE) f; c = caches f ! i in
      if c_offset c < c_bufsize c then write_loop i bs f
      else io61_write bs (io61_flush f))"

definition close_cache :: "io61_cache \<Rightarrow> io61_cache" where
  "close_cache c = (if c_state c \<noteq> CACHE_EMPTY then c\<lparr>c_state := CACHE_EMPTY, c_buf := []\<rparr> else c)"

definition io61_close :: "io61_file \<Rightarrow> io61_file" where
  "io61_close f = (let f = io61_flush f in f\<lparr>caches := map close_cache (caches f)\<rparr>)"

section \<open>Seeking\<close>

text \<open>
  \<open>pos - (cache->pos + cache->offset - 1)\<close> is -1 when \<open>pos\<close> lies two bytes behind the byte
  that would be read next: the file is being read backwards.
\<close>

definition reads_backwards :: "nat \<Rightarrow> io61_cache \<Rightarrow> bool" where
  "reads_backwards pos c \<longleftrightarrow> (pos + 2) mod 2 ^ 64 = (c_pos c + c_offset c) mod 2 ^ 64"

definition prefetch :: "nat \<Rightarrow> io61_file \<Rightarrow> io61_file" where
  "prefetch pos f =
     (case getCurrentCache f of
        None \<Rightarrow> f
      | Some i \<Rightarrow>
          if reads_backwards pos (caches f ! i)
          then (case getCacheForPos (if pos = 0 then 2 ^ 64 - 1 else pos - 1) f of
                  (Some _, f) \<Rightarrow> f
                | (None, f) \<Rightarrow> snd (buildCacheForPos (if pos < PAGE then 0 else pos + 1 - PAGE) f))
          else f)"

definition io61_seek :: "nat \<Rightarrow> io61_file \<Rightarrow> (int \<times> io61_file) option" where
  "io61_seek pos f = do {
     f \<leftarrow> (if mode f = O_WRONLY then Some (io61_flush f)
          else
            (let f = prefetch pos f;
                 f = (case getCacheForPos pos f of
                        (Some _, f) \<Rightarrow> f
                      | (None, f) \<Rightarrow> snd (buildCacheForPos pos f))
             in case getCurrentCache f of
                  None \<Rightarrow> None
                | Some i \<Rightarrow>
                    (let c = caches f ! i in
                     Some (set_cache i (c\<lparr>c_offset := (2 ^ 64 + pos - c_pos c) mod 2 ^ 64\<rparr>) f))));
     let (r, d) = sys_lseek pos (fd f);
     Some (if r = int pos then 0 else - 1, f\<lparr>fd := d\<rparr>) }"

section \<open>Opening\<close>

text \<open>
  The two libraries open files in the same way. \<open>open_file\<close> is the system call, \<open>- 1\<close> when it
  fails, \<open>fds\<close> what is behind the descriptors; \<open>Inl\<close> is \<open>exit\<close> with a status.
\<close>

definition STDIN_FILENO :: int where "STDIN_FILENO = 0"
definition STDOUT_FILENO :: int where "STDOUT_FILENO = 1"

definition io61_open_check :: "io61_cache list \<Rightarrow> (int \<Rightarrow> os_fd) \<Rightarrow> (string \<Rightarrow> open_mode \<Rightarrow> int) \<Rightarrow>
    string option \<Rightarrow> open_mode \<Rightarrow> int + io61_file" where
  "io61_open_check junk fds open_file filename m =
     (let fd = (case filename of Some name \<Rightarrow> open_file name m
                | None \<Rightarrow> if m = O_RDONLY then STDIN_FILENO else STDOUT_FILENO) in
      if fd < 0 then Inl 1 else Inr (io61_fdopen junk (fds fd) m))"

definition slow_open_check :: "(int \<Rightarrow> os_fd) \<Rightarrow> (string \<Rightarrow> open_mode \<Rightarrow> int) \<Rightarrow> string option \<Rightarrow> open_mode \<Rightarrow> int + os_fd" where
  "slow_open_check fds open_file filename m =
     (let fd = (case filename of Some name \<Rightarrow> open_file name m
                | None \<Rightarrow> if m = O_RDONLY then STDIN_FILENO else STDOUT_FILENO) in
      if fd < 0 then Inl 1 else Inr (fds fd))"

section \<open>Programs\<close>

text \<open>
  The programs are linked against either library; its operations are their arguments. \<open>cat61\<close>
  copies byte by byte, \<open>blockcat61\<close> in blocks, \<open>reverse61\<close> backwards by seeking.
\<close>

partial_function (option) cat61 ::
    "('f \<Rightarrow> (int \<times> 'f) option) \<Rightarrow> (int \<Rightarrow> 'g \<Rightarrow> 'g option) \<Rightarrow> 'f \<Rightarrow> 'g \<Rightarrow> ('f \<times> 'g) option" where
  "cat61 readc writec infile outfile = do {
     (ch, infile) \<leftarrow> readc infile;
     if ch = EOF then Some (infile, outfile)
     else do {
       outfile \<leftarrow> writec ch outfile;
       cat61 readc writec infile outfile } }"

partial_function (option) blockcat61 ::
    "(nat \<Rightarrow> 'f \<Rightarrow> (u8 list \<times> 'f) option) \<Rightarrow> (u8 list \<Rightarrow> 'g \<Rightarrow> 'g option) \<Rightarrow> nat \<Rightarrow> 'f \<Rightarrow> 'g
     \<Rightarrow> ('f \<times> 'g) option" where
  "blockcat61 read write block_size infile outfile = do {
     (bs, infile) \<leftarrow> read block_size infile;
     if bs = [] then Some (infile, outfile)
     else do {
       outfile \<leftarrow> write bs outfile;
       blockcat61 read write block_size infile outfile } }"

primrec reverse61 ::
    "(nat \<Rightarrow> 'f \<Rightarrow> (int \<times> 'f) option) \<Rightarrow> ('f \<Rightarrow> (int \<times> 'f) option) \<Rightarrow> (int \<Rightarrow> 'g \<Rightarrow> 'g option)
     \<Rightarrow> nat \<Rightarrow> 'f \<Rightarrow> 'g \<Rightarrow> ('f \<times> 'g) option" where
  "reverse61 seek readc writec 0 infile outfile = Some (infile, outfile)"
| "reverse61 seek readc writec (Suc in_size) infile outfile = do {
     (_, infile) \<leftarrow> seek in_size infile;
     (ch, infile) \<leftarrow> readc infile;
     outfile \<leftarrow> writec ch outfile;
     reverse61 seek readc writec in_size infile outfile }"

end
