(* ===== verification/Io61Readers.thy ===== *)
theory Io61Readers
  imports Io61
begin

text \<open>
  What the programs of \<open>pset4\<close> need of a library, as locales, with the programs proved
  correct inside them once; their instance on the unbuffered library.
\<close>

lemma take_drop_rest: "take n (drop a xs) @ drop (a + length (take n (drop a xs))) xs = drop a xs"
proof -
  have "take n ys @ drop (length (take n ys)) ys = ys" for ys :: "'a list" by (simp add: min_def)
  from this [of "drop a xs"] show ?thesis by (simp add: add.commute)
qed

section \<open>Interfaces\<close>

text \<open>What the programs need of a library: \<open>stored\<close> is the file, \<open>place\<close> the next byte to read.\<close>

locale byte_reader =
  fixes readc :: "'f \<Rightarrow> (int \<times> 'f) option" and stored :: "'f \<Rightarrow> u8 list" and place :: "'f \<Rightarrow> nat"
    and ok :: "'f \<Rightarrow> bool" and val :: "u8 \<Rightarrow> int"
  assumes readc_byte: "ok f \<Longrightarrow> place f < length (stored f) \<Longrightarrow>
      \<exists>f'. readc f = Some (val (stored f ! place f), f') \<and> ok f' \<and> stored f' = stored f \<and> place f' = place f + 1"
    and readc_eof: "ok f \<Longrightarrow> length (stored f) \<le> place f \<Longrightarrow>
      \<exists>f'. readc f = Some (EOF, f') \<and> ok f' \<and> stored f' = stored f \<and> place f' = place f"
    and val_byte: "word_of_int (val b) = b"

locale byte_writer =
  fixes writec :: "int \<Rightarrow> 'g \<Rightarrow> 'g option" and sent :: "'g \<Rightarrow> u8 list" and wok :: "'g \<Rightarrow> bool"
  assumes writec_byte: "wok g \<Longrightarrow> \<exists>g'. writec ch g = Some g' \<and> wok g' \<and> sent g' = sent g @ [word_of_int ch]"

locale copier = byte_reader readc stored place ok val + byte_writer writec sent wok
  for readc :: "'f \<Rightarrow> (int \<times> 'f) option" and stored place ok val
    and writec :: "int \<Rightarrow> 'g \<Rightarrow> 'g option" and sent wok
begin

lemma cat_copies:
  assumes "ok f" "wok g" "length (stored f) - place f = n"
  shows "\<exists>f' g'. cat61 readc writec f g = Some (f', g') \<and> wok g' \<and>
    sent g' = sent g @ takeWhile (\<lambda>b. val b \<noteq> EOF) (drop (place f) (stored f))"
  using assms
proof (induction n arbitrary: f g)
  case 0
  then show ?case using readc_eof [of f] by (subst cat61.simps) auto
next
  case (Suc n)
  then have lt: "place f < length (stored f)" by simp
  then have d: "drop (place f) (stored f) = stored f ! place f # drop (place f + 1) (stored f)"
    by (simp add: Cons_nth_drop_Suc)
  obtain f' where f': "readc f = Some (val (stored f ! place f), f')" "ok f'" "stored f' = stored f"
      "place f' = place f + 1"
    using readc_byte [OF Suc.prems(1) lt] by blast
  show ?case
  proof (cases "val (stored f ! place f) = EOF")
    case True
    then show ?thesis using f' Suc.prems(2) by (subst cat61.simps) (simp add: d)
  next
    case False
    obtain g' where g': "writec (val (stored f ! place f)) g = Some g'" "wok g'"
        "sent g' = sent g @ [stored f ! place f]"
      using writec_byte [OF Suc.prems(2), of "val (stored f ! place f)"] by (auto simp: val_byte)
    have "length (stored f') - place f' = n" using Suc.prems(3) f' by simp
    from Suc.IH [OF f'(2) g'(2) this] show ?thesis
      using f' g' False by (subst cat61.simps) (auto simp: d)
  qed
qed

end

locale seek_copier = copier readc stored place ok val writec sent wok
  for readc :: "'f \<Rightarrow> (int \<times> 'f) option" and stored place ok val
    and writec :: "int \<Rightarrow> 'g \<Rightarrow> 'g option" and sent wok +
  fixes seek :: "nat \<Rightarrow> 'f \<Rightarrow> (int \<times> 'f) option"
  assumes seek_place: "ok f \<Longrightarrow> pos < length (stored f) \<Longrightarrow>
    \<exists>f'. seek pos f = Some (0, f') \<and> ok f' \<and> stored f' = stored f \<and> place f' = pos"
begin

lemma reverse_reverses:
  assumes "ok f" "wok g" "n \<le> length (stored f)"
  shows "\<exists>f' g'. reverse61 seek readc writec n f g = Some (f', g') \<and> wok g' \<and>
    sent g' = sent g @ rev (take n (stored f))"
  using assms
proof (induction n arbitrary: f g)
  case 0
  then show ?case by simp
next
  case (Suc n)
  obtain f1 where f1: "seek n f = Some (0, f1)" "ok f1" "stored f1 = stored f" "place f1 = n"
    using seek_place [OF Suc.prems(1), of n] Suc.prems(3) by auto
  obtain f2 where f2: "readc f1 = Some (val (stored f ! n), f2)" "ok f2" "stored f2 = stored f"
    using readc_byte [OF f1(2)] Suc.prems(3) f1(3,4) by auto
  obtain g1 where g1: "writec (val (stored f ! n)) g = Some g1" "wok g1" "sent g1 = sent g @ [stored f ! n]"
    using writec_byte [OF Suc.prems(2), of "val (stored f ! n)"] by (auto simp: val_byte)
  have t: "rev (take (Suc n) (stored f)) = stored f ! n # rev (take n (stored f))"
    using Suc.prems(3) by (simp add: take_Suc_conv_app_nth)
  have "n \<le> length (stored f2)" using Suc.prems(3) f2(3) by simp
  from Suc.IH [OF f2(2) g1(2) this] show ?case
    using f1(1) f2 g1 by (auto simp: t)
qed

end

section \<open>The unbuffered library\<close>

definition slow_reads :: "os_fd \<Rightarrow> bool" where
  "slow_reads d \<longleftrightarrow> regular d"

lemma read_one: "sys_read 1 d = (take 1 (drop (fpos d) (contents d)),
    d\<lparr>fpos := fpos d + length (take 1 (drop (fpos d) (contents d))), chunks := tl (chunks d)\<rparr>)"
  by (simp add: sys_read_def min_def)

lemma slow_readc_byte:
  assumes "fpos d < length (contents d)"
  shows "slow_readc d = Some (uint (contents d ! fpos d), d\<lparr>fpos := fpos d + 1, chunks := tl (chunks d)\<rparr>)"
proof -
  have "take 1 (drop (fpos d) (contents d)) = [contents d ! fpos d]"
    using assms by (simp add: Cons_nth_drop_Suc [symmetric])
  then show ?thesis unfolding slow_readc_def read_one by simp
qed

lemma slow_readc_eof:
  "length (contents d) \<le> fpos d \<Longrightarrow> slow_readc d = Some (EOF, d\<lparr>chunks := tl (chunks d)\<rparr>)"
  unfolding slow_readc_def read_one by simp

text \<open>An output file written from its start: what has arrived is its contents.\<close>

definition appending :: "os_fd \<Rightarrow> bool" where
  "appending d \<longleftrightarrow> fpos d = length (contents d)"

lemma sys_write_append:
  "appending d \<Longrightarrow> appending (sys_write bs d) \<and> contents (sys_write bs d) = contents d @ bs"
  by (simp add: appending_def sys_write_def Let_def)

interpretation slow: seek_copier slow_readc contents fpos slow_reads uint
    "\<lambda>ch d. Some (slow_writec ch d)" contents appending slow_seek
  by unfold_locales
    (auto simp: slow_reads_def slow_readc_byte slow_readc_eof slow_writec_def sys_write_append
      slow_seek_def sys_lseek_def Let_def)

end
