(* ===== verification/Io61Cache.thy ===== *)
theory Io61Cache
  imports Io61Readers
begin

text \<open>
  The caches of a file that is read: the invariant, filling and giving up a slot, reading a
  byte, finding a cached position and seeking.
\<close>

section \<open>The invariant of a file that is read\<close>

definition cache_ok :: "u8 list \<Rightarrow> io61_cache \<Rightarrow> bool" where
  "cache_ok xs c \<longleftrightarrow>
     (if c_state c = CACHE_ACTIVE
      then c_bufsize c = length (c_buf c) \<and> 0 < c_bufsize c \<and> c_pos c + c_bufsize c \<le> length xs
        \<and> (\<forall>j < c_bufsize c. c_buf c ! j = xs ! (c_pos c + j))
      else True)"

lemma cache_ok_update [simp]:
  "cache_ok xs (c\<lparr>c_offset := n\<rparr>) = cache_ok xs c" "cache_ok xs (c\<lparr>c_lifetime := l\<rparr>) = cache_ok xs c"
  by (simp_all add: cache_ok_def)

text \<open>A slot that has been given up is never read again: it is used up.\<close>

definition current_ok :: "io61_cache \<Rightarrow> bool" where
  "current_ok c \<longleftrightarrow> c_state c = CACHE_ACTIVE \<or> c_bufsize c \<le> c_offset c"

definition slots_ok :: "io61_file \<Rightarrow> bool" where
  "slots_ok f \<longleftrightarrow> mode f = O_RDONLY \<and> regular (fd f) \<and> filesize f \<noteq> - 1
     \<and> length (contents (fd f)) < 2 ^ 63
     \<and> length (caches f) = NCACHES \<and> list_all (cache_ok (contents (fd f))) (caches f)
     \<and> (currentCache f = - 1 \<or> (0 \<le> currentCache f \<and> currentCache f < int NCACHES))"

definition here :: "io61_file \<Rightarrow> nat" where
  "here f = (case getCurrentCache f of None \<Rightarrow> 0 | Some i \<Rightarrow> c_pos (caches f ! i) + c_offset (caches f ! i))"

definition reading :: "io61_file \<Rightarrow> bool" where
  "reading f \<longleftrightarrow> slots_ok f
     \<and> (case getCurrentCache f of None \<Rightarrow> True | Some i \<Rightarrow> current_ok (caches f ! i))"

abbreviation text_of :: "io61_file \<Rightarrow> u8 list" where "text_of f \<equiv> contents (fd f)"

lemma current_slot: "slots_ok f \<Longrightarrow> getCurrentCache f = Some i \<Longrightarrow> i < NCACHES \<and> currentCache f = int i"
  by (auto simp: slots_ok_def getCurrentCache_def split: if_splits)

lemma free_scan_lt: "oldest < n \<Longrightarrow> i + length cs = n \<Longrightarrow> free_scan cs i oldest m < n"
  by (induction cs arbitrary: i oldest m) auto

lemma freeCache_lt: "length (caches f) = NCACHES \<Longrightarrow> freeCache f < NCACHES"
  unfolding freeCache_def by (rule free_scan_lt) (simp_all add: NCACHES_def)

lemma pread_nil: "sys_pread PAGE pos d = [] \<longleftrightarrow> length (contents d) \<le> pos"
  by (simp add: sys_pread_def PAGE_def)

definition new_cache :: "nat \<Rightarrow> u8 list \<Rightarrow> io61_cache" where
  "new_cache pos bs = \<lparr>c_buf = bs, c_state = CACHE_ACTIVE, c_pos = pos, c_offset = 0,
                        c_bufsize = length bs, c_lifetime = 0\<rparr>"

definition fill :: "nat \<Rightarrow> io61_file \<Rightarrow> io61_file" where
  "fill pos f = (set_cache (freeCache f) (new_cache pos (sys_pread PAGE pos (fd f))) f)
     \<lparr>currentCache := int (freeCache f)\<rparr>"

definition evict :: "io61_file \<Rightarrow> io61_file" where
  "evict f = set_cache (freeCache f) ((caches f ! freeCache f)\<lparr>c_state := CACHE_EMPTY, c_buf := []\<rparr>) f"

lemma build_cases:
  assumes "slots_ok f"
  shows "buildCacheForPos pos f =
    (if pos < length (text_of f) then (Some (freeCache f), fill pos f) else (None, evict f))"
  using assms pread_nil [of pos "fd f"]
  by (auto simp: buildCacheForPos_def slots_ok_def fill_def evict_def new_cache_def set_cache_def Let_def not_less)

lemma new_cache_ok: "pos < length (contents d) \<Longrightarrow> cache_ok (contents d) (new_cache pos (sys_pread PAGE pos d))"
  by (auto simp: cache_ok_def new_cache_def sys_pread_def min_def PAGE_def)

lemma list_all_update: "list_all P xs \<Longrightarrow> P x \<Longrightarrow> list_all P (xs[i := x])"
  by (cases "i < length xs") (auto simp: list_all_length nth_list_update)

lemma fill_ok:
  assumes "slots_ok f" "pos < length (text_of f)"
  shows "reading (fill pos f)" "here (fill pos f) = pos" "text_of (fill pos f) = text_of f"
    "getCurrentCache (fill pos f) = Some (freeCache f)"
    "caches (fill pos f) ! freeCache f = new_cache pos (sys_pread PAGE pos (fd f))"
proof -
  have lt: "freeCache f < NCACHES" "length (caches f) = NCACHES"
    using assms(1) freeCache_lt by (simp_all add: slots_ok_def)
  show c: "getCurrentCache (fill pos f) = Some (freeCache f)"
    by (simp add: getCurrentCache_def fill_def)
  show n: "caches (fill pos f) ! freeCache f = new_cache pos (sys_pread PAGE pos (fd f))"
    using lt by (simp add: fill_def set_cache_def)
  show "here (fill pos f) = pos" by (simp add: here_def c n) (simp add: new_cache_def)
  show "text_of (fill pos f) = text_of f" by (simp add: fill_def set_cache_def)
  have "list_all (cache_ok (text_of f)) (caches (fill pos f))"
    using assms by (simp add: fill_def set_cache_def slots_ok_def list_all_update new_cache_ok)
  then have "slots_ok (fill pos f)" using assms(1) lt by (simp add: slots_ok_def fill_def set_cache_def)
  then show "reading (fill pos f)" by (simp add: reading_def c n) (simp add: current_ok_def new_cache_def)
qed

lemma evict_ok:
  assumes "slots_ok f"
  shows "slots_ok (evict f)" "text_of (evict f) = text_of f" "getCurrentCache (evict f) = getCurrentCache f"
    "here (evict f) = here f"
    "i < NCACHES \<Longrightarrow> c_offset (caches (evict f) ! i) = c_offset (caches f ! i)
      \<and> c_bufsize (caches (evict f) ! i) = c_bufsize (caches f ! i) \<and> c_pos (caches (evict f) ! i) = c_pos (caches f ! i)"
proof -
  have lt: "freeCache f < NCACHES" "length (caches f) = NCACHES"
    using assms freeCache_lt by (simp_all add: slots_ok_def)
  show g: "getCurrentCache (evict f) = getCurrentCache f" by (simp add: evict_def set_cache_def getCurrentCache_def)
  show t: "text_of (evict f) = text_of f" by (simp add: evict_def set_cache_def)
  show o: "c_offset (caches (evict f) ! i) = c_offset (caches f ! i)
      \<and> c_bufsize (caches (evict f) ! i) = c_bufsize (caches f ! i) \<and> c_pos (caches (evict f) ! i) = c_pos (caches f ! i)"
    if "i < NCACHES" for i
    using that lt by (simp add: evict_def set_cache_def nth_list_update)
  then show "here (evict f) = here f"
    using current_slot [OF assms] by (auto simp: here_def g split: option.split)
  have "list_all (cache_ok (text_of f)) (caches (evict f))"
    using assms by (auto simp: evict_def set_cache_def slots_ok_def cache_ok_def intro!: list_all_update)
  then show "slots_ok (evict f)" using assms by (simp add: slots_ok_def t) (simp add: evict_def set_cache_def)
qed

text \<open>Giving up a slot keeps the invariant when the current one is used up.\<close>

lemma evict_reading:
  assumes "reading f" "\<And>i. getCurrentCache f = Some i \<Longrightarrow> c_bufsize (caches f ! i) \<le> c_offset (caches f ! i)"
  shows "reading (evict f)"
proof -
  have s: "slots_ok f" using assms(1) by (simp add: reading_def)
  note e = evict_ok [OF s]
  show ?thesis
    using e(1) assms(2) current_slot [OF s] e(5)
    by (auto simp: reading_def e(3) current_ok_def split: option.split)
qed

lemma start_reading_cases:
  assumes "reading f"
  shows "(\<exists>i f'. start_reading f = (Some i, f') \<and> getCurrentCache f' = Some i \<and> i < NCACHES \<and> reading f'
      \<and> text_of f' = text_of f \<and> here f' = here f)
    \<or> (text_of f = [] \<and> here f = 0 \<and> start_reading f = (None, evict f) \<and> reading (evict f))"
proof (cases "getCurrentCache f")
  case (Some i)
  then show ?thesis using assms current_slot [of f i] by (auto simp: start_reading_def reading_def)
next
  case None
  have s: "slots_ok f" using assms by (simp add: reading_def)
  show ?thesis
  proof (cases "text_of f = []")
    case True
    then have "start_reading f = (None, evict f)"
      by (simp add: start_reading_def None build_cases [OF s])
    then show ?thesis using True None evict_reading [OF assms] by (simp add: here_def)
  next
    case False
    then have z: "0 < length (text_of f)" by simp
    have "start_reading f = (Some (freeCache f), fill 0 f)"
      using z fill_ok(4) [OF s z] by (simp add: start_reading_def None build_cases [OF s])
    moreover have "freeCache f < NCACHES" using s freeCache_lt by (simp add: slots_ok_def)
    ultimately show ?thesis using fill_ok [OF s z] None by (simp add: here_def)
  qed
qed

lemma cache_byte:
  assumes "cache_ok xs c" "c_state c = CACHE_ACTIVE" "c_offset c < c_bufsize c"
  shows "c_pos c + c_offset c < length xs" "c_buf c ! c_offset c = xs ! (c_pos c + c_offset c)"
  using assms by (simp_all add: cache_ok_def)

text \<open>Moving the offset of the current slot.\<close>

lemma advance:
  assumes "reading f" "getCurrentCache f = Some i" "i < NCACHES"
    and "c_state (caches f ! i) = CACHE_ACTIVE \<or> c_bufsize (caches f ! i) \<le> n"
  defines "f' \<equiv> set_cache i ((caches f ! i)\<lparr>c_offset := n\<rparr>) f"
  shows "reading f'" "text_of f' = text_of f" "here f' = c_pos (caches f ! i) + n" "getCurrentCache f' = Some i"
    "caches f' ! i = (caches f ! i)\<lparr>c_offset := n\<rparr>"
proof -
  have s: "slots_ok f" using assms(1) by (simp add: reading_def)
  have l: "length (caches f) = NCACHES" using s by (simp add: slots_ok_def)
  have "currentCache f' = currentCache f" by (simp add: f'_def set_cache_def)
  then show g: "getCurrentCache f' = Some i" using assms(2) by (simp only: getCurrentCache_def)
  show c: "caches f' ! i = (caches f ! i)\<lparr>c_offset := n\<rparr>" using l assms(3) by (simp add: f'_def set_cache_def)
  show t: "text_of f' = text_of f" by (simp add: f'_def set_cache_def)
  show "here f' = c_pos (caches f ! i) + n" by (simp add: here_def g c)
  have "cache_ok (text_of f) (caches f ! i)" using s assms(3) l by (simp add: slots_ok_def list_all_length)
  then have "list_all (cache_ok (text_of f)) (caches f')"
    using s by (simp add: f'_def set_cache_def slots_ok_def list_all_update)
  then have "slots_ok f'" using s by (simp add: slots_ok_def t) (simp add: f'_def set_cache_def)
  then show "reading f'" using assms(4) by (auto simp: reading_def g c current_ok_def)
qed

section \<open>Reading bytes\<close>

lemma slot_ok: "slots_ok f \<Longrightarrow> i < NCACHES \<Longrightarrow> cache_ok (text_of f) (caches f ! i)"
  by (simp add: slots_ok_def list_all_length)

lemma readc_hit:
  assumes "reading f" "getCurrentCache f = Some i" "i < NCACHES" "c_offset (caches f ! i) < c_bufsize (caches f ! i)"
  defines "f' \<equiv> set_cache i ((caches f ! i)\<lparr>c_offset := c_offset (caches f ! i) + 1\<rparr>) f"
  shows "io61_readc f = Some (sint (text_of f ! here f), f')" "here f < length (text_of f)"
    "reading f'" "text_of f' = text_of f" "here f' = here f + 1"
proof -
  let ?c = "caches f ! i"
  have s: "slots_ok f" and a: "c_state ?c = CACHE_ACTIVE"
    using assms(1,2,4) by (auto simp: reading_def current_ok_def)
  have h: "here f = c_pos ?c + c_offset ?c" by (simp add: here_def assms(2))
  note b = cache_byte [OF slot_ok [OF s assms(3)] a assms(4)]
  show "here f < length (text_of f)" using b(1) by (simp add: h)
  show "io61_readc f = Some (sint (text_of f ! here f), f')"
    using b assms(2,4) by (subst io61_readc.simps) (simp add: start_reading_def f'_def h Let_def)
  note adv = advance [OF assms(1-3), of "c_offset ?c + 1", folded f'_def]
  show "reading f'" "text_of f' = text_of f" "here f' = here f + 1" using adv a by (simp_all add: h)
qed

lemma readc_miss:
  assumes "reading f" "getCurrentCache f = Some i" "i < NCACHES" "\<not> c_offset (caches f ! i) < c_bufsize (caches f ! i)"
  shows "io61_readc f =
    (if here f < length (text_of f) then io61_readc (fill (here f) f) else Some (EOF, evict f))"
proof -
  have s: "slots_ok f" using assms(1) by (simp add: reading_def)
  have h: "here f = c_pos (caches f ! i) + c_offset (caches f ! i)" by (simp add: here_def assms(2))
  have st: "start_reading f = (Some i, f)" by (simp add: start_reading_def assms(2))
  show ?thesis using assms(4) build_cases [OF s, of "here f"]
    by (subst (1) io61_readc.simps) (simp add: st h Let_def)
qed

lemma new_cache_simps [simp]:
  "c_offset (new_cache pos bs) = 0" "c_bufsize (new_cache pos bs) = length bs" "c_pos (new_cache pos bs) = pos"
  "c_state (new_cache pos bs) = CACHE_ACTIVE" "c_lifetime (new_cache pos bs) = 0" "c_buf (new_cache pos bs) = bs"
  by (simp_all add: new_cache_def)

lemma fill_hit:
  assumes "slots_ok f" "pos < length (text_of f)"
  shows "\<exists>f'. io61_readc (fill pos f) = Some (sint (text_of f ! pos), f') \<and> reading f'
    \<and> text_of f' = text_of f \<and> here f' = pos + 1"
proof -
  note fo = fill_ok [OF assms]
  have lt: "freeCache f < NCACHES" using assms(1) freeCache_lt by (simp add: slots_ok_def)
  have ne: "0 < length (sys_pread PAGE pos (fd f))"
    using pread_nil [of pos "fd f"] assms(2) by (simp add: not_le)
  note hit = readc_hit [OF fo(1) fo(4) lt]
  show ?thesis using hit(1,3,4,5) fo ne by (simp only: fo new_cache_simps) blast
qed

lemma readc_current:
  assumes "reading f" "getCurrentCache f = Some i" "i < NCACHES"
  shows "\<exists>f'. io61_readc f = Some (if here f < length (text_of f) then sint (text_of f ! here f) else EOF, f')
    \<and> reading f' \<and> text_of f' = text_of f \<and> here f' = (if here f < length (text_of f) then here f + 1 else here f)"
proof (cases "c_offset (caches f ! i) < c_bufsize (caches f ! i)")
  case True
  show ?thesis using readc_hit [OF assms True] by simp
next
  case False
  have s: "slots_ok f" using assms(1) by (simp add: reading_def)
  show ?thesis
  proof (cases "here f < length (text_of f)")
    case True
    then show ?thesis using readc_miss [OF assms False] fill_hit [OF s True] by simp
  next
    case end_of_file: False
    have "reading (evict f)" by (rule evict_reading [OF assms(1)]) (use False assms(2) in auto)
    then show ?thesis using readc_miss [OF assms False] end_of_file evict_ok(2,4) [OF s] by simp
  qed
qed

lemma readc_reading:
  assumes "reading f"
  shows "\<exists>f'. io61_readc f = Some (if here f < length (text_of f) then sint (text_of f ! here f) else EOF, f')
    \<and> reading f' \<and> text_of f' = text_of f \<and> here f' = (if here f < length (text_of f) then here f + 1 else here f)"
  using start_reading_cases [OF assms]
proof (elim disjE exE conjE)
  fix i f'
  assume f': "start_reading f = (Some i, f')" "getCurrentCache f' = Some i" "i < NCACHES" "reading f'"
    "text_of f' = text_of f" "here f' = here f"
  have "start_reading f' = (Some i, f')" by (simp add: start_reading_def f'(2))
  then have "io61_readc f = io61_readc f'"
    by (subst (1 2) io61_readc.simps) (simp add: f'(1))
  then show ?thesis using readc_current [OF f'(4,2,3)] by (simp only: f'(5,6))
next
  assume e: "text_of f = []" "here f = 0" "start_reading f = (None, evict f)" "reading (evict f)"
  have s: "slots_ok f" using assms by (simp add: reading_def)
  have "io61_readc f = Some (EOF, evict f)" by (subst io61_readc.simps) (simp add: e(3))
  then show ?thesis using e evict_ok(2,4) [OF s] by simp
qed

section \<open>Seeking\<close>

abbreviation holds :: "nat \<Rightarrow> io61_cache \<Rightarrow> bool" where
  "holds pos c \<equiv> c_state c = CACHE_ACTIVE \<and> c_pos c \<le> pos \<and> c_pos c + c_bufsize c > pos"

lemma find_scan_Cons:
  "\<exists>l. fst (find_scan pos (c # cs) i fo) =
     c\<lparr>c_lifetime := l\<rparr> # fst (find_scan pos cs (i + 1) (if fo = None \<and> holds pos c then Some i else fo))"
  "snd (find_scan pos (c # cs) i fo) = snd (find_scan pos cs (i + 1) (if fo = None \<and> holds pos c then Some i else fo))"
  by (rule exI [of _ "if fo = None \<and> holds pos c then c_lifetime c else c_lifetime c + 1"])
    (auto simp: Let_def split: prod.split)

declare find_scan.simps(2) [simp del]

lemma find_scan_length: "length (fst (find_scan pos cs i fo)) = length cs"
proof (induction cs arbitrary: i fo)
  case (Cons c cs)
  then show ?case using find_scan_Cons(1) [of pos c cs i fo] by auto
qed simp

lemma find_scan_at:
  "j < length cs \<Longrightarrow> \<exists>l. fst (find_scan pos cs i fo) ! j = (cs ! j)\<lparr>c_lifetime := l\<rparr>"
proof (induction cs arbitrary: i j fo)
  case Nil
  then show ?case by simp
next
  case (Cons c cs)
  then show ?case using find_scan_Cons(1) [of pos c cs i fo] by (cases j) auto
qed

lemma find_scan_keep: "snd (find_scan pos cs k (Some x)) = Some x"
  by (induction cs arbitrary: k) (simp_all add: find_scan_Cons(2))

lemma find_scan_found:
  "snd (find_scan pos cs i None) = Some j \<Longrightarrow> i \<le> j \<and> j < i + length cs
     \<and> c_state (cs ! (j - i)) = CACHE_ACTIVE \<and> c_pos (cs ! (j - i)) \<le> pos
     \<and> pos < c_pos (cs ! (j - i)) + c_bufsize (cs ! (j - i))"
proof (induction cs arbitrary: i)
  case Nil
  then show ?case by simp
next
  case (Cons c cs)
  show ?case
  proof (cases "holds pos c")
    case True
    then show ?thesis using Cons.prems by (simp add: find_scan_Cons(2) find_scan_keep)
  next
    case False
    then have "snd (find_scan pos cs (i + 1) None) = Some j" using Cons.prems by (auto simp: find_scan_Cons(2))
    from Cons.IH [OF this] show ?thesis by (auto simp: nth_Cons')
  qed
qed

text \<open>\<open>getCacheForPos\<close> changes lifetimes and, when it finds a slot, the current one.\<close>

lemma get_cases:
  assumes "slots_ok f" "getCacheForPos pos f = (r, f')"
  shows "slots_ok f'" "text_of f' = text_of f"
    "\<And>i. i < NCACHES \<Longrightarrow> \<exists>l. caches f' ! i = (caches f ! i)\<lparr>c_lifetime := l\<rparr>"
    "case r of None \<Rightarrow> currentCache f' = currentCache f
     | Some j \<Rightarrow> currentCache f' = int j \<and> j < NCACHES \<and> c_state (caches f' ! j) = CACHE_ACTIVE
        \<and> c_pos (caches f' ! j) \<le> pos \<and> pos < c_pos (caches f' ! j) + c_bufsize (caches f' ! j)"
proof -
  obtain cs fo where cs: "find_scan pos (caches f) 0 None = (cs, fo)" by (cases "find_scan pos (caches f) 0 None")
  have l: "length (caches f) = NCACHES" using assms(1) by (simp add: slots_ok_def)
  have len: "length cs = NCACHES" using find_scan_length [of pos "caches f" 0 None] cs l by simp
  have at: "\<exists>l. cs ! i = (caches f ! i)\<lparr>c_lifetime := l\<rparr>" if "i < NCACHES" for i
    using find_scan_at [of i "caches f" pos 0 None] cs that l by simp
  have f': "f' = (case fo of None \<Rightarrow> f\<lparr>caches := cs\<rparr> | Some i \<Rightarrow> f\<lparr>caches := cs, currentCache := int i\<rparr>)" "r = fo"
    using assms(2) cs by (auto simp: getCacheForPos_def Let_def split: option.splits)
  have c: "caches f' = cs" "fd f' = fd f" "mode f' = mode f" "filesize f' = filesize f"
    by (simp_all add: f'(1) split: option.split)
  show t: "text_of f' = text_of f" by (simp add: c)
  show at': "\<exists>l. caches f' ! i = (caches f ! i)\<lparr>c_lifetime := l\<rparr>" if "i < NCACHES" for i
    using at [OF that] by (simp add: c)
  have found: "j < NCACHES \<and> c_state (cs ! j) = CACHE_ACTIVE \<and> c_pos (cs ! j) \<le> pos
      \<and> pos < c_pos (cs ! j) + c_bufsize (cs ! j)" if "fo = Some j" for j
  proof -
    have "j < NCACHES \<and> c_state (caches f ! j) = CACHE_ACTIVE \<and> c_pos (caches f ! j) \<le> pos
        \<and> pos < c_pos (caches f ! j) + c_bufsize (caches f ! j)"
      using find_scan_found [of pos "caches f" 0 j] cs that l by simp
    then show ?thesis using at [of j] by auto
  qed
  then show "case r of None \<Rightarrow> currentCache f' = currentCache f
     | Some j \<Rightarrow> currentCache f' = int j \<and> j < NCACHES \<and> c_state (caches f' ! j) = CACHE_ACTIVE
        \<and> c_pos (caches f' ! j) \<le> pos \<and> pos < c_pos (caches f' ! j) + c_bufsize (caches f' ! j)"
    by (auto simp: f' split: option.split)
  have "list_all (cache_ok (text_of f)) cs"
    using at slot_ok [OF assms(1)] len by (force simp: list_all_length)
  moreover have "currentCache f' = - 1 \<or> (0 \<le> currentCache f' \<and> currentCache f' < int NCACHES)"
    using assms(1) found by (auto simp: f' slots_ok_def split: option.split)
  ultimately show "slots_ok f'" using assms(1) len by (simp add: slots_ok_def c)
qed

lemma prefetch_ok:
  assumes "slots_ok f"
  shows "slots_ok (prefetch pos f)" "text_of (prefetch pos f) = text_of f"
proof -
  have "slots_ok (snd (buildCacheForPos p g)) \<and> text_of (snd (buildCacheForPos p g)) = text_of g"
    if "slots_ok g" for p g
    using build_cases [OF that, of p] fill_ok(1,3) [OF that, of p] evict_ok(1,2) [OF that]
    by (auto simp: reading_def)
  note b = this
  note g = get_cases(1,2) [OF assms]
  have "slots_ok (prefetch pos f) \<and> text_of (prefetch pos f) = text_of f"
    using assms b g by (auto simp: prefetch_def split: option.splits prod.splits) 
  then show "slots_ok (prefetch pos f)" "text_of (prefetch pos f) = text_of f" by simp_all
qed

lemma seek_reading:
  assumes "reading f" "pos < length (text_of f)"
  shows "\<exists>f'. io61_seek pos f = Some (0, f') \<and> reading f' \<and> text_of f' = text_of f \<and> here f' = pos"
proof -
  have s: "slots_ok f" using assms(1) by (simp add: reading_def)
  define g where "g = prefetch pos f"
  have sg: "slots_ok g" "text_of g = text_of f" using prefetch_ok [OF s] by (simp_all add: g_def)
  define h where "h = (case getCacheForPos pos g of (Some _, f) \<Rightarrow> f | (None, f) \<Rightarrow> snd (buildCacheForPos pos f))"
  have "\<exists>i. getCurrentCache h = Some i \<and> i < NCACHES \<and> slots_ok h \<and> text_of h = text_of f
      \<and> c_state (caches h ! i) = CACHE_ACTIVE \<and> c_pos (caches h ! i) \<le> pos"
  proof (cases "getCacheForPos pos g")
    case (Pair r g')
    note get = get_cases [OF sg(1) Pair]
    show ?thesis
    proof (cases r)
      case (Some j)
      then have "h = g'" by (simp add: h_def Pair)
      then show ?thesis using get(1,2,4) Some sg(2) by (auto simp: getCurrentCache_def)
    next
      case None
      have lt: "pos < length (text_of g')" using assms(2) get(2) sg(2) by simp
      have "h = fill pos g'" using lt by (simp add: h_def Pair None build_cases [OF get(1)])
      moreover have "freeCache g' < NCACHES" using get(1) freeCache_lt by (simp add: slots_ok_def)
      ultimately show ?thesis using fill_ok [OF get(1) lt] get(2) sg(2) by (simp add: reading_def)
    qed
  qed
  then obtain i where i: "getCurrentCache h = Some i" "i < NCACHES" "slots_ok h" "text_of h = text_of f"
      "c_state (caches h ! i) = CACHE_ACTIVE" "c_pos (caches h ! i) \<le> pos" by blast
  have rh: "reading h" using i by (simp add: reading_def current_ok_def)
  let ?n = "(2 ^ 64 + pos - c_pos (caches h ! i)) mod 2 ^ 64"
  have n: "?n = pos - c_pos (caches h ! i)"
  proof -
    have "pos < 2 ^ 63" using assms(2) s by (simp add: slots_ok_def)
    then have "pos - c_pos (caches h ! i) < 2 ^ 64" by simp
    moreover have "2 ^ 64 + pos - c_pos (caches h ! i) = 2 ^ 64 + (pos - c_pos (caches h ! i))" using i(6) by simp
    ultimately show ?thesis by (simp only: mod_add_self1 mod_less)
  qed
  let ?f = "set_cache i ((caches h ! i)\<lparr>c_offset := ?n\<rparr>) h"
  note adv = advance [OF rh i(1,2) disjI1 [OF i(5)], of ?n]
  have mode: "mode f \<noteq> O_WRONLY" using s by (simp add: slots_ok_def)
  have reg: "regular (fd ?f)" using adv(1) by (simp only: reading_def slots_ok_def)
  let ?f' = "?f\<lparr>fd := (fd ?f)\<lparr>fpos := pos\<rparr>\<rparr>"
  have "io61_seek pos f = Some (0, ?f')"
    using mode reg i(1) by (simp add: io61_seek_def Let_def g_def [symmetric] h_def [symmetric] sys_lseek_def)
  moreover have cur: "getCurrentCache ?f' = Some i"
  proof -
    have "currentCache ?f' = currentCache ?f" by simp
    then show ?thesis using adv(4) by (simp only: getCurrentCache_def)
  qed
  moreover have "reading ?f'"
    using adv(1) unfolding reading_def cur adv(4) slots_ok_def by simp
  moreover have "here ?f' = pos" using adv(5) n i(6) unfolding here_def cur by simp
  ultimately show ?thesis using adv(2) i(4) by auto
qed

end
