(* ===== verification/Io61Write.thy ===== *)
theory Io61Write
  imports Io61Cache
begin

text \<open>
  The buffer of a file that is written: what has been handed to the library is the file
  followed by the buffer. With it the buffered library is an instance of the interfaces.
\<close>

section \<open>Writing\<close>

definition writing :: "io61_file \<Rightarrow> bool" where
  "writing f \<longleftrightarrow> mode f = O_WRONLY \<and> appending (fd f) \<and> length (caches f) = NCACHES
     \<and> list_all (\<lambda>c. c_offset c = 0) (tl (caches f))
     \<and> (if currentCache f = - 1 then c_offset (caches f ! 0) = 0
        else currentCache f = 0 \<and> c_bufsize (caches f ! 0) = length (c_buf (caches f ! 0))
          \<and> 0 < c_bufsize (caches f ! 0) \<and> c_offset (caches f ! 0) \<le> c_bufsize (caches f ! 0))"

text \<open>What has been handed to the library: the file and what is still in the buffer.\<close>

definition handed :: "io61_file \<Rightarrow> u8 list" where
  "handed f = contents (fd f) @ take (c_offset (caches f ! 0)) (c_buf (caches f ! 0))"

lemma flush_idle: "list_all (\<lambda>i. c_offset (caches f ! i) = 0) is \<Longrightarrow> fold flush_slot is f = f"
  by (induction "is") (simp_all add: flush_slot_def Let_def)

lemma writing_others:
  assumes "writing f" "0 < i" "i < NCACHES"
  shows "c_offset (caches f ! i) = 0"
proof -
  obtain j where j: "i = Suc j" using assms(2) by (cases i) auto
  obtain c cs where c: "caches f = c # cs" using assms by (cases "caches f") (auto simp: writing_def NCACHES_def)
  have "list_all (\<lambda>c. c_offset c = 0) cs" "Suc (length cs) = NCACHES" using assms(1) by (simp_all add: writing_def c)
  then show ?thesis using assms(3) by (simp add: c j list_all_length)
qed

lemma flush_eq:
  assumes "writing f"
  shows "io61_flush f = flush_slot 0 f"
proof -
  have z: "list_all (\<lambda>i. c_offset (caches (flush_slot 0 f) ! i) = 0) [1..<NCACHES]"
    using writing_others [OF assms] by (auto simp: list_all_iff flush_slot_def Let_def set_cache_def)
  have "[0..<NCACHES] = 0 # [1..<NCACHES]" by (simp add: NCACHES_def upt_conv_Cons del: upt_rec_numeral)
  then have "io61_flush f = fold flush_slot (0 # [1..<NCACHES]) f"
    using assms by (simp add: io61_flush_def writing_def)
  also have "\<dots> = flush_slot 0 f" using flush_idle [OF z] by simp
  finally show ?thesis .
qed

lemma flush_writing:
  assumes "writing f"
  shows "writing (io61_flush f)" "handed (io61_flush f) = handed f" "contents (fd (io61_flush f)) = handed f"
    "c_offset (caches (io61_flush f) ! 0) = 0" "currentCache (io61_flush f) = currentCache f"
    "c_bufsize (caches (io61_flush f) ! 0) = c_bufsize (caches f ! 0)"
proof -
  have l: "length (caches f) = NCACHES" "0 < NCACHES" using assms by (simp_all add: writing_def NCACHES_def)
  have a: "appending (fd f)" using assms by (simp add: writing_def)
  have "writing (flush_slot 0 f) \<and> handed (flush_slot 0 f) = handed f \<and> contents (fd (flush_slot 0 f)) = handed f
      \<and> c_offset (caches (flush_slot 0 f) ! 0) = 0 \<and> currentCache (flush_slot 0 f) = currentCache f
      \<and> c_bufsize (caches (flush_slot 0 f) ! 0) = c_bufsize (caches f ! 0)"
  proof (cases "caches f")
    case (Cons c cs)
    then show ?thesis
      using assms sys_write_append [OF a]
      by (auto simp: flush_slot_def Let_def set_cache_def writing_def handed_def)
  qed (use l in simp)
  then show "writing (io61_flush f)" "handed (io61_flush f) = handed f" "contents (fd (io61_flush f)) = handed f"
    "c_offset (caches (io61_flush f) ! 0) = 0" "currentCache (io61_flush f) = currentCache f"
    "c_bufsize (caches (io61_flush f) ! 0) = c_bufsize (caches f ! 0)"
    unfolding flush_eq [OF assms] by simp_all
qed

lemma start_writing_ok:
  assumes "writing f" "0 < n"
  shows "\<exists>f'. start_writing n f = (0, f') \<and> writing f' \<and> handed f' = handed f \<and> currentCache f' = 0"
proof (cases "currentCache f = - 1")
  case True
  then show ?thesis
    using assms by (cases "caches f")
      (auto simp: start_writing_def getCurrentCache_def set_cache_def writing_def handed_def NCACHES_def)
next
  case False
  then have "currentCache f = 0" using assms(1) by (simp add: writing_def)
  then show ?thesis using assms(1) by (simp add: start_writing_def getCurrentCache_def)
qed

lemma take_put: "k \<le> length buf \<Longrightarrow> take (k + length bs) (put_at k bs buf) = take k buf @ bs"
  by (simp add: put_at_def)

lemma length_put: "k + length bs \<le> length buf \<Longrightarrow> length (put_at k bs buf) = length buf"
  by (simp add: put_at_def)

text \<open>Storing bytes at the end of the buffer.\<close>

lemma store_bytes:
  assumes "writing f" "currentCache f = 0" "c_offset (caches f ! 0) + length bs \<le> c_bufsize (caches f ! 0)"
  defines "f' \<equiv> set_cache 0 ((caches f ! 0)\<lparr>c_buf := put_at (c_offset (caches f ! 0)) bs (c_buf (caches f ! 0)),
      c_offset := c_offset (caches f ! 0) + length bs\<rparr>) f"
  shows "writing f'" "handed f' = handed f @ bs" "currentCache f' = 0"
    "c_offset (caches f' ! 0) = c_offset (caches f ! 0) + length bs"
    "c_bufsize (caches f' ! 0) = c_bufsize (caches f ! 0)"
proof -
  let ?c = "caches f ! 0"
  have b: "c_bufsize ?c = length (c_buf ?c)" "c_offset ?c \<le> length (c_buf ?c)" "caches f \<noteq> []"
    using assms(1,2) by (auto simp: writing_def NCACHES_def)
  then obtain c cs where cs: "caches f = c # cs" by (cases "caches f") auto
  have t: "take (c_offset c + length bs) (put_at (c_offset c) bs (c_buf c)) = take (c_offset c) (c_buf c) @ bs"
    using b(2) cs by (intro take_put) simp
  have l: "length (put_at (c_offset c) bs (c_buf c)) = length (c_buf c)"
    using assms(3) b(1) cs by (intro length_put) simp
  show "writing f'" "handed f' = handed f @ bs" "currentCache f' = 0"
    "c_offset (caches f' ! 0) = c_offset (caches f ! 0) + length bs"
    "c_bufsize (caches f' ! 0) = c_bufsize (caches f ! 0)"
    using assms(1-3) cs t l by (auto simp: f'_def set_cache_def writing_def handed_def)
qed

lemma writec_room:
  assumes "writing f" "currentCache f = 0" "c_offset (caches f ! 0) < c_bufsize (caches f ! 0)"
  shows "\<exists>f'. io61_writec ch f = Some f' \<and> writing f' \<and> handed f' = handed f @ [word_of_int ch]"
proof -
  have "(c_buf (caches f ! 0))[c_offset (caches f ! 0) := word_of_int ch] =
      put_at (c_offset (caches f ! 0)) [word_of_int ch] (c_buf (caches f ! 0))"
    using assms by (simp add: put_at_def writing_def upd_conv_take_nth_drop)
  then show ?thesis
    using store_bytes [OF assms(1,2), of "[word_of_int ch]"] assms(2,3)
    by (subst io61_writec.simps) (simp add: start_writing_def getCurrentCache_def Let_def)
qed

lemma writec_writing:
  assumes "writing f"
  shows "\<exists>f'. io61_writec ch f = Some f' \<and> writing f' \<and> handed f' = handed f @ [word_of_int ch]"
proof -
  have "0 < PAGE" by (simp add: PAGE_def)
  from start_writing_ok [OF assms this] obtain g where g: "start_writing PAGE f = (0, g)" "writing g"
    "handed g = handed f" "currentCache g = 0" by blast
  show ?thesis
  proof (cases "c_offset (caches g ! 0) < c_bufsize (caches g ! 0)")
    case True
    have "io61_writec ch f = io61_writec ch g"
      using g True by (subst (1 2) io61_writec.simps) (simp add: start_writing_def getCurrentCache_def)
    then show ?thesis using writec_room [OF g(2,4) True] g(3) by simp
  next
    case False
    note fl = flush_writing [OF g(2)]
    have room: "c_offset (caches (io61_flush g) ! 0) < c_bufsize (caches (io61_flush g) ! 0)"
      using fl(4,6) g(2,4) by (auto simp: writing_def)
    have "io61_writec ch f = io61_writec ch (io61_flush g)"
      using g(1) False by (subst (1) io61_writec.simps) (simp add: Let_def)
    then show ?thesis using writec_room [OF fl(1) _ room] fl(2,5) g(3,4) by simp
  qed
qed

lemma write_loop_writing:
  assumes "writing f" "currentCache f = 0" "c_offset (caches f ! 0) < c_bufsize (caches f ! 0)"
  shows "\<exists>f'. write_loop 0 bs f = Some f' \<and> writing f' \<and> handed f' = handed f @ bs"
  using assms
proof (induction "length bs" arbitrary: bs f rule: less_induct)
  case less
  show ?case
  proof (cases "bs = []")
    case True
    then show ?thesis using less.prems by (subst write_loop.simps) simp
  next
    case False
    define c where "c = caches f ! 0"
    define n where "n = (if length bs > c_bufsize c - c_offset c then c_bufsize c - c_offset c else length bs)"
    define g where "g = set_cache 0 (c\<lparr>c_buf := put_at (c_offset c) (take n bs) (c_buf c),
        c_offset := c_offset c + n\<rparr>) f"
    define h where "h = (if c_offset c + n = c_bufsize c then io61_flush g else g)"
    have n: "length (take n bs) = n" "0 < n" "n \<le> length bs" "c_offset c + n \<le> c_bufsize c"
      using less.prems(3) False by (auto simp: n_def c_def)
    have step: "write_loop 0 bs f = write_loop 0 (drop n bs) h"
      unfolding h_def g_def
      using False by (subst write_loop.simps) (simp add: Let_def c_def [symmetric] n_def [symmetric])
    have fits: "c_offset (caches f ! 0) + length (take n bs) \<le> c_bufsize (caches f ! 0)"
      unfolding n(1) c_def [symmetric] by (rule n(4))
    note g = store_bytes [OF less.prems(1,2) fits, folded c_def, unfolded n(1), folded g_def]
    have h: "writing h \<and> handed h = handed f @ take n bs \<and> currentCache h = 0
        \<and> c_offset (caches h ! 0) < c_bufsize (caches h ! 0)"
    proof (cases "c_offset c + n = c_bufsize c")
      case True
      have "0 < c_bufsize c" using n(2) True by simp
      then show ?thesis using flush_writing [OF g(1)] g True by (simp add: h_def)
    next
      case False
      then show ?thesis using g n(4) by (simp add: h_def)
    qed
    have "length (drop n bs) < length bs" using n(2) False by simp
    from less.hyps [OF this] h obtain f' where "write_loop 0 (drop n bs) h = Some f'" "writing f'"
        "handed f' = handed h @ drop n bs" by blast
    moreover have "handed h @ drop n bs = handed f @ bs" using h by simp
    ultimately show ?thesis using step by simp
  qed
qed

lemma write_room:
  assumes "writing f" "currentCache f = 0" "c_offset (caches f ! 0) < c_bufsize (caches f ! 0)"
  shows "\<exists>f'. io61_write bs f = Some f' \<and> writing f' \<and> handed f' = handed f @ bs"
  using write_loop_writing [OF assms, of bs] assms(2,3)
  by (subst io61_write.simps) (simp add: start_writing_def getCurrentCache_def)

lemma write_writing:
  assumes "writing f"
  shows "\<exists>f'. io61_write bs f = Some f' \<and> writing f' \<and> handed f' = handed f @ bs"
proof -
  have "0 < 10 * PAGE" by (simp add: PAGE_def)
  from start_writing_ok [OF assms this] obtain g where g: "start_writing (10 * PAGE) f = (0, g)" "writing g"
    "handed g = handed f" "currentCache g = 0" by blast
  show ?thesis
  proof (cases "c_offset (caches g ! 0) < c_bufsize (caches g ! 0)")
    case True
    have "io61_write bs f = io61_write bs g"
      using g True by (subst (1 2) io61_write.simps) (simp add: start_writing_def getCurrentCache_def)
    then show ?thesis using write_room [OF g(2,4) True] g(3) by simp
  next
    case False
    note fl = flush_writing [OF g(2)]
    have room: "c_offset (caches (io61_flush g) ! 0) < c_bufsize (caches (io61_flush g) ! 0)"
      using fl(4,6) g(2,4) by (auto simp: writing_def)
    have "io61_write bs f = io61_write bs (io61_flush g)"
      using g(1) False by (subst (1) io61_write.simps) (simp add: Let_def)
    then show ?thesis using write_room [OF fl(1) _ room] fl(2,5) g(3,4) by simp
  qed
qed

lemma close_writing: "writing f \<Longrightarrow> contents (fd (io61_close f)) = handed f"
  using flush_writing(3) by (simp add: io61_close_def Let_def)

section \<open>Writing with uninitialised slots\<close>

text \<open>
  What \<open>io61_flush\<close> takes a slot to hold: the bytes that \<open>write\<close> finds behind its pointer, up to its
  offset. (\<open>c_buf\<close> of a slot that was never set is what its pointer happens to point to, and
  nothing if that cannot be read.) \<open>outgoing gs f\<close>: slot 0 is the buffer, and the other slots,
  whose memory nobody has set, seem to hold \<open>gs\<close>.
\<close>

definition unsent :: "io61_cache \<Rightarrow> u8 list" where
  "unsent c = take (c_offset c) (c_buf c)"

definition outgoing :: "u8 list \<Rightarrow> io61_file \<Rightarrow> bool" where
  "outgoing gs f \<longleftrightarrow> mode f = O_WRONLY \<and> appending (fd f) \<and> length (caches f) = NCACHES
     \<and> concat (map unsent (tl (caches f))) = gs \<and> currentCache f = 0
     \<and> c_bufsize (caches f ! 0) = length (c_buf (caches f ! 0)) \<and> 0 < c_bufsize (caches f ! 0)
     \<and> c_offset (caches f ! 0) \<le> c_bufsize (caches f ! 0)"

lemma flush_slot_ok:
  assumes "appending (fd g)" "i < length (caches g)"
  shows "appending (fd (flush_slot i g)) \<and> contents (fd (flush_slot i g)) = contents (fd g) @ unsent (caches g ! i)
    \<and> currentCache (flush_slot i g) = currentCache g \<and> mode (flush_slot i g) = mode g
    \<and> caches (flush_slot i g) = (caches g)[i := (caches g ! i)\<lparr>c_offset := 0\<rparr>]"
proof (cases "c_offset (caches g ! i) = 0")
  case True
  then have "(caches g ! i)\<lparr>c_offset := 0\<rparr> = caches g ! i" by (cases "caches g ! i") simp
  then have "(caches g)[i := (caches g ! i)\<lparr>c_offset := 0\<rparr>] = caches g" by (simp only: list_update_id)
  moreover have "flush_slot i g = g" using True by (simp add: flush_slot_def)
  ultimately show ?thesis using True assms(1) by (simp add: unsent_def)
next
  case False
  then show ?thesis
    using sys_write_append [OF assms(1)] by (simp add: flush_slot_def set_cache_def unsent_def Let_def)
qed

lemma flush_slots:
  assumes "n \<le> length (caches f)" "appending (fd f)"
  defines "g \<equiv> fold flush_slot [0..<n] f"
  shows "appending (fd g) \<and> contents (fd g) = contents (fd f) @ concat (map unsent (take n (caches f)))
    \<and> currentCache g = currentCache f \<and> mode g = mode f
    \<and> caches g = map (\<lambda>c. c\<lparr>c_offset := 0\<rparr>) (take n (caches f)) @ drop n (caches f)"
  using assms(1,2) unfolding g_def
proof (induction n)
  case (Suc n)
  define g where "g = fold flush_slot [0..<n] f"
  note IH = Suc.IH [OF _ Suc.prems(2), folded g_def]
  have n: "n < length (caches f)" using Suc.prems(1) by simp
  have at: "caches g ! n = caches f ! n" "length (caches g) = length (caches f)"
    using IH n by (simp_all add: nth_append)
  have "n < length (caches g)" using n at(2) by simp
  note S = flush_slot_ok [OF _ this, unfolded at(1)]
  have step: "fold flush_slot [0..<Suc n] f = flush_slot n g" by (simp add: g_def)
  have "caches (flush_slot n g) = map (\<lambda>c. c\<lparr>c_offset := 0\<rparr>) (take (Suc n) (caches f)) @ drop (Suc n) (caches f)"
    using IH S n by (simp add: take_Suc_conv_app_nth list_update_append Cons_nth_drop_Suc [symmetric])
  then show ?case unfolding step using IH S n by (simp add: take_Suc_conv_app_nth)
qed simp

lemma flush_outgoing:
  assumes "outgoing gs f"
  shows "writing (io61_flush f)" "handed (io61_flush f) = handed f @ gs"
    "contents (fd (io61_flush f)) = handed f @ gs"
    "c_offset (caches (io61_flush f) ! 0) < c_bufsize (caches (io61_flush f) ! 0)"
    "currentCache (io61_flush f) = 0"
proof -
  obtain c cs where cs: "caches f = c # cs" and l: "length cs = 9"
    using assms by (cases "caches f") (auto simp: outgoing_def NCACHES_def)
  have fl: "io61_flush f = fold flush_slot [0..<NCACHES] f" using assms by (simp add: io61_flush_def outgoing_def)
  have n: "length (caches f) = NCACHES" and le: "NCACHES \<le> length (caches f)" and ap: "appending (fd f)"
    using assms by (simp_all add: outgoing_def)
  note F = flush_slots [OF le ap, folded fl]
  have o: "mode f = O_WRONLY" "currentCache f = 0" "c_bufsize c = length (c_buf c)" "c_buf c \<noteq> []"
    "concat (map unsent cs) = gs"
    using assms by (auto simp: outgoing_def cs)
  have 1: "contents (fd (io61_flush f)) = handed f @ gs"
    using F n o(5) by (simp add: handed_def unsent_def cs)
  have 2: "caches (io61_flush f) = map (\<lambda>c. c\<lparr>c_offset := 0\<rparr>) (caches f)" using F n by simp
  show "contents (fd (io61_flush f)) = handed f @ gs" by (rule 1)
  show "handed (io61_flush f) = handed f @ gs" using 1 2 by (simp add: handed_def cs)
  show "currentCache (io61_flush f) = 0" using F o(2) by simp
  show "c_offset (caches (io61_flush f) ! 0) < c_bufsize (caches (io61_flush f) ! 0)"
    using 2 o(3,4) by (simp add: cs)
  show "writing (io61_flush f)"
  proof -
    have "mode (io61_flush f) = O_WRONLY" "appending (fd (io61_flush f))" "currentCache (io61_flush f) = 0"
      using F o(1,2) by simp_all
    moreover have "caches (io61_flush f) = c\<lparr>c_offset := 0\<rparr> # map (\<lambda>c. c\<lparr>c_offset := 0\<rparr>) cs"
      using 2 by (simp add: cs)
    moreover have "Suc (length cs) = NCACHES" using n by (simp add: cs)
    ultimately show ?thesis using o(3,4) by (simp add: writing_def list_all_iff)
  qed
qed

lemma store_outgoing:
  assumes "outgoing gs f" "c_offset (caches f ! 0) + length bs \<le> c_bufsize (caches f ! 0)"
  defines "f' \<equiv> set_cache 0 ((caches f ! 0)\<lparr>c_buf := put_at (c_offset (caches f ! 0)) bs (c_buf (caches f ! 0)),
      c_offset := c_offset (caches f ! 0) + length bs\<rparr>) f"
  shows "outgoing gs f'" "handed f' = handed f @ bs"
    "c_offset (caches f' ! 0) = c_offset (caches f ! 0) + length bs"
    "c_bufsize (caches f' ! 0) = c_bufsize (caches f ! 0)"
proof -
  let ?c = "caches f ! 0"
  have b: "c_bufsize ?c = length (c_buf ?c)" "c_offset ?c \<le> length (c_buf ?c)" "caches f \<noteq> []"
    using assms(1) by (auto simp: outgoing_def NCACHES_def)
  then obtain c cs where cs: "caches f = c # cs" by (cases "caches f") auto
  have t: "take (c_offset c + length bs) (put_at (c_offset c) bs (c_buf c)) = take (c_offset c) (c_buf c) @ bs"
    using b(2) cs by (intro take_put) simp
  have l: "length (put_at (c_offset c) bs (c_buf c)) = length (c_buf c)"
    using assms(2) b(1) cs by (intro length_put) simp
  show "outgoing gs f'" "handed f' = handed f @ bs"
    "c_offset (caches f' ! 0) = c_offset (caches f ! 0) + length bs"
    "c_bufsize (caches f' ! 0) = c_bufsize (caches f ! 0)"
    using assms(1,2) cs t l by (auto simp: f'_def set_cache_def outgoing_def handed_def)
qed

lemma outgoing_start: "outgoing gs f \<Longrightarrow> start_writing n f = (0, f)"
  by (simp add: outgoing_def start_writing_def getCurrentCache_def)

lemma writec_outgoing:
  assumes "outgoing gs f"
  shows "\<exists>g. io61_writec ch f = Some g \<and>
    (outgoing gs g \<and> handed g = handed f @ [word_of_int ch]
     \<or> writing g \<and> handed g = handed f @ gs @ [word_of_int ch])"
proof (cases "c_offset (caches f ! 0) < c_bufsize (caches f ! 0)")
  case True
  have put: "(c_buf (caches f ! 0))[c_offset (caches f ! 0) := word_of_int ch] =
      put_at (c_offset (caches f ! 0)) [word_of_int ch] (c_buf (caches f ! 0))"
    using assms True by (simp add: put_at_def outgoing_def upd_conv_take_nth_drop)
  have "c_offset (caches f ! 0) + length [word_of_int ch :: u8] \<le> c_bufsize (caches f ! 0)"
    using True by simp
  from store_outgoing(1,2) [OF assms this] show ?thesis
    using True by (subst io61_writec.simps) (simp add: outgoing_start [OF assms] Let_def put)
next
  case False
  note fl = flush_outgoing [OF assms]
  have "io61_writec ch f = io61_writec ch (io61_flush f)"
    using False by (subst (1) io61_writec.simps) (simp add: outgoing_start [OF assms] Let_def)
  then show ?thesis using writec_room [OF fl(1,5,4), of ch] by (auto simp: fl(2))
qed

lemma write_loop_outgoing:
  assumes "outgoing gs f" "c_offset (caches f ! 0) < c_bufsize (caches f ! 0)"
  shows "\<exists>g. write_loop 0 bs f = Some g \<and>
    (outgoing gs g \<and> handed g = handed f @ bs
     \<or> writing g \<and> (\<exists>as cs. bs = as @ cs \<and> handed g = handed f @ as @ gs @ cs))"
proof (cases "bs = []")
  case True
  then show ?thesis using assms by (subst write_loop.simps) simp
next
  case False
  define c where "c = caches f ! 0"
  define n where "n = (if length bs > c_bufsize c - c_offset c then c_bufsize c - c_offset c else length bs)"
  define g where "g = set_cache 0 (c\<lparr>c_buf := put_at (c_offset c) (take n bs) (c_buf c),
      c_offset := c_offset c + n\<rparr>) f"
  have n: "length (take n bs) = n" "n \<le> length bs" "c_offset c + n \<le> c_bufsize c"
    using assms(2) by (auto simp: n_def c_def)
  have step: "write_loop 0 bs f = write_loop 0 (drop n bs) (if c_offset c + n = c_bufsize c then io61_flush g else g)"
    unfolding g_def
    using False by (subst write_loop.simps) (simp add: Let_def c_def [symmetric] n_def [symmetric])
  have fits: "c_offset (caches f ! 0) + length (take n bs) \<le> c_bufsize (caches f ! 0)"
    unfolding n(1) c_def [symmetric] by (rule n(3))
  note g = store_outgoing [OF assms(1) fits, folded c_def, unfolded n(1), folded g_def]
  show ?thesis
  proof (cases "c_offset c + n = c_bufsize c")
    case True
    note fl = flush_outgoing [OF g(1)]
    obtain h where "write_loop 0 (drop n bs) (io61_flush g) = Some h" "writing h"
        "handed h = handed (io61_flush g) @ drop n bs"
      using write_loop_writing [OF fl(1,5,4)] by blast
    then have "write_loop 0 bs f = Some h" "writing h" "bs = take n bs @ drop n bs"
      "handed h = handed f @ take n bs @ gs @ drop n bs"
      using True by (simp_all add: step fl(2) g(2))
    then show ?thesis by blast
  next
    case False
    then have "drop n bs = []" "take n bs = bs" using n(3) by (auto simp: n_def split: if_splits)
    then show ?thesis using g(1,2) False by (simp add: step) (subst write_loop.simps, simp)
  qed
qed

lemma write_outgoing:
  assumes "outgoing gs f"
  shows "\<exists>g. io61_write bs f = Some g \<and>
    (outgoing gs g \<and> handed g = handed f @ bs
     \<or> writing g \<and> (\<exists>as cs. bs = as @ cs \<and> handed g = handed f @ as @ gs @ cs))"
proof (cases "c_offset (caches f ! 0) < c_bufsize (caches f ! 0)")
  case True
  then show ?thesis
    using write_loop_outgoing [OF assms True, of bs]
    by (subst io61_write.simps) (simp add: outgoing_start [OF assms])
next
  case False
  note fl = flush_outgoing [OF assms]
  have "io61_write bs f = io61_write bs (io61_flush f)"
    using False by (subst (1) io61_write.simps) (simp add: outgoing_start [OF assms] Let_def)
  moreover obtain g where "io61_write bs (io61_flush f) = Some g" "writing g"
      "handed g = handed (io61_flush f) @ bs"
    using write_room [OF fl(1,5,4)] by blast
  ultimately have "io61_write bs f = Some g" "writing g" "bs = [] @ bs" "handed g = handed f @ [] @ gs @ bs"
    by (simp_all add: fl(2))
  then show ?thesis by blast
qed

text \<open>The first operation on a newly opened file sets up slot 0.\<close>

lemma start_opened:
  assumes "length junk = NCACHES" "0 < n" "mode f = O_WRONLY" "appending (fd f)" "caches f = junk"
    "currentCache f = - 1"
  shows "\<exists>g. start_writing n f = (0, g) \<and> outgoing (concat (map unsent (tl junk))) g
    \<and> handed g = contents (fd f)"
  using assms
  by (cases junk) (auto simp: start_writing_def getCurrentCache_def set_cache_def outgoing_def handed_def NCACHES_def)

lemma writec_start:
  "start_writing PAGE f = (0, g) \<Longrightarrow> outgoing gs g \<Longrightarrow> io61_writec ch f = io61_writec ch g"
  by (subst (1 2) io61_writec.simps) (simp add: outgoing_start)

lemma write_start:
  "start_writing (10 * PAGE) f = (0, g) \<Longrightarrow> outgoing gs g \<Longrightarrow> io61_write bs f = io61_write bs g"
  by (subst (1 2) io61_write.simps) (simp add: outgoing_start)

interpretation io61: seek_copier io61_readc text_of here reading sint io61_writec handed writing io61_seek
proof unfold_locales
  fix f :: io61_file and pos
  show "\<exists>f'. io61_readc f = Some (sint (text_of f ! here f), f') \<and> reading f' \<and> text_of f' = text_of f
      \<and> here f' = here f + 1" if "reading f" "here f < length (text_of f)"
    using readc_reading [OF that(1)] that(2) by simp
  show "\<exists>f'. io61_readc f = Some (EOF, f') \<and> reading f' \<and> text_of f' = text_of f \<and> here f' = here f"
    if "reading f" "length (text_of f) \<le> here f"
    using readc_reading [OF that(1)] that(2) by simp
  show "\<exists>f'. io61_seek pos f = Some (0, f') \<and> reading f' \<and> text_of f' = text_of f \<and> here f' = pos"
    if "reading f" "pos < length (text_of f)"
    using that by (rule seek_reading)
qed (use writec_writing in simp_all)

end
