(* ===== verification/Io61Read.thy ===== *)
theory Io61Read
  imports Io61Write
begin

text \<open>
  Reading blocks: what \<open>io61_read\<close> returns when it returns, when it does, and the stale
  pointer with which it does not.
\<close>

section \<open>Reading blocks\<close>

text \<open>
  The loop's pointer may be stale: it then points to a used-up slot that ends where the
  current cache starts.
\<close>

definition loop_ok :: "nat \<Rightarrow> io61_file \<Rightarrow> bool" where
  "loop_ok i f \<longleftrightarrow> reading f \<and> i < NCACHES \<and> c_state (caches f ! i) = CACHE_ACTIVE
     \<and> c_offset (caches f ! i) \<le> c_bufsize (caches f ! i)
     \<and> here f = c_pos (caches f ! i) + c_offset (caches f ! i)
     \<and> (getCurrentCache f = Some i
        \<or> (c_offset (caches f ! i) = c_bufsize (caches f ! i) \<and> here f < length (text_of f)))"

lemma cache_slice:
  assumes "cache_ok xs c" "c_state c = CACHE_ACTIVE" "c_offset c + n \<le> c_bufsize c"
  shows "take n (drop (c_offset c) (c_buf c)) = take n (drop (c_pos c + c_offset c) xs)"
    "length (take n (drop (c_offset c) (c_buf c))) = n"
proof -
  have c: "c_bufsize c = length (c_buf c)" "c_pos c + c_bufsize c \<le> length xs"
    "\<And>j. j < c_bufsize c \<Longrightarrow> c_buf c ! j = xs ! (c_pos c + j)"
    using assms(1,2) by (simp_all add: cache_ok_def)
  show "take n (drop (c_offset c) (c_buf c)) = take n (drop (c_pos c + c_offset c) xs)"
    by (rule nth_equalityI) (use c assms(3) in \<open>auto simp: add.assoc\<close>)
  show "length (take n (drop (c_offset c) (c_buf c))) = n" using c(1) assms(3) by simp
qed

text \<open>One round: \<open>n\<close> bytes are copied and the slot is advanced.\<close>

definition loop_count :: "nat \<Rightarrow> nat \<Rightarrow> nat \<Rightarrow> io61_file \<Rightarrow> nat" where
  "loop_count i sz k f = min (sz - k) (c_bufsize (caches f ! i) - c_offset (caches f ! i))"

definition loop_file :: "nat \<Rightarrow> nat \<Rightarrow> io61_file \<Rightarrow> io61_file" where
  "loop_file i n f = set_cache i ((caches f ! i)\<lparr>c_offset := c_offset (caches f ! i) + n\<rparr>) f"

text \<open>The body of the loop, with the recursive call as an argument.\<close>

definition read_body :: "(nat \<Rightarrow> nat \<Rightarrow> u8 list \<Rightarrow> io61_file \<Rightarrow> (u8 list \<times> io61_file) option)
    \<Rightarrow> nat \<Rightarrow> nat \<Rightarrow> u8 list \<Rightarrow> io61_file \<Rightarrow> (u8 list \<times> io61_file) option" where
  "read_body rl i sz acc f =
     (if length acc = sz then Some (acc, f)
      else
        (let c = caches f ! i;
             charsLeft = c_bufsize c - c_offset c;
             cycleRead = (if sz - length acc > charsLeft then charsLeft else sz - length acc);
             acc = acc @ take cycleRead (drop (c_offset c) (c_buf c));
             c = c\<lparr>c_offset := c_offset c + cycleRead\<rparr>;
             f = set_cache i c f
         in if c_offset c = c_bufsize c
            then (case buildCacheForPos (c_pos c + c_offset c) f of
                    (None, f) \<Rightarrow> Some (acc, f)
                  | (Some _, f) \<Rightarrow> rl i sz acc f)
            else rl i sz acc f))"

lemma read_loop_body: "read_loop i sz acc f = read_body read_loop i sz acc f"
  by (subst read_loop.simps) (simp add: read_body_def)

lemma read_loop_round:
  assumes "loop_ok i f" "length acc < sz"
  defines "n \<equiv> loop_count i sz (length acc) f"
  defines "g \<equiv> loop_file i n f"
  defines "acc' \<equiv> acc @ take n (drop (here f) (text_of f))"
  shows "read_body rl i sz acc f =
      (if c_offset (caches g ! i) = c_bufsize (caches g ! i)
       then (if here g < length (text_of g) then rl i sz acc' (fill (here g) g)
             else Some (acc', evict g))
       else rl i sz acc' g)"
    "loop_ok i g" "text_of g = text_of f" "here g = here f + n" "length acc' = length acc + n" "length acc' \<le> sz"
    "caches g ! i = (caches f ! i)\<lparr>c_offset := c_offset (caches f ! i) + n\<rparr>"
    "\<And>j. j \<noteq> i \<Longrightarrow> caches g ! j = caches f ! j"
    "fd g = fd f" "currentCache g = currentCache f"
    "c_offset (caches g ! i) = c_bufsize (caches g ! i) \<Longrightarrow> here g < length (text_of g) \<or> getCurrentCache g = Some i"
    "c_offset (caches g ! i) \<noteq> c_bufsize (caches g ! i) \<Longrightarrow> length acc' = sz"
proof -
  let ?c = "caches f ! i"
  have L: "reading f" "i < NCACHES" "c_state ?c = CACHE_ACTIVE" "c_offset ?c \<le> c_bufsize ?c"
    "here f = c_pos ?c + c_offset ?c"
    "getCurrentCache f = Some i \<or> (c_offset ?c = c_bufsize ?c \<and> here f < length (text_of f))"
    using assms(1) unfolding loop_ok_def by blast+
  have s: "slots_ok f" and l: "length (caches f) = NCACHES" using L(1) by (simp_all add: reading_def slots_ok_def)
  have n: "c_offset ?c + n \<le> c_bufsize ?c" "n \<le> sz - length acc" using L(4) by (simp_all add: n_def loop_count_def)
  note sl = cache_slice [OF slot_ok [OF s L(2)] L(3) n(1)]
  have count: "(if sz - length acc > c_bufsize ?c - c_offset ?c then c_bufsize ?c - c_offset ?c else sz - length acc) = n"
    by (simp add: n_def loop_count_def min_def)
  have acc': "acc @ take n (drop (c_offset ?c) (c_buf ?c)) = acc'" using sl(1) by (simp add: acc'_def L(5))
  show la: "length acc' = length acc + n" using sl(2) by (simp add: acc' [symmetric])
  then show "length acc' \<le> sz" using n(2) assms(2) by simp
  show gi: "caches g ! i = ?c\<lparr>c_offset := c_offset ?c + n\<rparr>" using l L(2) by (simp add: g_def loop_file_def set_cache_def)
  show gj: "\<And>j. j \<noteq> i \<Longrightarrow> caches g ! j = caches f ! j" by (simp add: g_def loop_file_def set_cache_def)
  show fd: "fd g = fd f" and cc: "currentCache g = currentCache f"
    by (simp_all add: g_def loop_file_def set_cache_def)
  show t: "text_of g = text_of f" by (simp add: fd)
  have gc: "getCurrentCache g = getCurrentCache f" by (simp add: getCurrentCache_def cc)
  have full: "g = f" if "getCurrentCache f \<noteq> Some i"
  proof -
    have "n = 0" using L(6) that by (simp add: n_def loop_count_def)
    then show ?thesis by (simp add: g_def loop_file_def set_cache_def)
  qed
  have n0: "n = 0" if "getCurrentCache f \<noteq> Some i" using L(6) that by (simp add: n_def loop_count_def)
  show h: "here g = here f + n"
  proof (cases "getCurrentCache f = Some i")
    case True
    then show ?thesis by (simp add: here_def gc gi)
  next
    case False
    then show ?thesis using full n0 by simp
  qed
  have rg: "reading g"
  proof (cases "getCurrentCache f = Some i")
    case True
    show ?thesis using advance(1) [OF L(1) True L(2) disjI1 [OF L(3)]] by (simp add: g_def loop_file_def)
  next
    case False
    then show ?thesis using full L(1) by simp
  qed
  have off: "here g = c_pos (caches g ! i) + c_offset (caches g ! i)" using h L(5) by (simp add: gi)
  show "loop_ok i g"
    using rg L n(1) off h t gc n0 by (auto simp: loop_ok_def gi)
  show "here g < length (text_of g) \<or> getCurrentCache g = Some i"
    using L(6) full gc t by auto
  show "length acc' = sz" if "c_offset (caches g ! i) \<noteq> c_bufsize (caches g ! i)"
    using that assms(2) la n L(4) by (simp add: gi n_def loop_count_def min_def split: if_splits)
  have sg: "slots_ok g" using rg by (simp add: reading_def)
  have "read_body rl i sz acc f =
      (if c_offset (caches g ! i) = c_bufsize (caches g ! i)
       then (case buildCacheForPos (here g) g of
               (None, f) \<Rightarrow> Some (acc', f) | (Some _, f) \<Rightarrow> rl i sz acc' f)
       else rl i sz acc' g)"
  proof -
    have g: "g = set_cache i (?c\<lparr>c_offset := c_offset ?c + n\<rparr>) f" by (simp add: g_def loop_file_def)
    have cg: "c_offset (caches g ! i) = c_offset ?c + n" "c_bufsize (caches g ! i) = c_bufsize ?c"
      "c_pos (caches g ! i) = c_pos ?c" by (simp_all add: gi)
    have hg: "here g = c_pos ?c + (c_offset ?c + n)" using off cg by simp
    have ne: "length acc \<noteq> sz" using assms(2) by simp
    show ?thesis
      unfolding cg hg
      by (simp only: read_body_def ne if_False Let_def count acc' g [symmetric]) simp
  qed
  then show "read_body rl i sz acc f =
      (if c_offset (caches g ! i) = c_bufsize (caches g ! i)
       then (if here g < length (text_of g) then rl i sz acc' (fill (here g) g)
             else Some (acc', evict g))
       else rl i sz acc' g)"
    by (simp add: build_cases [OF sg])
qed

lemma loop_fill:
  assumes "loop_ok i g" "c_offset (caches g ! i) = c_bufsize (caches g ! i)" "here g < length (text_of g)"
  shows "loop_ok i (fill (here g) g)"
proof -
  have s: "slots_ok g" using assms(1) by (simp add: loop_ok_def reading_def)
  note fo = fill_ok [OF s assms(3)]
  have lt: "freeCache g < NCACHES" using s freeCache_lt by (simp add: slots_ok_def)
  show ?thesis
  proof (cases "freeCache g = i")
    case True
    then show ?thesis using fo lt assms(3) by (simp add: loop_ok_def)
  next
    case False
    have "caches (fill (here g) g) ! i = caches g ! i" using False by (simp add: fill_def set_cache_def)
    then show ?thesis using fo assms by (simp add: loop_ok_def)
  qed
qed

lemma read_loop_correct:
  assumes "read_loop i sz acc f = Some (bs, f')" "loop_ok i f" "length acc \<le> sz"
  shows "bs = acc @ take (sz - length acc) (drop (here f) (text_of f)) \<and> reading f' \<and> text_of f' = text_of f
    \<and> here f' + length acc = here f + length bs"
proof -
  have "case r of (bs, f') \<Rightarrow> loop_ok i f \<longrightarrow> length acc \<le> sz \<longrightarrow>
      bs = acc @ take (sz - length acc) (drop (here f) (text_of f)) \<and> reading f' \<and> text_of f' = text_of f
      \<and> here f' + length acc = here f + length bs" if "read_loop i sz acc f = Some r" for r
    using that
  proof (induction rule: read_loop.raw_induct [rotated, consumes 1])
    case (1 rl i sz acc f r)
    obtain bs f' where r: "r = (bs, f')" by (cases r)
    have body: "read_body rl i sz acc f = Some (bs, f')" using 1(2) by (simp only: read_body_def r)
    have "bs = acc @ take (sz - length acc) (drop (here f) (text_of f)) \<and> reading f' \<and> text_of f' = text_of f
        \<and> here f' + length acc = here f + length bs" if L: "loop_ok i f" and le: "length acc \<le> sz"
    proof (cases "length acc = sz")
      case True
      then show ?thesis using body L by (simp add: read_body_def loop_ok_def)
    next
      case False
      then have lt: "length acc < sz" using le by simp
      define n where "n = loop_count i sz (length acc) f"
      define g where "g = loop_file i n f"
      define a where "a = acc @ take n (drop (here f) (text_of f))"
      note R = read_loop_round [OF L lt, folded n_def, folded g_def, folded a_def]
      have s: "slots_ok g" using R(2) by (simp add: loop_ok_def reading_def)
      have split: "a @ take (sz - length a) (drop (here g) (text_of g)) =
          acc @ take (sz - length acc) (drop (here f) (text_of f))"
      proof -
        have "sz - length acc = n + (sz - length a)" using R(5,6) by simp
        then show ?thesis by (simp add: a_def R(3,4) take_add add.commute)
      qed
      show ?thesis
      proof (cases "c_offset (caches g ! i) = c_bufsize (caches g ! i)")
        case full: True
        show ?thesis
        proof (cases "here g < length (text_of g)")
          case True
          have "rl i sz a (fill (here g) g) = Some (bs, f')" using body full True unfolding R(1) by simp
          from 1(1) [OF this] loop_fill [OF R(2) full True] R(6)
          have "bs = a @ take (sz - length a) (drop (here (fill (here g) g)) (text_of (fill (here g) g)))
            \<and> reading f' \<and> text_of f' = text_of (fill (here g) g)
            \<and> here f' + length a = here (fill (here g) g) + length bs" by simp
          then show ?thesis using fill_ok(2,3) [OF s True] split R(3,4,5) by simp
        next
          case end_of_file: False
          then have res: "bs = a" "f' = evict g" using body full unfolding R(1) by simp_all
          have cur: "getCurrentCache g = Some i" using R(11) [OF full] end_of_file by simp
          have "reading (evict g)"
            by (rule evict_reading) (use R(2) cur full in \<open>auto simp: loop_ok_def\<close>)
          moreover have "a = acc @ take (sz - length acc) (drop (here f) (text_of f))"
            using split end_of_file by simp
          ultimately show ?thesis using res evict_ok(2,4) [OF s] R(3,4,5) by simp
        qed
      next
        case part: False
        have "rl i sz a g = Some (bs, f')" using body part unfolding R(1) by simp
        from 1(1) [OF this] R(2,6)
        have "bs = a @ take (sz - length a) (drop (here g) (text_of g)) \<and> reading f' \<and> text_of f' = text_of g
          \<and> here f' + length a = here g + length bs" by simp
        then show ?thesis using split R(3,4,5) by simp
      qed
    qed
    then show ?case unfolding r prod.case by blast
  qed
  from this [OF assms(1)] assms(2,3) show ?thesis by simp
qed

section \<open>Where reading a block starts\<close>

lemma read_hit:
  assumes "reading f" "getCurrentCache f = Some i" "c_offset (caches f ! i) < c_bufsize (caches f ! i)"
  shows "io61_read sz f = read_loop i sz [] f" "loop_ok i f"
proof -
  show "io61_read sz f = read_loop i sz [] f"
    using assms by (subst io61_read.simps, simp add: start_reading_def)
  have s: "slots_ok f" and "current_ok (caches f ! i)" using assms(1,2) by (simp_all add: reading_def)
  then have "c_state (caches f ! i) = CACHE_ACTIVE" using assms(3) by (simp add: current_ok_def)
  then show "loop_ok i f" using assms current_slot [OF s assms(2)] by (simp add: loop_ok_def here_def)
qed

lemma io61_read_cases:
  assumes "reading f"
  shows "(\<exists>i g. io61_read sz f = read_loop i sz [] g \<and> loop_ok i g \<and> text_of g = text_of f \<and> here g = here f)
    \<or> (length (text_of f) \<le> here f \<and> (\<exists>g. io61_read sz f = Some ([], g) \<and> reading g
         \<and> text_of g = text_of f \<and> here g = here f))"
proof -
  have cur: "(\<exists>j h. io61_read sz g = read_loop j sz [] h \<and> loop_ok j h \<and> text_of h = text_of g \<and> here h = here g)
      \<or> (length (text_of g) \<le> here g \<and> (\<exists>h. io61_read sz g = Some ([], h) \<and> reading h
         \<and> text_of h = text_of g \<and> here h = here g))"
    if g: "reading g" "getCurrentCache g = Some i" "i < NCACHES" for g i
  proof -
    have s: "slots_ok g" using g(1) by (simp add: reading_def)
    have h: "here g = c_pos (caches g ! i) + c_offset (caches g ! i)" by (simp add: here_def g(2))
    have st: "start_reading g = (Some i, g)" by (simp add: start_reading_def g(2))
    show ?thesis
    proof (cases "c_offset (caches g ! i) < c_bufsize (caches g ! i)")
      case True
      then show ?thesis using read_hit [OF g(1,2) True] by blast
    next
      case False
      show ?thesis
      proof (cases "here g < length (text_of g)")
        case lt: True
        note fo = fill_ok [OF s lt]
        have "freeCache g < NCACHES" using s freeCache_lt by (simp add: slots_ok_def)
        moreover have "0 < length (sys_pread PAGE (here g) (fd g))"
          using pread_nil [of "here g" "fd g"] lt by (simp add: not_le)
        ultimately have "io61_read sz (fill (here g) g) = read_loop (freeCache g) sz [] (fill (here g) g)"
            "loop_ok (freeCache g) (fill (here g) g)"
          using read_hit [OF fo(1,4)] by (simp_all add: fo(5))
        moreover have "io61_read sz g = io61_read sz (fill (here g) g)"
          using False lt build_cases [OF s, of "here g"]
          by (subst (1) io61_read.simps) (simp add: st h Let_def)
        ultimately show ?thesis using fo(2,3) by metis
      next
        case eof: False
        have "io61_read sz g = Some ([], evict g)"
          using False eof build_cases [OF s, of "here g"]
          by (subst io61_read.simps) (simp add: st h Let_def)
        moreover have "reading (evict g)" by (rule evict_reading [OF g(1)]) (use False g(2) in auto)
        ultimately show ?thesis using eof evict_ok(2,4) [OF s] by auto
      qed
    qed
  qed
  show ?thesis
    using start_reading_cases [OF assms]
  proof (elim disjE exE conjE)
    fix i f'
    assume f': "start_reading f = (Some i, f')" "getCurrentCache f' = Some i" "i < NCACHES" "reading f'"
      "text_of f' = text_of f" "here f' = here f"
    have "start_reading f' = (Some i, f')" by (simp add: start_reading_def f'(2))
    then have "io61_read sz f = io61_read sz f'"
      by (subst (1 2) io61_read.simps) (simp add: f'(1))
    then show ?thesis using cur [OF f'(4,2,3)] by (simp only: f'(5,6))
  next
    assume e: "text_of f = []" "here f = 0" "start_reading f = (None, evict f)" "reading (evict f)"
    have s: "slots_ok f" using assms by (simp add: reading_def)
    have "io61_read sz f = Some ([], evict f)" by (subst io61_read.simps) (simp add: e(3))
    then show ?thesis using e evict_ok(2,4) [OF s] by simp
  qed
qed

lemma io61_read_result:
  assumes "reading f" "io61_read sz f = Some (bs, f')"
  shows "bs = take sz (drop (here f) (text_of f)) \<and> reading f' \<and> text_of f' = text_of f
    \<and> here f' = here f + length bs"
  using io61_read_cases [OF assms(1), of sz]
proof (elim disjE exE conjE)
  fix i g
  assume "io61_read sz f = read_loop i sz [] g" "loop_ok i g" "text_of g = text_of f" "here g = here f"
  then show ?thesis using read_loop_correct [of i sz "[]" g bs f'] assms(2) by simp
qed (use assms(2) in simp)

section \<open>When reading a block returns\<close>

text \<open>Without a seek all lifetimes are 0, and the slot to be replaced is an empty one or slot 0.\<close>

definition unsought :: "io61_file \<Rightarrow> bool" where
  "unsought f \<longleftrightarrow> list_all (\<lambda>c. c_state c = CACHE_EMPTY \<or> c_lifetime c = 0) (caches f)"

lemma free_scan_zero:
  "list_all (\<lambda>c. c_state c = CACHE_EMPTY \<or> c_lifetime c = 0) cs \<Longrightarrow> 0 \<le> m \<Longrightarrow>
    (\<exists>j < length cs. free_scan cs i old m = i + j \<and> c_state (cs ! j) = CACHE_EMPTY)
    \<or> (free_scan cs i old m = old \<and> list_all (\<lambda>c. c_state c = CACHE_ACTIVE) cs)"
proof (induction cs arbitrary: i)
  case Nil
  then show ?case by simp
next
  case (Cons c cs)
  show ?case
  proof (cases "c_state c")
    case CACHE_EMPTY
    then show ?thesis by (intro disjI1 exI [of _ 0]) simp
  next
    case CACHE_ACTIVE
    then have "free_scan (c # cs) i old m = free_scan cs (i + 1) old m" using Cons.prems by simp
    moreover have "(\<exists>j < length cs. free_scan cs (i + 1) old m = i + 1 + j \<and> c_state (cs ! j) = CACHE_EMPTY)
        \<or> (free_scan cs (i + 1) old m = old \<and> list_all (\<lambda>c. c_state c = CACHE_ACTIVE) cs)"
      by (rule Cons.IH) (use Cons.prems in simp_all)
    ultimately show ?thesis
    proof (elim disjE exE conjE)
      fix j
      assume "free_scan (c # cs) i old m = free_scan cs (i + 1) old m" "j < length cs"
        "free_scan cs (i + 1) old m = i + 1 + j" "c_state (cs ! j) = CACHE_EMPTY"
      then show ?thesis by (intro disjI1 exI [of _ "Suc j"]) simp
    qed (use CACHE_ACTIVE in simp)
  qed
qed

lemma freeCache_zero:
  assumes "unsought f" "length (caches f) = NCACHES"
  shows "c_state (caches f ! freeCache f) = CACHE_EMPTY
    \<or> (freeCache f = 0 \<and> list_all (\<lambda>c. c_state c = CACHE_ACTIVE) (caches f))"
proof -
  obtain c cs where cs: "caches f = c # cs" using assms(2) by (cases "caches f") (simp_all add: NCACHES_def)
  show ?thesis
  proof (cases "c_state c")
    case CACHE_EMPTY
    then show ?thesis by (simp add: freeCache_def cs)
  next
    case CACHE_ACTIVE
    then have "freeCache f = free_scan cs 1 0 0" using assms(1) by (simp add: freeCache_def cs unsought_def)
    then show ?thesis
      using free_scan_zero [of cs 0 1 0] assms(1) CACHE_ACTIVE by (auto simp: cs unsought_def)
  qed
qed

lemma unsought_fill: "unsought f \<Longrightarrow> unsought (fill pos f)"
  by (simp add: unsought_def fill_def set_cache_def list_all_update)

lemma unsought_loop_file:
  "unsought f \<Longrightarrow> i < length (caches f) \<Longrightarrow> unsought (loop_file i n f)"
  unfolding unsought_def loop_file_def set_cache_def
  by (cases "c_state (caches f ! i)") (auto simp: list_all_length nth_list_update)

text \<open>A stale pointer to a slot other than slot 0 stays stale.\<close>

definition stuck :: "nat \<Rightarrow> io61_file \<Rightarrow> bool" where
  "stuck i f \<longleftrightarrow> loop_ok i f \<and> i \<noteq> 0 \<and> unsought f \<and> here f < length (text_of f)
     \<and> c_offset (caches f ! i) = c_bufsize (caches f ! i)"

lemma stuck_fill:
  assumes "stuck i f"
  shows "stuck i (fill (here f) f)"
proof -
  have s: "slots_ok f" and lt: "here f < length (text_of f)"
    using assms by (simp_all add: stuck_def loop_ok_def reading_def)
  have "freeCache f \<noteq> i"
    using assms freeCache_zero [of f] s by (auto simp: stuck_def loop_ok_def slots_ok_def)
  then have "caches (fill (here f) f) ! i = caches f ! i" by (simp add: fill_def set_cache_def)
  then show ?thesis
    using assms loop_fill [of i f] unsought_fill [of f "here f"] fill_ok(2,3) [OF s lt]
    by (simp add: stuck_def)
qed

lemma stuck_diverges:
  assumes "stuck i f" "length acc < sz"
  shows "read_loop i sz acc f = None"
proof -
  have "stuck i f \<longrightarrow> \<not> length acc < sz" if "read_loop i sz acc f = Some r" for r
    using that
  proof (induction rule: read_loop.raw_induct [rotated, consumes 1])
    case (1 rl i sz acc f r)
    have body: "read_body rl i sz acc f = Some r" using 1(2) by (simp only: read_body_def)
    show ?case
    proof (intro impI notI)
      assume st: "stuck i f" and lt: "length acc < sz"
      then have L: "loop_ok i f" and full: "c_offset (caches f ! i) = c_bufsize (caches f ! i)"
        and h: "here f < length (text_of f)" by (simp_all add: stuck_def)
      have n: "loop_count i sz (length acc) f = 0" using full by (simp add: loop_count_def)
      have g: "loop_file i 0 f = f" by (simp add: loop_file_def set_cache_def)
      have "rl i sz acc (fill (here f) f) = Some r"
        using body read_loop_round(1) [OF L lt, of rl] full h by (simp add: n g)
      from 1(1) [OF this] stuck_fill [OF st] lt show False by simp
    qed
  qed
  with assms show ?thesis by (cases "read_loop i sz acc f") auto
qed

text \<open>With slot 0 the loop makes progress: it fills the empty slots once and then slot 0.\<close>

definition empties :: "io61_file \<Rightarrow> nat" where
  "empties f = length (filter (\<lambda>c. c_state c = CACHE_EMPTY) (caches f))"

lemma filter_update:
  "i < length xs \<Longrightarrow> P (xs ! i) \<Longrightarrow> \<not> P x \<Longrightarrow> length (filter P (xs[i := x])) < length (filter P xs)"
  by (induction xs arbitrary: i) (auto split: nat.split)

lemma empties_le: "length (caches f) = NCACHES \<Longrightarrow> empties f \<le> 10"
  using length_filter_le [of "\<lambda>c. c_state c = CACHE_EMPTY" "caches f"] by (simp add: empties_def NCACHES_def)

lemma no_empties: "list_all (\<lambda>c. c_state c = CACHE_ACTIVE) (caches f) \<Longrightarrow> empties f = 0"
  by (auto simp: empties_def filter_empty_conv list_all_iff)

lemma slot0_returns:
  "loop_ok 0 f \<Longrightarrow> unsought f \<Longrightarrow> length acc \<le> sz \<Longrightarrow> \<exists>r. read_loop 0 sz acc f = Some r"
proof (induction "(sz - length acc) * 23 + 2 * empties f
      + (if c_offset (caches f ! 0) = c_bufsize (caches f ! 0) then 1 else 0)" arbitrary: acc f rule: less_induct)
  case less
  let ?full = "\<lambda>f. c_offset (caches f ! 0) = c_bufsize (caches f ! 0)"
  let ?m = "\<lambda>acc f. (sz - length acc) * 23 + 2 * empties f + (if ?full f then 1 else 0)"
  show ?case
  proof (cases "length acc = sz")
    case True
    then show ?thesis by (subst read_loop.simps) simp
  next
    case False
    then have lt: "length acc < sz" using less.prems(3) by simp
    define n where "n = loop_count 0 sz (length acc) f"
    define g where "g = loop_file 0 n f"
    define a where "a = acc @ take n (drop (here f) (text_of f))"
    note R = read_loop_round [OF less.prems(1) lt, folded n_def, folded g_def, folded a_def]
    note R1 = R(1) [of read_loop, folded read_loop_body]
    have L: "0 < length (caches f)" "length (caches f) = NCACHES" "length (caches g) = NCACHES" "slots_ok g"
      using less.prems(1) R(2) by (simp_all add: loop_ok_def reading_def slots_ok_def NCACHES_def)
    have ug: "unsought g" unfolding g_def by (rule unsought_loop_file [OF less.prems(2) L(1)])
    have progress: "?m a' h < ?m acc f" if "length a' = length a" "0 < n" "length (caches h) = NCACHES" for a' h
    proof -
      have "(sz - length a') * 23 + 23 \<le> (sz - length acc) * 23" using R(5,6) that(1,2) by simp
      then show ?thesis using empties_le [OF that(3)] by simp
    qed
    show ?thesis
    proof (cases "?full g")
      case False
      have "length a = sz" by (rule R(12) [OF False])
      then show ?thesis using False by (simp add: R1) (subst read_loop.simps, simp)
    next
      case full: True
      show ?thesis
      proof (cases "here g < length (text_of g)")
        case False
        then show ?thesis using full by (simp add: R1)
      next
        case lt': True
        let ?h = "fill (here g) g"
        have lh: "length (caches ?h) = NCACHES" using L(3) by (simp add: fill_def set_cache_def)
        have dec: "?m a ?h < ?m acc f"
        proof (cases "0 < n")
          case True
          then show ?thesis by (intro progress lh) simp
        next
          case False
          then have n0: "n = 0" by simp
          then have gf: "g = f" "a = acc" by (simp_all add: g_def a_def loop_file_def set_cache_def)
          have act: "c_state (caches g ! 0) = CACHE_ACTIVE" using R(2) by (simp add: loop_ok_def)
          from freeCache_zero [OF ug L(3)] show ?thesis
          proof
            assume e: "c_state (caches g ! freeCache g) = CACHE_EMPTY"
            then have "freeCache g \<noteq> 0" using act by (metis cache_state.distinct(1))
            then have "caches ?h ! 0 = caches g ! 0" by (simp add: fill_def set_cache_def)
            moreover have "empties ?h < empties g"
              unfolding empties_def fill_def set_cache_def
              using filter_update [of "freeCache g" "caches g"] freeCache_lt [OF L(3)] L(3) e by simp
            ultimately show ?thesis using full by (simp add: gf)
          next
            assume z: "freeCache g = 0 \<and> list_all (\<lambda>c. c_state c = CACHE_ACTIVE) (caches g)"
            have "list_all (\<lambda>c. c_state c = CACHE_ACTIVE) (caches ?h)"
              using z by (simp add: fill_def set_cache_def list_all_update)
            then have "empties ?h = 0" "empties g = 0" using conjunct2 [OF z] by (simp_all add: no_empties)
            moreover have "\<not> ?full ?h"
              using fill_ok(5) [OF L(4) lt'] pread_nil [of "here g" "fd g"] lt' z by auto
            ultimately show ?thesis using full by (simp add: gf)
          qed
        qed
        from less.hyps [OF this loop_fill [OF R(2) full lt'] unsought_fill [OF ug] R(6)]
        show ?thesis using full lt' by (simp add: R1)
      qed
    qed
  qed
qed

end
