(* ===== verification/Io61Props.thy ===== *)
theory Io61Props
  imports Io61Read
begin

text \<open>
  What \<open>cat61\<close> and \<open>reverse61\<close> deliver on both libraries, random access, and output.
\<close>

section \<open>Opened files\<close>

text \<open>
  \<open>io61_fdopen\<close> leaves the caches as \<open>malloc\<close> does. \<open>blank\<close> says that this memory is zero where
  it is looked at; then an opened file is well-formed (\<open>reading\<close>, \<open>writing\<close>). The properties start
  from well-formed files, not from this assumption; what is written to a file whose caches
  hold anything is \<open>output_in_order\<close>.
\<close>

definition blank :: "io61_cache list \<Rightarrow> bool" where
  "blank cs \<longleftrightarrow> length cs = NCACHES \<and> list_all (\<lambda>c. c_state c = CACHE_EMPTY \<and> c_offset c = 0) cs"

definition zeroed :: "io61_cache list" where
  "zeroed = replicate NCACHES \<lparr>c_buf = [], c_state = CACHE_EMPTY, c_pos = 0, c_offset = 0, c_bufsize = 0, c_lifetime = 0\<rparr>"

definition disk_file :: "u8 list \<Rightarrow> os_fd" where
  "disk_file xs = \<lparr>contents = xs, fpos = 0, regular = True, chunks = []\<rparr>"

abbreviation open_in :: "io61_cache list \<Rightarrow> u8 list \<Rightarrow> io61_file" where
  "open_in junk xs \<equiv> io61_fdopen junk (disk_file xs) O_RDONLY"

abbreviation open_out :: "io61_cache list \<Rightarrow> io61_file" where
  "open_out junk \<equiv> io61_fdopen junk (disk_file []) O_WRONLY"

lemma blank_zeroed: "blank zeroed"
  by (simp add: blank_def zeroed_def list_all_iff)

lemma open_in_reading:
  assumes "blank junk" "length xs < 2 ^ 63"
  shows "reading (open_in junk xs)" "text_of (open_in junk xs) = xs" "here (open_in junk xs) = 0"
    "unsought (open_in junk xs)" "getCurrentCache (open_in junk xs) = None"
  using assms
  by (auto simp: reading_def slots_ok_def io61_fdopen_def disk_file_def sys_filesize_def here_def unsought_def
      getCurrentCache_def blank_def cache_ok_def list_all_iff)

lemma open_out_writing:
  assumes "blank junk"
  shows "writing (open_out junk)" "handed (open_out junk) = []"
proof -
  obtain c cs where cs: "junk = c # cs" using assms by (cases junk) (simp_all add: blank_def NCACHES_def)
  show "writing (open_out junk)" "handed (open_out junk) = []"
    using assms by (auto simp: cs writing_def io61_fdopen_def disk_file_def appending_def blank_def handed_def list_all_iff)
qed

lemma sint_255: "sint (b :: u8) \<noteq> EOF \<longleftrightarrow> b \<noteq> 0xFF"
proof -
  have "sint b = - 1 \<longleftrightarrow> b = - 1"
    by (metis signed_minus_1 signed_word_eqI)
  moreover have "(- 1 :: u8) = 0xFF" by code_simp
  ultimately show ?thesis by (simp add: EOF_def)
qed

lemma uint_EOF: "uint (b :: u8) \<noteq> EOF"
proof -
  have "0 \<le> uint b" by simp
  then show ?thesis unfolding EOF_def by linarith
qed

section \<open>Copying byte by byte\<close>

text \<open>
  The same file on both libraries: opened for reading, at the same place, and opened for
  writing, with the same bytes sent so far.
\<close>

definition same_input :: "io61_file \<Rightarrow> os_fd \<Rightarrow> bool" where
  "same_input f d \<longleftrightarrow> reading f \<and> regular d \<and> contents d = text_of f \<and> fpos d = here f"

definition same_output :: "io61_file \<Rightarrow> os_fd \<Rightarrow> bool" where
  "same_output g e \<longleftrightarrow> writing g \<and> appending e \<and> contents e = handed g"

lemma same_opened:
  assumes "blank junk" "length xs < 2 ^ 63"
  shows "same_input (open_in junk xs) (disk_file xs)" "same_output (open_out junk) (disk_file [])"
  using open_in_reading [OF assms] open_out_writing [OF assms(1)]
  by (simp_all add: same_input_def same_output_def appending_def) (simp_all add: disk_file_def)

text \<open>
  C25: \<open>cat61\<close> returns on both libraries, from any well-formed pair of files. On the unbuffered one
  it appends the whole rest of the input, on the buffered one the rest up to, and without, its
  first byte \<open>0xFF\<close>: \<open>io61_readc\<close> returns a \<open>char\<close>, which is signed, and \<open>0xFF\<close> is \<open>EOF\<close>. So they
  agree exactly on the inputs without one.
\<close>

theorem cat61_libraries_agree:
  assumes "same_input f0 d0" "same_output g0 e0"
  shows "\<exists>f g d e. cat61 io61_readc io61_writec f0 g0 = Some (f, g)
    \<and> cat61 slow_readc (\<lambda>ch d. Some (slow_writec ch d)) d0 e0 = Some (d, e)
    \<and> contents e = contents e0 @ drop (fpos d0) (contents d0)
    \<and> contents (fd (io61_close g)) =
        contents e0 @ takeWhile (\<lambda>b. b \<noteq> 0xFF) (drop (fpos d0) (contents d0))
    \<and> (contents (fd (io61_close g)) = contents e \<longleftrightarrow> 0xFF \<notin> set (drop (fpos d0) (contents d0)))"
proof -
  have s: "\<exists>d e. cat61 slow_readc (\<lambda>ch d. Some (slow_writec ch d)) d0 e0 = Some (d, e)
      \<and> contents e = contents e0 @ drop (fpos d0) (contents d0)"
    using slow.cat_copies [of d0 e0, OF _ _ refl] assms
    by (auto simp: same_input_def same_output_def slow_reads_def uint_EOF takeWhile_eq_all_conv)
  have "\<exists>f g. cat61 io61_readc io61_writec f0 g0 = Some (f, g)
    \<and> contents (fd (io61_close g)) = contents e0 @ takeWhile (\<lambda>b. b \<noteq> 0xFF) (drop (fpos d0) (contents d0))"
    using io61.cat_copies [of f0 g0, OF _ _ refl] assms
    by (auto simp: same_input_def same_output_def close_writing sint_255)
  then show ?thesis using s by (auto simp: takeWhile_eq_all_conv)
qed

theorem cat61_libraries_agree_witness:
  "\<exists>f g d e. cat61 io61_readc io61_writec (open_in zeroed [1, 0xFF, 2]) (open_out zeroed) = Some (f, g)
    \<and> cat61 slow_readc (\<lambda>ch d. Some (slow_writec ch d)) (disk_file [1, 0xFF, 2]) (disk_file []) = Some (d, e)
    \<and> contents e = [1, 0xFF, 2] \<and> contents (fd (io61_close g)) = [1]"
  using cat61_libraries_agree [OF same_opened [OF blank_zeroed, of "[1, 0xFF, 2]"]]
  by (auto simp: disk_file_def)

text \<open>
  C27: \<open>reverse61\<close>, which seeks before every byte, appends the reversed input on both libraries,
  from any well-formed pair of files and whatever the caches evict and read ahead on the way.
\<close>

theorem reverse61_reverses:
  assumes "same_input f0 d0" "same_output g0 e0" "n = length (contents d0)"
  shows "\<exists>f g d e. reverse61 io61_seek io61_readc io61_writec n f0 g0 = Some (f, g)
    \<and> contents (fd (io61_close g)) = contents e0 @ rev (contents d0)
    \<and> reverse61 slow_seek slow_readc (\<lambda>ch d. Some (slow_writec ch d)) n d0 e0 = Some (d, e)
    \<and> contents e = contents e0 @ rev (contents d0)"
proof -
  have s: "\<exists>d e. reverse61 slow_seek slow_readc (\<lambda>ch d. Some (slow_writec ch d)) n d0 e0 = Some (d, e)
      \<and> contents e = contents e0 @ rev (contents d0)"
    using slow.reverse_reverses [of d0 e0 n] assms
    by (auto simp: same_input_def same_output_def slow_reads_def)
  have "\<exists>f g. reverse61 io61_seek io61_readc io61_writec n f0 g0 = Some (f, g)
    \<and> contents (fd (io61_close g)) = contents e0 @ rev (contents d0)"
    using io61.reverse_reverses [of f0 g0 n] assms
    by (auto simp: same_input_def same_output_def close_writing)
  then show ?thesis using s by blast
qed

theorem reverse61_reverses_witness:
  "\<exists>f g d e. reverse61 io61_seek io61_readc io61_writec 3 (open_in zeroed [1, 0xFF, 2]) (open_out zeroed) = Some (f, g)
    \<and> contents (fd (io61_close g)) = [2, 0xFF, 1]
    \<and> reverse61 slow_seek slow_readc (\<lambda>ch d. Some (slow_writec ch d)) 3 (disk_file [1, 0xFF, 2]) (disk_file []) = Some (d, e)
    \<and> contents e = [2, 0xFF, 1]"
  using reverse61_reverses [OF same_opened [OF blank_zeroed, of "[1, 0xFF, 2]"], of 3]
  by (simp add: disk_file_def)

section \<open>Random access\<close>

datatype input_op = Seek nat | Readc

text \<open>
  What a file is to its user: the bytes, as unsigned characters, and the place of the next one.
\<close>

fun file_run :: "u8 list \<Rightarrow> nat \<Rightarrow> input_op list \<Rightarrow> int list" where
  "file_run xs p [] = []"
| "file_run xs p (Seek q # ops) = 0 # file_run xs q ops"
| "file_run xs p (Readc # ops) =
     (if p < length xs then uint (xs ! p) # file_run xs (p + 1) ops else EOF # file_run xs p ops)"

text \<open>A program that seeks and reads, on either library.\<close>

fun input_run :: "(nat \<Rightarrow> 'f \<Rightarrow> (int \<times> 'f) option) \<Rightarrow> ('f \<Rightarrow> (int \<times> 'f) option) \<Rightarrow> 'f \<Rightarrow> input_op list
    \<Rightarrow> int list option" where
  "input_run seek readc f [] = Some []"
| "input_run seek readc f (op # ops) = do {
     (r, f) \<leftarrow> (case op of Seek q \<Rightarrow> seek q f | Readc \<Rightarrow> readc f);
     rs \<leftarrow> input_run seek readc f ops;
     Some (r # rs) }"

text \<open>The conversion of \<open>io61_readc\<close>'s result through the signed type \<open>char\<close>.\<close>

definition signed_char :: "int \<Rightarrow> int" where
  "signed_char r = (if r < 128 then r else r - 256)"

lemma signed_char_byte: "signed_char (uint b) = sint (b :: u8)"
proof -
  have s: "sint b = (uint b + 128) mod 256 - 128"
    by (simp add: sint_uint signed_take_bit_eq_take_bit_shift take_bit_eq_mod)
  have b: "0 \<le> uint b" "uint b < 256" using uint_bounded [of b] by simp_all
  show ?thesis
  proof (cases "uint b < 128")
    case True
    then show ?thesis using b by (simp add: s signed_char_def)
  next
    case False
    have "(uint b + 128) mod 256 = (uint b - 128 + 256) mod 256" by (simp add: add.commute)
    also have "\<dots> = uint b - 128" using False b by (simp only: mod_add_self2) simp
    finally show ?thesis using False by (simp add: s signed_char_def)
  qed
qed

definition seeks_within :: "nat \<Rightarrow> input_op list \<Rightarrow> bool" where
  "seeks_within n ops \<longleftrightarrow> list_all (\<lambda>op. case op of Seek q \<Rightarrow> q < n | Readc \<Rightarrow> True) ops"

lemma seeks_within_simps [simp]:
  "seeks_within n []" "seeks_within n (Seek q # ops) \<longleftrightarrow> q < n \<and> seeks_within n ops"
  "seeks_within n (Readc # ops) \<longleftrightarrow> seeks_within n ops"
  by (simp_all add: seeks_within_def)

context seek_copier
begin

text \<open>Any mixture of seeks and reads gives the values of the bytes of the bare file.\<close>

lemma run_refines:
  assumes "\<And>b. val b = conv (uint b)" "conv EOF = EOF" "conv 0 = 0"
  shows "ok f \<Longrightarrow> seeks_within (length (stored f)) ops \<Longrightarrow>
    input_run seek readc f ops = Some (map conv (file_run (stored f) (place f) ops))"
proof (induction ops arbitrary: f)
  case (Cons op ops)
  show ?case
  proof (cases op)
    case (Seek q)
    then obtain g where "seek q f = Some (0, g)" "ok g" "stored g = stored f" "place g = q"
      using seek_place [OF Cons.prems(1), of q] Cons.prems(2) by auto
    then show ?thesis using Cons.IH [of g] Cons.prems(2) Seek assms(3) by simp
  next
    case Readc
    show ?thesis
    proof (cases "place f < length (stored f)")
      case True
      then obtain g where "readc f = Some (val (stored f ! place f), g)" "ok g" "stored g = stored f"
          "place g = place f + 1"
        using readc_byte [OF Cons.prems(1)] by blast
      then show ?thesis using Cons.IH [of g] Cons.prems(2) Readc True assms(1) by simp
    next
      case False
      then obtain g where "readc f = Some (EOF, g)" "ok g" "stored g = stored f" "place g = place f"
        using readc_eof [OF Cons.prems(1)] by (auto simp: not_less)
      then show ?thesis using Cons.IH [of g] Cons.prems(2) Readc False assms(2) by simp
    qed
  qed
qed simp

end

text \<open>
  C28: any sequence of in-range seeks and reads of single bytes returns on both libraries, from
  any well-formed file. The unbuffered one gives what the bare file gives; so does the buffered
  one, except that every byte from 128 on comes out negative. The caches, their reuse, eviction
  and the read-ahead for backward reads are invisible.
\<close>

theorem random_access:
  assumes "same_input f d" "seeks_within (length (contents d)) ops"
  shows "input_run slow_seek slow_readc d ops = Some (file_run (contents d) (fpos d) ops)
    \<and> input_run io61_seek io61_readc f ops = Some (map signed_char (file_run (contents d) (fpos d) ops))"
  using slow.run_refines [of id d ops] io61.run_refines [of signed_char f ops] assms
  by (simp add: same_input_def slow_reads_def signed_char_byte) (simp add: signed_char_def EOF_def)

theorem random_access_witness:
  "input_run slow_seek slow_readc (disk_file [5, 6, 200]) [Seek 2, Readc, Readc, Seek 1, Readc]
      = Some [0, 200, EOF, 0, 6]
   \<and> input_run io61_seek io61_readc (open_in zeroed [5, 6, 200]) [Seek 2, Readc, Readc, Seek 1, Readc]
      = Some [0, - 56, EOF, 0, 6]"
  using random_access [OF same_opened(1) [OF blank_zeroed, of "[5, 6, 200]"],
      of "[Seek 2, Readc, Readc, Seek 1, Readc]"]
  by (simp add: disk_file_def signed_char_def EOF_def)

section \<open>Writing\<close>

datatype output_op = Writec int | Write "u8 list"

fun io61_output :: "output_op list \<Rightarrow> io61_file \<Rightarrow> io61_file option" where
  "io61_output [] f = Some f"
| "io61_output (op # ops) f = do {
     f \<leftarrow> (case op of Writec ch \<Rightarrow> io61_writec ch f | Write bs \<Rightarrow> io61_write bs f);
     io61_output ops f }"

fun op_bytes :: "output_op \<Rightarrow> u8 list" where
  "op_bytes (Writec ch) = [word_of_int ch]"
| "op_bytes (Write bs) = bs"

text \<open>
  One operation on a file whose unused slots hold \<open>gs\<close>: these bytes go out once, at the first
  flush, which may fall into the middle of the operation.
\<close>

lemma op_outgoing:
  assumes "outgoing gs f"
  shows "\<exists>g. (case op of Writec ch \<Rightarrow> io61_writec ch f | Write bs \<Rightarrow> io61_write bs f) = Some g
    \<and> (outgoing gs g \<and> handed g = handed f @ op_bytes op
       \<or> writing g \<and> (\<exists>as bs. op_bytes op = as @ bs \<and> handed g = handed f @ as @ gs @ bs))"
  using writec_outgoing [OF assms] write_outgoing [OF assms] by (cases op) fastforce+

lemma io61_output_handed:
  "writing f \<Longrightarrow> \<exists>g. io61_output ops f = Some g \<and> writing g \<and> handed g = handed f @ concat (map op_bytes ops)"
proof (induction ops arbitrary: f)
  case Nil
  then show ?case by simp
next
  case (Cons op ops)
  have "\<exists>g. (case op of Writec ch \<Rightarrow> io61_writec ch f | Write bs \<Rightarrow> io61_write bs f) = Some g \<and> writing g
      \<and> handed g = handed f @ op_bytes op"
    using writec_writing [OF Cons.prems] write_writing [OF Cons.prems] by (cases op) auto
  then obtain g where "(case op of Writec ch \<Rightarrow> io61_writec ch f | Write bs \<Rightarrow> io61_write bs f) = Some g"
      "writing g" "handed g = handed f @ op_bytes op" by blast
  with Cons.IH [of g] show ?case by auto
qed

lemma io61_output_outgoing:
  "outgoing gs f \<Longrightarrow> \<exists>g. io61_output ops f = Some g
    \<and> (\<exists>as bs. concat (map op_bytes ops) = as @ bs
        \<and> (outgoing gs g \<and> bs = [] \<and> handed g = handed f @ as
           \<or> writing g \<and> handed g = handed f @ as @ gs @ bs))"
proof (induction ops arbitrary: f)
  case Nil
  then show ?case by simp
next
  case (Cons op ops)
  obtain g where g: "(case op of Writec ch \<Rightarrow> io61_writec ch f | Write bs \<Rightarrow> io61_write bs f) = Some g"
    "outgoing gs g \<and> handed g = handed f @ op_bytes op
       \<or> writing g \<and> (\<exists>as bs. op_bytes op = as @ bs \<and> handed g = handed f @ as @ gs @ bs)"
    using op_outgoing [OF Cons.prems, of op] by blast
  from g(2) show ?case
  proof (elim disjE exE conjE)
    assume "outgoing gs g" "handed g = handed f @ op_bytes op"
    with Cons.IH [of g] obtain h as bs where "io61_output ops g = Some h" "concat (map op_bytes ops) = as @ bs"
      "outgoing gs h \<and> bs = [] \<and> handed h = handed f @ (op_bytes op @ as)
       \<or> writing h \<and> handed h = handed f @ (op_bytes op @ as) @ gs @ bs" by auto
    then show ?thesis using g(1)
      by (intro exI [of _ h] conjI exI [of _ "op_bytes op @ as"] exI [of _ bs]) simp_all
  next
    fix as bs
    assume w: "writing g" "op_bytes op = as @ bs" "handed g = handed f @ as @ gs @ bs"
    obtain h where "io61_output ops g = Some h" "writing h" "handed h = handed g @ concat (map op_bytes ops)"
      using io61_output_handed [OF w(1)] by blast
    then show ?thesis using g(1) w(2,3)
      by (intro exI [of _ h] conjI exI [of _ as] exI [of _ "bs @ concat (map op_bytes ops)"]) simp_all
  qed
qed

text \<open>The first operation on a newly opened file is one on a file with slot 0 as its buffer.\<close>

lemma opened_output:
  assumes "length junk = NCACHES" "ops \<noteq> []"
  shows "\<exists>g as bs. io61_output ops (open_out junk) = Some g \<and> concat (map op_bytes ops) = as @ bs
    \<and> contents (fd (io61_close g)) = as @ concat (map unsent (tl junk)) @ bs"
proof -
  let ?gs = "concat (map unsent (tl junk))"
  obtain op ops' where ops: "ops = op # ops'" using assms(2) by (cases ops) auto
  have start: "\<exists>g. start_writing n (open_out junk) = (0, g) \<and> outgoing ?gs g \<and> handed g = []" if "0 < n" for n
    using start_opened [OF assms(1) that, of "open_out junk"]
    by (simp add: io61_fdopen_def disk_file_def appending_def)
  have "\<exists>g. io61_output ops (open_out junk) = io61_output ops g \<and> outgoing ?gs g \<and> handed g = []"
  proof (cases op)
    case (Writec ch)
    then show ?thesis using start [of PAGE] writec_start [of "open_out junk" _ ?gs ch]
      by (auto simp: ops PAGE_def)
  next
    case (Write bs)
    then show ?thesis using start [of "10 * PAGE"] write_start [of "open_out junk" _ ?gs bs]
      by (auto simp: ops PAGE_def)
  qed
  then obtain g where g: "io61_output ops (open_out junk) = io61_output ops g" "outgoing ?gs g" "handed g = []"
    by blast
  from io61_output_outgoing [OF g(2), of ops] obtain h as bs where
    h: "io61_output ops g = Some h" "concat (map op_bytes ops) = as @ bs"
      "outgoing ?gs h \<and> bs = [] \<and> handed h = as \<or> writing h \<and> handed h = as @ ?gs @ bs"
    using g(3) by auto
  have "contents (fd (io61_close h)) = as @ ?gs @ bs"
    using h(3) flush_outgoing(3) [of ?gs h] close_writing [of h] by (auto simp: io61_close_def Let_def)
  then show ?thesis using g(1) h(1,2) by auto
qed

text \<open>
  C29: whatever \<open>malloc\<close> left in the caches of a newly opened file, after any mixture of
  \<open>io61_writec\<close> and \<open>io61_write\<close> calls, of any sizes, and \<open>io61_close\<close> the file holds the bytes
  written, in order, with one insertion: what the slots 1 to 9, which the library never uses
  for writing, seem to hold. So the output is right exactly when they seem to hold nothing.
\<close>

theorem output_in_order:
  assumes "length junk = NCACHES" "ops \<noteq> []"
  shows "\<exists>g as bs. io61_output ops (open_out junk) = Some g \<and> concat (map op_bytes ops) = as @ bs
    \<and> contents (fd (io61_close g)) = as @ concat (map unsent (tl junk)) @ bs
    \<and> (contents (fd (io61_close g)) = concat (map op_bytes ops) \<longleftrightarrow> (\<forall>c \<in> set (tl junk). unsent c = []))"
proof -
  obtain g as bs where g: "io61_output ops (open_out junk) = Some g" "concat (map op_bytes ops) = as @ bs"
      "contents (fd (io61_close g)) = as @ concat (map unsent (tl junk)) @ bs"
    using opened_output [OF assms] by blast
  moreover have "as @ concat (map unsent (tl junk)) @ bs = as @ bs \<longleftrightarrow> concat (map unsent (tl junk)) = []"
    by simp
  ultimately show ?thesis by (intro exI [of _ g] exI [of _ as] exI [of _ bs]) simp
qed

theorem output_in_order_witness:
  "\<exists>g. io61_output [Writec 65, Write [66, 67], Writec 68] (open_out zeroed) = Some g
    \<and> contents (fd (io61_close g)) = [65, 66, 67, 68]"
  using output_in_order [of zeroed "[Writec 65, Write [66, 67], Writec 68]"] blank_zeroed
  by (auto simp: blank_def zeroed_def unsent_def)

end
