(* ===== verification/Io61Blocks.thy ===== *)
theory Io61Blocks
  imports Io61Props
begin

text \<open>
  \<open>blockcat61\<close>: with a constant block size \<open>io61_read\<close> always returns; with two sizes it
  may not.
\<close>

lemma read_fill:
  assumes "reading f" "here f < length (text_of f)"
    and used: "\<And>i. getCurrentCache f = Some i \<Longrightarrow> \<not> c_offset (caches f ! i) < c_bufsize (caches f ! i)"
  shows "io61_read sz f = read_loop (freeCache f) sz [] (fill (here f) f)"
    "loop_ok (freeCache f) (fill (here f) f)"
proof -
  have s: "slots_ok f" using assms(1) by (simp add: reading_def)
  note fo = fill_ok [OF s assms(2)]
  have "0 < length (sys_pread PAGE (here f) (fd f))"
    using pread_nil [of "here f" "fd f"] assms(2) by (simp add: not_le)
  then have *: "c_offset (caches (fill (here f) f) ! freeCache f) < c_bufsize (caches (fill (here f) f) ! freeCache f)"
    by (simp add: fo(5))
  note hit = read_hit [OF fo(1,4) *]
  show "loop_ok (freeCache f) (fill (here f) f)" by (rule hit(2))
  have "io61_read sz f = io61_read sz (fill (here f) f)"
  proof (cases "getCurrentCache f")
    case None
    then have h: "here f = 0" by (simp add: here_def)
    have "start_reading f = (Some (freeCache f), fill 0 f)"
      using assms(2) fo(4) by (simp add: start_reading_def None build_cases [OF s] h)
    moreover have "start_reading (fill 0 f) = (Some (freeCache f), fill 0 f)"
      using fo(4) by (simp add: start_reading_def h)
    ultimately show ?thesis by (subst (1 2) io61_read.simps) (simp add: h)
  next
    case (Some i)
    have "here f = c_pos (caches f ! i) + c_offset (caches f ! i)" by (simp add: here_def Some)
    then show ?thesis
      using used [OF Some] assms(2) build_cases [OF s, of "here f"]
      by (subst (1) io61_read.simps) (simp add: start_reading_def Some Let_def)
  qed
  then show "io61_read sz f = read_loop (freeCache f) sz [] (fill (here f) f)" by (simp only: hit(1))
qed

lemma read_eof:
  assumes "reading f" "length (text_of f) \<le> here f"
  shows "\<exists>f'. io61_read sz f = Some ([], f')"
  using io61_read_cases [OF assms(1), of sz]
proof (elim disjE exE conjE)
  fix i g
  assume g: "io61_read sz f = read_loop i sz [] g" "loop_ok i g" "text_of g = text_of f" "here g = here f"
  show ?thesis
  proof (cases "sz = 0")
    case True
    then show ?thesis using g(1) by (subst (asm) read_loop.simps) simp
  next
    case False
    have "c_pos (caches g ! i) + c_bufsize (caches g ! i) \<le> length (text_of g)"
      using slot_ok [of g i] g(2) by (simp add: loop_ok_def reading_def cache_ok_def)
    then have full: "c_offset (caches g ! i) = c_bufsize (caches g ! i)"
      using g(2,3,4) assms(2) by (simp add: loop_ok_def)
    have n: "loop_count i sz (length []) g = 0" using full by (simp add: loop_count_def)
    have l: "loop_file i 0 g = g" by (simp add: loop_file_def set_cache_def)
    have "read_body read_loop i sz [] g = Some ([], evict g)"
      using read_loop_round(1) [OF g(2), of "[]" sz read_loop] full assms(2) g(3,4) False
      unfolding n l by simp
    then show ?thesis using g(1) read_loop_body [of i sz "[]" g] by simp
  qed
qed auto

section \<open>Reading a file in blocks\<close>

text \<open>A slot that holds a page of the file, the last one being cut short.\<close>

definition paged :: "nat \<Rightarrow> io61_file \<Rightarrow> bool" where
  "paged i f \<longleftrightarrow> PAGE dvd c_pos (caches f ! i)
     \<and> (c_bufsize (caches f ! i) = PAGE \<or> c_pos (caches f ! i) + c_bufsize (caches f ! i) = length (text_of f))"

definition all_active :: "io61_file \<Rightarrow> bool" where
  "all_active f \<longleftrightarrow> list_all (\<lambda>c. c_state c = CACHE_ACTIVE) (caches f)"

lemma fill_paged:
  assumes "slots_ok f" "pos < length (text_of f)" "PAGE dvd pos"
  shows "paged (freeCache f) (fill pos f)"
  using assms(2,3) fill_ok(3,5) [OF assms(1,2)] by (auto simp: paged_def sys_pread_def min_def)

lemma freeCache_active: "unsought f \<Longrightarrow> length (caches f) = NCACHES \<Longrightarrow> all_active f \<Longrightarrow> freeCache f = 0"
  using freeCache_zero [of f] freeCache_lt [of f]
  by (auto simp: all_active_def list_all_length)

lemma freeCache_other:
  assumes "unsought f" "length (caches f) = NCACHES" "c_state (caches f ! 0) = CACHE_ACTIVE" "\<not> all_active f"
  shows "freeCache f \<noteq> 0"
proof -
  have "c_state (caches f ! freeCache f) = CACHE_EMPTY"
    using freeCache_zero [OF assms(1,2)] assms(4) by (simp add: all_active_def)
  then show ?thesis using assms(3) by (metis cache_state.distinct(1))
qed

lemma all_active_fill: "all_active f \<Longrightarrow> all_active (fill pos f)"
  by (simp add: all_active_def fill_def set_cache_def list_all_update)

text \<open>
  Blocks whose size divides the page size end at the page boundary, where the pointer is
  renewed by the next call.
\<close>

definition aligned :: "nat \<Rightarrow> io61_file \<Rightarrow> bool" where
  "aligned sz f \<longleftrightarrow> (case getCurrentCache f of None \<Rightarrow> True
     | Some i \<Rightarrow> paged i f \<and> sz dvd c_offset (caches f ! i) \<and> c_offset (caches f ! i) \<le> c_bufsize (caches f ! i))"

lemma aligned_loop:
  assumes "loop_ok i f" "getCurrentCache f = Some i" "aligned sz f" "0 < sz" "sz dvd PAGE"
    "c_offset (caches f ! i) < c_bufsize (caches f ! i)"
  shows "\<exists>bs g. read_loop i sz [] f = Some (bs, g) \<and> (length (text_of g) \<le> here g \<or> aligned sz g)"
proof -
  have lt: "length ([] :: u8 list) < sz" using assms(4) by simp
  define n where "n = loop_count i sz (length ([] :: u8 list)) f"
  define g where "g = loop_file i n f"
  define a where "a = [] @ take n (drop (here f) (text_of f))"
  note R = read_loop_round [OF assms(1) lt, folded n_def, folded g_def, folded a_def]
  note R1 = R(1) [of read_loop, folded read_loop_body]
  let ?c = "caches f ! i"
  have n: "n = min sz (c_bufsize ?c - c_offset ?c)" by (simp add: n_def loop_count_def)
  have al: "paged i f" "sz dvd c_offset ?c" using assms(2,3) by (simp_all add: aligned_def)
  have cur: "getCurrentCache g = Some i" using assms(2) unfolding getCurrentCache_def R(10) .
  show ?thesis
  proof (cases "c_offset (caches g ! i) = c_bufsize (caches g ! i)")
    case False
    have la: "length a = sz" by (rule R(12) [OF False])
    then have nsz: "n = sz" using R(5) by simp
    have "read_loop i sz a g = Some (a, g)" using la by (subst read_loop.simps) simp
    moreover have "c_offset ?c + n \<le> c_bufsize ?c" using R(2,7) by (simp add: loop_ok_def)
    then have "aligned sz g"
      using al nsz R(3,7) by (simp add: aligned_def cur paged_def)
    ultimately show ?thesis using False by (auto simp: R1)
  next
    case full: True
    show ?thesis
    proof (cases "here g < length (text_of g)")
      case False
      have s: "slots_ok g" using R(2) by (simp add: loop_ok_def reading_def)
      show ?thesis using False full evict_ok(2,4) [OF s] by (auto simp: R1)
    next
      case h: True
      have hg: "here g = c_pos ?c + c_bufsize ?c"
        using full R(2,7) by (simp add: loop_ok_def)
      then have pg: "c_bufsize ?c = PAGE" using al(1) h R(3) by (auto simp: paged_def)
      have "sz dvd PAGE - c_offset ?c" using assms(5) al(2) by (rule dvd_diff_nat)
      moreover have "0 < PAGE - c_offset ?c" using assms(6) pg by simp
      ultimately have "sz \<le> PAGE - c_offset ?c" by (rule dvd_imp_le)
      then have nsz: "n = sz" using pg by (simp add: n)
      have la: "length a = sz" using R(5) nsz by simp
      have s: "slots_ok g" using R(2) by (simp add: loop_ok_def reading_def)
      have "PAGE dvd here g" using al(1) pg by (simp add: hg paged_def)
      note fp = fill_paged [OF s h this] and fo = fill_ok [OF s h]
      have "aligned sz (fill (here g) g)" using fp by (simp add: aligned_def fo(4,5))
      moreover have "read_loop i sz a (fill (here g) g) = Some (a, fill (here g) g)"
        using la by (subst read_loop.simps) simp
      ultimately show ?thesis using full h by (auto simp: R1)
    qed
  qed
qed

lemma aligned_read:
  assumes "reading f" "here f < length (text_of f)" "aligned sz f" "0 < sz" "sz dvd PAGE"
  shows "\<exists>bs g. io61_read sz f = Some (bs, g) \<and> (length (text_of g) \<le> here g \<or> aligned sz g)"
proof (cases "\<exists>i. getCurrentCache f = Some i \<and> c_offset (caches f ! i) < c_bufsize (caches f ! i)")
  case True
  then obtain i where i: "getCurrentCache f = Some i" "c_offset (caches f ! i) < c_bufsize (caches f ! i)" by blast
  show ?thesis
    using aligned_loop [OF read_hit(2) [OF assms(1) i] i(1) assms(3-5) i(2)] read_hit(1) [OF assms(1) i, of sz] by simp
next
  case False
  then have used: "\<not> c_offset (caches f ! i) < c_bufsize (caches f ! i)" if "getCurrentCache f = Some i" for i
    using that by blast
  have s: "slots_ok f" using assms(1) by (simp add: reading_def)
  note fo = fill_ok [OF s assms(2)]
  have "PAGE dvd here f"
  proof (cases "getCurrentCache f")
    case None
    then show ?thesis by (simp add: here_def)
  next
    case (Some i)
    have pg: "paged i f" "c_offset (caches f ! i) \<le> c_bufsize (caches f ! i)" using assms(3) Some by (simp_all add: aligned_def)
    have "here f = c_pos (caches f ! i) + c_offset (caches f ! i)" by (simp add: here_def Some)
    then show ?thesis using pg used [OF Some] assms(2) by (auto simp: paged_def)
  qed
  note fp = fill_paged [OF s assms(2) this]
  let ?g = "fill (here f) f"
  have "aligned sz ?g" using fp by (simp add: aligned_def fo(4,5))
  moreover have "c_offset (caches ?g ! freeCache f) < c_bufsize (caches ?g ! freeCache f)"
    using pread_nil [of "here f" "fd f"] assms(2) by (simp add: fo(5) not_le)
  ultimately show ?thesis
    using aligned_loop [OF read_fill(2) [OF assms(1,2) used] fo(4) _ assms(4,5)]
      read_fill(1) [OF assms(1,2) used, of sz] by simp
qed

text \<open>
  Blocks of other sizes never end at the boundary of the first page before every slot is in
  use, so that the pointer is always slot 0 when a block has been read.
\<close>

definition first_page :: "nat \<Rightarrow> nat \<Rightarrow> io61_file \<Rightarrow> bool" where
  "first_page sz k f \<longleftrightarrow> paged 0 f \<and> c_pos (caches f ! 0) = 0 \<and> (\<exists>m. c_offset (caches f ! 0) = m * sz + k)"

definition at_slot0 :: "nat \<Rightarrow> nat \<Rightarrow> io61_file \<Rightarrow> bool" where
  "at_slot0 sz k f \<longleftrightarrow> unsought f
     \<and> ((all_active f \<and> getCurrentCache f = Some 0) \<or> first_page sz k f)"

lemma at_slot0_fill:
  assumes "loop_ok 0 g" "at_slot0 sz k g" "here g < length (text_of g)"
  shows "at_slot0 sz k (fill (here g) g)"
proof -
  have s: "slots_ok g" and l: "length (caches g) = NCACHES" "unsought g"
    using assms(1,2) by (simp_all add: loop_ok_def reading_def slots_ok_def at_slot0_def)
  note fo = fill_ok [OF s assms(3)]
  show ?thesis
  proof (cases "all_active g")
    case True
    then show ?thesis
      using freeCache_active [OF l(2,1) True] fo(4) all_active_fill [OF True] unsought_fill [OF l(2)]
      by (simp add: at_slot0_def)
  next
    case False
    have "c_state (caches g ! 0) = CACHE_ACTIVE" using assms(1) by (simp add: loop_ok_def)
    with freeCache_other [OF l(2,1) _ False] have "freeCache g \<noteq> 0" by simp
    then have "caches (fill (here g) g) ! 0 = caches g ! 0" by (simp add: fill_def set_cache_def)
    moreover have "first_page sz k g" using assms(2) False by (simp add: at_slot0_def)
    ultimately have "first_page sz k (fill (here g) g)" by (auto simp: first_page_def paged_def fo(3))
    then show ?thesis using unsought_fill [OF l(2)] by (simp add: at_slot0_def)
  qed
qed

lemma at_slot0_advance:
  assumes "loop_ok 0 f" "at_slot0 sz k f"
  shows "at_slot0 sz (k + n) (loop_file 0 n f)"
proof -
  have l: "0 < length (caches f)" using assms(1) by (simp add: loop_ok_def reading_def slots_ok_def NCACHES_def)
  have c: "caches (loop_file 0 n f) ! 0 = (caches f ! 0)\<lparr>c_offset := c_offset (caches f ! 0) + n\<rparr>"
    using l by (simp add: loop_file_def set_cache_def)
  have t: "text_of (loop_file 0 n f) = text_of f" by (simp add: loop_file_def set_cache_def)
  have "unsought (loop_file 0 n f)"
    using assms(2) unsought_loop_file [OF _ l] by (simp add: at_slot0_def)
  moreover have "all_active f \<Longrightarrow> all_active (loop_file 0 n f)"
    using assms(1) unfolding all_active_def loop_file_def set_cache_def
    by (simp add: list_all_update loop_ok_def)
  moreover have "getCurrentCache (loop_file 0 n f) = getCurrentCache f"
    by (simp add: loop_file_def set_cache_def getCurrentCache_def)
  moreover have "first_page sz k f \<Longrightarrow> first_page sz (k + n) (loop_file 0 n f)"
    by (auto simp: first_page_def paged_def c t add.assoc)
  ultimately show ?thesis using assms(2) by (auto simp: at_slot0_def)
qed

definition ends_at_slot0 :: "nat \<Rightarrow> io61_file \<Rightarrow> bool" where
  "ends_at_slot0 sz f \<longleftrightarrow> at_slot0 sz 0 f \<and> getCurrentCache f = Some 0
     \<and> c_offset (caches f ! 0) \<le> c_bufsize (caches f ! 0)"

lemma at_slot0_done:
  assumes "loop_ok 0 f" "at_slot0 sz k f" "k = sz" "\<not> sz dvd PAGE"
  shows "ends_at_slot0 sz f"
proof (cases "all_active f \<and> getCurrentCache f = Some 0")
  case True
  then show ?thesis using assms(1,2) by (simp add: ends_at_slot0_def at_slot0_def loop_ok_def)
next
  case False
  then obtain m where fp: "paged 0 f" "c_pos (caches f ! 0) = 0" "c_offset (caches f ! 0) = m * sz + sz" "unsought f"
    using assms(2,3) by (auto simp: at_slot0_def first_page_def)
  have "getCurrentCache f = Some 0"
  proof (rule ccontr)
    assume "getCurrentCache f \<noteq> Some 0"
    then have "c_offset (caches f ! 0) = c_bufsize (caches f ! 0)" "here f < length (text_of f)"
      "here f = c_offset (caches f ! 0)"
      using assms(1) fp(2) by (simp_all add: loop_ok_def)
    then have "PAGE = m * sz + sz" using fp by (auto simp: paged_def)
    then have "sz dvd PAGE" by (metis dvd_add dvd_triv_right dvd_refl)
    then show False using assms(4) by simp
  qed
  moreover have "first_page sz 0 f"
    using fp(1-3) by (auto simp: first_page_def intro!: exI [of _ "Suc m"])
  ultimately show ?thesis using fp(4) assms(1) by (simp add: ends_at_slot0_def at_slot0_def loop_ok_def)
qed

lemma at_slot0_loop:
  assumes "read_loop 0 sz acc f = Some r" "loop_ok 0 f" "length acc \<le> sz" "at_slot0 sz (length acc) f"
    "\<not> sz dvd PAGE"
  shows "length (text_of (snd r)) \<le> here (snd r) \<or> ends_at_slot0 sz (snd r)"
proof -
  have "i = 0 \<longrightarrow> loop_ok 0 f \<longrightarrow> length acc \<le> sz \<longrightarrow> at_slot0 sz (length acc) f \<longrightarrow> \<not> sz dvd PAGE \<longrightarrow>
      (length (text_of (snd r)) \<le> here (snd r) \<or> ends_at_slot0 sz (snd r))"
    if "read_loop i sz acc f = Some r" for i
    using that
  proof (induction rule: read_loop.raw_induct [rotated, consumes 1])
    case (1 rl i sz acc f r)
    have body: "read_body rl i sz acc f = Some r" using 1(2) by (simp only: read_body_def)
    show ?case
    proof (intro impI)
      assume i: "i = 0" and L: "loop_ok 0 f" and la: "length acc \<le> sz" and at: "at_slot0 sz (length acc) f"
        and nd: "\<not> sz dvd PAGE"
      show "length (text_of (snd r)) \<le> here (snd r) \<or> ends_at_slot0 sz (snd r)"
      proof (cases "length acc = sz")
        case True
        then have r: "r = (acc, f)" using body by (simp add: read_body_def)
        show ?thesis using at_slot0_done [OF L at True nd] by (simp add: r)
      next
        case False
        then have lt: "length acc < sz" using la by simp
        define n where "n = loop_count 0 sz (length acc) f"
        define g where "g = loop_file 0 n f"
        define a where "a = acc @ take n (drop (here f) (text_of f))"
        note R = read_loop_round [OF L lt, folded n_def, folded g_def, folded a_def]
        have ag: "at_slot0 sz (length a) g"
          unfolding R(5) g_def by (rule at_slot0_advance [OF L at])
        note B = body [unfolded i R(1)]
        show ?thesis
        proof (cases "c_offset (caches g ! 0) = c_bufsize (caches g ! 0)")
          case False
          then have "rl 0 sz a g = Some r" using B by simp
          from 1(1) [OF this] R(2,6) ag nd show ?thesis by simp
        next
          case full: True
          show ?thesis
          proof (cases "here g < length (text_of g)")
            case True
            then have "rl 0 sz a (fill (here g) g) = Some r" using B full by simp
            from 1(1) [OF this] loop_fill [OF R(2) full True] R(6) at_slot0_fill [OF R(2) ag True] nd
            show ?thesis by simp
          next
            case False
            have s: "slots_ok g" using R(2) by (simp add: loop_ok_def reading_def)
            have "r = (a, evict g)" using B full False by simp
            then show ?thesis using False evict_ok(2,4) [OF s] by simp
          qed
        qed
      qed
    qed
  qed
  with assms show ?thesis by blast
qed

text \<open>What \<open>blockcat61\<close> keeps between its calls of \<open>io61_read\<close>.\<close>

definition between_blocks :: "nat \<Rightarrow> io61_file \<Rightarrow> bool" where
  "between_blocks sz f \<longleftrightarrow> reading f
     \<and> (length (text_of f) \<le> here f
        \<or> (if sz dvd PAGE then aligned sz f
           else ends_at_slot0 sz f
              \<or> getCurrentCache f = None \<and> list_all (\<lambda>c. c_state c = CACHE_EMPTY) (caches f)))"

lemma slot0_block:
  assumes "loop_ok 0 f" "at_slot0 sz 0 f" "\<not> sz dvd PAGE"
  shows "\<exists>bs g. read_loop 0 sz [] f = Some (bs, g) \<and> (length (text_of g) \<le> here g \<or> ends_at_slot0 sz g)"
proof -
  have "unsought f" using assms(2) by (simp add: at_slot0_def)
  then obtain r where r: "read_loop 0 sz [] f = Some r" using slot0_returns [OF assms(1), of "[]" sz] by auto
  from at_slot0_loop [OF r assms(1) _ _ assms(3)] assms(2) have
    "length (text_of (snd r)) \<le> here (snd r) \<or> ends_at_slot0 sz (snd r)" by simp
  then show ?thesis using r by (cases r) auto
qed

lemma fresh_block:
  assumes "reading f" "here f < length (text_of f)" "getCurrentCache f = None"
    "list_all (\<lambda>c. c_state c = CACHE_EMPTY) (caches f)" "\<not> sz dvd PAGE"
  shows "\<exists>bs g. io61_read sz f = Some (bs, g) \<and> (length (text_of g) \<le> here g \<or> ends_at_slot0 sz g)"
proof -
  have s: "slots_ok f" using assms(1) by (simp add: reading_def)
  have h: "here f = 0" by (simp add: here_def assms(3))
  have z: "freeCache f = 0"
    using assms(4) s by (cases "caches f") (simp_all add: freeCache_def slots_ok_def NCACHES_def)
  note fo = fill_ok [OF s assms(2)] and fp = fill_paged [OF s assms(2)]
  have "unsought f" using assms(4) by (auto simp: unsought_def list_all_iff)
  moreover have "first_page sz 0 (fill (here f) f)"
    using fo(5) fp by (auto simp: first_page_def z h)
  ultimately have "at_slot0 sz 0 (fill (here f) f)" by (simp add: at_slot0_def unsought_fill)
  with read_fill [OF assms(1,2)] assms(3) slot0_block [of "fill (here f) f" sz] assms(5)
  show ?thesis by (simp add: z)
qed

lemma slot0_read:
  assumes "reading f" "here f < length (text_of f)" "ends_at_slot0 sz f" "\<not> sz dvd PAGE"
  shows "\<exists>bs g. io61_read sz f = Some (bs, g) \<and> (length (text_of g) \<le> here g \<or> ends_at_slot0 sz g)"
proof (cases "c_offset (caches f ! 0) < c_bufsize (caches f ! 0)")
  case True
  have cur: "getCurrentCache f = Some 0" using assms(3) by (simp add: ends_at_slot0_def)
  show ?thesis
    using read_hit(1) [OF assms(1) cur True, of sz] slot0_block [OF read_hit(2) [OF assms(1) cur True]] assms(3,4)
    by (simp add: ends_at_slot0_def)
next
  case False
  have s: "slots_ok f" and l: "length (caches f) = NCACHES" using assms(1) by (simp_all add: reading_def slots_ok_def)
  have at: "at_slot0 sz 0 f" and cur: "getCurrentCache f = Some 0" and le: "c_offset (caches f ! 0) \<le> c_bufsize (caches f ! 0)"
    using assms(3) by (simp_all add: ends_at_slot0_def)
  have aa: "all_active f"
  proof (rule ccontr)
    assume "\<not> all_active f"
    then obtain m where fp: "paged 0 f" "c_pos (caches f ! 0) = 0" "c_offset (caches f ! 0) = m * sz"
      using at by (auto simp: at_slot0_def first_page_def)
    moreover have "here f = c_pos (caches f ! 0) + c_offset (caches f ! 0)" by (simp add: here_def cur)
    ultimately have "PAGE = m * sz" using False le assms(2) by (auto simp: paged_def)
    then have "sz dvd PAGE" by (metis dvd_triv_right)
    then show False using assms(4) by simp
  qed
  have u: "unsought f" using at by (simp add: at_slot0_def)
  have z: "freeCache f = 0" by (rule freeCache_active [OF u l aa])
  have "at_slot0 sz 0 (fill (here f) f)"
    using all_active_fill [OF aa] unsought_fill [OF u] fill_ok(4) [OF s assms(2)] by (simp add: at_slot0_def z)
  with read_fill [OF assms(1,2)] slot0_block [of "fill (here f) f" sz] assms(4) cur False
  show ?thesis by (simp add: z)
qed

lemma between_blocks_read:
  assumes "between_blocks sz f" "0 < sz"
  shows "\<exists>g. io61_read sz f = Some (take sz (drop (here f) (text_of f)), g) \<and> between_blocks sz g
    \<and> text_of g = text_of f \<and> here g = here f + length (take sz (drop (here f) (text_of f)))"
proof -
  have r: "reading f" using assms(1) by (simp add: between_blocks_def)
  have "\<exists>bs g. io61_read sz f = Some (bs, g) \<and> (length (text_of f) \<le> here f
      \<or> length (text_of g) \<le> here g \<or> (if sz dvd PAGE then aligned sz g else ends_at_slot0 sz g))"
  proof (cases "length (text_of f) \<le> here f")
    case True
    then show ?thesis using read_eof [OF r, of sz] by blast
  next
    case False
    then show ?thesis
      using assms aligned_read [OF r _ _ assms(2)] slot0_read [OF r, of sz] fresh_block [OF r, of sz]
      by (auto simp: between_blocks_def split: if_splits)
  qed
  then obtain bs g where g: "io61_read sz f = Some (bs, g)" "length (text_of f) \<le> here f
      \<or> length (text_of g) \<le> here g \<or> (if sz dvd PAGE then aligned sz g else ends_at_slot0 sz g)" by blast
  from io61_read_result [OF r g(1)] g show ?thesis by (auto simp: between_blocks_def)
qed

lemma blockcat_copies:
  assumes "between_blocks sz f" "0 < sz" "writing g"
  shows "\<exists>f' g'. blockcat61 io61_read io61_write sz f g = Some (f', g') \<and> writing g'
    \<and> handed g' = handed g @ drop (here f) (text_of f)"
  using assms(1,3)
proof (induction "length (text_of f) - here f" arbitrary: f g rule: less_induct)
  case less
  let ?bs = "take sz (drop (here f) (text_of f))"
  obtain f1 where f1: "io61_read sz f = Some (?bs, f1)" "between_blocks sz f1" "text_of f1 = text_of f"
      "here f1 = here f + length ?bs"
    using between_blocks_read [OF less.prems(1) assms(2)] by blast
  show ?case
  proof (cases "?bs = []")
    case True
    then have "length (text_of f) \<le> here f" using assms(2) by simp
    then show ?thesis using f1 less.prems(2) True by (subst blockcat61.simps) simp
  next
    case False
    obtain g1 where g1: "io61_write ?bs g = Some g1" "writing g1" "handed g1 = handed g @ ?bs"
      using write_writing [OF less.prems(2)] by blast
    have "0 < length ?bs" "length ?bs \<le> length (text_of f) - here f" using False by simp_all
    then have lt: "length (text_of f1) - here f1 < length (text_of f) - here f"
      unfolding f1(3,4) by (metis diff_diff_left diff_less less_le_trans)
    have "?bs @ drop (here f1) (text_of f1) = drop (here f) (text_of f)"
      unfolding f1(3,4) by (rule take_drop_rest)
    with less.hyps [OF lt f1(2) g1(2)] show ?thesis
      using f1(1) g1(1,3) False by (subst blockcat61.simps) auto
  qed
qed

text \<open>A file nothing has been read from yet: no cache is in use.\<close>

definition untouched :: "io61_file \<Rightarrow> bool" where
  "untouched f \<longleftrightarrow> reading f \<and> getCurrentCache f = None \<and> list_all (\<lambda>c. c_state c = CACHE_EMPTY) (caches f)"

lemma open_in_untouched: "blank junk \<Longrightarrow> length xs < 2 ^ 63 \<Longrightarrow> untouched (open_in junk xs)"
  using open_in_reading [of junk xs] by (auto simp: untouched_def io61_fdopen_def blank_def list_all_iff)

text \<open>
  C22: \<open>blockcat61\<close> on the buffered library, from a file whose caches are all empty to one that is
  well-formed for writing, returns and appends the whole file, for every block size: every call
  of \<open>io61_read\<close> returns, with the next block or the rest of the file.
\<close>

theorem blockcat61_copies:
  assumes "untouched f0" "writing g0" "0 < block_size"
  shows "\<exists>f g. blockcat61 io61_read io61_write block_size f0 g0 = Some (f, g)
    \<and> contents (fd (io61_close g)) = handed g0 @ text_of f0"
proof -
  have "between_blocks block_size f0" "here f0 = 0"
    using assms(1) by (simp_all add: untouched_def between_blocks_def aligned_def here_def)
  with blockcat_copies [OF _ assms(3,2)] close_writing show ?thesis by fastforce
qed

theorem blockcat61_copies_witness:
  "\<exists>f g. blockcat61 io61_read io61_write 5000 (open_in zeroed (replicate 9000 7)) (open_out zeroed) = Some (f, g)
    \<and> contents (fd (io61_close g)) = replicate 9000 7"
  using blockcat61_copies [OF open_in_untouched [OF blank_zeroed] open_out_writing(1) [OF blank_zeroed],
      of "replicate 9000 7" 5000] open_in_reading(2) [OF blank_zeroed, of "replicate 9000 7"]
    open_out_writing(2) [OF blank_zeroed] by simp

section \<open>The stale pointer\<close>

text \<open>
  C23: a file that has not been sought in, whose current cache is not slot 0 and has bytes left,
  but fewer than the block asked for, while the file goes on behind the cache: this
  \<open>io61_read\<close> never returns. Its loop keeps the pointer to the used-up slot while
  \<open>buildCacheForPos\<close> makes other slots current.
\<close>

theorem io61_read_hangs:
  assumes "reading f" "unsought f" "getCurrentCache f = Some i" "i \<noteq> 0"
    "c_offset (caches f ! i) < c_bufsize (caches f ! i)"
    "c_bufsize (caches f ! i) - c_offset (caches f ! i) < sz"
    "c_pos (caches f ! i) + c_bufsize (caches f ! i) < length (text_of f)"
  shows "io61_read sz f = None"
proof -
  note hit = read_hit [OF assms(1,3,5)]
  have lt: "length ([] :: u8 list) < sz" using assms(6) by simp
  define n where "n = loop_count i sz (length ([] :: u8 list)) f"
  define g where "g = loop_file i n f"
  define a where "a = [] @ take n (drop (here f) (text_of f))"
  note R = read_loop_round [OF hit(2) lt, folded n_def, folded g_def, folded a_def]
  have n: "n = c_bufsize (caches f ! i) - c_offset (caches f ! i)" using assms(6) by (simp add: n_def loop_count_def)
  have full: "c_offset (caches g ! i) = c_bufsize (caches g ! i)" using assms(5) by (simp add: R(7) n)
  have h: "here g < length (text_of g)"
    using assms(5,7) R(3,4) hit(2) by (simp add: loop_ok_def n)
  have l: "i < length (caches f)" using hit(2) by (simp add: loop_ok_def reading_def slots_ok_def)
  have "unsought g" unfolding g_def by (rule unsought_loop_file [OF assms(2) l])
  then have "stuck i g" using R(2) full h assms(4) by (simp add: stuck_def)
  moreover have "length a < sz" using R(5) n assms(6) by simp
  ultimately have "read_loop i sz a (fill (here g) g) = None" by (intro stuck_diverges stuck_fill)
  then show ?thesis
    using R(1) [of read_loop, folded read_loop_body] full h by (simp add: hit(1))
qed

text \<open>The first page of a longer file: the second page becomes the current cache, in another slot.\<close>

lemma first_page_filled:
  assumes "blank junk" "length xs < 2 ^ 63" "PAGE < length xs"
  defines "f \<equiv> open_in junk xs"
  shows "io61_read PAGE f = read_loop 0 PAGE [] (fill 0 f)" "loop_ok 0 (fill 0 f)" "unsought (fill 0 f)"
    "caches (fill 0 f) ! 0 = new_cache 0 (take PAGE xs)" "text_of (fill 0 f) = xs" "here (fill 0 f) = 0"
    "c_state (caches (fill 0 f) ! 1) = CACHE_EMPTY"
proof -
  note o = open_in_reading [OF assms(1,2), folded f_def]
  have s: "slots_ok f" using o(1) by (simp add: reading_def)
  have "0 < length xs" using assms(3) by linarith
  then have h: "here f < length (text_of f)" by (simp only: o(2,3))
  obtain c0 c1 cs where junk: "caches f = c0 # c1 # cs" "c_state c0 = CACHE_EMPTY" "c_state c1 = CACHE_EMPTY"
  proof (cases junk)
    case (Cons c0 k)
    then show ?thesis using assms(1) that
      by (cases k) (auto simp: f_def io61_fdopen_def blank_def NCACHES_def)
  qed (use assms(1) in \<open>simp add: blank_def NCACHES_def\<close>)
  have z: "freeCache f = 0" by (simp add: freeCache_def junk)
  note fo = fill_ok [OF s h, unfolded o(3) z]
  show "io61_read PAGE f = read_loop 0 PAGE [] (fill 0 f)" "loop_ok 0 (fill 0 f)"
    using read_fill [OF o(1) h] o(3,5) by (simp_all add: z)
  show "unsought (fill 0 f)" by (rule unsought_fill [OF o(4)])
  show "caches (fill 0 f) ! 0 = new_cache 0 (take PAGE xs)" using fo(5) o(2) by (simp add: sys_pread_def)
  show "text_of (fill 0 f) = xs" "here (fill 0 f) = 0" using fo(2,3) o(2) by simp_all
  show "c_state (caches (fill 0 f) ! 1) = CACHE_EMPTY" by (simp add: fill_def set_cache_def z junk)
qed

lemma second_page_current:
  assumes "blank junk" "length xs < 2 ^ 63" "2 * PAGE < length xs"
  shows "\<exists>f i. io61_read PAGE (open_in junk xs) = Some (take PAGE xs, f) \<and> reading f \<and> unsought f
    \<and> getCurrentCache f = Some i \<and> i \<noteq> 0 \<and> caches f ! i = new_cache PAGE (take PAGE (drop PAGE xs)) \<and> text_of f = xs"
proof -
  have pg: "0 < PAGE" by (simp add: PAGE_def)
  have lt: "PAGE < length xs" and lt0: "length ([] :: u8 list) < PAGE" using assms(3) pg by simp_all
  note F = first_page_filled [OF assms(1,2) lt]
  define f where "f = fill 0 (open_in junk xs)"
  note F' = F [folded f_def]
  have n: "loop_count 0 PAGE (length ([] :: u8 list)) f = PAGE" using lt by (simp add: loop_count_def F'(4))
  define g where "g = loop_file 0 PAGE f"
  note R = read_loop_round [OF F'(2) lt0, unfolded n, folded g_def]
  have g: "here g = PAGE" "text_of g = xs" "slots_ok g" "length (caches g) = NCACHES" "c_state (caches g ! 0) = CACHE_ACTIVE"
    using R(2-4) F'(5,6) by (simp_all add: loop_ok_def reading_def slots_ok_def)
  have h: "here g < length (text_of g)" using g(1,2) lt by simp
  have "length (caches f) = NCACHES" using F'(2) by (simp add: loop_ok_def reading_def slots_ok_def)
  then have u: "unsought g" unfolding g_def by (intro unsought_loop_file [OF F'(3)]) (simp add: NCACHES_def)
  have "\<not> all_active g"
    using g(4) F'(7) R(8) [of 1] by (auto simp: all_active_def list_all_length NCACHES_def intro!: exI [of _ 1])
  with freeCache_other [OF u g(4,5)] have nz: "freeCache g \<noteq> 0" by simp
  note fo = fill_ok [OF g(3) h, unfolded g(1)]
  have "read_loop 0 PAGE [] f = read_loop 0 PAGE (take PAGE xs) (fill PAGE g)"
    using R(1) [of read_loop, folded read_loop_body] R(7) h lt by (simp add: g(1) F'(4-6))
  also have "\<dots> = Some (take PAGE xs, fill PAGE g)" using lt by (subst read_loop.simps) simp
  finally have "io61_read PAGE (open_in junk xs) = Some (take PAGE xs, fill PAGE g)"
    using F'(1) by simp
  moreover have "caches (fill PAGE g) ! freeCache g = new_cache PAGE (take PAGE (drop PAGE xs))"
    by (simp add: fo(5) sys_pread_def g(2))
  ultimately show ?thesis using fo(1,3,4) unsought_fill [OF u] nz g(2) by blast
qed

text \<open>
  It is enough to read one page of a longer file: a second read of more than a page hangs when
  the file has more than two.
\<close>

theorem io61_read_hangs_witness:
  "\<exists>f. io61_read PAGE (open_in zeroed (replicate 10000 0)) = Some (take PAGE (replicate 10000 0), f)
    \<and> io61_read 5000 f = None"
proof -
  let ?xs = "replicate 10000 0 :: u8 list"
  obtain f i where f: "io61_read PAGE (open_in zeroed ?xs) = Some (take PAGE ?xs, f)" "reading f" "unsought f"
    "getCurrentCache f = Some i" "i \<noteq> 0" "caches f ! i = new_cache PAGE (take PAGE (drop PAGE ?xs))" "text_of f = ?xs"
    using second_page_current [OF blank_zeroed, of ?xs] by (auto simp: PAGE_def)
  have "io61_read 5000 f = None"
    by (rule io61_read_hangs [OF f(2-5)]) (simp_all add: f(6,7) PAGE_def)
  then show ?thesis using f(1) by blast
qed

end
