(* ===== verification/CNumbers.thy ===== *)
theory CNumbers
  imports Prelude
begin

text \<open>
  Numbers in text as the C library reads them: \<open>isspace\<close>, \<open>isdigit\<close> and \<open>strtoul\<close> with base 0,
  used by the pong client for its responses and by the program that builds boot images.
\<close>

section \<open>Characters and digits\<close>

definition isspace :: "u8 \<Rightarrow> bool" where
  "isspace b \<longleftrightarrow> b = 32 \<or> (9 \<le> b \<and> b \<le> 13)"

definition isdigit :: "u8 \<Rightarrow> bool" where
  "isdigit b \<longleftrightarrow> 48 \<le> b \<and> b \<le> 57"

text \<open>An optional sign, which is true for a minus, and the rest.\<close>

definition scan_sign :: "u8 list \<Rightarrow> bool \<times> u8 list" where
  "scan_sign s = (case s of [] \<Rightarrow> (False, [])
     | c # r \<Rightarrow> if c = 45 then (True, r) else if c = 43 then (False, r) else (False, s))"

definition digits_value :: "nat \<Rightarrow> (u8 \<Rightarrow> nat) \<Rightarrow> u8 list \<Rightarrow> nat" where
  "digits_value base val ds = foldl (\<lambda>n d. base * n + val d) 0 ds"

definition decimal :: "u8 \<Rightarrow> nat" where "decimal b = unat b - 48"

definition ishex :: "u8 \<Rightarrow> bool" where
  "ishex b \<longleftrightarrow> isdigit b \<or> (65 \<le> b \<and> b \<le> 70) \<or> (97 \<le> b \<and> b \<le> 102)"

definition hexadecimal :: "u8 \<Rightarrow> nat" where
  "hexadecimal b = (if isdigit b then unat b - 48 else if b \<le> 70 then unat b - 55 else unat b - 87)"

definition isoctal :: "u8 \<Rightarrow> bool" where "isoctal b \<longleftrightarrow> 48 \<le> b \<and> b \<le> 55"

section \<open>Unsigned numbers of any base\<close>

text \<open>The digits after an optional sign: their value and the rest of the text.\<close>

definition scan_unsigned :: "u8 list \<Rightarrow> nat \<times> u8 list" where
  "scan_unsigned s =
     (let octal = (digits_value 8 decimal (takeWhile isoctal s), dropWhile isoctal s)
      in case s of
           [] \<Rightarrow> (0, [])
         | c # r \<Rightarrow>
             if c \<noteq> 48 then (digits_value 10 decimal (takeWhile isdigit s), dropWhile isdigit s)
             else (case r of
                     x # h # _ \<Rightarrow>
                       if (x = 120 \<or> x = 88) \<and> ishex h
                       then (digits_value 16 hexadecimal (takeWhile ishex (tl r)),
                             dropWhile ishex (tl r))
                       else octal
                   | _ \<Rightarrow> octal))"

text \<open>\<open>strtoul\<close> with base 0 and a 64-bit \<open>unsigned long\<close>: too large a number is \<open>ULONG_MAX\<close>.\<close>

definition strtoul :: "u8 list \<Rightarrow> nat" where
  "strtoul s =
     (let (neg, s) = scan_sign (dropWhile isspace s); v = fst (scan_unsigned s)
      in if v \<ge> 2 ^ 64 then 2 ^ 64 - 1 else if neg then (2 ^ 64 - v) mod 2 ^ 64 else v)"

end
