(* ===== verification/Strided.thy ===== *)
theory Strided
  imports Io61Readers CNumbers
begin

text \<open>
  The programs of \<open>pset4\<close> that copy by seeking: \<open>stridecat61\<close> reads a file column by column,
  \<open>ostridecat61\<close> writes one column by column, \<open>reordercat61\<close> copies the blocks of a file in a
  random order and \<open>randomcat61\<close> in blocks of random sizes. They are linked against either
  library, whose operations are their arguments; the two numbers of a \<open>read\<close> are its result and
  what it has stored.
\<close>

section \<open>Programs\<close>

text \<open>
  The options \<open>-b\<close> and \<open>-s\<close>, each with a number, as long as two arguments are left: the block
  size, the number of \<open>-s\<close>, which is the stride or the seed, and the remaining arguments.
\<close>

fun block_options :: "u8 list list \<Rightarrow> nat \<Rightarrow> nat \<Rightarrow> nat \<times> nat \<times> u8 list list" where
  "block_options (arg # num # args) block_size s =
     (if arg = [45, 98] then block_options args (strtoul num) s
      else if arg = [45, 115] then block_options args block_size (strtoul num)
      else (block_size, s, arg # num # args))"
| "block_options args block_size s = (block_size, s, args)"

text \<open>
  The step to the next block of a column, or to the next column when the end of the file is
  reached, on \<open>size_t\<close>.
\<close>

definition sz_add :: "nat \<Rightarrow> nat \<Rightarrow> nat" where
  "sz_add a b = (a + b) mod 2 ^ 64"

definition next_block :: "nat \<Rightarrow> nat \<Rightarrow> nat \<Rightarrow> nat \<Rightarrow> nat \<times> nat" where
  "next_block inf_size stride pos block_size =
     (let pos = sz_add pos stride in
      if pos \<ge> inf_size
      then let pos = sz_add (pos mod stride) block_size in
           (pos, if sz_add pos block_size > stride then (2 ^ 64 + stride - pos) mod 2 ^ 64
                 else block_size)
      else (pos, block_size))"

partial_function (option) stridecat_loop ::
    "(nat \<Rightarrow> 'f \<Rightarrow> (int \<times> u8 list \<times> 'f) option) \<Rightarrow> (nat \<Rightarrow> 'f \<Rightarrow> (int \<times> 'f) option) \<Rightarrow>
     (u8 list \<Rightarrow> 'g \<Rightarrow> 'g option) \<Rightarrow> nat \<Rightarrow> nat \<Rightarrow> nat \<Rightarrow> nat \<Rightarrow> nat \<Rightarrow> 'f \<Rightarrow> 'g \<Rightarrow> ('f \<times> 'g) option" where
  "stridecat_loop read seek write inf_size stride pos written block_size infile outfile =
     (if written < inf_size
      then do {
        (amount, bs, infile) \<leftarrow> read block_size infile;
        if amount \<le> 0 then Some (infile, outfile)
        else do {
          outfile \<leftarrow> write bs outfile;
          if stride = 0 \<and> pos \<ge> inf_size then None   \<comment> \<open>the remainder traps\<close>
          else do {
            let (pos, block_size) = next_block inf_size stride pos block_size;
            (_, infile) \<leftarrow> seek pos infile;
            stridecat_loop read seek write inf_size stride pos (written + nat amount) block_size infile outfile } } }
      else Some (infile, outfile))"

text \<open>
  \<open>main\<close>: \<open>size\<close> is what \<open>io61_filesize\<close> returns; a file that cannot be positioned ends the
  program with status 1, the value \<open>False\<close> here. A block size of 0 fails the assertion.
\<close>

definition stridecat61 ::
    "(nat \<Rightarrow> 'f \<Rightarrow> (int \<times> u8 list \<times> 'f) option) \<Rightarrow> (nat \<Rightarrow> 'f \<Rightarrow> (int \<times> 'f) option) \<Rightarrow>
     (u8 list \<Rightarrow> 'g \<Rightarrow> 'g option) \<Rightarrow> u8 list list \<Rightarrow> int \<Rightarrow> 'f \<Rightarrow> 'g \<Rightarrow> (bool \<times> 'f \<times> 'g) option" where
  "stridecat61 read seek write args filelen infile outfile =
     (let (block_size, stride, _) = block_options args 1 1024 in
      if block_size = 0 then None
      else if filelen < 0 then Some (False, infile, outfile)
      else map_option (Pair True)
             (stridecat_loop read seek write (nat filelen) stride 0 0 block_size infile outfile))"

partial_function (option) ostridecat_loop ::
    "(nat \<Rightarrow> 'f \<Rightarrow> (int \<times> u8 list \<times> 'f) option) \<Rightarrow> (u8 list \<Rightarrow> 'g \<Rightarrow> 'g option) \<Rightarrow>
     (nat \<Rightarrow> 'g \<Rightarrow> (int \<times> 'g) option) \<Rightarrow> nat \<Rightarrow> nat \<Rightarrow> nat \<Rightarrow> nat \<Rightarrow> nat \<Rightarrow> 'f \<Rightarrow> 'g \<Rightarrow> ('f \<times> 'g) option" where
  "ostridecat_loop read write seek inf_size stride pos written block_size infile outfile =
     (if written < inf_size
      then do {
        let amount = (if sz_add pos block_size > inf_size then (2 ^ 64 + inf_size - pos) mod 2 ^ 64
                      else block_size);
        (amount, bs, infile) \<leftarrow> read amount infile;
        if amount \<le> 0 then Some (infile, outfile)
        else do {
          outfile \<leftarrow> write bs outfile;
          if stride = 0 \<and> pos \<ge> inf_size then None
          else do {
            let (pos, block_size) = next_block inf_size stride pos block_size;
            (r, outfile) \<leftarrow> seek pos outfile;
            if r < 0 then None
            else ostridecat_loop read write seek inf_size stride pos (written + nat amount) block_size infile outfile } } }
      else Some (infile, outfile))"

text \<open>The first \<open>seek\<close> fails, with exit status 1, when the output cannot be positioned.\<close>

definition ostridecat61 ::
    "(nat \<Rightarrow> 'f \<Rightarrow> (int \<times> u8 list \<times> 'f) option) \<Rightarrow> (u8 list \<Rightarrow> 'g \<Rightarrow> 'g option) \<Rightarrow>
     (nat \<Rightarrow> 'g \<Rightarrow> (int \<times> 'g) option) \<Rightarrow> u8 list list \<Rightarrow> int \<Rightarrow> 'f \<Rightarrow> 'g \<Rightarrow> (bool \<times> 'f \<times> 'g) option" where
  "ostridecat61 read write seek args filelen infile outfile =
     (let (block_size, stride, _) = block_options args 1 1024 in
      if block_size = 0 then None
      else if filelen < 0 then Some (False, infile, outfile)
      else do {
        (r, outfile) \<leftarrow> seek 0 outfile;
        if r < 0 then Some (False, infile, outfile)
        else map_option (Pair True)
               (ostridecat_loop read write seek (nat filelen) stride 0 0 block_size infile outfile) })"

text \<open>
  \<open>reordercat61\<close> takes a random block of those left and moves the last of them to its place;
  \<open>rands seed\<close> are the results of \<open>random\<close> after \<open>srandom seed\<close>. A file whose size is no multiple
  of the block size loses its last block: \<open>npermute\<close> is rounded down.
\<close>

primrec reorder_loop ::
    "(nat \<Rightarrow> 'f \<Rightarrow> (int \<times> u8 list \<times> 'f) option) \<Rightarrow> (nat \<Rightarrow> 'f \<Rightarrow> (int \<times> 'f) option) \<Rightarrow>
     (u8 list \<Rightarrow> 'g \<Rightarrow> 'g option) \<Rightarrow> (nat \<Rightarrow> 'g \<Rightarrow> (int \<times> 'g) option) \<Rightarrow> nat \<Rightarrow> nat \<Rightarrow> (nat \<Rightarrow> nat) \<Rightarrow>
     nat list \<Rightarrow> nat \<Rightarrow> 'f \<Rightarrow> 'g \<Rightarrow> ('f \<times> 'g) option" where
  "reorder_loop read seek write wseek inf_size block_size rands permute 0 infile outfile = Some (infile, outfile)"
| "reorder_loop read seek write wseek inf_size block_size rands permute (Suc n) infile outfile = do {
     let which_permute = rands n mod Suc n;
     let pos = permute ! which_permute * block_size;
     let permute = permute[which_permute := permute ! n];
     let amount = (if sz_add pos block_size > inf_size then (2 ^ 64 + inf_size - pos) mod 2 ^ 64
                   else block_size);
     (_, infile) \<leftarrow> seek pos infile;
     (amount, bs, infile) \<leftarrow> read amount infile;
     if amount \<le> 0 then Some (infile, outfile)
     else do {
       (_, outfile) \<leftarrow> wseek pos outfile;
       outfile \<leftarrow> write bs outfile;
       reorder_loop read seek write wseek inf_size block_size rands permute n infile outfile } }"

definition reordercat61 ::
    "(nat \<Rightarrow> 'f \<Rightarrow> (int \<times> u8 list \<times> 'f) option) \<Rightarrow> (nat \<Rightarrow> 'f \<Rightarrow> (int \<times> 'f) option) \<Rightarrow>
     (u8 list \<Rightarrow> 'g \<Rightarrow> 'g option) \<Rightarrow> (nat \<Rightarrow> 'g \<Rightarrow> (int \<times> 'g) option) \<Rightarrow> (nat \<Rightarrow> nat \<Rightarrow> nat) \<Rightarrow>
     u8 list list \<Rightarrow> int \<Rightarrow> 'f \<Rightarrow> 'g \<Rightarrow> (bool \<times> 'f \<times> 'g) option" where
  "reordercat61 read seek write wseek rands args filelen infile outfile =
     (let (block_size, seed, _) = block_options args 4096 83419 in
      if block_size = 0 then None
      else if filelen < 0 then Some (False, infile, outfile)
      else do {
        (r, outfile) \<leftarrow> wseek 0 outfile;
        let npermute = nat filelen div block_size;
        if r < 0 \<or> npermute > 30 * 2 ^ 20 then Some (False, infile, outfile)
        else map_option (Pair True) (reorder_loop read seek write wseek (nat filelen) block_size
               (rands seed) [0..<npermute] npermute infile outfile) })"

partial_function (option) random_loop ::
    "(nat \<Rightarrow> 'f \<Rightarrow> (int \<times> u8 list \<times> 'f) option) \<Rightarrow> (u8 list \<Rightarrow> 'g \<Rightarrow> 'g option) \<Rightarrow> nat \<Rightarrow>
     (nat \<Rightarrow> nat) \<Rightarrow> nat \<Rightarrow> 'f \<Rightarrow> 'g \<Rightarrow> ('f \<times> 'g) option" where
  "random_loop read write block_size rands i infile outfile = do {
     let m = rands i mod block_size;
     (amount, bs, infile) \<leftarrow> read (if m \<noteq> 0 then m else 1) infile;
     if amount \<le> 0 then Some (infile, outfile)
     else do {
       outfile \<leftarrow> write bs outfile;
       random_loop read write block_size rands (i + 1) infile outfile } }"

definition randomcat61 ::
    "(nat \<Rightarrow> 'f \<Rightarrow> (int \<times> u8 list \<times> 'f) option) \<Rightarrow> (u8 list \<Rightarrow> 'g \<Rightarrow> 'g option) \<Rightarrow>
     (nat \<Rightarrow> nat \<Rightarrow> nat) \<Rightarrow> u8 list list \<Rightarrow> 'f \<Rightarrow> 'g \<Rightarrow> ('f \<times> 'g) option" where
  "randomcat61 read write rands args infile outfile =
     (let (block_size, seed, _) = block_options args 4096 83419 in
      if block_size = 0 then None
      else random_loop read write block_size (rands seed) 0 infile outfile)"

end
