(* ===== verification/StridedProps.thy ===== *)
theory StridedProps
  imports Strided
begin

text \<open>
  \<open>stridecat61\<close> and \<open>ostridecat61\<close> undo each other, and \<open>reordercat61\<close> copies a file of whole
  blocks: proved for any library that reads and writes blocks at a position, and instantiated
  with the unbuffered one.
\<close>

section \<open>Interfaces\<close>

locale block_input =
  fixes read :: "nat \<Rightarrow> 'f \<Rightarrow> (int \<times> u8 list \<times> 'f) option" and seek :: "nat \<Rightarrow> 'f \<Rightarrow> (int \<times> 'f) option"
    and stored :: "'f \<Rightarrow> u8 list" and place :: "'f \<Rightarrow> nat" and ok :: "'f \<Rightarrow> bool"
  assumes read_block: "ok f \<Longrightarrow> bs = take n (drop (place f) (stored f)) \<Longrightarrow> bs \<noteq> [] \<Longrightarrow>
      \<exists>f'. read n f = Some (int (length bs), bs, f') \<and> ok f' \<and> stored f' = stored f \<and>
        place f' = place f + length bs"
    and read_end: "ok f \<Longrightarrow> length (stored f) \<le> place f \<Longrightarrow>
      \<exists>r f'. read n f = Some (r, [], f') \<and> r \<le> 0 \<and> ok f'"
    and seek_block: "ok f \<Longrightarrow> \<exists>f'. seek pos f = Some (0, f') \<and> ok f' \<and> stored f' = stored f \<and> place f' = pos"

definition overwrite :: "nat \<Rightarrow> u8 list \<Rightarrow> u8 list \<Rightarrow> u8 list" where
  "overwrite p bs old = take p old @ replicate (p - length old) 0 @ bs @ drop (p + length bs) old"

locale block_output =
  fixes put :: "u8 list \<Rightarrow> 'g \<Rightarrow> 'g option" and wseek :: "nat \<Rightarrow> 'g \<Rightarrow> (int \<times> 'g) option"
    and held :: "'g \<Rightarrow> u8 list" and wplace :: "'g \<Rightarrow> nat" and wok :: "'g \<Rightarrow> bool"
  assumes write_block: "wok g \<Longrightarrow> bs \<noteq> [] \<Longrightarrow>
      \<exists>g'. put bs g = Some g' \<and> wok g' \<and> held g' = overwrite (wplace g) bs (held g) \<and>
        wplace g' = wplace g + length bs"
    and wseek_block: "wok g \<Longrightarrow> \<exists>g'. wseek pos g = Some (0, g') \<and> wok g' \<and> held g' = held g \<and> wplace g' = pos"

lemma overwrite_end: "overwrite (length old) bs old = old @ bs"
  by (simp add: overwrite_def)

lemma length_overwrite: "length (overwrite p bs old) = max (length old) (p + length bs)"
  by (simp add: overwrite_def)

lemma nth_overwrite:
  assumes "x < max (length old) (p + length bs)"
  shows "overwrite p bs old ! x = (if p \<le> x \<and> x < p + length bs then bs ! (x - p)
     else if x < length old then old ! x else 0)"
  using assms by (cases "length old \<le> p") (auto simp: overwrite_def nth_append)

lemma nth_overwrite_in: "p \<le> x \<Longrightarrow> x < p + length bs \<Longrightarrow> overwrite p bs old ! x = bs ! (x - p)"
  by (simp add: nth_overwrite)

lemma nth_overwrite_out:
  "x < length old \<Longrightarrow> x < p \<or> p + length bs \<le> x \<Longrightarrow> overwrite p bs old ! x = old ! x"
  by (auto simp: nth_overwrite)

lemma overwrite_Cons:
  assumes "bs \<noteq> []"
  shows "overwrite (p + 1) bs (overwrite p [b] old) = overwrite p (b # bs) old"
proof (rule nth_equalityI)
  fix x assume "x < length (overwrite (p + 1) bs (overwrite p [b] old))"
  then have x: "x < max (length old) (p + 1 + length bs)" using assms by (simp add: length_overwrite)
  show "overwrite (p + 1) bs (overwrite p [b] old) ! x = overwrite p (b # bs) old ! x"
    using x assms by (auto simp: nth_overwrite length_overwrite nth_Cons' le_Suc_eq)
qed (use assms in \<open>simp add: length_overwrite max_def\<close>)

section \<open>The blocks of a stride\<close>

text \<open>
  The place of a program: row \<open>r\<close>, first byte \<open>c\<close> of the column and its width \<open>b\<close>. \<open>to_come\<close> are
  the bytes of the file of \<open>n\<close> bytes that it has not reached yet.
\<close>

definition to_come :: "nat \<Rightarrow> nat \<Rightarrow> nat \<Rightarrow> nat \<Rightarrow> nat \<Rightarrow> nat set" where
  "to_come n s r c b = {x. x < n \<and>
     (c \<le> x mod s \<and> x mod s < c + b \<and> r \<le> x div s \<or> c + b \<le> x mod s)}"

definition on_block :: "nat \<Rightarrow> nat \<Rightarrow> nat \<Rightarrow> nat \<Rightarrow> nat \<Rightarrow> bool" where
  "on_block n s r c b \<longleftrightarrow> c + b \<le> s \<and> (to_come n s r c b \<noteq> {} \<longrightarrow> r * s + c < n \<and> 0 < b)"

definition next_row :: "nat \<Rightarrow> nat \<Rightarrow> nat \<Rightarrow> nat \<Rightarrow> nat" where
  "next_row n s r c = (if (r + 1) * s + c \<ge> n then 0 else r + 1)"

definition next_column :: "nat \<Rightarrow> nat \<Rightarrow> nat \<Rightarrow> nat \<Rightarrow> nat \<Rightarrow> nat" where
  "next_column n s r c b = (if (r + 1) * s + c \<ge> n then c + b else c)"

definition next_width :: "nat \<Rightarrow> nat \<Rightarrow> nat \<Rightarrow> nat \<Rightarrow> nat \<Rightarrow> nat" where
  "next_width n s r c b = (if (r + 1) * s + c \<ge> n then min b (s - (c + b)) else b)"

lemma row_byte:
  fixes x :: nat
  assumes "c + b \<le> s"
  shows "r * s + c \<le> x \<and> x < r * s + c + b \<longleftrightarrow> c \<le> x mod s \<and> x mod s < c + b \<and> x div s = r"
proof
  assume x: "r * s + c \<le> x \<and> x < r * s + c + b"
  then obtain k where k: "x = r * s + k" by (metis le_add1 le_trans le_Suc_ex)
  with x assms have "k < s" "c \<le> k" "k < c + b" by simp_all
  then show "c \<le> x mod s \<and> x mod s < c + b \<and> x div s = r" by (simp add: k)
next
  assume x: "c \<le> x mod s \<and> x mod s < c + b \<and> x div s = r"
  then have "x = r * s + x mod s" using div_mult_mod_eq [of x s] by simp
  with x show "r * s + c \<le> x \<and> x < r * s + c + b" by linarith
qed

lemma to_come_step:
  assumes "on_block n s r c b" "r * s + c < n" "0 < b"
  defines "rest \<equiv> to_come n s (next_row n s r c) (next_column n s r c b) (next_width n s r c b)"
  shows "to_come n s r c b = {r * s + c ..< min n (r * s + c + b)} \<union> rest"
    "{r * s + c ..< min n (r * s + c + b)} \<inter> rest = {}"
    "on_block n s (next_row n s r c) (next_column n s r c b) (next_width n s r c b)"
proof -
  have cb: "c + b \<le> s" using assms(1) by (simp add: on_block_def)
  note here = row_byte [OF cb, of r]
  have block: "x \<in> {r * s + c ..< min n (r * s + c + b)} \<longleftrightarrow>
      x < n \<and> c \<le> x mod s \<and> x mod s < c + b \<and> x div s = r" for x
    using here [of x] by auto
  have late: "r < x div s \<Longrightarrow> c \<le> x mod s \<Longrightarrow> (r + 1) * s + c \<le> x" for x
  proof -
    assume "r < x div s" "c \<le> x mod s"
    then have "(r + 1) * s + c \<le> x div s * s + x mod s" by (intro add_mono mult_right_mono) auto
    then show ?thesis by simp
  qed
  show "to_come n s r c b = {r * s + c ..< min n (r * s + c + b)} \<union> rest"
    unfolding set_eq_iff Un_iff block
  proof
    fix x
    consider "x div s < r" | "x div s = r" | "r < x div s" by linarith
    then show "x \<in> to_come n s r c b \<longleftrightarrow>
        (x < n \<and> c \<le> x mod s \<and> x mod s < c + b \<and> x div s = r) \<or> x \<in> rest"
      using late [of x] assms(3) cb
      by cases (auto simp: rest_def to_come_def next_row_def next_column_def next_width_def)
  qed
  show "{r * s + c ..< min n (r * s + c + b)} \<inter> rest = {}"
    unfolding disjoint_iff block
    by (auto simp: rest_def to_come_def next_row_def next_column_def next_width_def)
  show "on_block n s (next_row n s r c) (next_column n s r c b) (next_width n s r c b)"
  proof (cases "(r + 1) * s + c \<ge> n")
    case True
    have "c + b < n \<and> c + b < s" if "x < n" "c + b \<le> x mod s" for x
      using that cb assms(3) mod_less_divisor [of s x] mod_less_eq_dividend [of x s] by linarith
    then show ?thesis
      using True cb assms(3) by (auto simp: on_block_def to_come_def next_row_def next_column_def next_width_def)
  next
    case False
    then show ?thesis
      using cb assms(3) by (simp add: on_block_def next_row_def next_column_def next_width_def)
  qed
qed

lemma sz_minus:
  assumes "(a :: nat) \<le> n" "n < 2 ^ 64"
  shows "(2 ^ 64 + n - a) mod 2 ^ 64 = n - a"
proof -
  have "2 ^ 64 + n - a = 2 ^ 64 + (n - a)" using assms(1) by simp
  moreover have "n - a < 2 ^ 64" using assms(2) by (rule le_less_trans [OF diff_le_self])
  ultimately show ?thesis by (simp only: mod_add_self1 mod_less)
qed

lemma next_block_eq:
  assumes "on_block n s r c b" "r * s + c < n" "0 < b" "n + s < 2 ^ 63"
  shows "next_block n s (r * s + c) b =
    (next_row n s r c * s + next_column n s r c b, next_width n s r c b)"
proof -
  have cb: "c + b \<le> s" using assms(1) by (simp add: on_block_def)
  have pos: "sz_add (r * s + c) s = (r + 1) * s + c"
    using assms(2,4) by (simp add: sz_add_def algebra_simps)
  have m: "((r + 1) * s + c) mod s = c"
    unfolding mod_mult_self3 using cb assms(3) by simp
  have col: "sz_add c b = c + b" "sz_add (c + b) b = c + b + b"
    using cb assms(4) by (simp_all add: sz_add_def)
  have w: "(2 ^ 64 + s - (c + b)) mod 2 ^ 64 = s - (c + b)"
    using cb assms(4) by (intro sz_minus) simp_all
  show ?thesis
    unfolding next_block_def pos m Let_def col w
    by (auto simp: next_row_def next_column_def next_width_def)
qed

lemma finite_to_come [simp]: "finite (to_come n s r c b)"
  by (rule finite_subset [of _ "{..<n}"]) (auto simp: to_come_def)

lemma card_to_come:
  assumes "on_block n s r c b" "r * s + c < n" "0 < b"
  shows "card (to_come n s r c b) = min b (n - (r * s + c)) +
    card (to_come n s (next_row n s r c) (next_column n s r c b) (next_width n s r c b))"
proof -
  have "card {r * s + c ..< min n (r * s + c + b)} = min b (n - (r * s + c))" by simp
  then show ?thesis
    using to_come_step(1,2) [OF assms] by (simp add: card_Un_disjoint)
qed

section \<open>Stride and back\<close>

text \<open>
  The copying of \<open>ostridecat61\<close>: it takes the bytes \<open>t\<close> and puts them to their places, so that
  the output agrees with the file \<open>F\<close> on what was to come.
\<close>

definition fills :: "u8 list \<Rightarrow> nat set \<Rightarrow> u8 list \<Rightarrow> u8 list \<Rightarrow> bool" where
  "fills F S old new \<longleftrightarrow> length old \<le> length new \<and> length new \<le> length F \<and>
     (\<forall>x \<in> S. x < length new \<and> new ! x = F ! x) \<and>
     (\<forall>x < length old. x \<notin> S \<longrightarrow> new ! x = old ! x)"

lemma fills_block:
  assumes "length old \<le> length F" "bs = take b (drop p F)" "p < length F"
    and "fills F S (overwrite p bs old) new" "{p ..< min (length F) (p + b)} \<inter> S = {}"
  shows "fills F ({p ..< min (length F) (p + b)} \<union> S) old new"
proof -
  have len: "length bs = min b (length F - p)" using assms(2) by simp
  have new: "new ! x = F ! x \<and> x < length new" if x: "x \<in> {p ..< min (length F) (p + b)}" for x
  proof -
    have "x < p + length bs" "p \<le> x" using x len by auto
    moreover have "x \<notin> S" using assms(5) x by auto
    moreover have "bs ! (x - p) = F ! x" using x assms(2,3) by auto
    ultimately show ?thesis
      using assms(4) by (auto simp: fills_def nth_overwrite_in length_overwrite)
  qed
  have "new ! x = old ! x" if "x < length old" "x \<notin> {p ..< min (length F) (p + b)} \<union> S" for x
  proof -
    have "x < p \<or> p + length bs \<le> x" using that assms(1) len by auto
    with that assms(4) show ?thesis by (auto simp: fills_def nth_overwrite_out length_overwrite)
  qed
  with new assms(4) show ?thesis by (auto simp: fills_def length_overwrite)
qed

lemma block_bytes: "0 < b \<Longrightarrow> {q * b ..< q * b + b} = {x. x div b = (q :: nat)}"
proof (rule set_eqI)
  fix x assume "0 < b"
  then have "x mod b < b" by simp
  then show "x \<in> {q * b ..< q * b + b} \<longleftrightarrow> x \<in> {x. x div b = q}"
    using row_byte [of 0 b b q x] by simp
qed

lemma reorder_left:
  assumes "distinct (take (Suc k) xs)" "Suc k \<le> length xs" "w \<le> k"
  shows "distinct (take k (xs[w := xs ! k]))" "set (take k (xs[w := xs ! k])) = set (take (Suc k) xs) - {xs ! w}"
proof -
  have xs: "take (Suc k) xs = take k xs @ [xs ! k]" using assms(2) by (simp add: take_Suc_conv_app_nth)
  have "distinct (take k (xs[w := xs ! k])) \<and> set (take k (xs[w := xs ! k])) = set (take (Suc k) xs) - {xs ! w}"
  proof (cases "w = k")
    case True
    then show ?thesis using assms(1) by (simp add: xs list_update_id)
  next
    case False
    then have w: "w < length (take k xs)" "xs ! w = take k xs ! w" using assms(2,3) by auto
    have t: "take k (xs[w := xs ! k]) = (take k xs)[w := xs ! k]" by (simp add: take_update_swap)
    have d: "distinct (take k xs)" "xs ! k \<notin> set (take k xs)" using assms(1) by (simp_all add: xs)
    have "xs ! w \<in> set (take k xs)" using w by (metis nth_mem)
    then show ?thesis
      using d w by (auto simp: t xs distinct_list_update set_update_distinct)
  qed
  then show "distinct (take k (xs[w := xs ! k]))" "set (take k (xs[w := xs ! k])) = set (take (Suc k) xs) - {xs ! w}"
    by simp_all
qed

locale strided = block_input read seek stored place ok + block_output put wseek held wplace wok
  for read :: "nat \<Rightarrow> 'f \<Rightarrow> (int \<times> u8 list \<times> 'f) option" and seek stored place ok
    and put :: "u8 list \<Rightarrow> 'g \<Rightarrow> 'g option" and wseek held wplace wok
begin

lemma stride_and_back:
  assumes "n = length F" "n + s < 2 ^ 63"
  shows "on_block n s r c b \<Longrightarrow> written + card (to_come n s r c b) = n \<Longrightarrow>
    ok f \<Longrightarrow> stored f = F \<Longrightarrow> place f = r * s + c \<Longrightarrow> wok g \<Longrightarrow> wplace g = length (held g) \<Longrightarrow>
    \<exists>f' g' t. stridecat_loop read seek put n s (r * s + c) written b f g = Some (f', g') \<and>
      wok g' \<and> held g' = held g @ t \<and> length t = card (to_come n s r c b) \<and>
      (\<forall>f2 g2. ok f2 \<longrightarrow> drop (place f2) (stored f2) = t \<longrightarrow> wok g2 \<longrightarrow> wplace g2 = r * s + c \<longrightarrow>
         length (held g2) \<le> n \<longrightarrow>
         (\<exists>f3 g3. ostridecat_loop read put wseek n s (r * s + c) written b f2 g2 = Some (f3, g3) \<and>
            wok g3 \<and> fills F (to_come n s r c b) (held g2) (held g3)))"
proof (induction "card (to_come n s r c b)" arbitrary: r c b written f g rule: less_induct)
  case less
  show ?case
  proof (cases "to_come n s r c b = {}")
    case True
    then have "\<not> written < n" using less.prems(2) by simp
    then show ?thesis
      using less.prems True assms(1)
      by (intro exI [of _ f] exI [of _ g] exI [of _ "[]"])
        (auto simp: stridecat_loop.simps ostridecat_loop.simps fills_def)
  next
    case False
    then have lt: "r * s + c < n" "0 < b" "c + b \<le> s"
      using less.prems(1) by (simp_all add: on_block_def)
    note step = to_come_step [OF less.prems(1) lt(1,2)]
    let ?r = "next_row n s r c" and ?c = "next_column n s r c b" and ?b = "next_width n s r c b"
    let ?S = "to_come n s ?r ?c ?b"
    define bs where "bs = take b (drop (r * s + c) F)"
    have len: "length bs = min b (n - (r * s + c))" by (simp add: bs_def assms(1))
    have ne: "bs \<noteq> []" and amount: "0 < int (length bs)" using lt len by auto
    have card: "card (to_come n s r c b) = length bs + card ?S"
      using card_to_come [OF less.prems(1) lt(1,2)] len by simp
    have wr: "written < n" "written + length bs + card ?S = n"
      using less.prems(2) card ne by (cases bs; simp)+
    obtain f1 where f1: "read b f = Some (int (length bs), bs, f1)" "ok f1" "stored f1 = F"
      using read_block [OF less.prems(3) refl, of b] ne less.prems(4,5) by (auto simp: bs_def)
    obtain g1 where g1: "put bs g = Some g1" "wok g1" "held g1 = held g @ bs" "wplace g1 = length (held g1)"
      using write_block [OF less.prems(6) ne] less.prems(7) by (auto simp: overwrite_end)
    obtain f2 where f2: "seek (?r * s + ?c) f1 = Some (0, f2)" "ok f2" "stored f2 = F" "place f2 = ?r * s + ?c"
      using seek_block [OF f1(2), of "?r * s + ?c"] f1(3) by auto
    have nb: "next_block n s (r * s + c) b = (?r * s + ?c, ?b)"
      by (rule next_block_eq [OF less.prems(1) lt(1,2) assms(2)])
    have "card ?S < card (to_come n s r c b)" using card ne by (cases bs) simp_all
    from less.hyps [OF this step(3) wr(2) f2(2,3,4) g1(2,4)] obtain f' g' t where
      run: "stridecat_loop read seek put n s (?r * s + ?c) (written + length bs) ?b f2 g1 = Some (f', g')"
        "wok g'" "held g' = held g1 @ t" "length t = card ?S"
      and again: "\<And>f2 g2. ok f2 \<Longrightarrow> drop (place f2) (stored f2) = t \<Longrightarrow> wok g2 \<Longrightarrow> wplace g2 = ?r * s + ?c \<Longrightarrow>
        length (held g2) \<le> n \<Longrightarrow>
        \<exists>f3 g3. ostridecat_loop read put wseek n s (?r * s + ?c) (written + length bs) ?b f2 g2 = Some (f3, g3) \<and>
          wok g3 \<and> fills F ?S (held g2) (held g3)" by blast
    have s0: "s \<noteq> 0" using lt by auto
    have "stridecat_loop read seek put n s (r * s + c) written b f g = Some (f', g')"
      using wr(1) f1(1) amount g1(1) nb f2(1) run(1) s0 by (subst stridecat_loop.simps) simp
    moreover have "\<exists>f3 g3. ostridecat_loop read put wseek n s (r * s + c) written b fo go = Some (f3, g3) \<and>
        wok g3 \<and> fills F (to_come n s r c b) (held go) (held g3)"
      if o': "ok fo" "drop (place fo) (stored fo) = bs @ t" "wok go" "wplace go = r * s + c" "length (held go) \<le> n"
        for fo go
    proof -
      have am: "(if sz_add (r * s + c) b > n then (2 ^ 64 + n - (r * s + c)) mod 2 ^ 64 else b) = length bs"
      proof -
        have "sz_add (r * s + c) b = r * s + c + b" using lt assms(2) by (simp add: sz_add_def)
        moreover have "(2 ^ 64 + n - (r * s + c)) mod 2 ^ 64 = n - (r * s + c)"
          using lt assms(2) by (intro sz_minus) simp_all
        ultimately show ?thesis using len lt(1) by auto
      qed
      obtain fo1 where fo1: "read (length bs) fo = Some (int (length bs), bs, fo1)" "ok fo1"
        "stored fo1 = stored fo" "place fo1 = place fo + length bs"
        using read_block [OF o'(1), of bs "length bs"] o'(2) ne by auto
      have d: "drop (place fo1) (stored fo1) = t"
        using arg_cong [OF o'(2), of "drop (length bs)"] fo1(3,4) by (simp add: add.commute)
      obtain go1 where go1: "put bs go = Some go1" "wok go1" "held go1 = overwrite (r * s + c) bs (held go)"
        using write_block [OF o'(3) ne] o'(4) by auto
      obtain go2 where go2: "wseek (?r * s + ?c) go1 = Some (0, go2)" "wok go2"
        "held go2 = held go1" "wplace go2 = ?r * s + ?c"
        using wseek_block [OF go1(2)] by blast
      have "length (held go2) \<le> n" using go1(3) go2(3) o'(5) len lt(1) by (simp add: length_overwrite)
      from again [OF fo1(2) d go2(2,4) this] obtain f3 g3
        where o3: "ostridecat_loop read put wseek n s (?r * s + ?c) (written + length bs) ?b fo1 go2 = Some (f3, g3)"
          "wok g3" "fills F ?S (held go2) (held g3)" by blast
      have "ostridecat_loop read put wseek n s (r * s + c) written b fo go = Some (f3, g3)"
        using wr(1) am fo1(1) amount go1(1) nb go2(1) o3(1) s0
        by (subst ostridecat_loop.simps) simp
      moreover have "fills F (to_come n s r c b) (held go) (held g3)"
        unfolding step(1)
        using fills_block [OF o'(5) [unfolded assms(1)] bs_def lt(1) [unfolded assms(1)]] o3(3) step(2)
        by (simp add: go2(3) go1(3) assms(1))
      ultimately show ?thesis using o3(2) by blast
    qed
    ultimately show ?thesis
      using run(2,3,4) g1(3) card by (intro exI [of _ f'] exI [of _ g'] exI [of _ "bs @ t"]) auto
  qed
qed

text \<open>The whole programs: \<open>ostridecat61\<close> on the output of \<open>stridecat61\<close> gives the file again.\<close>

lemma all_to_come: "b \<le> s \<Longrightarrow> 0 < s \<Longrightarrow> to_come n s 0 0 b = {..<n}"
  by (auto simp: to_come_def)

lemma round_trip:
  assumes "length F + s < 2 ^ 63" "0 < b" "b \<le> s" and args: "block_options args 1 1024 = (b, s, rest)"
    and f: "ok f" "stored f = F" "place f = 0" and g: "wok g" "held g = []" "wplace g = 0"
  shows "\<exists>f' g'. stridecat61 read seek put args (int (length F)) f g = Some (True, f', g') \<and> wok g' \<and>
    length (held g') = length F \<and>
    (\<forall>f2 g2. ok f2 \<longrightarrow> stored f2 = held g' \<longrightarrow> place f2 = 0 \<longrightarrow> wok g2 \<longrightarrow> held g2 = [] \<longrightarrow>
      (\<exists>f3 g3. ostridecat61 read put wseek args (int (length F)) f2 g2 = Some (True, f3, g3) \<and>
         wok g3 \<and> held g3 = F))"
proof -
  let ?n = "length F"
  have all: "to_come ?n s 0 0 b = {..<?n}" using assms by (intro all_to_come) simp_all
  have "on_block ?n s 0 0 b" unfolding on_block_def all using assms(2,3) by auto
  then have *: "\<exists>f' g' t. stridecat_loop read seek put ?n s (0 * s + 0) 0 b f g = Some (f', g') \<and>
      wok g' \<and> held g' = held g @ t \<and> length t = card (to_come ?n s 0 0 b) \<and>
      (\<forall>f2 g2. ok f2 \<longrightarrow> drop (place f2) (stored f2) = t \<longrightarrow> wok g2 \<longrightarrow> wplace g2 = 0 * s + 0 \<longrightarrow>
         length (held g2) \<le> ?n \<longrightarrow>
         (\<exists>f3 g3. ostridecat_loop read put wseek ?n s (0 * s + 0) 0 b f2 g2 = Some (f3, g3) \<and>
            wok g3 \<and> fills F (to_come ?n s 0 0 b) (held g2) (held g3)))"
    by (rule stride_and_back [OF refl assms(1)]) (use f g all in simp_all)
  obtain f' g' t where
    run: "stridecat_loop read seek put ?n s 0 0 b f g = Some (f', g')" "wok g'" "held g' = t" "length t = ?n"
    and again: "\<And>f2 g2. ok f2 \<Longrightarrow> drop (place f2) (stored f2) = t \<Longrightarrow> wok g2 \<Longrightarrow> wplace g2 = 0 \<Longrightarrow>
        length (held g2) \<le> ?n \<Longrightarrow>
        \<exists>f3 g3. ostridecat_loop read put wseek ?n s 0 0 b f2 g2 = Some (f3, g3) \<and>
          wok g3 \<and> fills F {..<?n} (held g2) (held g3)"
    using * unfolding all g(2) mult_0 add_0_right append_Nil card_lessThan
    by (elim exE conjE) (rule that, assumption+, blast)
  have "\<exists>f3 g3. ostridecat61 read put wseek args (int ?n) f2 g2 = Some (True, f3, g3) \<and> wok g3 \<and> held g3 = F"
    if f2: "ok f2" "stored f2 = held g'" "place f2 = 0" and g2: "wok g2" "held g2 = []" for f2 g2
  proof -
    obtain g4 where g4: "wseek 0 g2 = Some (0, g4)" "wok g4" "held g4 = []" "wplace g4 = 0"
      using wseek_block [OF g2(1), of 0] g2(2) by auto
    from again [OF f2(1) _ g4(2,4)] f2 g4(3) run(3) obtain f3 g3 where
      o3: "ostridecat_loop read put wseek ?n s 0 0 b f2 g4 = Some (f3, g3)" "wok g3"
        "fills F {..<?n} [] (held g3)" by auto
    have "length (held g3) = ?n"
      using o3(3) by (cases "?n = 0") (auto simp: fills_def dest: spec [of _ "?n - 1"] intro!: le_antisym)
    then have "held g3 = F" using o3(3) by (intro nth_equalityI) (auto simp: fills_def)
    then show ?thesis using o3 g4(1) assms(2) by (simp add: ostridecat61_def args [unfolded One_nat_def])
  qed
  then show ?thesis using run assms(2) by (auto simp: stridecat61_def args [unfolded One_nat_def])
qed

text \<open>
  \<open>reordercat61\<close>: the blocks that are left are the first \<open>k\<close> numbers of \<open>permute\<close>; the one that is
  taken is replaced by the last of them.
\<close>

lemma reorder_copies:
  assumes "0 < b" "m * b \<le> length F" "length F < 2 ^ 63"
  shows "k \<le> length permute \<Longrightarrow> distinct (take k permute) \<Longrightarrow> set (take k permute) \<subseteq> {..<m} \<Longrightarrow>
    ok f \<Longrightarrow> stored f = F \<Longrightarrow> wok g \<Longrightarrow> length (held g) \<le> m * b \<Longrightarrow>
    \<exists>f' g'. reorder_loop read seek put wseek (length F) b rands permute k f g = Some (f', g') \<and> wok g' \<and>
      fills (take (m * b) F) {x. x < m * b \<and> x div b \<in> set (take k permute)} (held g) (held g')"
proof (induction k arbitrary: permute f g)
  case 0
  then show ?case using assms(2) by (auto simp: fills_def)
next
  case (Suc k)
  let ?w = "rands k mod Suc k" and ?F = "take (m * b) F"
  let ?q = "permute ! ?w" and ?p = "permute[rands k mod Suc k := permute ! k]"
  have w: "?w \<le> k" by (simp add: less_Suc_eq_le [symmetric])
  note left = reorder_left [OF Suc.prems(2,1) w]
  have "?q \<in> set (take (Suc k) permute)"
    using w Suc.prems(1) by (auto simp: in_set_conv_nth intro!: exI [of _ ?w])
  then have q: "?q < m" using Suc.prems(3) by auto
  have "?q * b + b \<le> m * b" using mult_le_mono1 [of "Suc ?q" m b] q by simp
  then have room: "?q * b + b \<le> length F" "?q * b + b \<le> m * b" using assms(2) by simp_all
  define bs where "bs = take b (drop (?q * b) F)"
  have len: "length bs = b" using room by (simp add: bs_def)
  then have ne: "bs \<noteq> []" using assms(1) by auto
  have am: "\<not> sz_add (?q * b) b > length F"
    using room assms(3) by (simp add: sz_add_def not_less le_trans [OF mod_less_eq_dividend])
  obtain f1 where f1: "seek (?q * b) f = Some (0, f1)" "ok f1" "stored f1 = F" "place f1 = ?q * b"
    using seek_block [OF Suc.prems(4), of "?q * b"] Suc.prems(5) by auto
  obtain f2 where f2: "read b f1 = Some (int (length bs), bs, f2)" "ok f2" "stored f2 = F"
    using read_block [OF f1(2) refl, of b] ne f1(3,4) by (auto simp: bs_def)
  obtain g1 where g1: "wseek (?q * b) g = Some (0, g1)" "wok g1" "held g1 = held g" "wplace g1 = ?q * b"
    using wseek_block [OF Suc.prems(6), of "?q * b"] by blast
  obtain g2 where g2: "put bs g1 = Some g2" "wok g2" "held g2 = overwrite (?q * b) bs (held g)"
    using write_block [OF g1(2) ne] g1(3,4) by auto
  have "length (held g2) \<le> m * b" using Suc.prems(7) room(2) len by (simp add: g2(3) length_overwrite)
  with left Suc.prems(3) obtain f3 g3 where
    run: "reorder_loop read seek put wseek (length F) b rands ?p k f2 g2 = Some (f3, g3)" "wok g3"
      "fills ?F {x. x < m * b \<and> x div b \<in> set (take k ?p)} (held g2) (held g3)"
    using Suc.IH [of ?p f2 g2] f2(2,3) g2(2) Suc.prems(1) by auto
  have "reorder_loop read seek put wseek (length F) b rands permute (Suc k) f g = Some (f3, g3)"
    using am f1(1) f2(1) g1(1) g2(1) run(1) assms(1) len by (simp add: Let_def)
  moreover have "fills ?F {x. x < m * b \<and> x div b \<in> set (take (Suc k) permute)} (held g) (held g3)"
  proof -
    have lenF: "length ?F = m * b" using assms(2) by simp
    have block: "{?q * b ..< min (length ?F) (?q * b + b)} = {x. x div b = ?q}"
      unfolding lenF min_absorb2 [OF room(2)] by (rule block_bytes [OF assms(1)])
    have all: "{x. x < m * b \<and> x div b \<in> set (take (Suc k) permute)} =
        {x. x div b = ?q} \<union> {x. x < m * b \<and> x div b \<in> set (take k ?p)}"
    proof (rule set_eqI)
      fix x
      have "x div b = ?q \<Longrightarrow> x < m * b"
        using block_bytes [OF assms(1), of ?q] room(2) by (fastforce intro: less_le_trans)
      then show "x \<in> {x. x < m * b \<and> x div b \<in> set (take (Suc k) permute)} \<longleftrightarrow>
          x \<in> {x. x div b = ?q} \<union> {x. x < m * b \<and> x div b \<in> set (take k ?p)}"
        unfolding left(2) using \<open>?q \<in> set (take (Suc k) permute)\<close>
        by (cases "x div b = ?q") simp_all
    qed
    have "fills ?F ({?q * b ..< min (length ?F) (?q * b + b)} \<union>
        {x. x < m * b \<and> x div b \<in> set (take k ?p)}) (held g) (held g3)"
    proof (rule fills_block)
      show "bs = take b (drop (?q * b) ?F)" using room(2) by (simp add: bs_def drop_take)
      show "length (held g) \<le> length ?F" "?q * b < length ?F"
        using Suc.prems(7) room(2) assms(1) lenF by linarith+
      show "fills ?F {x. x < m * b \<and> x div b \<in> set (take k ?p)} (overwrite (?q * b) bs (held g)) (held g3)"
        using run(3) by (simp only: g2(3))
      show "{?q * b ..< min (length ?F) (?q * b + b)} \<inter> {x. x < m * b \<and> x div b \<in> set (take k ?p)} = {}"
        unfolding block left(2) by auto
    qed
    then show ?thesis unfolding all block .
  qed
  ultimately show ?case using run(2) by blast
qed

lemma reorder_whole:
  assumes "0 < b" "length F < 2 ^ 63" "length F div b \<le> 30 * 2 ^ 20"
    and args: "block_options args 4096 83419 = (b, seed, rest)"
    and f: "ok f" "stored f = F" and g: "wok g" "held g = []"
  shows "\<exists>f' g'. reordercat61 read seek put wseek rands args (int (length F)) f g = Some (True, f', g') \<and>
    held g' = take (length F div b * b) F"
proof -
  let ?m = "length F div b"
  obtain g1 where g1: "wseek 0 g = Some (0, g1)" "wok g1" "held g1 = []"
    using wseek_block [OF g(1), of 0] g(2) by auto
  have "\<exists>f' g'. reorder_loop read seek put wseek (length F) b (rands seed) [0..<?m] ?m f g1 = Some (f', g') \<and> wok g' \<and>
      fills (take (?m * b) F) {x. x < ?m * b \<and> x div b \<in> set (take ?m [0..<?m])} (held g1) (held g')"
    by (rule reorder_copies) (use assms g1 in auto)
  then obtain f' g' where run: "reorder_loop read seek put wseek (length F) b (rands seed) [0..<?m] ?m f g1 = Some (f', g')"
    and fl: "fills (take (?m * b) F) {x. x < ?m * b \<and> x div b \<in> set (take ?m [0..<?m])} [] (held g')"
    using g1(3) by auto
  have set: "{x. x < ?m * b \<and> x div b \<in> set (take ?m [0..<?m])} = {..< ?m * b}"
    by (auto simp: less_mult_imp_div_less)
  have len: "length (take (?m * b) F) = ?m * b" by simp
  have "length (held g') = ?m * b"
  proof (cases "?m * b = 0")
    case True
    then show ?thesis using fl by (auto simp: fills_def)
  next
    case False
    then have "?m * b - 1 < length (held g')" using fl unfolding set by (auto simp: fills_def)
    moreover have "length (held g') \<le> ?m * b" using fl by (simp add: fills_def)
    ultimately show ?thesis by linarith
  qed
  then have "held g' = take (?m * b) F"
    using fl len unfolding set by (intro nth_equalityI) (auto simp: fills_def)
  then show ?thesis using run g1(1) assms(1,3) by (simp add: reordercat61_def args)
qed

lemma random_copies:
  "ok f \<Longrightarrow> wok g \<Longrightarrow> wplace g = length (held g) \<Longrightarrow> 0 < b \<Longrightarrow>
    \<exists>f' g'. random_loop read put b rands i f g = Some (f', g') \<and>
      held g' = held g @ drop (place f) (stored f)"
proof (induction "length (stored f) - place f" arbitrary: f g i rule: less_induct)
  case less
  let ?m = "rands i mod b" let ?n = "if ?m \<noteq> 0 then ?m else 1"
  show ?case
  proof (cases "place f < length (stored f)")
    case False
    then obtain r f' where "read ?n f = Some (r, [], f')" "r \<le> 0"
      using read_end [OF less.prems(1), of ?n] by auto
    then show ?thesis using False by (subst random_loop.simps) simp
  next
    case True
    define bs where "bs = take ?n (drop (place f) (stored f))"
    have ne: "bs \<noteq> []" using True by (simp add: bs_def)
    obtain f1 where f1: "read ?n f = Some (int (length bs), bs, f1)" "ok f1" "stored f1 = stored f"
      "place f1 = place f + length bs"
      using read_block [OF less.prems(1) bs_def ne] by blast
    obtain g1 where g1: "put bs g = Some g1" "wok g1" "held g1 = held g @ bs" "wplace g1 = length (held g1)"
      using write_block [OF less.prems(2) ne] less.prems(3) by (auto simp: overwrite_end)
    have "length (stored f1) - place f1 < length (stored f) - place f"
      using True ne f1(3,4) by (cases bs) auto
    from less.hyps [OF this f1(2) g1(2,4) less.prems(4), of "i + 1"] obtain f2 g2 where
      run: "random_loop read put b rands (i + 1) f1 g1 = Some (f2, g2)"
        "held g2 = held g1 @ drop (place f1) (stored f1)" by blast
    have "bs @ drop (place f + length bs) (stored f) = drop (place f) (stored f)"
      unfolding bs_def by (rule take_drop_rest)
    then show ?thesis
      using run f1 g1 ne by (subst random_loop.simps) (simp split: if_splits)
  qed
qed

end

section \<open>The unbuffered library\<close>

lemma slow_read_loop_take:
  "length acc + k = sz \<Longrightarrow> bs = take k (drop (fpos d) (contents d)) \<Longrightarrow>
    \<exists>d'. slow_read_loop sz acc d = Some (acc @ bs, d') \<and> regular d' = regular d \<and> contents d' = contents d \<and>
      fpos d' = fpos d + length bs"
proof (induction k arbitrary: acc d bs)
  case 0
  then show ?case by (subst slow_read_loop.simps) simp
next
  case (Suc k)
  show ?case
  proof (cases "fpos d < length (contents d)")
    case True
    let ?d = "d\<lparr>fpos := fpos d + 1, chunks := tl (chunks d)\<rparr>" and ?b = "contents d ! fpos d"
    have bs: "bs = ?b # take k (drop (fpos ?d) (contents ?d))"
      using Suc.prems(2) True by (simp add: Cons_nth_drop_Suc [symmetric])
    have "uint ?b \<noteq> EOF" by (simp add: EOF_def) (metis uint_ge_0 not_less neg_less_0_iff_less zero_less_one)
    then have "slow_read_loop sz acc d = slow_read_loop sz (acc @ [?b]) ?d"
      using Suc.prems(1) by (subst slow_read_loop.simps) (simp add: slow_readc_byte [OF True])
    moreover have "\<exists>d'. slow_read_loop sz (acc @ [?b]) ?d = Some ((acc @ [?b]) @ tl bs, d') \<and> regular d' = regular ?d \<and>
        contents d' = contents ?d \<and> fpos d' = fpos ?d + length (tl bs)"
      using Suc.prems(1) by (intro Suc.IH) (simp_all add: bs)
    ultimately show ?thesis using bs by auto
  next
    case False
    then have "bs = []" using Suc.prems(2) by simp
    then show ?thesis
      using False Suc.prems(1) by (subst slow_read_loop.simps) (simp add: slow_readc_eof)
  qed
qed

lemma slow_write_loop_overwrite:
  "contents (slow_write_loop bs d) = (if bs = [] then contents d else overwrite (fpos d) bs (contents d)) \<and>
     fpos (slow_write_loop bs d) = fpos d + length bs \<and> regular (slow_write_loop bs d) = regular d"
proof (induction bs arbitrary: d)
  case (Cons b bs)
  have "slow_writec (sint b) d = d\<lparr>contents := overwrite (fpos d) [b] (contents d), fpos := fpos d + 1\<rparr>"
    by (simp add: slow_writec_def sys_write_def overwrite_def Let_def)
  then show ?case using Cons overwrite_Cons [of bs "fpos d" b "contents d"] by auto
qed simp

interpretation slow: strided slow_read slow_seek contents fpos regular
    "\<lambda>bs d. Some (snd (slow_write bs d))" slow_seek contents fpos regular
proof
  fix d :: os_fd and n :: nat and bs assume "regular d" "bs = take n (drop (fpos d) (contents d))" "bs \<noteq> []"
  then show "\<exists>d'. slow_read n d = Some (int (length bs), bs, d') \<and> regular d' \<and>
      contents d' = contents d \<and> fpos d' = fpos d + length bs"
    using slow_read_loop_take [of "[]" n n bs d] by (auto simp: slow_read_def)
next
  fix d :: os_fd and n :: nat assume "regular d" "length (contents d) \<le> fpos d"
  then show "\<exists>r d'. slow_read n d = Some (r, [], d') \<and> r \<le> 0 \<and> regular d'"
    using slow_read_loop_take [of "[]" n n "[]" d] by (auto simp: slow_read_def)
qed (auto simp: slow_seek_def sys_lseek_def slow_write_def slow_write_loop_overwrite)

definition input_file :: "u8 list \<Rightarrow> os_fd" where
  "input_file bs = \<lparr>contents = bs, fpos = 0, regular = True, chunks = []\<rparr>"

definition slow_put :: "u8 list \<Rightarrow> os_fd \<Rightarrow> os_fd option" where
  "slow_put bs d = Some (snd (slow_write bs d))"

text \<open>Stride and back on the unbuffered library.\<close>

lemma stridecat61_slow:
  assumes "length F + s < 2 ^ 63" "0 < b" "b \<le> s" "block_options args 1 1024 = (b, s, rest)"
  shows "\<exists>f' g' f2 g2.
    stridecat61 slow_read slow_seek slow_put args (sys_filesize (input_file F)) (input_file F) (input_file []) =
      Some (True, f', g') \<and> length (contents g') = length F \<and>
    ostridecat61 slow_read slow_put slow_seek args (sys_filesize g') (input_file (contents g')) (input_file []) =
      Some (True, f2, g2) \<and> contents g2 = F"
proof -
  have put: "slow_put = (\<lambda>bs d. Some (snd (slow_write bs d)))" by (simp add: slow_put_def fun_eq_iff)
  have "\<exists>f' g'. stridecat61 slow_read slow_seek slow_put args (int (length F)) (input_file F) (input_file []) =
      Some (True, f', g') \<and> regular g' \<and> length (contents g') = length F \<and>
    (\<forall>f2 g2. regular f2 \<longrightarrow> contents f2 = contents g' \<longrightarrow> fpos f2 = 0 \<longrightarrow> regular g2 \<longrightarrow>
      contents g2 = [] \<longrightarrow> (\<exists>f3 g3. ostridecat61 slow_read slow_put slow_seek args (int (length F)) f2 g2 =
        Some (True, f3, g3) \<and> regular g3 \<and> contents g3 = F))"
    unfolding put by (rule slow.round_trip [OF assms]) (simp_all add: input_file_def)
  then obtain f' g' where
    g': "stridecat61 slow_read slow_seek slow_put args (int (length F)) (input_file F) (input_file []) =
        Some (True, f', g')" "regular g'" "length (contents g') = length F"
    and again: "\<And>f2 g2. regular f2 \<Longrightarrow> contents f2 = contents g' \<Longrightarrow> fpos f2 = 0 \<Longrightarrow> regular g2 \<Longrightarrow>
      contents g2 = [] \<Longrightarrow> \<exists>f3 g3. ostridecat61 slow_read slow_put slow_seek args (int (length F)) f2 g2 =
        Some (True, f3, g3) \<and> regular g3 \<and> contents g3 = F" by blast
  have sz: "sys_filesize (input_file F) = int (length F)" "sys_filesize g' = int (length F)"
    using g'(2,3) by (simp_all add: sys_filesize_def input_file_def)
  show ?thesis
    using again [of "input_file (contents g')" "input_file []"] g' sz by (auto simp: input_file_def)
qed

text \<open>
  \<open>reordercat61\<close> copies the whole blocks of a file, whatever \<open>random\<close> returns, and leaves out the
  bytes behind the last whole block; \<open>randomcat61\<close> copies the file.
\<close>

theorem reordercat61_blocks:
  assumes "block_options args 4096 83419 = (b, seed, rest)"
    and "0 < b" "length F < 2 ^ 63" "length F div b \<le> 30 * 2 ^ 20"
  shows "\<exists>f' g'. reordercat61 slow_read slow_seek slow_put slow_seek rands args (int (length F))
      (input_file F) (input_file []) = Some (True, f', g') \<and> contents g' = take (length F div b * b) F"
proof -
  have put: "slow_put = (\<lambda>bs d. Some (snd (slow_write bs d)))" by (simp add: slow_put_def fun_eq_iff)
  show ?thesis unfolding put by (rule slow.reorder_whole [OF assms(2-4,1)]) (simp_all add: input_file_def)
qed

theorem randomcat61_copies:
  assumes "block_options args 4096 83419 = (b, seed, rest)" "0 < b"
  shows "\<exists>f' g'. randomcat61 slow_read slow_put rands args (input_file F) (input_file []) = Some (f', g') \<and>
    contents g' = F"
proof -
  have put: "slow_put = (\<lambda>bs d. Some (snd (slow_write bs d)))" by (simp add: slow_put_def fun_eq_iff)
  show ?thesis
    unfolding put using slow.random_copies [of "input_file F" "input_file []" b "rands seed" 0] assms
    by (simp add: input_file_def randomcat61_def)
qed

end
