(* ===== verification/Stdio61.thy ===== *)
theory Stdio61
  imports StridedProps Io61Props
begin

text \<open>
  The io61 interface over the streams of the C library (\<open>pset4/stdio-io61.c\<close>), and its agreement
  with the unbuffered library.
\<close>

section \<open>Streams of the C library\<close>

text \<open>
  A stream: its descriptor, whose offset is where the next read or the first buffered byte
  goes, the bytes written but not handed to the operating system, the end-of-file and error
  indicators, and after how many buffered bytes the library sends them by itself, which the
  standard leaves open.
\<close>

record stream =
  s_fd :: os_fd
  s_mode :: open_mode
  s_pending :: "u8 list"
  s_eof :: bool
  s_error :: bool
  s_sends :: "nat \<Rightarrow> bool"

definition fdopen :: "(nat \<Rightarrow> bool) \<Rightarrow> os_fd \<Rightarrow> open_mode \<Rightarrow> stream" where
  "fdopen sends d m = \<lparr>s_fd = d, s_mode = m, s_pending = [], s_eof = False, s_error = False, s_sends = sends\<rparr>"

definition fflush :: "stream \<Rightarrow> int \<times> stream" where
  "fflush f = (0, if s_pending f = [] then f else f\<lparr>s_fd := sys_write (s_pending f) (s_fd f), s_pending := []\<rparr>)"

definition fgetc :: "stream \<Rightarrow> int \<times> stream" where
  "fgetc f =
     (let d = s_fd f in
      if s_mode f = O_WRONLY then (EOF, f\<lparr>s_error := True\<rparr>)
      else if fpos d < length (contents d) then (uint (contents d ! fpos d), f\<lparr>s_fd := d\<lparr>fpos := fpos d + 1\<rparr>\<rparr>)
      else (EOF, f\<lparr>s_eof := True\<rparr>))"

definition fread :: "nat \<Rightarrow> stream \<Rightarrow> u8 list \<times> stream" where
  "fread n f =
     (let d = s_fd f; bs = take n (drop (fpos d) (contents d)) in
      if s_mode f = O_WRONLY then ([], f\<lparr>s_error := True\<rparr>)
      else (bs, f\<lparr>s_fd := d\<lparr>fpos := fpos d + length bs\<rparr>, s_eof := s_eof f \<or> length bs < n\<rparr>))"

text \<open>\<open>fwrite\<close> returns the number of bytes it has taken.\<close>

definition fwrite :: "u8 list \<Rightarrow> stream \<Rightarrow> nat \<times> stream" where
  "fwrite bs f =
     (if s_mode f = O_RDONLY then (0, f\<lparr>s_error := True\<rparr>)
      else let f = f\<lparr>s_pending := s_pending f @ bs\<rparr> in
        (length bs, if s_sends f (length (s_pending f)) then snd (fflush f) else f))"

definition fputc :: "int \<Rightarrow> stream \<Rightarrow> int \<times> stream" where
  "fputc ch f =
     (let b = word_of_int ch; (n, f) = fwrite [b] f in (if n = 1 then uint b else EOF, f))"

definition fseek :: "nat \<Rightarrow> stream \<Rightarrow> int \<times> stream" where
  "fseek pos f =
     (let (_, f) = fflush f; (r, d) = sys_lseek pos (s_fd f); f = f\<lparr>s_fd := d\<rparr> in
      if r = - 1 then (- 1, f) else (0, f\<lparr>s_eof := False\<rparr>))"

definition fclose :: "stream \<Rightarrow> int \<times> stream" where
  "fclose f = fflush f"

section \<open>The library\<close>

definition stdio_fdopen :: "(nat \<Rightarrow> bool) \<Rightarrow> os_fd \<Rightarrow> open_mode \<Rightarrow> stream" where
  "stdio_fdopen sends d m = fdopen sends d m"

definition stdio_flush :: "stream \<Rightarrow> int \<times> stream" where
  "stdio_flush f = fflush f"

definition stdio_close :: "stream \<Rightarrow> int \<times> stream" where
  "stdio_close f = (let (_, f) = stdio_flush f in fclose f)"

definition stdio_readc :: "stream \<Rightarrow> int \<times> stream" where
  "stdio_readc f = fgetc f"

definition stdio_writec :: "int \<Rightarrow> stream \<Rightarrow> int \<times> stream" where
  "stdio_writec ch f = fputc ch f"

text \<open>The result of \<open>ferror\<close> is 1 where the indicator is set.\<close>

definition stdio_count :: "nat \<Rightarrow> stream \<Rightarrow> int" where
  "stdio_count n f = (if n \<noteq> 0 then int n else if s_eof f then 0 else if s_error f then 1 else 0)"

definition stdio_read :: "nat \<Rightarrow> stream \<Rightarrow> int \<times> u8 list \<times> stream" where
  "stdio_read sz f = (let (bs, f) = fread sz f in (stdio_count (length bs) f, bs, f))"

definition stdio_write :: "u8 list \<Rightarrow> stream \<Rightarrow> int \<times> stream" where
  "stdio_write bs f = (let (n, f) = fwrite bs f in (stdio_count n f, f))"

definition stdio_seek :: "nat \<Rightarrow> stream \<Rightarrow> int \<times> stream" where
  "stdio_seek pos f = fseek pos f"

definition stdio_filesize :: "stream \<Rightarrow> int" where
  "stdio_filesize f = sys_filesize (s_fd f)"

definition stdio_open_check :: "(nat \<Rightarrow> bool) \<Rightarrow> (int \<Rightarrow> os_fd) \<Rightarrow> (string \<Rightarrow> open_mode \<Rightarrow> int) \<Rightarrow>
    string option \<Rightarrow> open_mode \<Rightarrow> int + stream" where
  "stdio_open_check sends fds open_file filename m =
     (let fd = (case filename of Some name \<Rightarrow> open_file name m
                | None \<Rightarrow> if m = O_RDONLY then STDIN_FILENO else STDOUT_FILENO) in
      if fd < 0 then Inl 1 else Inr (stdio_fdopen sends (fds fd) m))"

section \<open>What is in a stream\<close>

text \<open>The contents and the offset of the file once everything written has arrived.\<close>

definition held :: "stream \<Rightarrow> u8 list" where
  "held f = (if s_pending f = [] then contents (s_fd f)
     else overwrite (fpos (s_fd f)) (s_pending f) (contents (s_fd f)))"

definition offset :: "stream \<Rightarrow> nat" where
  "offset f = fpos (s_fd f) + length (s_pending f)"

definition idle :: "stream \<Rightarrow> bool" where
  "idle f \<longleftrightarrow> s_mode f = O_RDONLY \<and> s_pending f = []"

lemma sys_write_overwrite:
  "contents (sys_write bs d) = overwrite (fpos d) bs (contents d)" "fpos (sys_write bs d) = fpos d + length bs"
  "regular (sys_write bs d) = regular d"
  by (simp_all add: sys_write_def overwrite_def Let_def)

lemma overwrite_append:
  "xs \<noteq> [] \<Longrightarrow> ys \<noteq> [] \<Longrightarrow> overwrite (p + length xs) ys (overwrite p xs old) = overwrite p (xs @ ys) old"
proof (induction xs arbitrary: p old)
  case (Cons x xs)
  show ?case
  proof (cases "xs = []")
    case True
    then show ?thesis using overwrite_Cons [OF Cons.prems(2), of p x old] by simp
  next
    case False
    have "overwrite p (x # xs) old = overwrite (p + 1) xs (overwrite p [x] old)" using overwrite_Cons [OF False] by simp
    then have "overwrite (p + length (x # xs)) ys (overwrite p (x # xs) old) =
        overwrite (p + 1 + length xs) ys (overwrite (p + 1) xs (overwrite p [x] old))" by simp
    also have "\<dots> = overwrite (p + 1) (xs @ ys) (overwrite p [x] old)" by (rule Cons.IH [OF False Cons.prems(2)])
    also have "\<dots> = overwrite p ((x # xs) @ ys) old" using False overwrite_Cons [of "xs @ ys" p x old] by simp
    finally show ?thesis .
  qed
qed simp

lemma flushed:
  "fst (fflush f) = 0" "s_pending (snd (fflush f)) = []" "contents (s_fd (snd (fflush f))) = held f"
  "fpos (s_fd (snd (fflush f))) = offset f" "regular (s_fd (snd (fflush f))) = regular (s_fd f)"
  "held (snd (fflush f)) = held f" "offset (snd (fflush f)) = offset f" "s_mode (snd (fflush f)) = s_mode f"
  "s_error (snd (fflush f)) = s_error f"
  by (simp_all add: fflush_def held_def offset_def sys_write_overwrite)

text \<open>What \<open>fwrite\<close> does, whether or not the library sends its buffer.\<close>

lemma fwrite_held:
  assumes "s_mode f = O_WRONLY"
  shows "fst (fwrite bs f) = length bs" "held (snd (fwrite bs f)) = (if bs = [] then held f else overwrite (offset f) bs (held f))"
    "offset (snd (fwrite bs f)) = offset f + length bs" "regular (s_fd (snd (fwrite bs f))) = regular (s_fd f)"
    "s_mode (snd (fwrite bs f)) = O_WRONLY" "s_error (snd (fwrite bs f)) = s_error f"
proof -
  let ?f = "f\<lparr>s_pending := s_pending f @ bs\<rparr>"
  have h: "held ?f = (if bs = [] then held f else overwrite (offset f) bs (held f))"
    using overwrite_append [of "s_pending f" bs] by (simp add: held_def offset_def)
  have o: "offset ?f = offset f + length bs" by (simp add: offset_def)
  show "fst (fwrite bs f) = length bs" "held (snd (fwrite bs f)) = (if bs = [] then held f else overwrite (offset f) bs (held f))"
    "offset (snd (fwrite bs f)) = offset f + length bs" "regular (s_fd (snd (fwrite bs f))) = regular (s_fd f)"
    "s_mode (snd (fwrite bs f)) = O_WRONLY" "s_error (snd (fwrite bs f)) = s_error f"
    using h o flushed [of ?f] flushed [of f] assms by (simp_all add: fwrite_def Let_def)
qed

lemma fseek_held:
  "fst (fseek pos f) = (if regular (s_fd f) then 0 else - 1)" "held (snd (fseek pos f)) = held f"
  "offset (snd (fseek pos f)) = (if regular (s_fd f) then pos else offset f)"
  "regular (s_fd (snd (fseek pos f))) = regular (s_fd f)" "s_mode (snd (fseek pos f)) = s_mode f"
  "s_pending (snd (fseek pos f)) = []" "s_error (snd (fseek pos f)) = s_error f"
  using flushed [of f] by (simp_all add: fseek_def sys_lseek_def split_beta Let_def held_def offset_def)

section \<open>Programs\<close>

text \<open>A stream for reading holds the file itself; one for writing at its end grows at its end.\<close>

lemma held_idle: "idle f \<Longrightarrow> held f = contents (s_fd f) \<and> offset f = fpos (s_fd f)"
  by (simp add: idle_def held_def offset_def)

lemma readc_idle:
  assumes "idle f"
  shows "fst (stdio_readc f) = (if offset f < length (held f) then uint (held f ! offset f) else EOF)"
    "idle (snd (stdio_readc f))" "held (snd (stdio_readc f)) = held f"
    "offset (snd (stdio_readc f)) = (if offset f < length (held f) then offset f + 1 else offset f)"
    "regular (s_fd (snd (stdio_readc f))) = regular (s_fd f)" "s_error (snd (stdio_readc f)) = s_error f"
  using assms by (simp_all add: stdio_readc_def fgetc_def idle_def held_def offset_def Let_def)

lemma read_idle:
  assumes "idle f" "\<not> s_error f" and bs: "bs = take n (drop (offset f) (held f))"
  obtains f' where "stdio_read n f = (int (length bs), bs, f')" "idle f'" "\<not> s_error f'" "held f' = held f"
    "offset f' = offset f + length bs" "regular (s_fd f') = regular (s_fd f)"
proof (rule that)
  let ?d = "(s_fd f)\<lparr>fpos := fpos (s_fd f) + length bs\<rparr>"
  let ?f = "f\<lparr>s_fd := ?d, s_eof := s_eof f \<or> length bs < n\<rparr>"
  have "bs = take n (drop (fpos (s_fd f)) (contents (s_fd f)))" using held_idle [OF assms(1)] bs by simp
  then have "fread n f = (bs, ?f)" using assms(1) by (simp add: fread_def idle_def Let_def)
  then show "stdio_read n f = (int (length bs), bs, ?f)"
    using assms(2) by (simp add: stdio_read_def stdio_count_def)
  show "idle ?f" "\<not> s_error ?f" "held ?f = held f" "offset ?f = offset f + length bs" "regular (s_fd ?f) = regular (s_fd f)"
    using assms(1,2) by (simp_all add: idle_def held_def offset_def)
qed

definition at_end :: "stream \<Rightarrow> bool" where
  "at_end f \<longleftrightarrow> s_mode f = O_WRONLY \<and> offset f = length (held f)"

lemma writec_held:
  assumes "s_mode f = O_WRONLY"
  shows "fst (stdio_writec ch f) = uint (word_of_int ch :: u8)"
    "held (snd (stdio_writec ch f)) = overwrite (offset f) [word_of_int ch] (held f)"
    "offset (snd (stdio_writec ch f)) = offset f + 1" "regular (s_fd (snd (stdio_writec ch f))) = regular (s_fd f)"
    "s_mode (snd (stdio_writec ch f)) = O_WRONLY" "s_error (snd (stdio_writec ch f)) = s_error f"
  using fwrite_held [OF assms, of "[word_of_int ch]"] by (simp_all add: stdio_writec_def fputc_def split_beta Let_def)

lemma write_held:
  assumes "s_mode f = O_WRONLY" "\<not> s_error f"
  shows "fst (stdio_write bs f) = int (length bs)"
    "held (snd (stdio_write bs f)) = (if bs = [] then held f else overwrite (offset f) bs (held f))"
    "offset (snd (stdio_write bs f)) = offset f + length bs" "regular (s_fd (snd (stdio_write bs f))) = regular (s_fd f)"
    "s_mode (snd (stdio_write bs f)) = O_WRONLY" "\<not> s_error (snd (stdio_write bs f))"
  using fwrite_held [OF assms(1), of bs] assms(2) by (cases "bs = []"; simp add: stdio_write_def stdio_count_def split_beta Let_def)+

lemma close_held: "fst (stdio_close f) = 0" "contents (s_fd (snd (stdio_close f))) = held f"
  using flushed [of f] flushed [of "snd (fflush f)"] by (simp_all add: stdio_close_def stdio_flush_def fclose_def split_beta Let_def)

interpretation stdio: seek_copier "\<lambda>f. Some (stdio_readc f)" held offset "\<lambda>f. idle f \<and> regular (s_fd f)" uint
    "\<lambda>ch g. Some (snd (stdio_writec ch g))" held at_end "\<lambda>pos f. Some (stdio_seek pos f)"
proof
  fix f assume f: "idle f \<and> regular (s_fd f)"
  show "\<exists>f'. Some (stdio_readc f) = Some (uint (held f ! offset f), f') \<and> (idle f' \<and> regular (s_fd f')) \<and> held f' = held f \<and>
      offset f' = offset f + 1" if "offset f < length (held f)"
    using readc_idle [of f] f that by (intro exI [of _ "snd (stdio_readc f)"]) (simp add: prod_eq_iff)
  show "\<exists>f'. Some (stdio_readc f) = Some (EOF, f') \<and> (idle f' \<and> regular (s_fd f')) \<and> held f' = held f \<and> offset f' = offset f"
    if "length (held f) \<le> offset f"
    using readc_idle [of f] f that by (intro exI [of _ "snd (stdio_readc f)"]) (simp add: prod_eq_iff)
  show "\<exists>f'. Some (stdio_seek pos f) = Some (0, f') \<and> (idle f' \<and> regular (s_fd f')) \<and> held f' = held f \<and> offset f' = pos" for pos
    using fseek_held [of pos f] f by (intro exI [of _ "snd (fseek pos f)"]) (simp add: stdio_seek_def prod_eq_iff idle_def)
next
  fix g ch assume "at_end g"
  then show "\<exists>g'. Some (snd (stdio_writec ch g)) = Some g' \<and> at_end g' \<and> held g' = held g @ [word_of_int ch]"
    using writec_held [of g ch] by (simp add: at_end_def overwrite_end)
qed simp

interpretation stdio: strided "\<lambda>n f. Some (stdio_read n f)" "\<lambda>pos f. Some (stdio_seek pos f)" held offset
    "\<lambda>f. idle f \<and> \<not> s_error f \<and> regular (s_fd f)" "\<lambda>bs g. Some (snd (stdio_write bs g))" "\<lambda>pos f. Some (stdio_seek pos f)"
    held offset "\<lambda>g. s_mode g = O_WRONLY \<and> \<not> s_error g \<and> regular (s_fd g)"
proof
  fix f :: stream and n :: nat assume f: "idle f \<and> \<not> s_error f \<and> regular (s_fd f)"
  show "\<exists>f'. Some (stdio_read n f) = Some (int (length bs), bs, f') \<and> (idle f' \<and> \<not> s_error f' \<and> regular (s_fd f')) \<and>
      held f' = held f \<and> offset f' = offset f + length bs" if "bs = take n (drop (offset f) (held f))" for bs
    by (rule read_idle [of f bs n]) (use f that in auto)
  show "\<exists>r f'. Some (stdio_read n f) = Some (r, [], f') \<and> r \<le> 0 \<and> idle f' \<and> \<not> s_error f' \<and> regular (s_fd f')"
    if "length (held f) \<le> offset f"
    by (rule read_idle [of f "[]" n]) (use f that in auto)
  show "\<exists>f'. Some (stdio_seek pos f) = Some (0, f') \<and> (idle f' \<and> \<not> s_error f' \<and> regular (s_fd f')) \<and> held f' = held f \<and>
      offset f' = pos" for pos
    using fseek_held [of pos f] f by (intro exI [of _ "snd (fseek pos f)"]) (simp add: stdio_seek_def prod_eq_iff idle_def)
next
  fix g :: stream assume g: "s_mode g = O_WRONLY \<and> \<not> s_error g \<and> regular (s_fd g)"
  show "\<exists>g'. Some (snd (stdio_write bs g)) = Some g' \<and> (s_mode g' = O_WRONLY \<and> \<not> s_error g' \<and> regular (s_fd g')) \<and>
      held g' = overwrite (offset g) bs (held g) \<and> offset g' = offset g + length bs" if "bs \<noteq> []" for bs
    using write_held [of g bs] g that by simp
  show "\<exists>g'. Some (stdio_seek pos g) = Some (0, g') \<and> (s_mode g' = O_WRONLY \<and> \<not> s_error g' \<and> regular (s_fd g')) \<and> held g' = held g \<and>
      offset g' = pos" for pos
    using fseek_held [of pos g] g by (intro exI [of _ "snd (fseek pos g)"]) (simp add: stdio_seek_def prod_eq_iff)
qed

lemma opened_stdio:
  "idle (stdio_fdopen sends (disk_file xs) O_RDONLY)" "at_end (stdio_fdopen sends (disk_file []) O_WRONLY)"
  "held (stdio_fdopen sends (disk_file xs) m) = xs" "offset (stdio_fdopen sends (disk_file xs) m) = 0"
  "regular (s_fd (stdio_fdopen sends (disk_file xs) m))" "s_mode (stdio_fdopen sends (disk_file xs) m) = m"
  "\<not> s_error (stdio_fdopen sends (disk_file xs) m)"
  by (simp_all add: stdio_fdopen_def fdopen_def disk_file_def idle_def at_end_def held_def offset_def)

text \<open>\<open>cat61\<close> on streams delivers every file, a byte \<open>0xFF\<close> included.\<close>

lemma cat61_stdio:
  "\<exists>f g. cat61 (\<lambda>f. Some (stdio_readc f)) (\<lambda>ch g. Some (snd (stdio_writec ch g)))
      (stdio_fdopen sends (disk_file xs) O_RDONLY) (stdio_fdopen sends' (disk_file []) O_WRONLY) = Some (f, g) \<and>
    contents (s_fd (snd (stdio_close g))) = xs"
  using stdio.cat_copies [of "stdio_fdopen sends (disk_file xs) O_RDONLY" "stdio_fdopen sends' (disk_file []) O_WRONLY", OF _ _ refl]
  by (auto simp: opened_stdio close_held uint_EOF takeWhile_eq_all_conv)

lemma reverse61_stdio:
  "\<exists>f g. reverse61 (\<lambda>pos f. Some (stdio_seek pos f)) (\<lambda>f. Some (stdio_readc f)) (\<lambda>ch g. Some (snd (stdio_writec ch g)))
      (length xs) (stdio_fdopen sends (disk_file xs) O_RDONLY) (stdio_fdopen sends' (disk_file []) O_WRONLY) = Some (f, g) \<and>
    contents (s_fd (snd (stdio_close g))) = rev xs"
  using stdio.reverse_reverses [of "stdio_fdopen sends (disk_file xs) O_RDONLY" "stdio_fdopen sends' (disk_file []) O_WRONLY" "length xs"]
  by (auto simp: opened_stdio close_held)

text \<open>Stride and back on streams.\<close>

lemma stridecat61_stdio:
  assumes "length F + s < 2 ^ 63" "0 < b" "b \<le> s" "block_options args 1 1024 = (b, s, rest)"
  shows "\<exists>f' g'. stridecat61 (\<lambda>n f. Some (stdio_read n f)) (\<lambda>pos f. Some (stdio_seek pos f))
      (\<lambda>bs g. Some (snd (stdio_write bs g))) args (int (length F))
      (stdio_fdopen sends (disk_file F) O_RDONLY) (stdio_fdopen sends' (disk_file []) O_WRONLY) = Some (True, f', g') \<and>
    (\<exists>f3 g3. ostridecat61 (\<lambda>n f. Some (stdio_read n f)) (\<lambda>bs g. Some (snd (stdio_write bs g)))
      (\<lambda>pos f. Some (stdio_seek pos f)) args (int (length F))
      (stdio_fdopen sends (disk_file (contents (s_fd (snd (stdio_close g'))))) O_RDONLY)
      (stdio_fdopen sends' (disk_file []) O_WRONLY) = Some (True, f3, g3) \<and> contents (s_fd (snd (stdio_close g3))) = F)"
proof -
  let ?r = "\<lambda>n f. Some (stdio_read n f)" and ?s = "\<lambda>pos f. Some (stdio_seek pos f)"
    and ?w = "\<lambda>bs g. Some (snd (stdio_write bs g))"
  let ?f = "\<lambda>xs. stdio_fdopen sends (disk_file xs) O_RDONLY" and ?g = "stdio_fdopen sends' (disk_file []) O_WRONLY"
  have f: "idle (?f xs) \<and> \<not> s_error (?f xs) \<and> regular (s_fd (?f xs))" "held (?f xs) = xs" "offset (?f xs) = 0" for xs
    by (simp_all add: opened_stdio)
  have g: "s_mode ?g = O_WRONLY \<and> \<not> s_error ?g \<and> regular (s_fd ?g)" "held ?g = []" "offset ?g = 0"
    by (simp_all add: opened_stdio)
  obtain f' g' where g': "stridecat61 ?r ?s ?w args (int (length F)) (?f F) ?g = Some (True, f', g')"
    and again: "\<forall>f2 g2. (idle f2 \<and> \<not> s_error f2 \<and> regular (s_fd f2)) \<longrightarrow> held f2 = held g' \<longrightarrow> offset f2 = 0 \<longrightarrow>
      (s_mode g2 = O_WRONLY \<and> \<not> s_error g2 \<and> regular (s_fd g2)) \<longrightarrow> held g2 = [] \<longrightarrow>
      (\<exists>f3 g3. ostridecat61 ?r ?w ?s args (int (length F)) f2 g2 = Some (True, f3, g3) \<and>
         (s_mode g3 = O_WRONLY \<and> \<not> s_error g3 \<and> regular (s_fd g3)) \<and> held g3 = F)"
    using stdio.round_trip [OF assms f g] by (elim exE conjE) (rule that)
  have "\<exists>f3 g3. ostridecat61 ?r ?w ?s args (int (length F)) (?f (held g')) ?g = Some (True, f3, g3) \<and>
      (s_mode g3 = O_WRONLY \<and> \<not> s_error g3 \<and> regular (s_fd g3)) \<and> held g3 = F"
    using again f [of "held g'"] g by blast
  then show ?thesis unfolding close_held using g' by blast
qed

text \<open>
  C24: Stride and back, in the programs linked with the unbuffered library and with the streams of
  the C library (\<open>slow-\<close> and \<open>stdio-stridecat61\<close>, \<open>slow-\<close> and \<open>stdio-ostridecat61\<close>). For every file and
  every block size up to the stride, given as options, \<open>stridecat61\<close> returns and writes as many
  bytes as the file has, and \<open>ostridecat61\<close> with the same options, given that output, returns and
  writes the file itself, byte for byte. It is not true of the programs linked with \<open>io61.c\<close>,
  whose \<open>io61_read\<close> need not return (\<open>io61_read_hangs\<close>).
\<close>

theorem stride_roundtrip:
  assumes "block_options args 1 1024 = (b, s, rest)" and "length F + s < 2 ^ 63" "0 < b" "b \<le> s"
  shows "(\<exists>f' g' f2 g2.
      stridecat61 slow_read slow_seek slow_put args (sys_filesize (input_file F)) (input_file F) (input_file []) =
        Some (True, f', g') \<and> length (contents g') = length F \<and>
      ostridecat61 slow_read slow_put slow_seek args (sys_filesize g') (input_file (contents g')) (input_file []) =
        Some (True, f2, g2) \<and> contents g2 = F) \<and>
    (\<exists>f' g' f2 g2.
      stridecat61 (\<lambda>n f. Some (stdio_read n f)) (\<lambda>pos f. Some (stdio_seek pos f))
        (\<lambda>bs g. Some (snd (stdio_write bs g))) args (int (length F))
        (stdio_fdopen sends (disk_file F) O_RDONLY) (stdio_fdopen sends' (disk_file []) O_WRONLY) =
        Some (True, f', g') \<and>
      ostridecat61 (\<lambda>n f. Some (stdio_read n f)) (\<lambda>bs g. Some (snd (stdio_write bs g)))
        (\<lambda>pos f. Some (stdio_seek pos f)) args (int (length F))
        (stdio_fdopen sends (disk_file (contents (s_fd (snd (stdio_close g'))))) O_RDONLY)
        (stdio_fdopen sends' (disk_file []) O_WRONLY) =
        Some (True, f2, g2) \<and> contents (s_fd (snd (stdio_close g2))) = F)"
  using stridecat61_slow [OF assms(2-4,1)] stridecat61_stdio [OF assms(2-4,1)] by blast

theorem stride_roundtrip_witness:
  "\<exists>f' g' f2 g2.
    stridecat61 slow_read slow_seek slow_put [[45, 98], [50], [45, 115], [51]]
      (sys_filesize (input_file [1, 2, 3, 4, 5, 6, 7])) (input_file [1, 2, 3, 4, 5, 6, 7]) (input_file []) =
      Some (True, f', g') \<and>
    ostridecat61 slow_read slow_put slow_seek [[45, 98], [50], [45, 115], [51]] (sys_filesize g')
      (input_file (contents g')) (input_file []) = Some (True, f2, g2) \<and> contents g2 = [1, 2, 3, 4, 5, 6, 7]"
proof -
  have o: "block_options [[45, 98], [50], [45, 115], [51]] 1 1024 = (2, 3, [])"
    by (simp add: strtoul_def scan_unsigned_def isspace_def scan_sign_def isdigit_def digits_value_def
        decimal_def)
  have "length [1, 2, 3, 4, 5, 6, 7 :: u8] + 3 < 2 ^ 63" "0 < (2 :: nat)" "2 \<le> (3 :: nat)" by simp_all
  from conjunct1 [OF stride_roundtrip [OF o this]] show ?thesis by blast
qed

section \<open>Agreement with the unbuffered library\<close>

text \<open>The calls of a program on one file, and their results: a number and the bytes read.\<close>

datatype io_call = Readc | Read nat | Writec int | Write "u8 list" | Seek nat | Flush

fun stdio_call :: "io_call \<Rightarrow> stream \<Rightarrow> (int \<times> u8 list) \<times> stream" where
  "stdio_call Readc f = (let (r, f) = stdio_readc f in ((r, []), f))"
| "stdio_call (Read n) f = (let (r, bs, f) = stdio_read n f in ((r, bs), f))"
| "stdio_call (Writec ch) f = (let (r, f) = stdio_writec ch f in ((r, []), f))"
| "stdio_call (Write bs) f = (let (r, f) = stdio_write bs f in ((r, []), f))"
| "stdio_call (Seek pos) f = (let (r, f) = stdio_seek pos f in ((r, []), f))"
| "stdio_call Flush f = (let (r, f) = stdio_flush f in ((r, []), f))"

fun slow_call :: "io_call \<Rightarrow> os_fd \<Rightarrow> ((int \<times> u8 list) \<times> os_fd) option" where
  "slow_call Readc d = map_option (\<lambda>(r, d). ((r, []), d)) (slow_readc d)"
| "slow_call (Read n) d = map_option (\<lambda>(r, bs, d). ((r, bs), d)) (slow_read n d)"
| "slow_call (Writec ch) d = Some ((0, []), slow_writec ch d)"
| "slow_call (Write bs) d = (let (r, d) = slow_write bs d in Some ((r, []), d))"
| "slow_call (Seek pos) d = map_option (\<lambda>(r, d). ((r, []), d)) (slow_seek pos d)"
| "slow_call Flush d = Some ((0, []), d)"

primrec stdio_calls :: "io_call list \<Rightarrow> stream \<Rightarrow> (int \<times> u8 list) list \<times> stream" where
  "stdio_calls [] f = ([], f)"
| "stdio_calls (c # cs) f = (let (r, f) = stdio_call c f; (rs, f) = stdio_calls cs f in (r # rs, f))"

primrec slow_calls :: "io_call list \<Rightarrow> os_fd \<Rightarrow> ((int \<times> u8 list) list \<times> os_fd) option" where
  "slow_calls [] d = Some ([], d)"
| "slow_calls (c # cs) d = do {
     (r, d) \<leftarrow> slow_call c d;
     (rs, d) \<leftarrow> slow_calls cs d;
     Some (r # rs, d) }"

fun fits :: "open_mode \<Rightarrow> io_call \<Rightarrow> bool" where
  "fits m Readc \<longleftrightarrow> m = O_RDONLY"
| "fits m (Read n) \<longleftrightarrow> m = O_RDONLY"
| "fits m (Writec ch) \<longleftrightarrow> m = O_WRONLY"
| "fits m (Write bs) \<longleftrightarrow> m = O_WRONLY"
| "fits m (Seek pos) \<longleftrightarrow> True"
| "fits m Flush \<longleftrightarrow> True"

text \<open>
  Where the results differ: \<open>stdio-io61.c\<close> returns the character from \<open>io61_writec\<close>, not 0, and 0
  from \<open>io61_read\<close> at the end of the file, not \<open>-1\<close>.
\<close>

fun stdio_result :: "io_call \<Rightarrow> int \<times> u8 list \<Rightarrow> int \<times> u8 list" where
  "stdio_result (Writec ch) r = (uint (word_of_int ch :: u8), snd r)"
| "stdio_result (Read n) r = (max 0 (fst r), snd r)"
| "stdio_result c r = r"

definition same_file :: "stream \<Rightarrow> os_fd \<Rightarrow> bool" where
  "same_file f d \<longleftrightarrow> held f = contents d \<and> offset f = fpos d \<and> regular (s_fd f) = regular d \<and> \<not> s_error f
     \<and> (s_mode f = O_RDONLY \<longrightarrow> s_pending f = [])"

lemma slow_readc_result:
  obtains d' where "slow_readc d = Some (if fpos d < length (contents d) then uint (contents d ! fpos d) else EOF, d')"
    "contents d' = contents d" "regular d' = regular d" "fpos d' = (if fpos d < length (contents d) then fpos d + 1 else fpos d)"
proof (cases "fpos d < length (contents d)")
  case True
  then show thesis by (intro that [of "d\<lparr>fpos := fpos d + 1, chunks := tl (chunks d)\<rparr>"]) (simp_all add: slow_readc_byte)
next
  case False
  then show thesis by (intro that [of "d\<lparr>chunks := tl (chunks d)\<rparr>"]) (simp_all add: slow_readc_eof)
qed

lemma slow_read_result:
  assumes "bs = take n (drop (fpos d) (contents d))"
  obtains d' where "slow_read n d = Some (if bs = [] \<and> n \<noteq> 0 then - 1 else int (length bs), bs, d')"
    "contents d' = contents d" "regular d' = regular d" "fpos d' = fpos d + length bs"
  using slow_read_loop_take [of "[]" n n bs d] assms by (auto simp: slow_read_def)

lemma call_agrees:
  assumes s: "same_file f d" and c: "fits (s_mode f) c"
  shows "\<exists>r d'. slow_call c d = Some (r, d') \<and> fst (stdio_call c f) = stdio_result c r \<and>
    same_file (snd (stdio_call c f)) d' \<and> s_mode (snd (stdio_call c f)) = s_mode f"
proof -
  have f: "held f = contents d" "offset f = fpos d" "regular (s_fd f) = regular d" "\<not> s_error f"
    and p: "s_mode f = O_RDONLY \<Longrightarrow> idle f"
    using s by (simp_all add: same_file_def idle_def)
  show ?thesis
  proof (cases c)
    case Readc
    then have i: "idle f" using c p by simp
    obtain d' where d': "slow_readc d = Some (if fpos d < length (contents d) then uint (contents d ! fpos d) else EOF, d')"
      "contents d' = contents d" "regular d' = regular d" "fpos d' = (if fpos d < length (contents d) then fpos d + 1 else fpos d)"
      by (rule slow_readc_result)
    show ?thesis using readc_idle [OF i] f d' i
      by (simp add: Readc split_beta Let_def same_file_def idle_def)
  next
    case (Read n)
    then have i: "idle f" using c p by simp
    define bs where "bs = take n (drop (fpos d) (contents d))"
    obtain d' where d': "slow_read n d = Some (if bs = [] \<and> n \<noteq> 0 then - 1 else int (length bs), bs, d')"
      "contents d' = contents d" "regular d' = regular d" "fpos d' = fpos d + length bs"
      by (rule slow_read_result [OF bs_def])
    have "bs = take n (drop (offset f) (held f))" by (simp add: bs_def f)
    then obtain f' where f': "stdio_read n f = (int (length bs), bs, f')" "idle f'" "\<not> s_error f'" "held f' = held f"
      "offset f' = offset f + length bs" "regular (s_fd f') = regular (s_fd f)"
      by (rule read_idle [OF i f(4)])
    show ?thesis using f f' d' i by (simp add: Read same_file_def idle_def)
  next
    case (Writec ch)
    then have w: "s_mode f = O_WRONLY" using c by simp
    show ?thesis using writec_held [OF w, of ch] f w
      by (simp add: Writec split_beta Let_def same_file_def slow_writec_def sys_write_overwrite)
  next
    case (Write bs)
    then have w: "s_mode f = O_WRONLY" using c by simp
    show ?thesis using write_held [OF w f(4), of bs] f w slow_write_loop_overwrite [of bs d]
      by (simp add: Write split_beta Let_def same_file_def slow_write_def)
  next
    case (Seek pos)
    show ?thesis using fseek_held [of pos f] f
      by (simp add: Seek split_beta Let_def same_file_def stdio_seek_def slow_seek_def sys_lseek_def)
  next
    case Flush
    show ?thesis using flushed [of f] f by (simp add: Flush split_beta Let_def same_file_def stdio_flush_def)
  qed
qed

lemma calls_agree:
  "same_file f d \<Longrightarrow> list_all (fits (s_mode f)) cs \<Longrightarrow> \<exists>rs d'. slow_calls cs d = Some (rs, d') \<and>
    fst (stdio_calls cs f) = map2 stdio_result cs rs \<and> same_file (snd (stdio_calls cs f)) d'"
proof (induction cs arbitrary: f d)
  case (Cons c cs)
  obtain r d1 where r: "slow_call c d = Some (r, d1)" "fst (stdio_call c f) = stdio_result c r"
    "same_file (snd (stdio_call c f)) d1" "s_mode (snd (stdio_call c f)) = s_mode f"
    using call_agrees [OF Cons.prems(1), of c] Cons.prems(2) by auto
  then show ?case using Cons.IH [OF r(3)] Cons.prems(2) by (auto simp: split_beta Let_def)
qed simp

text \<open>
  C26: \<open>stdio-io61.c\<close> agrees with \<open>slow-io61.c\<close>. For every file or pipe, opened to read or to
  write, and every sequence of calls that fits the mode, both libraries read the same bytes,
  return the same results, but for the two that \<open>stdio_result\<close> names, and leave the same file
  when it is closed, whenever the C library sends its buffers.
\<close>

theorem stdio_agrees:
  assumes "list_all (fits m) cs"
  shows "\<exists>rs d'. slow_calls cs d = Some (rs, d') \<and>
    fst (stdio_calls cs (stdio_fdopen sends d m)) = map2 stdio_result cs rs \<and>
    contents (s_fd (snd (stdio_close (snd (stdio_calls cs (stdio_fdopen sends d m)))))) = contents d'"
proof -
  let ?f = "stdio_fdopen sends d m"
  have "same_file ?f d" "s_mode ?f = m"
    by (simp_all add: same_file_def stdio_fdopen_def fdopen_def held_def offset_def)
  then show ?thesis using calls_agree [of ?f d cs] assms by (auto simp: same_file_def close_held)
qed

theorem stdio_agrees_witness:
  "\<exists>rs d'. slow_calls [Write [1, 2], Writec 255, Seek 1, Write [7]] (disk_file []) = Some (rs, d') \<and> contents d' = [1, 7, 255]
     \<and> fst (stdio_calls [Write [1, 2], Writec 255, Seek 1, Write [7]] (stdio_fdopen (\<lambda>n. 3 \<le> n) (disk_file []) O_WRONLY)) =
         [(2, []), (255, []), (0, []), (1, [])]
     \<and> contents (s_fd (snd (stdio_close (snd (stdio_calls [Write [1, 2], Writec 255, Seek 1, Write [7]]
         (stdio_fdopen (\<lambda>n. 3 \<le> n) (disk_file []) O_WRONLY)))))) = [1, 7, 255]"
  using stdio_agrees [of O_WRONLY "[Write [1, 2], Writec 255, Seek 1, Write [7]]" "disk_file []" "\<lambda>n. 3 \<le> n"]
  by (auto simp: disk_file_def slow_write_def slow_writec_def sys_write_def slow_seek_def sys_lseek_def Let_def)

end
