(* ===== verification/Pipes.thy ===== *)
theory Pipes
  imports Prelude "HOL-Library.Sublist"
begin

text \<open>
  \<open>pset4/pipeexchange61.c\<close>: two processes that send each other messages over two pipes, on the
  unbuffered library \<open>slow-io61.c\<close>, which reads and writes one byte in each system call. A step
  of the system is one such call of one process, with what the process computes before the
  next. A pipe is the list of its bytes, at most \<open>capacity\<close> of them: writing to a full one and
  reading from an empty one wait. The parent keeps all ends of both pipes open, so neither the
  end of a file nor \<open>SIGPIPE\<close> occurs.
\<close>

section \<open>Messages\<close>

record message_set =
  request_batch :: nat
  request_size :: nat
  response_size :: nat

definition message_set :: "nat \<Rightarrow> nat \<Rightarrow> nat \<Rightarrow> message_set" where
  "message_set b q r = \<lparr>request_batch = b, request_size = q, response_size = r\<rparr>"

definition messages :: "message_set list" where
  "messages = [message_set 1 100 100, message_set 1 10000 10000, message_set 20 100 100,
     message_set 20 10000 10000, message_set 1 100 100, message_set 1 10000 10000,
     message_set 20 100 100, message_set 20 10000 10000]"

primrec max_size_loop :: "message_set list \<Rightarrow> nat \<Rightarrow> nat" where
  "max_size_loop [] sz = sz"
| "max_size_loop (m # ms) sz =
     (let sz = (if request_size m > sz then request_size m else sz);
          sz = (if response_size m > sz then response_size m else sz)
      in max_size_loop ms sz)"

definition max_message_size :: nat where
  "max_message_size = max_size_loop messages 0"

text \<open>A \<open>size_t\<close> in memory, lowest byte first.\<close>

primrec id_bytes_loop :: "nat \<Rightarrow> nat \<Rightarrow> u8 list" where
  "id_bytes_loop 0 i = []"
| "id_bytes_loop (Suc k) i = word_of_nat (i mod 256) # id_bytes_loop k (i div 256)"

definition id_bytes :: "u64 \<Rightarrow> u8 list" where
  "id_bytes i = id_bytes_loop 8 (unat i)"

primrec id_value :: "u8 list \<Rightarrow> nat" where
  "id_value [] = 0"
| "id_value (b # bs) = unat b + 256 * id_value bs"

definition id_of :: "u8 list \<Rightarrow> u64" where
  "id_of bs = word_of_nat (id_value (take 8 bs))"

section \<open>The two processes\<close>

text \<open>
  The reads and writes that a process still makes, in the order of its loops; \<open>io61_flush\<close> of the
  unbuffered library does nothing.
\<close>

datatype io_op = Write nat | Read nat

definition requester_phase :: "message_set \<Rightarrow> io_op list" where
  "requester_phase m = replicate (request_batch m) (Write (request_size m))
     @ replicate (request_batch m) (Read (response_size m))"

definition requester_ops :: "io_op list" where
  "requester_ops = concat (map requester_phase messages)"

definition responder_phase :: "message_set \<Rightarrow> io_op list" where
  "responder_phase m = concat (replicate (request_batch m) [Read (request_size m), Write (response_size m)])"

definition responder_ops :: "io_op list" where
  "responder_ops = concat (map responder_phase messages)"

text \<open>
  A process: its operations, the bytes done of the first, its buffer and, for the requester, the
  two identifiers; \<open>aborted\<close> when an assertion has failed.
\<close>

record side =
  todo :: "io_op list"
  nbytes :: nat
  msg_buf :: "u8 list"
  requestid :: u64
  responseid :: u64
  aborted :: bool

definition start_side :: "io_op list \<Rightarrow> side" where
  "start_side os = \<lparr>todo = os, nbytes = 0, msg_buf = replicate max_message_size 0, requestid = 0, responseid = 0,
     aborted = False\<rparr>"

text \<open>One byte of the first operation, of \<open>n\<close> bytes, is done.\<close>

definition byte_done :: "nat \<Rightarrow> side \<Rightarrow> side" where
  "byte_done n x = (if Suc (nbytes x) = n then x\<lparr>todo := tl (todo x), nbytes := 0\<rparr>
     else x\<lparr>nbytes := Suc (nbytes x)\<rparr>)"

definition get_byte :: "u8 \<Rightarrow> side \<Rightarrow> side" where
  "get_byte b x = x\<lparr>msg_buf := (msg_buf x)[nbytes x := b]\<rparr>"

text \<open>The requester numbers a request before it writes it, and checks the number of a response.\<close>

definition number_request :: "side \<Rightarrow> side" where
  "number_request x = (if nbytes x = 0
     then x\<lparr>msg_buf := id_bytes (requestid x) @ drop 8 (msg_buf x), requestid := requestid x + 1\<rparr> else x)"

definition check_response :: "side \<Rightarrow> side" where
  "check_response x = (if nbytes x \<noteq> 0 then x
     else if id_of (msg_buf x) = responseid x then x\<lparr>responseid := responseid x + 1\<rparr>
     else x\<lparr>aborted := True\<rparr>)"

record exchange =
  requester :: side
  responder :: side
  requests :: "u8 list"
  responses :: "u8 list"

definition start_exchange :: exchange where
  "start_exchange = \<lparr>requester = start_side requester_ops, responder = start_side responder_ops,
     requests = [], responses = []\<rparr>"

definition next_op :: "side \<Rightarrow> io_op option" where
  "next_op x = (if aborted x \<or> todo x = [] then None else Some (hd (todo x)))"

inductive exchange_step :: "nat \<Rightarrow> exchange \<Rightarrow> exchange \<Rightarrow> bool" for capacity where
  send_request: "next_op (requester s) = Some (Write n) \<Longrightarrow> length (requests s) < capacity \<Longrightarrow>
    x = number_request (requester s) \<Longrightarrow>
    exchange_step capacity s
      (s\<lparr>requester := byte_done n x, requests := requests s @ [msg_buf x ! nbytes x]\<rparr>)"
| receive_request: "next_op (responder s) = Some (Read n) \<Longrightarrow> requests s = b # bs \<Longrightarrow>
    exchange_step capacity s (s\<lparr>responder := byte_done n (get_byte b (responder s)), requests := bs\<rparr>)"
| send_response: "next_op (responder s) = Some (Write n) \<Longrightarrow> length (responses s) < capacity \<Longrightarrow>
    x = responder s \<Longrightarrow>
    exchange_step capacity s (s\<lparr>responder := byte_done n x, responses := responses s @ [msg_buf x ! nbytes x]\<rparr>)"
| receive_response: "next_op (requester s) = Some (Read n) \<Longrightarrow> responses s = b # bs \<Longrightarrow>
    exchange_step capacity s
      (s\<lparr>requester := check_response (byte_done n (get_byte b (requester s))), responses := bs\<rparr>)"

text \<open>\<open>exchange_run capacity n s\<close>: \<open>n\<close> system calls lead from the start to \<open>s\<close>.\<close>

inductive exchange_run :: "nat \<Rightarrow> nat \<Rightarrow> exchange \<Rightarrow> bool" for capacity where
  run_start: "exchange_run capacity 0 start_exchange"
| run_step: "exchange_run capacity n s \<Longrightarrow> exchange_step capacity s s' \<Longrightarrow> exchange_run capacity (Suc n) s'"

definition exchange_over :: "exchange \<Rightarrow> bool" where
  "exchange_over s \<longleftrightarrow> todo (requester s) = [] \<and> todo (responder s) = []
     \<and> \<not> aborted (requester s) \<and> \<not> aborted (responder s)"

text \<open>
  The parent polls its children, for five seconds: \<open>ds\<close> says for each poll whether \<open>waitpid\<close> finds
  the requester and the responder dead. A process identifier becomes -1 when it is; the others
  are killed in the end.
\<close>

primrec watch_children :: "(bool \<times> bool) list \<Rightarrow> int \<times> int \<Rightarrow> int \<times> int" where
  "watch_children [] ps = ps"
| "watch_children (d # ds) ps =
     (if fst ps > 0 \<or> snd ps > 0
      then watch_children ds (if fst ps > 0 \<and> fst d then - 1 else fst ps, if snd ps > 0 \<and> snd d then - 1 else snd ps)
      else ps)"

definition killed :: "int \<times> int \<Rightarrow> int list" where
  "killed ps = (if fst ps > 0 then [fst ps] else []) @ (if snd ps > 0 then [snd ps] else [])"

definition exchange_status :: "int \<times> int \<Rightarrow> int" where
  "exchange_status ps = (if fst ps < 0 \<and> snd ps < 0 then 0 else 1)"

end
