(* ===== verification/PipeProps.thy ===== *)
theory PipeProps
  imports Pipes
begin

text \<open>
  The exchange of \<open>pipeexchange61\<close>: what is in a pipe is what one process still has to read and
  the other has already written, so every response has the number expected; with pipes of
  200,000 bytes the exchange ends, with those of the operating system it never does.
\<close>

section \<open>The bytes still to come\<close>

primrec op_size :: "io_op \<Rightarrow> nat" where
  "op_size (Write n) = n"
| "op_size (Read n) = n"

primrec writes :: "io_op list \<Rightarrow> nat list" where
  "writes [] = []"
| "writes (a # os) = (case a of Write n \<Rightarrow> n # writes os | Read n \<Rightarrow> writes os)"

primrec reads :: "io_op list \<Rightarrow> nat list" where
  "reads [] = []"
| "reads (a # os) = (case a of Write n \<Rightarrow> reads os | Read n \<Rightarrow> n # reads os)"

definition shape :: "io_op list \<Rightarrow> bool" where
  "shape os \<longleftrightarrow> list_all (\<lambda>a. 8 \<le> op_size a \<and> op_size a \<le> 10000) os \<and> length (writes os) \<le> 84 \<and> length (reads os) \<le> 84"

lemma shape_tl: "shape (a # os) \<Longrightarrow> shape os"
  by (cases a) (simp_all add: shape_def)

lemma shape_hd: "shape (a # os) \<Longrightarrow> 8 \<le> op_size a \<and> op_size a \<le> 10000"
  by (simp add: shape_def)

lemma shape_suffix: "suffix os os' \<Longrightarrow> shape os' \<Longrightarrow> shape os"
  by (induction os') (auto simp: suffix_Cons dest: shape_tl)

lemma ops_append [simp]: "writes (xs @ ys) = writes xs @ writes ys" "reads (xs @ ys) = reads xs @ reads ys"
  by (induction xs) (simp_all split: io_op.split)

lemma ops_replicate [simp]:
  "writes (replicate k (Write n)) = replicate k n" "writes (replicate k (Read n)) = []"
  "reads (replicate k (Read n)) = replicate k n" "reads (replicate k (Write n)) = []"
  "writes (concat (replicate k [Read n, Write n])) = replicate k n"
  "reads (concat (replicate k [Read n, Write n])) = replicate k n"
  by (induction k) simp_all

lemma list_all_ops:
  "list_all P (replicate k a) \<longleftrightarrow> k = 0 \<or> P a" "list_all P (concat (replicate k as)) \<longleftrightarrow> k = 0 \<or> list_all P as"
  by (induction k) auto

lemmas ops_defs = requester_ops_def responder_ops_def requester_phase_def responder_phase_def messages_def message_set_def

lemma shape_ops: "shape requester_ops" "shape responder_ops"
  by (simp_all add: shape_def ops_defs list_all_ops)

lemma sizes_agree:
  "reads requester_ops = writes requester_ops" "reads responder_ops = writes requester_ops"
  "writes responder_ops = writes requester_ops" "length (writes requester_ops) = 84"
  "sum_list (writes requester_ops) = 424200"
  by (simp_all add: ops_defs sum_list_replicate)

text \<open>Message \<open>i\<close>, of \<open>n\<close> bytes: its number, then zeroes. Index \<open>i\<close> counts from the start.\<close>

definition message :: "nat \<Rightarrow> nat \<Rightarrow> u8 list" where
  "message i n = id_bytes (word_of_nat i) @ replicate (n - 8) 0"

primrec stream :: "nat \<Rightarrow> nat list \<Rightarrow> u8 list" where
  "stream i [] = []"
| "stream i (n # ns) = message i n @ stream (Suc i) ns"

definition index :: "nat list \<Rightarrow> nat" where "index ns = 84 - length ns"

definition remaining :: "nat list \<Rightarrow> nat \<Rightarrow> u8 list" where
  "remaining ns p = drop p (stream (index ns) ns)"

lemma length_id_bytes [simp]: "length (id_bytes i) = 8"
proof -
  have "length (id_bytes_loop k j) = k" for k j by (induction k arbitrary: j) simp_all
  then show ?thesis by (simp add: id_bytes_def)
qed

lemma length_message [simp]: "8 \<le> n \<Longrightarrow> length (message i n) = n"
  by (simp add: message_def)

lemma id_of_bytes: "take 8 bs = id_bytes i \<Longrightarrow> id_of bs = i"
proof -
  have "id_value (id_bytes_loop k j) = j mod 256 ^ k" for k j
  proof (induction k arbitrary: j)
    case (Suc k)
    have "j mod 256 + 256 * (j div 256 mod 256 ^ k) = j mod (256 * 256 ^ k)" by (simp add: mod_mult2_eq)
    moreover have "unat (word_of_nat (j mod 256) :: u8) = j mod 256" by (simp add: unat_of_nat)
    ultimately show ?case by (simp add: Suc)
  qed simp
  then have "id_value (id_bytes i) = unat i mod 256 ^ 8" by (simp only: id_bytes_def)
  also have "\<dots> = unat i" using unat_lt2p [of i] by simp
  finally show "take 8 bs = id_bytes i \<Longrightarrow> id_of bs = i" by (simp add: id_of_def)
qed

lemma remaining_Nil [simp]: "remaining [] p = []"
  by (simp add: remaining_def)

lemma remaining_Cons:
  assumes "8 \<le> n" "p < n" "length ns < 84"
  shows "remaining (n # ns) p = message (index (n # ns)) n ! p #
    (if Suc p = n then remaining ns 0 else remaining (n # ns) (Suc p))"
proof -
  have i: "Suc (index (n # ns)) = index ns" using assms(3) by (simp add: index_def)
  have "p < length (stream (index (n # ns)) (n # ns))" using assms by simp
  from Cons_nth_drop_Suc [OF this]
  have "remaining (n # ns) p = message (index (n # ns)) n ! p # remaining (n # ns) (Suc p)"
    using assms by (simp add: remaining_def nth_append)
  moreover have "remaining (n # ns) (Suc p) = remaining ns 0" if "Suc p = n"
    using that assms(1) by (simp add: remaining_def i)
  ultimately show ?thesis by simp
qed

lemma length_remaining:
  "list_all (\<lambda>n. 8 \<le> n) ns \<Longrightarrow> length (remaining ns p) = sum_list ns - p"
proof -
  have "list_all (\<lambda>n. 8 \<le> n) ns \<Longrightarrow> length (stream i ns) = sum_list ns" for i
    by (induction ns arbitrary: i) simp_all
  then show "list_all (\<lambda>n. 8 \<le> n) ns \<Longrightarrow> length (remaining ns p) = sum_list ns - p" by (simp add: remaining_def)
qed

definition to_write :: "side \<Rightarrow> u8 list" where
  "to_write x = remaining (writes (todo x)) (case todo x of Write n # os \<Rightarrow> nbytes x | _ \<Rightarrow> 0)"

definition to_read :: "side \<Rightarrow> u8 list" where
  "to_read x = remaining (reads (todo x)) (case todo x of Read n # os \<Rightarrow> nbytes x | _ \<Rightarrow> 0)"

lemma fresh_op: "nbytes x = 0 \<Longrightarrow> to_write x = remaining (writes (todo x)) 0 \<and> to_read x = remaining (reads (todo x)) 0"
  by (simp add: to_write_def to_read_def split: list.splits io_op.splits)

lemma shape_room:
  "shape (Write n # os) \<Longrightarrow> length (writes os) < 84" "shape (Read n # os) \<Longrightarrow> length (reads os) < 84"
  by (simp_all add: shape_def)

lemma byte_done_write:
  assumes "todo x = Write n # os" "shape (todo x)" "nbytes x < n"
  shows "to_write x = message (index (writes (todo x))) n ! nbytes x # to_write (byte_done n x)"
    "to_read (byte_done n x) = to_read x"
proof -
  have n: "8 \<le> n" "length (writes os) < 84" using assms(1,2) shape_hd [of "Write n" os] shape_room(1) [of n os] by simp_all
  note r = remaining_Cons [OF n(1) assms(3) n(2)]
  have d: "byte_done n x = (if Suc (nbytes x) = n then x\<lparr>todo := os, nbytes := 0\<rparr> else x\<lparr>nbytes := Suc (nbytes x)\<rparr>)"
    by (simp add: byte_done_def assms(1))
  show "to_write x = message (index (writes (todo x))) n ! nbytes x # to_write (byte_done n x)"
  proof (cases "Suc (nbytes x) = n")
    case True
    then have "to_write (byte_done n x) = remaining (writes os) 0" by (subst fresh_op [THEN conjunct1]) (simp_all add: d)
    then show ?thesis using r True assms(1) by (simp add: to_write_def)
  next
    case False
    then show ?thesis using r assms(1) by (simp add: d to_write_def)
  qed
  show "to_read (byte_done n x) = to_read x"
  proof (cases "Suc (nbytes x) = n")
    case True
    then have "to_read (byte_done n x) = remaining (reads os) 0" by (subst fresh_op [THEN conjunct2]) (simp_all add: d)
    then show ?thesis using assms(1) by (simp add: to_read_def)
  next
    case False
    then show ?thesis using assms(1) by (simp add: d to_read_def)
  qed
qed

lemma byte_done_read:
  assumes "todo x = Read n # os" "shape (todo x)" "nbytes x < n"
  shows "to_read x = message (index (reads (todo x))) n ! nbytes x # to_read (byte_done n x)"
    "to_write (byte_done n x) = to_write x"
proof -
  have n: "8 \<le> n" "length (reads os) < 84" using assms(1,2) shape_hd [of "Read n" os] shape_room(2) [of n os] by simp_all
  note r = remaining_Cons [OF n(1) assms(3) n(2)]
  have d: "byte_done n x = (if Suc (nbytes x) = n then x\<lparr>todo := os, nbytes := 0\<rparr> else x\<lparr>nbytes := Suc (nbytes x)\<rparr>)"
    by (simp add: byte_done_def assms(1))
  show "to_read x = message (index (reads (todo x))) n ! nbytes x # to_read (byte_done n x)"
  proof (cases "Suc (nbytes x) = n")
    case True
    then have "to_read (byte_done n x) = remaining (reads os) 0" by (subst fresh_op [THEN conjunct2]) (simp_all add: d)
    then show ?thesis using r True assms(1) by (simp add: to_read_def)
  next
    case False
    then show ?thesis using r assms(1) by (simp add: d to_read_def)
  qed
  show "to_write (byte_done n x) = to_write x"
  proof (cases "Suc (nbytes x) = n")
    case True
    then have "to_write (byte_done n x) = remaining (writes os) 0" by (subst fresh_op [THEN conjunct1]) (simp_all add: d)
    then show ?thesis using assms(1) by (simp add: to_write_def)
  next
    case False
    then show ?thesis using assms(1) by (simp add: d to_write_def)
  qed
qed


section \<open>The responder\<close>

fun pairs :: "io_op list \<Rightarrow> bool" where
  "pairs [] \<longleftrightarrow> True"
| "pairs (Read n # Write m # os) \<longleftrightarrow> m = n \<and> pairs os"
| "pairs _ \<longleftrightarrow> False"

definition alternating :: "io_op list \<Rightarrow> bool" where
  "alternating os \<longleftrightarrow> pairs os \<or> (\<exists>n os'. os = Write n # os' \<and> pairs os')"

lemma pairs_reads: "pairs os \<Longrightarrow> reads os = writes os"
  by (induction os rule: pairs.induct) simp_all

lemma alternating_simps [simp]:
  "alternating (Write n # os) \<longleftrightarrow> pairs os"
  "alternating (Read n # os) \<longleftrightarrow> (\<exists>os'. os = Write n # os' \<and> pairs os')"
  by (auto simp: alternating_def elim: pairs.elims)

lemma alternating_tl: "alternating (a # os) \<Longrightarrow> alternating os"
  by (cases a) (auto simp: alternating_def [of os])

lemma alternating_suffix: "suffix os os' \<Longrightarrow> alternating os' \<Longrightarrow> alternating os"
  by (induction os') (auto simp: suffix_Cons dest: alternating_tl)

lemma pairs_append: "pairs os \<Longrightarrow> pairs (concat (replicate k [Read n, Write n]) @ os)"
  by (induction k) simp_all

lemma alternating_responder: "alternating responder_ops"
proof -
  have "pairs (concat (replicate k [Read n, Write n]))" for k n using pairs_append [of "[]"] by simp
  then have "pairs responder_ops"
    unfolding ops_defs list.map concat.simps message_set.select_convs append_Nil2 by (intro pairs_append)
  then show ?thesis by (simp add: alternating_def)
qed

definition in_op :: "side \<Rightarrow> bool" where
  "in_op x \<longleftrightarrow> (case todo x of [] \<Rightarrow> nbytes x = 0 | a # os \<Rightarrow> nbytes x < op_size a)"

lemma byte_done_fields [simp]:
  "msg_buf (byte_done n x) = msg_buf x" "aborted (byte_done n x) = aborted x" "requestid (byte_done n x) = requestid x"
  "responseid (byte_done n x) = responseid x"
  by (simp_all add: byte_done_def)

lemma byte_done_todo:
  assumes "todo x = a # os" "in_op x" "shape (todo x)"
  obtains "Suc (nbytes x) = op_size a" "todo (byte_done (op_size a) x) = os" "nbytes (byte_done (op_size a) x) = 0"
      "in_op (byte_done (op_size a) x)"
    | "Suc (nbytes x) < op_size a" "todo (byte_done (op_size a) x) = a # os"
      "nbytes (byte_done (op_size a) x) = Suc (nbytes x)" "in_op (byte_done (op_size a) x)"
proof (cases "Suc (nbytes x) = op_size a")
  case True
  have "0 < op_size b" if "os = b # os'" for b os'
    using assms(1,3) that shape_hd [of b os'] shape_tl [of a os] by simp
  then show ?thesis using True assms(1) by (intro that(1)) (auto simp: byte_done_def in_op_def split: list.split)
next
  case False
  then show ?thesis using assms(1,2) by (intro that(2)) (auto simp: byte_done_def in_op_def)
qed

lemma take_get_byte:
  assumes "take p buf = take p m" "p < length m" "p < length buf"
  shows "take (Suc p) (buf[p := m ! p]) = take (Suc p) m"
  using assms by (simp add: take_Suc_conv_app_nth)

definition responder_inv :: "side \<Rightarrow> bool" where
  "responder_inv x \<longleftrightarrow> suffix (todo x) responder_ops \<and> in_op x \<and> length (msg_buf x) = 10000 \<and> \<not> aborted x \<and>
     (case todo x of [] \<Rightarrow> True
      | Read n # os \<Rightarrow> take (nbytes x) (msg_buf x) = take (nbytes x) (message (index (reads (todo x))) n)
      | Write n # os \<Rightarrow> take n (msg_buf x) = message (index (writes (todo x))) n)"

lemma responder_shape:
  assumes "responder_inv x"
  shows "shape (todo x)" "alternating (todo x)"
  using assms shape_suffix shape_ops(2) alternating_suffix alternating_responder by (auto simp: responder_inv_def)

lemma get_byte_fields [simp]:
  "todo (get_byte b x) = todo x" "nbytes (get_byte b x) = nbytes x" "aborted (get_byte b x) = aborted x"
  "responseid (get_byte b x) = responseid x" "requestid (get_byte b x) = requestid x"
  "msg_buf (get_byte b x) = (msg_buf x)[nbytes x := b]"
  by (simp_all add: get_byte_def)

lemma in_op_get_byte [simp]: "in_op (get_byte b x) = in_op x"
  by (cases "todo x") (simp_all add: in_op_def)

lemma responder_read:
  assumes I: "responder_inv x" and t: "todo x = Read n # os"
  shows "responder_inv (byte_done n (get_byte (message (index (reads (todo x))) n ! nbytes x) x))" (is "responder_inv (byte_done n ?y)")
proof -
  note sh = responder_shape [OF I]
  have n: "8 \<le> n" "n \<le> 10000" "nbytes x < n"
    using sh(1) I shape_hd [of "Read n" os] by (simp_all add: t responder_inv_def in_op_def)
  have buf: "take (Suc (nbytes x)) (msg_buf ?y) = take (Suc (nbytes x)) (message (index (reads (todo x))) n)"
    using I n t take_get_byte [of "nbytes x" "msg_buf x"] by (simp add: responder_inv_def)
  have y: "todo ?y = Read n # os" "in_op ?y" "shape (todo ?y)" "suffix (todo x) responder_ops"
    "length (msg_buf ?y) = 10000" "\<not> aborted ?y"
    using I t sh by (simp_all add: responder_inv_def)
  from y(1-3) show ?thesis
  proof (rule byte_done_todo)
    assume d: "Suc (nbytes ?y) = op_size (Read n)" "todo (byte_done (op_size (Read n)) ?y) = os"
      "nbytes (byte_done (op_size (Read n)) ?y) = 0" "in_op (byte_done (op_size (Read n)) ?y)"
    obtain os' where os': "os = Write n # os'" "pairs os'" using sh(2) t by auto
    have "take n (msg_buf ?y) = message (index (reads (todo x))) n" using buf d(1) n by simp
    then show ?thesis using d y os' t pairs_reads [OF os'(2)]
      by (simp add: responder_inv_def index_def) (metis suffix_ConsD)
  next
    assume d: "Suc (nbytes ?y) < op_size (Read n)" "todo (byte_done (op_size (Read n)) ?y) = Read n # os"
      "nbytes (byte_done (op_size (Read n)) ?y) = Suc (nbytes ?y)" "in_op (byte_done (op_size (Read n)) ?y)"
    then show ?thesis using y t buf by (simp add: responder_inv_def)
  qed
qed

lemma responder_write:
  assumes I: "responder_inv x" and t: "todo x = Write n # os"
  shows "responder_inv (byte_done n x)" "msg_buf x ! nbytes x = message (index (writes (todo x))) n ! nbytes x"
proof -
  note sh = responder_shape [OF I]
  have x: "suffix (todo x) responder_ops" "in_op x" "length (msg_buf x) = 10000" "\<not> aborted x"
    "take n (msg_buf x) = message (index (writes (todo x))) n" "nbytes x < n" "pairs os"
    using I t sh by (simp_all add: responder_inv_def in_op_def)
  show "msg_buf x ! nbytes x = message (index (writes (todo x))) n ! nbytes x"
    using x(6) by (simp flip: x(5))
  from t x(2) sh(1) show "responder_inv (byte_done n x)"
  proof (rule byte_done_todo)
    assume d: "todo (byte_done (op_size (Write n)) x) = os"
      "nbytes (byte_done (op_size (Write n)) x) = 0" "in_op (byte_done (op_size (Write n)) x)"
    have "os = [] \<or> (\<exists>m os'. os = Read m # os')" using x(7) by (cases os rule: pairs.cases) simp_all
    then show ?thesis using d x t by (auto simp: responder_inv_def dest: suffix_ConsD)
  next
    assume d: "todo (byte_done (op_size (Write n)) x) = Write n # os" "in_op (byte_done (op_size (Write n)) x)"
    then show ?thesis using x t by (simp add: responder_inv_def)
  qed
qed


section \<open>The requester\<close>

definition requester_inv :: "side \<Rightarrow> bool" where
  "requester_inv x \<longleftrightarrow> suffix (todo x) requester_ops \<and> in_op x \<and> length (msg_buf x) = 10000 \<and> \<not> aborted x \<and>
     drop 8 (msg_buf x) = replicate 9992 0 \<and> responseid x = word_of_nat (index (reads (todo x))) \<and>
     (case todo x of [] \<Rightarrow> True
      | Read n # os \<Rightarrow> requestid x = word_of_nat (index (writes (todo x))) \<and>
          take (nbytes x) (msg_buf x) = take (nbytes x) (message (index (reads (todo x))) n)
      | Write n # os \<Rightarrow> requestid x = word_of_nat (index (writes (todo x)) + (if nbytes x = 0 then 0 else 1)) \<and>
          (nbytes x \<noteq> 0 \<longrightarrow> take 8 (msg_buf x) = id_bytes (word_of_nat (index (writes (todo x))))))"

lemma requester_shape: "requester_inv x \<Longrightarrow> shape (todo x)"
  using shape_suffix shape_ops(1) by (auto simp: requester_inv_def)

lemma number_request_fields [simp]:
  "todo (number_request x) = todo x" "nbytes (number_request x) = nbytes x" "aborted (number_request x) = aborted x"
  "responseid (number_request x) = responseid x"
  by (simp_all add: number_request_def)

lemma in_op_number_request [simp]: "in_op (number_request x) = in_op x"
  by (cases "todo x") (simp_all add: in_op_def)

lemma index_Cons: "shape (Write n # os) \<Longrightarrow> index (writes os) = Suc (index (n # writes os))"
  "shape (Read n # os) \<Longrightarrow> index (reads os) = Suc (index (n # reads os))"
  by (auto simp: index_def shape_def)

lemma next_request:
  assumes "requestid x = word_of_nat (index (writes (todo x)))" "nbytes x = 0"
  shows "case todo x of [] \<Rightarrow> True
      | Read n # os \<Rightarrow> requestid x = word_of_nat (index (writes (todo x))) \<and>
          take (nbytes x) (msg_buf x) = take (nbytes x) (message (index (reads (todo x))) n)
      | Write n # os \<Rightarrow> requestid x = word_of_nat (index (writes (todo x)) + (if nbytes x = 0 then 0 else 1)) \<and>
          (nbytes x \<noteq> 0 \<longrightarrow> take 8 (msg_buf x) = id_bytes (word_of_nat (index (writes (todo x)))))"
  using assms by (simp split: list.split io_op.split)

lemma numbered:
  assumes I: "requester_inv x" and t: "todo x = Write n # os"
  defines "y \<equiv> number_request x"
  shows "requestid y = word_of_nat (Suc (index (writes (todo x))))" "length (msg_buf y) = 10000"
    "take 8 (msg_buf y) = id_bytes (word_of_nat (index (writes (todo x))))" "drop 8 (msg_buf y) = replicate 9992 0"
    "take n (msg_buf y) = message (index (writes (todo x))) n"
proof -
  have n: "8 \<le> n" "n \<le> 10000" using requester_shape [OF I] shape_hd [of "Write n" os] by (simp_all add: t)
  show a: "requestid y = word_of_nat (Suc (index (writes (todo x))))" "length (msg_buf y) = 10000"
    "take 8 (msg_buf y) = id_bytes (word_of_nat (index (writes (todo x))))" "drop 8 (msg_buf y) = replicate 9992 0"
    using I t by (simp_all add: requester_inv_def y_def number_request_def)
  have "msg_buf y = id_bytes (word_of_nat (index (writes (todo x)))) @ replicate 9992 0"
    using append_take_drop_id [of 8 "msg_buf y"] unfolding a(3,4) by (rule sym)
  then show "take n (msg_buf y) = message (index (writes (todo x))) n"
    using n by (simp add: message_def)
qed

lemma requester_write:
  assumes I: "requester_inv x" and t: "todo x = Write n # os"
  shows "requester_inv (byte_done n (number_request x))" (is "requester_inv (byte_done n ?y)")
    "msg_buf (number_request x) ! nbytes x = message (index (writes (todo x))) n ! nbytes x"
proof -
  have sh: "shape (todo x)" by (rule requester_shape [OF I])
  note y = numbered [OF I t]
  have x: "suffix (todo x) requester_ops" "in_op x" "\<not> aborted x" "nbytes x < n"
    "responseid x = word_of_nat (index (reads (todo x)))" using I t by (simp_all add: requester_inv_def in_op_def)
  show "msg_buf (number_request x) ! nbytes x = message (index (writes (todo x))) n ! nbytes x"
    using x(4) by (simp flip: y(5))
  have i: "index (writes os) = Suc (index (writes (todo x)))" using index_Cons(1) [of n os] sh by (simp add: t)
  have "todo ?y = Write n # os" "in_op ?y" "shape (todo ?y)" using t x sh by simp_all
  then show "requester_inv (byte_done n ?y)"
  proof (rule byte_done_todo)
    let ?z = "byte_done n ?y"
    assume d: "todo (byte_done (op_size (Write n)) ?y) = os"
      "nbytes (byte_done (op_size (Write n)) ?y) = 0" "in_op (byte_done (op_size (Write n)) ?y)"
    have r: "requestid ?z = word_of_nat (index (writes (todo ?z)))" "nbytes ?z = 0" using d y(1) i by simp_all
    show ?thesis unfolding requester_inv_def using next_request [OF r] d x y t
      by (auto simp: dest: suffix_ConsD)
  next
    assume d: "todo (byte_done (op_size (Write n)) ?y) = Write n # os" "in_op (byte_done (op_size (Write n)) ?y)"
      "nbytes (byte_done (op_size (Write n)) ?y) = Suc (nbytes ?y)"
    then show ?thesis using x y t by (simp add: requester_inv_def)
  qed
qed

lemma zeros_get_byte:
  assumes "drop 8 buf = replicate k (0 :: u8)" "p < n"
  shows "drop 8 (buf[p := message i n ! p]) = replicate k 0"
proof (cases "p < 8")
  case False
  then have "message i n ! p = 0" using assms(2) by (simp add: message_def nth_append)
  then have "drop 8 (buf[p := message i n ! p]) = (replicate k 0)[p - 8 := 0]"
    using False assms(1) by (simp add: drop_update_swap)
  also have "\<dots> = replicate k 0" by (cases "p - 8 < k") (auto intro!: nth_equalityI simp: nth_list_update)
  finally show ?thesis .
qed (simp add: assms(1))

lemma check_response_fields [simp]:
  "todo (check_response x) = todo x" "nbytes (check_response x) = nbytes x" "msg_buf (check_response x) = msg_buf x"
  "requestid (check_response x) = requestid x"
  by (simp_all add: check_response_def)

lemma in_op_check_response [simp]: "in_op (check_response x) = in_op x"
  by (cases "todo x") (simp_all add: in_op_def)

lemma requester_read:
  assumes I: "requester_inv x" and t: "todo x = Read n # os"
  shows "requester_inv (check_response (byte_done n (get_byte (message (index (reads (todo x))) n ! nbytes x) x)))"
    (is "requester_inv (check_response (byte_done n ?y))")
proof -
  have sh: "shape (todo x)" by (rule requester_shape [OF I])
  have n: "8 \<le> n" "n \<le> 10000" "nbytes x < n"
    using sh I shape_hd [of "Read n" os] by (simp_all add: t requester_inv_def in_op_def)
  have x: "suffix (todo x) requester_ops" "in_op x" "length (msg_buf x) = 10000" "\<not> aborted x"
    "drop 8 (msg_buf x) = replicate 9992 0" "responseid x = word_of_nat (index (reads (todo x)))"
    "requestid x = word_of_nat (index (writes (todo x)))"
    "take (nbytes x) (msg_buf x) = take (nbytes x) (message (index (reads (todo x))) n)"
    using I t by (simp_all add: requester_inv_def)
  have buf: "take (Suc (nbytes x)) (msg_buf ?y) = take (Suc (nbytes x)) (message (index (reads (todo x))) n)"
    using x n take_get_byte [of "nbytes x" "msg_buf x"] by simp
  have z: "drop 8 (msg_buf ?y) = replicate 9992 0" using zeros_get_byte [OF x(5) n(3)] by simp
  have i: "index (reads os) = Suc (index (reads (todo x)))" using index_Cons(2) [of n os] sh by (simp add: t)
  have "todo ?y = Read n # os" "in_op ?y" "shape (todo ?y)" using t x sh by simp_all
  then show ?thesis
  proof (rule byte_done_todo)
    let ?z = "check_response (byte_done n ?y)"
    assume d: "Suc (nbytes ?y) = op_size (Read n)" "todo (byte_done (op_size (Read n)) ?y) = os"
      "nbytes (byte_done (op_size (Read n)) ?y) = 0" "in_op (byte_done (op_size (Read n)) ?y)"
    have "take n (msg_buf ?y) = message (index (reads (todo x))) n" using buf d(1) n by simp
    then have "take 8 (take n (msg_buf ?y)) = id_bytes (responseid x)" using n by (simp add: message_def x(6))
    then have "id_of (msg_buf ?y) = responseid x" using n by (intro id_of_bytes) (simp add: min_def)
    then have c: "responseid ?z = responseid x + 1" "aborted ?z = aborted x"
      using d by (simp_all add: check_response_def)
    have r: "requestid ?z = word_of_nat (index (writes (todo ?z)))" "nbytes ?z = 0" using d x(7) by (simp_all add: t)
    show ?thesis unfolding requester_inv_def using next_request [OF r] d x z c i t
      by (auto simp: dest: suffix_ConsD)
  next
    assume d: "Suc (nbytes ?y) < op_size (Read n)" "todo (byte_done (op_size (Read n)) ?y) = Read n # os"
      "nbytes (byte_done (op_size (Read n)) ?y) = Suc (nbytes ?y)" "in_op (byte_done (op_size (Read n)) ?y)"
    then have "check_response (byte_done n ?y) = byte_done n ?y" by (simp add: check_response_def)
    then show ?thesis using d x t buf z by (simp add: requester_inv_def)
  qed
qed


section \<open>The exchange\<close>

definition exchange_inv :: "nat \<Rightarrow> exchange \<Rightarrow> bool" where
  "exchange_inv capacity s \<longleftrightarrow> requester_inv (requester s) \<and> responder_inv (responder s) \<and>
     to_read (responder s) = requests s @ to_write (requester s) \<and>
     to_read (requester s) = responses s @ to_write (responder s) \<and>
     length (requests s) \<le> capacity \<and> length (responses s) \<le> capacity"

definition calls_left :: "exchange \<Rightarrow> nat" where
  "calls_left s = length (to_write (requester s)) + length (to_read (requester s)) + length (to_write (responder s))
     + length (to_read (responder s))"

lemma next_opD: "next_op x = Some a \<Longrightarrow> \<exists>os. todo x = a # os"
  by (cases "todo x") (simp_all add: next_op_def split: if_splits)

lemma inv_nbytes: "requester_inv x \<or> responder_inv x \<Longrightarrow> todo x = a # os \<Longrightarrow> nbytes x < op_size a"
  by (auto simp: requester_inv_def responder_inv_def in_op_def)

lemma to_write_same [simp]:
  "to_write (number_request x) = to_write x" "to_write (get_byte b x) = to_write x" "to_write (check_response x) = to_write x"
  by (simp_all add: to_write_def split: list.split io_op.split)

lemma to_read_same [simp]:
  "to_read (number_request x) = to_read x" "to_read (get_byte b x) = to_read x" "to_read (check_response x) = to_read x"
  by (simp_all add: to_read_def split: list.split io_op.split)

lemma exchange_step_inv:
  assumes "exchange_step capacity s s'" "exchange_inv capacity s"
  shows "exchange_inv capacity s' \<and> calls_left s = Suc (calls_left s')"
  using assms
proof (cases rule: exchange_step.cases)
  case (send_request n x)
  let ?x = "requester s"
  obtain os where t: "todo ?x = Write n # os" using next_opD [OF send_request(2)] by blast
  have I: "requester_inv ?x" using assms(2) by (simp add: exchange_inv_def)
  note w = requester_write [OF I t]
  have "todo (number_request ?x) = Write n # os" "shape (todo (number_request ?x))" "nbytes (number_request ?x) < n"
    using t requester_shape [OF I] inv_nbytes [OF disjI1 [OF I] t] by simp_all
  note b = byte_done_write [OF this]
  have "to_write ?x = msg_buf x ! nbytes x # to_write (byte_done n x)"
    using b(1) w(2) send_request(4) by simp
  then show ?thesis using assms(2) w(1) b(2) send_request by (simp add: exchange_inv_def calls_left_def)
next
  case (receive_request n b bs)
  let ?x = "responder s"
  obtain os where t: "todo ?x = Read n # os" using next_opD [OF receive_request(2)] by blast
  have I: "responder_inv ?x" using assms(2) by (simp add: exchange_inv_def)
  have "todo (get_byte b ?x) = Read n # os" "shape (todo (get_byte b ?x))" "nbytes (get_byte b ?x) < n"
    using t responder_shape [OF I] inv_nbytes [OF disjI2 [OF I] t] by simp_all
  note r = byte_done_read [OF this]
  have e: "to_read ?x = b # bs @ to_write (requester s)" using assms(2) receive_request(3) by (simp add: exchange_inv_def)
  then have b: "b = message (index (reads (todo ?x))) n ! nbytes ?x"
    "to_read (byte_done n (get_byte b ?x)) = bs @ to_write (requester s)" using r(1) by simp_all
  show ?thesis using assms(2) responder_read [OF I t, folded b(1)] r(2) b(2) e receive_request
    by (simp add: exchange_inv_def calls_left_def)
next
  case (send_response n x)
  let ?x = "responder s"
  obtain os where t: "todo ?x = Write n # os" using next_opD [OF send_response(2)] by blast
  have I: "responder_inv ?x" using assms(2) by (simp add: exchange_inv_def)
  note w = responder_write [OF I t]
  note b = byte_done_write [OF t responder_shape(1) [OF I] inv_nbytes [OF disjI2 [OF I] t, simplified]]
  have "to_write ?x = msg_buf x ! nbytes x # to_write (byte_done n x)"
    using b(1) w(2) send_response(4) by simp
  then show ?thesis using assms(2) w(1) b(2) send_response by (simp add: exchange_inv_def calls_left_def)
next
  case (receive_response n b bs)
  let ?x = "requester s"
  obtain os where t: "todo ?x = Read n # os" using next_opD [OF receive_response(2)] by blast
  have I: "requester_inv ?x" using assms(2) by (simp add: exchange_inv_def)
  have "todo (get_byte b ?x) = Read n # os" "shape (todo (get_byte b ?x))" "nbytes (get_byte b ?x) < n"
    using t requester_shape [OF I] inv_nbytes [OF disjI1 [OF I] t] by simp_all
  note r = byte_done_read [OF this]
  have e: "to_read ?x = b # bs @ to_write (responder s)" using assms(2) receive_response(3) by (simp add: exchange_inv_def)
  then have b: "b = message (index (reads (todo ?x))) n ! nbytes ?x"
    "to_read (byte_done n (get_byte b ?x)) = bs @ to_write (responder s)" using r(1) by simp_all
  show ?thesis using assms(2) requester_read [OF I t, folded b(1)] r(2) b(2) e receive_response
    by (simp add: exchange_inv_def calls_left_def)
qed

lemma max_size_step:
  "max_size_loop (message_set b q r # ms) sz = max_size_loop ms (max (max sz q) r)"
  by (simp add: message_set_def Let_def max_def) (metis linorder_not_less order_antisym)

lemma max_message_size: "max_message_size = 10000"
  by (simp add: max_message_size_def messages_def max_size_step del: max_size_loop.simps(2))

lemma start_side_simps [simp]:
  "todo (start_side os) = os" "nbytes (start_side os) = 0" "msg_buf (start_side os) = replicate 10000 0"
  "requestid (start_side os) = 0" "responseid (start_side os) = 0" "\<not> aborted (start_side os)"
  by (simp_all add: start_side_def max_message_size)

lemma in_op_fresh: "shape (todo x) \<Longrightarrow> nbytes x = 0 \<Longrightarrow> in_op x"
  by (cases "todo x") (auto simp: in_op_def dest: shape_hd)

lemma start_sizes:
  "to_write (start_side os) = remaining (writes os) 0" "to_read (start_side os) = remaining (reads os) 0"
  using fresh_op [of "start_side os"] by simp_all

lemma all_sizes: "shape os \<Longrightarrow> list_all (\<lambda>n. 8 \<le> n) (writes os) \<and> list_all (\<lambda>n. 8 \<le> n) (reads os)"
proof (induction os)
  case (Cons a os)
  then show ?case using shape_tl [OF Cons.prems] shape_hd [OF Cons.prems] by (cases a) simp_all
qed simp

lemma length_stream: "length (remaining (writes requester_ops) 0) = 424200"
  using length_remaining [of "writes requester_ops" 0] all_sizes [OF shape_ops(1)] by (simp add: sizes_agree)

lemma start_inv: "exchange_inv capacity start_exchange" "calls_left start_exchange = 1696800"
proof -
  have first: "\<exists>os. responder_ops = Read 100 # os"
    by (simp_all add: ops_defs)
  have i: "index (reads requester_ops) = 0" "index (writes requester_ops) = 0" by (simp_all add: index_def sizes_agree)
  have "drop 8 (replicate 10000 0) = replicate 9992 (0 :: u8)" by (simp add: drop_replicate)
  moreover have in_op: "in_op (start_side requester_ops)" "in_op (start_side responder_ops)"
    by (rule in_op_fresh; simp add: shape_ops)+
  ultimately have "requester_inv (start_side requester_ops)"
    using i by (auto simp: requester_inv_def split: list.split io_op.split)
  moreover obtain os where os: "responder_ops = Read 100 # os" using first by blast
  have "responder_inv (start_side responder_ops)"
    using in_op(2) unfolding responder_inv_def start_side_simps by (simp add: os)
  ultimately show "exchange_inv capacity start_exchange"
    by (simp add: exchange_inv_def start_exchange_def start_sizes sizes_agree)
  show "calls_left start_exchange = 1696800"
    by (simp add: calls_left_def start_exchange_def start_sizes sizes_agree(1-3) length_stream)
qed

lemma run_inv: "exchange_run capacity n s \<Longrightarrow> exchange_inv capacity s \<and> n + calls_left s = 1696800"
proof (induction rule: exchange_run.induct)
  case run_start
  then show ?case using start_inv by simp
next
  case (run_step n s s')
  then show ?case using exchange_step_inv [OF run_step.hyps(2)] by auto
qed


section \<open>When no process can go on\<close>

text \<open>In every phase, the responses still to read are the requests still to write and those on their way.\<close>

primrec in_phase :: "io_op list \<Rightarrow> bool" where
  "in_phase [] \<longleftrightarrow> True"
| "in_phase (a # os) \<longleftrightarrow> in_phase os \<and> (case a of
     Write n \<Rightarrow> n + sum_list (writes os) \<le> sum_list (reads os) \<and> sum_list (reads os) \<le> sum_list (writes os) + 200000
   | Read n \<Rightarrow> sum_list (writes os) \<le> sum_list (reads os))"

lemma in_phase_reads:
  "in_phase os \<Longrightarrow> sum_list (writes os) \<le> sum_list (reads os) \<Longrightarrow> in_phase (replicate k (Read n) @ os)"
  by (induction k) simp_all

lemma in_phase_writes:
  "in_phase os \<Longrightarrow> k * n + sum_list (writes os) \<le> sum_list (reads os) \<Longrightarrow>
    sum_list (reads os) \<le> sum_list (writes os) + 200000 \<Longrightarrow> in_phase (replicate k (Write n) @ os)"
  by (induction k) (simp_all add: sum_list_replicate)

lemma in_phase_batch:
  assumes "in_phase os" "sum_list (reads os) = sum_list (writes os)" "k * n \<le> 200000"
  shows "in_phase (requester_phase (message_set k n n) @ os)"
  unfolding requester_phase_def message_set_def message_set.select_convs append_assoc
  using assms by (intro in_phase_writes in_phase_reads) (simp_all add: sum_list_replicate)

lemma phase_sums:
  "sum_list (reads (requester_phase (message_set k n n))) = sum_list (writes (requester_phase (message_set k n n)))"
  by (simp add: requester_phase_def message_set_def)

lemma in_phase_requester: "in_phase requester_ops"
proof -
  have one: "in_phase (requester_phase (message_set k n n))" if "k * n \<le> 200000" for k n
    using in_phase_batch [of "[]", OF _ _ that] by simp
  show ?thesis unfolding requester_ops_def messages_def list.map concat.simps append_Nil2
    by (intro in_phase_batch one) (simp_all add: phase_sums)
qed

lemma in_phase_suffix: "suffix os os' \<Longrightarrow> in_phase os' \<Longrightarrow> in_phase os"
  by (induction os') (auto simp: suffix_Cons)

lemma suffix_sums:
  assumes "suffix xs zs" "suffix ys zs" "sum_list xs - p = sum_list ys" "p < hd xs" "xs \<noteq> []"
  shows "p = (0 :: nat)"
proof -
  have p: "p < sum_list xs" using assms(4,5) by (cases xs) simp_all
  from suffix_same_cases [OF assms(1,2)] show ?thesis
  proof
    assume "suffix xs ys"
    then have "sum_list xs \<le> sum_list ys" by (auto simp: suffix_def)
    then show ?thesis using assms(3) p by linarith
  next
    assume "suffix ys xs"
    then obtain pre where x: "xs = pre @ ys" by (auto simp: suffix_def)
    show ?thesis
    proof (cases pre)
      case Nil
      then show ?thesis using x assms(3) p by simp
    next
      case (Cons a pre')
      then show ?thesis using x assms(3,4) by simp
    qed
  qed
qed

lemma suffix_sizes: "suffix os os' \<Longrightarrow> suffix (writes os) (writes os') \<and> suffix (reads os) (reads os')"
  by (auto simp: suffix_def)

lemma length_to_write:
  "shape (todo x) \<Longrightarrow> length (to_write x) = sum_list (writes (todo x)) - (case todo x of Write n # os \<Rightarrow> nbytes x | _ \<Rightarrow> 0)"
  by (simp add: to_write_def length_remaining all_sizes)

lemma length_to_read:
  "shape (todo x) \<Longrightarrow> length (to_read x) = sum_list (reads (todo x)) - (case todo x of Read n # os \<Rightarrow> nbytes x | _ \<Rightarrow> 0)"
  by (simp add: to_read_def length_remaining all_sizes)

text \<open>The responder has read at most one message that it has not answered.\<close>

lemma responder_lengths:
  assumes I: "responder_inv x"
  shows "length (to_read x) \<le> length (to_write x)" "length (to_write x) \<le> length (to_read x) + 10000"
    "todo x = Write n # os \<Longrightarrow> length (to_read x) < length (to_write x)"
    "todo x = Read n # os \<Longrightarrow> length (to_read x) + nbytes x = length (to_write x)"
proof -
  note sh = responder_shape [OF I]
  note l = length_to_write [OF sh(1)] length_to_read [OF sh(1)]
  have "length (to_read x) \<le> length (to_write x) \<and> length (to_write x) \<le> length (to_read x) + 10000 \<and>
    ((\<exists>n os. todo x = Write n # os) \<longrightarrow> length (to_read x) < length (to_write x)) \<and>
    ((\<exists>n os. todo x = Read n # os) \<longrightarrow> length (to_read x) + nbytes x = length (to_write x))"
  proof (cases "todo x")
    case Nil
    then show ?thesis using l by simp
  next
    case (Cons a os)
    note n = inv_nbytes [OF disjI2 [OF I] Cons] and hd = shape_hd [OF sh(1) [unfolded Cons]]
    show ?thesis
    proof (cases a)
      case (Write n)
      then have "reads os = writes os" using sh(2) Cons pairs_reads by simp
      then show ?thesis using l n hd Cons Write by (simp, arith)
    next
      case (Read n)
      then obtain os' where "os = Write n # os'" "pairs os'" using sh(2) Cons by auto
      then show ?thesis using l n hd Cons Read pairs_reads [of os'] by (simp, arith)
    qed
  qed
  then show "length (to_read x) \<le> length (to_write x)" "length (to_write x) \<le> length (to_read x) + 10000"
    "todo x = Write n # os \<Longrightarrow> length (to_read x) < length (to_write x)"
    "todo x = Read n # os \<Longrightarrow> length (to_read x) + nbytes x = length (to_write x)" by blast+
qed

lemma pipe_lengths:
  assumes "exchange_inv capacity s"
  shows "length (to_read (responder s)) = length (requests s) + length (to_write (requester s))"
    "length (to_read (requester s)) = length (responses s) + length (to_write (responder s))"
  using assms by (simp_all add: exchange_inv_def)

lemma requester_lengths:
  assumes I: "requester_inv x"
  shows "todo x = Write n # os \<Longrightarrow> length (to_read x) \<le> sum_list (writes os) + 200000 \<and>
      sum_list (writes os) < length (to_write x)"
    "todo x = Read n # os \<Longrightarrow> length (to_write x) < length (to_read x)"
proof -
  have sh: "shape (todo x)" by (rule requester_shape [OF I])
  note l = length_to_write [OF sh] length_to_read [OF sh]
  have ph: "in_phase (todo x)" using I in_phase_suffix in_phase_requester by (auto simp: requester_inv_def)
  note n = inv_nbytes [OF disjI1 [OF I]]
  show "length (to_read x) \<le> sum_list (writes os) + 200000 \<and> sum_list (writes os) < length (to_write x)"
    if t: "todo x = Write n # os" using ph l n [OF t] by (simp add: t)
  show "length (to_write x) < length (to_read x)" if t: "todo x = Read n # os"
    using ph l n [OF t] by (simp add: t, arith)
qed

definition writing_to_full :: "side \<Rightarrow> u8 list \<Rightarrow> nat \<Rightarrow> bool" where
  "writing_to_full x p capacity \<longleftrightarrow> (\<exists>n. next_op x = Some (Write n)) \<and> length p = capacity"


lemma stuck_requester:
  assumes "\<not> (\<exists>s'. exchange_step capacity s s')" "exchange_inv capacity s"
  obtains "todo (requester s) = []"
    | n os where "todo (requester s) = Write n # os" "writing_to_full (requester s) (requests s) capacity"
    | n os where "todo (requester s) = Read n # os" "responses s = []"
proof (cases "todo (requester s)")
  case (Cons a os)
  then have o: "next_op (requester s) = Some a" using assms(2) by (simp add: next_op_def exchange_inv_def requester_inv_def)
  show ?thesis
  proof (cases a)
    case (Write n)
    have "\<not> length (requests s) < capacity" using assms(1) send_request [OF o [unfolded Write] _ refl] by blast
    then show ?thesis using o Write Cons assms(2) by (intro that(2)) (simp_all add: writing_to_full_def exchange_inv_def)
  next
    case (Read n)
    have "responses s = []" using assms(1) receive_response [OF o [unfolded Read]] by (cases "responses s") blast+
    then show ?thesis using Read Cons by (intro that(3)) simp_all
  qed
qed (rule that(1))

lemma stuck_responder:
  assumes "\<not> (\<exists>s'. exchange_step capacity s s')" "exchange_inv capacity s"
  obtains "todo (responder s) = []"
    | n os where "todo (responder s) = Write n # os" "writing_to_full (responder s) (responses s) capacity"
    | n os where "todo (responder s) = Read n # os" "requests s = []"
proof (cases "todo (responder s)")
  case (Cons a os)
  then have o: "next_op (responder s) = Some a" using assms(2) by (simp add: next_op_def exchange_inv_def responder_inv_def)
  show ?thesis
  proof (cases a)
    case (Write n)
    have "\<not> length (responses s) < capacity" using assms(1) send_response [OF o [unfolded Write] _ refl] by blast
    then show ?thesis using o Write Cons assms(2) by (intro that(2)) (simp_all add: writing_to_full_def exchange_inv_def)
  next
    case (Read n)
    have "requests s = []" using assms(1) receive_request [OF o [unfolded Read]] by (cases "requests s") blast+
    then show ?thesis using Read Cons by (intro that(3)) simp_all
  qed
qed (rule that(1))

text \<open>Two processes that both wait to read are at the same message, and that they are not.\<close>

lemma not_both_reading:
  assumes I: "exchange_inv capacity s" and q: "todo (requester s) = Read n # os" and r: "todo (responder s) = Read m # os'"
    and e: "requests s = []" "responses s = []"
  shows False
proof -
  let ?q = "requester s" and ?r = "responder s"
  have i: "requester_inv ?q" "responder_inv ?r" using I by (simp_all add: exchange_inv_def)
  note l = pipe_lengths [OF I]
  have sh: "shape (todo ?q)" "shape (todo ?r)" using requester_shape i responder_shape by simp_all
  have p: "nbytes ?r < m" using inv_nbytes [OF disjI2 [OF i(2)] r] by simp
  have s: "suffix (reads (todo ?r)) (writes requester_ops)" "suffix (writes (todo ?q)) (writes requester_ops)"
    using suffix_sizes [of "todo ?r" responder_ops] suffix_sizes [of "todo ?q" requester_ops] i
    by (simp_all add: responder_inv_def requester_inv_def sizes_agree)
  have "sum_list (reads (todo ?r)) - nbytes ?r = sum_list (writes (todo ?q))"
    using l(1) e(1) length_to_read [OF sh(2)] length_to_write [OF sh(1)] by (simp add: q r)
  then have "nbytes ?r = 0" using suffix_sums [OF s] p by (simp add: r)
  then have "length (to_read ?q) = length (to_write ?q)" using l e responder_lengths(4) [OF i(2) r] by simp
  then show False using requester_lengths(2) [OF i(1) q] by simp
qed

lemma stuck_exchange:
  assumes "\<not> (\<exists>s'. exchange_step capacity s s')" "exchange_inv capacity s" "0 < capacity"
  shows "exchange_over s \<or> writing_to_full (requester s) (requests s) capacity
    \<and> writing_to_full (responder s) (responses s) capacity"
proof -
  let ?q = "requester s" and ?r = "responder s"
  have i: "requester_inv ?q" "responder_inv ?r" using assms(2) by (simp_all add: exchange_inv_def)
  have a: "\<not> aborted ?q" "\<not> aborted ?r" using i by (simp_all add: requester_inv_def responder_inv_def)
  note l = pipe_lengths [OF assms(2)] and r = responder_lengths [OF i(2)] and q = requester_lengths [OF i(1)]
  have nil: "to_write x = [] \<and> to_read x = []" if "todo x = []" for x using that by (simp add: to_write_def to_read_def)
  from assms(1,2) show ?thesis
  proof (rule stuck_requester)
    assume tq: "todo ?q = []"
    then have z: "length (to_write ?r) = 0" "responses s = []" using l nil [OF tq] by simp_all
    from assms(1,2) show ?thesis
    proof (rule stuck_responder)
      assume "todo ?r = []"
      then show ?thesis using tq a by (simp add: exchange_over_def)
    next
      fix n os assume "todo ?r = Write n # os"
      then show ?thesis using r(3) z by simp
    next
      fix n os assume tr: "todo ?r = Read n # os"
      have "nbytes ?r < n" using inv_nbytes [OF disjI2 [OF i(2)] tr] by simp
      moreover have "n \<le> length (to_write ?r)"
      proof -
        obtain os' where "os = Write n # os'" using responder_shape(2) [OF i(2)] tr by auto
        then show ?thesis using length_to_write [OF responder_shape(1) [OF i(2)]] tr by simp
      qed
      ultimately show ?thesis using z by simp
    qed
  next
    fix n os assume tq: "todo ?q = Write n # os" "writing_to_full ?q (requests s) capacity"
    then have f: "requests s \<noteq> []" using assms(3) by (auto simp: writing_to_full_def)
    from assms(1,2) show ?thesis
    proof (rule stuck_responder)
      assume "todo ?r = []"
      then show ?thesis using l nil f by simp
    qed (use tq f in simp_all)
  next
    fix n os assume tq: "todo ?q = Read n # os" "responses s = []"
    from assms(1,2) show ?thesis
    proof (rule stuck_responder)
      assume "todo ?r = []"
      then show ?thesis using l nil tq q(2) by simp
    next
      fix m os' assume "todo ?r = Write m # os'" "writing_to_full ?r (responses s) capacity"
      then show ?thesis using tq assms(3) by (simp add: writing_to_full_def)
    next
      fix m os' assume "todo ?r = Read m # os'" "requests s = []"
      then show ?thesis using not_both_reading [OF assms(2) tq(1)] tq(2) by blast
    qed
  qed
qed

text \<open>Both pipes full: together they hold fewer bytes than a phase has requests.\<close>

lemma both_writing:
  assumes I: "exchange_inv capacity s" and q: "writing_to_full (requester s) (requests s) capacity"
    and r: "writing_to_full (responder s) (responses s) capacity"
  shows "2 * capacity < 200000"
proof -
  let ?q = "requester s" and ?r = "responder s"
  have i: "requester_inv ?q" "responder_inv ?r" using I by (simp_all add: exchange_inv_def)
  obtain n os m os' where t: "todo ?q = Write n # os" "todo ?r = Write m # os'"
    using q r next_opD unfolding writing_to_full_def by metis
  show ?thesis using requester_lengths(1) [OF i(1) t(1)] responder_lengths(3) [OF i(2) t(2)] pipe_lengths [OF I] q r
    by (simp add: writing_to_full_def)
qed


section \<open>Small pipes\<close>

text \<open>What the requester does once it has written all requests of the fourth phase.\<close>

definition late_ops :: "io_op list" where
  "late_ops = replicate 20 (Read 10000) @ concat (map requester_phase (drop 4 messages))"

definition early :: "side \<Rightarrow> bool" where
  "early x \<longleftrightarrow> (\<exists>pre. pre \<noteq> [] \<and> todo x = pre @ late_ops)"

lemma late_sums: "sum_list (reads late_ops) = sum_list (writes late_ops) + 200000"
  by (simp add: late_ops_def messages_def requester_phase_def message_set_def sum_list_replicate)

lemma start_early: "early (start_side requester_ops)"
proof -
  have "requester_ops = concat (map requester_phase (take 3 messages)) @ replicate 20 (Write 10000) @ late_ops"
    by (simp add: requester_ops_def late_ops_def messages_def requester_phase_def message_set_def del: replicate.simps)
  then show ?thesis unfolding early_def start_side_simps by (metis append.assoc append_is_Nil_conv replicate_empty zero_neq_numeral)
qed

lemma exchange_step_todo:
  "exchange_step capacity s s' \<Longrightarrow> todo (requester s') = todo (requester s) \<or>
     (todo (requester s') = tl (todo (requester s)) \<and> nbytes (requester s') = 0)"
  by (induction rule: exchange_step.induct) (simp_all add: byte_done_def)

lemma not_late:
  assumes I: "exchange_inv capacity s" and t: "todo (requester s) = late_ops" and n: "nbytes (requester s) = 0"
  shows "95000 \<le> capacity"
proof -
  have i: "requester_inv (requester s)" "responder_inv (responder s)" "length (requests s) \<le> capacity"
    "length (responses s) \<le> capacity" using I by (simp_all add: exchange_inv_def)
  have "length (to_write (requester s)) = sum_list (writes late_ops)"
    "length (to_read (requester s)) = sum_list (reads late_ops)"
    using fresh_op [OF n] length_remaining [of _ 0] all_sizes [OF requester_shape [OF i(1)]] by (simp_all add: t)
  then show ?thesis using late_sums pipe_lengths [OF I] responder_lengths(2) [OF i(2)] i(3,4) by linarith
qed

lemma run_early: "exchange_run capacity n s \<Longrightarrow> capacity < 95000 \<Longrightarrow> early (requester s)"
proof (induction rule: exchange_run.induct)
  case run_start
  then show ?case using start_early by (simp add: start_exchange_def)
next
  case (run_step n s s')
  then obtain pre where p: "pre \<noteq> []" "todo (requester s) = pre @ late_ops" by (auto simp: early_def)
  have I: "exchange_inv capacity s'" using run_inv run_step.hyps exchange_run.run_step by blast
  from exchange_step_todo [OF run_step.hyps(2)] show ?case
  proof (elim disjE conjE)
    assume t: "todo (requester s') = tl (todo (requester s))" "nbytes (requester s') = 0"
    then have "todo (requester s') = tl pre @ late_ops" using p by simp
    moreover have "tl pre \<noteq> []" using not_late [OF I _ t(2)] calculation run_step.prems by auto
    ultimately show ?thesis by (auto simp: early_def)
  qed (use p in \<open>auto simp: early_def\<close>)
qed

lemma run_next_op:
  assumes "exchange_run capacity n s" "capacity < 95000"
  shows "next_op (requester s) \<noteq> None"
proof -
  have "requester_inv (requester s)" using run_inv [OF assms(1)] by (simp add: exchange_inv_def)
  then show ?thesis using run_early [OF assms] by (auto simp: early_def next_op_def requester_inv_def)
qed

text \<open>A requester that never dies is killed, and the program reports a failure.\<close>

lemma watch_requester:
  "0 < p1 \<Longrightarrow> list_all (\<lambda>d. \<not> fst d) ds \<Longrightarrow> fst (watch_children ds (p1, p2)) = p1"
  by (induction ds arbitrary: p2) simp_all

text \<open>
  C30: with pipes of at least 100,000 bytes slow-pipeexchange61, the program linked with the
  unbuffered library, ends. In every order of the system calls of its two processes, some process
  can make the next call until both have gone through all of their messages, after exactly
  1,696,800 calls; no assertion about the number of a response fails. (The program linked with
  \<open>io61.c\<close> is not covered: there a read that empties the cache asks the pipe for more.)
\<close>

theorem pipeexchange_ends:
  assumes "exchange_run capacity n s" "100000 \<le> capacity"
  shows "n \<le> 1696800 \<and> ((\<exists>s'. exchange_step capacity s s') \<or> exchange_over s \<and> n = 1696800)"
proof -
  have I: "exchange_inv capacity s" "n + calls_left s = 1696800" using run_inv [OF assms(1)] by blast+
  have "calls_left s = 0" if "exchange_over s"
    using that by (simp add: exchange_over_def calls_left_def to_write_def to_read_def)
  moreover have "exchange_over s" if "\<not> (\<exists>s'. exchange_step capacity s s')"
    using stuck_exchange [OF that I(1)] both_writing [OF I(1)] assms(2) by auto
  ultimately show ?thesis using I(2) by auto
qed

theorem pipeexchange_ends_witness:
  "(0 :: nat) \<le> 1696800 \<and> (\<exists>s'. exchange_step 200000 start_exchange s')"
proof -
  have "todo (requester start_exchange) \<noteq> []" by (simp add: start_exchange_def ops_defs)
  then show ?thesis using pipeexchange_ends [OF run_start, of 200000] by (simp add: exchange_over_def)
qed

text \<open>
  C31: with pipes of fewer than 95,000 bytes, as those of Linux with 65,536, slow-pipeexchange61, the
  program linked with the unbuffered library, never ends. The requester never gets past the 20
  requests of 10,000 bytes of the fourth phase, which it writes before it reads a response
  (\<open>early\<close>: it has an operation ahead of the first of these responses); and when no process can
  go on, in this phase or an earlier one, both wait to write to a full pipe. That state is reached,
  since no run has more than 1,696,800 calls. The parent then finds the requester alive in every
  poll, kills it and exits with status 1.
\<close>

theorem pipeexchange_deadlock:
  assumes "exchange_run capacity n s" "0 < capacity" "capacity < 95000" "0 < p1"
    and "list_all (\<lambda>d. fst d \<longrightarrow> (\<exists>m t. exchange_run capacity m t \<and> next_op (requester t) = None)) ds"
  shows "n < 1696800 \<and> early (requester s) \<and> \<not> aborted (requester s) \<and> \<not> aborted (responder s) \<and>
    ((\<exists>s'. exchange_step capacity s s') \<or>
     writing_to_full (requester s) (requests s) capacity \<and> writing_to_full (responder s) (responses s) capacity) \<and>
    p1 \<in> set (killed (watch_children ds (p1, p2))) \<and> exchange_status (watch_children ds (p1, p2)) = 1"
proof -
  have I: "exchange_inv capacity s" "n + calls_left s = 1696800" using run_inv [OF assms(1)] by blast+
  have i: "requester_inv (requester s)" "responder_inv (responder s)" using I(1) by (simp_all add: exchange_inv_def)
  have e: "early (requester s)" by (rule run_early [OF assms(1,3)])
  then have t: "todo (requester s) \<noteq> []" by (auto simp: early_def)
  then obtain a os where o: "todo (requester s) = a # os" by (cases "todo (requester s)") auto
  have "0 < calls_left s"
    using requester_lengths [OF i(1)] o by (cases a) (auto simp: calls_left_def)
  moreover have "\<not> aborted (requester s) \<and> \<not> aborted (responder s)"
    using i by (simp add: requester_inv_def responder_inv_def)
  moreover have "\<not> exchange_over s" using t by (simp add: exchange_over_def)
  moreover have "list_all (\<lambda>d. \<not> fst d) ds"
    using assms(5) by (rule list.pred_mono_strong) (use run_next_op [OF _ assms(3)] in blast)
  then have "fst (watch_children ds (p1, p2)) = p1" by (rule watch_requester [OF assms(4)])
  then have "p1 \<in> set (killed (watch_children ds (p1, p2)))" "exchange_status (watch_children ds (p1, p2)) = 1"
    using assms(4) by (simp_all add: killed_def exchange_status_def)
  ultimately show ?thesis using I e stuck_exchange [OF _ I(1) assms(2)] by auto
qed

theorem pipeexchange_deadlock_witness:
  "early (requester start_exchange) \<and> exchange_status (watch_children [(False, False), (False, True)] (7, 8)) = 1"
  using pipeexchange_deadlock [OF run_start, of 65536 7 "[(False, False), (False, True)]" 8] by simp

end
