(* ===== verification/Pong61.thy ===== *)
theory Pong61
  imports CNumbers
begin

text \<open>
  The pong client of \<open>pset5\<close>: its parser for HTTP responses, the loops that send a request and
  receive a response, the ball, the waiting time between attempts, and the threads with their
  mutexes and shared connections. What the network delivers is an argument: a list of results
  of \<open>read\<close> or \<open>write\<close>, or the choice of a step.
\<close>

section \<open>Numbers in responses\<close>

definition c_string :: "u8 list \<Rightarrow> u8 list" where
  "c_string s = takeWhile (\<lambda>b. b \<noteq> 0) s"

text \<open>
  \<open>%d\<close> of \<open>sscanf\<close>, which stores an \<open>int\<close>. A number that does not fit is undefined in ISO C; the
  GNU C library converts it to a \<open>long\<close>, saturating, and stores the lower 32 bits.
\<close>

definition int_of_long :: "int \<Rightarrow> u32" where
  "int_of_long v = word_of_int (max (- (2 ^ 63)) (min (2 ^ 63 - 1) v))"

definition scan_int :: "u8 list \<Rightarrow> (u32 \<times> u8 list) option" where
  "scan_int s =
     (let (neg, s) = scan_sign (dropWhile isspace s); ds = takeWhile isdigit s;
          v = int (digits_value 10 decimal ds)
      in if ds = [] then None else Some (int_of_long (if neg then - v else v), dropWhile isdigit s))"

text \<open>\<open>HTTP/1.%d %d\<close>: the second number, when both are there.\<close>

definition http_1 :: "u8 list" where "http_1 = [72, 84, 84, 80, 47, 49, 46]"

definition sscanf_status :: "u8 list \<Rightarrow> u32 option" where
  "sscanf_status s =
     (if take (length http_1) s = http_1
      then (case scan_int (drop (length http_1) s) of
              None \<Rightarrow> None
            | Some (minor, s) \<Rightarrow> map_option fst (scan_int (dropWhile isspace s)))
      else None)"

section \<open>Responses\<close>

datatype http_state = HTTP_REQUEST | HTTP_INITIAL | HTTP_HEADERS | HTTP_BODY
  | HTTP_DONE | HTTP_CLOSED | HTTP_BROKEN

text \<open>The states below 0.\<close>

definition ended :: "http_state \<Rightarrow> bool" where
  "ended s \<longleftrightarrow> s = HTTP_DONE \<or> s = HTTP_CLOSED \<or> s = HTTP_BROKEN"

text \<open>
  \<open>h_buf\<close> are the first \<open>len\<close> bytes of the buffer of \<open>50 * BUFSIZ\<close>; \<open>receive_loop\<close> has the assertion
  that keeps them within it. \<open>status_code\<close> is a signed \<open>int\<close>, read with \<open>sint\<close>.
\<close>

record http_connection =
  h_state :: http_state
  status_code :: u32
  content_length :: nat
  has_content_length :: bool
  h_buf :: "u8 list"

definition BUFSIZ :: nat where "BUFSIZ = 8192"

definition content_length_header :: "u8 list" where
  "content_length_header = [67, 111, 110, 116, 101, 110, 116, 45, 76, 101, 110, 103, 116, 104, 58, 32]"

text \<open>A line that ends with a carriage return at \<open>i\<close> and a line feed is interpreted and removed.\<close>

definition header_line :: "nat \<Rightarrow> http_connection \<Rightarrow> http_connection" where
  "header_line i conn =
     (let line = c_string (take i (h_buf conn));
          conn =
            (if h_state conn = HTTP_INITIAL
             then (case sscanf_status line of
                     Some code \<Rightarrow> conn\<lparr>status_code := code, h_state := HTTP_HEADERS\<rparr>
                   | None \<Rightarrow> conn\<lparr>h_state := HTTP_BROKEN\<rparr>)
             else if i = 0 then conn\<lparr>h_state := HTTP_BODY\<rparr>
             else if take 16 line = content_length_header
             then conn\<lparr>content_length := strtoul (drop 16 line), has_content_length := True\<rparr>
             else conn)
      in conn\<lparr>h_buf := drop (i + 2) (h_buf conn)\<rparr>)"

lemma header_line_buf [simp]: "h_buf (header_line i conn) = drop (i + 2) (h_buf conn)"
  by (simp add: header_line_def Let_def split: option.split)

function consume_loop :: "nat \<Rightarrow> http_connection \<Rightarrow> http_connection" where
  "consume_loop i conn =
     (if (h_state conn = HTTP_INITIAL \<or> h_state conn = HTTP_HEADERS) \<and> i + 2 \<le> length (h_buf conn)
      then if h_buf conn ! i = 13 \<and> h_buf conn ! (i + 1) = 10
           then consume_loop 0 (header_line i conn)
           else consume_loop (i + 1) conn
      else conn)"
  by pat_completeness auto
termination
  by (relation "measure (\<lambda>(i, conn). 2 * length (h_buf conn) - i)") auto

definition http_consume_headers :: "http_connection \<Rightarrow> bool \<Rightarrow> bool \<times> http_connection" where
  "http_consume_headers conn eof =
     (let conn = consume_loop 0 conn;
          conn = (if h_state conn = HTTP_BODY \<and> (has_content_length conn \<or> eof)
                     \<and> length (h_buf conn) \<ge> content_length conn
                  then conn\<lparr>h_state := HTTP_DONE\<rparr> else conn);
          conn = (if eof
                  then conn\<lparr>h_state := (if h_state conn = HTTP_DONE then HTTP_CLOSED else HTTP_BROKEN)\<rparr>
                  else conn)
      in (\<not> ended (h_state conn), conn))"

text \<open>A new connection: what \<open>malloc\<close> leaves in the other fields is an argument.\<close>

definition http_connect :: "http_connection \<Rightarrow> http_connection" where
  "http_connect junk = junk\<lparr>h_state := HTTP_REQUEST\<rparr>"

text \<open>What one call of \<open>write\<close> or \<open>read\<close> gives; \<open>Again\<close> is \<open>EINTR\<close> or \<open>EAGAIN\<close>.\<close>

datatype write_result = Wrote nat | WAgain | WFailed
datatype read_result = Received "u8 list" | Again | Failed

text \<open>
  The loop that writes a request: \<open>Some True\<close> when all bytes were written, \<open>Some False\<close> for an
  exit with an error, \<open>None\<close> when it still waits; the second part is what the server has got.
\<close>

fun send_loop :: "u8 list \<Rightarrow> nat \<Rightarrow> write_result list \<Rightarrow> bool option \<times> u8 list" where
  "send_loop req pos results =
     (if pos < length req
      then (case results of
              [] \<Rightarrow> (None, take pos req)
            | WFailed # _ \<Rightarrow> (Some False, take pos req)
            | WAgain # results \<Rightarrow> send_loop req pos results
            | Wrote 0 # _ \<Rightarrow> (Some False, take pos req)
            | Wrote (Suc n) # results \<Rightarrow> send_loop req (min (pos + Suc n) (length req)) results)
      else (Some True, take pos req))"

definition ascii :: "string \<Rightarrow> u8 list" where "ascii s = map of_char s"

definition crlf :: "u8 list" where "crlf = [13, 10]"

definition request_text :: "u8 list \<Rightarrow> u8 list \<Rightarrow> u8 list \<Rightarrow> u8 list" where
  "request_text pong_user uri pong_host =
     ascii ''POST /'' @ pong_user @ ascii ''/'' @ uri @ ascii '' HTTP/1.0'' @ crlf
     @ ascii ''Host: '' @ pong_host @ crlf
     @ ascii ''Connection: keep-alive'' @ crlf
     @ crlf"

text \<open>
  \<open>http_send_request\<close>: its assertion, and the fields it clears; \<open>None\<close> when it does not return.
\<close>

definition clear_response :: "http_connection \<Rightarrow> http_connection" where
  "clear_response conn =
     conn\<lparr>h_state := HTTP_INITIAL, status_code := - 1, content_length := 0,
          has_content_length := False, h_buf := []\<rparr>"

definition http_send_request ::
    "u8 list \<Rightarrow> u8 list \<Rightarrow> http_connection \<Rightarrow> u8 list \<Rightarrow> write_result list \<Rightarrow> http_connection option" where
  "http_send_request pong_user pong_host conn uri results =
     (if h_state conn = HTTP_REQUEST \<or> h_state conn = HTTP_DONE
      then (if fst (send_loop (request_text pong_user uri pong_host) 0 results) = Some True then Some (clear_response conn) else None)
      else None)"

text \<open>
  How the loop of \<open>http_receive_response\<close> ends: the response, whether the two mutexes were given
  up on the way, and the results not used; or the assertion on the length, an exit, a wait.
\<close>

datatype reception = Response http_connection bool "read_result list" | TooLong | Exited | Waiting

primrec receive_loop :: "read_result list \<Rightarrow> bool \<Rightarrow> nat \<Rightarrow> bool \<Rightarrow> http_connection \<Rightarrow> reception" where
  "receive_loop [] eof reps needToRelock conn =
     (let (more, conn) = http_consume_headers conn eof
      in if \<not> more then Response conn needToRelock []
         else if length (h_buf conn) < 49 * BUFSIZ then Waiting else TooLong)"
| "receive_loop (r # rs) eof reps needToRelock conn =
     (let (more, conn) = http_consume_headers conn eof
      in if \<not> more then Response conn needToRelock (r # rs)
         else
           (let reps = reps + 1;
                needToRelock = (needToRelock \<or> (reps > 1 \<and> h_state conn \<noteq> HTTP_HEADERS))
            in if length (h_buf conn) < 49 * BUFSIZ
               then (case r of
                       Received bs \<Rightarrow>
                         if bs = [] then receive_loop rs True reps needToRelock conn
                         else receive_loop rs eof reps needToRelock (conn\<lparr>h_buf := h_buf conn @ bs\<rparr>)
                     | Again \<Rightarrow> receive_loop rs eof reps needToRelock conn
                     | Failed \<Rightarrow> Exited)
               else TooLong))"

text \<open>
  What \<open>http_receive_response\<close> does with the two mutexes after its loop; a response that tells
  the client to wait keeps it asleep before that, which is not shown here.
\<close>

datatype response_end = ServerError | UnlockBoth | StayLocked | AlreadyUnlocked | LostUnlocked

definition finish_response :: "bool \<Rightarrow> http_connection \<Rightarrow> response_end" where
  "finish_response needToRelock conn =
     (if sint (status_code conn) \<ge> 500 then ServerError
      else if \<not> needToRelock \<and> status_code conn \<noteq> - 1 then UnlockBoth
      else if needToRelock \<and> status_code conn = - 1 then LostUnlocked
      else if needToRelock then AlreadyUnlocked else StayLocked)"

text \<open>The text of a response cut for an error message.\<close>

definition http_truncate_response :: "u8 list \<Rightarrow> u8 list" where
  "http_truncate_response s = take 100 (takeWhile (\<lambda>b. b \<noteq> 10 \<and> b \<noteq> 0) s)"

section \<open>The ball\<close>

record coord_info =
  ball_x :: int
  ball_y :: int
  ball_dx :: int
  ball_dy :: int
  board_width :: int
  board_height :: int

text \<open>One coordinate: the step, and the reflection when it leaves \<open>[0, bound)\<close>.\<close>

definition bounce :: "int \<Rightarrow> int \<Rightarrow> int \<Rightarrow> int \<times> int" where
  "bounce bound v dv =
     (let v = v + dv
      in if v < 0 \<or> v \<ge> bound then (let dv = - dv in (v + 2 * dv, dv)) else (v, dv))"

definition move_ball :: "coord_info \<Rightarrow> coord_info" where
  "move_ball cd =
     (let (v, dv) = bounce (board_width cd) (ball_x cd) (ball_dx cd);
          (w, dw) = bounce (board_height cd) (ball_y cd) (ball_dy cd)
      in cd\<lparr>ball_x := v, ball_dx := dv, ball_y := w, ball_dy := dw\<rparr>)"

definition start_ball :: "int \<Rightarrow> int \<Rightarrow> coord_info" where
  "start_ball w h = \<lparr>ball_x = 0, ball_y = 0, ball_dx = 1, ball_dy = 1, board_width = w, board_height = h\<rparr>"

text \<open>The waiting time in units of \<open>MINTIME\<close>.\<close>

definition backoff :: "nat \<Rightarrow> nat" where
  "backoff waittime = (let w = (if waittime = 0 then 1 else 2 * waittime) in if w < 256 then w else 256)"

section \<open>Shared connections\<close>

definition MAXTHREADS :: int where "MAXTHREADS = 30"
definition NCONNECTIONS :: nat where "NCONNECTIONS = 30"

datatype con_status = CON_UNINIT | CON_VALID | CON_INUSE

text \<open>\<open>shared_conn\<close> is the address of the connection object; 0 is \<open>NULL\<close>.\<close>

record con_avail =
  shared_conn :: nat
  shared_status :: con_status

definition slotOfConnection :: "nat \<Rightarrow> con_avail list \<Rightarrow> nat option" where
  "slotOfConnection c sharedConnections = find (\<lambda>i. shared_conn (sharedConnections ! i) = c) [0..<NCONNECTIONS]"

definition connectionSlotWithStatus :: "con_status \<Rightarrow> con_avail list \<Rightarrow> nat option" where
  "connectionSlotWithStatus st sharedConnections =
     find (\<lambda>i. shared_status (sharedConnections ! i) = st) [0..<NCONNECTIONS]"

text \<open>\<open>fresh\<close> is the address \<open>malloc\<close> gives a new connection; \<open>None\<close> is the failing assertion.\<close>

definition getConn :: "nat \<Rightarrow> con_avail list \<Rightarrow> (nat \<times> con_avail list) option" where
  "getConn fresh sharedConnections =
     (case connectionSlotWithStatus CON_VALID sharedConnections of
        Some i \<Rightarrow> Some (shared_conn (sharedConnections ! i),
                         sharedConnections[i := (sharedConnections ! i)\<lparr>shared_status := CON_INUSE\<rparr>])
      | None \<Rightarrow>
          (case connectionSlotWithStatus CON_UNINIT sharedConnections of
             Some i \<Rightarrow> Some (fresh, sharedConnections[i := \<lparr>shared_conn = fresh, shared_status = CON_INUSE\<rparr>])
           | None \<Rightarrow> None))"

text \<open>\<open>None\<close> is the access to slot -1.\<close>

definition releaseConn :: "nat \<Rightarrow> bool \<Rightarrow> con_avail list \<Rightarrow> con_avail list option" where
  "releaseConn c ok sharedConnections =
     map_option (\<lambda>i. sharedConnections[i := (sharedConnections ! i)
                       \<lparr>shared_status := if ok then CON_VALID else CON_UNINIT\<rparr>])
       (slotOfConnection c sharedConnections)"

section \<open>Threads\<close>

text \<open>
  Where a thread is in \<open>startConnection\<close> and \<open>http_receive_response\<close>; the arguments are its
  connection and its position. The sections under \<open>connLock\<close> and \<open>threadLock\<close> are single steps.
  \<open>Receiving\<close>: the request is sent, both mutexes are held. \<open>Unlocking\<close>: \<open>sendLock\<close> is given
  up, \<open>serverLock\<close> is next; the flag says that the body is still to come. \<open>Draining\<close>: the body is
  received without mutexes. \<open>Stopped\<close>: the thread sleeps for the server, with \<open>sendLock\<close>.
  \<open>Releasing\<close>: the connection was lost, \<open>serverLock\<close> is kept for the next attempt.
\<close>

datatype thread =
    Starting
  | Connecting "int \<times> int"
  | Connected nat "int \<times> int"
  | Receiving nat "int \<times> int"
  | Unlocking nat bool
  | Draining nat
  | Stopped nat
  | Releasing nat "int \<times> int"
  | Finishing nat
  | Leaving
  | Left

text \<open>The main loop: before the test of \<open>nthreads\<close>, before \<open>pthread_create\<close>, before \<open>++nthreads\<close>.\<close>

datatype main_loop = Sleeping | Creating | Counting

text \<open>\<open>turns\<close> and \<open>sent\<close> only record: who took which position, and which request was sent when.\<close>

record pong =
  serverLock :: "nat option"
  sendLock :: "nat option"
  sharedConnections :: "con_avail list"
  nthreads :: int
  main :: main_loop
  threads :: "thread list"
  ball :: coord_info
  turns :: "(nat \<times> int \<times> int) list"
  sent :: "(nat \<times> int \<times> int) list"

definition start_pong :: "int \<Rightarrow> int \<Rightarrow> pong" where
  "start_pong w h =
     \<lparr>serverLock = None, sendLock = None,
      sharedConnections = replicate NCONNECTIONS \<lparr>shared_conn = 0, shared_status = CON_UNINIT\<rparr>,
      nthreads = 0, main = Sleeping, threads = [], ball = start_ball w h, turns = [], sent = []\<rparr>"

definition at :: "pong \<Rightarrow> nat \<Rightarrow> thread \<Rightarrow> bool" where
  "at s t p \<longleftrightarrow> t < length (threads s) \<and> threads s ! t = p"

definition go :: "nat \<Rightarrow> thread \<Rightarrow> pong \<Rightarrow> pong" where
  "go t p s = s\<lparr>threads := (threads s)[t := p]\<rparr>"

definition take_turn :: "nat \<Rightarrow> pong \<Rightarrow> pong" where
  "take_turn t s =
     (let b = move_ball (ball s); p = (ball_x b, ball_y b)
      in go t (Connecting p) (s\<lparr>serverLock := Some t, ball := b, turns := turns s @ [(t, p)]\<rparr>))"

definition live :: "con_avail list \<Rightarrow> nat set" where
  "live cs = {shared_conn (cs ! i) | i. i < NCONNECTIONS \<and> shared_status (cs ! i) \<noteq> CON_UNINIT}"

text \<open>A step that ends the process (an exit, a failed assertion) is no step.\<close>

inductive pong_step :: "pong \<Rightarrow> pong \<Rightarrow> bool" where
  check: "main s = Sleeping \<Longrightarrow> nthreads s < MAXTHREADS \<Longrightarrow> pong_step s (s\<lparr>main := Creating\<rparr>)"
| create: "main s = Creating \<Longrightarrow> pong_step s (s\<lparr>main := Counting, threads := threads s @ [Starting]\<rparr>)"
| count: "main s = Counting \<Longrightarrow> pong_step s (s\<lparr>main := Sleeping, nthreads := nthreads s + 1\<rparr>)"
| move: "at s t Starting \<Longrightarrow> serverLock s = None \<Longrightarrow> pong_step s (take_turn t s)"
| connect: "at s t (Connecting p) \<Longrightarrow> fresh \<notin> live (sharedConnections s) \<Longrightarrow>
    getConn fresh (sharedConnections s) = Some (c, cs) \<Longrightarrow>
    pong_step s (go t (Connected c p) (s\<lparr>sharedConnections := cs\<rparr>))"
| send: "at s t (Connected c p) \<Longrightarrow> sendLock s = None \<Longrightarrow>
    pong_step s (go t (Receiving c p) (s\<lparr>sendLock := Some t, sent := sent s @ [(t, p)]\<rparr>))"
| answer: "at s t (Receiving c p) \<Longrightarrow> pong_step s (go t (Unlocking c delayed) (s\<lparr>sendLock := None\<rparr>))"
| unlock: "at s t (Unlocking c delayed) \<Longrightarrow>
    pong_step s (go t (if delayed then Draining c else Finishing c) (s\<lparr>serverLock := None\<rparr>))"
| lost: "at s t (Receiving c p) \<Longrightarrow> pong_step s (go t (Releasing c p) (s\<lparr>sendLock := None\<rparr>))"
| retry: "at s t (Releasing c p) \<Longrightarrow> releaseConn c False (sharedConnections s) = Some cs \<Longrightarrow>
    pong_step s (go t (Connecting p) (s\<lparr>sharedConnections := cs\<rparr>))"
| body: "at s t (Draining c) \<Longrightarrow> pong_step s (go t (Finishing c) s)"
| stop: "at s t (Draining c) \<Longrightarrow> sendLock s = None \<Longrightarrow>
    pong_step s (go t (Stopped c) (s\<lparr>sendLock := Some t\<rparr>))"
| resume: "at s t (Stopped c) \<Longrightarrow> pong_step s (go t (Finishing c) (s\<lparr>sendLock := None\<rparr>))"
| finish: "at s t (Finishing c) \<Longrightarrow> releaseConn c ok (sharedConnections s) = Some cs \<Longrightarrow>
    pong_step s (go t Leaving (s\<lparr>sharedConnections := cs\<rparr>))"
| leave: "at s t Leaving \<Longrightarrow> pong_step s (go t Left (s\<lparr>nthreads := nthreads s - 1\<rparr>))"

inductive pong_reach :: "int \<Rightarrow> int \<Rightarrow> pong \<Rightarrow> bool" for w h where
  begin_pong: "pong_reach w h (start_pong w h)"
| next_pong: "pong_reach w h s \<Longrightarrow> pong_step s s' \<Longrightarrow> pong_reach w h s'"

end
