(* ===== verification/PongHttp.thy ===== *)
theory PongHttp
  imports Pong61 Printf
begin

text \<open>
  The parser of HTTP responses: parsing in pieces is parsing at once, and a response of the
  server is read back.
\<close>

section \<open>Parsing in pieces\<close>

definition feed :: "u8 list \<Rightarrow> http_connection \<Rightarrow> http_connection" where
  "feed bs c = c\<lparr>h_buf := h_buf c @ bs\<rparr>"

lemma feed_simps [simp]:
  "h_buf (feed bs c) = h_buf c @ bs" "h_state (feed bs c) = h_state c"
  "content_length (feed bs c) = content_length c" "has_content_length (feed bs c) = has_content_length c"
  "status_code (feed bs c) = status_code c" "feed bs (feed as c) = feed (as @ bs) c"
  by (simp_all add: feed_def)

declare consume_loop.simps [simp del]

definition line_end :: "http_connection \<Rightarrow> nat \<Rightarrow> bool" where
  "line_end c i \<longleftrightarrow> h_buf c ! i = 13 \<and> h_buf c ! (i + 1) = 10"

definition no_line_end :: "nat \<Rightarrow> http_connection \<Rightarrow> bool" where
  "no_line_end i c \<longleftrightarrow> (\<forall>j < i. j + 1 < length (h_buf c) \<and> \<not> line_end c j)"

lemma header_line_feed:
  assumes "i + 2 \<le> length (h_buf c)"
  shows "header_line i (feed b c) = feed b (header_line i c)"
  using assms by (simp add: header_line_def feed_def Let_def split: option.split)

lemma consume_step:
  "i + 1 < length (h_buf c) \<Longrightarrow> \<not> line_end c i \<Longrightarrow> consume_loop i c = consume_loop (i + 1) c"
proof -
  assume i: "i + 1 < length (h_buf c)" "\<not> line_end c i"
  show ?thesis
  proof (cases "h_state c = HTTP_INITIAL \<or> h_state c = HTTP_HEADERS")
    case True
    then show ?thesis using i by (subst consume_loop.simps) (auto simp: line_end_def)
  next
    case False
    then have "consume_loop j c = c" for j by (subst consume_loop.simps) simp
    then show ?thesis by simp
  qed
qed

text \<open>Where no line ends the scan can start later.\<close>

lemma consume_skip: "no_line_end i c \<Longrightarrow> consume_loop 0 c = consume_loop i c"
proof (induction i)
  case (Suc i)
  then have "no_line_end i c" and i: "i + 1 < length (h_buf c)" "\<not> line_end c i"
    by (auto simp: no_line_end_def)
  have "consume_loop i c = consume_loop (Suc i) c"
    using consume_step [OF i] by simp
  then show ?case using Suc.IH \<open>no_line_end i c\<close> by simp
qed simp

lemma consume_feed: "no_line_end i c \<Longrightarrow> consume_loop 0 (feed b (consume_loop i c)) = consume_loop i (feed b c)"
proof (induction i c rule: consume_loop.induct)
  case (1 i c)
  show ?case
  proof (cases "(h_state c = HTTP_INITIAL \<or> h_state c = HTTP_HEADERS) \<and> i + 2 \<le> length (h_buf c)")
    case True
    have same: "(feed b c) = feed b c" by simp
    have nth: "h_buf (feed b c) ! i = h_buf c ! i" "h_buf (feed b c) ! (i + 1) = h_buf c ! (i + 1)"
      using True by (simp_all add: nth_append)
    have True': "(h_state (feed b c) = HTTP_INITIAL \<or> h_state (feed b c) = HTTP_HEADERS) \<and> i + 2 \<le> length (h_buf (feed b c))"
      using True by simp
    show ?thesis
    proof (cases "line_end c i")
      case le: True
      have "consume_loop i c = consume_loop 0 (header_line i c)"
        using True le by (subst consume_loop.simps) (simp add: line_end_def)
      moreover have "consume_loop i (feed b c) = consume_loop 0 (feed b (header_line i c))"
        using True' le nth header_line_feed [of i c b] True by (subst consume_loop.simps) (simp add: line_end_def)
      moreover have "no_line_end 0 (header_line i c)" by (simp add: no_line_end_def)
      ultimately show ?thesis using "1.IH"(1) [OF True] le by (simp add: line_end_def)
    next
      case le: False
      have "consume_loop i c = consume_loop (i + 1) c"
        using True le consume_step [of i c] by simp
      moreover have "consume_loop i (feed b c) = consume_loop (i + 1) (feed b c)"
        using True' le nth consume_step [of i "feed b c"] by (simp add: line_end_def)
      moreover have "no_line_end (i + 1) c"
        using "1.prems" le True by (auto simp: no_line_end_def less_Suc_eq)
      ultimately show ?thesis using "1.IH"(2) [OF True] le by (simp add: line_end_def)
    qed
  next
    case False
    then have "consume_loop i c = c" by (subst consume_loop.simps) auto
    moreover have "no_line_end i (feed b c)"
      using "1.prems" by (auto simp: no_line_end_def line_end_def nth_append)
    ultimately show ?thesis using consume_skip by simp
  qed
qed

lemma consume_pieces: "consume_loop 0 (feed b (consume_loop 0 (feed a c))) = consume_loop 0 (feed (a @ b) c)"
  using consume_feed [of 0 "feed a c" b] by (simp add: no_line_end_def)

lemma headers_more: "fst (http_consume_headers c False) \<Longrightarrow> snd (http_consume_headers c False) = consume_loop 0 c"
  by (auto simp: http_consume_headers_def Let_def ended_def split: if_splits)

lemma headers_pieces:
  assumes "fst (http_consume_headers (feed a c) False)"
  shows "http_consume_headers (feed b (snd (http_consume_headers (feed a c) False))) eof = http_consume_headers (feed (a @ b) c) eof"
  unfolding headers_more [OF assms] unfolding http_consume_headers_def consume_pieces ..

lemma feed_Nil [simp]: "feed [] c = c"
  by (simp add: feed_def)

lemma consume_length: "length (h_buf (consume_loop i c)) \<le> length (h_buf c)"
proof (induction i c rule: consume_loop.induct)
  case (1 i c)
  then show ?case by (subst consume_loop.simps) (auto intro: order_trans)
qed

section \<open>Receiving in pieces\<close>

definition complete :: "http_connection \<Rightarrow> bool" where
  "complete c \<longleftrightarrow> \<not> fst (http_consume_headers c False)"

lemma receive_pieces:
  assumes "k \<le> length bss" "complete (feed (concat (take k bss)) c)" "\<And>j. j < k \<Longrightarrow> \<not> complete (feed (concat (take j bss)) c)"
    "[] \<notin> set bss" "length (h_buf c) + length (concat bss) < 49 * BUFSIZ"
  shows "\<exists>r. receive_loop (map Received bss) False reps relock c =
    Response (snd (http_consume_headers (feed (concat (take k bss)) c) False)) r (map Received (drop k bss))"
  using assms
proof (induction bss arbitrary: k c reps relock)
  case Nil
  then show ?case by (cases "http_consume_headers c False") (auto simp: complete_def)
next
  case (Cons b bss)
  show ?case
  proof (cases k)
    case 0
    then show ?thesis using Cons.prems(2) by (cases "http_consume_headers c False") (auto simp: complete_def)
  next
    case (Suc j)
    define d where "d = snd (http_consume_headers c False)"
    have more: "fst (http_consume_headers c False)" using Cons.prems(3) [of 0] Suc by (simp add: complete_def)
    then have c: "http_consume_headers c False = (True, d)" by (cases "http_consume_headers c False") (simp add: d_def)
    have d: "d = consume_loop 0 c" using headers_more [OF more] by (simp add: d_def)
    have pieces: "http_consume_headers (feed x (feed b d)) False = http_consume_headers (feed (b @ x) c) False" for x
      using headers_pieces [of "[]" c "b @ x" False] more by (simp add: d_def)
    have len: "length (h_buf d) \<le> length (h_buf c)" unfolding d by (rule consume_length)
    have "\<exists>r. receive_loop (map Received bss) False (reps + 1)
        (relock \<or> (reps + 1 > 1 \<and> h_state d \<noteq> HTTP_HEADERS)) (feed b d) =
      Response (snd (http_consume_headers (feed (concat (take j bss)) (feed b d)) False)) r (map Received (drop j bss))"
    proof (rule Cons.IH)
      show "complete (feed (concat (take j bss)) (feed b d))"
        using Cons.prems(2) Suc unfolding complete_def pieces by simp
      show "\<not> complete (feed (concat (take i bss)) (feed b d))" if "i < j" for i
        using Cons.prems(3) [of "Suc i"] Suc that unfolding complete_def pieces by simp
    qed (use Cons.prems(1,4,5) Suc len in simp_all)
    then show ?thesis
      unfolding pieces using c Suc Cons.prems(4,5) len by (auto simp: feed_def)
  qed
qed

section \<open>A response of the server\<close>

definition dec :: "nat \<Rightarrow> u8 list" where
  "dec n = map (\<lambda>d. word_of_nat (48 + d)) (nat_digits 10 n)"

definition response_text :: "nat \<Rightarrow> u8 list \<Rightarrow> u8 list" where
  "response_text code body =
     (http_1 @ dec 1 @ [32] @ dec code @ [32, 79, 75]) @ [13, 10]
     @ (content_length_header @ dec (length body)) @ [13, 10] @ [13, 10] @ body"

lemma dec_digit:
  assumes "b \<in> set (dec n)"
  shows "isdigit b" "b \<noteq> 13" "b \<noteq> 0" "\<not> isspace b" "b \<noteq> 43" "b \<noteq> 45"
proof -
  obtain d where d: "d < 10" "b = word_of_nat (48 + d)"
    using assms nat_digits_less [of 10 _ n] by (auto simp: dec_def)
  have u: "unat b = 48 + d" using d by (simp add: unat_word_of_nat_less del: of_nat_add)
  show "isdigit b" using u d(1) by (simp add: isdigit_def word_le_nat_alt)
  then show "b \<noteq> 13" "b \<noteq> 0" "b \<noteq> 43" "b \<noteq> 45" "\<not> isspace b"
    using u by (auto simp: isspace_def word_le_nat_alt)
qed

lemma dec_value: "digits_value 10 decimal (dec n) = n"
proof -
  have "map decimal (dec n) = nat_digits 10 n"
    unfolding dec_def map_map
  proof (rule map_idI)
    fix d assume "d \<in> set (nat_digits 10 n)"
    then have "d < 10" by (intro nat_digits_less) simp_all
    then show "(decimal \<circ> (\<lambda>d. word_of_nat (48 + d))) d = d"
      by (simp add: decimal_def unat_word_of_nat_less del: of_nat_add)
  qed
  then have "foldl (\<lambda>a d. 10 * a + d) 0 (map decimal (dec n)) = n" by (simp add: nat_digits_value)
  then show ?thesis by (simp add: digits_value_def foldl_map)
qed

lemma dec_Cons: obtains d ds where "dec n = d # ds"
  using nat_digits_nonempty [of 10 n] by (cases "dec n") (simp_all add: dec_def)

lemma scan_sign_dec: "scan_sign (dropWhile isspace (dec n @ r)) = (False, dec n @ r)"
proof -
  obtain d ds where d: "dec n = d # ds" by (rule dec_Cons)
  then show ?thesis using dec_digit [of d n] by (simp add: scan_sign_def)
qed

lemma take_digits:
  assumes "r = [] \<or> \<not> isdigit (hd r)"
  shows "takeWhile isdigit (dec n @ r) = dec n" "dropWhile isdigit (dec n @ r) = r"
  using assms dec_digit(1) [of _ n] by (cases r; simp)+

lemma scan_int_dec:
  assumes r: "r = [] \<or> \<not> isdigit (hd r)" and n: "n < 2 ^ 31"
  shows "scan_int (dec n @ r) = Some (word_of_int (int n), r)"
proof -
  have v: "int_of_long (int n) = word_of_int (int n)"
  proof -
    have "int n < 2 ^ 31" "0 \<le> int n" using n by simp_all
    then have "max (- (2 ^ 63)) (min (2 ^ 63 - 1) (int n)) = int n" by simp
    then show ?thesis by (simp only: int_of_long_def)
  qed
  obtain d ds where d: "dec n = d # ds" by (rule dec_Cons)
  show ?thesis
    unfolding scan_int_def scan_sign_dec prod.case Let_def take_digits [OF r] dec_value by (simp add: d v)
qed

lemma strtoul_dec: "n < 2 ^ 64 \<Longrightarrow> strtoul (dec n) = n"
proof -
  assume n: "n < 2 ^ 64"
  obtain d ds where d: "dec n = d # ds" by (rule dec_Cons)
  have "takeWhile isdigit (dec n) = dec n" using take_digits(1) [of "[]" n] by simp
  moreover have "d = 48 \<Longrightarrow> n = 0 \<and> ds = []"
  proof (cases "n = 0")
    case True
    then show ?thesis using d by (simp add: dec_def nat_digits.simps [of 10 0])
  next
    case False
    assume z: "d = 48"
    have h: "hd (nat_digits 10 n) \<noteq> 0" using False by (intro nat_digits_no_leading_zero) simp_all
    have l: "hd (nat_digits 10 n) < 10" by (rule nat_digits_less [of 10 _ n]) simp_all
    have "d = word_of_nat (48 + hd (nat_digits 10 n))" using d by (cases "nat_digits 10 n") (simp_all add: dec_def)
    then have "unat d = 48 + hd (nat_digits 10 n)" using l by (simp add: unat_word_of_nat_less del: of_nat_add)
    then show ?thesis using z h by simp
  qed
  ultimately have "fst (scan_unsigned (dec n)) = n"
    using dec_value [of n] d by (auto simp: scan_unsigned_def digits_value_def isoctal_def decimal_def Let_def)
  then show ?thesis using n scan_sign_dec [of n "[]"] by (simp add: strtoul_def Let_def)
qed

lemma consume_line:
  assumes "h_state c = HTTP_INITIAL \<or> h_state c = HTTP_HEADERS" "h_buf c = line @ 13 # 10 # rest" "13 \<notin> set line"
  shows "consume_loop 0 c = consume_loop 0 (header_line (length line) c)"
proof -
  have "line ! j \<noteq> 13" if "j < length line" for j using assms(3) that by (metis nth_mem)
  then have "no_line_end (length line) c"
    using assms(2) by (auto simp: no_line_end_def line_end_def nth_append)
  then have "consume_loop 0 c = consume_loop (length line) c" by (rule consume_skip)
  also have "\<dots> = consume_loop 0 (header_line (length line) c)"
    using assms(1,2) by (subst consume_loop.simps) (simp add: nth_append)
  finally show ?thesis .
qed

lemma c_string_line: "0 \<notin> set line \<Longrightarrow> c_string (take (length line) (line @ r)) = line"
  by (auto simp: c_string_def)

text \<open>
  C35: a response with a status line, its length and a body, parsed: the parser asks for no more
  data and has exactly the status code and the body. The code is one that fits an \<open>int\<close>, and the
  response one that fits the buffer of \<open>50 * BUFSIZ\<close> bytes.
\<close>

theorem http_roundtrip:
  assumes "h_state c = HTTP_INITIAL" "h_buf c = []"
    and "code < 2 ^ 31" "length (response_text code body) \<le> 50 * BUFSIZ"
  shows "let (more, r) = http_consume_headers (feed (response_text code body) c) False in
    \<not> more \<and> h_state r = HTTP_DONE \<and> sint (status_code r) = int code \<and> h_buf r = body"
proof -
  have code: "sint (word_of_int (int code) :: u32) = int code"
    using assms(3) by (subst int_word_sint) simp
  have fits: "length body < 2 ^ 64" using assms(4) by (simp add: response_text_def BUFSIZ_def)
  define sl where "sl = http_1 @ dec 1 @ [32] @ dec code @ [32, 79, 75]"
  define cl where "cl = content_length_header @ dec (length body)"
  define c0 where "c0 = feed (response_text code body) c"
  have b0: "h_buf c0 = sl @ 13 # 10 # cl @ 13 # 10 # 13 # 10 # body"
    by (simp add: c0_def assms(2) response_text_def sl_def cl_def)
  have nsl: "13 \<notin> set sl" "0 \<notin> set sl" "13 \<notin> set cl" "0 \<notin> set cl"
    using dec_digit(2,3) by (auto simp: sl_def cl_def http_1_def content_length_header_def)
  have status: "sscanf_status sl = Some (word_of_int (int code))"
  proof -
    have sp: "isspace 32" by (simp add: isspace_def)
    have "scan_int (dec 1 @ 32 # dec code @ [32, 79, 75]) = Some (1, 32 # dec code @ [32, 79, 75])"
      using scan_int_dec [of "32 # dec code @ [32, 79, 75]" 1] by (simp add: isdigit_def)
    moreover have "scan_int (dropWhile isspace (32 # dec code @ [32, 79, 75])) = Some (word_of_int (int code), [32, 79, 75])"
    proof -
      obtain d ds where d: "dec code = d # ds" by (rule dec_Cons)
      then have "dropWhile isspace (32 # dec code @ [32, 79, 75]) = dec code @ [32, 79, 75]"
        using dec_digit(4) [of d code] sp by simp
      then show ?thesis using scan_int_dec [of "[32, 79, 75]" code, OF _ assms(3)] by (simp add: isdigit_def)
    qed
    ultimately show ?thesis by (simp add: sscanf_status_def sl_def)
  qed
  define c1 where "c1 = header_line (length sl) c0"
  have c1: "h_state c1 = HTTP_HEADERS" "status_code c1 = word_of_int (int code)" "h_buf c1 = cl @ 13 # 10 # 13 # 10 # body"
    "h_state c0 = HTTP_INITIAL"
    using status c_string_line [OF nsl(2)] assms(1)
    by (simp_all add: c1_def header_line_def Let_def b0) (simp_all add: c0_def)
  define c2 where "c2 = header_line (length cl) c1"
  have len: "length cl \<noteq> 0" "take 16 cl = content_length_header" "drop 16 cl = dec (length body)"
    by (simp_all add: cl_def content_length_header_def)
  have c2: "h_state c2 = HTTP_HEADERS" "status_code c2 = word_of_int (int code)" "h_buf c2 = 13 # 10 # body"
    "content_length c2 = length body" "has_content_length c2"
    using len c_string_line [OF nsl(4)] strtoul_dec [OF fits] c1
    by (simp_all add: c2_def header_line_def Let_def)
  define c3 where "c3 = header_line 0 c2"
  have c3: "h_state c3 = HTTP_BODY" "status_code c3 = word_of_int (int code)" "h_buf c3 = body"
    "content_length c3 = length body" "has_content_length c3"
    using c2 by (simp_all add: c3_def header_line_def Let_def)
  have "consume_loop 0 c0 = consume_loop 0 c1"
    using consume_line [OF _ b0 nsl(1)] c1(4) by (simp add: c1_def)
  also have "\<dots> = consume_loop 0 c2"
    using consume_line [OF _ c1(3) nsl(3)] c1(1) by (simp add: c2_def)
  also have "\<dots> = consume_loop 0 c3"
    using consume_line [of c2 "[]" body] c2(1,3) by (simp add: c3_def)
  also have "\<dots> = c3" using c3(1) by (subst consume_loop.simps) simp
  finally show ?thesis
    using c3 code by (simp add: http_consume_headers_def c0_def [symmetric] ended_def)
qed

definition new_connection :: http_connection where
  "new_connection = \<lparr>h_state = HTTP_INITIAL, status_code = - 1, content_length = 0, has_content_length = False, h_buf = []\<rparr>"

theorem http_roundtrip_witness:
  "let (more, r) = http_consume_headers (feed (response_text 402 [43, 49, 10]) new_connection) False in
    \<not> more \<and> h_state r = HTTP_DONE \<and> sint (status_code r) = 402 \<and> h_buf r = [43, 49, 10]"
proof -
  have "length (response_text 402 [43, 49, 10]) \<le> 50 * BUFSIZ"
    by (simp add: response_text_def http_1_def content_length_header_def dec_def nat_digits.simps BUFSIZ_def)
  from http_roundtrip [OF _ _ _ this, of new_connection] show ?thesis by (simp add: new_connection_def)
qed

lemma sint_numeral: "sint (x :: u32) = numeral k \<Longrightarrow> x = numeral k"
proof -
  assume "sint x = numeral k"
  then have "(word_of_int (sint x) :: u32) = word_of_int (numeral k)" by simp
  then show ?thesis by simp
qed

lemma consume_quiet: "13 \<notin> set (h_buf c) \<Longrightarrow> consume_loop i c = c"
proof (induction "length (h_buf c) - i" arbitrary: i)
  case 0
  then show ?case by (subst consume_loop.simps) simp
next
  case (Suc n)
  then have "i < length (h_buf c)" by simp
  then have "h_buf c ! i \<noteq> 13" using Suc.prems by (metis nth_mem)
  then show ?case using Suc.hyps(1) [of "i + 1"] Suc.hyps(2) Suc.prems by (subst consume_loop.simps) simp
qed

lemma incomplete: "h_state c = HTTP_INITIAL \<Longrightarrow> 13 \<notin> set (h_buf c) \<Longrightarrow> \<not> complete c"
  by (simp add: complete_def http_consume_headers_def ended_def consume_quiet)

text \<open>
  C36: however the network cuts a response into pieces, \<open>http_receive_response\<close> ends with the
  first piece that completes it and with what the parser makes of the whole text at once;
  the later pieces are not read.
\<close>

theorem http_pieces:
  assumes "k \<le> length bss" "complete (feed (concat (take k bss)) c)"
    and "list_all (\<lambda>j. \<not> complete (feed (concat (take j bss)) c)) [0..<k]"
    and "[] \<notin> set bss" "length (h_buf c) + length (concat bss) < 49 * BUFSIZ"
  shows "\<exists>r. receive_loop (map Received bss) False 0 False c =
    Response (snd (http_consume_headers (feed (concat (take k bss)) c) False)) r (map Received (drop k bss))"
  using receive_pieces [of k bss c 0 False] assms by (auto simp: list_all_iff)

theorem http_pieces_witness:
  "\<exists>c r. receive_loop [Received (take 10 (response_text 200 [48])), Received (drop 10 (response_text 200 [48]))]
      False 0 False new_connection = Response c r [] \<and> status_code c = 200 \<and> h_buf c = [48]"
proof -
  let ?T = "response_text 200 [48]"
  let ?bss = "[take 10 ?T, drop 10 ?T]"
  have T: "take 10 ?T = [72, 84, 84, 80, 47, 49, 46, 49, 32, 50]" "drop 10 ?T \<noteq> []" "length ?T < 1000"
    by (simp_all add: response_text_def http_1_def content_length_header_def dec_def nat_digits.simps)
  have m: "\<not> complete (feed [] new_connection)" "\<not> complete (feed (take 10 ?T) new_connection)"
    by (simp_all add: incomplete new_connection_def T(1))
  have r: "complete (feed ?T new_connection)"
    "status_code (snd (http_consume_headers (feed ?T new_connection) False)) = 200"
    "h_buf (snd (http_consume_headers (feed ?T new_connection) False)) = [48]"
    using http_roundtrip [of new_connection 200 "[48]"] T(3)
    by (auto simp: complete_def new_connection_def BUFSIZ_def dest: sint_numeral split: prod.splits)
  have "\<exists>r. receive_loop (map Received ?bss) False 0 False new_connection =
    Response (snd (http_consume_headers (feed (concat (take 2 ?bss)) new_connection) False)) r (map Received (drop 2 ?bss))"
  proof (rule http_pieces)
    show "list_all (\<lambda>j. \<not> complete (feed (concat (take j ?bss)) new_connection)) [0..<2]"
      using m by (simp add: upt_rec)
    show "length (h_buf new_connection) + length (concat ?bss) < 49 * BUFSIZ"
      using T(3) by (simp add: new_connection_def BUFSIZ_def)
    show "complete (feed (concat (take 2 ?bss)) new_connection)" using r(1) by simp
  qed (use T(1,2) in simp_all)
  then show ?thesis using r by auto
qed

text \<open>
  The assertion at the end of \<open>http_receive_response\<close> can fail: when the status line comes
  in more than one piece the mutexes are given up before the status is known, and when the
  connection is then lost the status is still -1.
\<close>

theorem early_unlock_asserts:
  assumes "bs \<noteq> []" "13 \<notin> set bs" "length bs < 49 * BUFSIZ"
  shows "\<exists>c. receive_loop [Received bs, Received []] False 0 False new_connection = Response c True []
    \<and> finish_response True c = LostUnlocked"
proof -
  define c where "c = feed bs new_connection"
  have c: "h_state c = HTTP_INITIAL" "h_buf c = bs" "status_code c = - 1" by (simp_all add: c_def new_connection_def)
  have loop: "consume_loop 0 c = c" "consume_loop 0 new_connection = new_connection"
    by (rule consume_quiet; use c assms(2) in \<open>simp add: new_connection_def\<close>)+
  have "http_consume_headers new_connection False = (True, new_connection)"
    "http_consume_headers c False = (True, c)" "http_consume_headers c True = (False, c\<lparr>h_state := HTTP_BROKEN\<rparr>)"
    using c(1) by (simp_all add: http_consume_headers_def loop Let_def ended_def) (simp_all add: new_connection_def)
  moreover have "new_connection\<lparr>h_buf := h_buf new_connection @ bs\<rparr> = c" by (simp add: c_def feed_def)
  moreover have "length (h_buf new_connection) < 49 * BUFSIZ" by (simp add: new_connection_def BUFSIZ_def)
  ultimately show ?thesis
    using assms c by (simp add: finish_response_def)
qed

theorem early_unlock_asserts_witness:
  "\<exists>c. receive_loop [Received (ascii ''HTTP/1.1''), Received []] False 0 False new_connection = Response c True []
    \<and> finish_response True c = LostUnlocked"
  by (rule early_unlock_asserts) (simp_all add: ascii_def BUFSIZ_def)

end
