(* ===== verification/PongBall.thy ===== *)
theory PongBall
  imports Pong61
begin

text \<open>
  The trajectory of the ball in closed form.
\<close>

section \<open>The ball\<close>

text \<open>A coordinate runs from 0 to \<open>size - 1\<close> and back.\<close>

definition fold_into :: "int \<Rightarrow> int \<Rightarrow> int" where
  "fold_into w r = (if r < w then r else 2 * (w - 1) - r)"

definition zigzag :: "int \<Rightarrow> nat \<Rightarrow> int" where
  "zigzag w n = fold_into w (int n mod (2 * (w - 1)))"

definition heading :: "int \<Rightarrow> int \<Rightarrow> int \<Rightarrow> bool" where
  "heading w r dv \<longleftrightarrow> (if r = 0 then dv = 1 \<or> dv = - 1 else if r < w then dv = 1 else dv = - 1)"

definition on_track :: "int \<Rightarrow> nat \<Rightarrow> int \<Rightarrow> int \<Rightarrow> bool" where
  "on_track w n v dv \<longleftrightarrow> v = zigzag w n \<and> heading w (int n mod (2 * (w - 1))) dv"

lemma bounce_round:
  assumes "2 \<le> w" "0 \<le> r" "r < 2 * (w - 1)" "heading w r dv" "bounce w (fold_into w r) dv = (v', dv')"
  defines "r' \<equiv> (if r + 1 = 2 * (w - 1) then 0 else r + 1)"
  shows "v' = fold_into w r' \<and> heading w r' dv'"
proof -
  consider "r = 0" "dv = 1" | "r = 0" "dv = - 1" | "0 < r" "r < w" "dv = 1" | "w \<le> r" "dv = - 1"
    using assms(1,2,4) unfolding heading_def by (auto split: if_splits)
  then show ?thesis
    by cases (use assms(1-3,5) in \<open>auto simp: r'_def fold_into_def heading_def bounce_def Let_def split: if_splits\<close>)
qed

lemma mod_Suc_int:
  fixes m :: int
  assumes "0 < m"
  shows "int (Suc n) mod m = (if int n mod m + 1 = m then 0 else int n mod m + 1)"
proof -
  have "0 \<le> int n mod m" "int n mod m < m" using assms by simp_all
  moreover have "int (Suc n) mod m = (int n mod m + 1) mod m" by (simp add: mod_simps algebra_simps)
  ultimately show ?thesis by auto
qed

lemma on_track_bounce:
  assumes "2 \<le> w" "on_track w n v dv" "bounce w v dv = (v', dv')"
  shows "on_track w (Suc n) v' dv'"
proof -
  have m: "0 < 2 * (w - 1)" using assms(1) by simp
  have r: "0 \<le> int n mod (2 * (w - 1))" "int n mod (2 * (w - 1)) < 2 * (w - 1)" using m by simp_all
  show ?thesis
    using bounce_round [OF assms(1) r, of dv v' dv'] assms(2,3)
    unfolding on_track_def zigzag_def mod_Suc_int [OF m] by blast
qed

lemma bounce_fun: "\<exists>v' dv'. bounce w v dv = (v', dv')"
  by (cases "bounce w v dv") simp

lemma ball_on_track:
  assumes "2 \<le> w" "2 \<le> h"
  defines "b n \<equiv> (move_ball ^^ n) (start_ball w h)"
  shows "board_width (b n) = w \<and> board_height (b n) = h
    \<and> on_track w n (ball_x (b n)) (ball_dx (b n)) \<and> on_track h n (ball_y (b n)) (ball_dy (b n))"
proof (induction n)
  case 0
  show ?case using assms(1,2) by (simp add: b_def start_ball_def on_track_def zigzag_def fold_into_def heading_def)
next
  case (Suc n)
  obtain v dv u du where *: "bounce w (ball_x (b n)) (ball_dx (b n)) = (v, dv)"
      "bounce h (ball_y (b n)) (ball_dy (b n)) = (u, du)"
    using bounce_fun by metis
  have "b (Suc n) = move_ball (b n)" by (simp add: b_def)
  then show ?case
    using Suc * on_track_bounce [OF assms(1) _ *(1)] on_track_bounce [OF assms(2) _ *(2)]
    by (simp add: move_ball_def)
qed

lemma zigzag_board: "2 \<le> w \<Longrightarrow> 0 \<le> zigzag w n \<and> zigzag w n < w"
proof -
  assume w: "2 \<le> w"
  have "0 \<le> int n mod (2 * (w - 1))" "int n mod (2 * (w - 1)) < 2 * (w - 1)" using w by simp_all
  then show ?thesis by (simp add: zigzag_def fold_into_def)
qed

text \<open>
  On a board of at least 2 by 2 cells the ball stays on the board for ever; after \<open>n\<close> moves
  each coordinate is \<open>n\<close> folded into the board like a zigzag with period \<open>2 (size - 1)\<close>.
\<close>

theorem ball_trajectory:
  assumes "2 \<le> w" "2 \<le> h"
  shows "let b = (move_ball ^^ n) (start_ball w h) in
    ball_x b = zigzag w n \<and> ball_y b = zigzag h n \<and> 0 \<le> ball_x b \<and> ball_x b < w \<and> 0 \<le> ball_y b \<and> ball_y b < h"
  using ball_on_track [OF assms, of n] zigzag_board [OF assms(1), of n] zigzag_board [OF assms(2), of n]
  by (simp add: on_track_def Let_def)

theorem ball_trajectory_witness:
  "ball_x ((move_ball ^^ 7) (start_ball 4 3)) = 1 \<and> ball_y ((move_ball ^^ 7) (start_ball 4 3)) = 1"
  using ball_trajectory [of 4 3 7] by (simp add: zigzag_def fold_into_def Let_def)

text \<open>A board one cell wide: the first move leaves it.\<close>

lemma narrow_board: "ball_x (move_ball (start_ball 1 h)) = - 1"
  by (simp add: move_ball_def start_ball_def bounce_def Let_def split: prod.split)

end
