(* ===== verification/PongPool.thy ===== *)
theory PongPool
  imports Pong61
begin

text \<open>
  The array of shared connections: taking a connection and giving it back keep the addresses of
  live connections apart and the slots in step with what the threads hold.
\<close>

section \<open>The pool of connections\<close>

text \<open>
  A connection in use or to be reused has an address of its own, also among the slots before
  it, where addresses of closed connections may be left.
\<close>

definition pool_ok :: "con_avail list \<Rightarrow> bool" where
  "pool_ok cs \<longleftrightarrow> length cs = NCONNECTIONS
     \<and> (\<forall>j < NCONNECTIONS. shared_status (cs ! j) \<noteq> CON_UNINIT \<longrightarrow> (\<forall>i < j. shared_conn (cs ! i) \<noteq> shared_conn (cs ! j)))"

definition unshared :: "nat option list \<Rightarrow> bool" where
  "unshared hs \<longleftrightarrow> (\<forall>t u. t < length hs \<longrightarrow> u < length hs \<longrightarrow> t \<noteq> u \<longrightarrow> hs ! t = hs ! u \<longrightarrow> hs ! t = None)"

lemma unshared_update: "unshared hs \<Longrightarrow> h = None \<or> h \<notin> set hs \<Longrightarrow> unshared (hs[t := h])"
  unfolding unshared_def length_list_update
proof (intro allI impI)
  fix a b
  assume u: "\<forall>t u. t < length hs \<longrightarrow> u < length hs \<longrightarrow> t \<noteq> u \<longrightarrow> hs ! t = hs ! u \<longrightarrow> hs ! t = None"
    and h: "h = None \<or> h \<notin> set hs" and ab: "a < length hs" "b < length hs" "a \<noteq> b" "hs[t := h] ! a = hs[t := h] ! b"
  show "hs[t := h] ! a = None"
  proof (cases "a = t \<or> b = t")
    case True
    then show ?thesis using h ab nth_mem [OF ab(1)] nth_mem [OF ab(2)] by (cases "a = t") auto
  next
    case False
    then have "hs ! a = hs ! b" using ab(4) by simp
    then have "hs ! a = None" using u ab by blast
    then show ?thesis using False by simp
  qed
qed

text \<open>\<open>hs\<close> are the connections the threads hold: exactly the ones in use, each by one thread.\<close>

definition use_ok :: "con_avail list \<Rightarrow> nat option list \<Rightarrow> bool" where
  "use_ok cs hs \<longleftrightarrow>
     (\<forall>i < NCONNECTIONS. shared_status (cs ! i) = CON_INUSE \<longrightarrow> Some (shared_conn (cs ! i)) \<in> set hs)
     \<and> (\<forall>c. Some c \<in> set hs \<longrightarrow> (\<exists>i < NCONNECTIONS. shared_status (cs ! i) = CON_INUSE \<and> shared_conn (cs ! i) = c))
     \<and> unshared hs"

lemma live_distinct:
  assumes "pool_ok cs" "i < NCONNECTIONS" "j < NCONNECTIONS" "i \<noteq> j"
    "shared_status (cs ! i) \<noteq> CON_UNINIT" "shared_status (cs ! j) \<noteq> CON_UNINIT"
  shows "shared_conn (cs ! i) \<noteq> shared_conn (cs ! j)"
  using assms by (cases rule: linorder_cases [of i j]) (fastforce simp: pool_ok_def)+

lemma slot_of_use:
  assumes "pool_ok cs" "use_ok cs hs" "Some c \<in> set hs"
  obtains i where "slotOfConnection c cs = Some i" "i < NCONNECTIONS" "shared_status (cs ! i) = CON_INUSE"
    "shared_conn (cs ! i) = c"
proof -
  obtain i where i: "i < NCONNECTIONS" "shared_status (cs ! i) = CON_INUSE" "shared_conn (cs ! i) = c"
    using assms(2,3) by (auto simp: use_ok_def)
  moreover have "slotOfConnection c cs = Some i"
    unfolding slotOfConnection_def find_Some_iff
    using i assms(1) by (intro exI [of _ i]) (auto simp: pool_ok_def)
  ultimately show thesis by (intro that)
qed

lemma set_fill:
  assumes "t < length hs" "hs ! t = None"
  shows "Some x \<in> set (hs[t := Some c]) \<longleftrightarrow> x = c \<or> Some x \<in> set hs"
proof -
  have "set hs = set (take t hs @ None # drop (Suc t) hs)"
    using id_take_nth_drop [OF assms(1)] assms(2) by simp
  then show ?thesis using assms(1) by (auto simp: upd_conv_take_nth_drop)
qed

lemma set_clear:
  assumes "t < length hs" "hs ! t = Some c" "\<And>a. a < length hs \<Longrightarrow> hs ! a = Some c \<Longrightarrow> a = t"
  shows "Some x \<in> set (hs[t := None]) \<longleftrightarrow> x \<noteq> c \<and> Some x \<in> set hs"
proof
  assume "Some x \<in> set (hs[t := None])"
  then obtain a where a: "a < length hs" "hs[t := None] ! a = Some x" by (auto simp: in_set_conv_nth)
  then have "a \<noteq> t" by auto
  then show "x \<noteq> c \<and> Some x \<in> set hs" using a assms(3) nth_mem [OF a(1)] by auto
next
  assume x: "x \<noteq> c \<and> Some x \<in> set hs"
  then obtain a where a: "a < length hs" "hs ! a = Some x" by (auto simp: in_set_conv_nth)
  then have "a \<noteq> t" using x assms(2) by auto
  then have "hs[t := None] ! a = Some x" "a < length (hs[t := None])" using a by simp_all
  then show "Some x \<in> set (hs[t := None])" by (metis nth_mem)
qed

lemma acquire_slot:
  assumes p: "pool_ok cs" and u: "use_ok cs hs" and t: "t < length hs" "hs ! t = None"
    and i: "i < NCONNECTIONS" "shared_status (cs ! i) \<noteq> CON_INUSE"
    and new: "\<And>j. j < NCONNECTIONS \<Longrightarrow> j \<noteq> i \<Longrightarrow> shared_status (cs ! j) \<noteq> CON_UNINIT \<Longrightarrow> shared_conn (cs ! j) \<noteq> c"
      "\<And>j. j < i \<Longrightarrow> shared_conn (cs ! j) \<noteq> c"
  defines "cs' \<equiv> cs[i := \<lparr>shared_conn = c, shared_status = CON_INUSE\<rparr>]"
  shows "pool_ok cs'" "use_ok cs' (hs[t := Some c])"
proof -
  have len: "length cs = NCONNECTIONS" using p by (simp add: pool_ok_def)
  have at: "cs' ! j = (if j = i then \<lparr>shared_conn = c, shared_status = CON_INUSE\<rparr> else cs ! j)" for j
    using i(1) len by (simp add: cs'_def)
  show "pool_ok cs'"
    using p i new by (auto simp: pool_ok_def at) (simp add: cs'_def)
  have nc: "Some c \<notin> set hs" using u i(2) new(1) unfolding use_ok_def by (metis con_status.distinct(3) con_status.distinct(5))
  have mem: "Some x \<in> set (hs[t := Some c]) \<longleftrightarrow> x = c \<or> Some x \<in> set hs" for x
    by (rule set_fill [OF t])
  show "use_ok cs' (hs[t := Some c])"
    unfolding use_ok_def mem
  proof (intro conjI allI impI)
    fix j assume "j < NCONNECTIONS" "shared_status (cs' ! j) = CON_INUSE"
    then show "shared_conn (cs' ! j) = c \<or> Some (shared_conn (cs' ! j)) \<in> set hs"
      using u by (auto simp: at use_ok_def split: if_splits)
  next
    fix x assume "x = c \<or> Some x \<in> set hs"
    then show "\<exists>j < NCONNECTIONS. shared_status (cs' ! j) = CON_INUSE \<and> shared_conn (cs' ! j) = x"
    proof
      assume "x = c"
      then show ?thesis using i(1) by (auto simp: at)
    next
      assume "Some x \<in> set hs"
      then obtain j where "j < NCONNECTIONS" "shared_status (cs ! j) = CON_INUSE" "shared_conn (cs ! j) = x"
        using u by (auto simp: use_ok_def)
      moreover from this have "j \<noteq> i" using i(2) by auto
      ultimately show ?thesis by (auto simp: at)
    qed
  next
    show "unshared (hs[t := Some c])" using u nc by (intro unshared_update) (simp_all add: use_ok_def)
  qed
qed

lemma release_slot:
  assumes p: "pool_ok cs" and u: "use_ok cs hs" and t: "t < length hs" "hs ! t = Some c"
  shows "\<exists>cs'. releaseConn c ok cs = Some cs' \<and> pool_ok cs' \<and> use_ok cs' (hs[t := None])"
proof -
  have "Some c \<in> set hs" using t by (metis nth_mem)
  from slot_of_use [OF p u this] obtain i where i: "slotOfConnection c cs = Some i" "i < NCONNECTIONS"
    "shared_status (cs ! i) = CON_INUSE" "shared_conn (cs ! i) = c" .
  define st where "st = (if ok then CON_VALID else CON_UNINIT)"
  define cs' where "cs' = cs[i := (cs ! i)\<lparr>shared_status := st\<rparr>]"
  have len: "length cs = NCONNECTIONS" using p by (simp add: pool_ok_def)
  have at: "shared_conn (cs' ! j) = shared_conn (cs ! j)" "shared_status (cs' ! j) = (if j = i then st else shared_status (cs ! j))" for j
    using i(2) len by (simp_all add: cs'_def nth_list_update)
  have st: "st \<noteq> CON_INUSE" by (simp add: st_def)
  have "pool_ok cs'" using p i(3) len by (auto simp: pool_ok_def at) (simp add: cs'_def)
  moreover have mem: "Some x \<in> set (hs[t := None]) \<longleftrightarrow> x \<noteq> c \<and> Some x \<in> set hs" for x
  proof (rule set_clear [OF t])
    show "a = t" if "a < length hs" "hs ! a = Some c" for a
      using u t that unfolding use_ok_def unshared_def by (metis option.distinct(1))
  qed
  have "use_ok cs' (hs[t := None])"
    unfolding use_ok_def mem
  proof (intro conjI allI impI)
    fix j assume j: "j < NCONNECTIONS" "shared_status (cs' ! j) = CON_INUSE"
    then have "j \<noteq> i" using st by (auto simp: at)
    then show "shared_conn (cs' ! j) \<noteq> c"
      using live_distinct [OF p j(1) i(2)] j(2) i(3,4) by (simp add: at)
    show "Some (shared_conn (cs' ! j)) \<in> set hs" using u j \<open>j \<noteq> i\<close> by (simp add: use_ok_def at)
  next
    fix x assume x: "x \<noteq> c \<and> Some x \<in> set hs"
    then obtain j where "j < NCONNECTIONS" "shared_status (cs ! j) = CON_INUSE" "shared_conn (cs ! j) = x"
      using u by (auto simp: use_ok_def)
    moreover from this have "j \<noteq> i" using i(4) x by auto
    ultimately show "\<exists>j < NCONNECTIONS. shared_status (cs' ! j) = CON_INUSE \<and> shared_conn (cs' ! j) = x"
      by (auto simp: at)
  next
    show "unshared (hs[t := None])" using u by (intro unshared_update) (simp_all add: use_ok_def)
  qed
  ultimately show ?thesis by (simp add: releaseConn_def i(1) cs'_def st_def)
qed

lemma getConn_slot:
  assumes p: "pool_ok cs" and u: "use_ok cs hs" and t: "t < length hs" "hs ! t = None"
    and g: "getConn fresh cs = Some (c, cs')" "fresh \<notin> live cs"
  shows "pool_ok cs' \<and> use_ok cs' (hs[t := Some c])"
proof (cases "connectionSlotWithStatus CON_VALID cs")
  case (Some i)
  then have i: "i < NCONNECTIONS" "shared_status (cs ! i) = CON_VALID"
    by (auto simp: connectionSlotWithStatus_def find_Some_iff)
  have "cs' = cs[i := \<lparr>shared_conn = c, shared_status = CON_INUSE\<rparr>]" "c = shared_conn (cs ! i)"
    using g(1) Some by (simp_all add: getConn_def)
      (metis (full_types) con_avail.surjective con_avail.update_convs(2) unit.exhaust)+
  then show ?thesis
    using acquire_slot [OF p u t i(1), of c] i(2) live_distinct [OF p _ i(1)] p
    by (auto simp: pool_ok_def i)
next
  case None
  then obtain i where i: "connectionSlotWithStatus CON_UNINIT cs = Some i"
    using g(1) by (auto simp: getConn_def split: option.splits)
  then have j: "i < NCONNECTIONS" "shared_status (cs ! i) = CON_UNINIT" "\<And>j. j < i \<Longrightarrow> shared_status (cs ! j) \<noteq> CON_UNINIT"
    by (auto simp: connectionSlotWithStatus_def find_Some_iff)
  have "cs' = cs[i := \<lparr>shared_conn = c, shared_status = CON_INUSE\<rparr>]" "c = fresh"
    using g(1) None i by (auto simp: getConn_def)
  moreover have "shared_conn (cs ! j) \<noteq> fresh" if "j < NCONNECTIONS" "shared_status (cs ! j) \<noteq> CON_UNINIT" for j
    using g(2) that by (auto simp: live_def)
  ultimately show ?thesis using acquire_slot [OF p u t j(1), of fresh] j by auto
qed

text \<open>With a thread to spare there is a slot.\<close>

lemma getConn_some:
  assumes "pool_ok cs" "use_ok cs hs" "length (filter (\<lambda>h. h \<noteq> None) hs) < NCONNECTIONS"
  shows "getConn fresh cs \<noteq> None"
proof
  assume "getConn fresh cs = None"
  then have "connectionSlotWithStatus CON_VALID cs = None" "connectionSlotWithStatus CON_UNINIT cs = None"
    by (auto simp: getConn_def split: option.splits)
  then have all: "shared_status (cs ! i) = CON_INUSE" if "i < NCONNECTIONS" for i
    using that con_status.exhaust by (auto simp: connectionSlotWithStatus_def find_None_iff)
  have "inj_on (\<lambda>i. Some (shared_conn (cs ! i))) {..<NCONNECTIONS}"
    using live_distinct [OF assms(1)] all by (auto simp: inj_on_def)
  then have "NCONNECTIONS = card ((\<lambda>i. Some (shared_conn (cs ! i))) ` {..<NCONNECTIONS})" by (simp add: card_image)
  also have "\<dots> \<le> card (set (filter (\<lambda>h. h \<noteq> None) hs))"
    using assms(2) all by (intro card_mono) (auto simp: use_ok_def)
  also have "\<dots> \<le> length (filter (\<lambda>h. h \<noteq> None) hs)" by (rule card_length)
  finally show False using assms(3) by simp
qed

end
