(* ===== verification/PongThreads.thy ===== *)
theory PongThreads
  imports PongBall PongPool
begin

text \<open>
  The threads: invariants of the connections, the mutexes, the thread count and the order of the
  moves, each kept by every step, and what follows for the reachable states.
\<close>

section \<open>Invariants of the threads\<close>

fun holds :: "thread \<Rightarrow> nat option" where
  "holds (Connected c p) = Some c"
| "holds (Receiving c p) = Some c"
| "holds (Unlocking c d) = Some c"
| "holds (Draining c) = Some c"
| "holds (Stopped c) = Some c"
| "holds (Releasing c p) = Some c"
| "holds (Finishing c) = Some c"
| "holds _ = None"

fun in_turn :: "thread \<Rightarrow> bool" where
  "in_turn (Connecting p) = True"
| "in_turn (Connected c p) = True"
| "in_turn (Receiving c p) = True"
| "in_turn (Unlocking c d) = True"
| "in_turn (Releasing c p) = True"
| "in_turn _ = False"

fun in_send :: "thread \<Rightarrow> bool" where
  "in_send (Receiving c p) = True"
| "in_send (Stopped c) = True"
| "in_send _ = False"

definition holdings :: "pong \<Rightarrow> nat option list" where
  "holdings s = map holds (threads s)"

definition pool_inv :: "pong \<Rightarrow> bool" where
  "pool_inv s \<longleftrightarrow> pool_ok (sharedConnections s) \<and> use_ok (sharedConnections s) (holdings s)"

lemma go_simps [simp]:
  "threads (go t p s) = (threads s)[t := p]" "sharedConnections (go t p s) = sharedConnections s"
  "serverLock (go t p s) = serverLock s" "sendLock (go t p s) = sendLock s" "nthreads (go t p s) = nthreads s"
  "main (go t p s) = main s" "ball (go t p s) = ball s" "turns (go t p s) = turns s" "sent (go t p s) = sent s"
  by (simp_all add: go_def)

lemma take_turn_simps [simp]:
  "threads (take_turn t s) = (threads s)[t := Connecting (ball_x (move_ball (ball s)), ball_y (move_ball (ball s)))]"
  "sharedConnections (take_turn t s) = sharedConnections s" "serverLock (take_turn t s) = Some t"
  "sendLock (take_turn t s) = sendLock s" "nthreads (take_turn t s) = nthreads s" "main (take_turn t s) = main s"
  "ball (take_turn t s) = move_ball (ball s)" "sent (take_turn t s) = sent s"
  "turns (take_turn t s) = turns s @ [(t, ball_x (move_ball (ball s)), ball_y (move_ball (ball s)))]"
  by (simp_all add: take_turn_def Let_def)

lemma holdings_at: "at s t p \<Longrightarrow> t < length (holdings s)" "at s t p \<Longrightarrow> holdings s ! t = holds p"
  by (auto simp: at_def holdings_def)

text \<open>A step of one thread that neither takes nor gives back a connection.\<close>

lemma pool_keep:
  assumes "pool_inv s" "at s t p" "threads s' = (threads s)[t := q]" "holds q = holds p"
    "sharedConnections s' = sharedConnections s"
  shows "pool_inv s'"
proof -
  have "holdings s' = (holdings s)[t := holds p]" by (simp add: holdings_def assms(3,4) map_update)
  also have "\<dots> = holdings s" using holdings_at [OF assms(2)] by (metis list_update_id)
  finally show ?thesis using assms(1,5) by (simp add: pool_inv_def)
qed

lemma use_ok_new: "use_ok cs hs \<Longrightarrow> use_ok cs (hs @ [None])"
  by (auto simp: use_ok_def unshared_def nth_append)

lemma step_pool:
  assumes "pong_step s s'" "pool_inv s"
  shows "pool_inv s'"
proof -
  have p: "pool_ok (sharedConnections s)" and u: "use_ok (sharedConnections s) (holdings s)"
    using assms(2) by (simp_all add: pool_inv_def)
  from assms(1) show ?thesis
  proof cases
    case check
    then show ?thesis using assms(2) by (simp add: pool_inv_def holdings_def)
  next
    case count
    then show ?thesis using assms(2) by (simp add: pool_inv_def holdings_def)
  next
    case create
    then show ?thesis using p use_ok_new [OF u] by (simp add: pool_inv_def holdings_def)
  next
    case (connect t pos fresh c cs)
    show ?thesis
      using getConn_slot [OF p u _ _ connect(4,3), of t] holdings_at [OF connect(2)]
      by (simp add: connect(1) pool_inv_def holdings_def map_update)
  next
    case (retry t c pos cs)
    show ?thesis
      using release_slot [OF p u, of t c False] holdings_at [OF retry(2)] retry(3)
      by (simp add: retry(1) pool_inv_def holdings_def map_update)
  next
    case (finish t c ok cs)
    show ?thesis
      using release_slot [OF p u, of t c ok] holdings_at [OF finish(2)] finish(3)
      by (simp add: finish(1) pool_inv_def holdings_def map_update)
  qed (rule pool_keep [OF assms(2)], assumption, (simp; fail)+)+
qed

text \<open>A mutex and the flags of the threads that are in its section.\<close>

definition lock_ok :: "nat option \<Rightarrow> bool list \<Rightarrow> bool" where
  "lock_ok l bs \<longleftrightarrow> (\<forall>t. l = Some t \<longleftrightarrow> t < length bs \<and> bs ! t)"

lemma lock_step:
  assumes "lock_ok l bs" "t < length bs" "bs ! t = b"
    and "(l' = l \<and> b' = b) \<or> (l = None \<and> l' = Some t \<and> b') \<or> (l' = None \<and> b \<and> \<not> b')"
  shows "lock_ok l' (bs[t := b'])"
  using assms(4)
proof (elim disjE conjE)
  assume "l' = l" "b' = b"
  then show ?thesis using assms(1,3) list_update_same_conv [OF assms(2), of b'] by simp
next
  assume "l = None" "l' = Some t" "b'"
  then show ?thesis using assms(1,2) by (auto simp: lock_ok_def nth_list_update)
next
  assume n: "l' = None" "b" "\<not> b'"
  then have "l = Some t" using assms(1-3) by (auto simp: lock_ok_def)
  then show ?thesis using assms(1,2) n by (auto simp: lock_ok_def nth_list_update)
qed

lemma lock_new: "lock_ok l bs \<Longrightarrow> lock_ok l (bs @ [False])"
  by (auto simp: lock_ok_def nth_append)

definition lock_inv :: "pong \<Rightarrow> bool" where
  "lock_inv s \<longleftrightarrow> lock_ok (serverLock s) (map in_turn (threads s)) \<and> lock_ok (sendLock s) (map in_send (threads s))"

lemma lock_go:
  assumes "lock_inv s" "at s t p" "threads s' = (threads s)[t := q]"
    "(serverLock s' = serverLock s \<and> in_turn q = in_turn p) \<or> (serverLock s = None \<and> serverLock s' = Some t \<and> in_turn q)
     \<or> (serverLock s' = None \<and> in_turn p \<and> \<not> in_turn q)"
    "(sendLock s' = sendLock s \<and> in_send q = in_send p) \<or> (sendLock s = None \<and> sendLock s' = Some t \<and> in_send q)
     \<or> (sendLock s' = None \<and> in_send p \<and> \<not> in_send q)"
  shows "lock_inv s'"
proof -
  have t: "t < length (threads s)" "threads s ! t = p" using assms(2) by (simp_all add: at_def)
  show ?thesis
    using lock_step [OF _ _ _ assms(4), of "map in_turn (threads s)"] lock_step [OF _ _ _ assms(5), of "map in_send (threads s)"]
      assms(1,3) t by (simp add: lock_inv_def map_update)
qed

lemma step_lock:
  assumes "pong_step s s'" "lock_inv s"
  shows "lock_inv s'"
  using assms(1)
proof cases
  case check
  then show ?thesis using assms(2) by (simp add: lock_inv_def)
next
  case count
  then show ?thesis using assms(2) by (simp add: lock_inv_def)
next
  case create
  then show ?thesis using assms(2) lock_new by (simp add: lock_inv_def)
qed (rule lock_go [OF assms(2)], assumption, (simp; fail)+)+

definition active :: "pong \<Rightarrow> nat" where
  "active s = length (filter (\<lambda>p. p \<noteq> Left) (threads s))"

definition count_inv :: "pong \<Rightarrow> bool" where
  "count_inv s \<longleftrightarrow> nthreads s + (if main s = Counting then 1 else 0) = int (active s)
     \<and> active s \<le> 30 \<and> (main s = Creating \<longrightarrow> active s < 30)"

lemma filter_update_same: "t < length xs \<Longrightarrow> P (xs ! t) = P y \<Longrightarrow> length (filter P (xs[t := y])) = length (filter P xs)"
  by (induction xs arbitrary: t) (auto split: nat.split)

lemma count_keep:
  assumes "count_inv s" "at s t p" "threads s' = (threads s)[t := q]" "p \<noteq> Left" "q \<noteq> Left"
    "nthreads s' = nthreads s" "main s' = main s"
  shows "count_inv s'"
  using assms filter_update_same [of t "threads s" "\<lambda>p. p \<noteq> Left" q] by (simp add: count_inv_def active_def at_def)

lemma filter_update_less:
  "t < length xs \<Longrightarrow> P (xs ! t) \<Longrightarrow> \<not> P y \<Longrightarrow> length (filter P xs) = Suc (length (filter P (xs[t := y])))"
  by (induction xs arbitrary: t) (auto split: nat.split)

lemma step_count:
  assumes "pong_step s s'" "count_inv s"
  shows "count_inv s'"
  using assms(1)
proof cases
  case check
  then show ?thesis using assms(2) by (simp add: count_inv_def active_def MAXTHREADS_def)
next
  case count
  then show ?thesis using assms(2) by (simp add: count_inv_def active_def)
next
  case create
  then show ?thesis using assms(2) by (simp add: count_inv_def active_def)
next
  case (leave t)
  then show ?thesis
    using assms(2) filter_update_less [of t "threads s" "\<lambda>p. p \<noteq> Left" Left]
    by (auto simp: count_inv_def active_def at_def)
qed (rule count_keep [OF assms(2)], assumption, (simp; fail)+)+

section \<open>The order of the moves\<close>

fun place :: "thread \<Rightarrow> (int \<times> int) option" where
  "place (Connecting p) = Some p"
| "place (Connected c p) = Some p"
| "place (Receiving c p) = Some p"
| "place (Releasing c p) = Some p"
| "place _ = None"

fun unsent :: "thread \<Rightarrow> bool" where
  "unsent (Connecting p) = True"
| "unsent (Connected c p) = True"
| "unsent _ = False"

definition ball_at :: "int \<Rightarrow> int \<Rightarrow> nat \<Rightarrow> int \<times> int" where
  "ball_at w h n = (let b = (move_ball ^^ n) (start_ball w h) in (ball_x b, ball_y b))"

definition turns_inv :: "int \<Rightarrow> int \<Rightarrow> pong \<Rightarrow> bool" where
  "turns_inv w h s \<longleftrightarrow> ball s = (move_ball ^^ length (turns s)) (start_ball w h)
     \<and> map snd (turns s) = map (\<lambda>k. ball_at w h (Suc k)) [0..<length (turns s)]
     \<and> distinct (map fst (turns s))
     \<and> (\<forall>t \<in> set (map fst (turns s)). t < length (threads s) \<and> threads s ! t \<noteq> Starting)
     \<and> (\<forall>t < length (threads s). \<forall>p. place (threads s ! t) = Some p \<longrightarrow> turns s \<noteq> [] \<and> last (turns s) = (t, p))"

definition sent_inv :: "pong \<Rightarrow> bool" where
  "sent_inv s \<longleftrightarrow> remdups_adj (sent s) = turns s
     \<or> (turns s \<noteq> [] \<and> remdups_adj (sent s) = butlast (turns s)
        \<and> (\<exists>t. serverLock s = Some t \<and> t < length (threads s) \<and> unsent (threads s ! t)))"

lemma place_in_turn: "place p = Some x \<Longrightarrow> in_turn p"
  by (cases p) auto

lemma unsent_in_turn: "unsent p \<Longrightarrow> in_turn p"
  by (cases p) auto

lemma in_turn_lock: "lock_inv s \<Longrightarrow> t < length (threads s) \<Longrightarrow> in_turn (threads s ! t) \<longleftrightarrow> serverLock s = Some t"
  by (auto simp: lock_inv_def lock_ok_def)

lemma turns_keep:
  assumes "turns_inv w h s" "at s t p" "threads s' = (threads s)[t := q]" "q \<noteq> Starting"
    "place q = None \<or> place q = place p" "ball s' = ball s" "turns s' = turns s"
  shows "turns_inv w h s'"
  using assms unfolding turns_inv_def at_def by (auto simp: nth_list_update)

lemma step_turns:
  assumes "pong_step s s'" "turns_inv w h s" "lock_inv s"
  shows "turns_inv w h s'"
  using assms(1)
proof cases
  case check
  then show ?thesis using assms(2) by (simp add: turns_inv_def)
next
  case count
  then show ?thesis using assms(2) by (simp add: turns_inv_def)
next
  case create
  then show ?thesis using assms(2) by (auto simp: turns_inv_def nth_append)
next
  case (move t)
  have t: "t < length (threads s)" "threads s ! t = Starting" using move(2) by (simp_all add: at_def)
  have free: "\<not> in_turn (threads s ! u)" if "u < length (threads s)" for u
    using in_turn_lock [OF assms(3) that] move(3) by simp
  then have "place (threads s ! u) = None" if "u < length (threads s)" for u
    using that place_in_turn by (cases "place (threads s ! u)") auto
  moreover have "t \<notin> set (map fst (turns s))" using assms(2) t by (auto simp: turns_inv_def)
  moreover have "(ball_x (move_ball (ball s)), ball_y (move_ball (ball s))) = ball_at w h (Suc (length (turns s)))"
    using assms(2) by (simp add: turns_inv_def ball_at_def Let_def)
  ultimately show ?thesis
    using assms(2) t unfolding turns_inv_def move(1) by (auto simp: nth_list_update)
qed (rule turns_keep [OF assms(2)], assumption, (simp; fail)+)+

lemma sent_keep:
  assumes "sent_inv s" "at s t p" "threads s' = (threads s)[t := q]" "unsent p \<longrightarrow> unsent q"
    "serverLock s' = serverLock s" "turns s' = turns s" "sent s' = sent s"
  shows "sent_inv s'"
  using assms unfolding sent_inv_def at_def by (auto simp: nth_list_update)

lemma remdups_adj_snoc:
  "remdups_adj (xs @ [x]) = (if xs \<noteq> [] \<and> last xs = x then remdups_adj xs else remdups_adj xs @ [x])"
  by (induction xs rule: remdups_adj.induct) auto

lemma step_sent:
  assumes "pong_step s s'" "turns_inv w h s" "lock_inv s" "sent_inv s"
  shows "sent_inv s'"
  using assms(1)
proof cases
  case check
  then show ?thesis using assms(4) by (simp add: sent_inv_def)
next
  case count
  then show ?thesis using assms(4) by (simp add: sent_inv_def)
next
  case create
  then show ?thesis using assms(4) by (auto simp: sent_inv_def nth_append)
next
  case (move t)
  then show ?thesis using assms(4) by (auto simp: sent_inv_def at_def)
next
  case (send t c p)
  have t: "t < length (threads s)" "threads s ! t = Connected c p" using send(2) by (simp_all add: at_def)
  have "place (threads s ! t) = Some p" using t(2) by simp
  then have last: "turns s \<noteq> []" "last (turns s) = (t, p)"
    using assms(2) t(1) unfolding turns_inv_def by blast+
  have "remdups_adj (sent s @ [(t, p)]) = turns s"
    using assms(4) unfolding sent_inv_def
  proof (elim disjE conjE)
    assume r: "remdups_adj (sent s) = turns s"
    then have "sent s \<noteq> []" "last (sent s) = (t, p)" using last last_remdups_adj [of "sent s"] by auto
    then show ?thesis using r by (simp add: remdups_adj_snoc)
  next
    assume r: "remdups_adj (sent s) = butlast (turns s)"
    have d: "distinct (map fst (butlast (turns s) @ [(t, p)]))"
      using assms(2) last by (metis append_butlast_last_id turns_inv_def)
    have "last (sent s) \<noteq> (t, p)" if "sent s \<noteq> []"
    proof
      assume "last (sent s) = (t, p)"
      then have "(t, p) \<in> set (butlast (turns s))" using that r by (metis last_in_set remdups_adj_set)
      then show False using d by force
    qed
    then have "remdups_adj (sent s @ [(t, p)]) = butlast (turns s) @ [(t, p)]" using r by (auto simp: remdups_adj_snoc)
    then show ?thesis using last by (metis append_butlast_last_id)
  qed
  then show ?thesis by (simp add: send(1) sent_inv_def)
next
  case (unlock t c d)
  have t: "t < length (threads s)" "threads s ! t = Unlocking c d" using unlock(2) by (simp_all add: at_def)
  then have "serverLock s = Some t" using in_turn_lock [OF assms(3) t(1)] by simp
  then show ?thesis using assms(4) t by (simp add: unlock(1) sent_inv_def)
qed (rule sent_keep [OF assms(4)], assumption, (simp; fail)+)+

section \<open>Reachable states\<close>

definition pong_inv :: "int \<Rightarrow> int \<Rightarrow> pong \<Rightarrow> bool" where
  "pong_inv w h s \<longleftrightarrow> pool_inv s \<and> lock_inv s \<and> count_inv s \<and> turns_inv w h s \<and> sent_inv s"

lemma pong_reach_inv: "pong_reach w h s \<Longrightarrow> pong_inv w h s"
proof (induction rule: pong_reach.induct)
  case begin_pong
  show ?case
    by (auto simp: pong_inv_def pool_inv_def pool_ok_def use_ok_def unshared_def lock_inv_def lock_ok_def count_inv_def
        active_def turns_inv_def sent_inv_def start_pong_def holdings_def)
next
  case (next_pong s s')
  then show ?case
    using step_pool step_lock step_count step_turns step_sent unfolding pong_inv_def by blast
qed

text \<open>A thread that looks for a connection leaves one of the 30 unused.\<close>

lemma length_filter_mono: "(\<And>x. P x \<Longrightarrow> Q x) \<Longrightarrow> length (filter P xs) \<le> length (filter Q xs)"
  by (induction xs) auto

lemma spare_connection:
  assumes "count_inv s" "at s t (Connecting p)"
  shows "length (filter (\<lambda>h. h \<noteq> None) (holdings s)) < NCONNECTIONS"
proof -
  have t: "t < length (threads s)" "threads s ! t = Connecting p" using assms(2) by (simp_all add: at_def)
  have "length (filter (\<lambda>h. h \<noteq> None) (holdings s)) = length (filter (\<lambda>p. holds p \<noteq> None) (threads s))"
    by (simp add: holdings_def filter_map comp_def)
  also have "\<dots> = length (filter (\<lambda>p. holds p \<noteq> None) ((threads s)[t := Left]))"
    using t by (intro filter_update_same [symmetric]) simp_all
  also have "\<dots> \<le> length (filter (\<lambda>p. p \<noteq> Left) ((threads s)[t := Left]))"
    by (rule length_filter_mono) auto
  also have "\<dots> < length (filter (\<lambda>p. p \<noteq> Left) (threads s))"
    using filter_update_less [of t "threads s" "\<lambda>p. p \<noteq> Left" Left] t by simp
  also have "\<dots> \<le> 30" using assms(1) by (simp add: count_inv_def active_def)
  finally show ?thesis by (simp add: NCONNECTIONS_def)
qed

text \<open>
  C32: The assertion of \<open>getConn\<close> never fails: in every reachable state a thread that asks for a
  connection gets one. And \<open>slotOfConnection\<close> always finds the slot of the connection a thread
  holds, which is marked as in use and held by no other thread, although addresses of closed
  connections stay in the array and may be given out again.
\<close>

theorem connections_suffice:
  assumes "pong_reach w h s" "t < length (threads s)"
  shows "(case threads s ! t of Connecting p \<Rightarrow> getConn fresh (sharedConnections s) \<noteq> None | _ \<Rightarrow> True)
    \<and> (case holds (threads s ! t) of None \<Rightarrow> True
       | Some c \<Rightarrow> (case slotOfConnection c (sharedConnections s) of None \<Rightarrow> False
           | Some i \<Rightarrow> shared_status (sharedConnections s ! i) = CON_INUSE)
         \<and> list_all (\<lambda>u. u = t \<or> holds (threads s ! u) \<noteq> Some c) [0..<length (threads s)])"
proof -
  have i: "pool_ok (sharedConnections s)" "use_ok (sharedConnections s) (holdings s)" "count_inv s"
    using pong_reach_inv [OF assms(1)] by (simp_all add: pong_inv_def pool_inv_def)
  have unshared: "unshared (holdings s)" using i(2) by (simp add: use_ok_def)
  have "getConn fresh (sharedConnections s) \<noteq> None" if "threads s ! t = Connecting p" for p
    using getConn_some [OF i(1,2)] spare_connection [OF i(3), of t p] assms(2) that by (simp add: at_def)
  moreover have "\<exists>i. slotOfConnection c (sharedConnections s) = Some i \<and> shared_status (sharedConnections s ! i) = CON_INUSE"
    if "holds (threads s ! t) = Some c" for c
  proof -
    have "Some c \<in> set (holdings s)" using assms(2) that nth_mem [of t "holdings s"] by (simp add: holdings_def)
    then show ?thesis using slot_of_use [OF i(1,2)] by metis
  qed
  moreover have "u = t \<or> holds (threads s ! u) \<noteq> Some c" if "holds (threads s ! t) = Some c" "u < length (threads s)" for c u
    using unshared assms(2) that unfolding unshared_def holdings_def
    by (metis length_map nth_map option.distinct(1))
  ultimately show ?thesis by (auto simp: list_all_iff split: thread.split option.split)
qed

text \<open>
  C33: The moves reach the server in the order of the ball. Leaving out the repeated requests of
  a thread whose connection was lost, the requests sent are those of the first positions of
  the trajectory, each from another thread; only the thread with \<open>serverLock\<close> may have taken a
  position that it has not sent yet.
\<close>

theorem moves_in_order:
  assumes "pong_reach w h s" "2 \<le> w" "2 \<le> h"
  shows "\<exists>n. map snd (remdups_adj (sent s)) = map (\<lambda>k. (zigzag w (k + 1), zigzag h (k + 1))) [0..<n]
    \<and> distinct (map fst (remdups_adj (sent s)))
    \<and> (n = length (turns s) \<or> (n + 1 = length (turns s) \<and> serverLock s \<noteq> None))"
proof -
  have inv: "turns_inv w h s" "sent_inv s"
    using pong_reach_inv [OF assms(1)] by (simp_all add: pong_inv_def)
  have "ball_at w h n = (zigzag w n, zigzag h n)" for n
    using ball_on_track [OF assms(2,3), of n] by (simp add: ball_at_def on_track_def Let_def)
  then have T: "map snd (turns s) = map (\<lambda>k. (zigzag w (k + 1), zigzag h (k + 1))) [0..<length (turns s)]"
    and d: "distinct (map fst (turns s))" using inv(1) by (simp_all add: turns_inv_def)
  from inv(2) show ?thesis
    unfolding sent_inv_def
  proof (elim disjE conjE exE)
    assume "remdups_adj (sent s) = turns s"
    then show ?thesis using T d by auto
  next
    fix u
    assume b: "turns s \<noteq> []" "remdups_adj (sent s) = butlast (turns s)" and l: "serverLock s = Some u"
    have "map snd (butlast (turns s)) = map (\<lambda>k. (zigzag w (k + 1), zigzag h (k + 1))) [0..<length (turns s) - 1]"
      unfolding map_butlast T by (simp add: butlast_conv_take take_map)
    moreover have "distinct (map fst (butlast (turns s)))" using d by (simp add: map_butlast distinct_butlast)
    ultimately show ?thesis using b l by (intro exI [of _ "length (turns s) - 1"]) simp
  qed
qed

text \<open>A thread past its first line that does not wait for \<open>sendLock\<close> can go on.\<close>

lemma thread_steps:
  assumes "pong_inv w h s" and t: "at s t p" "p \<noteq> Left" "p \<noteq> Starting" "\<not> (\<exists>c q. p = Connected c q)"
  shows "\<exists>s'. pong_step s s'"
proof -
  have inv: "pool_ok (sharedConnections s)" "use_ok (sharedConnections s) (holdings s)" "count_inv s"
    using assms(1) by (simp_all add: pong_inv_def pool_inv_def)
  have rel: "\<exists>cs. releaseConn c ok (sharedConnections s) = Some cs" if "holds p = Some c" for c ok
    using release_slot [OF inv(1,2), of t c ok] holdings_at [OF t(1)] that by auto
  show ?thesis
  proof (cases p)
    case (Connecting q)
    have "finite (live (sharedConnections s))" by (simp add: live_def)
    then obtain fresh where f: "fresh \<notin> live (sharedConnections s)" using ex_new_if_finite infinite_UNIV_nat by blast
    obtain r where "getConn fresh (sharedConnections s) = Some r"
      using getConn_some [OF inv(1,2) spare_connection [OF inv(3)]] t(1) Connecting by blast
    then show ?thesis using pong_step.connect [OF _ f] t(1) Connecting by (cases r) blast
  next
    case (Releasing c q)
    then obtain cs where "releaseConn c False (sharedConnections s) = Some cs" using rel [of c False] by auto
    then show ?thesis using pong_step.retry t(1) Releasing by blast
  next
    case (Finishing c)
    then obtain cs where "releaseConn c True (sharedConnections s) = Some cs" using rel [of c True] by auto
    then show ?thesis using pong_step.finish t(1) Finishing by blast
  next
    case (Receiving c q)
    then show ?thesis using pong_step.lost t(1) by blast
  next
    case (Unlocking c d)
    then show ?thesis using pong_step.unlock t(1) by blast
  next
    case (Draining c)
    then show ?thesis using pong_step.body t(1) by blast
  next
    case (Stopped c)
    then show ?thesis using pong_step.resume t(1) by blast
  next
    case Leaving
    then show ?thesis using pong_step.leave t(1) by blast
  qed (use t in simp_all)
qed

lemma lock_owner:
  assumes "lock_ok l (map f (threads s))" "l = Some u"
  obtains "at s u (threads s ! u)" "f (threads s ! u)"
proof -
  have "u < length (map f (threads s)) \<and> map f (threads s) ! u"
    using assms unfolding lock_ok_def by blast
  then show thesis by (intro that) (auto simp: at_def)
qed

lemma past_start_steps:
  assumes "pong_inv w h s" and t: "at s t p" "p \<noteq> Left" "p \<noteq> Starting"
  shows "\<exists>s'. pong_step s s'"
proof (cases "\<exists>c q. p = Connected c q")
  case True
  then obtain c q where p: "at s t (Connected c q)" using t(1) by blast
  have l: "lock_ok (sendLock s) (map in_send (threads s))" using assms(1) by (simp add: pong_inv_def lock_inv_def)
  show ?thesis
  proof (cases "sendLock s")
    case None
    then show ?thesis using pong_step.send [OF p] by blast
  next
    case (Some u)
    then obtain "at s u (threads s ! u)" "in_send (threads s ! u)" by (rule lock_owner [OF l])
    then show ?thesis by (intro thread_steps [OF assms(1), of u]) auto
  qed
next
  case False
  then show ?thesis using thread_steps [OF assms(1) t] by blast
qed

lemma main_steps: "main s \<noteq> Sleeping \<or> nthreads s < MAXTHREADS \<Longrightarrow> \<exists>s'. pong_step s s'"
proof (cases "main s")
  case Sleeping
  moreover assume "main s \<noteq> Sleeping \<or> nthreads s < MAXTHREADS"
  ultimately show ?thesis using pong_step.check by blast
qed (blast intro: pong_step.create pong_step.count)+

text \<open>
  C34: The threads never block each other for good: in every reachable state some step is
  possible.
\<close>

theorem pong_progress:
  assumes "pong_reach w h s"
  shows "\<exists>s'. pong_step s s'"
proof (cases "main s \<noteq> Sleeping \<or> nthreads s < MAXTHREADS")
  case True
  then show ?thesis by (rule main_steps)
next
  case False
  have inv: "pong_inv w h s" by (rule pong_reach_inv [OF assms])
  then have "active s = 30" "lock_ok (serverLock s) (map in_turn (threads s))"
    using False by (auto simp: pong_inv_def count_inv_def lock_inv_def MAXTHREADS_def)
  then have "filter (\<lambda>p. p \<noteq> Left) (threads s) \<noteq> []" and l: "lock_ok (serverLock s) (map in_turn (threads s))"
    by (auto simp: active_def)
  then obtain t where t: "at s t (threads s ! t)" "threads s ! t \<noteq> Left"
    by (auto simp: filter_empty_conv in_set_conv_nth at_def)
  show ?thesis
  proof (cases "threads s ! t = Starting")
    case False
    then show ?thesis using past_start_steps [OF inv t] by blast
  next
    case True
    show ?thesis
    proof (cases "serverLock s")
      case None
      then show ?thesis using pong_step.move [of s t] t True by auto
    next
      case (Some u)
      then obtain "at s u (threads s ! u)" "in_turn (threads s ! u)" by (rule lock_owner [OF l])
      then show ?thesis by (intro past_start_steps [OF inv, of u]) auto
    qed
  qed
qed

text \<open>The states after the first steps, for the witnesses.\<close>

definition first_thread :: pong where
  "first_thread = (start_pong 4 3)\<lparr>main := Counting, threads := [Starting]\<rparr>"

lemma first_turn_reached: "pong_reach 4 3 (take_turn 0 first_thread)"
proof -
  have a: "pong_reach 4 3 ((start_pong 4 3)\<lparr>main := Creating\<rparr>)"
    using next_pong [OF begin_pong check] by (simp add: start_pong_def MAXTHREADS_def)
  have b: "pong_reach 4 3 first_thread"
    using next_pong [OF a create] by (simp add: start_pong_def first_thread_def)
  show ?thesis
    using next_pong [OF b move] by (simp add: at_def first_thread_def start_pong_def)
qed

theorem connections_suffice_witness:
  "getConn 7 (sharedConnections (take_turn 0 first_thread)) \<noteq> None"
proof -
  have "0 < length (threads (take_turn 0 first_thread))" by (simp add: first_thread_def)
  from connections_suffice [OF first_turn_reached this, of 7] show ?thesis
    by (simp add: first_thread_def split: prod.splits)
qed

lemma first_request: "\<exists>s. pong_reach 4 3 s \<and> sent s = [(0, 1, 1)]"
proof -
  let ?s = "take_turn 0 first_thread"
  have b: "ball_x (move_ball (ball first_thread)) = 1" "ball_y (move_ball (ball first_thread)) = 1"
    by (simp_all add: first_thread_def start_pong_def start_ball_def move_ball_def bounce_def)
  have at: "at ?s 0 (Connecting (1, 1))" using b by (simp add: at_def) (simp add: first_thread_def)
  have inv: "pong_inv 4 3 ?s" by (rule pong_reach_inv [OF first_turn_reached])
  have live: "7 \<notin> live (sharedConnections ?s)"
    by (auto simp: live_def first_thread_def start_pong_def)
  obtain c cs where g: "getConn 7 (sharedConnections ?s) = Some (c, cs)"
    using getConn_some [OF _ _ spare_connection [OF _ at]] inv by (fastforce simp: pong_inv_def pool_inv_def)
  define s2 where "s2 = go 0 (Connected c (1, 1)) (?s\<lparr>sharedConnections := cs\<rparr>)"
  have r2: "pong_reach 4 3 s2"
    unfolding s2_def by (rule next_pong [OF first_turn_reached connect [OF at live g]])
  have "at s2 0 (Connected c (1, 1))" "sendLock s2 = None" "sent s2 = []"
    by (simp_all add: s2_def at_def first_thread_def start_pong_def)
  then have "pong_reach 4 3 (go 0 (Receiving c (1, 1)) (s2\<lparr>sendLock := Some 0, sent := [(0, 1, 1)]\<rparr>))"
    using next_pong [OF r2 send] by fastforce
  then show ?thesis by (intro exI) (auto intro: conjI)
qed

theorem moves_in_order_witness:
  "\<exists>s. pong_reach 4 3 s \<and> map snd (remdups_adj (sent s)) = [(1, 1)] \<and> (1 = length (turns s) \<or> 2 = length (turns s))"
proof -
  obtain s where s: "pong_reach 4 3 s" "sent s = [(0, 1, 1)]" using first_request by blast
  have "(2 :: int) \<le> 4" "(2 :: int) \<le> 3" by simp_all
  from moves_in_order [OF s(1) this] obtain n where n: "map snd (remdups_adj (sent s)) =
      map (\<lambda>k. (zigzag 4 (k + 1), zigzag 3 (k + 1))) [0..<n]" "n = length (turns s) \<or> n + 1 = length (turns s)"
    by blast
  have "n = 1" using arg_cong [OF n(1), of length] s(2) by simp
  then show ?thesis using s n(2) by auto
qed

theorem pong_progress_witness: "\<exists>s'. pong_step (take_turn 0 first_thread) s'"
  using pong_progress [OF first_turn_reached] .

end
