(* ===== verification/Mkbootdisk.thy ===== *)
theory Mkbootdisk
  imports CNumbers Kernel Io61
begin

text \<open>
  The program that builds boot images, \<open>pset3/build/mkbootdisk.c\<close>: a boot sector and files on
  standard output, files into a partition of an existing disk, or a multiboot header into an
  ELF file. \<open>usage\<close> and \<open>exit\<close> end the program with a status; the search through extended
  partitions is a \<open>partial_function (option)\<close>, so \<open>None\<close> is a run that does not end.
\<close>

section \<open>The output\<close>

text \<open>
  What the next calls of \<open>write\<close> do: fail, be interrupted, or accept at most so many bytes;
  afterwards they accept all. Reads of the disk are neither cut short nor interrupted.
\<close>

datatype write_outcome = W_error | W_interrupted | W_count nat

record bootdisk =
  diskfd :: os_fd
  outcomes :: "write_outcome list"
  maxoff :: nat
  curoff :: nat

datatype 'a mk_run = Exited nat bootdisk | Running 'a bootdisk

definition and_then :: "'a mk_run \<Rightarrow> ('a \<Rightarrow> bootdisk \<Rightarrow> 'b mk_run) \<Rightarrow> 'b mk_run" where
  "and_then r f = (case r of Exited c s \<Rightarrow> Exited c s | Running x s \<Rightarrow> f x s)"

definition os_write :: "u8 list \<Rightarrow> bootdisk \<Rightarrow> write_outcome \<times> bootdisk" where
  "os_write data s = (case outcomes s of
       [] \<Rightarrow> (W_count (length data), s\<lparr>diskfd := sys_write data (diskfd s)\<rparr>)
     | r # rs \<Rightarrow> (case r of
           W_count n \<Rightarrow>
             (let n = min n (length data)
              in (W_count n, s\<lparr>outcomes := rs, diskfd :=
                   (if n = 0 then diskfd s else sys_write (take n data) (diskfd s))\<rparr>))
         | _ \<Rightarrow> (r, s\<lparr>outcomes := rs\<rparr>)))"

function write_all :: "u8 list \<Rightarrow> bootdisk \<Rightarrow> unit mk_run" where
  "write_all data s =
     (if data = [] then Running () s
      else case os_write data s of
             (W_error, s) \<Rightarrow> Exited 1 s
           | (W_interrupted, s) \<Rightarrow> write_all data s
           | (W_count w, s) \<Rightarrow>
               if w = 0 then Exited 1 s
               else write_all (drop w data) (s\<lparr>curoff := curoff s + w\<rparr>))"
  by pat_completeness auto

lemma os_write_outcomes:
  "(r, s') = os_write data s \<Longrightarrow> length (outcomes s') \<le> length (outcomes s) \<and>
     (r = W_interrupted \<longrightarrow> length (outcomes s') < length (outcomes s))"
  by (auto simp: os_write_def Let_def split: list.splits write_outcome.splits)

termination write_all
  by (relation "measure (\<lambda>(data, s). length data + length (outcomes s))")
     (auto dest!: os_write_outcomes simp: neq_Nil_conv)

declare write_all.simps [simp del]

definition diskwrite :: "u8 list \<Rightarrow> bootdisk \<Rightarrow> unit mk_run" where
  "diskwrite data s =
     (if maxoff s \<noteq> 0 \<and> curoff s + length data > maxoff s then Exited 1 s
      else write_all data s)"

section \<open>Partitions\<close>

definition sector_size :: nat where "sector_size = 512"
definition PTABLE_OFFSET :: nat where "PTABLE_OFFSET = 446"
definition PTABLE_MAGIC_OFFSET :: nat where "PTABLE_MAGIC_OFFSET = 510"
definition PTYPE_JOS_KERN :: u8 where "PTYPE_JOS_KERN = 0x27"
definition PTYPES_EXTENDED :: "u8 list" where "PTYPES_EXTENDED = [0x05, 0x0F, 0x85]"

record Partitiondesc =
  ptype :: u8
  lba_start :: u32
  lba_length :: u32

definition buffer :: "u8 list \<Rightarrow> mem" where
  "buffer buf = (\<lambda>a. buf ! unat a)"

definition ptable :: "u8 list \<Rightarrow> nat \<Rightarrow> Partitiondesc" where
  "ptable buf i =
     (let a = word_of_nat (PTABLE_OFFSET + 16 * i) in
      \<lparr>ptype = buffer buf (a + 4), lba_start = load32 (buffer buf) (a + 8),
       lba_length = load32 (buffer buf) (a + 12)\<rparr>)"

definition seek_disk :: "nat \<Rightarrow> bootdisk \<Rightarrow> bootdisk" where
  "seek_disk o' s = s\<lparr>diskfd := (diskfd s)\<lparr>fpos := o'\<rparr>\<rparr>"

definition readsect_disk :: "u32 \<Rightarrow> bootdisk \<Rightarrow> u8 list mk_run" where
  "readsect_disk sectno s =
     (let s = seek_disk (unat sectno * sector_size) s;
          (buf, fd) = sys_read sector_size (diskfd s); s = s\<lparr>diskfd := fd\<rparr>
      in if length buf \<noteq> sector_size then Exited 1 s else Running buf s)"

text \<open>
  The start of \<open>find_partition\<close>: a sector without the magic number has no table. The sector
  number, an \<open>off_t\<close>, is cut to 32 bits where it is passed to \<open>readsect\<close>.
\<close>

definition read_table :: "nat \<Rightarrow> bootdisk \<Rightarrow> u8 list option mk_run" where
  "read_table sect s = and_then (readsect_disk (word_of_nat sect) s) (\<lambda>buf s.
     Running (if buf ! PTABLE_MAGIC_OFFSET \<noteq> 0x55 \<or> buf ! (PTABLE_MAGIC_OFFSET + 1) \<noteq> 0xAA
              then None else Some buf) s)"

partial_function (option) search_table ::
    "nat \<Rightarrow> u8 list \<Rightarrow> nat \<Rightarrow> nat \<Rightarrow> nat \<Rightarrow> bootdisk \<Rightarrow> int mk_run option" where
  "search_table i buf sect ext partoff s =
     (if i < 4
      then let p = ptable buf i in
        if lba_length p = 0 then search_table (i + 1) buf sect ext partoff s
        else if ptype p = PTYPE_JOS_KERN
        then Some (Running 1 ((seek_disk ((sect + unat (lba_start p)) * sector_size) s)
                     \<lparr>maxoff := unat (lba_length p) * sector_size\<rparr>))
        else if ptype p \<in> set PTYPES_EXTENDED
        then (let inner = (if ext = 0 then unat (lba_start p) else ext);
                  sub = unat (lba_start p) + ext
              in case read_table sub s of
                   Exited c s \<Rightarrow> Some (Exited c s)
                 | Running table s \<Rightarrow>
                     do {
                       r \<leftarrow> (case table of
                             None \<Rightarrow> Some (Running 0 s)
                           | Some buf' \<Rightarrow>
                               search_table 0 buf' sub inner
                                 (if partoff \<noteq> 0 then partoff + 1 else 4) s);
                       case r of
                         Exited c s \<Rightarrow> Some (Exited c s)
                       | Running found s \<Rightarrow>
                           if found > 0 then Some (Running found s)
                           else search_table (i + 1) buf sect ext partoff s })
        else search_table (i + 1) buf sect ext partoff s
      else Some (Running 0 s))"

definition find_partition :: "nat \<Rightarrow> nat \<Rightarrow> nat \<Rightarrow> bootdisk \<Rightarrow> int mk_run option" where
  "find_partition sect ext partoff s = (case read_table sect s of
       Exited c s \<Rightarrow> Some (Exited c s)
     | Running None s \<Rightarrow> Some (Running 0 s)
     | Running (Some buf) s \<Rightarrow> search_table 0 buf sect ext partoff s)"

section \<open>The multiboot header\<close>

text \<open>
  The program is compiled for the host. On one with 64-bit pointers, as here, the fields
  \<open>e_entry\<close>, \<open>p_va\<close> and \<open>p_pa\<close> of \<open>elf.h\<close> have 8 bytes, so \<open>e_phoff\<close> is read at offset 32 and
  \<open>e_phnum\<close> at 48 of the file, and an \<open>elf_program\<close> has 40 bytes.
\<close>

definition word_bytes :: "u32 \<Rightarrow> u8 list" where
  "word_bytes w = [ucast w, ucast (drop_bit 8 w), ucast (drop_bit 16 w), ucast (drop_bit 24 w)]"

definition multiboot_header :: "u32 list" where
  "multiboot_header = [0x1BADB002, 0, - 0x1BADB002]"

definition open_disk :: "u8 list \<Rightarrow> bootdisk \<Rightarrow> bootdisk" where
  "open_disk bs s = s\<lparr>diskfd := \<lparr>contents = bs, fpos = 0, regular = True, chunks = []\<rparr>\<rparr>"

definition do_multiboot :: "(u8 list \<Rightarrow> u8 list option) \<Rightarrow> u8 list \<Rightarrow> bootdisk \<Rightarrow> nat \<times> bootdisk" where
  "do_multiboot files name s = (case files name of
       None \<Rightarrow> (1, s)
     | Some bs \<Rightarrow>
         (case readsect_disk 0 (open_disk bs s) of
            Exited c s \<Rightarrow> (c, s)
          | Running buf s \<Rightarrow>
              let o' = unat (load32 (buffer buf) 32) + 40 * unat (load16 (buffer buf) 48)
              in if load32 (buffer buf) 0 \<noteq> ELF_MAGIC \<or> o' \<ge> 4096 - 12 then (1, s)
                 else (case diskwrite (concat (List.map word_bytes multiboot_header)) (seek_disk o' s) of
                         Exited c s \<Rightarrow> (c, s)
                       | Running _ s \<Rightarrow> (0, s))))"

section \<open>The image\<close>

definition boot_sector :: "u8 list \<Rightarrow> u8 list" where
  "boot_sector code = code @ replicate (510 - length code) 0 @ [0x55, 0xAA]"

text \<open>\<open>@number\<close>: the sector to skip to, when all of the text is a number.\<close>

definition skip_argument :: "u8 list \<Rightarrow> nat option" where
  "skip_argument arg = (case arg of
       c # d # r \<Rightarrow> if c = 64 \<and> isdigit d \<and> snd (scan_unsigned (d # r)) = []
                     then Some (strtoul (d # r)) else None
     | _ \<Rightarrow> None)"

primrec write_zeros :: "nat \<Rightarrow> bootdisk \<Rightarrow> unit mk_run" where
  "write_zeros 0 s = Running () s"
| "write_zeros (Suc n) s = and_then (diskwrite (replicate 512 0) s) (\<lambda>_. write_zeros n)"

function copy_file :: "u8 list \<Rightarrow> bootdisk \<Rightarrow> unit mk_run" where
  "copy_file bs s =
     (if bs = [] then Running () s
      else and_then (diskwrite (take 4096 bs) s) (\<lambda>_. copy_file (drop 4096 bs)))"
  by pat_completeness auto
termination copy_file
  by (relation "measure (\<lambda>(bs, s). length bs)") auto

declare copy_file.simps [simp del]

definition write_file :: "u8 list \<Rightarrow> bootdisk \<Rightarrow> unit mk_run" where
  "write_file bs s = and_then (copy_file bs s) (\<lambda>_ s.
     if length bs mod 512 \<noteq> 0 then diskwrite (replicate (512 - length bs mod 512) 0) s
     else Running () s)"

primrec write_arguments ::
    "(u8 list \<Rightarrow> u8 list option) \<Rightarrow> u8 list list \<Rightarrow> nat \<Rightarrow> bootdisk \<Rightarrow> nat mk_run" where
  "write_arguments files [] nsectors s = Running nsectors s"
| "write_arguments files (arg # args) nsectors s = (case skip_argument arg of
       Some skipto_sector \<Rightarrow>
         if nsectors > skipto_sector then Exited 1 s
         else and_then (write_zeros (skipto_sector - nsectors) s)
                (\<lambda>_. write_arguments files args skipto_sector)
     | None \<Rightarrow> (case files arg of
           None \<Rightarrow> Exited 1 s
         | Some bs \<Rightarrow> and_then (write_file bs s)
             (\<lambda>_. write_arguments files args (nsectors + (length bs + 511) div 512))))"

definition write_image :: "(u8 list \<Rightarrow> u8 list option) \<Rightarrow> u8 list list \<Rightarrow> nat \<Rightarrow> bootdisk \<Rightarrow> nat \<times> bootdisk" where
  "write_image files args nsectors s =
     (case and_then (write_arguments files args nsectors s) (\<lambda>n. write_zeros (1024 - n)) of
        Exited c s \<Rightarrow> (c, s) | Running _ s \<Rightarrow> (0, s))"

definition option_p :: "u8 list" where "option_p = [45, 112]"
definition option_m :: "u8 list" where "option_m = [45, 109]"

text \<open>The program after the options: the boot sector, unless into a partition, and the files.\<close>

definition bootdisk_files ::
    "(u8 list \<Rightarrow> u8 list option) \<Rightarrow> bool \<Rightarrow> u8 list list \<Rightarrow> bootdisk \<Rightarrow> nat \<times> bootdisk" where
  "bootdisk_files files bootsector_special args s = (case args of
       [] \<Rightarrow> (1, s)
     | arg # rest \<Rightarrow>
         if arg = option_m
         then (case rest of [] \<Rightarrow> (1, s) | name # _ \<Rightarrow> do_multiboot files name s)
         else if bootsector_special
         then (case files arg of
                 None \<Rightarrow> (1, s)
               | Some code \<Rightarrow>
                   if length code > 510 then (1, s)
                   else (case diskwrite (boot_sector code) s of
                           Exited c s \<Rightarrow> (c, s)
                         | Running _ s \<Rightarrow> write_image files rest 1 s))
         else write_image files args 0 s)"

definition mkbootdisk :: "(u8 list \<Rightarrow> u8 list option) \<Rightarrow> u8 list list \<Rightarrow> bootdisk \<Rightarrow> (nat \<times> bootdisk) option" where
  "mkbootdisk files args s = (case args of
       arg # rest \<Rightarrow>
         if arg = option_p
         then (case rest of
                 [] \<Rightarrow> Some (1, s)
               | name # args' \<Rightarrow> (case files name of
                     None \<Rightarrow> Some (1, s)
                   | Some bs \<Rightarrow> do {
                       r \<leftarrow> find_partition 0 0 0 (open_disk bs s);
                       case r of
                         Exited c s \<Rightarrow> Some (c, s)
                       | Running found s \<Rightarrow>
                           if found \<le> 0 then Some (1, s)
                           else Some (bootdisk_files files False args' s) }))
         else Some (bootdisk_files files True args s)
     | [] \<Rightarrow> Some (1, s))"

end
