(* ===== verification/MkbootProps.thy ===== *)
theory MkbootProps
  imports Mkbootdisk Io61Readers
begin

text \<open>
  What the image builder writes: the layout of a boot image, and that a run into a partition
  changes nothing outside of it.
\<close>

section \<open>Writing at the end\<close>

text \<open>An output that only delays: calls of \<open>write\<close> are interrupted or accept a part.\<close>

definition smooth :: "bootdisk \<Rightarrow> bool" where
  "smooth s \<longleftrightarrow> list_all (\<lambda>r. r = W_interrupted \<or> (\<exists>n. r = W_count (Suc n))) (outcomes s)"

definition at_end :: "bootdisk \<Rightarrow> bool" where
  "at_end s \<longleftrightarrow> appending (diskfd s) \<and> maxoff s = 0 \<and> smooth s"

definition wrote :: "u8 list \<Rightarrow> bootdisk \<Rightarrow> bootdisk \<Rightarrow> bool" where
  "wrote data s s' \<longleftrightarrow> at_end s' \<and> contents (diskfd s') = contents (diskfd s) @ data"

lemma wrote_trans: "wrote a s s1 \<Longrightarrow> wrote b s1 s2 \<Longrightarrow> wrote (a @ b) s s2"
  by (simp add: wrote_def)

lemma wrote_nil: "at_end s \<Longrightarrow> wrote [] s s"
  by (simp add: wrote_def)

lemma and_then_simps [simp]:
  "and_then (Exited c s) f = Exited c s" "and_then (Running x s) f = f x s"
  by (simp_all add: and_then_def)

lemma os_write_smooth:
  assumes "at_end s" "data \<noteq> []"
  obtains s' where "os_write data s = (W_interrupted, s')" "at_end s'"
      "contents (diskfd s') = contents (diskfd s)"
  | n s' where "os_write data s = (W_count (Suc n), s')" "at_end s'" "Suc n \<le> length data"
      "contents (diskfd s') = contents (diskfd s) @ take (Suc n) data"
proof (cases "outcomes s")
  case Nil
  obtain n where "length data = Suc n" using assms(2) by (cases data) auto
  then show thesis
    using assms(1) Nil by (intro that(2)) (auto simp: os_write_def at_end_def smooth_def sys_write_append)
next
  case (Cons r rs)
  consider "r = W_interrupted" | n where "r = W_count (Suc n)"
    using assms(1) Cons by (auto simp: at_end_def smooth_def)
  then show thesis
  proof cases
    case 1
    then show thesis
      using assms(1) Cons by (intro that(1) [of "s\<lparr>outcomes := rs\<rparr>"]) (auto simp: os_write_def at_end_def smooth_def)
  next
    case 2
    obtain k where k: "min (Suc n) (length data) = Suc k" using assms(2) by (cases data) auto
    have "take (length (take (Suc k) data)) data = take (Suc k) data" "Suc k \<le> length data"
      using k by auto
    then show thesis
      using assms(1) Cons 2 k by (intro that(2) [of k])
        (auto simp: os_write_def at_end_def smooth_def sys_write_append Let_def)
  qed
qed

lemma write_all_appends: "at_end s \<Longrightarrow> \<exists>s'. write_all data s = Running () s' \<and> wrote data s s'"
proof (induction data s rule: write_all.induct)
  case (1 data s)
  note IH = "1.IH"
  show ?case
  proof (cases "data = []")
    case True
    with 1 show ?thesis by (subst write_all.simps) (simp add: wrote_nil)
  next
    case False
    have body: "write_all data s = (case os_write data s of
        (W_error, s) \<Rightarrow> Exited 1 s
      | (W_interrupted, s) \<Rightarrow> write_all data s
      | (W_count w, s) \<Rightarrow> if w = 0 then Exited 1 s
          else write_all (drop w data) (s\<lparr>curoff := curoff s + w\<rparr>))"
      using False by (subst write_all.simps) simp
    from "1.prems" False show ?thesis
    proof (cases rule: os_write_smooth)
      case (1 s')
      then show ?thesis using IH(1) [OF False 1(1) [symmetric]] body by (auto simp: wrote_def)
    next
      case (2 n s')
      let ?t = "s'\<lparr>curoff := curoff s' + Suc n\<rparr>"
      have "at_end ?t" using 2(2) by (simp add: at_end_def smooth_def)
      then obtain u where "write_all (drop (Suc n) data) ?t = Running () u"
        "wrote (drop (Suc n) data) ?t u"
        using IH(2) [OF False 2(1) [symmetric]] by auto
      then show ?thesis using body 2 by (auto simp: wrote_def)
    qed
  qed
qed

lemma diskwrite_appends: "at_end s \<Longrightarrow> \<exists>s'. diskwrite data s = Running () s' \<and> wrote data s s'"
  using write_all_appends [of s data] by (simp add: diskwrite_def at_end_def)

lemma and_then_appends:
  assumes "\<exists>s1. r = Running x s1 \<and> wrote a s s1"
    and "\<And>s1. wrote a s s1 \<Longrightarrow> \<exists>s2. f x s1 = Running y s2 \<and> wrote b s1 s2"
  shows "\<exists>s2. and_then r f = Running y s2 \<and> wrote (a @ b) s s2"
proof -
  obtain s1 where s1: "r = Running x s1" "wrote a s s1" using assms(1) by blast
  with assms(2) obtain s2 where "f x s1 = Running y s2" "wrote b s1 s2" by blast
  with s1 show ?thesis by (auto intro: wrote_trans)
qed

lemma wrote_at_end: "wrote a s s' \<Longrightarrow> at_end s'"
  by (simp add: wrote_def)

lemma write_zeros_appends:
  "at_end s \<Longrightarrow> \<exists>s'. write_zeros n s = Running () s' \<and> wrote (replicate (512 * n) 0) s s'"
proof (induction n arbitrary: s)
  case (Suc n)
  have "replicate (512 * Suc n) 0 = replicate 512 0 @ replicate (512 * n) (0 :: u8)"
    by (simp flip: replicate_add)
  then show ?case
    using and_then_appends [OF diskwrite_appends [OF Suc.prems], of "replicate 512 0"
        "\<lambda>_. write_zeros n" "()" "replicate (512 * n) 0"] Suc.IH wrote_at_end
    by simp
qed (simp add: wrote_nil)

lemma copy_file_appends: "at_end s \<Longrightarrow> \<exists>s'. copy_file bs s = Running () s' \<and> wrote bs s s'"
proof (induction bs arbitrary: s rule: length_induct)
  case (1 bs)
  show ?case
  proof (cases "bs = []")
    case True
    with 1 show ?thesis by (subst copy_file.simps) (simp add: wrote_nil)
  next
    case False
    have "\<exists>s2. and_then (diskwrite (take 4096 bs) s) (\<lambda>_. copy_file (drop 4096 bs)) = Running () s2 \<and>
        wrote (take 4096 bs @ drop 4096 bs) s s2"
      using 1 False
      by (intro and_then_appends [OF diskwrite_appends]) (auto dest: wrote_at_end)
    with False show ?thesis by (subst copy_file.simps) simp
  qed
qed

definition padded :: "u8 list \<Rightarrow> u8 list" where
  "padded bs = bs @ replicate ((512 - length bs mod 512) mod 512) 0"

lemma length_padded: "length (padded bs) = 512 * ((length bs + 511) div 512)"
proof (cases "length bs mod 512 = 0")
  case True
  then obtain q where "length bs = 512 * q" by (auto elim: dvdE simp flip: dvd_eq_mod_eq_0)
  then show ?thesis by (simp add: padded_def)
next
  case False
  define q t where "q = length bs div 512" and "t = length bs mod 512 - 1"
  have bs: "length bs = 512 * q + Suc t" "t < 511"
    using False mod_less_divisor [of 512 "length bs"] by (auto simp: q_def t_def)
  have "(512 * q + Suc t + 511) div 512 = (512 * (q + 1) + t) div 512" by (simp add: algebra_simps)
  also have "\<dots> = q + 1" using bs(2) by (simp only: div_mult_self4)
  finally show ?thesis using bs by (simp add: padded_def)
qed

lemma write_file_appends: "at_end s \<Longrightarrow> \<exists>s'. write_file bs s = Running () s' \<and> wrote (padded bs) s s'"
  unfolding write_file_def padded_def
  by (rule and_then_appends [OF copy_file_appends])
    (auto intro: diskwrite_appends dest: wrote_at_end simp: wrote_nil)

section \<open>The layout of an image\<close>

primrec arguments_ok :: "(u8 list \<Rightarrow> u8 list option) \<Rightarrow> u8 list list \<Rightarrow> nat \<Rightarrow> bool" where
  "arguments_ok files [] n \<longleftrightarrow> True"
| "arguments_ok files (arg # args) n \<longleftrightarrow> (case skip_argument arg of
       Some k \<Rightarrow> n \<le> k \<and> arguments_ok files args k
     | None \<Rightarrow> (case files arg of
           None \<Rightarrow> False
         | Some bs \<Rightarrow> arguments_ok files args (n + (length bs + 511) div 512)))"

primrec layout :: "(u8 list \<Rightarrow> u8 list option) \<Rightarrow> u8 list list \<Rightarrow> nat \<Rightarrow> u8 list" where
  "layout files [] n = replicate (512 * (1024 - n)) 0"
| "layout files (arg # args) n = (case skip_argument arg of
       Some k \<Rightarrow> replicate (512 * (k - n)) 0 @ layout files args k
     | None \<Rightarrow> padded (the (files arg)) @
         layout files args (n + (length (the (files arg)) + 511) div 512))"

lemma layout_length:
  "arguments_ok files args n \<Longrightarrow> 512 dvd length (layout files args n) \<and>
     512 * 1024 \<le> 512 * n + length (layout files args n)"
proof (induction args arbitrary: n)
  case (Cons arg args)
  show ?case
  proof (cases "skip_argument arg")
    case None
    with Cons.prems obtain bs where "files arg = Some bs"
      "arguments_ok files args (n + (length bs + 511) div 512)" by (auto split: option.splits)
    with Cons.IH [of "n + (length bs + 511) div 512"] None show ?thesis
      by (auto simp: length_padded)
  next
    case (Some k)
    with Cons.prems Cons.IH [of k] show ?thesis by auto
  qed
qed auto

lemma write_image_appends:
  assumes "at_end s" "arguments_ok files args n"
  shows "\<exists>s'. and_then (write_arguments files args n s) (\<lambda>n. write_zeros (1024 - n)) = Running () s' \<and>
    wrote (layout files args n) s s'"
  using assms
proof (induction args arbitrary: n s)
  case Nil
  then show ?case by (simp add: write_zeros_appends)
next
  case (Cons arg args)
  have assoc: "and_then (and_then r f) g = and_then r (\<lambda>x s. and_then (f x s) g)" for r f and g :: "nat \<Rightarrow> bootdisk \<Rightarrow> unit mk_run"
    by (simp add: and_then_def split: mk_run.split)
  show ?case
  proof (cases "skip_argument arg")
    case None
    with Cons.prems obtain bs where bs: "files arg = Some bs"
      "arguments_ok files args (n + (length bs + 511) div 512)" by (auto split: option.splits)
    show ?thesis
      using and_then_appends [OF write_file_appends [OF Cons.prems(1)] Cons.IH [OF wrote_at_end bs(2)], of bs]
      by (simp add: None bs(1) assoc)
  next
    case (Some k)
    with Cons.prems have k: "n \<le> k" "arguments_ok files args k" by auto
    show ?thesis
      using and_then_appends [OF write_zeros_appends [OF Cons.prems(1)] Cons.IH [OF wrote_at_end k(2)], of "k - n"] k(1)
      by (simp add: Some assoc)
  qed
qed

definition bootimage :: "(u8 list \<Rightarrow> u8 list option) \<Rightarrow> u8 list \<Rightarrow> u8 list list \<Rightarrow> u8 list" where
  "bootimage files code args = boot_sector code @ layout files args 1"

lemma mkbootdisk_image:
  assumes "at_end s" "boot \<noteq> option_p" "boot \<noteq> option_m" "files boot = Some code"
    and "length code \<le> 510" "arguments_ok files args 1"
  shows "\<exists>s'. mkbootdisk files (boot # args) s = Some (0, s') \<and> wrote (bootimage files code args) s s'"
proof -
  have "\<exists>s2. and_then (diskwrite (boot_sector code) s) (\<lambda>_ s. and_then (write_arguments files args 1 s)
      (\<lambda>n. write_zeros (1024 - n))) = Running () s2 \<and> wrote (boot_sector code @ layout files args 1) s s2"
    using assms(1,6)
    by (intro and_then_appends [OF diskwrite_appends] write_image_appends) (auto dest: wrote_at_end)
  then show ?thesis
    using diskwrite_appends [OF assms(1), of "boot_sector code"] assms(2-5)
    by (auto simp: mkbootdisk_def bootdisk_files_def write_image_def bootimage_def)
qed

lemma length_boot_sector [simp]: "length code \<le> 510 \<Longrightarrow> length (boot_sector code) = 512"
  by (simp add: boot_sector_def)

text \<open>
  C39: The layout of a boot image. When output only delays and every argument is there,
  \<open>mkbootdisk\<close> ends with status 0 and its output is the boot sector, the boot code with zeroes
  and the signature \<open>0x55 0xAA\<close> in its last two bytes, followed by the files in order, each
  padded to a sector and every \<open>@\<close> argument as zeroes up to its sector, and filled up to 1024
  sectors; the image consists of whole sectors.
\<close>

theorem bootdisk_layout:
  assumes "at_end s" "boot \<noteq> option_p" "boot \<noteq> option_m" "files boot = Some code"
    and "length code \<le> 510" "arguments_ok files args 1"
  shows "\<exists>s'. mkbootdisk files (boot # args) s = Some (0, s') \<and>
    contents (diskfd s') = contents (diskfd s) @ bootimage files code args \<and>
    take (length code) (bootimage files code args) = code \<and>
    bootimage files code args ! 510 = 0x55 \<and> bootimage files code args ! 511 = 0xAA \<and>
    drop 512 (bootimage files code args) = layout files args 1 \<and>
    512 dvd length (bootimage files code args) \<and> 1024 * 512 \<le> length (bootimage files code args)"
proof -
  let ?pre = "code @ replicate (510 - length code) (0 :: u8)"
  have "boot_sector code ! 510 = 0x55" "boot_sector code ! 511 = 0xAA"
    "take (length code) (boot_sector code) = code"
    using nth_append_length [of ?pre "0x55" "[0xAA]"] nth_append_length [of "?pre @ [0x55]" "0xAA" "[]"] assms(5)
    by (simp_all add: boot_sector_def)
  then show ?thesis
    using mkbootdisk_image [OF assms] layout_length [OF assms(6)] assms(5)
    by (auto simp: bootimage_def wrote_def nth_append dvd_add)
qed

definition two_files :: "u8 list \<Rightarrow> u8 list option" where
  "two_files name = (if name = [98] then Some [0xFA, 0xF4]
                     else if name = [107] then Some (replicate 600 7) else None)"

definition slow_output :: bootdisk where
  "slow_output = \<lparr>diskfd = \<lparr>contents = [], fpos = 0, regular = False, chunks = []\<rparr>,
     outcomes = [W_interrupted, W_count 5, W_count 600], maxoff = 0, curoff = 0\<rparr>"

lemma slow_output_at_end: "at_end slow_output" "contents (diskfd slow_output) = []"
  by (simp_all add: at_end_def slow_output_def smooth_def appending_def)

lemma bootdisk_layout_witness:
  "\<exists>s'. mkbootdisk two_files [[98], [107], [64, 56]] slow_output = Some (0, s') \<and>
    length (contents (diskfd s')) mod 512 = 0 \<and> contents (diskfd s') ! 511 = 0xAA"
proof -
  have "arguments_ok two_files [[107], [64, 56]] 1"
    by (simp add: two_files_def skip_argument_def isdigit_def scan_unsigned_def strtoul_def
        scan_sign_def isspace_def digits_value_def decimal_def)
  from bootdisk_layout [OF slow_output_at_end(1) _ _ _ _ this, of "[98]" "[0xFA, 0xF4]"] show ?thesis
    by (auto simp: option_p_def option_m_def two_files_def slow_output_at_end dvd_eq_mod_eq_0)
qed

end
