(* ===== verification/MkbootPart.thy ===== *)
theory MkbootPart
  imports MkbootProps
begin

text \<open>
  \<open>mkbootdisk -p\<close>: which partitions the search through the tables of a disk can find, that a
  run writes only into the one it found, and a disk on which the search does not end.
\<close>

section \<open>Partitions on a disk\<close>

text \<open>
  The kernel partitions that the tables of a disk list, from the table in sector \<open>sect\<close>: its
  own, and those of the extended partitions it names; \<open>ext\<close> is the first sector of the
  outermost extended partition. Sector numbers of tables are taken modulo \<open>2 ^ 32\<close>.
\<close>

definition table_at :: "u8 list \<Rightarrow> nat \<Rightarrow> u8 list \<Rightarrow> bool" where
  "table_at bs sect buf \<longleftrightarrow> buf = take 512 (drop (512 * (sect mod 2 ^ 32)) bs) \<and> length buf = 512 \<and>
     buf ! 510 = 0x55 \<and> buf ! 511 = 0xAA"

inductive listed :: "u8 list \<Rightarrow> nat \<Rightarrow> nat \<Rightarrow> nat \<Rightarrow> nat \<Rightarrow> bool" for bs where
  entry: "table_at bs sect buf \<Longrightarrow> i < 4 \<Longrightarrow> p = ptable buf i \<Longrightarrow> lba_length p \<noteq> 0 \<Longrightarrow>
    ptype p = PTYPE_JOS_KERN \<Longrightarrow>
    listed bs sect ext (sect + unat (lba_start p)) (unat (lba_length p))"
| nested: "table_at bs sect buf \<Longrightarrow> i < 4 \<Longrightarrow> p = ptable buf i \<Longrightarrow> lba_length p \<noteq> 0 \<Longrightarrow>
    ptype p \<in> set PTYPES_EXTENDED \<Longrightarrow>
    listed bs (unat (lba_start p) + ext) (if ext = 0 then unat (lba_start p) else ext) start len \<Longrightarrow>
    listed bs sect ext start len"

primrec final :: "'a mk_run \<Rightarrow> bootdisk" where
  "final (Exited c s) = s"
| "final (Running x s) = s"

definition same_disk :: "bootdisk \<Rightarrow> bootdisk \<Rightarrow> bool" where
  "same_disk s s' \<longleftrightarrow> contents (diskfd s') = contents (diskfd s) \<and> regular (diskfd s') \<and>
     curoff s' = curoff s"

definition chosen :: "u8 list \<Rightarrow> nat \<Rightarrow> nat \<Rightarrow> int mk_run \<Rightarrow> bool" where
  "chosen bs sect ext r \<longleftrightarrow> (\<forall>v s. r = Running v s \<longrightarrow> v > 0 \<longrightarrow>
     (\<exists>start len. listed bs sect ext start len \<and> fpos (diskfd s) = 512 * start \<and>
        maxoff s = 512 * len \<and> 0 < len)) \<and> (\<forall>c s. r = Exited c s \<longrightarrow> c = 1)"

lemma read_table_cases:
  assumes "regular (diskfd s)"
  obtains s' where "read_table sect s = Exited 1 s'" "same_disk s s'"
  | s' where "read_table sect s = Running None s'" "same_disk s s'"
  | s' buf where "read_table sect s = Running (Some buf) s'" "same_disk s s'"
      "table_at (contents (diskfd s)) sect buf"
proof -
  let ?n = "sect mod 2 ^ 32"
  let ?buf = "take 512 (drop (512 * ?n) (contents (diskfd s)))"
  let ?s = "s\<lparr>diskfd := (diskfd s)\<lparr>fpos := 512 * ?n + length ?buf, chunks := tl (chunks (diskfd s))\<rparr>\<rparr>"
  have r: "readsect_disk (word_of_nat sect) s = (if length ?buf \<noteq> 512 then Exited 1 ?s else Running ?buf ?s)"
    using assms
    by (simp add: readsect_disk_def seek_disk_def sys_read_def sector_size_def Let_def mult.commute
        unat_of_nat)
  have same: "same_disk s ?s" using assms by (simp add: same_disk_def)
  show thesis
  proof (cases "length ?buf = 512")
    case False
    then show thesis using r same by (intro that(1)) (auto simp: read_table_def)
  next
    case True
    show thesis
    proof (cases "?buf ! 510 = 0x55 \<and> ?buf ! 511 = 0xAA")
      case False
      then show thesis using r True same
        by (intro that(2)) (auto simp: read_table_def PTABLE_MAGIC_OFFSET_def)
    next
      case magic: True
      then show thesis using r True same
        by (intro that(3)) (auto simp: read_table_def PTABLE_MAGIC_OFFSET_def table_at_def)
    qed
  qed
qed

lemma same_disk_trans: "same_disk s s1 \<Longrightarrow> same_disk s1 s2 \<Longrightarrow> same_disk s s2"
  by (simp add: same_disk_def)

lemma search_table_chosen:
  "search_table i buf sect ext partoff s = Some r \<Longrightarrow>
     regular (diskfd s) \<longrightarrow> table_at (contents (diskfd s)) sect buf \<longrightarrow>
     same_disk s (final r) \<and> chosen (contents (diskfd s)) sect ext r"
proof (induction rule: search_table.raw_induct [rotated, consumes 1])
  case (1 srch i buf sect ext partoff s r)
  note IHs = 1(1) and body = 1(2)
  let ?p = "ptable buf i"
  show ?case
  proof (intro impI)
    assume reg: "regular (diskfd s)" and tab: "table_at (contents (diskfd s)) sect buf"
    have onward: "same_disk s (final r) \<and> chosen (contents (diskfd s)) sect ext r"
      if "srch (i + 1) buf sect ext partoff s' = Some r" "same_disk s s'" for s'
      using IHs [OF that(1)] that(2) tab by (auto simp: same_disk_def)
    consider "\<not> i < 4" | "i < 4" "lba_length ?p = 0"
      | "i < 4" "lba_length ?p \<noteq> 0" "ptype ?p = PTYPE_JOS_KERN"
      | "i < 4" "lba_length ?p \<noteq> 0" "ptype ?p \<noteq> PTYPE_JOS_KERN" "ptype ?p \<in> set PTYPES_EXTENDED"
      | "i < 4" "lba_length ?p \<noteq> 0" "ptype ?p \<noteq> PTYPE_JOS_KERN" "ptype ?p \<notin> set PTYPES_EXTENDED"
      by blast
    then show "same_disk s (final r) \<and> chosen (contents (diskfd s)) sect ext r"
    proof cases
      case 1
      then have "r = Running 0 s" using body by simp
      then show ?thesis using reg by (simp add: same_disk_def chosen_def)
    next
      case 2
      then show ?thesis using body reg by (intro onward) (simp_all add: same_disk_def)
    next
      case 3
      then have r: "r = Running 1 ((seek_disk ((sect + unat (lba_start ?p)) * sector_size) s)
          \<lparr>maxoff := unat (lba_length ?p) * sector_size\<rparr>)" using body by (simp add: Let_def)
      have "listed (contents (diskfd s)) sect ext (sect + unat (lba_start ?p)) (unat (lba_length ?p))"
        using listed.entry [OF tab 3(1) refl 3(2,3)] by simp
      then show ?thesis using reg 3(2)
        by (auto simp: r same_disk_def chosen_def seek_disk_def sector_size_def mult.commute
            unat_gt_0)
    next
      case 4
      let ?sub = "unat (lba_start ?p) + ext" and ?inner = "if ext = 0 then unat (lba_start ?p) else ext"
      show ?thesis
      proof (cases rule: read_table_cases [OF reg, of ?sub])
        case (1 s')
        then have "r = Exited 1 s'" using 4 body by (simp add: Let_def)
        then show ?thesis using 1 by (simp add: chosen_def)
      next
        case (2 s')
        then show ?thesis using 4 body by (intro onward [of s']) (simp_all add: Let_def)
      next
        case (3 s' buf')
        then obtain q where q: "srch 0 buf' ?sub ?inner (if partoff \<noteq> 0 then partoff + 1 else 4) s' = Some q"
          and rest: "(case q of Exited c s \<Rightarrow> Some (Exited c s) | Running found s \<Rightarrow>
              if found > 0 then Some (Running found s) else srch (i + 1) buf sect ext partoff s) = Some r"
          using 4 body by (auto simp: Let_def split: option.splits bind_splits)
        have s': "contents (diskfd s') = contents (diskfd s)" "regular (diskfd s')"
          using 3(2) by (simp_all add: same_disk_def)
        have IH: "same_disk s (final q)" "chosen (contents (diskfd s)) ?sub ?inner q"
          using IHs [OF q] s' 3(3) same_disk_trans [OF 3(2)] by auto
        show ?thesis
        proof (cases q)
          case (Exited c t)
          then show ?thesis using rest IH by (auto simp: chosen_def)
        next
          case (Running v t)
          show ?thesis
          proof (cases "v > 0")
            case True
            then have r: "r = q" using rest by (simp add: Running)
            from IH(2) True obtain start len where
              "listed (contents (diskfd s)) ?sub ?inner start len" "fpos (diskfd t) = 512 * start"
              "maxoff t = 512 * len" "0 < len" by (auto simp: chosen_def Running)
            moreover from this(1) have "listed (contents (diskfd s)) sect ext start len"
              by (rule listed.nested [OF tab 4(1) refl 4(2,4)])
            ultimately show ?thesis using IH(1) by (auto simp: r chosen_def Running)
          next
            case False
            then show ?thesis using rest IH(1) by (intro onward [of t]) (simp_all add: Running)
          qed
        qed
      qed
    next
      case 5
      then show ?thesis using body reg by (intro onward) (simp_all add: same_disk_def Let_def)
    qed
  qed
qed

lemma find_partition_chosen:
  assumes "find_partition sect ext partoff s = Some r" "regular (diskfd s)"
  shows "same_disk s (final r)" "chosen (contents (diskfd s)) sect ext r"
proof -
  have "same_disk s (final r) \<and> chosen (contents (diskfd s)) sect ext r"
  proof (cases rule: read_table_cases [OF assms(2), of sect])
    case (1 s')
    then show ?thesis using assms(1) by (auto simp: find_partition_def chosen_def)
  next
    case (2 s')
    then show ?thesis using assms(1) by (auto simp: find_partition_def chosen_def)
  next
    case (3 s' buf)
    then have r: "search_table 0 buf sect ext partoff s' = Some r"
      and s': "contents (diskfd s') = contents (diskfd s)" "regular (diskfd s')"
      using assms(1) by (simp_all add: find_partition_def same_disk_def)
    show ?thesis
      using search_table_chosen [OF r] s' 3(3) same_disk_trans [OF 3(2)] by simp
  qed
  then show "same_disk s (final r)" "chosen (contents (diskfd s)) sect ext r" by simp_all
qed

section \<open>Writing into a partition\<close>

text \<open>The state of a run into the partition at byte \<open>base\<close> of a disk that was \<open>old\<close>.\<close>

definition confined :: "u8 list \<Rightarrow> nat \<Rightarrow> nat \<Rightarrow> bootdisk \<Rightarrow> bool" where
  "confined old base extent s \<longleftrightarrow> maxoff s = extent \<and> 0 < extent \<and> curoff s \<le> extent \<and>
     fpos (diskfd s) = base + curoff s \<and> length old \<le> length (contents (diskfd s)) \<and>
     (\<forall>j < length old. j < base \<or> base + extent \<le> j \<longrightarrow> contents (diskfd s) ! j = old ! j)"

definition untouched :: "u8 list \<Rightarrow> nat \<Rightarrow> nat \<Rightarrow> bootdisk \<Rightarrow> bool" where
  "untouched old base extent s \<longleftrightarrow>
     (\<forall>j < length old. j < base \<or> base + extent \<le> j \<longrightarrow> contents (diskfd s) ! j = old ! j)"

lemma sys_write_outside:
  "length (contents d) \<le> length (contents (sys_write bs d))"
  "fpos (sys_write bs d) = fpos d + length bs"
  "j < length (contents d) \<Longrightarrow> j < fpos d \<or> fpos d + length bs \<le> j \<Longrightarrow>
     contents (sys_write bs d) ! j = contents d ! j"
  by (auto simp: sys_write_def Let_def nth_append min_def)

lemma confined_write:
  assumes s: "confined old base extent s" and n: "curoff s + length bs \<le> extent"
    and t: "maxoff t = maxoff s" "diskfd t = sys_write bs (diskfd s)" "curoff t = curoff s + length bs"
  shows "confined old base extent t"
proof -
  note out = sys_write_outside [where d = "diskfd s" and bs = bs]
  have "contents (sys_write bs (diskfd s)) ! j = old ! j"
    if "j < length old" "j < base \<or> base + extent \<le> j" for j
    using s n that out(3) [of j] by (auto simp: confined_def)
  then show ?thesis using s n t out(1,2) by (auto simp: confined_def)
qed

lemma confined_outcomes:
  "confined old base extent s \<Longrightarrow> confined old base extent (s\<lparr>outcomes := rs\<rparr>)"
  by (simp add: confined_def)

text \<open>One call of \<open>write\<close> inside the partition moves the file and nothing outside.\<close>

lemma os_write_confined:
  assumes "confined old base extent s" "curoff s + length data \<le> extent" "os_write data s = (r, s')"
  obtains "\<not> (\<exists>w. r = W_count w)" "confined old base extent s'" "curoff s' = curoff s"
  | w where "r = W_count w" "w \<le> length data" "curoff s' = curoff s"
      "confined old base extent (s'\<lparr>curoff := curoff s' + w\<rparr>)"
proof (cases "outcomes s")
  case Nil
  then have "r = W_count (length data)" "s' = s\<lparr>diskfd := sys_write data (diskfd s)\<rparr>"
    using assms(3) by (simp_all add: os_write_def)
  then show thesis
    by (intro that(2) [of "length data"] confined_write [OF assms(1,2)]) simp_all
next
  case (Cons q rs)
  show thesis
  proof (cases q)
    case (W_count n)
    define w where "w = min n (length data)"
    have len: "length (take w data) = w" by (simp add: w_def)
    have r: "r = W_count w" "s' = s\<lparr>outcomes := rs, diskfd :=
        (if w = 0 then diskfd s else sys_write (take w data) (diskfd s))\<rparr>"
      using assms(3) Cons W_count
      by (simp_all only: os_write_def w_def Let_def list.case write_outcome.case prod.inject)
    have "confined old base extent (s'\<lparr>curoff := curoff s' + w\<rparr>)"
    proof (cases "w = 0")
      case True
      then show ?thesis using r(2) confined_outcomes [OF assms(1)] by simp
    next
      case False
      have "curoff s + length (take w data) \<le> extent" using assms(2) len by simp
      then show ?thesis
        using False len by (intro confined_write [OF assms(1), where bs = "take w data"]) (auto simp: r(2))
    qed
    then show thesis using r by (intro that(2) [of w]) (auto simp: w_def)
  qed (use assms Cons confined_outcomes in \<open>auto simp: os_write_def intro!: that(1)\<close>)
qed

definition keeps_inside :: "u8 list \<Rightarrow> nat \<Rightarrow> nat \<Rightarrow> 'a mk_run \<Rightarrow> bool" where
  "keeps_inside old base extent r \<longleftrightarrow> untouched old base extent (final r) \<and>
     (\<forall>x s. r = Running x s \<longrightarrow> confined old base extent s)"

lemma write_all_confined:
  "confined old base extent s \<Longrightarrow> curoff s + length data \<le> extent \<Longrightarrow>
     untouched old base extent (final (write_all data s)) \<and>
     (\<forall>x s'. write_all data s = Running x s' \<longrightarrow> confined old base extent s')"
proof (induction data s rule: write_all.induct)
  case (1 data s)
  note IH = "1.IH" and s = "1.prems"
  have out: "confined old base extent t \<Longrightarrow> untouched old base extent t" for t
    by (simp add: confined_def untouched_def)
  show ?case
  proof (cases "data = []")
    case True
    then show ?thesis using s out by (subst (1 2) write_all.simps) simp
  next
    case False
    obtain r t where w: "os_write data s = (r, t)" by (cases "os_write data s")
    have body: "write_all data s = (case r of
        W_error \<Rightarrow> Exited 1 t
      | W_interrupted \<Rightarrow> write_all data t
      | W_count w \<Rightarrow> if w = 0 then Exited 1 t
          else write_all (drop w data) (t\<lparr>curoff := curoff t + w\<rparr>))"
      using False w by (subst write_all.simps) simp
    show ?thesis
    proof (cases rule: os_write_confined [OF s w])
      case 1
      have "curoff t + length data \<le> extent" using 1(3) s(2) by simp
      note step = IH(1) [OF False w [symmetric] _ 1(2) this]
      show ?thesis
      proof (cases r)
        case W_error
        then show ?thesis using out [OF 1(2)] by (simp add: body)
      next
        case W_interrupted
        then have eq: "write_all data s = write_all data t" by (simp only: body write_outcome.case)
        show ?thesis unfolding eq by (rule step [OF W_interrupted])
      qed (use 1(1) in simp)
    next
      case (2 k)
      let ?t = "t\<lparr>curoff := curoff t + k\<rparr>"
      have "untouched old base extent t" using out [OF 2(4)] by (simp add: untouched_def)
      moreover have "k \<noteq> 0 \<Longrightarrow> untouched old base extent (final (write_all (drop k data) ?t)) \<and>
          (\<forall>x s'. write_all (drop k data) ?t = Running x s' \<longrightarrow> confined old base extent s')"
        using IH(2) [OF False w [symmetric] 2(1) _ 2(4)] 2(2,3) s(2) by simp
      ultimately show ?thesis using body 2(1) by (cases "k = 0") simp_all
    qed
  qed
qed

lemma confined_untouched: "confined old base extent s \<Longrightarrow> untouched old base extent s"
  by (simp add: confined_def untouched_def)

lemma keeps_inside_simps [simp]:
  "keeps_inside old base extent (Exited c s) \<longleftrightarrow> untouched old base extent s"
  "keeps_inside old base extent (Running x s) \<longleftrightarrow> confined old base extent s"
  by (auto simp: keeps_inside_def dest: confined_untouched)

lemma diskwrite_inside: "confined old base extent s \<Longrightarrow> keeps_inside old base extent (diskwrite data s)"
  using write_all_confined [of old base extent s data]
  by (auto simp: diskwrite_def confined_untouched) (auto simp: keeps_inside_def confined_def)

lemma and_then_inside:
  assumes "keeps_inside old base extent r"
    and "\<And>x s. confined old base extent s \<Longrightarrow> keeps_inside old base extent (f x s)"
  shows "keeps_inside old base extent (and_then r f)"
  using assms by (cases r) simp_all

lemma write_zeros_inside: "confined old base extent s \<Longrightarrow> keeps_inside old base extent (write_zeros n s)"
  by (induction n arbitrary: s) (auto intro!: and_then_inside diskwrite_inside)

lemma copy_file_inside: "confined old base extent s \<Longrightarrow> keeps_inside old base extent (copy_file bs s)"
proof (induction bs arbitrary: s rule: length_induct)
  case (1 bs)
  then show ?case
    by (subst copy_file.simps) (auto intro!: and_then_inside diskwrite_inside)
qed

lemma write_file_inside: "confined old base extent s \<Longrightarrow> keeps_inside old base extent (write_file bs s)"
  by (auto simp: write_file_def intro!: and_then_inside copy_file_inside diskwrite_inside)

lemma write_arguments_inside:
  "confined old base extent s \<Longrightarrow> keeps_inside old base extent (write_arguments files args n s)"
proof (induction args arbitrary: n s)
  case (Cons arg args)
  then show ?case
    by (auto intro!: and_then_inside write_zeros_inside write_file_inside confined_untouched
        split: option.split)
qed simp

lemma write_image_inside:
  assumes "confined old base extent s"
  shows "untouched old base extent (snd (write_image files args n s))"
proof -
  have "keeps_inside old base extent (and_then (write_arguments files args n s) (\<lambda>n. write_zeros (1024 - n)))"
    by (intro and_then_inside write_arguments_inside write_zeros_inside assms)
  then show ?thesis
    by (auto simp: write_image_def dest: confined_untouched split: mk_run.split)
qed

text \<open>
  C40: With \<open>-p\<close> the program writes only into a kernel partition. Whatever the disk holds, which
  files are given and however the calls of \<open>write\<close> go, a run that ends has either left the disk
  as it was, with status 1, or has found a partition of type \<open>0x27\<close> that the tables of the disk
  list, and every byte outside of that partition is as before.
\<close>

theorem partition_only:
  assumes "files disk = Some bs" and "maxoff s = 0" "curoff s = 0"
    and "take 1 args \<noteq> [option_m]" and "mkbootdisk files (option_p # disk # args) s = Some (c, s')"
  shows "(c = 1 \<and> contents (diskfd s') = bs) \<or>
    (\<exists>start len. listed bs 0 0 start len \<and> untouched bs (512 * start) (512 * len) s')"
proof -
  from assms(1,5) obtain r where r: "find_partition 0 0 0 (open_disk bs s) = Some r"
    and rest: "(case r of Exited c s \<Rightarrow> Some (c, s)
      | Running found s \<Rightarrow> if found \<le> 0 then Some (1, s)
          else Some (bootdisk_files files False args s)) = Some (c, s')"
    by (auto simp: mkbootdisk_def split: bind_splits)
  have "regular (diskfd (open_disk bs s))" by (simp add: open_disk_def)
  note found = find_partition_chosen [OF r this]
  have same: "contents (diskfd (final r)) = bs" "curoff (final r) = 0"
    using found(1) assms(3) by (simp_all add: same_disk_def open_disk_def)
  show ?thesis
  proof (cases r)
    case (Exited d t)
    then have "d = 1" using found(2) by (simp add: chosen_def)
    then show ?thesis using rest same Exited by simp
  next
    case (Running v t)
    show ?thesis
    proof (cases "v > 0")
      case False
      then show ?thesis using rest same Running by simp
    next
      case True
      from found(2) True Running obtain start len where p: "listed bs 0 0 start len"
        "fpos (diskfd t) = 512 * start" "maxoff t = 512 * len" "0 < len"
        by (auto simp: chosen_def open_disk_def)
      have "confined bs (512 * start) (512 * len) t"
        using p same Running by (simp add: confined_def)
      then have "untouched bs (512 * start) (512 * len) (snd (bootdisk_files files False args t))"
        using assms(4) write_image_inside confined_untouched
        by (cases args) (auto simp: bootdisk_files_def)
      then show ?thesis using rest True Running p(1) by auto
    qed
  qed
qed

text \<open>A disk of three sectors, the second of them a kernel partition.\<close>

definition jos_disk :: "u8 list" where
  "jos_disk = replicate 446 0 @ [0, 0, 0, 0, 0x27, 0, 0, 0, 1, 0, 0, 0, 1, 0, 0, 0] @
     replicate 48 0 @ [0x55, 0xAA] @ replicate 1024 0"

definition jos_files :: "u8 list \<Rightarrow> u8 list option" where
  "jos_files name = (if name = [100] then Some jos_disk else if name = [107] then Some [1, 2, 3]
                     else None)"

lemma jos_partition: "\<exists>s'. find_partition 0 0 0 (open_disk jos_disk slow_output) = Some (Running 1 s')"
proof -
  have p: "lba_length (ptable (take 512 jos_disk) 0) \<noteq> 0"
    "ptype (ptable (take 512 jos_disk) 0) = PTYPE_JOS_KERN"
    by (simp_all add: ptable_def jos_disk_def buffer_def load32_def PTABLE_OFFSET_def
        PTYPE_JOS_KERN_def nth_append)
  have "\<exists>t. read_table 0 (open_disk jos_disk slow_output) = Running (Some (take 512 jos_disk)) t"
    by (simp add: read_table_def readsect_disk_def seek_disk_def open_disk_def sys_read_def
        sector_size_def PTABLE_MAGIC_OFFSET_def jos_disk_def nth_append)
  then show ?thesis
    using p by (auto simp: find_partition_def search_table.simps Let_def)
qed

lemma partition_only_witness:
  "\<exists>c s'. mkbootdisk jos_files [option_p, [100], [107]] slow_output = Some (c, s') \<and>
    ((c = 1 \<and> contents (diskfd s') = jos_disk) \<or>
     (\<exists>start len. listed jos_disk 0 0 start len \<and> untouched jos_disk (512 * start) (512 * len) s'))"
proof -
  obtain t where "find_partition 0 0 0 (open_disk jos_disk slow_output) = Some (Running 1 t)"
    using jos_partition by blast
  moreover obtain c s' where "bootdisk_files jos_files False [[107]] t = (c, s')" by fastforce
  ultimately have "mkbootdisk jos_files [option_p, [100], [107]] slow_output = Some (c, s')"
    by (simp add: mkbootdisk_def jos_files_def)
  with partition_only [of jos_files "[100]" jos_disk slow_output "[[107]]" c s'] show ?thesis
    by (auto simp: jos_files_def slow_output_def option_m_def)
qed

lemma read_table_at:
  assumes "table_at (contents (diskfd s)) e buf" "regular (diskfd s)"
  shows "read_table e s = Running (Some buf)
    (s\<lparr>diskfd := (diskfd s)\<lparr>fpos := 512 * (e mod 2 ^ 32) + 512, chunks := tl (chunks (diskfd s))\<rparr>\<rparr>)"
  using assms by (auto simp: read_table_def readsect_disk_def seek_disk_def sys_read_def
      table_at_def sector_size_def PTABLE_MAGIC_OFFSET_def Let_def mult.commute unat_of_nat)

section \<open>A cycle of extended partitions\<close>

text \<open>
  An extended partition that names itself as the next one sends the search round for ever: the
  loader of the tables keeps no record of where it has been.
\<close>

lemma cycle_search:
  "search_table i buf sect ext partoff s = Some r \<Longrightarrow>
     i = 0 \<longrightarrow> regular (diskfd s) \<longrightarrow> table_at (contents (diskfd s)) e buf \<longrightarrow> ext = e \<longrightarrow> e \<noteq> 0 \<longrightarrow>
     lba_length (ptable buf 0) \<noteq> 0 \<longrightarrow> ptype (ptable buf 0) \<in> set PTYPES_EXTENDED \<longrightarrow>
     lba_start (ptable buf 0) = 0 \<longrightarrow> False"
proof (induction rule: search_table.raw_induct [rotated, consumes 1])
  case (1 srch i buf sect ext partoff s r)
  note IHs = 1(1) and body = 1(2)
  show ?case
  proof (intro impI)
    assume i: "i = 0" and reg: "regular (diskfd s)" and tab: "table_at (contents (diskfd s)) e buf"
      and ext: "ext = e" "e \<noteq> 0" and p: "lba_length (ptable buf 0) \<noteq> 0"
      "ptype (ptable buf 0) \<in> set PTYPES_EXTENDED" "lba_start (ptable buf 0) = 0"
    have type: "ptype (ptable buf 0) \<noteq> PTYPE_JOS_KERN"
      using p(2) by (auto simp: PTYPES_EXTENDED_def PTYPE_JOS_KERN_def)
    let ?t = "s\<lparr>diskfd := (diskfd s)\<lparr>fpos := 512 * (e mod 2 ^ 32) + 512, chunks := tl (chunks (diskfd s))\<rparr>\<rparr>"
    note read_table_at [OF tab reg]
    then obtain q where "srch 0 buf e e (if partoff \<noteq> 0 then partoff + 1 else 4) ?t = Some q"
      using body i ext p type by (auto simp: Let_def split: option.splits bind_splits)
    from IHs [OF this] reg tab ext p show False by simp
  qed
qed

text \<open>
  The search for a partition need not end. When the first entry of the partition table is an
  extended partition and the table there names, as its first entry, the same sector again,
  \<open>mkbootdisk -p\<close> does not return: it reads that table over and over.
\<close>

theorem partition_cycle_hangs:
  assumes "files disk = Some bs"
    and "table_at bs 0 outer" "ptype (ptable outer 0) \<in> set PTYPES_EXTENDED" "lba_length (ptable outer 0) \<noteq> 0"
    and "lba_start (ptable outer 0) \<noteq> 0" "table_at bs (unat (lba_start (ptable outer 0))) inner"
    and "ptype (ptable inner 0) \<in> set PTYPES_EXTENDED" "lba_length (ptable inner 0) \<noteq> 0"
    and "lba_start (ptable inner 0) = 0"
  shows "mkbootdisk files (option_p # disk # args) s = None"
proof (rule ccontr)
  let ?e = "unat (lba_start (ptable outer 0))" and ?s = "open_disk bs s"
  have s: "contents (diskfd ?s) = bs" "regular (diskfd ?s)" by (simp_all add: open_disk_def)
  let ?s1 = "?s\<lparr>diskfd := (diskfd ?s)\<lparr>fpos := 512 * (0 mod 2 ^ 32) + 512, chunks := tl (chunks (diskfd ?s))\<rparr>\<rparr>"
  let ?s2 = "?s1\<lparr>diskfd := (diskfd ?s1)\<lparr>fpos := 512 * (?e mod 2 ^ 32) + 512, chunks := tl (chunks (diskfd ?s1))\<rparr>\<rparr>"
  have r0: "read_table 0 ?s = Running (Some outer) ?s1"
    using assms(2) by (intro read_table_at) (simp_all add: s)
  have r1: "read_table ?e ?s1 = Running (Some inner) ?s2"
    using assms(6) by (intro read_table_at) (simp_all add: s)
  have type: "ptype (ptable outer 0) \<noteq> PTYPE_JOS_KERN"
    using assms(3) by (auto simp: PTYPES_EXTENDED_def PTYPE_JOS_KERN_def)
  assume "mkbootdisk files (option_p # disk # args) s \<noteq> None"
  then obtain r where "search_table 0 outer 0 0 0 ?s1 = Some r"
    using assms(1) r0 by (auto simp: mkbootdisk_def find_partition_def split: bind_splits)
  then obtain q where "search_table 0 inner ?e ?e 4 ?s2 = Some q"
    using assms(3,4) type r1
    by (subst (asm) search_table.simps) (auto simp: Let_def split: option.splits bind_splits)
  from cycle_search [OF this, of ?e] assms show False by (auto simp: s unat_eq_0)
qed

definition table_sector :: "u8 list \<Rightarrow> u8 list" where
  "table_sector entry = replicate 446 0 @ entry @ replicate 48 0 @ [0x55, 0xAA]"

definition outer_table :: "u8 list" where
  "outer_table = table_sector [0, 0, 0, 0, 5, 0, 0, 0, 1, 0, 0, 0, 1, 0, 0, 0]"

definition inner_table :: "u8 list" where
  "inner_table = table_sector [0, 0, 0, 0, 5, 0, 0, 0, 0, 0, 0, 0, 1, 0, 0, 0]"

lemma partition_cycle_hangs_witness:
  "mkbootdisk (\<lambda>_. Some (outer_table @ inner_table)) [option_p, [100]] slow_output = None"
proof -
  have t: "table_at (outer_table @ inner_table) 0 outer_table"
    "table_at (outer_table @ inner_table) 1 inner_table"
    by (simp_all add: table_at_def outer_table_def inner_table_def table_sector_def nth_append)
  have p: "ptype (ptable outer_table 0) = 5" "lba_length (ptable outer_table 0) = 1"
    "lba_start (ptable outer_table 0) = 1" "ptype (ptable inner_table 0) = 5"
    "lba_length (ptable inner_table 0) = 1" "lba_start (ptable inner_table 0) = 0"
    by (simp_all add: ptable_def outer_table_def inner_table_def table_sector_def buffer_def
        load32_def PTABLE_OFFSET_def nth_append)
  show ?thesis
    using partition_cycle_hangs [OF _ t(1) _ _ _ _ _ _ p(6)] t(2) by (simp add: p PTYPES_EXTENDED_def)
qed

end
