(* ===== verification/Boot.thy ===== *)
theory Boot
  imports Kernel MemRegions
begin

text \<open>
  The boot loader \<open>pset3/boot.c\<close>: it reads the kernel's ELF image from the first IDE disk,
  sector by sector through the ports of the controller, copies its segments to their
  addresses and jumps to the entry point. The controller is a parameter, as the devices of the
  hardware theory are; a loop that waits for it is a \<open>partial_function (option)\<close>, so \<open>None\<close> is
  a boot that hangs. Memory is the flat 32-bit address space that the loader runs in.
\<close>

section \<open>The disk controller\<close>

record 'd ide =
  ports :: "'d device"
  in_long :: "nat \<Rightarrow> 'd \<Rightarrow> u32 \<times> 'd"

definition SECTORSIZE :: u32 where "SECTORSIZE = 512"
definition ELFHDR :: u32 where "ELFHDR = 0x10000"

primrec insl :: "'d ide \<Rightarrow> nat \<Rightarrow> u32 \<Rightarrow> nat \<Rightarrow> mem \<Rightarrow> 'd \<Rightarrow> mem \<times> 'd" where
  "insl D port addr 0 m d = (m, d)"
| "insl D port addr (Suc cnt) m d =
     (let (w, d) = in_long D port d in insl D port (addr + 4) cnt (store32 m addr w) d)"

partial_function (option) waitdisk :: "'d ide \<Rightarrow> 'd \<Rightarrow> 'd option" where
  "waitdisk D d =
     (let (status, d) = inb (ports D) 0x1F7 d
      in if status AND 0xC0 \<noteq> 0x40 then waitdisk D d else Some d)"

definition readsect :: "'d ide \<Rightarrow> u32 \<Rightarrow> u32 \<Rightarrow> mem \<Rightarrow> 'd \<Rightarrow> (mem \<times> 'd) option" where
  "readsect D dst src_sect m d = do {
     d \<leftarrow> waitdisk D d;
     let d = outb (ports D) 0x1F2 1 d;
     let d = outb (ports D) 0x1F3 (uint src_sect) d;
     let d = outb (ports D) 0x1F4 (uint (drop_bit 8 src_sect)) d;
     let d = outb (ports D) 0x1F5 (uint (drop_bit 16 src_sect)) d;
     let d = outb (ports D) 0x1F6 (uint (drop_bit 24 src_sect OR 0xE0)) d;
     let d = outb (ports D) 0x1F7 0x20 d;
     d \<leftarrow> waitdisk D d;
     Some (insl D 0x1F0 dst (unat SECTORSIZE div 4) m d) }"

section \<open>Segments\<close>

partial_function (option) read_sectors ::
    "'d ide \<Rightarrow> u32 \<Rightarrow> u32 \<Rightarrow> u32 \<Rightarrow> mem \<Rightarrow> 'd \<Rightarrow> (mem \<times> 'd) option" where
  "read_sectors D ptr end_ptr src_sect m d =
     (if ptr < end_ptr
      then do {
        (m, d) \<leftarrow> readsect D ptr src_sect m d;
        read_sectors D (ptr + SECTORSIZE) end_ptr (src_sect + 1) m d }
      else Some (m, d))"

function clear_bss :: "u32 \<Rightarrow> u32 \<Rightarrow> mem \<Rightarrow> mem" where
  "clear_bss end_ptr memsz m =
     (if end_ptr < memsz then clear_bss (end_ptr + 1) memsz (m(end_ptr := 0)) else m)"
  by pat_completeness auto

lemma unat_Suc_less:
  assumes "(a :: u32) < b"
  shows "unat (a + 1) = unat a + 1"
proof -
  have "unat a < unat b" using assms by (simp add: word_less_nat_alt)
  then have "unat a + 1 < 4294967296" using unat_lt32 [of b] by linarith
  then show ?thesis by (simp add: unat_word_ariths)
qed

termination clear_bss
proof (relation "measure (\<lambda>(a, b, m). unat b - unat a)")
  fix a b :: u32 and m :: mem
  assume "a < b"
  then show "((a + 1, b, m(a := 0)), a, b, m) \<in> measure (\<lambda>(a, b, m). unat b - unat a)"
    by (simp add: unat_Suc_less word_less_nat_alt)
qed simp

declare clear_bss.simps [simp del]

definition readseg ::
    "'d ide \<Rightarrow> u32 \<Rightarrow> u32 \<Rightarrow> u32 \<Rightarrow> u32 \<Rightarrow> mem \<Rightarrow> 'd \<Rightarrow> (mem \<times> 'd) option" where
  "readseg D dst src_sect filesz memsz m d = do {
     let ptr = dst;
     let end_ptr = ptr + filesz;
     let memsz = memsz + ptr;
     let ptr = ptr AND NOT (SECTORSIZE - 1);
     (m, d) \<leftarrow> read_sectors D ptr end_ptr src_sect m d;
     Some (clear_bss end_ptr memsz m, d) }"

section \<open>The kernel\<close>

text \<open>
  The loader returns when the image is no ELF file, and otherwise leaves for the entry point:
  it points \<open>%esp\<close> at the entry field of the header and executes \<open>ret\<close>.
\<close>

datatype 'd boot_end =
    Boot_returns mem 'd
  | Boot_jumps (boot_eip: u32) (boot_esp: u32) mem 'd

partial_function (option) boot_segments ::
    "'d ide \<Rightarrow> u32 \<Rightarrow> u32 \<Rightarrow> mem \<Rightarrow> 'd \<Rightarrow> (mem \<times> 'd) option" where
  "boot_segments D ph eph m d =
     (if ph < eph
      then do {
        let p = elf_program_at m ph;
        (m, d) \<leftarrow> readseg D (p_va p) (p_offset p div SECTORSIZE + 1) (p_filesz p) (p_memsz p) m d;
        boot_segments D (ph + 32) eph m d }
      else Some (m, d))"

definition bootmain :: "'d ide \<Rightarrow> mem \<Rightarrow> 'd \<Rightarrow> 'd boot_end option" where
  "bootmain D m d = do {
     (m, d) \<leftarrow> readseg D ELFHDR 1 PAGESIZE PAGESIZE m d;
     let h = elf_header_at m ELFHDR;
     if e_magic h \<noteq> ELF_MAGIC then Some (Boot_returns m d)
     else do {
       let ph = ELFHDR + e_phoff h;
       let eph = ph + 32 * ucast (e_phnum h);
       (m, d) \<leftarrow> boot_segments D ph eph m d;
       let esp = ELFHDR + 24;
       Some (Boot_jumps (load32 m esp) (esp + 4) m d) } }"

section \<open>What the controller promises\<close>

text \<open>
  The ATA protocol for a programmed read, as the loader uses it. \<open>disk\<close> is the contents, byte
  by byte, and \<open>idle\<close> says that no command is under way. An idle controller becomes ready
  after some polls of the status port; after the six writes that name a sector of the disk
  and give the command it becomes ready again, hands out the sector in 128 words and is idle.
\<close>

inductive ready_after :: "'d ide \<Rightarrow> 'd \<Rightarrow> 'd \<Rightarrow> bool" for D where
  ready: "inb (ports D) 0x1F7 d = (s, d') \<Longrightarrow> s AND 0xC0 = 0x40 \<Longrightarrow> ready_after D d d'"
| busy: "inb (ports D) 0x1F7 d = (s, d') \<Longrightarrow> s AND 0xC0 \<noteq> 0x40 \<Longrightarrow> ready_after D d' d'' \<Longrightarrow>
           ready_after D d d''"

primrec long_words :: "'d ide \<Rightarrow> nat \<Rightarrow> 'd \<Rightarrow> u32 list \<times> 'd" where
  "long_words D 0 d = ([], d)"
| "long_words D (Suc n) d =
     (let (w, d) = in_long D 0x1F0 d; (ws, d) = long_words D n d in (w # ws, d))"

definition read_command :: "nat \<Rightarrow> (nat \<times> int) list" where
  "read_command s =
     [(0x1F2, 1), (0x1F3, int s), (0x1F4, int (s div 2 ^ 8)), (0x1F5, int (s div 2 ^ 16)),
      (0x1F6, 0xE0 + int (s div 2 ^ 24)), (0x1F7, 0x20)]"

definition sector_words :: "u8 list \<Rightarrow> nat \<Rightarrow> u32 list" where
  "sector_words disk s =
     List.map (\<lambda>i. load32 (\<lambda>a. disk ! (512 * s + unat a)) (word_of_nat (4 * i))) [0..<128]"

definition ide_reads :: "'d ide \<Rightarrow> ('d \<Rightarrow> bool) \<Rightarrow> u8 list \<Rightarrow> bool" where
  "ide_reads D idle disk \<longleftrightarrow>
     (\<forall>d. idle d \<longrightarrow> (\<exists>d1. ready_after D d d1 \<and>
        (\<forall>s. s < 2 ^ 28 \<and> 512 * (s + 1) \<le> length disk \<longrightarrow>
          (\<exists>d2 d3. ready_after D (outbs (ports D) (read_command s) d1) d2 \<and>
            long_words D 128 d2 = (sector_words disk s, d3) \<and> idle d3))))"

end
