(* ===== verification/BootSeg.thy ===== *)
theory BootSeg
  imports Boot
begin

text \<open>
  Reading with the boot loader: a controller that keeps the promise \<open>ide_reads\<close> delivers a
  sector to its destination (\<open>readsect_ok\<close>), and \<open>readseg\<close> delivers a segment, with the closed form
  of the memory it leaves (\<open>seg_bytes\<close>).
\<close>

section \<open>Reading a sector\<close>

lemma load32_bytes:
  "ucast (load32 m p) = m p"
  "ucast (drop_bit 8 (load32 m p)) = m (p + 1)"
  "ucast (drop_bit 16 (load32 m p)) = m (p + 2)"
  "ucast (drop_bit 24 (load32 m p)) = m (p + 3)"
  by (rule bit_word_eqI, simp add: load32_def bit_simps,
      (use bit_imp_le_length in force)?)+

lemma store32_load32:
  "store32 m q (load32 m' p) =
     m(q := m' p, q + 1 := m' (p + 1), q + 2 := m' (p + 2), q + 3 := m' (p + 3))"
  by (simp add: store32_def load32_bytes)

primrec store_words :: "u32 \<Rightarrow> u32 list \<Rightarrow> mem \<Rightarrow> mem" where
  "store_words a [] m = m"
| "store_words a (w # ws) m = store_words (a + 4) ws (store32 m a w)"

lemma insl_words:
  "long_words D n d = (ws, d') \<Longrightarrow> insl D 0x1F0 a n m d = (store_words a ws m, d')"
  by (induction n arbitrary: a m d ws) (auto split: prod.splits)

lemma store_words_snoc:
  "store_words a (ws @ [w]) m = store32 (store_words a ws m) (a + 4 * word_of_nat (length ws)) w"
  by (induction ws arbitrary: a m) (simp_all add: algebra_simps)

lemma store_words_at:
  assumes "n \<le> 128"
  shows "store_words p (List.map (\<lambda>i. load32 m' (word_of_nat (4 * i))) [0..<n]) m a =
    (if unat (a - p) < 4 * n then m' (a - p) else m a)"
  using assms
proof (induction n)
  case (Suc n)
  let ?q = "4 * word_of_nat n :: u32"
  have q: "unat (?q + k) = 4 * n + unat k" if "k \<in> {0, 1, 2, 3}" for k
    using that Suc.prems by (auto simp: unat_word_ariths unat_of_nat)
  have "a = p + ?q + k \<longleftrightarrow> unat (a - p) = 4 * n + unat k" if "k \<in> {0, 1, 2, 3}" for k
  proof -
    have "a = p + ?q + k \<longleftrightarrow> a - p = ?q + k" by (auto simp: algebra_simps)
    also have "\<dots> \<longleftrightarrow> unat (a - p) = 4 * n + unat k"
      using q [OF that] by (metis word_unat_eq_iff)
    finally show ?thesis .
  qed
  from this [of 0] this [of 1] this [of 2] this [of 3]
  have eqs: "a = p + ?q \<longleftrightarrow> unat (a - p) = 4 * n" "a = p + ?q + 1 \<longleftrightarrow> unat (a - p) = 4 * n + 1"
    "a = p + ?q + 2 \<longleftrightarrow> unat (a - p) = 4 * n + 2" "a = p + ?q + 3 \<longleftrightarrow> unat (a - p) = 4 * n + 3"
    by simp_all
  have off: "a - p = ?q + k" if "unat (a - p) = 4 * n + unat k" "k \<in> {0, 1, 2, 3}" for k
    using q [OF that(2)] that(1) by (metis word_unat_eq_iff)
  show ?case
    using Suc eqs off [of 0] off [of 1] off [of 2] off [of 3]
    by (auto simp: store_words_snoc store32_load32)
qed simp

lemma waitdisk_ready: "ready_after D d d' \<Longrightarrow> waitdisk D d = Some d'"
  by (induction rule: ready_after.induct) (simp_all add: waitdisk.simps)

lemma unat_shift: "unat (drop_bit n (s :: u32)) = unat s div 2 ^ n"
  by (subst unat_drop_bit_eq) (simp add: drop_bit_eq_div)

lemma drive_select:
  assumes "unat (s :: u32) < 2 ^ 28"
  shows "unat (drop_bit 24 s OR 0xE0) = 0xE0 + unat s div 2 ^ 24"
proof -
  let ?k = "unat s div 2 ^ 24"
  have s: "drop_bit 24 s = word_of_nat ?k"
    unfolding unat_shift [symmetric] by simp
  have "\<forall>k \<in> set [0..<16]. unat (word_of_nat k OR 0xE0 :: u32) = 0xE0 + k"
    by (simp add: upt_rec)
  moreover have "?k \<in> set [0..<16]" using assms by simp
  ultimately show ?thesis unfolding s by blast
qed

lemma command_sent:
  assumes "unat (s :: u32) < 2 ^ 28"
  shows "outbs (ports D) (read_command (unat s)) d =
    outb (ports D) 0x1F7 0x20 (outb (ports D) 0x1F6 (uint (drop_bit 24 s OR 0xE0))
      (outb (ports D) 0x1F5 (uint (drop_bit 16 s)) (outb (ports D) 0x1F4 (uint (drop_bit 8 s))
        (outb (ports D) 0x1F3 (uint s) (outb (ports D) 0x1F2 1 d)))))"
proof -
  have "uint (drop_bit 24 s OR 0xE0) = 0xE0 + int (unat s div 2 ^ 24)"
    using drive_select [OF assms] by (simp only: uint_nat of_nat_add of_nat_numeral)
  moreover have "uint (drop_bit n s) = int (unat s div 2 ^ n)" for n
    by (simp only: uint_nat unat_shift)
  ultimately show ?thesis by (simp add: read_command_def)
qed

text \<open>A controller that keeps its promise delivers the sector at the destination.\<close>

lemma readsect_ok:
  assumes D: "ide_reads D idle disk" and d: "idle d"
    and s: "512 * (unat s + 1) \<le> length disk" "unat s < 2 ^ 28"
  obtains d' where "idle d'"
    and "readsect D dst s m d = Some (\<lambda>a. if unat (a - dst) < 512
           then disk ! (512 * unat s + unat (a - dst)) else m a, d')"
proof -
  from D d s obtain d1 d2 d3 where d1: "ready_after D d d1"
    and d2: "ready_after D (outbs (ports D) (read_command (unat s)) d1) d2"
    and d3: "long_words D 128 d2 = (sector_words disk (unat s), d3)" "idle d3"
    unfolding ide_reads_def by blast
  have "store_words dst (sector_words disk (unat s)) m = (\<lambda>a. if unat (a - dst) < 512
      then disk ! (512 * unat s + unat (a - dst)) else m a)"
    unfolding sector_words_def by (rule ext, subst store_words_at) simp_all
  then have "readsect D dst s m d = Some (\<lambda>a. if unat (a - dst) < 512
      then disk ! (512 * unat s + unat (a - dst)) else m a, d3)"
    using waitdisk_ready [OF d1] waitdisk_ready [OF d2 [unfolded command_sent [OF s(2)]]]
      insl_words [OF d3(1)]
    by (simp add: readsect_def SECTORSIZE_def)
  then show thesis by (rule that [OF d3(2)])
qed

section \<open>Reading a segment\<close>

lemma sectors_left:
  assumes "(p :: nat) < e" "Suc k = (e - p + 511) div 512"
  shows "k = (e - (p + 512) + 511) div 512"
proof (cases "e \<le> p + 512")
  case True
  with assms have "(e - p + 511) div 512 = 1" by (intro div_nat_eqI) auto
  with True assms(2) show ?thesis by simp
next
  case False
  then have "e - p + 511 = (e - (p + 512) + 511) + 512" by simp
  with assms(2) show ?thesis by simp
qed

lemma read_sectors_ok:
  assumes D: "ide_reads D idle disk"
  shows "idle d \<Longrightarrow> k = (unat e - unat p + 511) div 512 \<Longrightarrow> unat p + 512 * k < 2 ^ 32 \<Longrightarrow>
    unat s + k \<le> 2 ^ 28 \<Longrightarrow> 512 * (unat s + k) \<le> length disk \<Longrightarrow>
    \<exists>d'. idle d' \<and> read_sectors D p e s m d =
      Some (\<lambda>a. if unat p \<le> unat a \<and> unat a < unat p + 512 * k
                then disk ! (512 * unat s + (unat a - unat p)) else m a, d')"
proof (induction k arbitrary: p s m d)
  case 0
  then have "\<not> p < e" by (simp add: word_less_nat_alt)
  then show ?case using 0 by (auto simp: read_sectors.simps fun_eq_iff)
next
  case (Suc k)
  have lt: "p < e" using Suc.prems(2) by (simp add: word_less_nat_alt)
  have p: "unat (p + 512) = unat p + 512" and s: "unat (s + 1) = unat s + 1"
    using Suc.prems(3,4) by (simp_all add: unat_word_ariths)
  let ?m = "\<lambda>a. if unat (a - p) < 512 then disk ! (512 * unat s + unat (a - p)) else m a"
  obtain d1 where d1: "idle d1" and r: "readsect D p s m d = Some (?m, d1)"
    by (rule readsect_ok [OF D Suc.prems(1), of s p m]) (use Suc.prems(4,5) in auto)
  have "\<exists>d'. idle d' \<and> read_sectors D (p + 512) e (s + 1) ?m d1 =
      Some (\<lambda>a. if unat (p + 512) \<le> unat a \<and> unat a < unat (p + 512) + 512 * k
        then disk ! (512 * unat (s + 1) + (unat a - unat (p + 512))) else ?m a, d')"
    using Suc.prems(3-5) lt p s sectors_left [OF _ Suc.prems(2)]
    by (intro Suc.IH [OF d1]) (auto simp: word_less_nat_alt)
  then obtain d' where d': "idle d'" and rs: "read_sectors D (p + 512) e (s + 1) ?m d1 =
      Some (\<lambda>a. if unat (p + 512) \<le> unat a \<and> unat a < unat (p + 512) + 512 * k
        then disk ! (512 * unat (s + 1) + (unat a - unat (p + 512))) else ?m a, d')" by blast
  have near: "unat (a - p) < 512 \<longleftrightarrow> unat p \<le> unat a \<and> unat a < unat p + 512" for a
  proof (cases "unat p \<le> unat a")
    case True
    then show ?thesis by (auto simp: unat_sub word_le_nat_alt)
  next
    case False
    then have "unat (a - p) = 2 ^ 32 + unat a - unat p"
      using unat_lt32 [of p] by (simp add: unat_sub_if' word_le_nat_alt)
    with False Suc.prems(3) show ?thesis by simp
  qed
  have dist: "unat (a - p) = unat a - unat p" if "unat p \<le> unat a" for a
    using that by (simp add: unat_sub word_le_nat_alt)
  have "(\<lambda>a. if unat (p + 512) \<le> unat a \<and> unat a < unat (p + 512) + 512 * k
        then disk ! (512 * unat (s + 1) + (unat a - unat (p + 512))) else ?m a) =
      (\<lambda>a. if unat p \<le> unat a \<and> unat a < unat p + 512 * Suc k
        then disk ! (512 * unat s + (unat a - unat p)) else m a)"
    by (rule ext) (auto simp: p s near dist intro!: arg_cong [where f = "(!) disk"])
  with rs have "read_sectors D p e s m d = Some (\<lambda>a. if unat p \<le> unat a \<and>
      unat a < unat p + 512 * Suc k then disk ! (512 * unat s + (unat a - unat p)) else m a, d')"
    by (subst read_sectors.simps) (simp add: lt r SECTORSIZE_def)
  with d' show ?case by blast
qed

lemma clear_bss_at:
  "clear_bss e f m a = (if unat e \<le> unat a \<and> unat a < unat f then 0 else m a)"
proof (induction e f m rule: clear_bss.induct)
  case (1 e f m)
  show ?case
  proof (cases "e < f")
    case True
    have "unat e = unat a \<longleftrightarrow> a = e" by (auto simp: word_unat_eq_iff)
    moreover have "clear_bss e f m a = clear_bss (e + 1) f (m(e := 0)) a"
      using True by (subst clear_bss.simps) simp
    ultimately show ?thesis
      using 1 [OF True] True by (auto simp: unat_Suc_less word_less_nat_alt)
  next
    case False
    then show ?thesis by (subst clear_bss.simps) (auto simp: word_less_nat_alt)
  qed
qed

text \<open>
  The sectors of a segment cover its file part from the sector boundary below the destination;
  the bytes of the boot image from offset \<open>off\<close> of the kernel, which starts in sector 1, go to
  \<open>dst\<close>.
\<close>

definition seg_start :: "u32 \<Rightarrow> nat" where
  "seg_start dst = unat dst div 512 * 512"

definition seg_sectors :: "u32 \<Rightarrow> u32 \<Rightarrow> nat" where
  "seg_sectors dst filesz = (unat dst + unat filesz - seg_start dst + 511) div 512"

definition seg_fits :: "nat \<Rightarrow> u32 \<Rightarrow> u32 \<Rightarrow> u32 \<Rightarrow> u32 \<Rightarrow> bool" where
  "seg_fits n off dst filesz memsz \<longleftrightarrow>
     unat off mod 512 = unat dst mod 512 \<and>
     seg_start dst + 512 * seg_sectors dst filesz < 2 ^ 32 \<and> unat dst + unat memsz < 2 ^ 32 \<and>
     512 * (unat off div 512 + 1 + seg_sectors dst filesz) \<le> n"

definition seg_bytes :: "u8 list \<Rightarrow> u32 \<Rightarrow> u32 \<Rightarrow> u32 \<Rightarrow> u32 \<Rightarrow> mem \<Rightarrow> mem" where
  "seg_bytes disk off dst filesz memsz m = (\<lambda>a.
     if unat dst + unat filesz \<le> unat a \<and> unat a < unat dst + unat memsz then 0
     else if seg_start dst \<le> unat a \<and> unat a < seg_start dst + 512 * seg_sectors dst filesz
     then disk ! (512 + unat off + unat a - unat dst)
     else m a)"

lemma sector_mask: "unat (p AND NOT (SECTORSIZE - 1)) = seg_start p"
proof -
  have "SECTORSIZE - 1 = mask 9" by (simp add: SECTORSIZE_def mask_eq_exp_minus_1)
  then have "p AND NOT (SECTORSIZE - 1) = push_bit 9 (drop_bit 9 p)"
    by (intro bit_word_eqI) (auto simp: bit_simps)
  also have "unat \<dots> = unat p div 512 * 512 mod 2 ^ 32"
    unfolding push_bit_eq_mult by (simp add: unat_word_ariths unat_shift del: push_bit_eq_mult)
  also have "\<dots> = unat p div 512 * 512"
    using unat_lt32 [of p] by (intro mod_less) (simp add: le_less_trans [OF div_times_less_eq_dividend])
  finally show ?thesis by (simp add: seg_start_def)
qed

lemma sector_bound: "unat (off :: u32) div 512 < 8388608"
  using unat_lt32 [of off] by linarith

lemma sector_number: "unat (off div SECTORSIZE + 1) = unat off div 512 + 1"
proof -
  have "unat (off div SECTORSIZE) = unat off div 512" by (simp add: SECTORSIZE_def unat_div)
  with sector_bound [of off] show ?thesis by (simp add: unat_word_ariths)
qed

lemma readseg_ok:
  assumes D: "ide_reads D idle disk" and d: "idle d"
    and fits: "seg_fits (length disk) off dst filesz memsz"
  obtains d' where "idle d'"
    and "readseg D dst (off div SECTORSIZE + 1) filesz memsz m d =
           Some (seg_bytes disk off dst filesz memsz m, d')"
proof -
  let ?p = "dst AND NOT (SECTORSIZE - 1)" and ?k = "seg_sectors dst filesz"
  let ?m = "\<lambda>a. if unat ?p \<le> unat a \<and> unat a < unat ?p + 512 * ?k
      then disk ! (512 * unat (off div SECTORSIZE + 1) + (unat a - unat ?p)) else m a"
  have le: "seg_start dst \<le> unat dst" "unat dst = seg_start dst + unat dst mod 512"
    by (simp_all add: seg_start_def)
  have o: "unat off + seg_start dst = 512 * (unat off div 512) + unat dst"
    using fits mult_div_mod_eq [of 512 "unat off"] le(2) by (simp add: seg_fits_def)
  have mem: "unat (memsz + dst) = unat dst + unat memsz"
    and fsz: "unat (dst + filesz) = unat dst + unat filesz"
    using fits le by (auto simp: seg_fits_def seg_sectors_def unat_word_ariths)
  have "\<exists>d'. idle d' \<and> read_sectors D ?p (dst + filesz) (off div SECTORSIZE + 1) m d = Some (?m, d')"
    using fits sector_bound [of off]
    by (intro read_sectors_ok [OF D d])
       (auto simp: seg_fits_def seg_sectors_def sector_mask sector_number fsz)
  then obtain d' where d': "idle d'"
    and r: "read_sectors D ?p (dst + filesz) (off div SECTORSIZE + 1) m d = Some (?m, d')" by blast
  have "clear_bss (dst + filesz) (memsz + dst) ?m = seg_bytes disk off dst filesz memsz m"
    using o le
    by (auto simp: fun_eq_iff clear_bss_at seg_bytes_def sector_mask sector_number fsz mem
        intro!: arg_cong [where f = "(!) disk"])
  with r have "readseg D dst (off div SECTORSIZE + 1) filesz memsz m d =
      Some (seg_bytes disk off dst filesz memsz m, d')"
    by (simp add: readseg_def)
  with d' show thesis by (rule that)
qed

end
