(* ===== verification/BootProps.thy ===== *)
theory BootProps
  imports BootSeg
begin

text \<open>
  The boot loader as a whole: what \<open>bootmain\<close> leaves in memory for a disk whose kernel is
  loadable (\<open>bootmain_ok\<close>), and a controller that keeps the promise for every disk (\<open>pio_reads\<close>).
\<close>

section \<open>The kernel image\<close>

text \<open>The kernel's file starts in sector 1; offsets into it are read like addresses.\<close>

definition kernel_file :: "u8 list \<Rightarrow> mem" where
  "kernel_file disk = (\<lambda>a. disk ! (512 + unat a))"

definition kernel_header :: "u8 list \<Rightarrow> elf_header" where
  "kernel_header disk = elf_header_at (kernel_file disk) 0"

definition kernel_segment :: "u8 list \<Rightarrow> nat \<Rightarrow> elf_program" where
  "kernel_segment disk i =
     elf_program_at (kernel_file disk) (e_phoff (kernel_header disk) + 32 * word_of_nat i)"

definition segments :: "u8 list \<Rightarrow> nat" where
  "segments disk = unat (e_phnum (kernel_header disk))"

definition seg_end :: "elf_program \<Rightarrow> nat" where
  "seg_end p = max (seg_start (p_va p) + 512 * seg_sectors (p_va p) (p_filesz p))
                   (unat (p_va p) + unat (p_memsz p))"

definition apart :: "nat \<Rightarrow> nat \<Rightarrow> nat \<Rightarrow> nat \<Rightarrow> bool" where
  "apart a b c d \<longleftrightarrow> b \<le> c \<or> d \<le> a"

text \<open>
  An image the loader can load: the program headers lie in the first page of the file; every
  segment is on the disk, has an offset congruent to its address, and writes neither into the
  scratch page at \<open>0x10000\<close> nor into a segment loaded before.
\<close>

definition bootable :: "u8 list \<Rightarrow> bool" where
  "bootable disk \<longleftrightarrow>
     e_magic (kernel_header disk) = ELF_MAGIC \<and> 4608 \<le> length disk \<and>
     unat (e_phoff (kernel_header disk)) + 32 * segments disk \<le> 4096 \<and>
     (\<forall>i < segments disk. let p = kernel_segment disk i in
        seg_fits (length disk) (p_offset p) (p_va p) (p_filesz p) (p_memsz p) \<and>
        apart (seg_start (p_va p)) (seg_end p) 0x10000 0x11000 \<and>
        (\<forall>j < i. let q = kernel_segment disk j in
           apart (seg_start (p_va p)) (seg_end p)
             (unat (p_va q)) (unat (p_va q) + unat (p_memsz q))))"

definition segment_loaded :: "u8 list \<Rightarrow> elf_program \<Rightarrow> mem \<Rightarrow> bool" where
  "segment_loaded disk p m \<longleftrightarrow> (\<forall>k < unat (p_memsz p). m (p_va p + word_of_nat k) =
     (if k < unat (p_filesz p) then disk ! (512 + unat (p_offset p) + k) else 0))"

definition load_segment :: "u8 list \<Rightarrow> nat \<Rightarrow> mem \<Rightarrow> mem" where
  "load_segment disk i m = (let p = kernel_segment disk i in
     seg_bytes disk (p_offset p) (p_va p) (p_filesz p) (p_memsz p) m)"

definition scratch_kept :: "u8 list \<Rightarrow> mem \<Rightarrow> bool" where
  "scratch_kept disk m \<longleftrightarrow> (\<forall>o'. unat o' < 4096 \<longrightarrow> m (ELFHDR + o') = kernel_file disk o')"

lemma load_segment_other:
  "unat a < seg_start (p_va (kernel_segment disk i)) \<or> seg_end (kernel_segment disk i) \<le> unat a \<Longrightarrow>
     load_segment disk i m a = m a"
  by (auto simp: load_segment_def seg_bytes_def seg_end_def seg_start_def Let_def)

lemma load_segment_loaded:
  assumes "bootable disk" "i < segments disk"
  shows "segment_loaded disk (kernel_segment disk i) (load_segment disk i m)"
proof -
  let ?p = "kernel_segment disk i"
  have fits: "seg_fits (length disk) (p_offset ?p) (p_va ?p) (p_filesz ?p) (p_memsz ?p)"
    using assms by (auto simp: bootable_def Let_def)
  have va: "unat (p_va ?p + word_of_nat k) = unat (p_va ?p) + k" if "k < unat (p_memsz ?p)" for k
    using that fits by (simp add: seg_fits_def unat_word_ariths unat_of_nat)
  have "unat (p_va ?p) + unat (p_filesz ?p) \<le>
      seg_start (p_va ?p) + 512 * seg_sectors (p_va ?p) (p_filesz ?p)"
    by (simp add: seg_sectors_def)
  then show ?thesis
    by (auto simp: segment_loaded_def load_segment_def seg_bytes_def Let_def va seg_start_def
        add.assoc)
qed

lemma scratch_kept_step:
  assumes "bootable disk" "i < segments disk" "scratch_kept disk m"
  shows "scratch_kept disk (load_segment disk i m)"
  unfolding scratch_kept_def
proof (intro allI impI)
  fix o' :: u32
  assume o': "unat o' < 4096"
  then have "unat (ELFHDR + o') = 0x10000 + unat o'"
    by (simp add: ELFHDR_def unat_word_ariths)
  moreover have "apart (seg_start (p_va (kernel_segment disk i)))
      (seg_end (kernel_segment disk i)) 0x10000 0x11000"
    using assms(1,2) by (auto simp: bootable_def Let_def)
  ultimately have "load_segment disk i m (ELFHDR + o') = m (ELFHDR + o')"
    using o' by (intro load_segment_other) (auto simp: apart_def)
  with assms(3) o' show "load_segment disk i m (ELFHDR + o') = kernel_file disk o'"
    by (simp add: scratch_kept_def)
qed

lemma load32_scratch:
  assumes "scratch_kept disk m" "unat a + 4 \<le> 4096"
  shows "load32 m (ELFHDR + a) = load32 (kernel_file disk) a"
proof (rule load32_cong)
  have a: "unat (a + 1) < 4096" "unat (a + 2) < 4096" "unat (a + 3) < 4096"
    using assms(2) unat_cell [of a] by simp_all
  show "m (ELFHDR + a) = kernel_file disk a" "m (ELFHDR + a + 1) = kernel_file disk (a + 1)"
    "m (ELFHDR + a + 2) = kernel_file disk (a + 2)" "m (ELFHDR + a + 3) = kernel_file disk (a + 3)"
    using assms a by (simp_all add: scratch_kept_def add.assoc)
qed

lemma program_scratch:
  assumes "scratch_kept disk m" "unat a + 32 \<le> 4096"
  shows "elf_program_at m (ELFHDR + a) = elf_program_at (kernel_file disk) a"
proof -
  have "load32 m (ELFHDR + a + k) = load32 (kernel_file disk) (a + k)" if "unat k \<le> 28" for k
    using load32_scratch [OF assms(1), of "a + k"] assms(2) that
    by (simp add: add.assoc unat_add_small)
  from this [of 0] this [of 4] this [of 8] this [of 16] this [of 20] this [of 24] show ?thesis
    by (simp add: elf_program_at_def)
qed

lemma header_scratch:
  assumes "scratch_kept disk m"
  shows "elf_header_at m ELFHDR = kernel_header disk"
proof -
  have "m (ELFHDR + 44) = kernel_file disk 44" "m (ELFHDR + 44 + 1) = kernel_file disk (44 + 1)"
    using assms by (simp_all add: scratch_kept_def add.assoc)
  then show ?thesis
    using load32_scratch [OF assms, of 0] load32_scratch [OF assms, of 24]
      load32_scratch [OF assms, of 28]
    by (simp add: kernel_header_def elf_header_at_def load16_def)
qed

section \<open>Loading\<close>

lemma boot_segments_ok:
  assumes D: "ide_reads D idle disk" and disk: "bootable disk"
  shows "idle d \<Longrightarrow> scratch_kept disk m \<Longrightarrow> i + n = segments disk \<Longrightarrow>
    \<exists>d'. idle d' \<and> boot_segments D (ELFHDR + e_phoff (kernel_header disk) + 32 * word_of_nat i)
        (ELFHDR + e_phoff (kernel_header disk) + 32 * word_of_nat (segments disk)) m d =
      Some (foldl (\<lambda>m i. load_segment disk i m) m [i..<segments disk], d')"
proof (induction n arbitrary: i m d)
  case 0
  then show ?case by (subst boot_segments.simps) auto
next
  case (Suc n)
  let ?ph = "e_phoff (kernel_header disk)" and ?p = "kernel_segment disk i"
  have i: "i < segments disk" using Suc.prems(3) by simp
  have ph: "unat (?ph + 32 * word_of_nat j) = unat ?ph + 32 * j"
    "unat (ELFHDR + ?ph + 32 * word_of_nat j) = 0x10000 + unat ?ph + 32 * j"
    if "j \<le> segments disk" for j
    using disk that by (auto simp: bootable_def ELFHDR_def unat_word_ariths unat_of_nat)
  have lt: "ELFHDR + ?ph + 32 * word_of_nat i < ELFHDR + ?ph + 32 * word_of_nat (segments disk)"
    using i by (simp add: word_less_nat_alt ph)
  have p: "elf_program_at m (ELFHDR + ?ph + 32 * word_of_nat i) = ?p"
    using program_scratch [OF Suc.prems(2), of "?ph + 32 * word_of_nat i"] disk i
    by (simp add: kernel_segment_def add.assoc ph bootable_def)
  have fits: "seg_fits (length disk) (p_offset ?p) (p_va ?p) (p_filesz ?p) (p_memsz ?p)"
    using disk i by (auto simp: bootable_def Let_def)
  obtain d1 where d1: "idle d1" and r: "readseg D (p_va ?p) (p_offset ?p div SECTORSIZE + 1)
      (p_filesz ?p) (p_memsz ?p) m d = Some (load_segment disk i m, d1)"
    by (rule readseg_ok [OF D Suc.prems(1) fits, of m]) (simp add: load_segment_def Let_def)
  have "i < segments disk" and eq: "[i..<segments disk] = i # [Suc i..<segments disk]"
    using i by (simp_all add: upt_conv_Cons)
  have nxt: "ELFHDR + ?ph + 32 * word_of_nat i + 32 = ELFHDR + ?ph + 32 * word_of_nat (Suc i)"
    by (simp add: algebra_simps)
  show ?case
    using Suc.IH [OF d1 scratch_kept_step [OF disk i Suc.prems(2)], of "Suc i"] Suc.prems(3)
    by (subst boot_segments.simps) (simp add: lt p r nxt eq del: of_nat_Suc)
qed

lemma load_segments_kept:
  assumes "\<And>i. i \<in> set is \<Longrightarrow> unat a < seg_start (p_va (kernel_segment disk i)) \<or>
      seg_end (kernel_segment disk i) \<le> unat a"
  shows "foldl (\<lambda>m i. load_segment disk i m) m is a = m a"
  using assms by (induction "is" arbitrary: m) (auto simp: load_segment_other)

lemma load_segments_loaded:
  assumes disk: "bootable disk" and n: "n \<le> segments disk" and j: "j < n"
  shows "segment_loaded disk (kernel_segment disk j) (foldl (\<lambda>m i. load_segment disk i m) m [0..<n])"
  using n j
proof (induction n)
  case (Suc n)
  let ?m = "foldl (\<lambda>m i. load_segment disk i m) m [0..<n]" and ?q = "kernel_segment disk j"
  show ?case
  proof (cases "j = n")
    case True
    with Suc.prems show ?thesis by (simp add: load_segment_loaded [OF disk])
  next
    case False
    have ap: "apart (seg_start (p_va (kernel_segment disk n))) (seg_end (kernel_segment disk n))
        (unat (p_va ?q)) (unat (p_va ?q) + unat (p_memsz ?q))"
      using disk Suc.prems False by (auto simp: bootable_def Let_def)
    have fits: "unat (p_va ?q) + unat (p_memsz ?q) < 2 ^ 32"
      using disk Suc.prems by (auto simp: bootable_def Let_def seg_fits_def)
    have "load_segment disk n ?m (p_va ?q + word_of_nat k) = ?m (p_va ?q + word_of_nat k)"
      if "k < unat (p_memsz ?q)" for k
    proof -
      have "unat (p_va ?q + word_of_nat k) = unat (p_va ?q) + k"
        using that fits by (simp add: unat_word_ariths unat_of_nat)
      with ap that show ?thesis by (intro load_segment_other) (auto simp: apart_def)
    qed
    with Suc False show ?thesis by (simp add: segment_loaded_def)
  qed
qed simp

lemma scratch_page:
  assumes D: "ide_reads D idle disk" and d: "idle d" and disk: "4608 \<le> length disk"
  obtains m' d' where "idle d'" "readseg D ELFHDR 1 PAGESIZE PAGESIZE m d = Some (m', d')"
    and "scratch_kept disk m'"
    and "\<And>a. unat a < 0x10000 \<or> 0x11000 \<le> unat a \<Longrightarrow> m' a = m a"
proof -
  let ?m = "seg_bytes disk 0 ELFHDR PAGESIZE PAGESIZE m"
  have fits: "seg_fits (length disk) 0 ELFHDR PAGESIZE PAGESIZE"
    using disk by (simp add: seg_fits_def seg_start_def seg_sectors_def ELFHDR_def PAGESIZE_def)
  obtain d' where d': "idle d'"
    and r: "readseg D ELFHDR (0 div SECTORSIZE + 1) PAGESIZE PAGESIZE m d = Some (?m, d')"
    by (rule readseg_ok [OF D d fits])
  have "unat (ELFHDR + a) = 0x10000 + unat a" if "unat a < 4096" for a
    using that by (simp add: ELFHDR_def unat_word_ariths)
  then have sk: "scratch_kept disk ?m"
    by (simp add: scratch_kept_def seg_bytes_def seg_start_def seg_sectors_def ELFHDR_def
        PAGESIZE_def kernel_file_def)
  show thesis
    by (rule that [OF d' _ sk]) (use r in \<open>auto simp: SECTORSIZE_def seg_bytes_def seg_start_def
        seg_sectors_def ELFHDR_def PAGESIZE_def\<close>)
qed

lemma bootmain_ok:
  assumes D: "ide_reads D idle disk" and d: "idle d" and disk: "bootable disk"
  shows "\<exists>m' d'. bootmain D m d = Some (Boot_jumps (e_entry (kernel_header disk)) 0x1001C m' d') \<and>
    idle d' \<and> (\<forall>i < segments disk. segment_loaded disk (kernel_segment disk i) m') \<and>
    (\<forall>a. apart (unat a) (unat a + 1) 0x10000 0x11000 \<and>
       (\<forall>i < segments disk. apart (unat a) (unat a + 1)
          (seg_start (p_va (kernel_segment disk i))) (seg_end (kernel_segment disk i))) \<longrightarrow>
       m' a = m a)"
proof -
  have len: "4608 \<le> length disk" and magic: "e_magic (kernel_header disk) = ELF_MAGIC"
    using disk by (simp_all add: bootable_def)
  obtain m1 d1 where d1: "idle d1" and r: "readseg D ELFHDR 1 PAGESIZE PAGESIZE m d = Some (m1, d1)"
    and m1: "scratch_kept disk m1" and out: "\<And>a. unat a < 0x10000 \<or> 0x11000 \<le> unat a \<Longrightarrow> m1 a = m a"
    by (rule scratch_page [OF D d len, of m]) blast
  let ?load = "\<lambda>n. foldl (\<lambda>m i. load_segment disk i m) m1 [0..<n]"
  let ?n = "segments disk"
  have kept: "n \<le> ?n \<Longrightarrow> scratch_kept disk (?load n)" for n
    by (induction n) (simp_all add: m1 scratch_kept_step [OF disk])
  obtain d2 where d2: "idle d2"
    and b: "boot_segments D (ELFHDR + e_phoff (kernel_header disk))
        (ELFHDR + e_phoff (kernel_header disk) + 32 * word_of_nat ?n) m1 d1 = Some (?load ?n, d2)"
    using boot_segments_ok [OF D disk d1 m1, of 0 ?n] by auto
  have entry: "load32 (?load ?n) (ELFHDR + 24) = e_entry (kernel_header disk)"
    using arg_cong [OF header_scratch [OF kept [of ?n]], of e_entry] by (simp add: elf_header_at_def)
  have phnum: "(ucast (e_phnum (kernel_header disk)) :: u32) = word_of_nat ?n"
    by (simp add: segments_def)
  have run: "bootmain D m d = Some (Boot_jumps (e_entry (kernel_header disk)) 0x1001C (?load ?n) d2)"
    using b entry by (simp add: bootmain_def r header_scratch [OF m1] magic phnum) (simp add: ELFHDR_def)
  have other: "?load ?n a = m a" if "apart (unat a) (unat a + 1) 0x10000 0x11000"
    and "\<forall>i < ?n. apart (unat a) (unat a + 1)
      (seg_start (p_va (kernel_segment disk i))) (seg_end (kernel_segment disk i))" for a
    using that out [of a] by (subst load_segments_kept) (auto simp: apart_def)
  show ?thesis
    using run d2 load_segments_loaded [OF disk order_refl] other by blast
qed

section \<open>A controller\<close>

text \<open>
  A controller that keeps the promise, for every disk: the five address registers, the words of
  the sector that was asked for, and how often the next polls say busy.
\<close>

record pio =
  pio_regs :: "u8 list"
  pio_data :: "u32 list"
  pio_busy :: nat

definition pio_ports :: "u8 list \<Rightarrow> pio device" where
  "pio_ports disk = \<lparr>
     dev_in = (\<lambda>port p. if pio_busy p = 0 then (0x50, p) else (0x80, p\<lparr>pio_busy := pio_busy p - 1\<rparr>)),
     dev_out = (\<lambda>port v p.
       if port = 0x1F7
       then let r = List.map unat (pio_regs p);
                s = r ! 1 + 2 ^ 8 * r ! 2 + 2 ^ 16 * r ! 3 + 2 ^ 24 * (r ! 4 mod 16)
            in p\<lparr>pio_data := sector_words disk s, pio_busy := 2\<rparr>
       else p\<lparr>pio_regs := (pio_regs p)[port - 0x1F2 := v]\<rparr>)\<rparr>"

definition pio_disk :: "u8 list \<Rightarrow> pio ide" where
  "pio_disk disk = \<lparr>ports = pio_ports disk,
     in_long = (\<lambda>port p. (hd (pio_data p), p\<lparr>pio_data := tl (pio_data p)\<rparr>))\<rparr>"

definition pio_idle :: "pio \<Rightarrow> bool" where
  "pio_idle p \<longleftrightarrow> length (pio_regs p) = 5"

lemma pio_ready: "ready_after (pio_disk disk) p (p\<lparr>pio_busy := 0\<rparr>)"
proof (induction "pio_busy p" arbitrary: p)
  case 0
  then have "p\<lparr>pio_busy := 0\<rparr> = p" by (cases p) simp
  with 0 show ?case
    by (intro ready_after.ready [where s = "0x50"]) (simp_all add: inb_def pio_disk_def pio_ports_def)
next
  case (Suc n)
  then have busy: "pio_busy p = Suc n" by simp
  have rest: "ready_after (pio_disk disk) (p\<lparr>pio_busy := n\<rparr>) (p\<lparr>pio_busy := 0\<rparr>)"
    using Suc.hyps(1) [of "p\<lparr>pio_busy := n\<rparr>"] by simp
  show ?case
    by (rule ready_after.busy [where s = "0x80", OF _ _ rest])
      (simp_all add: inb_def pio_disk_def pio_ports_def busy)
qed

lemma pio_words:
  "length ws = n \<Longrightarrow> long_words (pio_disk disk) n (p\<lparr>pio_data := ws @ us\<rparr>) = (ws, p\<lparr>pio_data := us\<rparr>)"
proof (induction ws arbitrary: n)
  case (Cons w ws)
  then obtain k where "n = Suc k" "length ws = k" by auto
  then show ?case using Cons.IH [of k] by (simp add: pio_disk_def)
qed simp

lemma pio_command:
  assumes "pio_idle p" "s < 2 ^ 28"
  shows "\<exists>q. outbs (ports (pio_disk disk)) (read_command s) p =
    q\<lparr>pio_data := sector_words disk s @ [], pio_busy := 2\<rparr> \<and> pio_idle q"
proof -
  obtain a b c e f where regs: "pio_regs p = [a, b, c, e, f]"
    using assms(1) by (auto simp: pio_idle_def numeral_eq_Suc length_Suc_conv)
  have byte: "unat (word_of_int (int k) :: u8) = k mod 256" for k
    by (simp add: unat_of_nat)
  have drive: "unat (word_of_int (0xE0 + int (s div 2 ^ 24)) :: u8) mod 16 = s div 2 ^ 24"
  proof -
    have "(0xE0 + k) mod 16 = k mod (16 :: nat)" for k
      using mod_mult_self3 [of 14 16 k] by simp
    moreover have "unat (word_of_int (0xE0 + int (s div 2 ^ 24)) :: u8) = 0xE0 + s div 2 ^ 24"
      using byte [of "0xE0 + s div 2 ^ 24"] assms(2) by simp
    ultimately show ?thesis using assms(2) by simp
  qed
  have sector: "s mod 256 + 256 * (s div 256 mod 256) + 65536 * (s div 65536 mod 256) +
      16777216 * (s div 16777216) = s"
    using div_mult2_eq [of s 256 256, simplified] div_mult2_eq [of s 65536 256, simplified]
      mult_div_mod_eq [of 256 s] mult_div_mod_eq [of 256 "s div 256"]
      mult_div_mod_eq [of 256 "s div 65536"] by linarith
  show ?thesis
    by (rule exI [of _ "p\<lparr>pio_regs := [1, word_of_int (int s), word_of_int (int (s div 2 ^ 8)),
          word_of_int (int (s div 2 ^ 16)), word_of_int (0xE0 + int (s div 2 ^ 24))]\<rparr>"])
      (use drive byte sector in \<open>simp add: pio_disk_def pio_ports_def read_command_def outb_def
        regs pio_idle_def Let_def\<close>)
qed

lemma pio_sector:
  assumes "pio_idle p" "s < 2 ^ 28"
  shows "\<exists>d2 d3. ready_after (pio_disk disk) (outbs (ports (pio_disk disk)) (read_command s) p) d2 \<and>
    long_words (pio_disk disk) 128 d2 = (sector_words disk s, d3) \<and> pio_idle d3"
proof -
  obtain q where q: "outbs (ports (pio_disk disk)) (read_command s) p =
      q\<lparr>pio_data := sector_words disk s @ [], pio_busy := 2\<rparr>" and idle: "pio_idle q"
    using pio_command [OF assms] by blast
  have "long_words (pio_disk disk) 128 (q\<lparr>pio_data := sector_words disk s @ [], pio_busy := 0\<rparr>) =
      (sector_words disk s, q\<lparr>pio_busy := 0, pio_data := []\<rparr>)"
    using pio_words [of "sector_words disk s" 128 disk "[]" "q\<lparr>pio_busy := 0\<rparr>"]
    by (cases q) (simp add: sector_words_def)
  moreover have "pio_idle (q\<lparr>pio_busy := 0, pio_data := []\<rparr>)" using idle by (simp add: pio_idle_def)
  ultimately show ?thesis
    unfolding q using pio_ready [of disk "q\<lparr>pio_data := sector_words disk s @ [], pio_busy := 2\<rparr>"]
    by auto
qed

lemma pio_reads: "ide_reads (pio_disk disk) pio_idle disk"
  unfolding ide_reads_def
proof (intro allI impI)
  fix p assume p: "pio_idle p"
  then have "pio_idle (p\<lparr>pio_busy := 0\<rparr>)" by (simp add: pio_idle_def)
  then show "\<exists>d1. ready_after (pio_disk disk) p d1 \<and> (\<forall>s. s < 2 ^ 28 \<and> 512 * (s + 1) \<le> length disk \<longrightarrow>
      (\<exists>d2 d3. ready_after (pio_disk disk) (outbs (ports (pio_disk disk)) (read_command s) d1) d2 \<and>
        long_words (pio_disk disk) 128 d2 = (sector_words disk s, d3) \<and> pio_idle d3))"
    using pio_ready [of disk p] pio_sector by blast
qed

end
