(* ===== verification/BootImage.thy ===== *)
theory BootImage
  imports MkbootProps BootProps
begin

text \<open>
  The image builder and the boot loader together: the image that \<open>mkbootdisk bootsector kernel\<close>
  writes, on the first IDE disk, boots that kernel.
\<close>

lemma image_bytes:
  assumes "length code \<le> 510" "files kern = Some elf" "skip_argument kern = None" "i < length elf"
  shows "bootimage files code [kern] ! (512 + i) = elf ! i"
  using assms by (simp add: bootimage_def nth_append padded_def)

lemma image_header:
  assumes "length code \<le> 510" "files kern = Some elf" "skip_argument kern = None" "46 \<le> length elf"
  shows "kernel_header (bootimage files code [kern]) = elf_header_at (buffer elf) 0"
proof -
  have "kernel_file (bootimage files code [kern]) a = buffer elf a" if "unat a < 46" for a
    using image_bytes [where files = files, OF assms(1-3)] that assms(4) by (simp add: kernel_file_def buffer_def)
  then show ?thesis
    by (simp add: kernel_header_def elf_header_at_def load32_def load16_def)
qed

text \<open>
  C37: A built image boots. When output only delays, \<open>mkbootdisk\<close> with a boot sector and a kernel
  file ends with status 0; and with a controller for the disk it wrote, when the kernel's
  segments are loadable, \<open>bootmain\<close> leaves for the entry point of the kernel's ELF header and
  every segment stands in memory with the bytes of the kernel file.
\<close>

theorem built_image_boots:
  assumes "at_end s" "contents (diskfd s) = []" "boot \<noteq> option_p" "boot \<noteq> option_m"
    and "files boot = Some code" "length code \<le> 510"
    and "files kern = Some elf" "skip_argument kern = None" "46 \<le> length elf"
    and "ide_reads D idle (bootimage files code [kern])" "idle d"
    and "bootable (bootimage files code [kern])"
  shows "\<exists>s' m' d'. mkbootdisk files [boot, kern] s = Some (0, s') \<and>
    contents (diskfd s') = bootimage files code [kern] \<and>
    bootmain D m d = Some (Boot_jumps (e_entry (elf_header_at (buffer elf) 0)) 0x1001C m' d') \<and>
    (\<forall>i < segments (contents (diskfd s')). let p = kernel_segment (contents (diskfd s')) i in
       \<forall>k < unat (p_filesz p). k < unat (p_memsz p) \<and> unat (p_offset p) + k < length elf \<longrightarrow>
         m' (p_va p + word_of_nat k) = elf ! (unat (p_offset p) + k))"
proof -
  let ?img = "bootimage files code [kern]"
  have "arguments_ok files [kern] 1" using assms(7,8) by simp
  from mkbootdisk_image [OF assms(1,3,4,5,6) this] obtain s' where
    s': "mkbootdisk files [boot, kern] s = Some (0, s')" "contents (diskfd s') = ?img"
    using assms(2) by (auto simp: wrote_def)
  obtain m' d' where m': "bootmain D m d = Some (Boot_jumps (e_entry (kernel_header ?img)) 0x1001C m' d')"
    and loaded: "\<And>i. i < segments ?img \<Longrightarrow> segment_loaded ?img (kernel_segment ?img i) m'"
    using bootmain_ok [OF assms(10-12), of m] by blast
  have "m' (p_va p + word_of_nat k) = elf ! (unat (p_offset p) + k)"
    if "i < segments ?img" "p = kernel_segment ?img i" "k < unat (p_filesz p)" "k < unat (p_memsz p)"
      "unat (p_offset p) + k < length elf" for i p k
    using loaded [OF that(1)] that image_bytes [where files = files, OF assms(6-8) that(5)]
    by (simp add: segment_loaded_def add.assoc)
  then show ?thesis
    using s' m' image_header [where files = files, OF assms(6-9)] by (auto simp: Let_def)
qed

section \<open>A kernel\<close>

text \<open>One segment of three bytes in the file and eight in memory, at \<open>0x40000\<close>.\<close>

definition tiny_kernel :: "u8 list" where
  "tiny_kernel =
     [0x7F, 0x45, 0x4C, 0x46, 1, 1, 1, 0, 0, 0, 0, 0, 0, 0, 0, 0, 2, 0, 3, 0, 1, 0, 0, 0,
      0, 0, 4, 0, 52, 0, 0, 0, 0, 0, 0, 0, 0, 0, 0, 0, 52, 0, 32, 0, 1, 0, 0, 0, 0, 0, 0, 0,
      1, 0, 0, 0, 0, 2, 0, 0, 0, 0, 4, 0, 0, 0, 4, 0, 3, 0, 0, 0, 8, 0, 0, 0, 7, 0, 0, 0, 0, 0, 0, 0] @
     replicate 428 0 @ [0x90, 0x90, 0xF4]"

definition tiny_files :: "u8 list \<Rightarrow> u8 list option" where
  "tiny_files name = (if name = [98] then Some [0xEB, 0xFE]
                      else if name = [107] then Some tiny_kernel else None)"

definition tiny_image :: "u8 list" where
  "tiny_image = bootimage tiny_files [0xEB, 0xFE] [[107]]"

lemma tiny_skip: "skip_argument [107] = None"
  by (simp add: skip_argument_def)

lemma length_tiny: "length tiny_kernel = 515" "length tiny_image = 524288"
  by (simp_all add: tiny_kernel_def tiny_image_def bootimage_def tiny_skip tiny_files_def padded_def)

lemma tiny_segment:
  "kernel_header tiny_image = \<lparr>e_magic = ELF_MAGIC, e_entry = 0x40000, e_phoff = 52, e_phnum = 1\<rparr>"
  "kernel_segment tiny_image 0 = \<lparr>p_type = 1, p_offset = 512, p_va = 0x40000, p_filesz = 3,
     p_memsz = 8, p_flags = 7\<rparr>"
proof -
  have byte: "kernel_file tiny_image a = tiny_kernel ! unat a" if "unat a < 84" for a
    using image_bytes [of "[0xEB, 0xFE]" tiny_files "[107]" tiny_kernel "unat a"] that
    by (simp add: kernel_file_def tiny_image_def tiny_files_def tiny_skip length_tiny)
  show h: "kernel_header tiny_image = \<lparr>e_magic = ELF_MAGIC, e_entry = 0x40000, e_phoff = 52, e_phnum = 1\<rparr>"
    by (simp add: kernel_header_def elf_header_at_def load32_def load16_def byte ELF_MAGIC_def)
      (simp add: tiny_kernel_def)
  show "kernel_segment tiny_image 0 = \<lparr>p_type = 1, p_offset = 512, p_va = 0x40000, p_filesz = 3,
     p_memsz = 8, p_flags = 7\<rparr>"
    by (simp add: kernel_segment_def h elf_program_at_def load32_def byte) (simp add: tiny_kernel_def)
qed

lemma tiny_bootable: "bootable tiny_image"
  by (simp add: bootable_def segments_def tiny_segment length_tiny seg_fits_def seg_start_def
      seg_sectors_def seg_end_def apart_def)

text \<open>
  C38: The boot loader loads the kernel. With a controller that keeps its promise and a bootable
  disk, \<open>bootmain\<close> ends: it leaves for the entry point of the image, every segment stands at its
  address with the bytes of the file and zeroes behind them, the controller is idle, and memory
  outside the scratch page and the segments' sectors is as before.
\<close>

theorem bootmain_loads:
  assumes D: "ide_reads D idle disk" and d: "idle d" and disk: "bootable disk"
  shows "\<exists>m' d'. bootmain D m d = Some (Boot_jumps (e_entry (kernel_header disk)) 0x1001C m' d') \<and>
    idle d' \<and> (\<forall>i < segments disk. segment_loaded disk (kernel_segment disk i) m') \<and>
    (\<forall>a. apart (unat a) (unat a + 1) 0x10000 0x11000 \<and>
       (\<forall>i < segments disk. apart (unat a) (unat a + 1)
          (seg_start (p_va (kernel_segment disk i))) (seg_end (kernel_segment disk i))) \<longrightarrow>
       m' a = m a)"
  by (rule bootmain_ok [OF assms])

definition pio_start :: pio where
  "pio_start = \<lparr>pio_regs = replicate 5 0, pio_data = [], pio_busy = 0\<rparr>"

lemma pio_start_idle: "pio_idle pio_start"
  by (simp add: pio_idle_def pio_start_def)

lemma bootmain_loads_witness:
  "\<exists>m' d'. bootmain (pio_disk tiny_image) (\<lambda>_. 0) pio_start = Some (Boot_jumps 0x40000 0x1001C m' d') \<and>
    segment_loaded tiny_image (kernel_segment tiny_image 0) m' \<and> m' 0x60000 = 0"
  using bootmain_loads [OF pio_reads pio_start_idle tiny_bootable, of "\<lambda>_. 0"]
  by (auto simp: tiny_segment segments_def apart_def seg_start_def seg_end_def seg_sectors_def)

lemma built_image_boots_witness:
  "\<exists>s' m' d'. mkbootdisk tiny_files [[98], [107]] slow_output = Some (0, s') \<and>
    bootmain (pio_disk tiny_image) (\<lambda>_. 0) pio_start = Some (Boot_jumps 0x40000 0x1001C m' d') \<and>
    m' 0x40002 = 0xF4"
proof -
  have img: "bootimage tiny_files [0xEB, 0xFE] [[107]] = tiny_image" by (simp add: tiny_image_def)
  have f: "tiny_files [98] = Some [0xEB, 0xFE]" "tiny_files [107] = Some tiny_kernel"
    by (simp_all add: tiny_files_def)
  have hdr: "elf_header_at (buffer tiny_kernel) 0 = kernel_header tiny_image"
    using image_header [where files = tiny_files, OF _ f(2) tiny_skip, of "[0xEB, 0xFE]"] by (simp add: img length_tiny)
  have last: "tiny_kernel ! 514 = 0xF4" by (simp add: tiny_kernel_def nth_append)
  from built_image_boots [where files = tiny_files, OF slow_output_at_end _ _ f(1) _ f(2) tiny_skip,
      where D = "pio_disk tiny_image" and idle = pio_idle and d = pio_start and m = "\<lambda>_. 0"]
  obtain s' m' d' where r: "mkbootdisk tiny_files [[98], [107]] slow_output = Some (0, s')"
    "contents (diskfd s') = tiny_image"
    "bootmain (pio_disk tiny_image) (\<lambda>_. 0) pio_start = Some (Boot_jumps 0x40000 0x1001C m' d')"
    and seg: "\<forall>i < segments tiny_image. let p = kernel_segment tiny_image i in
       \<forall>k < unat (p_filesz p). k < unat (p_memsz p) \<and> unat (p_offset p) + k < length tiny_kernel \<longrightarrow>
         m' (p_va p + word_of_nat k) = tiny_kernel ! (unat (p_offset p) + k)"
    by (auto simp: img hdr tiny_segment option_p_def option_m_def length_tiny pio_reads
        pio_start_idle tiny_bootable)
  have "m' 0x40002 = 0xF4"
    using seg [rule_format, of 0] by (auto simp: segments_def tiny_segment length_tiny last dest!: spec [of _ 2])
  with r show ?thesis by blast
qed

end
