(* ===== verification/Spec2Isabelle.thy ===== *)
theory Spec2Isabelle
  imports LibRand Console M61Run HardwareProps KernelProps KernelBoot ProcessProps Io61Blocks StridedProps Stdio61 PipeProps PongHttp PongThreads MkbootPart BootImage
begin

text \<open>
  A verification development for the programs of this repository: the debugging allocator of
  \<open>pset1\<close>, the teaching operating system WeensyOS of \<open>pset3\<close>, the buffered I/O library of
  \<open>pset4\<close> and the pong client of \<open>pset5\<close>. The definitions are translations of the C code;
  every operation is a function on an explicit state, and the theorems are about them.

  \<^bold>\<open>The program\<close>

  \<^item> \<open>pset1/m61.c\<close> wraps \<open>malloc\<close>, \<open>free\<close>, \<open>realloc\<close> and \<open>calloc\<close>: it keeps a doubly linked
    list of allocations in front of the payloads, a copy of the pointer behind them,
    statistics, and counters of the allocation sites with the most bytes and calls.
  \<^item> \<open>pset3\<close>: \<open>mkbootdisk.c\<close> writes the disk image, \<open>boot.c\<close> loads the kernel from it,
    \<open>kernel.c\<close> with \<open>k-hardware.c\<close> and \<open>k-loader.c\<close> sets up descriptor tables, page tables and
    processes, and serves interrupts: system calls for yielding, pages, \<open>fork\<close> and \<open>exit\<close>, the
    timer, page faults. \<open>lib.c\<close> is its C library, \<open>process.c\<close> what processes print with.
  \<^item> \<open>pset4/io61.c\<close> is a library of buffered files with ten caches and least recently used
    replacement; \<open>slow-io61.c\<close> has the same interface without buffers, \<open>stdio-io61.c\<close> on the
    streams of the C library. \<open>cat61\<close>, \<open>blockcat61\<close>, \<open>reverse61\<close>, \<open>stridecat61\<close>, \<open>ostridecat61\<close>, \<open>reordercat61\<close> and \<open>randomcat61\<close> are
    programs over any of them.
  \<^item> \<open>pset5/pong61.c\<close> moves a ball on a server's board: one thread per move sends a request
    over a connection from a shared array, in the order that two mutexes enforce, and parses
    the response.

  \<^bold>\<open>Theories and sources\<close>

  \<^item> \<open>Prelude\<close>: integer types (\<open>u8\<close>, \<open>u16\<close>, \<open>u32\<close>, \<open>u64\<close>), collections of facts, word lemmas.
  \<^item> \<open>CMemory\<close>, \<open>CStrings\<close>, \<open>LibRand\<close>, \<open>Printf\<close>, \<open>Console\<close>: \<open>pset3/lib.c\<close> and \<open>process.c\<close>.
    Memory is a function \<open>u32 \<Rightarrow> u8\<close>; a printer is a state with the function that takes one
    character, and \<open>printer_vprintf\<close> folds over the format.
  \<^item> \<open>HitTracker\<close>, \<open>M61\<close>: \<open>pset1/m61.c\<close> on byte memory, metadata at its offsets;
    \<open>M61List\<close>, \<open>M61Correct\<close>, \<open>M61Props\<close>, \<open>M61Run\<close>: the list in memory, the invariant, its
    preservation by each call, runs of calls. \<open>MemRegions\<close> has the frame lemmas of memory.
  \<^item> \<open>Hardware\<close>, \<open>Keyboard\<close>, \<open>VirtualMemory\<close>: \<open>pset3/k-hardware.c\<close> and the structures of
    \<open>x86.h\<close>; \<open>HardwareProps\<close> their properties. Ports are a parameter, a record \<open>device\<close>.
  \<^item> \<open>Kernel\<close>, \<open>KernelMain\<close>: \<open>pset3/kernel.c\<close>, \<open>kernel.h\<close>, \<open>k-loader.c\<close>, \<open>elf.h\<close>. The state is the
    record \<open>kernel\<close>, a field for each global variable, \<open>memory\<close> for physical memory with the
    page tables in it, \<open>devices\<close> for what is behind the ports. \<open>KernelMemory\<close>, \<open>KernelFork\<close>,
    \<open>KernelProps\<close>, \<open>KernelAlloc\<close>: pages, \<open>fork\<close>, the scheduler, \<open>exit\<close> and \<open>sys_page_alloc\<close>.
    \<open>KernelIsolation\<close> says when address spaces are apart; \<open>IsolationSteps\<close>, \<open>IsolationFork\<close>,
    \<open>IsolationExit\<close> show it of each system call; \<open>KernelSteps\<close>, \<open>KernelSafety\<close>, \<open>KernelApart\<close>
    of interrupts and of the kernel with its processes as a transition system; \<open>KernelSetup\<close> of
    the program loader and \<open>KernelBoot\<close> of the kernel from its start on. \<open>Processes\<close>:
    \<open>p-allocator.c\<close>, \<open>p-fork.c\<close>, \<open>p-forkexit.c\<close> and \<open>process.h\<close> as machines that step from call to
    call; \<open>ProcessProps\<close>: what they ask the kernel for.
  \<^item> \<open>Boot\<close>, \<open>BootSeg\<close>, \<open>BootProps\<close>: \<open>pset3/boot.c\<close> over an IDE controller; \<open>Mkbootdisk\<close>,
    \<open>MkbootProps\<close>, \<open>MkbootPart\<close>: \<open>pset3/build/mkbootdisk.c\<close>; \<open>BootImage\<close>: both together.
  \<^item> \<open>Io61\<close>: \<open>pset4/io61.c\<close>, \<open>slow-io61.c\<close>, \<open>cat61.c\<close>, \<open>blockcat61.c\<close>, \<open>reverse61.c\<close> over the
    record \<open>os_fd\<close> of an open file; \<open>Io61Readers\<close>, \<open>Io61Cache\<close>, \<open>Io61Write\<close>, \<open>Io61Read\<close>,
    \<open>Io61Props\<close>, \<open>Io61Blocks\<close>: interfaces, invariants and properties. \<open>Strided\<close>,
    \<open>StridedProps\<close>: the four programs that copy by seeking. \<open>Stdio61\<close>: \<open>stdio-io61.c\<close> over a
    record \<open>stream\<close> for a stream of the C library. \<open>Pipes\<close>, \<open>PipeProps\<close>:
    \<open>pipeexchange61.c\<close>, two processes and two pipes, one system call of \<open>slow-io61.c\<close> a step.
  \<^item> \<open>CNumbers\<close>: \<open>strtoul\<close>. \<open>Pong61\<close>: \<open>pset5/pong61.c\<close>; \<open>PongHttp\<close> the parser, \<open>PongBall\<close> the
    trajectory, \<open>PongPool\<close> the array of connections, \<open>PongThreads\<close> the threads.

  \<^bold>\<open>What is proved\<close>

  \<^item> m61: in every state that well-behaved calls reach, the list in memory is the list of live
    allocations, payloads are disjoint, zeroed when fresh and kept when others are freed, and
    the statistics of live allocations are right (\<open>m61_reachable_intact\<close>); the contract of each
    call, with the one case in which an allocation crashes (\<open>m61_malloc_contract\<close>); the reports of
    wild writes, frees inside a block and leaks; the error bounds of the heavy hitter counters.
    Nothing is proved of double frees: the code looks for them in memory it has given back.
  \<^item> C library: \<open>memmove\<close> on overlapping blocks, decimal conversion; no store of the console's
    printer outside of its cells (\<open>console_vprintf_bounds\<close>), bounded strings.
  \<^item> Isolation: in every state that processes and interrupts reach, a page that a process can
    write no other process can access, except for the console page, which all share; no process
    can access a page table; and a process that waits keeps its registers and its memory
    (\<open>isolation_invariant\<close>, \<open>waiting_process_kept\<close>). The steps are any write of the running process
    to pages it may write, after which the console's cells and cursor may hold anything, and whole
    interrupts. They are restricted by a guard on the calls that the kernel does not check,
    \<open>call_ok\<close>: an address of the process's own half for \<open>sys_page_alloc\<close>, and at \<open>fork\<close> no
    reference count of 127, the largest an \<open>int8_t\<close> holds. The state in which \<open>start\<close> runs the
    first process after a cold boot is such a state, whatever programs it loads (\<open>booted_isolation\<close>);
    assumed is what the linker promises: where the kernel's tables and its end are (\<open>linked_ok\<close>),
    and that program images are in the kernel and their segments above it (\<open>image_ok\<close>). The soft
    reboot of a control key, with \<open>current\<close> still set, is not covered. The three test programs
    meet the guard with every call but \<open>fork\<close> in every run (\<open>process_requests\<close>).
  \<^item> Kernel: \<open>fork\<close> either makes an isolated copy of the address space or fails and changes no
    owner (\<open>sys_fork_contract\<close>); the scheduler takes the next runnable process and is fair;
    page tables look up what was mapped; \<open>exit\<close> releases a process without shared pages, and
    fails an assertion with them; which interrupts a process may raise.
  \<^item> Boot: a built image boots (\<open>built_image_boots\<close>), the layout of an image, writing into a
    partition touches nothing else, and a partition table on which the search does not end.
  \<^item> io61, from any files in the state that the library keeps (\<open>reading\<close>: caches are empty or hold
    their part of the file; \<open>writing\<close>: the buffer is within its bounds, the other slots hold
    nothing): the programs copy or reverse files on both libraries, random access through the
    caches agrees with the file; where the libraries differ, and a call that never returns.
    \<open>io61_fdopen\<close> does not set the caches, so a newly opened file is in this state only if
    \<open>malloc\<close> returns such memory (\<open>blank\<close>); \<open>output_in_order\<close> says what is written from any memory.
    \<open>stridecat61\<close> and \<open>ostridecat61\<close> undo each other on the unbuffered library and on streams, not
    with \<open>io61.c\<close>. The library on streams agrees with the unbuffered one on every sequence of
    calls (\<open>stdio_agrees\<close>).
  \<^item> pipeexchange61 on the unbuffered library: with large pipes every run ends with all messages
    exchanged and in order (\<open>pipeexchange_ends\<close>); with those of Linux no run ends
    (\<open>pipeexchange_deadlock\<close>).
  \<^item> pong61: the parser reads back a response that fits its buffer, and does not depend on how the
    response is split; in every
    reachable state there is a connection for a thread that asks, moves are sent in order, and
    a step is possible; an assertion that an early unlock makes fail.

  \<^bold>\<open>Interfaces\<close>

  Locales state what one part relies on, and are interpreted on the code that provides it:
  \<open>printer_sink\<close> (console, string and parallel port), \<open>byte_reader\<close>, \<open>byte_writer\<close>, \<open>copier\<close>
  and \<open>seek_copier\<close> (the three libraries), \<open>separation\<close> (the steps of the kernel),
  \<open>heap_program\<close> (the test programs), \<open>block_input\<close>, \<open>block_output\<close> and \<open>strided\<close> (the unbuffered
  library and the one on streams). Code outside of the repository is a parameter with named hypotheses: the C
  library's \<open>malloc\<close> and \<open>free\<close> (\<open>libc_ok\<close>), the devices, the IDE protocol (\<open>ide_reads\<close>), the
  order of threads and the answers of the server.
  Each hypothesis is shown to be satisfiable by a concrete instance in a witness theorem.

  \<^bold>\<open>Errors, bounds, termination\<close>

  Operations return \<open>None\<close> where an assertion fails, a null pointer is followed, an array is
  left (the console's cells included), or a loop does not end; exits of a program are values of their own. Loops that need not
  end are \<open>partial_function (option)\<close>, so that returning is a statement; no fuel is used. Machine
  integers are words where they wrap; sizes of files are natural numbers, with the arithmetic of
  \<open>size_t\<close> written out modulo \<open>2 ^ 64\<close> where it can wrap. The programs of \<open>pset3\<close> and m61 are
  modelled for 32 bits, \<open>mkbootdisk\<close>, \<open>pset4\<close> and \<open>pset5\<close> for 64. There are 16 processes, 512
  physical pages, 10 caches, 3 counters of allocation sites and 30 threads, as in the code. The
  lifetime of a cache is an unbounded integer where the code has an \<open>int\<close>. The console's cells
  and cursor are fields of the kernel's state, apart from \<open>memory\<close>, though they lie in a page that
  processes can write; a step of a process therefore leaves them arbitrary.

  \<^bold>\<open>Not modelled\<close>

  The assembly of \<open>bootstart.S\<close>, \<open>k-interrupt.S\<close> and of the inline functions beyond their effect
  on the modelled state; caches, interrupts between instructions and timing of the machine; the
  test programs of m61 and \<open>qemu-nograb.c\<close>; \<open>pipeexchange61\<close> on the buffered library; errors of \<open>read\<close> and \<open>write\<close> in \<open>pset4\<close>; in \<open>pong61.c\<close>, sockets, the clock and
  the floating-point delay of a \<open>+\<close> response. Texts on standard error are left out.
\<close>

end
